(* ===== verification/Prelude.thy ===== *)
theory Prelude
  imports Main "HOL-Library.Word"
begin

section \<open>Shared vocabulary of the development\<close>

text \<open>
  This theory holds what every component of the model uses: the type names for the
  machine integers of the C source, results that are either an error value or a value,
  checked reads of a byte array, the fixed-width reads and writes in both byte orders, the
  character classification functions of the C locale, and the generic lemmas on them.

  A C array read is \<open>fetch\<close>: it yields \<open>Fault\<close> where the C program would read outside the
  array. A component that reads untrusted bytes is written with \<open>fetch\<close>, and its memory
  safety is the theorem that no input makes it return a \<open>Fault\<close>.
\<close>

unbundle bit_operations_syntax

type_synonym u8 = "8 word"
type_synonym u16 = "16 word"
type_synonym u32 = "32 word"
type_synonym u64 = "64 word"
type_synonym byte = u8

named_theorems result_simps \<open>sequencing of results: what it takes to succeed\<close>
named_theorems byte_simps \<open>byte order and width of the fixed-width encodings\<close>

subsection \<open>Results\<close>

text \<open>A result is \<open>Inl\<close> an error or \<open>Inr\<close> a value; the C functions return \<open>false\<close> and fill an
  error buffer, or return \<open>true\<close>.\<close>

fun ebind :: "'e + 'a \<Rightarrow> ('a \<Rightarrow> 'e + 'b) \<Rightarrow> 'e + 'b" where
  "ebind (Inl e) f = Inl e"
| "ebind (Inr x) f = f x"

definition ethen :: "'e + unit \<Rightarrow> 'e + 'b \<Rightarrow> 'e + 'b" where
  "ethen a b = ebind a (\<lambda>_. b)"

definition check :: "bool \<Rightarrow> 'e \<Rightarrow> 'e + unit" where
  "check b e = (if b then Inr () else Inl e)"

fun eall :: "('a \<Rightarrow> 'e + unit) \<Rightarrow> 'a list \<Rightarrow> 'e + unit" where
  "eall f [] = Inr ()"
| "eall f (x # xs) = ethen (f x) (eall f xs)"

definition ok :: "'e + 'a \<Rightarrow> bool" where
  "ok r = (case r of Inl _ \<Rightarrow> False | Inr _ \<Rightarrow> True)"

lemma ok_simps [simp]: "ok (Inr x)" "\<not> ok (Inl e)"
  by (simp_all add: ok_def)

lemma ok_iff: "ok r \<longleftrightarrow> (\<exists>x. r = Inr x)"
  by (cases r) auto

lemma ok_unit_iff: "ok r \<longleftrightarrow> r = Inr ()"
  by (cases r) auto

lemma ebind_Inr_iff [result_simps]: "ebind m f = Inr y \<longleftrightarrow> (\<exists>x. m = Inr x \<and> f x = Inr y)"
  by (cases m) auto

lemma ebind_Inl_iff [result_simps]: "ebind m f = Inl e \<longleftrightarrow> m = Inl e \<or> (\<exists>x. m = Inr x \<and> f x = Inl e)"
  by (cases m) auto

lemma ethen_Inr_iff [result_simps]: "ethen a b = Inr y \<longleftrightarrow> a = Inr () \<and> b = Inr y"
  by (cases a) (auto simp: ethen_def)

lemma ethen_Inl_iff [result_simps]: "ethen a b = Inl e \<longleftrightarrow> a = Inl e \<or> a = Inr () \<and> b = Inl e"
  by (cases a) (auto simp: ethen_def)

lemma ethen_simps [simp]: "ethen (Inl e) b = Inl e" "ethen (Inr ()) b = b"
  by (simp_all add: ethen_def)

lemma check_Inr_iff [result_simps]: "check b e = Inr u \<longleftrightarrow> b"
  by (simp add: check_def)

lemma check_Inl_iff [result_simps]: "check b e = Inl e' \<longleftrightarrow> \<not> b \<and> e' = e"
  by (auto simp: check_def)

lemma check_simps [simp]: "check True e = Inr ()" "check False e = Inl e"
  by (simp_all add: check_def)

lemma eall_Inr_iff [result_simps]: "eall f xs = Inr u \<longleftrightarrow> (\<forall>x \<in> set xs. f x = Inr ())"
  by (induction xs) (auto simp: result_simps)

lemma eall_InlD: "eall f xs = Inl e \<Longrightarrow> \<exists>x \<in> set xs. f x = Inl e"
  by (induction xs) (auto simp: result_simps)

lemma ebind_cong [fundef_cong]:
  "m = m' \<Longrightarrow> (\<And>x. m' = Inr x \<Longrightarrow> f x = f' x) \<Longrightarrow> ebind m f = ebind m' f'"
  by (cases m') auto

subsection \<open>Checked array reads\<close>

definition fetch :: "'a list \<Rightarrow> nat \<Rightarrow> 'e \<Rightarrow> 'e + 'a" where
  "fetch xs i e = (if i < length xs then Inr (xs ! i) else Inl e)"

lemma fetch_Inr_iff [result_simps]: "fetch xs i e = Inr x \<longleftrightarrow> i < length xs \<and> x = xs ! i"
  by (auto simp: fetch_def)

lemma fetch_Inl_iff [result_simps]: "fetch xs i e = Inl e' \<longleftrightarrow> length xs \<le> i \<and> e' = e"
  by (auto simp: fetch_def)

lemma fetch_in_range [simp]: "i < length xs \<Longrightarrow> fetch xs i e = Inr (xs ! i)"
  by (simp add: fetch_def)

subsection \<open>Fixed-width integers as bytes\<close>

definition u16_be :: "u8 \<Rightarrow> u8 \<Rightarrow> u16" where
  "u16_be b1 b0 = push_bit 8 (ucast b1) OR ucast b0"

definition u32_be :: "u8 \<Rightarrow> u8 \<Rightarrow> u8 \<Rightarrow> u8 \<Rightarrow> u32" where
  "u32_be b3 b2 b1 b0 =
     push_bit 24 (ucast b3) OR push_bit 16 (ucast b2) OR push_bit 8 (ucast b1) OR ucast b0"

definition u16_bytes_be :: "u16 \<Rightarrow> u8 list" where
  "u16_bytes_be v = [ucast (drop_bit 8 v), ucast v]"

definition u32_bytes_be :: "u32 \<Rightarrow> u8 list" where
  "u32_bytes_be v = [ucast (drop_bit 24 v), ucast (drop_bit 16 v), ucast (drop_bit 8 v), ucast v]"

text \<open>The C conversion of an integer to \<open>int32_t\<close>, which wraps.\<close>

definition to_int32 :: "int \<Rightarrow> int" where
  "to_int32 x = sint (word_of_int x :: u32)"

definition to_uint32 :: "int \<Rightarrow> nat" where
  "to_uint32 x = unat (word_of_int x :: u32)"

lemma length_u16_bytes_be [simp]: "length (u16_bytes_be v) = 2"
  by (simp add: u16_bytes_be_def)

lemma length_u32_bytes_be [simp]: "length (u32_bytes_be v) = 4"
  by (simp add: u32_bytes_be_def)

subsection \<open>Widths of the byte-order encodings\<close>

lemma bit_small_word:
  fixes b :: "'b::len word"
  assumes "unat b < 2 ^ n" "n \<le> m" shows "\<not> bit b m"
proof -
  have "unat b < 2 ^ m" using assms
    by (meson less_le_trans one_le_numeral power_increasing)
  hence "\<not> bit (unat b) m" by (simp add: bit_iff_odd)
  thus ?thesis by (simp add: bit_unsigned_iff)
qed

lemma unat_or_disjoint:
  fixes a b :: "'a::len word"
  assumes "a AND b = 0" shows "unat (a OR b) = unat a + unat b"
proof -
  have "unat a AND unat b = unat (a AND b)" by (simp add: unsigned_and_eq)
  hence "unat a AND unat b = 0" by (simp only: assms unsigned_0)
  thus ?thesis by (simp add: unsigned_or_eq disjunctive_add_eq_or)
qed

lemma push_and_small_0:
  fixes a b :: "'a::len word"
  assumes "unat b < 2 ^ n"
  shows "push_bit n a AND b = 0"
  by (rule bit_word_eqI) (use bit_small_word [OF assms] in \<open>auto simp: bit_and_iff bit_push_bit_iff\<close>)

lemma unat_push_or:
  fixes a b :: "'a::len word"
  assumes "unat b < 2 ^ n" "unat a * 2 ^ n < 2 ^ LENGTH('a)"
  shows "unat (push_bit n a OR b) = unat a * 2 ^ n + unat b"
proof -
  have "unat (push_bit n a) = unat a * 2 ^ n"
    using assms(2) unsigned_push_bit_eq [where 'a = nat, of n a]
    by (simp add: push_bit_eq_mult [of n "unat a"] take_bit_nat_eq_self)
  thus ?thesis using unat_or_disjoint [OF push_and_small_0 [OF assms(1)]] by simp
qed
lemma unat_u8_bound: "unat (b :: u8) < 256" using unsigned_less [where 'a = nat, of b] by simp

lemma unat_ucast_u8:
  assumes "8 \<le> LENGTH('a)"
  shows "unat (ucast (b :: u8) :: 'a::len word) = unat b"
proof -
  have "unat b < 2 ^ 8" using unat_u8_bound [of b] by simp
  also have "(2::nat) ^ 8 \<le> 2 ^ LENGTH('a)" using assms by (rule power_increasing) simp
  finally show ?thesis by (simp only: unsigned_ucast_eq take_bit_nat_eq_self)
qed

lemma unat_u16_be: "unat (u16_be b1 b0) = 256 * unat b1 + unat b0"
proof -
  have "unat b1 * 2 ^ 8 < 2 ^ 16" "unat b0 < 2 ^ 8"
    using unat_u8_bound [of b1] unat_u8_bound [of b0] by simp_all
  thus ?thesis by (simp add: u16_be_def unat_push_or unat_ucast_u8)
qed
lemma unat_u32_be:
  "unat (u32_be b3 b2 b1 b0) = 16777216 * unat b3 + 65536 * unat b2 + 256 * unat b1 + unat b0"
proof -
  note bs = unat_u8_bound [of b3] unat_u8_bound [of b2] unat_u8_bound [of b1] unat_u8_bound [of b0]
  have e0: "unat (push_bit 8 (ucast b1) OR ucast b0 :: u32) = 256 * unat b1 + unat b0"
    using bs by (subst unat_push_or) (simp_all add: unat_ucast_u8)
  have e1: "unat (push_bit 16 (ucast b2) OR (push_bit 8 (ucast b1) OR ucast b0) :: u32)
      = 65536 * unat b2 + (256 * unat b1 + unat b0)"
    using bs by (subst unat_push_or) (simp_all add: unat_ucast_u8 e0)
  have "unat (push_bit 24 (ucast b3) OR (push_bit 16 (ucast b2) OR (push_bit 8 (ucast b1) OR ucast b0)) :: u32)
      = 16777216 * unat b3 + (65536 * unat b2 + (256 * unat b1 + unat b0))"
    using bs by (subst unat_push_or) (simp_all add: unat_ucast_u8 e1)
  thus ?thesis by (simp add: u32_be_def or.assoc)
qed

lemma u16_be_bytes [byte_simps]: "u16_be (ucast (drop_bit 8 v)) (ucast v) = v"
  unfolding u16_be_def
  by (rule bit_word_eqI) (auto simp: bit_or_iff bit_push_bit_iff bit_ucast_iff bit_drop_bit_eq)

lemma u32_be_bytes [byte_simps]:
  "u32_be (ucast (drop_bit 24 v)) (ucast (drop_bit 16 v)) (ucast (drop_bit 8 v)) (ucast v) = v"
proof (rule bit_word_eqI)
  fix n assume "n < LENGTH(32)"
  then have n: "n < 32" by simp
  consider "n < 8" | "8 \<le> n" "n < 16" | "16 \<le> n" "n < 24" | "24 \<le> n" using n by linarith
  then show "bit (u32_be (ucast (drop_bit 24 v)) (ucast (drop_bit 16 v)) (ucast (drop_bit 8 v)) (ucast v)) n = bit v n"
    by cases (use n in \<open>auto simp: u32_be_def bit_or_iff bit_push_bit_iff bit_ucast_iff bit_drop_bit_eq\<close>)
qed

lemma to_int32_id: "- (2 ^ 31) \<le> x \<Longrightarrow> x < 2 ^ 31 \<Longrightarrow> to_int32 x = x"
  by (simp add: to_int32_def signed_of_int signed_take_bit_int_eq_self)

lemma to_uint32_id: "0 \<le> x \<Longrightarrow> x < 2 ^ 32 \<Longrightarrow> to_uint32 x = nat x"
  by (simp add: to_uint32_def unsigned_of_int take_bit_int_eq_self)

lemma u16_be_lt: "unat (u16_be b1 b0) < 65536"
  using unsigned_less [where 'a = nat, of "u16_be b1 b0"] by simp

lemma u32_be_lt: "unat (u32_be b3 b2 b1 b0) < 4294967296"
  using unsigned_less [where 'a = nat, of "u32_be b3 b2 b1 b0"] by simp

subsection \<open>Reading wide operands\<close>

text \<open>Big-endian reads at a position; \<open>flt\<close> is what a read outside the array would be.\<close>

definition read_u16_be :: "'e \<Rightarrow> byte list \<Rightarrow> nat \<Rightarrow> 'e + nat" where
  "read_u16_be flt code pos =
     ebind (fetch code pos flt) (\<lambda>b1. ebind (fetch code (pos + 1) flt) (\<lambda>b0.
       Inr (unat (u16_be b1 b0))))"

definition read_u32_be :: "'e \<Rightarrow> byte list \<Rightarrow> nat \<Rightarrow> 'e + u32" where
  "read_u32_be flt code pos =
     ebind (fetch code pos flt) (\<lambda>b3. ebind (fetch code (pos + 1) flt) (\<lambda>b2.
       ebind (fetch code (pos + 2) flt) (\<lambda>b1. ebind (fetch code (pos + 3) flt) (\<lambda>b0.
         Inr (u32_be b3 b2 b1 b0)))))"

lemma read_u16_be_in_range:
  "pos + 1 < length code \<Longrightarrow> read_u16_be flt code pos = Inr (unat (u16_be (code ! pos) (code ! (pos + 1))))"
  by (simp add: read_u16_be_def)

lemma read_u32_be_in_range:
  "pos + 3 < length code \<Longrightarrow> read_u32_be flt code pos
     = Inr (u32_be (code ! pos) (code ! (pos + 1)) (code ! (pos + 2)) (code ! (pos + 3)))"
  by (simp add: read_u32_be_def)

lemma read_u16_be_lt: "read_u16_be flt code pos = Inr v \<Longrightarrow> v < 65536"
  by (auto simp: read_u16_be_def result_simps u16_be_lt)

lemma read_u16_be_bytes:
  "read_u16_be flt (xs @ u16_bytes_be v @ ys) (length xs) = Inr (unat v)"
  by (simp add: read_u16_be_def u16_bytes_be_def fetch_def nth_append byte_simps)

lemma read_u32_be_bytes:
  "read_u32_be flt (xs @ u32_bytes_be v @ ys) (length xs) = Inr v"
  by (simp add: read_u32_be_def u32_bytes_be_def fetch_def nth_append byte_simps)

subsection \<open>Characters of the C locale\<close>

text \<open>Strings of the source are byte strings ended by a NUL; the model keeps the bytes before
  the NUL as a HOL string. The classification functions are those of the C locale.\<close>

abbreviation code_of :: "char \<Rightarrow> nat" where
  "code_of c \<equiv> of_char c"

definition c_tolower :: "char \<Rightarrow> char" where
  "c_tolower c = (if 65 \<le> code_of c \<and> code_of c \<le> 90 then char_of (code_of c + 32) else c)"

definition c_isdigit :: "char \<Rightarrow> bool" where
  "c_isdigit c \<longleftrightarrow> 48 \<le> code_of c \<and> code_of c \<le> 57"

definition c_isalpha :: "char \<Rightarrow> bool" where
  "c_isalpha c \<longleftrightarrow> (65 \<le> code_of c \<and> code_of c \<le> 90) \<or> (97 \<le> code_of c \<and> code_of c \<le> 122)"

definition c_isspace :: "char \<Rightarrow> bool" where
  "c_isspace c \<longleftrightarrow> code_of c = 32 \<or> (9 \<le> code_of c \<and> code_of c \<le> 13)"

definition lower_string :: "string \<Rightarrow> string" where
  "lower_string s = map c_tolower s"

lemma c_tolower_idem [simp]: "c_tolower (c_tolower c) = c_tolower c"
proof (cases "65 \<le> code_of c \<and> code_of c \<le> 90")
  case True
  then have "of_char (char_of (code_of c + 32)) = code_of c + 32"
    by (simp add: of_char_of)
  with True show ?thesis by (simp add: c_tolower_def)
next
  case False
  then show ?thesis by (auto simp: c_tolower_def)
qed

lemma lower_string_idem [simp]: "lower_string (lower_string s) = lower_string s"
  by (simp add: lower_string_def)

lemma length_lower_string [simp]: "length (lower_string s) = length s"
  by (simp add: lower_string_def)

lemma lower_string_take: "lower_string (take n s) = take n (lower_string s)"
  by (simp add: lower_string_def take_map)

subsection \<open>Append-only byte sinks\<close>

text \<open>
  The chunk and the cache writer's buffer are both grown one byte at a time, and the encoders of
  either are sequences of single-byte appends. The contract is that an append puts its byte after
  the bytes already there; what a sequence of appends leaves behind follows from it once.
\<close>

locale byte_sink =
  fixes put :: "byte \<Rightarrow> 's \<Rightarrow> 's"
    and contents :: "'s \<Rightarrow> byte list"
  assumes contents_put: "contents (put b s) = contents s @ [b]"
begin

lemma contents_fold: "contents (fold put bs s) = contents s @ bs"
  by (induction bs arbitrary: s) (simp_all add: contents_put)

lemma read_back_u16:
  "read_u16_be flt (contents (fold put (u16_bytes_be v @ rest) s)) (length (contents s)) = Inr (unat v)"
  by (simp add: contents_fold del: fold_append) (rule read_u16_be_bytes)

lemma read_back_u32:
  "read_u32_be flt (contents (fold put (u32_bytes_be v @ rest) s)) (length (contents s)) = Inr v"
  by (simp add: contents_fold del: fold_append) (rule read_u32_be_bytes)

lemma prefix_kept: "i < length (contents s) \<Longrightarrow> contents (fold put bs s) ! i = contents s ! i"
  by (simp add: contents_fold nth_append)

end

subsection \<open>Lookup tables\<close>

text \<open>
  What the clients of a keyed table of the program rely on: a key is found through a canonical
  form (lower case, or a bounded prefix), an insertion makes its key answer with the new value
  and leaves the other keys alone. \<open>good\<close> restricts the keys for which the laws hold.
\<close>

locale lookup_table =
  fixes inv :: "'t \<Rightarrow> bool"
    and good :: "'k \<Rightarrow> bool"
    and canon :: "'k \<Rightarrow> 'c"
    and get :: "'t \<Rightarrow> 'k \<Rightarrow> 'v option"
    and put :: "'k \<Rightarrow> 'v \<Rightarrow> 't \<Rightarrow> 't"
  assumes put_inv: "inv t \<Longrightarrow> good k \<Longrightarrow> inv (put k v t)"
    and get_put: "inv t \<Longrightarrow> good k \<Longrightarrow>
      get (put k v t) k' = (if canon k' = canon k then Some v else get t k')"
begin

lemma get_put_same: "inv t \<Longrightarrow> good k \<Longrightarrow> get (put k v t) k = Some v"
  by (simp add: get_put)

lemma get_put_other: "inv t \<Longrightarrow> good k \<Longrightarrow> canon k' \<noteq> canon k \<Longrightarrow> get (put k v t) k' = get t k'"
  by (simp add: get_put)

lemma inv_fold: "inv t \<Longrightarrow> \<forall>(k, v) \<in> set kvs. good k \<Longrightarrow> inv (fold (\<lambda>(k, v). put k v) kvs t)"
  by (induction kvs arbitrary: t) (auto intro: put_inv)

text \<open>Of several insertions the last one for a key answers, which is how shadowing works.\<close>

lemma get_fold:
  assumes "inv t" "\<forall>(k, v) \<in> set kvs. good k"
  shows "get (fold (\<lambda>(k, v). put k v) kvs t) k' =
    (case map_of (rev (map (\<lambda>(k, v). (canon k, v)) kvs)) (canon k') of
       Some v \<Rightarrow> Some v | None \<Rightarrow> get t k')"
  using assms
proof (induction kvs arbitrary: t)
  case (Cons kv kvs)
  obtain k v where kv: "kv = (k, v)" by (cases kv)
  have "inv (put k v t)" using Cons.prems kv by (auto intro: put_inv)
  then show ?case
    using Cons.IH [of "put k v t"] Cons.prems kv
    by (auto simp: get_put map_add_def split: option.splits)
qed simp

lemma get_put_congr: "inv t \<Longrightarrow> good k \<Longrightarrow> canon k1 = canon k2 \<Longrightarrow> get t k1 = get t k2 \<Longrightarrow>
    get (put k v t) k1 = get (put k v t) k2"
  by (simp add: get_put)

end

subsection \<open>Interning\<close>

text \<open>
  The constant pool of a chunk and the slot list of the linker both intern: they search the items
  for one that \<open>same\<close> accepts for the key, answer with its index when there is one, and append
  an item for the key otherwise. The item an index names then \<open>stands\<close> for the key, and indices
  handed out before stay valid.
\<close>

locale interning =
  fixes items_of :: "'s \<Rightarrow> 'x list"
    and same :: "'x \<Rightarrow> 'k \<Rightarrow> bool"
    and stands :: "'x \<Rightarrow> 'k \<Rightarrow> bool"
    and intern :: "'k \<Rightarrow> 's \<Rightarrow> nat \<times> 's"
  assumes found: "\<exists>x \<in> set (items_of s). same x k \<Longrightarrow>
      snd (intern k s) = s \<and> fst (intern k s) < length (items_of s) \<and>
      same (items_of s ! fst (intern k s)) k"
    and fresh: "\<forall>x \<in> set (items_of s). \<not> same x k \<Longrightarrow>
      fst (intern k s) = length (items_of s) \<and>
      (\<exists>x. stands x k \<and> items_of (snd (intern k s)) = items_of s @ [x])"
    and same_stands: "same x k \<Longrightarrow> stands x k"
begin

lemma intern_index:
  "fst (intern k s) < length (items_of (snd (intern k s)))
   \<and> stands (items_of (snd (intern k s)) ! fst (intern k s)) k"
proof (cases "\<exists>x \<in> set (items_of s). same x k")
  case True
  then show ?thesis using found [OF True] by (auto intro: same_stands)
next
  case False
  then have "\<forall>x \<in> set (items_of s). \<not> same x k" by blast
  from fresh [OF this] show ?thesis by auto
qed

lemma intern_keeps: "take (length (items_of s)) (items_of (snd (intern k s))) = items_of s"
  and intern_length: "length (items_of s) \<le> length (items_of (snd (intern k s)))"
proof -
  have "take (length (items_of s)) (items_of (snd (intern k s))) = items_of s
      \<and> length (items_of s) \<le> length (items_of (snd (intern k s)))"
    using found [of s k] fresh [of s k] by (cases "\<exists>x \<in> set (items_of s). same x k") auto
  then show "take (length (items_of s)) (items_of (snd (intern k s))) = items_of s"
    "length (items_of s) \<le> length (items_of (snd (intern k s)))" by simp_all
qed

lemma intern_nth:
  assumes "i < length (items_of s)"
  shows "items_of (snd (intern k s)) ! i = items_of s ! i"
proof -
  have "items_of (snd (intern k s)) ! i = take (length (items_of s)) (items_of (snd (intern k s))) ! i"
    using assms by simp
  then show ?thesis by (simp only: intern_keeps)
qed

text \<open>An index stays valid, and stands for its key, through any later interning.\<close>

lemma intern_stable:
  assumes "i < length (items_of s)"
  shows "i < length (items_of (fold (\<lambda>k s. snd (intern k s)) ks s)) \<and>
    items_of (fold (\<lambda>k s. snd (intern k s)) ks s) ! i = items_of s ! i"
  using assms
proof (induction ks arbitrary: s)
  case (Cons k ks)
  then have "i < length (items_of (snd (intern k s)))" using intern_length [of s k] by simp
  then show ?case using Cons.IH [of "snd (intern k s)"] intern_nth [OF Cons.prems] by simp
qed simp

end

subsection \<open>Searches\<close>

lemma find_SomeD: "find P xs = Some x \<Longrightarrow> x \<in> set xs \<and> P x"
  by (induction xs) (auto split: if_splits)

lemma find_cong_set: "(\<And>x. x \<in> set xs \<Longrightarrow> P x = Q x) \<Longrightarrow> find P xs = find Q xs"
  by (induction xs) auto

subsection \<open>Lists updated by index\<close>

lemma nth_list_update_if: "i < length xs \<Longrightarrow> xs[i := v] ! j = (if j = i then v else xs ! j)"
  by auto

end
