(* ===== verification/Opcodes.thy ===== *)
theory Opcodes
  imports Prelude
begin

section \<open>The opcode page\<close>

text \<open>
  The opcode table of the virtual machine, from \<open>compiler/opcodes.def\<close>, with the functions of
  \<open>compiler/bytecode.c\<close> that read it. Every opcode is an abbreviation \<open>OP_x\<close> for its published
  ordinal, every member of \<open>VarType\<close> (\<open>core/var_type.h\<close>) an abbreviation \<open>TYPE_x\<close> for its
  ordinal as a byte: a type byte of the code stream is compared with these, as the C code does
  after a cast, and it may also be no member at all.
\<close>

subsection \<open>Ordinals\<close>

abbreviation OP_RETURN :: u8 where "OP_RETURN \<equiv> 0"
abbreviation OP_CONSTANT :: u8 where "OP_CONSTANT \<equiv> 1"
abbreviation OP_CONSTANT16 :: u8 where "OP_CONSTANT16 \<equiv> 2"
abbreviation OP_CONST_0 :: u8 where "OP_CONST_0 \<equiv> 3"
abbreviation OP_CONST_1 :: u8 where "OP_CONST_1 \<equiv> 4"
abbreviation OP_CONST_TRUE :: u8 where "OP_CONST_TRUE \<equiv> 5"
abbreviation OP_CONST_FALSE :: u8 where "OP_CONST_FALSE \<equiv> 6"
abbreviation OP_PUSH_IMMEDIATE_INT8 :: u8 where "OP_PUSH_IMMEDIATE_INT8 \<equiv> 7"
abbreviation OP_ADD :: u8 where "OP_ADD \<equiv> 8"
abbreviation OP_SUBTRACT :: u8 where "OP_SUBTRACT \<equiv> 9"
abbreviation OP_MULTIPLY :: u8 where "OP_MULTIPLY \<equiv> 10"
abbreviation OP_DIVIDE :: u8 where "OP_DIVIDE \<equiv> 11"
abbreviation OP_NEGATE :: u8 where "OP_NEGATE \<equiv> 12"
abbreviation OP_NOT :: u8 where "OP_NOT \<equiv> 13"
abbreviation OP_TO_BOOL :: u8 where "OP_TO_BOOL \<equiv> 14"
abbreviation OP_EQUAL :: u8 where "OP_EQUAL \<equiv> 15"
abbreviation OP_NOT_EQUAL :: u8 where "OP_NOT_EQUAL \<equiv> 16"
abbreviation OP_GREATER :: u8 where "OP_GREATER \<equiv> 17"
abbreviation OP_GREATER_EQUAL :: u8 where "OP_GREATER_EQUAL \<equiv> 18"
abbreviation OP_LESS :: u8 where "OP_LESS \<equiv> 19"
abbreviation OP_LESS_EQUAL :: u8 where "OP_LESS_EQUAL \<equiv> 20"
abbreviation OP_INT_DIV :: u8 where "OP_INT_DIV \<equiv> 21"
abbreviation OP_MOD :: u8 where "OP_MOD \<equiv> 22"
abbreviation OP_AND :: u8 where "OP_AND \<equiv> 23"
abbreviation OP_OR :: u8 where "OP_OR \<equiv> 24"
abbreviation OP_XOR :: u8 where "OP_XOR \<equiv> 25"
abbreviation OP_SHL :: u8 where "OP_SHL \<equiv> 26"
abbreviation OP_SHR :: u8 where "OP_SHR \<equiv> 27"
abbreviation OP_JUMP_IF_FALSE :: u8 where "OP_JUMP_IF_FALSE \<equiv> 28"
abbreviation OP_JUMP :: u8 where "OP_JUMP \<equiv> 29"
abbreviation OP_SWAP :: u8 where "OP_SWAP \<equiv> 30"
abbreviation OP_DUP :: u8 where "OP_DUP \<equiv> 31"
abbreviation OP_DEFINE_GLOBAL :: u8 where "OP_DEFINE_GLOBAL \<equiv> 32"
abbreviation OP_DEFINE_GLOBAL16 :: u8 where "OP_DEFINE_GLOBAL16 \<equiv> 33"
abbreviation OP_GET_GLOBAL :: u8 where "OP_GET_GLOBAL \<equiv> 34"
abbreviation OP_SET_GLOBAL :: u8 where "OP_SET_GLOBAL \<equiv> 35"
abbreviation OP_GET_GLOBAL_ADDRESS :: u8 where "OP_GET_GLOBAL_ADDRESS \<equiv> 36"
abbreviation OP_GET_GLOBAL16 :: u8 where "OP_GET_GLOBAL16 \<equiv> 37"
abbreviation OP_SET_GLOBAL16 :: u8 where "OP_SET_GLOBAL16 \<equiv> 38"
abbreviation OP_GET_GLOBAL_ADDRESS16 :: u8 where "OP_GET_GLOBAL_ADDRESS16 \<equiv> 39"
abbreviation OP_GET_GLOBAL_CACHED :: u8 where "OP_GET_GLOBAL_CACHED \<equiv> 40"
abbreviation OP_SET_GLOBAL_CACHED :: u8 where "OP_SET_GLOBAL_CACHED \<equiv> 41"
abbreviation OP_GET_GLOBAL16_CACHED :: u8 where "OP_GET_GLOBAL16_CACHED \<equiv> 42"
abbreviation OP_SET_GLOBAL16_CACHED :: u8 where "OP_SET_GLOBAL16_CACHED \<equiv> 43"
abbreviation OP_GET_LOCAL :: u8 where "OP_GET_LOCAL \<equiv> 44"
abbreviation OP_SET_LOCAL :: u8 where "OP_SET_LOCAL \<equiv> 45"
abbreviation OP_INC_LOCAL :: u8 where "OP_INC_LOCAL \<equiv> 46"
abbreviation OP_DEC_LOCAL :: u8 where "OP_DEC_LOCAL \<equiv> 47"
abbreviation OP_INIT_LOCAL_ARRAY :: u8 where "OP_INIT_LOCAL_ARRAY \<equiv> 48"
abbreviation OP_INIT_LOCAL_FILE :: u8 where "OP_INIT_LOCAL_FILE \<equiv> 49"
abbreviation OP_INIT_LOCAL_POINTER :: u8 where "OP_INIT_LOCAL_POINTER \<equiv> 50"
abbreviation OP_INIT_LOCAL_STRING :: u8 where "OP_INIT_LOCAL_STRING \<equiv> 51"
abbreviation OP_INIT_FIELD_ARRAY :: u8 where "OP_INIT_FIELD_ARRAY \<equiv> 52"
abbreviation OP_GET_LOCAL_ADDRESS :: u8 where "OP_GET_LOCAL_ADDRESS \<equiv> 53"
abbreviation OP_GET_UPVALUE :: u8 where "OP_GET_UPVALUE \<equiv> 54"
abbreviation OP_SET_UPVALUE :: u8 where "OP_SET_UPVALUE \<equiv> 55"
abbreviation OP_GET_UPVALUE_ADDRESS :: u8 where "OP_GET_UPVALUE_ADDRESS \<equiv> 56"
abbreviation OP_GET_FIELD_ADDRESS :: u8 where "OP_GET_FIELD_ADDRESS \<equiv> 57"
abbreviation OP_GET_FIELD_ADDRESS16 :: u8 where "OP_GET_FIELD_ADDRESS16 \<equiv> 58"
abbreviation OP_GET_FIELD_ADDRESS_KEEP :: u8 where "OP_GET_FIELD_ADDRESS_KEEP \<equiv> 59"
abbreviation OP_GET_FIELD_ADDRESS_KEEP16 :: u8 where "OP_GET_FIELD_ADDRESS_KEEP16 \<equiv> 60"
abbreviation OP_LOAD_FIELD_VALUE_BY_NAME :: u8 where "OP_LOAD_FIELD_VALUE_BY_NAME \<equiv> 61"
abbreviation OP_LOAD_FIELD_VALUE_BY_NAME16 :: u8 where "OP_LOAD_FIELD_VALUE_BY_NAME16 \<equiv> 62"
abbreviation OP_GET_ELEMENT_ADDRESS :: u8 where "OP_GET_ELEMENT_ADDRESS \<equiv> 63"
abbreviation OP_GET_ELEMENT_ADDRESS_CONST :: u8 where "OP_GET_ELEMENT_ADDRESS_CONST \<equiv> 64"
abbreviation OP_LOAD_ELEMENT_VALUE :: u8 where "OP_LOAD_ELEMENT_VALUE \<equiv> 65"
abbreviation OP_LOAD_ELEMENT_VALUE_CONST :: u8 where "OP_LOAD_ELEMENT_VALUE_CONST \<equiv> 66"
abbreviation OP_GET_CHAR_ADDRESS :: u8 where "OP_GET_CHAR_ADDRESS \<equiv> 67"
abbreviation OP_SET_INDIRECT :: u8 where "OP_SET_INDIRECT \<equiv> 68"
abbreviation OP_GET_INDIRECT :: u8 where "OP_GET_INDIRECT \<equiv> 69"
abbreviation OP_IN :: u8 where "OP_IN \<equiv> 70"
abbreviation OP_MAKE_SET_SINGLETON :: u8 where "OP_MAKE_SET_SINGLETON \<equiv> 71"
abbreviation OP_MAKE_SET_RANGE :: u8 where "OP_MAKE_SET_RANGE \<equiv> 72"
abbreviation OP_GET_CHAR_FROM_STRING :: u8 where "OP_GET_CHAR_FROM_STRING \<equiv> 73"
abbreviation OP_ALLOC_OBJECT :: u8 where "OP_ALLOC_OBJECT \<equiv> 74"
abbreviation OP_ALLOC_OBJECT16 :: u8 where "OP_ALLOC_OBJECT16 \<equiv> 75"
abbreviation OP_GET_FIELD_OFFSET :: u8 where "OP_GET_FIELD_OFFSET \<equiv> 76"
abbreviation OP_GET_FIELD_OFFSET16 :: u8 where "OP_GET_FIELD_OFFSET16 \<equiv> 77"
abbreviation OP_LOAD_FIELD_VALUE :: u8 where "OP_LOAD_FIELD_VALUE \<equiv> 78"
abbreviation OP_LOAD_FIELD_VALUE16 :: u8 where "OP_LOAD_FIELD_VALUE16 \<equiv> 79"
abbreviation OP_CALL_BUILTIN :: u8 where "OP_CALL_BUILTIN \<equiv> 80"
abbreviation OP_CALL_BUILTIN_PROC :: u8 where "OP_CALL_BUILTIN_PROC \<equiv> 81"
abbreviation OP_CALL_USER_PROC :: u8 where "OP_CALL_USER_PROC \<equiv> 82"
abbreviation OP_CALL_HOST :: u8 where "OP_CALL_HOST \<equiv> 83"
abbreviation OP_POP :: u8 where "OP_POP \<equiv> 84"
abbreviation OP_CALL :: u8 where "OP_CALL \<equiv> 85"
abbreviation OP_CALL_INDIRECT :: u8 where "OP_CALL_INDIRECT \<equiv> 86"
abbreviation OP_CALL_METHOD :: u8 where "OP_CALL_METHOD \<equiv> 87"
abbreviation OP_PROC_CALL_INDIRECT :: u8 where "OP_PROC_CALL_INDIRECT \<equiv> 88"
abbreviation OP_HALT :: u8 where "OP_HALT \<equiv> 89"
abbreviation OP_EXIT :: u8 where "OP_EXIT \<equiv> 90"
abbreviation OP_FORMAT_VALUE :: u8 where "OP_FORMAT_VALUE \<equiv> 91"
abbreviation OP_THREAD_CREATE :: u8 where "OP_THREAD_CREATE \<equiv> 92"
abbreviation OP_THREAD_JOIN :: u8 where "OP_THREAD_JOIN \<equiv> 93"
abbreviation OP_MUTEX_CREATE :: u8 where "OP_MUTEX_CREATE \<equiv> 94"
abbreviation OP_RCMUTEX_CREATE :: u8 where "OP_RCMUTEX_CREATE \<equiv> 95"
abbreviation OP_MUTEX_LOCK :: u8 where "OP_MUTEX_LOCK \<equiv> 96"
abbreviation OP_MUTEX_UNLOCK :: u8 where "OP_MUTEX_UNLOCK \<equiv> 97"
abbreviation OP_MUTEX_DESTROY :: u8 where "OP_MUTEX_DESTROY \<equiv> 98"
abbreviation OP_RESET_LOCAL :: u8 where "OP_RESET_LOCAL \<equiv> 99"
abbreviation OP_DEFINE_GLOBAL_SLOT :: u8 where "OP_DEFINE_GLOBAL_SLOT \<equiv> 100"
abbreviation OP_GET_GSLOT :: u8 where "OP_GET_GSLOT \<equiv> 101"
abbreviation OP_SET_GSLOT :: u8 where "OP_SET_GSLOT \<equiv> 102"
abbreviation OP_GET_GSLOT_ADDRESS :: u8 where "OP_GET_GSLOT_ADDRESS \<equiv> 103"
abbreviation OP_PUSH_TYPE_DEFAULT :: u8 where "OP_PUSH_TYPE_DEFAULT \<equiv> 104"
abbreviation OP_FORMAT_VALUE16 :: u8 where "OP_FORMAT_VALUE16 \<equiv> 105"

subsection \<open>Value types\<close>

abbreviation TYPE_UNKNOWN :: u8 where "TYPE_UNKNOWN \<equiv> 0"
abbreviation TYPE_VOID :: u8 where "TYPE_VOID \<equiv> 1"
abbreviation TYPE_INT32 :: u8 where "TYPE_INT32 \<equiv> 2"
abbreviation TYPE_DOUBLE :: u8 where "TYPE_DOUBLE \<equiv> 3"
abbreviation TYPE_STRING :: u8 where "TYPE_STRING \<equiv> 4"
abbreviation TYPE_CHAR :: u8 where "TYPE_CHAR \<equiv> 5"
abbreviation TYPE_RECORD :: u8 where "TYPE_RECORD \<equiv> 6"
abbreviation TYPE_FILE :: u8 where "TYPE_FILE \<equiv> 7"
abbreviation TYPE_BYTE :: u8 where "TYPE_BYTE \<equiv> 8"
abbreviation TYPE_WORD :: u8 where "TYPE_WORD \<equiv> 9"
abbreviation TYPE_ENUM :: u8 where "TYPE_ENUM \<equiv> 10"
abbreviation TYPE_ARRAY :: u8 where "TYPE_ARRAY \<equiv> 11"
abbreviation TYPE_BOOLEAN :: u8 where "TYPE_BOOLEAN \<equiv> 12"
abbreviation TYPE_MEMORYSTREAM :: u8 where "TYPE_MEMORYSTREAM \<equiv> 13"
abbreviation TYPE_SET :: u8 where "TYPE_SET \<equiv> 14"
abbreviation TYPE_POINTER :: u8 where "TYPE_POINTER \<equiv> 15"
abbreviation TYPE_INTERFACE :: u8 where "TYPE_INTERFACE \<equiv> 16"
abbreviation TYPE_CLOSURE :: u8 where "TYPE_CLOSURE \<equiv> 17"
abbreviation TYPE_INT8 :: u8 where "TYPE_INT8 \<equiv> 18"
abbreviation TYPE_UINT8 :: u8 where "TYPE_UINT8 \<equiv> 19"
abbreviation TYPE_INT16 :: u8 where "TYPE_INT16 \<equiv> 20"
abbreviation TYPE_UINT16 :: u8 where "TYPE_UINT16 \<equiv> 21"
abbreviation TYPE_UINT32 :: u8 where "TYPE_UINT32 \<equiv> 22"
abbreviation TYPE_INT64 :: u8 where "TYPE_INT64 \<equiv> 23"
abbreviation TYPE_UINT64 :: u8 where "TYPE_UINT64 \<equiv> 24"
abbreviation TYPE_FLOAT :: u8 where "TYPE_FLOAT \<equiv> 25"
abbreviation TYPE_LONG_DOUBLE :: u8 where "TYPE_LONG_DOUBLE \<equiv> 26"
abbreviation TYPE_NIL :: u8 where "TYPE_NIL \<equiv> 27"
abbreviation TYPE_THREAD :: u8 where "TYPE_THREAD \<equiv> 28"
abbreviation TYPE_WIDECHAR :: u8 where "TYPE_WIDECHAR \<equiv> 29"
abbreviation TYPE_UNICODE_STRING :: u8 where "TYPE_UNICODE_STRING \<equiv> 30"
abbreviation TYPE_TASK :: u8 where "TYPE_TASK \<equiv> 31"
abbreviation TYPE_CHANNEL :: u8 where "TYPE_CHANNEL \<equiv> 32"
abbreviation TYPE_MAP :: u8 where "TYPE_MAP \<equiv> 33"

text \<open>Pascal's INTEGER and REAL are aliases of two of them.\<close>

abbreviation TYPE_INTEGER :: u8 where "TYPE_INTEGER \<equiv> TYPE_INT32"
abbreviation TYPE_REAL :: u8 where "TYPE_REAL \<equiv> TYPE_DOUBLE"

subsection \<open>The metadata table\<close>

record OpcodeInfo =
  oi_name :: string
  oi_operands :: string
  oi_stack_in :: int
  oi_stack_out :: int

definition opc :: "string \<Rightarrow> string \<Rightarrow> int \<Rightarrow> int \<Rightarrow> OpcodeInfo" where
  "opc n ops i out = \<lparr>oi_name = n, oi_operands = ops, oi_stack_in = i, oi_stack_out = out\<rparr>"

definition kOpcodeInfoTable :: "OpcodeInfo list" where
  "kOpcodeInfoTable = [
     opc ''RETURN'' [] (-1) 0,
     opc ''CONSTANT'' ''k'' 0 1,
     opc ''CONSTANT16'' ''K'' 0 1,
     opc ''CONST_0'' [] 0 1,
     opc ''CONST_1'' [] 0 1,
     opc ''CONST_TRUE'' [] 0 1,
     opc ''CONST_FALSE'' [] 0 1,
     opc ''PUSH_IMMEDIATE_INT8'' ''i'' 0 1,
     opc ''ADD'' [] 2 1,
     opc ''SUBTRACT'' [] 2 1,
     opc ''MULTIPLY'' [] 2 1,
     opc ''DIVIDE'' [] 2 1,
     opc ''NEGATE'' [] 1 1,
     opc ''NOT'' [] 1 1,
     opc ''TO_BOOL'' [] 1 1,
     opc ''EQUAL'' [] 2 1,
     opc ''NOT_EQUAL'' [] 2 1,
     opc ''GREATER'' [] 2 1,
     opc ''GREATER_EQUAL'' [] 2 1,
     opc ''LESS'' [] 2 1,
     opc ''LESS_EQUAL'' [] 2 1,
     opc ''INT_DIV'' [] 2 1,
     opc ''MOD'' [] 2 1,
     opc ''AND'' [] 2 1,
     opc ''OR'' [] 2 1,
     opc ''XOR'' [] 2 1,
     opc ''SHL'' [] 2 1,
     opc ''SHR'' [] 2 1,
     opc ''JUMP_IF_FALSE'' ''j'' 1 0,
     opc ''JUMP'' ''j'' 0 0,
     opc ''SWAP'' [] 2 2,
     opc ''DUP'' [] 1 2,
     opc ''DEFINE_GLOBAL'' ''?'' 0 0,
     opc ''DEFINE_GLOBAL16'' ''?'' 0 0,
     opc ''GET_GLOBAL'' ''kc'' 0 1,
     opc ''SET_GLOBAL'' ''kc'' 1 0,
     opc ''GET_GLOBAL_ADDRESS'' ''k'' 0 1,
     opc ''GET_GLOBAL16'' ''Kc'' 0 1,
     opc ''SET_GLOBAL16'' ''Kc'' 1 0,
     opc ''GET_GLOBAL_ADDRESS16'' ''K'' 0 1,
     opc ''GET_GLOBAL_CACHED'' ''kC'' 0 1,
     opc ''SET_GLOBAL_CACHED'' ''kC'' 1 0,
     opc ''GET_GLOBAL16_CACHED'' ''KC'' 0 1,
     opc ''SET_GLOBAL16_CACHED'' ''KC'' 1 0,
     opc ''GET_LOCAL'' ''b'' 0 1,
     opc ''SET_LOCAL'' ''b'' 1 0,
     opc ''INC_LOCAL'' ''b'' 0 0,
     opc ''DEC_LOCAL'' ''b'' 0 0,
     opc ''INIT_LOCAL_ARRAY'' ''?'' (-1) 0,
     opc ''INIT_LOCAL_FILE'' ''bbK'' 0 0,
     opc ''INIT_LOCAL_POINTER'' ''bK'' 0 0,
     opc ''INIT_LOCAL_STRING'' ''bb'' 0 0,
     opc ''INIT_FIELD_ARRAY'' ''?'' (-1) 1,
     opc ''GET_LOCAL_ADDRESS'' ''b'' 0 1,
     opc ''GET_UPVALUE'' ''b'' 0 1,
     opc ''SET_UPVALUE'' ''b'' 1 0,
     opc ''GET_UPVALUE_ADDRESS'' ''b'' 0 1,
     opc ''GET_FIELD_ADDRESS'' ''k'' 1 1,
     opc ''GET_FIELD_ADDRESS16'' ''K'' 1 1,
     opc ''GET_FIELD_ADDRESS_KEEP'' ''k'' 1 2,
     opc ''GET_FIELD_ADDRESS_KEEP16'' ''K'' 1 2,
     opc ''LOAD_FIELD_VALUE_BY_NAME'' ''k'' 1 1,
     opc ''LOAD_FIELD_VALUE_BY_NAME16'' ''K'' 1 1,
     opc ''GET_ELEMENT_ADDRESS'' ''b'' (-1) 1,
     opc ''GET_ELEMENT_ADDRESS_CONST'' ''f'' 1 1,
     opc ''LOAD_ELEMENT_VALUE'' ''b'' (-1) 1,
     opc ''LOAD_ELEMENT_VALUE_CONST'' ''f'' 1 1,
     opc ''GET_CHAR_ADDRESS'' [] 2 1,
     opc ''SET_INDIRECT'' [] 2 0,
     opc ''GET_INDIRECT'' [] 1 1,
     opc ''IN'' [] 2 1,
     opc ''MAKE_SET_SINGLETON'' [] 1 1,
     opc ''MAKE_SET_RANGE'' [] 2 1,
     opc ''GET_CHAR_FROM_STRING'' [] 2 1,
     opc ''ALLOC_OBJECT'' ''b'' 0 1,
     opc ''ALLOC_OBJECT16'' ''w'' 0 1,
     opc ''GET_FIELD_OFFSET'' ''b'' 1 1,
     opc ''GET_FIELD_OFFSET16'' ''w'' 1 1,
     opc ''LOAD_FIELD_VALUE'' ''b'' 1 1,
     opc ''LOAD_FIELD_VALUE16'' ''w'' 1 1,
     opc ''CALL_BUILTIN'' ''Kb'' (-1) (-1),
     opc ''CALL_BUILTIN_PROC'' ''wKb'' (-1) 0,
     opc ''CALL_USER_PROC'' ''Kb'' (-1) (-1),
     opc ''CALL_HOST'' ''b'' (-1) 1,
     opc ''POP'' [] 1 0,
     opc ''CALL'' ''KWb'' (-1) (-1),
     opc ''CALL_INDIRECT'' ''b'' (-1) (-1),
     opc ''CALL_METHOD'' ''bb'' (-1) (-1),
     opc ''PROC_CALL_INDIRECT'' ''b'' (-1) 0,
     opc ''HALT'' [] 0 0,
     opc ''EXIT'' [] (-1) 0,
     opc ''FORMAT_VALUE'' ''bi'' 1 1,
     opc ''THREAD_CREATE'' ''W'' 0 1,
     opc ''THREAD_JOIN'' [] 1 0,
     opc ''MUTEX_CREATE'' [] 0 1,
     opc ''RCMUTEX_CREATE'' [] 0 1,
     opc ''MUTEX_LOCK'' [] 1 0,
     opc ''MUTEX_UNLOCK'' [] 1 0,
     opc ''MUTEX_DESTROY'' [] 1 0,
     opc ''RESET_LOCAL'' ''b'' 0 0,
     opc ''DEFINE_GLOBAL_SLOT'' ''?'' 0 0,
     opc ''GET_GSLOT'' ''s'' 0 1,
     opc ''SET_GSLOT'' ''s'' 1 0,
     opc ''GET_GSLOT_ADDRESS'' ''s'' 0 1,
     opc ''PUSH_TYPE_DEFAULT'' ''bK'' 0 1,
     opc ''FORMAT_VALUE16'' ''ww'' 1 1]"

definition OPCODE_COUNT :: nat where
  "OPCODE_COUNT = 106"

definition GLOBAL_INLINE_CACHE_SLOT_SIZE :: nat where
  "GLOBAL_INLINE_CACHE_SLOT_SIZE = 8"

definition pscalOpcodeInfo :: "u8 \<Rightarrow> OpcodeInfo option" where
  "pscalOpcodeInfo opcode =
     (if OPCODE_COUNT \<le> unat opcode then None else Some (kOpcodeInfoTable ! unat opcode))"

text \<open>The width of one operand letter; \<open>None\<close> for a letter the switch does not name.\<close>

definition operand_width :: "char \<Rightarrow> nat option" where
  "operand_width c =
     (if c \<in> set ''bik'' then Some 1
      else if c \<in> set ''wKcs'' then Some 2
      else if c \<in> set ''jfW'' then Some 4
      else if c = CHR ''C'' then Some GLOBAL_INLINE_CACHE_SLOT_SIZE
      else None)"

text \<open>The total operand bytes of a spec; the \<open>-1\<close> of the C function is \<open>None\<close>.\<close>

fun pscalOpcodeOperandSpecLength :: "string \<Rightarrow> nat option" where
  "pscalOpcodeOperandSpecLength [] = Some 0"
| "pscalOpcodeOperandSpecLength (c # cs) =
     (case operand_width c of
        None \<Rightarrow> None
      | Some w \<Rightarrow> map_option (\<lambda>n. w + n) (pscalOpcodeOperandSpecLength cs))"

subsection \<open>Facts of the table\<close>

lemma length_kOpcodeInfoTable [simp]: "length kOpcodeInfoTable = OPCODE_COUNT"
  by (simp add: kOpcodeInfoTable_def OPCODE_COUNT_def)

lemma pscalOpcodeInfo_in_table: "pscalOpcodeInfo op = Some info \<Longrightarrow> info \<in> set kOpcodeInfoTable"
  by (auto simp: pscalOpcodeInfo_def split: if_splits)

lemma pscalOpcodeInfo_None_iff: "pscalOpcodeInfo op = None \<longleftrightarrow> 106 \<le> unat op"
  by (simp add: pscalOpcodeInfo_def OPCODE_COUNT_def)

text \<open>The variable-length opcodes are the ones with the spec \<open>?\<close>; every other row has a spec of
  known width, at most ten bytes, and both stack effects of a fixed opcode are small.\<close>

definition variable_row :: "OpcodeInfo \<Rightarrow> bool" where
  "variable_row info \<longleftrightarrow> oi_operands info = ''?''"

lemma table_specs:
  "list_all (\<lambda>info. if variable_row info then pscalOpcodeOperandSpecLength (oi_operands info) = None
     else (case pscalOpcodeOperandSpecLength (oi_operands info) of None \<Rightarrow> False | Some n \<Rightarrow> n \<le> 10))
   kOpcodeInfoTable"
  by code_simp

lemma table_effects:
  "list_all (\<lambda>info. - 1 \<le> oi_stack_in info \<and> oi_stack_in info \<le> 2
      \<and> - 1 \<le> oi_stack_out info \<and> oi_stack_out info \<le> 2) kOpcodeInfoTable"
  by code_simp

lemma spec_length_Some:
  assumes "pscalOpcodeInfo op = Some info" "\<not> variable_row info"
  shows "\<exists>n \<le> 10. pscalOpcodeOperandSpecLength (oi_operands info) = Some n"
  using table_specs pscalOpcodeInfo_in_table [OF assms(1)] assms(2)
  by (auto simp: list_all_iff split: option.splits)

lemma variable_row_ordinals:
  "map variable_row kOpcodeInfoTable
   = map (\<lambda>i. i \<in> set [0x20, 0x21, 0x30, 0x34, 0x64]) [0..<106]"
  by code_simp

lemma variable_row_iff:
  assumes "pscalOpcodeInfo op = Some info"
  shows "variable_row info \<longleftrightarrow> op \<in> {OP_DEFINE_GLOBAL, OP_DEFINE_GLOBAL16, OP_INIT_LOCAL_ARRAY,
     OP_INIT_FIELD_ARRAY, OP_DEFINE_GLOBAL_SLOT}"
proof -
  have lt: "unat op < 106" and info: "info = kOpcodeInfoTable ! unat op"
    using assms by (auto simp: pscalOpcodeInfo_def OPCODE_COUNT_def split: if_splits)
  have "variable_row info = map variable_row kOpcodeInfoTable ! unat op"
    using lt info by (simp add: OPCODE_COUNT_def)
  also have "\<dots> = (unat op \<in> set [0x20, 0x21, 0x30, 0x34, 0x64])"
    unfolding variable_row_ordinals using lt by (simp del: upt_Suc)
  finally show ?thesis by (simp add: word_unat_eq_iff)
qed

end
