(* ===== verification/Diagmap.thy ===== *)
theory Diagmap
  imports Prelude
begin

section \<open>The rewritten-line map\<close>

text \<open>
  \<open>core/diagmap.c\<close>: the thread-local table that sends a line of the rewritten Aether source to
  the line of the user's source it came from, which \<open>writeBytecodeChunk\<close> consults for every
  byte it emits. The state is the array (its length is \<open>g_aether_rewrite_line_cap\<close>; an empty
  list is the NULL pointer) and the highest line noted. Allocation never fails in the model, and
  the doubling of the capacity is on unbounded numbers.
\<close>

record LineMap =
  lm_map :: "int list"
  lm_count :: int

definition aetherClearRewriteLineMap :: "LineMap \<Rightarrow> LineMap" where
  "aetherClearRewriteLineMap m = \<lparr>lm_map = [], lm_count = 0\<rparr>"

text \<open>The loop \<open>while (newCap < needed) newCap *= 2\<close>; the guard on zero is never met, since the
  loop starts at a positive capacity.\<close>

function grow_cap :: "nat \<Rightarrow> nat \<Rightarrow> nat" where
  "grow_cap newCap needed =
     (if newCap = 0 \<or> needed \<le> newCap then newCap else grow_cap (newCap * 2) needed)"
  by auto
termination by (relation "measure (\<lambda>(c, n). n - c)") auto

declare grow_cap.simps [simp del]

definition ensureRewriteLineCapacity :: "nat \<Rightarrow> LineMap \<Rightarrow> LineMap" where
  "ensureRewriteLineCapacity needed m =
     (let cap = length (lm_map m) in
      if needed \<le> cap then m
      else let newCap = grow_cap (if cap \<noteq> 0 then cap * 2 else 128) needed
           in m\<lparr>lm_map := lm_map m @ replicate (newCap - cap) 0\<rparr>)"

definition aetherNoteRewriteLineMapping :: "int \<Rightarrow> int \<Rightarrow> LineMap \<Rightarrow> LineMap" where
  "aetherNoteRewriteLineMapping rewrittenLine sourceLine m =
     (if rewrittenLine \<le> 0 then m
      else let m1 = ensureRewriteLineCapacity (nat rewrittenLine + 1) m;
               m2 = (if lm_count m1 < rewrittenLine then m1\<lparr>lm_count := rewrittenLine\<rparr> else m1)
           in if lm_map m2 ! nat rewrittenLine = 0
              then m2\<lparr>lm_map := (lm_map m2)[nat rewrittenLine :=
                               (if 0 < sourceLine then sourceLine else 1)]\<rparr>
              else m2)"

definition aetherMapRewrittenLineToSource :: "LineMap \<Rightarrow> int \<Rightarrow> int" where
  "aetherMapRewrittenLineToSource m rewrittenLine =
     (if rewrittenLine \<le> 0 then rewrittenLine
      else if rewrittenLine \<le> lm_count m \<and> lm_map m \<noteq> [] \<and> 0 < lm_map m ! nat rewrittenLine
      then lm_map m ! nat rewrittenLine
      else rewrittenLine)"

definition aetherHasRewriteLineMap :: "LineMap \<Rightarrow> bool" where
  "aetherHasRewriteLineMap m \<longleftrightarrow> 0 < lm_count m"

text \<open>Every noted line is inside the array, so the reads above never leave it; the entries are
  never negative.\<close>

definition linemap_wf :: "LineMap \<Rightarrow> bool" where
  "linemap_wf m \<longleftrightarrow> 0 \<le> lm_count m \<and> (0 < lm_count m \<longrightarrow> lm_count m < int (length (lm_map m)))
     \<and> (\<forall>v \<in> set (lm_map m). 0 \<le> v)"

lemma grow_cap_ge: "0 < c \<Longrightarrow> n \<le> grow_cap c n"
  by (induction c n rule: grow_cap.induct) (subst grow_cap.simps, auto)

lemma ensure_length: "needed \<le> length (lm_map (ensureRewriteLineCapacity needed m))"
  using grow_cap_ge [of "if length (lm_map m) \<noteq> 0 then length (lm_map m) * 2 else 128" needed]
  by (auto simp: ensureRewriteLineCapacity_def Let_def)

lemma ensure_count [simp]: "lm_count (ensureRewriteLineCapacity needed m) = lm_count m"
  by (simp add: ensureRewriteLineCapacity_def Let_def)

lemma ensure_length_mono: "length (lm_map m) \<le> length (lm_map (ensureRewriteLineCapacity needed m))"
  by (simp add: ensureRewriteLineCapacity_def Let_def)

lemma ensure_nth:
  "i < length (lm_map (ensureRewriteLineCapacity needed m)) \<Longrightarrow>
   lm_map (ensureRewriteLineCapacity needed m) ! i = (if i < length (lm_map m) then lm_map m ! i else 0)"
  by (auto simp: ensureRewriteLineCapacity_def Let_def nth_append split: if_splits)

lemma ensure_set: "set (lm_map (ensureRewriteLineCapacity needed m)) \<subseteq> insert 0 (set (lm_map m))"
  by (auto simp: ensureRewriteLineCapacity_def Let_def split: if_splits)

lemma note_length:
  "0 < r \<Longrightarrow> nat r < length (lm_map (aetherNoteRewriteLineMapping r s m))"
  using ensure_length [of "nat r + 1" m] by (simp add: aetherNoteRewriteLineMapping_def Let_def)

lemma note_count [simp]:
  "lm_count (aetherNoteRewriteLineMapping r s m) = (if r \<le> 0 then lm_count m else max r (lm_count m))"
  by (simp add: aetherNoteRewriteLineMapping_def Let_def)

lemma linemap_wf_clear: "linemap_wf (aetherClearRewriteLineMap m)"
  by (simp add: linemap_wf_def aetherClearRewriteLineMap_def)

lemma note_set:
  "set (lm_map (aetherNoteRewriteLineMapping r s m))
   \<subseteq> insert 0 (insert (if 0 < s then s else 1) (set (lm_map m)))"
proof -
  define m1 where "m1 = ensureRewriteLineCapacity (nat r + 1) m"
  have "set ((lm_map m1)[nat r := v]) \<subseteq> insert v (insert 0 (set (lm_map m)))" for v
    using set_update_subset_insert [of "lm_map m1" "nat r" v] ensure_set [of "nat r + 1" m]
    unfolding m1_def by blast
  moreover have "set (lm_map m1) \<subseteq> insert 0 (set (lm_map m))"
    using ensure_set [of "nat r + 1" m] unfolding m1_def by blast
  ultimately show ?thesis
    unfolding aetherNoteRewriteLineMapping_def Let_def m1_def [symmetric] by (auto split: if_splits)
qed

lemma note_nonpos: "r \<le> 0 \<Longrightarrow> aetherNoteRewriteLineMapping r s m = m"
  by (simp add: aetherNoteRewriteLineMapping_def)

lemma note_map:
  assumes "0 < r"
  shows "lm_map (aetherNoteRewriteLineMapping r s m)
    = (let l = lm_map (ensureRewriteLineCapacity (nat r + 1) m)
       in if l ! nat r = 0 then l[nat r := (if 0 < s then s else 1)] else l)"
  using assms by (simp add: aetherNoteRewriteLineMapping_def Let_def)

lemma linemap_wf_note:
  assumes wf: "linemap_wf m" shows "linemap_wf (aetherNoteRewriteLineMapping r s m)"
proof (cases "0 < r")
  case False
  then show ?thesis using wf by (simp add: note_nonpos)
next
  case True
  let ?n = "aetherNoteRewriteLineMapping r s m"
  have "length (lm_map m) \<le> length (lm_map ?n)"
    using ensure_length_mono [of m "nat r + 1"] note_map [OF True, of s m] by (simp add: Let_def)
  moreover have "nat r < length (lm_map ?n)" using True by (rule note_length)
  moreover have "v \<in> set (lm_map ?n) \<Longrightarrow> 0 \<le> v" for v
    using note_set [of r s m] wf by (fastforce simp: linemap_wf_def split: if_splits)
  ultimately show ?thesis
    using wf True unfolding linemap_wf_def by (simp add: max_def) linarith
qed

text \<open>The first note for a line wins, later ones for the same line change nothing.\<close>

definition noted :: "LineMap \<Rightarrow> int \<Rightarrow> bool" where
  "noted m r \<longleftrightarrow> nat r < length (lm_map m) \<and> 0 < lm_map m ! nat r"

lemma noted_after_note:
  assumes wf: "linemap_wf m" and r: "0 < r"
  shows "lm_map (aetherNoteRewriteLineMapping r s m) ! nat r
    = (if noted m r then lm_map m ! nat r else if 0 < s then s else 1)"
proof -
  define m1 where "m1 = ensureRewriteLineCapacity (nat r + 1) m"
  have len: "nat r < length (lm_map m1)" using ensure_length [of "nat r + 1" m] by (simp add: m1_def)
  have nth: "lm_map m1 ! nat r = (if nat r < length (lm_map m) then lm_map m ! nat r else 0)"
    using len unfolding m1_def by (rule ensure_nth)
  have "nat r < length (lm_map m) \<Longrightarrow> 0 \<le> lm_map m ! nat r"
    using wf nth_mem by (auto simp: linemap_wf_def)
  then show ?thesis
    using len unfolding note_map [OF r] m1_def [symmetric] Let_def noted_def by (auto simp: nth)
qed

lemma map_after_note:
  assumes wf: "linemap_wf m" and r: "0 < r"
  shows "aetherMapRewrittenLineToSource (aetherNoteRewriteLineMapping r s m) r
    = (if noted m r then lm_map m ! nat r else if 0 < s then s else 1)"
proof -
  let ?n = "aetherNoteRewriteLineMapping r s m"
  have "0 < lm_map ?n ! nat r"
    unfolding noted_after_note [OF wf r] by (simp add: noted_def)
  moreover have "lm_map ?n \<noteq> []" using note_length [OF r, of s m] by auto
  ultimately have "aetherMapRewrittenLineToSource ?n r = lm_map ?n ! nat r"
    using r by (simp add: aetherMapRewrittenLineToSource_def)
  then show ?thesis by (simp add: noted_after_note [OF wf r])
qed

end
