(* ===== verification/Chunk.thy ===== *)
theory Chunk
  imports Opcodes Diagmap
begin

section \<open>Bytecode chunks\<close>

text \<open>
  \<open>compiler/bytecode.h\<close> and the chunk operations of \<open>compiler/bytecode.c\<close>: the record of a
  compiled program, appending a byte or a wide operand, patching an operand, the constant pool
  with its search for an equal constant, and the decoder of instruction lengths that the linker,
  the verifier and the disassembler share. \<open>count\<close> is the length of the code list and
  \<open>constants_count\<close> that of the constant list; the two capacities are kept.
\<close>

subsection \<open>Values\<close>

text \<open>
  A constant. A real is its bit pattern: \<open>VFloat\<close> for TYPE_FLOAT, \<open>VDouble\<close> for TYPE_DOUBLE and
  \<open>VLongDouble\<close> for TYPE_LONG_DOUBLE on the targets where \<open>long double\<close> is the double format.
  \<open>VInt\<close> carries the type code of the integer-like kinds, characters and booleans included;
  \<open>VString\<close> that of the two string types, with \<open>None\<close> for a NULL buffer; \<open>VOther\<close> stands for
  every kind the pool search and the verifier only test the type of.
\<close>

datatype Value =
    VInt u8 int
  | VFloat u32
  | VDouble u64
  | VLongDouble u64
  | VString u8 "string option"
  | VOther u8

fun v_type :: "Value \<Rightarrow> u8" where
  "v_type (VInt t i) = t"
| "v_type (VFloat b) = TYPE_FLOAT"
| "v_type (VDouble b) = TYPE_DOUBLE"
| "v_type (VLongDouble b) = TYPE_LONG_DOUBLE"
| "v_type (VString t s) = t"
| "v_type (VOther t) = t"

text \<open>C's \<open>==\<close> on the reals, over the bit patterns: no NaN equals anything, the two zeros are equal.\<close>

definition f64_nan :: "u64 \<Rightarrow> bool" where
  "f64_nan b \<longleftrightarrow> drop_bit 52 b AND 0x7FF = 0x7FF \<and> b AND 0xFFFFFFFFFFFFF \<noteq> 0"

definition f64_eq :: "u64 \<Rightarrow> u64 \<Rightarrow> bool" where
  "f64_eq a b \<longleftrightarrow> \<not> f64_nan a \<and> \<not> f64_nan b \<and>
     (a = b \<or> a AND 0x7FFFFFFFFFFFFFFF = 0 \<and> b AND 0x7FFFFFFFFFFFFFFF = 0)"

definition f32_nan :: "u32 \<Rightarrow> bool" where
  "f32_nan b \<longleftrightarrow> drop_bit 23 b AND 0xFF = 0xFF \<and> b AND 0x7FFFFF \<noteq> 0"

definition f32_eq :: "u32 \<Rightarrow> u32 \<Rightarrow> bool" where
  "f32_eq a b \<longleftrightarrow> \<not> f32_nan a \<and> \<not> f32_nan b \<and>
     (a = b \<or> a AND 0x7FFFFFFF = 0 \<and> b AND 0x7FFFFFFF = 0)"

text \<open>The test of the search loop of \<open>addConstantToChunk\<close>: which existing constant stands for a
  new one. Only TYPE_INTEGER, the reals, TYPE_STRING and TYPE_CHAR are ever shared.\<close>

fun same_constant :: "Value \<Rightarrow> Value \<Rightarrow> bool" where
  "same_constant (VInt t i) (VInt u j) \<longleftrightarrow> t = u \<and> (t = TYPE_INTEGER \<or> t = TYPE_CHAR) \<and> i = j"
| "same_constant (VFloat a) (VFloat b) \<longleftrightarrow> f32_eq a b"
| "same_constant (VDouble a) (VDouble b) \<longleftrightarrow> f64_eq a b"
| "same_constant (VLongDouble a) (VLongDouble b) \<longleftrightarrow> f64_eq a b"
| "same_constant (VString t (Some a)) (VString u (Some b)) \<longleftrightarrow> t = u \<and> t = TYPE_STRING \<and> a = b"
| "same_constant _ _ \<longleftrightarrow> False"

subsection \<open>The chunk\<close>

record GlobalSlot =
  gs_symbol :: "nat option"
  gs_define_pc :: int

record BytecodeChunk =
  ch_version :: u32
  ch_frontend_kind :: int
  ch_code :: "byte list"
  ch_capacity :: nat
  ch_lines :: "int list"
  ch_constants :: "Value list"
  ch_constants_capacity :: nat
  ch_builtin_lowercase_indices :: "int list option"
  ch_builtin_resolved_ids :: "int list option"
  ch_cache_count :: nat
  ch_global_slot_count :: nat
  ch_global_slots :: "GlobalSlot list"
  ch_global_slot_is_const :: "bool list"
  ch_global_slot_names :: "string list"
  ch_global_myself_slot :: int
  ch_global_pas_exc_pending_slot :: int
  ch_global_pas_exc_message_slot :: int
  ch_globals_linked :: bool
  ch_prepared_for_execution :: bool
  ch_source_path :: "string option"

abbreviation ch_count :: "BytecodeChunk \<Rightarrow> nat" where
  "ch_count c \<equiv> length (ch_code c)"

abbreviation ch_constants_count :: "BytecodeChunk \<Rightarrow> nat" where
  "ch_constants_count c \<equiv> length (ch_constants c)"

definition initBytecodeChunk :: "u32 \<Rightarrow> int \<Rightarrow> BytecodeChunk" where
  "initBytecodeChunk vm_version frontend =
     \<lparr>ch_version = vm_version, ch_frontend_kind = frontend,
      ch_code = [], ch_capacity = 0, ch_lines = [],
      ch_constants = [], ch_constants_capacity = 0,
      ch_builtin_lowercase_indices = None, ch_builtin_resolved_ids = None,
      ch_cache_count = 0, ch_global_slot_count = 0, ch_global_slots = [],
      ch_global_slot_is_const = [], ch_global_slot_names = [],
      ch_global_myself_slot = - 1, ch_global_pas_exc_pending_slot = - 1,
      ch_global_pas_exc_message_slot = - 1, ch_globals_linked = False,
      ch_prepared_for_execution = False, ch_source_path = None\<rparr>"

definition setBytecodeChunkSourcePath :: "string option \<Rightarrow> BytecodeChunk \<Rightarrow> BytecodeChunk" where
  "setBytecodeChunkSourcePath path ch = ch\<lparr>ch_source_path := path\<rparr>"

subsection \<open>Appending code\<close>

definition grown_capacity :: "nat \<Rightarrow> nat" where
  "grown_capacity oldCapacity = (if oldCapacity < 8 then 8 else oldCapacity * 2)"

definition writeBytecodeChunk :: "LineMap \<Rightarrow> byte \<Rightarrow> int \<Rightarrow> BytecodeChunk \<Rightarrow> BytecodeChunk" where
  "writeBytecodeChunk dm b line ch =
     (let line' = (if aetherHasRewriteLineMap dm then aetherMapRewrittenLineToSource dm line else line);
          cap = (if ch_capacity ch < ch_count ch + 1 then grown_capacity (ch_capacity ch)
                 else ch_capacity ch)
      in ch\<lparr>ch_capacity := cap, ch_code := ch_code ch @ [b], ch_lines := ch_lines ch @ [line']\<rparr>)"

definition emitShort :: "LineMap \<Rightarrow> u16 \<Rightarrow> int \<Rightarrow> BytecodeChunk \<Rightarrow> BytecodeChunk" where
  "emitShort dm v line ch =
     writeBytecodeChunk dm (ucast v) line
       (writeBytecodeChunk dm (ucast (drop_bit 8 v)) line ch)"

definition emitInt32 :: "LineMap \<Rightarrow> u32 \<Rightarrow> int \<Rightarrow> BytecodeChunk \<Rightarrow> BytecodeChunk" where
  "emitInt32 dm v line ch =
     writeBytecodeChunk dm (ucast v) line
       (writeBytecodeChunk dm (ucast (drop_bit 8 v)) line
         (writeBytecodeChunk dm (ucast (drop_bit 16 v)) line
           (writeBytecodeChunk dm (ucast (drop_bit 24 v)) line ch)))"

subsection \<open>Patching operands\<close>

text \<open>Out of bounds the C functions report on stderr and leave the chunk alone.\<close>

definition patchShort :: "int \<Rightarrow> u16 \<Rightarrow> BytecodeChunk \<Rightarrow> BytecodeChunk" where
  "patchShort offset_in_code v ch =
     (if offset_in_code < 0 \<or> int (ch_count ch) \<le> offset_in_code + 1 then ch
      else let i = nat offset_in_code
           in ch\<lparr>ch_code := (ch_code ch)[i := ucast (drop_bit 8 v), i + 1 := ucast v]\<rparr>)"

definition patchInt32 :: "int \<Rightarrow> u32 \<Rightarrow> BytecodeChunk \<Rightarrow> BytecodeChunk" where
  "patchInt32 offset_in_code v ch =
     (if offset_in_code < 0 \<or> int (ch_count ch) \<le> offset_in_code + 3 then ch
      else let i = nat offset_in_code
           in ch\<lparr>ch_code := (ch_code ch)[i := ucast (drop_bit 24 v), i + 1 := ucast (drop_bit 16 v),
                                   i + 2 := ucast (drop_bit 8 v), i + 3 := ucast v]\<rparr>)"

subsection \<open>The constant pool\<close>

fun find_constant :: "Value list \<Rightarrow> nat \<Rightarrow> Value \<Rightarrow> nat option" where
  "find_constant [] i v = None"
| "find_constant (c # cs) i v = (if same_constant c v then Some i else find_constant cs (i + 1) v)"

text \<open>The two side tables: when the pool grows both are reallocated and the new cells filled,
  and a table that does not exist yet is created at the capacity. Growing a table that does not
  exist fills only the new cells: \<open>uninit\<close> is what the others, fresh from \<open>realloc\<close>, hold.\<close>

definition grow_side :: "int \<Rightarrow> int \<Rightarrow> nat \<Rightarrow> nat \<Rightarrow> int list option \<Rightarrow> int list" where
  "grow_side uninit fill oldCapacity newCapacity t =
     take oldCapacity (case t of None \<Rightarrow> replicate oldCapacity uninit | Some xs \<Rightarrow> xs)
     @ replicate (newCapacity - oldCapacity) fill"

definition addConstantToChunk :: "int \<Rightarrow> Value \<Rightarrow> BytecodeChunk \<Rightarrow> nat \<times> BytecodeChunk" where
  "addConstantToChunk uninit v ch =
     (case find_constant (ch_constants ch) 0 v of
        Some i \<Rightarrow> (i, ch)
      | None \<Rightarrow>
          let index = ch_constants_count ch;
              oldCap = ch_constants_capacity ch;
              grow = oldCap < index + 1;
              cap = (if grow then grown_capacity oldCap else oldCap);
              low = (if grow then Some (grow_side uninit (- 1) oldCap cap (ch_builtin_lowercase_indices ch))
                     else case ch_builtin_lowercase_indices ch of
                            None \<Rightarrow> (if 0 < cap then Some (replicate cap (- 1)) else None)
                          | Some xs \<Rightarrow> Some xs);
              ids = (if grow then Some (grow_side uninit (- 2) oldCap cap (ch_builtin_resolved_ids ch))
                     else case ch_builtin_resolved_ids ch of
                            None \<Rightarrow> (if 0 < cap then Some (replicate cap (- 2)) else None)
                          | Some xs \<Rightarrow> Some xs)
          in (index,
              ch\<lparr>ch_constants := ch_constants ch @ [v], ch_constants_capacity := cap,
                 ch_builtin_lowercase_indices := map_option (\<lambda>xs. xs[index := - 1]) low,
                 ch_builtin_resolved_ids := map_option (\<lambda>xs. xs[index := - 2]) ids\<rparr>))"

definition setBuiltinLowercaseIndex :: "int \<Rightarrow> int \<Rightarrow> BytecodeChunk \<Rightarrow> BytecodeChunk" where
  "setBuiltinLowercaseIndex original_idx lowercase_idx ch =
     (if original_idx < 0 then ch
      else
        let capacity = (if 0 < ch_constants_capacity ch then ch_constants_capacity ch
                        else ch_constants_count ch)
        in case (case ch_builtin_lowercase_indices ch of
                   Some xs \<Rightarrow> Some xs
                 | None \<Rightarrow> (if capacity = 0 then None else Some (replicate capacity (- 1)))) of
             None \<Rightarrow> ch
           | Some xs \<Rightarrow>
               (if int (ch_constants_capacity ch) \<le> original_idx
                then ch\<lparr>ch_builtin_lowercase_indices := Some xs\<rparr>
                else ch\<lparr>ch_builtin_lowercase_indices := Some (xs[nat original_idx := lowercase_idx])\<rparr>))"

definition getBuiltinLowercaseIndex :: "int \<Rightarrow> BytecodeChunk \<Rightarrow> int" where
  "getBuiltinLowercaseIndex original_idx ch =
     (case ch_builtin_lowercase_indices ch of
        None \<Rightarrow> - 1
      | Some xs \<Rightarrow> (if original_idx < 0 \<or> int (ch_constants_count ch) \<le> original_idx then - 1
                    else xs ! nat original_idx))"

subsection \<open>Instruction lengths\<close>

text \<open>
  \<open>pscalDecodeInstructionLength\<close>. The pair is the length and whether it is trustworthy. Every
  byte is read with \<open>fetch\<close>, \<open>flt\<close> being what a read outside the code would be.
  The three DEFINE_GLOBAL cases differ only in the width of the name field: \<open>decode_define\<close> is
  their common body from the position of the type byte on.
\<close>

definition decode_define :: "'e \<Rightarrow> byte list \<Rightarrow> nat \<Rightarrow> nat \<Rightarrow> 'e + nat \<times> bool" where
  "decode_define flt code off type_pos =
     (if length code \<le> type_pos then Inr (1, False)
      else ebind (fetch code type_pos flt) (\<lambda>declared.
        let pos = type_pos + 1 in
        if declared = TYPE_ARRAY then
          (if pos < length code then
             ebind (fetch code pos flt) (\<lambda>dims. Inr (pos + 1 + unat dims * 4 + 3 - off, True))
           else Inr (pos - off, False))
        else Inr (pos + 2 + (if declared = TYPE_STRING then 2 else if declared = TYPE_FILE then 3 else 0)
                  - off, True)))"

definition pscalDecodeInstructionLength :: "'e \<Rightarrow> byte list \<Rightarrow> nat \<Rightarrow> 'e + nat \<times> bool" where
  "pscalDecodeInstructionLength flt code off =
     (if length code \<le> off then Inr (1, False)
      else ebind (fetch code off flt) (\<lambda>op.
        if op = OP_INIT_FIELD_ARRAY \<or> op = OP_INIT_LOCAL_ARRAY then
          (if length code \<le> off + 2 then Inr (1, False)
           else ebind (fetch code (off + 2) flt) (\<lambda>dims.
                  Inr (off + 3 + unat dims * 4 + 3 - off, True)))
        else if op = OP_DEFINE_GLOBAL then decode_define flt code off (off + 2)
        else if op = OP_DEFINE_GLOBAL16 then decode_define flt code off (off + 3)
        else if op = OP_DEFINE_GLOBAL_SLOT then decode_define flt code off (off + 3)
        else case pscalOpcodeInfo op of
               None \<Rightarrow> Inr (1, False)
             | Some info \<Rightarrow>
                 (case pscalOpcodeOperandSpecLength (oi_operands info) of
                    None \<Rightarrow> Inr (1, False)
                  | Some n \<Rightarrow> Inr (1 + n, True))))"

definition getInstructionLength :: "'e \<Rightarrow> byte list \<Rightarrow> nat \<Rightarrow> 'e + nat" where
  "getInstructionLength flt code off =
     ebind (pscalDecodeInstructionLength flt code off) (\<lambda>(len, trusted). Inr len)"

subsection \<open>Display names\<close>

fun prefix_of :: "string \<Rightarrow> string \<Rightarrow> bool" where
  "prefix_of [] s \<longleftrightarrow> True"
| "prefix_of (p # ps) [] \<longleftrightarrow> False"
| "prefix_of (p # ps) (c # cs) \<longleftrightarrow> p = c \<and> prefix_of ps cs"

text \<open>\<open>strstr\<close>: the suffix that starts at the first occurrence.\<close>

fun c_strstr :: "string \<Rightarrow> string \<Rightarrow> string option" where
  "c_strstr [] pat = (if pat = [] then Some [] else None)"
| "c_strstr (c # cs) pat = (if prefix_of pat (c # cs) then Some (c # cs) else c_strstr cs pat)"

definition bytecodeDisplayNameForPath :: "string \<Rightarrow> string" where
  "bytecodeDisplayNameForPath path =
     (let trimmed =
        (case c_strstr path ''/Tests/'' of
           Some s \<Rightarrow> Some (drop 7 s)
         | None \<Rightarrow>
             (case c_strstr path (CHR 0x5C # ''Tests'' @ [CHR 0x5C]) of
                Some s \<Rightarrow> Some (drop 7 s)
              | None \<Rightarrow> (if prefix_of ''Tests/'' path \<or> prefix_of (''Tests'' @ [CHR 0x5C]) path
                         then Some (drop 6 path) else None)));
          result = (case trimmed of
             Some t \<Rightarrow> dropWhile (\<lambda>c. c = CHR ''/'' \<or> c = CHR 0x5C) t
           | None \<Rightarrow> path)
      in if result = [] then path else result)"

subsection \<open>Well-formed chunks\<close>

text \<open>The line table runs parallel to the code, both fit the capacity, and the side tables that
  exist are as long as the pool's capacity.\<close>

definition chunk_wf :: "BytecodeChunk \<Rightarrow> bool" where
  "chunk_wf ch \<longleftrightarrow>
     length (ch_lines ch) = ch_count ch \<and> ch_count ch \<le> ch_capacity ch \<and>
     ch_constants_count ch \<le> ch_constants_capacity ch \<and>
     (\<forall>xs. ch_builtin_lowercase_indices ch = Some xs \<longrightarrow> length xs = ch_constants_capacity ch) \<and>
     (\<forall>xs. ch_builtin_resolved_ids ch = Some xs \<longrightarrow> length xs = ch_constants_capacity ch)"

lemma chunk_wf_init: "chunk_wf (initBytecodeChunk ver fe)"
  by (simp add: chunk_wf_def initBytecodeChunk_def)

lemma grown_capacity_gt: "oldCap < n + 1 \<Longrightarrow> n \<le> oldCap \<Longrightarrow> n + 1 \<le> grown_capacity oldCap"
  by (simp add: grown_capacity_def)

lemma grown_capacity_ge: "oldCap \<le> grown_capacity oldCap"
  by (simp add: grown_capacity_def)

lemma chunk_wf_write: "chunk_wf ch \<Longrightarrow> chunk_wf (writeBytecodeChunk dm b line ch)"
  using grown_capacity_gt [of "ch_capacity ch" "ch_count ch"]
  by (auto simp: chunk_wf_def writeBytecodeChunk_def Let_def)

lemma chunk_wf_emit:
  "chunk_wf ch \<Longrightarrow> chunk_wf (emitShort dm v line ch)"
  "chunk_wf ch \<Longrightarrow> chunk_wf (emitInt32 dm w line ch)"
  by (simp_all add: emitShort_def emitInt32_def chunk_wf_write)

lemma chunk_wf_patch:
  "chunk_wf ch \<Longrightarrow> chunk_wf (patchShort off v ch)"
  "chunk_wf ch \<Longrightarrow> chunk_wf (patchInt32 off w ch)"
  by (simp_all add: chunk_wf_def patchShort_def patchInt32_def Let_def)

lemma length_grow_side:
  "(\<And>xs. t = Some xs \<Longrightarrow> length xs = old) \<Longrightarrow> old \<le> new \<Longrightarrow> length (grow_side u f old new t) = new"
  by (cases t) (auto simp: grow_side_def)

lemma addConstant_found:
  "find_constant (ch_constants ch) 0 v = Some i \<Longrightarrow> addConstantToChunk uninit v ch = (i, ch)"
  by (simp add: addConstantToChunk_def)

lemma addConstant_fresh:
  assumes "find_constant (ch_constants ch) 0 v = None"
  shows "fst (addConstantToChunk uninit v ch) = ch_constants_count ch"
    and "ch_constants (snd (addConstantToChunk uninit v ch)) = ch_constants ch @ [v]"
    and "ch_code (snd (addConstantToChunk uninit v ch)) = ch_code ch"
    and "ch_lines (snd (addConstantToChunk uninit v ch)) = ch_lines ch"
  using assms by (simp_all add: addConstantToChunk_def Let_def)

lemma chunk_wf_addConstant:
  assumes "chunk_wf ch" shows "chunk_wf (snd (addConstantToChunk uninit v ch))"
proof (cases "find_constant (ch_constants ch) 0 v")
  case (Some i)
  then show ?thesis using assms by (simp add: addConstant_found)
next
  case None
  show ?thesis
  proof (cases "ch_constants_capacity ch < ch_constants_count ch + 1")
    case True
    let ?old = "ch_constants_capacity ch"
    have "length (grow_side uninit f ?old (grown_capacity ?old) (ch_builtin_lowercase_indices ch))
        = grown_capacity ?old"
      "length (grow_side uninit f ?old (grown_capacity ?old) (ch_builtin_resolved_ids ch))
        = grown_capacity ?old" for f
      using assms grown_capacity_ge by (auto intro!: length_grow_side simp: chunk_wf_def)
    then show ?thesis
      using None True assms grown_capacity_gt [of ?old "ch_constants_count ch"]
      by (simp add: addConstantToChunk_def Let_def chunk_wf_def)
  next
    case False
    then show ?thesis
      using None assms by (auto simp: addConstantToChunk_def Let_def chunk_wf_def split: option.splits)
  qed
qed

subsection \<open>The pool search\<close>

lemma find_constant_Some:
  "find_constant cs i v = Some k \<Longrightarrow> i \<le> k \<and> k - i < length cs \<and> same_constant (cs ! (k - i)) v"
proof (induction cs i v rule: find_constant.induct)
  case (2 c cs i v)
  show ?case
  proof (cases "same_constant c v")
    case True
    then show ?thesis using "2.prems" by simp
  next
    case False
    then have "i + 1 \<le> k \<and> k - (i + 1) < length cs \<and> same_constant (cs ! (k - (i + 1))) v"
      using 2 by simp
    moreover from this have "k - i = Suc (k - (i + 1))" by linarith
    ultimately show ?thesis by simp
  qed
qed simp

lemma find_constant_None: "find_constant cs i v = None \<longleftrightarrow> (\<forall>c \<in> set cs. \<not> same_constant c v)"
  by (induction cs i v rule: find_constant.induct) auto

text \<open>No two constants of the pool stand for one another.\<close>

fun pool_unique :: "Value list \<Rightarrow> bool" where
  "pool_unique [] \<longleftrightarrow> True"
| "pool_unique (c # cs) \<longleftrightarrow> (\<forall>d \<in> set cs. \<not> same_constant c d) \<and> pool_unique cs"

lemma pool_unique_snoc:
  "pool_unique (cs @ [v]) \<longleftrightarrow> pool_unique cs \<and> (\<forall>c \<in> set cs. \<not> same_constant c v)"
  by (induction cs) auto

lemma addConstant_unique:
  assumes "pool_unique (ch_constants ch)"
  shows "pool_unique (ch_constants (snd (addConstantToChunk uninit v ch)))"
proof (cases "find_constant (ch_constants ch) 0 v")
  case None
  then show ?thesis
    using assms by (simp add: addConstant_fresh pool_unique_snoc find_constant_None)
next
  case (Some i)
  then show ?thesis using assms by (simp add: addConstant_found)
qed

lemma f64_eq_sym: "f64_eq a b = f64_eq b a" by (auto simp: f64_eq_def)
lemma f32_eq_sym: "f32_eq a b = f32_eq b a" by (auto simp: f32_eq_def)

lemma same_constant_cases:
  "same_constant c v \<longleftrightarrow>
     (\<exists>t i. (t = TYPE_INTEGER \<or> t = TYPE_CHAR) \<and> c = VInt t i \<and> v = VInt t i) \<or>
     (\<exists>a b. c = VFloat a \<and> v = VFloat b \<and> f32_eq a b) \<or>
     (\<exists>a b. c = VDouble a \<and> v = VDouble b \<and> f64_eq a b) \<or>
     (\<exists>a b. c = VLongDouble a \<and> v = VLongDouble b \<and> f64_eq a b) \<or>
     (\<exists>s. c = VString TYPE_STRING (Some s) \<and> v = VString TYPE_STRING (Some s))"
  by (cases "(c, v)" rule: same_constant.cases) auto

lemma same_constant_sym: "same_constant c v \<Longrightarrow> same_constant v c"
  by (auto simp: same_constant_cases f32_eq_sym f64_eq_sym)

interpretation pool: interning ch_constants same_constant
  "\<lambda>c v. c = v \<or> same_constant c v" "\<lambda>v ch. addConstantToChunk uninit v ch"
proof unfold_locales
  fix ch :: BytecodeChunk and v
  assume "\<exists>c \<in> set (ch_constants ch). same_constant c v"
  then have "find_constant (ch_constants ch) 0 v \<noteq> None" by (auto simp: find_constant_None)
  then obtain i where "find_constant (ch_constants ch) 0 v = Some i" by auto
  then show "snd (addConstantToChunk uninit v ch) = ch \<and>
      fst (addConstantToChunk uninit v ch) < ch_constants_count ch \<and>
      same_constant (ch_constants ch ! fst (addConstantToChunk uninit v ch)) v"
    using find_constant_Some [of "ch_constants ch" 0 v i] by (simp add: addConstant_found)
qed (auto simp: addConstant_fresh find_constant_None [THEN iffD2])

subsection \<open>Code as a byte sink\<close>

interpretation chunk_code: byte_sink "\<lambda>b ch. writeBytecodeChunk dm b line ch" ch_code
  by unfold_locales (simp add: writeBytecodeChunk_def Let_def)

lemma emitShort_fold:
  "emitShort dm v line ch = fold (\<lambda>b ch. writeBytecodeChunk dm b line ch) (u16_bytes_be v) ch"
  by (simp add: emitShort_def u16_bytes_be_def)

lemma emitInt32_fold:
  "emitInt32 dm v line ch = fold (\<lambda>b ch. writeBytecodeChunk dm b line ch) (u32_bytes_be v) ch"
  by (simp add: emitInt32_def u32_bytes_be_def)

lemma emitShort_code: "ch_code (emitShort dm v line ch) = ch_code ch @ u16_bytes_be v"
  by (simp only: emitShort_fold chunk_code.contents_fold)

lemma emitInt32_code: "ch_code (emitInt32 dm v line ch) = ch_code ch @ u32_bytes_be v"
  by (simp only: emitInt32_fold chunk_code.contents_fold)

lemma read_after_emitInt32:
  "read_u32_be flt (ch_code (emitInt32 dm v line ch)) (ch_count ch) = Inr v"
  using read_u32_be_bytes [of flt "ch_code ch" v "[]"] by (simp add: emitInt32_code)

lemma patchInt32_code:
  assumes "i + 3 < ch_count ch"
  shows "ch_code (patchInt32 (int i) v ch) =
    (ch_code ch)[i := ucast (drop_bit 24 v), i + 1 := ucast (drop_bit 16 v),
                 i + 2 := ucast (drop_bit 8 v), i + 3 := ucast v]"
proof -
  have "\<not> (int i < 0 \<or> int (ch_count ch) \<le> int i + 3)" using assms by linarith
  then show ?thesis by (simp only: patchInt32_def if_False Let_def nat_int) simp
qed

lemma patchShort_code:
  assumes "i + 1 < ch_count ch"
  shows "ch_code (patchShort (int i) v ch) = (ch_code ch)[i := ucast (drop_bit 8 v), i + 1 := ucast v]"
proof -
  have "\<not> (int i < 0 \<or> int (ch_count ch) \<le> int i + 1)" using assms by linarith
  then show ?thesis by (simp only: patchShort_def if_False Let_def nat_int) simp
qed

lemma patchInt32_read:
  assumes "i + 3 < ch_count ch"
  shows "read_u32_be flt (ch_code (patchInt32 (int i) v ch)) i = Inr v"
    and "j < i \<or> i + 4 \<le> j \<Longrightarrow> ch_code (patchInt32 (int i) v ch) ! j = ch_code ch ! j"
  unfolding patchInt32_code [OF assms] using assms
  by (simp_all add: read_u32_be_def byte_simps) auto

lemma patchShort_read:
  assumes "i + 1 < ch_count ch"
  shows "read_u16_be flt (ch_code (patchShort (int i) v ch)) i = Inr (unat v)"
    and "j < i \<or> i + 2 \<le> j \<Longrightarrow> ch_code (patchShort (int i) v ch) ! j = ch_code ch ! j"
  unfolding patchShort_code [OF assms] using assms
  by (simp_all add: read_u16_be_def byte_simps) auto

subsection \<open>The length decoder\<close>

text \<open>No read of the decoder leaves the code, whatever the bytes; so its result does not depend
  on what such a read would give, and \<open>instr_decode\<close> names it.\<close>

lemma decode_define_Inr: "\<exists>len b. decode_define flt code off pos = Inr (len, b)"
  by (auto simp: decode_define_def Let_def)

lemma decode_no_fault: "\<exists>len b. pscalDecodeInstructionLength flt code off = Inr (len, b)"
  using decode_define_Inr
  by (auto simp: pscalDecodeInstructionLength_def split: option.splits)

lemma decode_define_flt:
  "decode_define flt code off pos = Inr r \<longleftrightarrow> decode_define flt' code off pos = Inr r"
  by (auto simp: decode_define_def Let_def)

lemma decode_flt:
  "pscalDecodeInstructionLength flt code off = Inr r
   \<longleftrightarrow> pscalDecodeInstructionLength flt' code off = Inr r"
  by (auto simp: pscalDecodeInstructionLength_def decode_define_flt [of flt _ _ _ _ flt']
      split: option.splits)

definition instr_decode :: "byte list \<Rightarrow> nat \<Rightarrow> nat \<times> bool" where
  "instr_decode code off =
     (case pscalDecodeInstructionLength () code off of Inl u \<Rightarrow> (1, False) | Inr r \<Rightarrow> r)"

lemma decode_eq [simp]: "pscalDecodeInstructionLength flt code off = Inr (instr_decode code off)"
proof -
  obtain len b where "pscalDecodeInstructionLength () code off = Inr (len, b)"
    using decode_no_fault [of "()"] by blast
  moreover from this have "pscalDecodeInstructionLength flt code off = Inr (len, b)"
    by (rule decode_flt [THEN iffD1])
  ultimately show ?thesis by (simp add: instr_decode_def)
qed

text \<open>The trusted lengths in closed form.\<close>

definition define_len :: "byte list \<Rightarrow> nat \<Rightarrow> nat \<Rightarrow> nat" where
  "define_len code off pos =
     (if code ! pos = TYPE_ARRAY then pos + 5 + unat (code ! (pos + 1)) * 4 - off
      else pos + 3 + (if code ! pos = TYPE_STRING then 2 else if code ! pos = TYPE_FILE then 3 else 0) - off)"

lemma decode_define_True:
  "decode_define flt code off pos = Inr (len, True) \<longleftrightarrow>
     pos < length code \<and> (code ! pos = TYPE_ARRAY \<longrightarrow> pos + 1 < length code) \<and>
     len = define_len code off pos"
  by (auto simp: decode_define_def define_len_def Let_def)

definition define_pos :: "u8 \<Rightarrow> nat" where
  "define_pos op = (if op = OP_DEFINE_GLOBAL then 2 else 3)"

lemma instr_decode_trusted:
  "instr_decode code off = (len, True) \<longleftrightarrow> off < length code \<and>
     (let op = code ! off in
      if op = OP_INIT_FIELD_ARRAY \<or> op = OP_INIT_LOCAL_ARRAY
      then off + 2 < length code \<and> len = 6 + unat (code ! (off + 2)) * 4
      else if op = OP_DEFINE_GLOBAL \<or> op = OP_DEFINE_GLOBAL16 \<or> op = OP_DEFINE_GLOBAL_SLOT
      then off + define_pos op < length code
         \<and> (code ! (off + define_pos op) = TYPE_ARRAY \<longrightarrow> off + define_pos op + 1 < length code)
         \<and> len = define_len code off (off + define_pos op)
      else \<exists>info n. pscalOpcodeInfo op = Some info
         \<and> pscalOpcodeOperandSpecLength (oi_operands info) = Some n \<and> len = 1 + n)"
proof -
  have "instr_decode code off = (len, True) \<longleftrightarrow>
        pscalDecodeInstructionLength () code off = Inr (len, True)" by simp
  also note pscalDecodeInstructionLength_def
  finally show ?thesis
    by (auto simp: Let_def decode_define_True define_pos_def split: option.splits)
qed

lemma instr_decode_len_pos:
  assumes "instr_decode code off = (len, True)" shows "1 \<le> len"
  using assms unfolding instr_decode_trusted Let_def define_len_def
  by (auto simp: define_pos_def split: if_splits)

text \<open>A trusted length depends on the bytes of the instruction only.\<close>

lemma decode_local:
  assumes "instr_decode code off = (len, True)" "off + len \<le> length code"
    "length code' = length code" "\<And>i. off \<le> i \<Longrightarrow> i < off + len \<Longrightarrow> code' ! i = code ! i"
  shows "instr_decode code' off = (len, True)"
proof -
  have off: "off < length code" using assms(1) by (simp add: instr_decode_trusted)
  have len1: "1 \<le> len" using assms(1) by (rule instr_decode_len_pos)
  have op: "code' ! off = code ! off" using assms(4) [of off] len1 by simp
  let ?op = "code ! off"
  consider "?op = OP_INIT_FIELD_ARRAY \<or> ?op = OP_INIT_LOCAL_ARRAY"
    | "?op = OP_DEFINE_GLOBAL \<or> ?op = OP_DEFINE_GLOBAL16 \<or> ?op = OP_DEFINE_GLOBAL_SLOT"
    | "\<not> (?op = OP_INIT_FIELD_ARRAY \<or> ?op = OP_INIT_LOCAL_ARRAY)"
      "\<not> (?op = OP_DEFINE_GLOBAL \<or> ?op = OP_DEFINE_GLOBAL16 \<or> ?op = OP_DEFINE_GLOBAL_SLOT)" by blast
  then show ?thesis
  proof cases
    case 1
    then have "6 \<le> len" using assms(1) by (auto simp: instr_decode_trusted Let_def)
    then have "code' ! (off + 2) = code ! (off + 2)" using assms(4) by simp
    then show ?thesis using assms(1,3) 1 op by (simp add: instr_decode_trusted Let_def)
  next
    case 2
    let ?p = "off + define_pos ?op"
    have d: "len = define_len code off ?p" using 2 assms(1) by (auto simp: instr_decode_trusted Let_def)
    have "define_pos ?op + 3 \<le> len" unfolding d define_len_def by auto
    then have p: "code' ! ?p = code ! ?p" "code' ! (?p + 1) = code ! (?p + 1)" using assms(4) by simp_all
    have "define_len code' off ?p = define_len code off ?p" by (simp only: define_len_def p)
    then show ?thesis
      using assms(1,3) 2 op p by (auto simp: instr_decode_trusted Let_def)
  next
    case 3
    then show ?thesis using assms(1,3) op off unfolding instr_decode_trusted Let_def by simp
  qed
qed

text \<open>Nor does any result depend on the bytes before the instruction.\<close>

lemma decode_suffix:
  assumes "length code' = length code" "\<And>i. off \<le> i \<Longrightarrow> code' ! i = code ! i"
  shows "instr_decode code' off = instr_decode code off"
proof -
  have def: "decode_define () code' off (off + k) = decode_define () code off (off + k)" for k
    unfolding decode_define_def Let_def fetch_def by (simp add: assms)
  have fe: "fetch code' off () = fetch code off ()" "fetch code' (off + 2) () = fetch code (off + 2) ()"
    using assms by (simp_all add: fetch_def)
  have "pscalDecodeInstructionLength () code' off = pscalDecodeInstructionLength () code off"
    unfolding pscalDecodeInstructionLength_def assms(1)
    by (subst fe(1), subst def, subst def, subst def, subst fe(2), rule refl)
  then show ?thesis by (simp only: instr_decode_def)
qed

subsection \<open>The instruction stream\<close>

text \<open>The positions a walk from the first byte stops at: each the start of an instruction of
  trusted length that fits, or the end of the code.\<close>

inductive instr_start :: "byte list \<Rightarrow> nat \<Rightarrow> bool" for code where
  start: "instr_start code 0"
| next_instr: "instr_start code pc \<Longrightarrow> pc < length code \<Longrightarrow> instr_decode code pc = (len, True) \<Longrightarrow>
    pc + len \<le> length code \<Longrightarrow> instr_start code (pc + len)"

lemma instr_start_le: "instr_start code pc \<Longrightarrow> pc \<le> length code"
  by (induction rule: instr_start.induct) auto

text \<open>Two walks over code of one length with the same trusted lengths stop at the same places.\<close>

lemma instr_start_transfer:
  assumes "instr_start code pc" "length code' = length code"
    "\<And>q len. instr_start code q \<Longrightarrow> q < length code \<Longrightarrow> instr_decode code q = (len, True) \<Longrightarrow>
       q + len \<le> length code \<Longrightarrow> instr_decode code' q = (len, True)"
  shows "instr_start code' pc"
  using assms(1)
proof (induction rule: instr_start.induct)
  case start
  show ?case by (rule instr_start.start)
next
  case (next_instr pc len)
  then show ?case using assms(2,3) by (auto intro!: instr_start.next_instr)
qed

text \<open>Two instructions of the stream do not overlap.\<close>

lemma instr_start_disjoint:
  assumes "instr_start code p" "instr_start code q" "p < q" "p < length code"
    "instr_decode code p = (len, True)" "p + len \<le> length code"
  shows "p + len \<le> q"
  using assms
proof (induction q arbitrary: p len rule: less_induct)
  case (less q)
  from less.prems(2) show ?case
  proof cases
    case start
    then show ?thesis using less.prems(3) by simp
  next
    case (next_instr q0 len0)
    have len0: "0 < len0" using instr_decode_len_pos [OF next_instr(4)] by simp
    consider "p < q0" | "p = q0" | "q0 < p" by linarith
    then show ?thesis
    proof cases
      case 1
      have "p + len \<le> q0"
        by (rule less.IH) (use 1 len0 next_instr less.prems in auto)
      then show ?thesis using next_instr(1) by simp
    next
      case 2
      then show ?thesis using next_instr less.prems(5) by simp
    next
      case 3
      have "q0 + len0 \<le> p"
        by (rule less.IH) (use 3 next_instr less.prems in auto)
      then show ?thesis using less.prems(3) next_instr(1) by simp
    qed
  qed
qed

lemma instr_start_before:
  assumes "instr_start code p" "instr_start code q" "q < p"
  shows "\<exists>len. instr_decode code q = (len, True) \<and> q + len \<le> p"
  using assms
proof (induction rule: instr_start.induct)
  case (next_instr pc len)
  have pos: "0 < len" using instr_decode_len_pos [OF next_instr.hyps(3)] by simp
  consider "q < pc" | "q = pc" | "pc < q" by linarith
  then show ?case
  proof cases
    case 1
    then show ?thesis using next_instr pos by fastforce
  next
    case 2
    then show ?thesis using next_instr by auto
  next
    case 3
    have "pc + len \<le> q"
      by (rule instr_start_disjoint [OF next_instr.hyps(1) next_instr.prems(1)])
         (use next_instr 3 in auto)
    then show ?thesis using next_instr.prems(2) by simp
  qed
qed simp

subsection \<open>Correctness of the chunk operations\<close>

lemma fold_write_code:
  "ch_code (fold (\<lambda>(b, l). writeBytecodeChunk dm b l) bs ch) = ch_code ch @ map fst bs"
  by (induction bs arbitrary: ch) (auto simp: chunk_code.contents_put)

lemma update4_append:
  "(xs @ [a, b, c, d] @ ys)[length xs := a', length xs + 1 := b', length xs + 2 := c', length xs + 3 := d']
   = xs @ [a', b', c', d'] @ ys"
  by (simp add: list_update_append)

text \<open>A forward jump is compiled by emitting a four-byte placeholder, emitting any further code,
  and patching the placeholder. Reading the operand then yields exactly the patched displacement,
  and the code before the operand and the code emitted after it are untouched.\<close>

lemma forward_jump_patched:
  fixes more :: "(byte \<times> int) list"
  defines "patched dm ch v ph line bs \<equiv>
    patchInt32 (int (ch_count ch)) v
      (fold (\<lambda>(b, l). writeBytecodeChunk dm b l) bs (emitInt32 dm ph line ch))"
  shows "read_u32_be flt (ch_code (patched dm ch v ph line more)) (ch_count ch) = Inr v
    \<and> ch_code (patched dm ch v ph line more) = ch_code ch @ u32_bytes_be v @ map fst more"
proof -
  let ?c = "fold (\<lambda>(b, l). writeBytecodeChunk dm b l) more (emitInt32 dm ph line ch)"
  have code: "ch_code ?c = ch_code ch @ u32_bytes_be ph @ map fst more"
    by (simp add: fold_write_code emitInt32_code)
  then have "ch_count ch + 3 < ch_count ?c" by simp
  then have "ch_code (patched dm ch v ph line more) = ch_code ch @ u32_bytes_be v @ map fst more"
    unfolding patched_def using update4_append [of "ch_code ch"] code
    by (simp only: patchInt32_code u32_bytes_be_def)
  then show ?thesis using read_u32_be_bytes [of flt "ch_code ch" v] by simp
qed

text \<open>\<open>addConstantToChunk\<close> returns the index of a constant that stands for the one asked for,
  keeps every constant already in the pool at its index, never lets two constants that stand for
  one another into the pool, appends only when no equal constant was there, and keeps the chunk
  well formed.\<close>

lemma addConstant_interns:
  assumes "chunk_wf ch" and "pool_unique (ch_constants ch)"
    and "addConstantToChunk uninit v ch = (i, ch')"
  shows "i < ch_constants_count ch' \<and> (ch_constants ch' ! i = v \<or> same_constant (ch_constants ch' ! i) v)
    \<and> take (ch_constants_count ch) (ch_constants ch') = ch_constants ch
    \<and> pool_unique (ch_constants ch') \<and> chunk_wf ch'
    \<and> (ch_constants_count ch' = ch_constants_count ch
        \<longleftrightarrow> (\<exists>c \<in> set (ch_constants ch). same_constant c v))"
proof -
  have ch': "ch' = snd (addConstantToChunk uninit v ch)" and i: "i = fst (addConstantToChunk uninit v ch)"
    using assms(3) by simp_all
  have keep: "pool_unique (ch_constants ch')" "chunk_wf ch'"
    unfolding ch' using assms(1,2) by (auto intro: addConstant_unique chunk_wf_addConstant)
  have "ch_constants_count ch' = ch_constants_count ch
      \<longleftrightarrow> (\<exists>c \<in> set (ch_constants ch). same_constant c v)"
    using pool.found [where uninit = uninit and s = ch and k = v] pool.fresh [where uninit = uninit and s = ch and k = v] unfolding ch' by fastforce
  then show ?thesis
    using keep pool.intern_index [where uninit = uninit and s = ch and k = v] pool.intern_keeps [where uninit = uninit and s = ch and k = v]
    unfolding ch' i by blast
qed

theorem addConstant_interns_witness:
  "let ch = snd (addConstantToChunk 0 (VInt TYPE_INTEGER 7) (initBytecodeChunk 9 0));
       r = addConstantToChunk 0 (VString TYPE_STRING (Some ''x'')) ch
   in fst r < ch_constants_count (snd r)"
proof -
  let ?ch = "snd (addConstantToChunk 0 (VInt TYPE_INTEGER 7) (initBytecodeChunk 9 0))"
  let ?r = "addConstantToChunk 0 (VString TYPE_STRING (Some ''x'')) ?ch"
  have "chunk_wf ?ch" by (intro chunk_wf_addConstant chunk_wf_init)
  moreover have "pool_unique (ch_constants ?ch)"
    by (rule addConstant_unique) (simp add: initBytecodeChunk_def)
  ultimately show ?thesis
    using addConstant_interns [of ?ch 0 "VString TYPE_STRING (Some ''x'')" "fst ?r" "snd ?r"]
    by (simp add: Let_def)
qed

text \<open>The pool search compares reals with C's equality: after the constant \<open>0.0\<close>, a request for
  \<open>-0.0\<close> is given the index of \<open>0.0\<close>, so the program's negative zero is lost.\<close>

lemma negative_zero_shares_slot:
  "let ch = snd (addConstantToChunk u (VDouble 0) (initBytecodeChunk ver fe))
   in addConstantToChunk u (VDouble 0x8000000000000000) ch = (0, ch)
      \<and> ch_constants ch ! 0 = VDouble 0"
  by (simp add: addConstantToChunk_def initBytecodeChunk_def Let_def f64_eq_def f64_nan_def)

text \<open>A chunk read from a cache file has a full pool and no table of resolved builtins. The first
  constant added to it makes a table whose old cells were never written.\<close>

lemma resolved_ids_left_uninitialised:
  assumes "ch_builtin_resolved_ids ch = None" "0 < ch_constants_count ch"
    "ch_constants_capacity ch = ch_constants_count ch" "find_constant (ch_constants ch) 0 v = None"
  shows "map_option hd (ch_builtin_resolved_ids (snd (addConstantToChunk uninit v ch))) = Some uninit"
proof -
  obtain k where k: "ch_constants_count ch = Suc k" using assms(2) by (cases "ch_constants_count ch") auto
  show ?thesis using assms by (simp add: addConstantToChunk_def Let_def grow_side_def k)
qed

end
