(* ===== verification/Symtab.thy ===== *)
theory Symtab
  imports Chunk
begin

section \<open>The symbol table\<close>

text \<open>
  \<open>symbol/symbol.h\<close> and \<open>symbol/symbol.c\<close>: symbols, the hash tables that hold them, insertion
  and lookup, the tables of globals and constants and the chain of local scopes.

  A \<open>Symbol *\<close> is an index into the list of symbols ever allocated (\<open>se_syms\<close>), so that an alias
  and the symbol it stands for stay two names of one cell; a symbol's \<open>Value *\<close> is an index into
  \<open>se_values\<close>, because an alias shares its target's value. A hash table is its 256 buckets; each
  entry of a bucket carries the table that hangs off its symbol's type definition
  (\<open>type_def->symbol_table\<close>), which the recursive walks of the verifier and the cache follow, so
  the model has no cyclic nesting.
\<close>

record Upvalue =
  uv_index :: u8
  uv_isLocal :: bool

record SymInfo =
  sy_type :: u8
  sy_value :: "nat option"
  sy_is_alias :: bool
  sy_is_const :: bool
  sy_is_local_var :: bool
  sy_is_defined :: bool
  sy_bytecode_address :: int
  sy_arity :: u8
  sy_locals_count :: u16
  sy_slot_index :: int
  sy_real_symbol :: "nat option"
  sy_enclosing :: "nat option"
  sy_upvalues :: "Upvalue list"

record Symbol = SymInfo +
  sy_name :: string

datatype HashTable = HashTable "(nat \<times> HashTable option) list list"

fun buckets :: "HashTable \<Rightarrow> (nat \<times> HashTable option) list list" where
  "buckets (HashTable bs) = bs"

definition HASHTABLE_SIZE :: nat where
  "HASHTABLE_SIZE = 256"

definition MAX_SYMBOL_LENGTH :: nat where
  "MAX_SYMBOL_LENGTH = 255"

definition createHashTable :: HashTable where
  "createHashTable = HashTable (replicate HASHTABLE_SIZE [])"

subsection \<open>Hashing, lookup and insertion\<close>

definition hashFunctionName :: "string \<Rightarrow> nat" where
  "hashFunctionName name =
     unat (foldl (\<lambda>hash c. hash * 31 + of_nat (code_of (c_tolower c))) (0 :: u64) name)
       mod HASHTABLE_SIZE"

text \<open>The local copy of the name: \<open>strncpy\<close> of at most 254 characters, lower-cased.\<close>

definition lookup_key :: "string \<Rightarrow> string" where
  "lookup_key name = lower_string (take (MAX_SYMBOL_LENGTH - 1) name)"

definition hashTableLookup :: "Symbol list \<Rightarrow> HashTable \<Rightarrow> string \<Rightarrow> nat option" where
  "hashTableLookup syms table name =
     (let key = lookup_key name
      in find (\<lambda>s. sy_name (syms ! s) = key) (map fst (buckets table ! hashFunctionName key)))"

text \<open>The new symbol goes to the head of the bucket of its full name.\<close>

definition hashTableInsert :: "Symbol list \<Rightarrow> nat \<Rightarrow> HashTable option \<Rightarrow> HashTable \<Rightarrow> HashTable" where
  "hashTableInsert syms s nested table =
     (let i = hashFunctionName (sy_name (syms ! s))
      in HashTable ((buckets table)[i := (s, nested) # buckets table ! i]))"

definition resolveSymbolAlias :: "Symbol list \<Rightarrow> nat \<Rightarrow> nat" where
  "resolveSymbolAlias syms s =
     (case sy_real_symbol (syms ! s) of
        Some r \<Rightarrow> (if sy_is_alias (syms ! s) then r else s)
      | None \<Rightarrow> s)"

subsection \<open>The environment\<close>

record SymEnv =
  se_syms :: "Symbol list"
  se_values :: "Value list"
  se_globals :: HashTable
  se_consts :: HashTable
  se_locals :: "HashTable list"
  se_procs :: "HashTable list"

definition lookupGlobalSymbol :: "SymEnv \<Rightarrow> string \<Rightarrow> nat option" where
  "lookupGlobalSymbol e name = hashTableLookup (se_syms e) (se_globals e) name"

fun lookup_chain :: "Symbol list \<Rightarrow> HashTable list \<Rightarrow> string \<Rightarrow> nat option" where
  "lookup_chain syms [] name = None"
| "lookup_chain syms (t # ts) name =
     (case hashTableLookup syms t name of
        Some s \<Rightarrow> Some s
      | None \<Rightarrow> lookup_chain syms ts name)"

definition lookupLocalSymbol :: "SymEnv \<Rightarrow> string \<Rightarrow> nat option" where
  "lookupLocalSymbol e name = lookup_chain (se_syms e) (se_locals e) name"

definition lookupSymbolOptional :: "SymEnv \<Rightarrow> string \<Rightarrow> nat option" where
  "lookupSymbolOptional e name =
     (case lookupLocalSymbol e name of Some s \<Rightarrow> Some s | None \<Rightarrow> lookupGlobalSymbol e name)"

text \<open>An alias answers with its target, even where the target is NULL.\<close>

definition lookupProcedure :: "SymEnv \<Rightarrow> string \<Rightarrow> nat option" where
  "lookupProcedure e name =
     (case lookup_chain (se_syms e) (se_procs e) name of
        Some s \<Rightarrow> (if sy_is_alias (se_syms e ! s) then sy_real_symbol (se_syms e ! s) else Some s)
      | None \<Rightarrow> None)"

definition const_symbol :: "string \<Rightarrow> u8 \<Rightarrow> nat \<Rightarrow> Symbol" where
  "const_symbol name t v =
     \<lparr>sy_type = t, sy_value = Some v, sy_is_alias = False,
      sy_is_const = True, sy_is_local_var = False, sy_is_defined = False,
      sy_bytecode_address = 0, sy_arity = 0, sy_locals_count = 0, sy_slot_index = 0,
      sy_real_symbol = None, sy_enclosing = None, sy_upvalues = [],
      sy_name = lower_string name\<rparr>"

text \<open>A constant inserted again gives its symbol the new type and value, in the same value cell
  when there is one.\<close>

definition insertConstGlobalSymbol :: "string \<Rightarrow> Value \<Rightarrow> SymEnv \<Rightarrow> SymEnv" where
  "insertConstGlobalSymbol name val e =
     (if name = [] then e
      else case hashTableLookup (se_syms e) (se_consts e) name of
        Some s \<Rightarrow>
          (let sy = se_syms e ! s;
               cell = (case sy_value sy of Some v \<Rightarrow> v | None \<Rightarrow> length (se_values e));
               vals = (case sy_value sy of Some v \<Rightarrow> (se_values e)[v := val]
                                          | None \<Rightarrow> se_values e @ [val])
           in e\<lparr>se_syms := (se_syms e)[s := sy\<lparr>sy_type := v_type val, sy_is_const := True,
                                                sy_value := Some cell\<rparr>],
                se_values := vals\<rparr>)
      | None \<Rightarrow>
          (let s = length (se_syms e);
               syms = se_syms e @ [const_symbol name (v_type val) (length (se_values e))]
           in e\<lparr>se_syms := syms, se_values := se_values e @ [val],
                se_consts := hashTableInsert syms s None (se_consts e)\<rparr>))"

text \<open>The variant for a class-scoped table, which keeps the first constant of a name.\<close>

definition insertConstSymbolIn :: "HashTable \<Rightarrow> string \<Rightarrow> Value \<Rightarrow> SymEnv \<Rightarrow> HashTable \<times> SymEnv" where
  "insertConstSymbolIn table name val e =
     (if name = [] \<or> hashTableLookup (se_syms e) table name \<noteq> None then (table, e)
      else (let s = length (se_syms e);
                syms = se_syms e @ [const_symbol name (v_type val) (length (se_values e))]
            in (hashTableInsert syms s None table,
                e\<lparr>se_syms := syms, se_values := se_values e @ [val]\<rparr>)))"

text \<open>The alias takes the nested table with the type definition it shares.\<close>

definition insertGlobalAlias :: "string \<Rightarrow> nat \<Rightarrow> HashTable option \<Rightarrow> SymEnv \<Rightarrow> SymEnv" where
  "insertGlobalAlias name target nested e =
     (if name = [] \<or> lookupGlobalSymbol e name \<noteq> None then e
      else (let r = resolveSymbolAlias (se_syms e) target;
                resolved = se_syms e ! r;
                alias = resolved\<lparr>sy_name := lower_string name, sy_is_local_var := False,
                                 sy_enclosing := None, sy_is_alias := True, sy_real_symbol := Some r\<rparr>;
                s = length (se_syms e);
                syms = se_syms e @ [alias]
            in e\<lparr>se_syms := syms, se_globals := hashTableInsert syms s nested (se_globals e)\<rparr>))"

definition saveLocalEnv :: "SymEnv \<Rightarrow> HashTable list \<times> SymEnv" where
  "saveLocalEnv e = (se_locals e, e\<lparr>se_locals := createHashTable # se_locals e\<rparr>)"

definition restoreLocalEnv :: "HashTable list \<Rightarrow> SymEnv \<Rightarrow> SymEnv" where
  "restoreLocalEnv snap e = e\<lparr>se_locals := snap\<rparr>"

definition popLocalEnv :: "SymEnv \<Rightarrow> SymEnv" where
  "popLocalEnv e = e\<lparr>se_locals := []\<rparr>"

subsection \<open>The list of scope tables\<close>

text \<open>
  The procedure tables pushed during a run hang on a list that is freed at its end. The model
  keeps table identities: the tables made so far, the chain from \<open>current_procedure_table\<close>, the
  recorded list and the tables freed, in order.
\<close>

record ScopeState =
  sc_next :: nat
  sc_current :: "nat list"
  sc_list :: "nat list"
  sc_freed :: "nat list"

definition createScopeTable :: "ScopeState \<Rightarrow> nat \<times> ScopeState" where
  "createScopeTable st =
     (sc_next st, st\<lparr>sc_next := sc_next st + 1, sc_list := sc_list st @ [sc_next st]\<rparr>)"

definition freeScopeTables :: "ScopeState \<Rightarrow> ScopeState" where
  "freeScopeTables st = st\<lparr>sc_freed := sc_freed st @ sc_list st, sc_list := []\<rparr>"

definition scopeTablesDetach :: "ScopeState \<Rightarrow> nat list \<times> ScopeState" where
  "scopeTablesDetach st = (sc_list st, st\<lparr>sc_list := []\<rparr>)"

definition scopeTablesAttach :: "nat list \<Rightarrow> ScopeState \<Rightarrow> ScopeState" where
  "scopeTablesAttach l st = (freeScopeTables st)\<lparr>sc_list := l\<rparr>"

definition pushProcedureTable :: "ScopeState \<Rightarrow> ScopeState" where
  "pushProcedureTable st =
     (case createScopeTable st of (t, st') \<Rightarrow> st'\<lparr>sc_current := t # sc_current st'\<rparr>)"

definition popProcedureTable :: "bool \<Rightarrow> ScopeState \<Rightarrow> ScopeState" where
  "popProcedureTable free_table st =
     (case sc_current st of
        [] \<Rightarrow> st
      | old # rest \<Rightarrow>
          (if free_table then st\<lparr>sc_current := rest, sc_freed := sc_freed st @ [old]\<rparr>
           else st\<lparr>sc_current := rest\<rparr>))"

subsection \<open>Tables as lookup tables\<close>

lemma hash_lt [simp]: "hashFunctionName name < HASHTABLE_SIZE"
  by (simp add: hashFunctionName_def HASHTABLE_SIZE_def)

lemma lookup_key_idem [simp]: "lookup_key (lookup_key n) = lookup_key n"
  by (simp add: lookup_key_def lower_string_take)

lemma lookup_key_short: "length n \<le> 254 \<Longrightarrow> lookup_key n = lower_string n"
  by (simp add: lookup_key_def MAX_SYMBOL_LENGTH_def)

lemma lookup_key_length: "length (lookup_key n) \<le> 254"
  by (simp add: lookup_key_def MAX_SYMBOL_LENGTH_def)

text \<open>Every entry names an allocated symbol and sits in the bucket its name hashes to.\<close>

definition table_wf :: "Symbol list \<Rightarrow> HashTable \<Rightarrow> bool" where
  "table_wf syms t \<longleftrightarrow> length (buckets t) = HASHTABLE_SIZE \<and>
     (\<forall>i < HASHTABLE_SIZE. \<forall>e \<in> set (buckets t ! i).
        fst e < length syms \<and> hashFunctionName (sy_name (syms ! fst e)) = i)"

lemma table_wf_entry:
  assumes "table_wf syms t" "i < HASHTABLE_SIZE" "s \<in> set (map fst (buckets t ! i))"
  shows "s < length syms" "hashFunctionName (sy_name (syms ! s)) = i"
proof -
  obtain e where "e \<in> set (buckets t ! i)" "fst e = s" using assms(3) by auto
  with assms(1,2) show "s < length syms" "hashFunctionName (sy_name (syms ! s)) = i"
    by (auto simp: table_wf_def)
qed

lemma table_wf_create: "table_wf syms createHashTable"
  by (simp add: table_wf_def createHashTable_def)

lemma table_wf_insert:
  assumes "table_wf syms t" "s < length syms"
  shows "table_wf syms (hashTableInsert syms s nested t)"
  using assms by (auto simp: table_wf_def hashTableInsert_def Let_def nth_list_update)

lemma table_wf_snoc: "table_wf syms t \<Longrightarrow> table_wf (syms @ [sy]) t"
  by (fastforce simp: table_wf_def nth_append)

lemma lookup_snoc:
  assumes "table_wf syms t"
  shows "hashTableLookup (syms @ [sy]) t name = hashTableLookup syms t name"
proof -
  have "x \<in> set (map fst (buckets t ! hashFunctionName (lookup_key name))) \<Longrightarrow>
        (sy_name ((syms @ [sy]) ! x) = lookup_key name) = (sy_name (syms ! x) = lookup_key name)" for x
    using table_wf_entry(1) [OF assms hash_lt, of x] by (simp add: nth_append)
  then show ?thesis unfolding hashTableLookup_def Let_def by (rule find_cong_set)
qed

lemma lookup_Some:
  assumes "table_wf syms t" "hashTableLookup syms t name = Some s"
  shows "s < length syms" "sy_name (syms ! s) = lookup_key name"
proof -
  have "s \<in> set (map fst (buckets t ! hashFunctionName (lookup_key name)))
      \<and> sy_name (syms ! s) = lookup_key name"
    using assms(2) unfolding hashTableLookup_def Let_def by (rule find_SomeD)
  then show "s < length syms" "sy_name (syms ! s) = lookup_key name"
    using table_wf_entry(1) [OF assms(1) hash_lt] by blast+
qed

lemma lookup_insert:
  assumes "table_wf syms t"
  shows "hashTableLookup syms (hashTableInsert syms s nested t) m =
    (if sy_name (syms ! s) = lookup_key m then Some s else hashTableLookup syms t m)"
  using assms by (auto simp: hashTableLookup_def hashTableInsert_def Let_def table_wf_def nth_list_update)

text \<open>Allocating a symbol under a lower-cased name and inserting it, the shared end of the
  insertion functions; what a lookup answers is all of the symbol but its name.\<close>

definition table_add :: "string \<Rightarrow> SymInfo \<Rightarrow> Symbol list \<times> HashTable \<Rightarrow> Symbol list \<times> HashTable" where
  "table_add name info st =
     (let syms = fst st @ [SymInfo.extend info (Symbol.fields (lower_string name))]
      in (syms, hashTableInsert syms (length (fst st)) None (snd st)))"

definition table_get :: "Symbol list \<times> HashTable \<Rightarrow> string \<Rightarrow> SymInfo option" where
  "table_get st name =
     (case hashTableLookup (fst st) (snd st) name of
        None \<Rightarrow> None | Some s \<Rightarrow> Some (SymInfo.truncate (fst st ! s)))"

lemma sy_name_extend [simp]: "sy_name (SymInfo.extend info (Symbol.fields n)) = n"
  by (simp add: SymInfo.defs Symbol.defs)

lemma truncate_extend [simp]: "SymInfo.truncate (SymInfo.extend info (Symbol.fields n)) = info"
  by (cases info) (simp add: SymInfo.defs Symbol.defs)

lemma table_wf_add:
  "table_wf (fst st) (snd st) \<Longrightarrow> table_wf (fst (table_add k v st)) (snd (table_add k v st))"
  by (simp add: table_add_def Let_def table_wf_insert table_wf_snoc)

lemma table_get_add:
  assumes wf: "table_wf (fst st) (snd st)" and name: "length name \<le> 254"
  shows "table_get (table_add name v st) m =
    (if lookup_key m = lookup_key name then Some v else table_get st m)"
proof -
  let ?syms = "fst st @ [SymInfo.extend v (Symbol.fields (lower_string name))]"
  have "hashTableLookup ?syms (hashTableInsert ?syms (length (fst st)) None (snd st)) m =
        (if lookup_key m = lookup_key name then Some (length (fst st))
         else hashTableLookup (fst st) (snd st) m)"
    using lookup_insert [OF table_wf_snoc [OF wf]] lookup_snoc [OF wf]
    by (auto simp: lookup_key_short [OF name])
  then show ?thesis
    using lookup_Some(1) [OF wf, of m]
    by (auto simp: table_get_def table_add_def Let_def nth_append split: option.splits)
qed

interpretation symbol_table: lookup_table "\<lambda>st. table_wf (fst st) (snd st)" "\<lambda>k. length k \<le> 254"
  lookup_key table_get table_add
  by unfold_locales (simp_all add: table_wf_add table_get_add)

subsection \<open>Correctness of the symbol table\<close>

text \<open>The environment is well formed: its tables are, and every value cell exists.\<close>

definition env_wf :: "SymEnv \<Rightarrow> bool" where
  "env_wf e \<longleftrightarrow> table_wf (se_syms e) (se_globals e) \<and> table_wf (se_syms e) (se_consts e) \<and>
     (\<forall>t \<in> set (se_locals e) \<union> set (se_procs e). table_wf (se_syms e) t) \<and>
     (\<forall>s \<in> set (se_syms e). \<forall>v. sy_value s = Some v \<longrightarrow> v < length (se_values e))"

lemma table_wf_update:
  assumes "table_wf syms t" "s < length syms" "sy_name sy' = sy_name (syms ! s)"
  shows "table_wf (syms[s := sy']) t"
  using assms by (auto simp: table_wf_def nth_list_update)

lemma lookup_update:
  assumes "s < length syms" "sy_name sy' = sy_name (syms ! s)"
  shows "hashTableLookup (syms[s := sy']) t name = hashTableLookup syms t name"
  using assms unfolding hashTableLookup_def Let_def
  by (intro find_cong_set) (auto simp: nth_list_update)

lemma const_symbol_simps [simp]:
  "sy_name (const_symbol n t v) = lower_string n" "sy_value (const_symbol n t v) = Some v"
  "sy_type (const_symbol n t v) = t" "sy_is_const (const_symbol n t v)"
  by (simp_all add: const_symbol_def)

lemma env_wf_insertConst:
  assumes wf: "env_wf e" shows "env_wf (insertConstGlobalSymbol name val e)"
proof (cases "name = [] \<or> hashTableLookup (se_syms e) (se_consts e) name = None")
  case True
  then show ?thesis
    using wf
    by (auto simp: insertConstGlobalSymbol_def env_wf_def Let_def table_wf_snoc table_wf_insert;
        meson less_SucI)
next
  case False
  then obtain s where nm: "name \<noteq> []" and s: "hashTableLookup (se_syms e) (se_consts e) name = Some s"
    by auto
  have lt: "s < length (se_syms e)" using lookup_Some(1) [OF _ s] wf by (simp add: env_wf_def)
  have cell: "sy_value (se_syms e ! s) = Some v \<Longrightarrow> v < length (se_values e)" for v
    using wf lt by (auto simp: env_wf_def)
  show ?thesis
    using wf nm s lt cell
    by (auto simp: insertConstGlobalSymbol_def env_wf_def Let_def table_wf_update
        dest!: set_update_subset_insert [THEN subsetD] split: option.splits intro: less_SucI)
qed

definition const_value :: "SymEnv \<Rightarrow> string \<Rightarrow> Value option" where
  "const_value e name =
     (case hashTableLookup (se_syms e) (se_consts e) name of
        None \<Rightarrow> None
      | Some s \<Rightarrow> map_option (\<lambda>v. se_values e ! v) (sy_value (se_syms e ! s)))"

text \<open>After a constant is inserted under a name of at most 254 characters, every spelling of the
  name in either case finds it with the new value, whether or not the name was known before, and
  the environment stays well formed; a name already known keeps its symbol.\<close>

theorem insertConst_then_lookup:
  assumes wf: "env_wf e" and name: "name \<noteq> []" "length name \<le> 254"
    and spelling: "lower_string name' = lower_string name"
  shows "const_value (insertConstGlobalSymbol name val e) name' = Some val
    \<and> env_wf (insertConstGlobalSymbol name val e)
    \<and> (\<forall>s. hashTableLookup (se_syms e) (se_consts e) name = Some s \<longrightarrow>
         hashTableLookup (se_syms (insertConstGlobalSymbol name val e))
           (se_consts (insertConstGlobalSymbol name val e)) name' = Some s)"
proof -
  have len: "length name' = length name" using arg_cong [OF spelling, of length] by simp
  have key: "lookup_key name' = lookup_key name"
    using spelling len name(2) by (simp add: lookup_key_short)
  have wfc: "table_wf (se_syms e) (se_consts e)" using wf by (simp add: env_wf_def)
  have same: "hashTableLookup syms t name' = hashTableLookup syms t name" for syms t
    by (simp add: hashTableLookup_def key)
  show ?thesis
  proof (cases "hashTableLookup (se_syms e) (se_consts e) name")
    case None
    then show ?thesis
      using env_wf_insertConst [OF wf, of name val] name(1)
      by (simp add: insertConstGlobalSymbol_def Let_def const_value_def same
          lookup_insert [OF table_wf_snoc [OF wfc]] lookup_key_short [OF name(2)])
  next
    case (Some s)
    have lt: "s < length (se_syms e)" using lookup_Some(1) [OF wfc Some] .
    have cell: "sy_value (se_syms e ! s) = Some v \<Longrightarrow> v < length (se_values e)" for v
      using wf lt by (auto simp: env_wf_def)
    show ?thesis
      using Some name(1) lt cell env_wf_insertConst [OF wf, of name val]
      by (auto simp: insertConstGlobalSymbol_def Let_def const_value_def same lookup_update
          split: option.splits)
  qed
qed

definition empty_env :: SymEnv where
  "empty_env = \<lparr>se_syms = [], se_values = [], se_globals = createHashTable,
     se_consts = createHashTable, se_locals = [], se_procs = []\<rparr>"

lemma env_wf_empty: "env_wf empty_env"
  by (simp add: env_wf_def empty_env_def table_wf_create)

theorem insertConst_then_lookup_witness:
  "const_value (insertConstGlobalSymbol ''Pi'' (VInt 2 3) empty_env) ''pI'' = Some (VInt 2 3)"
proof -
  have "lower_string ''pI'' = lower_string ''Pi''" by code_simp
  then show ?thesis
    using insertConst_then_lookup [OF env_wf_empty, of "''Pi''" "''pI''" "VInt 2 3"] by simp
qed

text \<open>A table built by any series of insertions under names of at most 254 characters answers a
  lookup with the last symbol inserted under the name, in any mixture of cases, and with nothing
  for a name never inserted.\<close>

lemma table_answers_last_insertion:
  assumes "\<forall>(k, v) \<in> set decls. length k \<le> 254"
  shows "table_get (fold (\<lambda>(k, v). table_add k v) decls ([], createHashTable)) name
    = map_of (rev (map (\<lambda>(k, v). (lookup_key k, v)) decls)) (lookup_key name)"
proof -
  have "table_get ([], createHashTable) name = None"
    by (simp add: table_get_def hashTableLookup_def createHashTable_def Let_def)
  then show ?thesis
    using symbol_table.get_fold [of "([], createHashTable)" decls name] assms
    by (simp add: table_wf_create split: option.splits)
qed

theorem table_answers_last_insertion_witness:
  "let i = \<lparr>sy_type = 2, sy_value = None, sy_is_alias = False, sy_is_const = False,
      sy_is_local_var = True, sy_is_defined = False, sy_bytecode_address = 0, sy_arity = 0,
      sy_locals_count = 0, sy_slot_index = 0, sy_real_symbol = None, sy_enclosing = None,
      sy_upvalues = []\<rparr> in
   table_get (fold (\<lambda>(k, v). table_add k v) [(''Count'', i), (''n'', i\<lparr>sy_type := 4\<rparr>),
      (''count'', i\<lparr>sy_type := 3\<rparr>)] ([], createHashTable)) ''COUNT'' = Some (i\<lparr>sy_type := 3\<rparr>)"
proof -
  have "lookup_key ''Count'' = ''count''" "lookup_key ''n'' = ''n''" "lookup_key ''count'' = ''count''"
    "lookup_key ''COUNT'' = ''count''" by code_simp+
  then show ?thesis unfolding Let_def by (subst table_answers_last_insertion) simp_all
qed

text \<open>Insertion keeps the whole name of a symbol but lookup compares only its first 254
  characters, so a symbol with a longer name is never found by any lookup.\<close>

lemma long_name_never_found:
  assumes "table_wf syms t" "254 < length (sy_name (syms ! s))"
  shows "hashTableLookup syms t name \<noteq> Some s"
  using lookup_Some(2) [OF assms(1), of name s] lookup_key_length [of name] assms(2) by auto

lemma long_name_never_found_witness:
  "let n = replicate 255 (CHR ''x'');
       e = insertConstGlobalSymbol n (VInt 2 3) empty_env
   in hashTableLookup (se_syms e) (se_consts e) n \<noteq> Some 0"
proof -
  define n where "n = replicate 255 (CHR ''x'')"
  let ?e = "insertConstGlobalSymbol n (VInt 2 3) empty_env"
  have wf: "table_wf (se_syms ?e) (se_consts ?e)"
    using env_wf_insertConst [OF env_wf_empty] by (simp add: env_wf_def)
  have nn: "n \<noteq> []" "length n = 255" by (simp_all add: n_def)
  have "hashTableLookup [] createHashTable n = None"
    by (simp add: hashTableLookup_def createHashTable_def Let_def)
  then have "se_syms ?e ! 0 = const_symbol n 2 0"
    using nn by (simp add: insertConstGlobalSymbol_def empty_env_def Let_def)
  then have "254 < length (sy_name (se_syms ?e ! 0))" using nn by simp
  then show ?thesis
    using long_name_never_found [OF wf, of 0 n] by (simp add: Let_def n_def)
qed

subsection \<open>Ownership of scope tables\<close>

datatype ScopeOp = Create | Push | Pop | FreeAll

fun scope_step :: "ScopeOp \<Rightarrow> ScopeState \<Rightarrow> ScopeState" where
  "scope_step Create st = snd (createScopeTable st)"
| "scope_step Push st = pushProcedureTable st"
| "scope_step Pop st = popProcedureTable False st"
| "scope_step FreeAll st = freeScopeTables st"

definition scope_init :: ScopeState where
  "scope_init = \<lparr>sc_next = 0, sc_current = [], sc_list = [], sc_freed = []\<rparr>"

definition scope_inv :: "ScopeState \<Rightarrow> bool" where
  "scope_inv st \<longleftrightarrow> distinct (sc_freed st @ sc_list st) \<and>
     (\<forall>t \<in> set (sc_freed st) \<union> set (sc_list st). t < sc_next st)"

lemma scope_inv_step: "scope_inv st \<Longrightarrow> scope_inv (scope_step op st)"
  by (cases op)
     (auto simp: scope_inv_def createScopeTable_def pushProcedureTable_def popProcedureTable_def
       freeScopeTables_def less_Suc_eq split: list.splits)

lemma scope_inv_run: "scope_inv st \<Longrightarrow> scope_inv (fold scope_step ops st)"
  by (induction ops arbitrary: st) (auto intro: scope_inv_step)

text \<open>As long as procedure tables are popped without freeing, no run of scope operations frees
  a table twice. Popping with \<open>free_table\<close> breaks this: the popped table is still on the list, so
  the next \<open>freeScopeTables\<close> frees it again.\<close>

lemma scope_tables_freed_once:
  "distinct (sc_freed (fold scope_step ops scope_init))
   \<and> \<not> distinct (sc_freed (freeScopeTables (popProcedureTable True (pushProcedureTable
        (fold scope_step ops scope_init)))))"
proof -
  have "scope_inv (fold scope_step ops scope_init)"
    by (rule scope_inv_run) (simp add: scope_inv_def scope_init_def)
  then show ?thesis
    by (simp add: scope_inv_def freeScopeTables_def popProcedureTable_def pushProcedureTable_def
        createScopeTable_def)
qed

end
