(* ===== verification/Linker.thy ===== *)
theory Linker
  imports Symtab
begin

section \<open>The global-slot linker\<close>

text \<open>
  \<open>compiler/bytecode_link.c\<close>: the load-time pass that turns the constant-pool name index of
  every global access into a slot index, in place, and builds the chunk's slot table. It runs on
  code the verifier has not seen yet, so its reads are checked reads here, and a failing link
  leaves the code as far as it had been rewritten, as the C code does.
\<close>

datatype link_error =
    LinkFault
  | NameIndexOutOfRange nat string
  | TruncatedDefine nat
  | TruncatedSlotInstr nat
  | LinkUndefinedOpcode nat u8
  | LinkTruncated nat string

record SlotEntry =
  se_name :: string
  se_is_const :: bool

fun slotListFind_from :: "nat \<Rightarrow> SlotEntry list \<Rightarrow> string \<Rightarrow> nat option" where
  "slotListFind_from i [] lname = None"
| "slotListFind_from i (e # es) lname =
     (if se_name e = lname then Some i else slotListFind_from (i + 1) es lname)"

definition slotListFind :: "SlotEntry list \<Rightarrow> string \<Rightarrow> nat option" where
  "slotListFind items lname = slotListFind_from 0 items lname"

definition slotListIntern :: "SlotEntry list \<Rightarrow> string \<Rightarrow> bool \<Rightarrow> nat \<times> SlotEntry list" where
  "slotListIntern items lname is_const =
     (case slotListFind items lname of
        Some idx \<Rightarrow>
          (idx, if is_const then items[idx := (items ! idx)\<lparr>se_is_const := True\<rparr>] else items)
      | None \<Rightarrow> (length items, items @ [\<lparr>se_name = lname, se_is_const = is_const\<rparr>]))"

definition linkReadU16BE :: "byte list \<Rightarrow> nat \<Rightarrow> link_error + nat" where
  "linkReadU16BE code pos = read_u16_be LinkFault code pos"

definition linkWriteU16BE :: "byte list \<Rightarrow> nat \<Rightarrow> u16 \<Rightarrow> byte list" where
  "linkWriteU16BE code pos v = code[pos := ucast (drop_bit 8 v), pos + 1 := ucast v]"

definition linkResolveName :: "Value list \<Rightarrow> nat \<Rightarrow> string option" where
  "linkResolveName kpool name_idx =
     (if length kpool \<le> name_idx then None
      else case kpool ! name_idx of
             VString t (Some s) \<Rightarrow> (if t = TYPE_STRING then Some s else None)
           | _ \<Rightarrow> None)"

definition defineGlobalSlotPayloadLength :: "byte list \<Rightarrow> nat \<Rightarrow> link_error + nat" where
  "defineGlobalSlotPayloadLength code pc =
     (if length code \<le> pc + 3 then Inl (TruncatedDefine pc)
      else ebind (fetch code (pc + 3) LinkFault) (\<lambda>declared.
        let cursor = pc + 4 in
        ebind (if declared = TYPE_ARRAY then
                 (if length code \<le> cursor then Inl (TruncatedDefine pc)
                  else ebind (fetch code cursor LinkFault) (\<lambda>dims. Inr (cursor + 1 + unat dims * 4 + 3)))
               else Inr (cursor + 2 +
                      (if declared = TYPE_STRING then 2 else if declared = TYPE_FILE then 3 else 0)))
          (\<lambda>cursor. if length code < cursor then Inl (TruncatedDefine pc) else Inr (cursor - pc))))"

text \<open>The name of a slot: the first 255 characters, lower-cased.\<close>

definition slot_name :: "string \<Rightarrow> string" where
  "slot_name name = lower_string (take MAX_SYMBOL_LENGTH name)"

definition linkNameFieldToSlot ::
    "Value list \<Rightarrow> byte list \<Rightarrow> SlotEntry list \<Rightarrow> nat \<Rightarrow> string \<Rightarrow> link_error + byte list \<times> SlotEntry list" where
  "linkNameFieldToSlot kpool code items pc opcode_name =
     ebind (linkReadU16BE code (pc + 1)) (\<lambda>idx.
       case linkResolveName kpool idx of
         None \<Rightarrow> Inl (NameIndexOutOfRange pc opcode_name)
       | Some name \<Rightarrow>
           (case slotListIntern items (slot_name name) False of
              (slot, items') \<Rightarrow> Inr (linkWriteU16BE code (pc + 1) (of_nat slot), items')))"

definition slot_access :: "u8 \<Rightarrow> bool" where
  "slot_access op \<longleftrightarrow> op = OP_GET_GSLOT \<or> op = OP_SET_GSLOT \<or> op = OP_GET_GSLOT_ADDRESS"

text \<open>One turn of the loop: the rewritten code, the slots and the length of the instruction.\<close>

definition link_step ::
    "Value list \<Rightarrow> byte list \<Rightarrow> SlotEntry list \<Rightarrow> nat \<Rightarrow> link_error + byte list \<times> SlotEntry list \<times> nat" where
  "link_step kpool code items pc =
     ebind (fetch code pc LinkFault) (\<lambda>opcode.
       if opcode = OP_DEFINE_GLOBAL_SLOT then
         ebind (defineGlobalSlotPayloadLength code pc) (\<lambda>len.
         ebind (linkNameFieldToSlot kpool code items pc ''DEFINE_GLOBAL_SLOT'') (\<lambda>(code', items').
           Inr (code', items', len)))
       else if slot_access opcode then
         (if length code < pc + 3 then Inl (TruncatedSlotInstr pc)
          else
            ebind (linkNameFieldToSlot kpool code items pc
                     (if opcode = OP_GET_GSLOT then ''GET_GSLOT''
                      else if opcode = OP_SET_GSLOT then ''SET_GSLOT'' else ''GET_GSLOT_ADDRESS''))
              (\<lambda>(code', items'). Inr (code', items', 3)))
       else
         case pscalOpcodeInfo opcode of
           None \<Rightarrow> Inl (LinkUndefinedOpcode pc opcode)
         | Some info \<Rightarrow>
             ebind (pscalDecodeInstructionLength LinkFault code pc) (\<lambda>(len, trusted).
               if \<not> trusted \<or> len = 0 \<or> length code < pc + len
               then Inl (LinkTruncated pc (oi_name info))
               else Inr (code, items, len)))"

lemma linkName_length:
  "linkNameFieldToSlot kpool code items pc nm = Inr (code', items') \<Longrightarrow> length code' = length code"
  by (auto simp: linkNameFieldToSlot_def linkWriteU16BE_def result_simps split_beta split: option.splits)

lemma link_step_progress:
  assumes "link_step kpool code items pc = Inr (code', items', len)"
  shows "length code' = length code \<and> 0 < len"
  using assms unfolding link_step_def defineGlobalSlotPayloadLength_def
  by (auto simp: result_simps Let_def split_beta dest!: linkName_length split: if_splits option.splits)

function link_loop ::
    "Value list \<Rightarrow> byte list \<Rightarrow> SlotEntry list \<Rightarrow> nat \<Rightarrow> link_error option \<times> byte list \<times> SlotEntry list" where
  "link_loop kpool code items pc =
     (if length code \<le> pc then (None, code, items)
      else case link_step kpool code items pc of
             Inl e \<Rightarrow> (Some e, code, items)
           | Inr (code', items', len) \<Rightarrow> link_loop kpool code' items' (pc + len))"
  by pat_completeness auto
termination
  by (relation "measure (\<lambda>(kpool, code, items, pc). length code - pc)")
     (auto dest: link_step_progress)

declare link_loop.simps [simp del]

text \<open>A slot whose symbol exists already takes it, constants first.\<close>

definition existing_symbol :: "SymEnv \<Rightarrow> string \<Rightarrow> nat option" where
  "existing_symbol env name =
     (case hashTableLookup (se_syms env) (se_consts env) name of
        Some s \<Rightarrow> Some s
      | None \<Rightarrow> hashTableLookup (se_syms env) (se_globals env) name)"

definition index_of_name :: "SlotEntry list \<Rightarrow> string \<Rightarrow> int" where
  "index_of_name items name =
     (case slotListFind (rev items) name of
        None \<Rightarrow> - 1
      | Some i \<Rightarrow> int (length items - 1 - i))"

definition install_slots :: "SymEnv \<Rightarrow> SlotEntry list \<Rightarrow> BytecodeChunk \<Rightarrow> BytecodeChunk" where
  "install_slots env items ch =
     ch\<lparr>ch_global_slot_count := length items,
        ch_global_slots := map (\<lambda>e. \<lparr>gs_symbol = existing_symbol env (se_name e), gs_define_pc = - 1\<rparr>) items,
        ch_global_slot_is_const := map (\<lambda>e. case existing_symbol env (se_name e) of
             None \<Rightarrow> False | Some s \<Rightarrow> sy_is_const (se_syms env ! s)) items,
        ch_global_slot_names := map se_name items,
        ch_global_myself_slot := index_of_name items ''myself'',
        ch_global_pas_exc_pending_slot := index_of_name items ''__pas_exc_pending'',
        ch_global_pas_exc_message_slot := index_of_name items ''__pas_exc_message'',
        ch_globals_linked := True\<rparr>"

definition pscalLinkGlobalSlots :: "SymEnv \<Rightarrow> BytecodeChunk \<Rightarrow> link_error option \<times> BytecodeChunk" where
  "pscalLinkGlobalSlots env ch =
     (if ch_globals_linked ch then (None, ch)
      else if ch_count ch = 0 then (None, install_slots env [] ch)
      else case link_loop (ch_constants ch) (ch_code ch) [] 0 of
             (Some e, code, items) \<Rightarrow> (Some e, ch\<lparr>ch_code := code\<rparr>)
           | (None, code, items) \<Rightarrow> (None, install_slots env items (ch\<lparr>ch_code := code\<rparr>)))"

subsection \<open>The slot list interns names\<close>

lemma slotListFind_from_Some:
  "slotListFind_from i es n = Some k \<Longrightarrow> i \<le> k \<and> k - i < length es \<and> se_name (es ! (k - i)) = n"
proof (induction i es n rule: slotListFind_from.induct)
  case (2 i e es n)
  show ?case
  proof (cases "se_name e = n")
    case False
    then have "i + 1 \<le> k \<and> k - (i + 1) < length es \<and> se_name (es ! (k - (i + 1))) = n"
      using 2 by simp
    moreover from this have "k - i = Suc (k - (i + 1))" by linarith
    ultimately show ?thesis by simp
  qed (use 2 in simp)
qed simp

lemma slotListFind_from_None: "slotListFind_from i es n = None \<longleftrightarrow> (\<forall>e \<in> set es. se_name e \<noteq> n)"
  by (induction i es n rule: slotListFind_from.induct) auto

lemma slotListFind_Some: "slotListFind es n = Some k \<Longrightarrow> k < length es \<and> se_name (es ! k) = n"
  using slotListFind_from_Some [of 0 es n k] by (simp add: slotListFind_def)

lemma slotListFind_None: "slotListFind es n = None \<longleftrightarrow> (\<forall>e \<in> set es. se_name e \<noteq> n)"
  by (simp add: slotListFind_def slotListFind_from_None)

interpretation slots: interning "\<lambda>items. items" "\<lambda>e n. se_name e = n" "\<lambda>e n. se_name e = n"
  "\<lambda>n items. slotListIntern items n False"
proof unfold_locales
  fix es :: "SlotEntry list" and n
  assume "\<exists>e \<in> set es. se_name e = n"
  then have "slotListFind es n \<noteq> None" by (simp add: slotListFind_None)
  then obtain k where "slotListFind es n = Some k" by auto
  then show "snd (slotListIntern es n False) = es \<and> fst (slotListIntern es n False) < length es \<and>
      se_name (es ! fst (slotListIntern es n False)) = n"
    using slotListFind_Some [of es n k] by (simp add: slotListIntern_def)
next
  fix es :: "SlotEntry list" and n
  assume "\<forall>e \<in> set es. se_name e \<noteq> n"
  then show "fst (slotListIntern es n False) = length es \<and>
      (\<exists>x. se_name x = n \<and> snd (slotListIntern es n False) = es @ [x])"
    by (simp add: slotListIntern_def slotListFind_None [THEN iffD2])
qed

lemma intern_distinct:
  assumes "distinct (map se_name es)" "slotListIntern es n False = (i, es')"
  shows "distinct (map se_name es')" "set (map se_name es') = insert n (set (map se_name es))"
proof -
  have es': "es' = snd (slotListIntern es n False)" using assms(2) by simp
  have "distinct (map se_name es') \<and> set (map se_name es') = insert n (set (map se_name es))"
    using slots.found [of es n] slots.fresh [of es n] assms(1) unfolding es' by fastforce
  then show "distinct (map se_name es')" "set (map se_name es') = insert n (set (map se_name es))"
    by simp_all
qed

subsection \<open>What a link step does\<close>

definition slot_instr :: "u8 \<Rightarrow> bool" where
  "slot_instr op \<longleftrightarrow> op = OP_DEFINE_GLOBAL_SLOT \<or> slot_access op"

text \<open>The u16 operand at a position, and the slot name the constant pool gives it.\<close>

definition operand16 :: "byte list \<Rightarrow> nat \<Rightarrow> nat" where
  "operand16 code pc = unat (u16_be (code ! (pc + 1)) (code ! (pc + 2)))"

definition operand_name :: "Value list \<Rightarrow> nat \<Rightarrow> string option" where
  "operand_name kpool idx = map_option slot_name (linkResolveName kpool idx)"

lemma operand16_lt: "operand16 code pc < 65536"
  by (simp add: operand16_def u16_be_lt)

lemma linkName_spec:
  assumes "linkNameFieldToSlot kpool code items pc nm = Inr (code', items')" "pc + 2 < length code"
  shows "\<exists>n. operand_name kpool (operand16 code pc) = Some n
    \<and> items' = snd (slotListIntern items n False)
    \<and> code' = linkWriteU16BE code (pc + 1) (of_nat (fst (slotListIntern items n False)))"
  using assms unfolding linkNameFieldToSlot_def linkReadU16BE_def operand_name_def operand16_def
  by (auto simp: result_simps read_u16_be_in_range split_beta split: option.splits)

lemma define_payload_len:
  assumes "defineGlobalSlotPayloadLength code pc = Inr len" "code ! pc = OP_DEFINE_GLOBAL_SLOT"
  shows "instr_decode code pc = (len, True) \<and> pc + len \<le> length code \<and> 6 \<le> len"
proof -
  from assms(1) have "pc + 3 < length code" by (auto simp: defineGlobalSlotPayloadLength_def split: if_splits)
  moreover from this assms(1) have
    "len = define_len code pc (pc + 3) \<and> pc + len \<le> length code \<and> 6 \<le> len \<and>
     (code ! (pc + 3) = TYPE_ARRAY \<longrightarrow> pc + 4 < length code)"
    by (auto simp: defineGlobalSlotPayloadLength_def Let_def result_simps define_len_def
        add.commute [of 4 pc] split: if_splits)
  ultimately show ?thesis
    using assms(2) by (simp add: instr_decode_trusted Let_def define_pos_def)
qed

lemma slot_access_spec:
  "list_all (\<lambda>op. case pscalOpcodeInfo op of None \<Rightarrow> False
     | Some info \<Rightarrow> pscalOpcodeOperandSpecLength (oi_operands info) = Some 2)
   [OP_GET_GSLOT, OP_SET_GSLOT, OP_GET_GSLOT_ADDRESS]"
  by code_simp

lemma instr_decode_access:
  assumes "slot_access (code ! pc)" "pc < length code" shows "instr_decode code pc = (3, True)"
proof -
  have "\<exists>info. pscalOpcodeInfo (code ! pc) = Some info \<and> pscalOpcodeOperandSpecLength (oi_operands info) = Some 2"
    using assms(1) slot_access_spec unfolding slot_access_def
    by (auto split: option.splits)
  then show ?thesis using assms by (auto simp: instr_decode_trusted Let_def slot_access_def)
qed

text \<open>A step that succeeds walks over one whole instruction. It rewrites the operand of a slot
  instruction to the interned slot of its name, and changes nothing else.\<close>

lemma link_step_spec:
  assumes "link_step kpool code items pc = Inr (code', items', len)" "pc < length code"
  shows "instr_decode code pc = (len, True) \<and> pc + len \<le> length code \<and>
    (if slot_instr (code ! pc)
     then 3 \<le> len \<and> (\<exists>n. operand_name kpool (operand16 code pc) = Some n
          \<and> items' = snd (slotListIntern items n False)
          \<and> code' = linkWriteU16BE code (pc + 1) (of_nat (fst (slotListIntern items n False))))
     else code' = code \<and> items' = items)"
proof (cases "slot_instr (code ! pc)")
  case False
  then show ?thesis
    using assms by (auto simp: link_step_def slot_instr_def result_simps split_beta prod_eq_iff
        split: option.splits if_splits)
next
  case True
  obtain nm where name: "linkNameFieldToSlot kpool code items pc nm = Inr (code', items')"
    and len: "instr_decode code pc = (len, True)" "pc + len \<le> length code" "3 \<le> len"
  proof (cases "code ! pc = OP_DEFINE_GLOBAL_SLOT")
    case True
    then show ?thesis
      using assms that define_payload_len [of code pc len]
      by (auto simp: link_step_def result_simps split_beta)
  next
    case False
    with \<open>slot_instr (code ! pc)\<close> have "slot_access (code ! pc)" by (simp add: slot_instr_def)
    then show ?thesis
      using assms that False instr_decode_access [of code pc]
      by (auto simp: link_step_def result_simps split_beta split: if_splits)
  qed
  have "pc + 2 < length code" using len by simp
  from linkName_spec [OF name this] show ?thesis using len True by simp
qed

subsection \<open>The loop invariant\<close>

text \<open>At position \<open>pc\<close>: the code from there on is untouched; every instruction walked over has the
  length and opcode it had, and if it is a slot instruction its operand is the slot of its name;
  no other byte changed; the slots are distinct names the pool can give.\<close>

definition slot_done :: "Value list \<Rightarrow> byte list \<Rightarrow> byte list \<Rightarrow> SlotEntry list \<Rightarrow> nat \<Rightarrow> bool" where
  "slot_done kpool code0 code items q \<longleftrightarrow>
     instr_decode code q = instr_decode code0 q \<and> code ! q = code0 ! q \<and>
     (slot_instr (code0 ! q) \<longrightarrow> operand16 code q < length items \<and>
        operand_name kpool (operand16 code0 q) = Some (se_name (items ! operand16 code q)))"

definition names_ok :: "Value list \<Rightarrow> SlotEntry list \<Rightarrow> bool" where
  "names_ok kpool items \<longleftrightarrow> distinct (map se_name items) \<and>
     (\<forall>n \<in> set (map se_name items). \<exists>idx < 65536. operand_name kpool idx = Some n)"

definition link_inv :: "Value list \<Rightarrow> byte list \<Rightarrow> byte list \<Rightarrow> SlotEntry list \<Rightarrow> nat \<Rightarrow> bool" where
  "link_inv kpool code0 code items pc \<longleftrightarrow>
     length code = length code0 \<and> instr_start code0 pc \<and>
     (\<forall>i \<ge> pc. code ! i = code0 ! i) \<and>
     (\<forall>q < pc. instr_start code0 q \<longrightarrow> slot_done kpool code0 code items q) \<and>
     (\<forall>i < pc. code ! i \<noteq> code0 ! i \<longrightarrow>
        (\<exists>q < pc. instr_start code0 q \<and> slot_instr (code0 ! q) \<and> (i = q + 1 \<or> i = q + 2))) \<and>
     names_ok kpool items"

lemma names_ok_length:
  assumes "names_ok kpool items" shows "length items \<le> 65536"
proof -
  let ?f = "\<lambda>idx. the (operand_name kpool idx)"
  have "set (map se_name items) \<subseteq> ?f ` {..<65536}"
  proof
    fix n assume "n \<in> set (map se_name items)"
    then obtain idx where "idx < 65536" "operand_name kpool idx = Some n"
      using assms by (auto simp: names_ok_def)
    then show "n \<in> ?f ` {..<65536}" by (intro image_eqI [of _ _ idx]) auto
  qed
  then have "card (set (map se_name items)) \<le> card (?f ` {..<65536})" by (intro card_mono) auto
  also have "\<dots> \<le> 65536" using card_image_le [of "{..<65536}" ?f] by simp
  finally show ?thesis
    using assms distinct_card [of "map se_name items"] by (simp only: names_ok_def length_map)
qed

lemma names_ok_intern:
  assumes "names_ok kpool items" "operand_name kpool idx = Some n" "idx < 65536"
  shows "names_ok kpool (snd (slotListIntern items n False))"
proof -
  obtain i es' where es': "slotListIntern items n False = (i, es')" by fastforce
  show ?thesis
    using intern_distinct [OF _ es'] assms by (auto simp: names_ok_def es')
qed

lemma operand16_write:
  assumes "pc + 2 < length code" "slot < 65536"
  shows "operand16 (linkWriteU16BE code (pc + 1) (of_nat slot)) pc = slot"
proof -
  have "unat (of_nat slot :: u16) = slot" using assms(2) by (simp add: unat_of_nat take_bit_nat_eq_self)
  then show ?thesis using assms(1) by (simp add: operand16_def linkWriteU16BE_def byte_simps)
qed

lemma slot_done_mono:
  assumes "slot_done kpool code0 code items q"
  shows "slot_done kpool code0 code (snd (slotListIntern items n False)) q"
proof -
  have "i < length items \<Longrightarrow> i < length (snd (slotListIntern items n False))
      \<and> snd (slotListIntern items n False) ! i = items ! i" for i
    using slots.intern_nth [of i items n] slots.intern_length [of items n] by simp
  then show ?thesis using assms by (auto simp: slot_done_def)
qed

lemma slot_done_frame:
  assumes "slot_done kpool code0 code items q" "instr_decode code0 q = (len, True)"
    "q + len \<le> pc" "pc \<le> length code" "length code' = length code"
    "\<And>i. i < pc \<Longrightarrow> code' ! i = code ! i" "slot_instr (code0 ! q) \<Longrightarrow> 3 \<le> len"
  shows "slot_done kpool code0 code' items q"
proof -
  have len: "0 < len" using instr_decode_len_pos [OF assms(2)] by simp
  have d: "instr_decode code q = (len, True)" using assms(1,2) by (simp add: slot_done_def)
  have "instr_decode code' q = (len, True)"
    by (rule decode_local [OF d]) (use assms in auto)
  moreover have "code' ! q = code ! q" using assms(3,6) len by simp
  moreover have "slot_instr (code0 ! q) \<Longrightarrow> operand16 code' q = operand16 code q"
    using assms(3,6,7) by (simp add: operand16_def)
  ultimately show ?thesis using assms(1) d by (simp add: slot_done_def)
qed

lemma slot_instr_len:
  assumes "slot_instr (code ! pc)" "instr_decode code pc = (len, True)" shows "3 \<le> len"
proof (cases "slot_access (code ! pc)")
  case True
  then show ?thesis using instr_decode_access [OF True] assms(2) by (auto simp: instr_decode_trusted)
next
  case False
  then have "code ! pc = OP_DEFINE_GLOBAL_SLOT" using assms(1) by (simp add: slot_instr_def)
  then show ?thesis
    using assms(2) by (auto simp: instr_decode_trusted Let_def define_pos_def define_len_def)
qed

lemma link_inv_step:
  assumes inv: "link_inv kpool code0 code items pc" and pc: "pc < length code"
    and step: "link_step kpool code items pc = Inr (code', items', len)"
  shows "link_inv kpool code0 code' items' (pc + len)"
proof -
  have l0: "length code = length code0" and st: "instr_start code0 pc"
    and tail: "\<And>i. pc \<le> i \<Longrightarrow> code ! i = code0 ! i" and nm: "names_ok kpool items"
    using inv by (auto simp: link_inv_def)
  note spec = link_step_spec [OF step pc]
  have dec: "instr_decode code pc = instr_decode code0 pc" by (rule decode_suffix) (use l0 tail in auto)
  have d0: "instr_decode code0 pc = (len, True)" and fit: "pc + len \<le> length code0"
    using spec dec l0 by auto
  have len': "length code' = length code" using link_step_progress [OF step] by simp
  have new_start: "instr_start code0 (pc + len)"
    by (rule instr_start.next_instr) (use st pc l0 d0 fit in auto)
  have below: "q < pc \<or> q = pc" if "instr_start code0 q" "q < pc + len" for q
    using instr_start_disjoint [OF st that(1) _ _ d0 fit] that pc l0 by (cases "pc < q") auto
  show ?thesis
  proof (cases "slot_instr (code ! pc)")
    case False
    then have same: "code' = code" "items' = items" using spec by auto
    have "slot_done kpool code0 code items q" if "instr_start code0 q" "q < pc + len" for q
      using below [OF that] inv that dec tail [of pc] False
      by (auto simp: link_inv_def slot_done_def)
    moreover have "code ! i \<noteq> code0 ! i \<Longrightarrow> i < pc" for i using tail [of i] by linarith
    ultimately show ?thesis
      using inv new_start unfolding link_inv_def same by (auto intro: less_le_trans) (meson trans_less_add1)
  next
    case True
    then obtain n where len3: "3 \<le> len" and n: "operand_name kpool (operand16 code pc) = Some n"
      and items': "items' = snd (slotListIntern items n False)"
      and code': "code' = linkWriteU16BE code (pc + 1) (of_nat (fst (slotListIntern items n False)))"
      using spec by auto
    let ?slot = "fst (slotListIntern items n False)"
    have nm': "names_ok kpool items'"
      unfolding items' by (rule names_ok_intern [OF nm n operand16_lt])
    have idx: "?slot < length items'" "se_name (items' ! ?slot) = n"
      using slots.intern_index [of items n] by (simp_all add: items')
    have slot: "?slot < 65536" using idx(1) names_ok_length [OF nm'] by simp
    have frame: "i \<noteq> pc + 1 \<Longrightarrow> i \<noteq> pc + 2 \<Longrightarrow> code' ! i = code ! i" for i
      by (simp add: code' linkWriteU16BE_def)
    have op0: "operand16 code pc = operand16 code0 pc" using tail by (simp add: operand16_def)
    have at_pc: "slot_done kpool code0 code' items' pc"
    proof -
      have "operand16 code' pc = ?slot"
        unfolding code' by (rule operand16_write) (use slot len3 fit l0 in auto)
      moreover have "instr_decode code' pc = (len, True)"
      proof (cases "slot_access (code ! pc)")
        case True
        then show ?thesis
          using instr_decode_access [of code' pc] instr_decode_access [OF True pc] frame [of pc] pc len' spec
          by simp
      next
        case False
        then have op: "code ! pc = OP_DEFINE_GLOBAL_SLOT"
          using \<open>slot_instr (code ! pc)\<close> by (simp add: slot_instr_def)
        have "code' ! pc = code ! pc" "code' ! (pc + 3) = code ! (pc + 3)" "code' ! (pc + 4) = code ! (pc + 4)"
          using frame by simp_all
        then show ?thesis
          using spec op len'
          by (simp add: instr_decode_trusted Let_def define_pos_def define_len_def add.commute [of 4 pc])
      qed
      ultimately show ?thesis
        using d0 frame [of pc] tail [of pc] idx n op0 by (simp add: slot_done_def)
    qed
    have earlier: "slot_done kpool code0 code' items' q" if q: "instr_start code0 q" "q < pc" for q
    proof -
      obtain l where l: "instr_decode code0 q = (l, True)" "q + l \<le> pc"
        using instr_start_before [OF st q] by blast
      have "slot_done kpool code0 code items q" using inv q by (simp add: link_inv_def)
      then have "slot_done kpool code0 code' items q"
        by (rule slot_done_frame [OF _ l]) (use pc len' frame slot_instr_len [OF _ l(1)] in auto)
      then show ?thesis unfolding items' by (rule slot_done_mono)
    qed
    have changed: "\<exists>q < pc + len. instr_start code0 q \<and> slot_instr (code0 ! q) \<and> (i = q + 1 \<or> i = q + 2)"
      if "code' ! i \<noteq> code0 ! i" for i
    proof (cases "i = pc + 1 \<or> i = pc + 2")
      case True
      then show ?thesis using st len3 \<open>slot_instr (code ! pc)\<close> tail [of pc] by (intro exI [of _ pc]) auto
    next
      case False
      then have "code ! i \<noteq> code0 ! i" using that frame by simp
      moreover from this have "i < pc" using tail [of i] by linarith
      ultimately obtain q where "q < pc" "instr_start code0 q" "slot_instr (code0 ! q)" "i = q + 1 \<or> i = q + 2"
        using inv unfolding link_inv_def by blast
      then show ?thesis by (intro exI [of _ q]) auto
    qed
    have "code' ! i = code0 ! i" if "pc + len \<le> i" for i
      using that frame [of i] tail [of i] len3 by simp
    moreover have "slot_done kpool code0 code' items' q" if "instr_start code0 q" "q < pc + len" for q
      using below [OF that] at_pc earlier that(1) by blast
    ultimately show ?thesis
      unfolding link_inv_def using len' l0 new_start changed nm' by simp
  qed
qed

lemma link_loop_inv:
  "link_inv kpool code0 code items pc \<Longrightarrow> link_loop kpool code items pc = (None, code', items') \<Longrightarrow>
   link_inv kpool code0 code' items' (length code0)"
proof (induction kpool code items pc rule: link_loop.induct)
  case (1 kpool code items pc)
  show ?case
  proof (cases "length code \<le> pc")
    case True
    then have "pc = length code0" "code' = code" "items' = items"
      using 1 instr_start_le [of code0 pc] by (auto simp: link_inv_def link_loop.simps [of _ _ _ pc])
    then show ?thesis using 1 by simp
  next
    case False
    then show ?thesis
      using 1 link_inv_step [of kpool code0 code items pc]
      by (auto simp: link_loop.simps [of _ _ _ pc] split: sum.splits)
  qed
qed

lemma link_inv_start:
  assumes "link_inv kpool code0 code items (length code0)"
  shows "instr_start code pc \<longleftrightarrow> instr_start code0 pc"
proof
  assume "instr_start code pc"
  then show "instr_start code0 pc"
  proof (induction rule: instr_start.induct)
    case (next_instr pc len)
    then have "slot_done kpool code0 code items pc" using assms by (simp add: link_inv_def)
    then show ?case
      using next_instr assms by (auto intro!: instr_start.next_instr simp: slot_done_def link_inv_def)
  qed (rule instr_start.start)
next
  assume "instr_start code0 pc"
  then show "instr_start code pc"
    by (rule instr_start_transfer) (use assms in \<open>auto simp: link_inv_def slot_done_def\<close>)
qed

lemma link_inv_init: "link_inv kpool code code [] 0"
  by (simp add: link_inv_def names_ok_def instr_start.start)

lemma link_result:
  assumes "\<not> ch_globals_linked ch" "pscalLinkGlobalSlots env ch = (None, ch')"
  obtains items where "link_inv (ch_constants ch) (ch_code ch) (ch_code ch') items (ch_count ch)"
    "ch' = install_slots env items (ch\<lparr>ch_code := ch_code ch'\<rparr>)"
proof (cases "ch_count ch = 0")
  case True
  show ?thesis
  proof (rule that [of "[]"])
    have "ch' = install_slots env [] ch" using assms True by (simp add: pscalLinkGlobalSlots_def)
    then show "link_inv (ch_constants ch) (ch_code ch) (ch_code ch') [] (ch_count ch)"
      "ch' = install_slots env [] (ch\<lparr>ch_code := ch_code ch'\<rparr>)"
      using link_inv_init [of "ch_constants ch" "ch_code ch"] True by (simp_all add: install_slots_def)
  qed
next
  case False
  obtain r code items where l: "link_loop (ch_constants ch) (ch_code ch) [] 0 = (r, code, items)"
    using prod_cases3 by blast
  have r: "r = None" and ch': "ch' = install_slots env items (ch\<lparr>ch_code := code\<rparr>)"
    using assms False l by (auto simp: pscalLinkGlobalSlots_def split: option.splits)
  have code: "ch_code ch' = code" by (simp add: ch' install_slots_def)
  show ?thesis
    by (rule that [of items]) (use link_loop_inv [OF link_inv_init l [unfolded r]] ch' code in simp_all)
qed

subsection \<open>Correctness of the linker\<close>

text \<open>C18: Linking rewrites exactly the operands of the global-access instructions. The code keeps its
  length and its instruction boundaries, every byte that is not such an operand is unchanged, and
  every such operand becomes an index into the slot table whose entry is the name the operand
  named in the constant pool. The table holds no name twice and never outgrows a u16 operand.\<close>

theorem link_resolves_names:
  assumes "\<not> ch_globals_linked ch" and "pscalLinkGlobalSlots env ch = (None, ch')"
  shows "ch_globals_linked ch' \<and> ch_count ch' = ch_count ch
    \<and> (\<forall>pc. instr_start (ch_code ch') pc \<longleftrightarrow> instr_start (ch_code ch) pc)
    \<and> (\<forall>pc < ch_count ch. instr_start (ch_code ch) pc \<longrightarrow> ch_code ch' ! pc = ch_code ch ! pc
         \<and> (slot_instr (ch_code ch ! pc) \<longrightarrow>
              operand16 (ch_code ch') pc < ch_global_slot_count ch'
              \<and> operand_name (ch_constants ch) (operand16 (ch_code ch) pc)
                = Some (ch_global_slot_names ch' ! operand16 (ch_code ch') pc)))
    \<and> (\<forall>i < ch_count ch. ch_code ch' ! i \<noteq> ch_code ch ! i \<longrightarrow>
         (\<exists>q. instr_start (ch_code ch) q \<and> slot_instr (ch_code ch ! q) \<and> (i = q + 1 \<or> i = q + 2)))
    \<and> distinct (ch_global_slot_names ch')
    \<and> ch_global_slot_count ch' = length (ch_global_slot_names ch')
    \<and> ch_global_slot_count ch' \<le> 65536"
proof -
  obtain items where inv: "link_inv (ch_constants ch) (ch_code ch) (ch_code ch') items (ch_count ch)"
    and ch': "ch' = install_slots env items (ch\<lparr>ch_code := ch_code ch'\<rparr>)"
    using link_result [OF assms] .
  have tab: "ch_global_slot_count ch' = length items" "ch_global_slot_names ch' = map se_name items"
    "ch_globals_linked ch'"
    by (subst ch', simp add: install_slots_def)+
  have nm: "names_ok (ch_constants ch) items" using inv by (simp add: link_inv_def)
  have sd: "slot_done (ch_constants ch) (ch_code ch) (ch_code ch') items pc"
    if "instr_start (ch_code ch) pc" "pc < ch_count ch" for pc
    using inv that by (simp add: link_inv_def)
  show ?thesis
    using tab nm link_inv_start [OF inv] inv sd names_ok_length [OF nm]
    by (auto simp: names_ok_def link_inv_def slot_done_def)
qed

theorem link_resolves_names_witness:
  "let ch = (initBytecodeChunk 9 0)\<lparr>ch_code := [OP_GET_GSLOT, 0, 1, OP_HALT],
              ch_constants := [VInt TYPE_INTEGER 5, VString TYPE_STRING (Some ''Total'')]\<rparr>;
       ch' = snd (pscalLinkGlobalSlots empty_env ch)
   in fst (pscalLinkGlobalSlots empty_env ch) = None \<and> ch_code ch' = [OP_GET_GSLOT, 0, 0, OP_HALT]
      \<and> ch_global_slot_names ch' = [''total''] \<and> distinct (ch_global_slot_names ch')"
proof -
  define ch where "ch = (initBytecodeChunk 9 0)\<lparr>ch_code := [OP_GET_GSLOT, 0, 1, OP_HALT],
              ch_constants := [VInt TYPE_INTEGER 5, VString TYPE_STRING (Some ''Total'')]\<rparr>"
  have l: "link_loop (ch_constants ch) (ch_code ch) [] 0
      = (None, [OP_GET_GSLOT, 0, 0, OP_HALT], [\<lparr>se_name = ''total'', se_is_const = False\<rparr>])"
    unfolding ch_def by code_simp
  have unlinked: "\<not> ch_globals_linked ch" "ch_count ch \<noteq> 0"
    by (simp_all add: ch_def initBytecodeChunk_def)
  obtain ch' where r: "pscalLinkGlobalSlots empty_env ch = (None, ch')"
    and ch': "ch_code ch' = [OP_GET_GSLOT, 0, 0, OP_HALT]" "ch_global_slot_names ch' = [''total'']"
    using unlinked l by (simp add: pscalLinkGlobalSlots_def install_slots_def)
  show ?thesis
    using link_resolves_names [OF unlinked(1) r] r ch' unfolding ch_def [symmetric] by (simp add: Let_def)
qed

text \<open>Two global accesses of a linked chunk use one slot exactly when the names they were
  compiled with agree, ignoring case, on their first 255 characters. Names that differ only after
  that denote the same variable.\<close>

theorem link_same_slot_iff_same_name:
  assumes "\<not> ch_globals_linked ch" and "pscalLinkGlobalSlots env ch = (None, ch')"
    and "instr_start (ch_code ch) p" "p < ch_count ch" "slot_instr (ch_code ch ! p)"
    and "instr_start (ch_code ch) q" "q < ch_count ch" "slot_instr (ch_code ch ! q)"
    and "linkResolveName (ch_constants ch) (operand16 (ch_code ch) p) = Some n"
    and "linkResolveName (ch_constants ch) (operand16 (ch_code ch) q) = Some m"
  shows "operand16 (ch_code ch') p = operand16 (ch_code ch') q
    \<longleftrightarrow> lower_string (take 255 n) = lower_string (take 255 m)"
proof -
  obtain items where inv: "link_inv (ch_constants ch) (ch_code ch) (ch_code ch') items (ch_count ch)"
    using link_result [OF assms(1,2)] .
  have d: "distinct (map se_name items)" using inv by (simp add: link_inv_def names_ok_def)
  have s: "operand16 (ch_code ch') r < length items \<and> map se_name items ! operand16 (ch_code ch') r = slot_name k"
    if "instr_start (ch_code ch) r" "r < ch_count ch" "slot_instr (ch_code ch ! r)"
      "linkResolveName (ch_constants ch) (operand16 (ch_code ch) r) = Some k" for r k
    using inv that by (auto simp: link_inv_def slot_done_def operand_name_def)
  let ?p = "operand16 (ch_code ch') p" and ?q = "operand16 (ch_code ch') q"
  have lt: "?p < length (map se_name items)" "?q < length (map se_name items)"
    and nms: "map se_name items ! ?p = slot_name n" "map se_name items ! ?q = slot_name m"
    using s [OF assms(3-5,9)] s [OF assms(6-8,10)] by simp_all
  have "?p = ?q \<longleftrightarrow> map se_name items ! ?p = map se_name items ! ?q"
    using nth_eq_iff_index_eq [OF d lt] by (rule sym)
  also have "\<dots> \<longleftrightarrow> slot_name n = slot_name m" by (simp only: nms)
  finally show ?thesis by (simp add: slot_name_def MAX_SYMBOL_LENGTH_def)
qed

theorem link_same_slot_iff_same_name_witness:
  "let ch = (initBytecodeChunk 9 0)\<lparr>ch_code := [OP_GET_GSLOT, 0, 0, OP_SET_GSLOT, 0, 1],
              ch_constants := [VString TYPE_STRING (Some ''X''), VString TYPE_STRING (Some ''x'')]\<rparr>;
       ch' = snd (pscalLinkGlobalSlots empty_env ch)
   in operand16 (ch_code ch') 0 = operand16 (ch_code ch') 3"
proof -
  define ch where "ch = (initBytecodeChunk 9 0)\<lparr>ch_code := [OP_GET_GSLOT, 0, 0, OP_SET_GSLOT, 0, 1],
              ch_constants := [VString TYPE_STRING (Some ''X''), VString TYPE_STRING (Some ''x'')]\<rparr>"
  have l: "link_loop (ch_constants ch) (ch_code ch) [] 0
      = (None, [OP_GET_GSLOT, 0, 0, OP_SET_GSLOT, 0, 0], [\<lparr>se_name = ''x'', se_is_const = False\<rparr>])"
    unfolding ch_def by code_simp
  have unlinked: "\<not> ch_globals_linked ch" "ch_count ch \<noteq> 0"
    by (simp_all add: ch_def initBytecodeChunk_def)
  obtain ch' where r: "pscalLinkGlobalSlots empty_env ch = (None, ch')"
    using unlinked l by (simp add: pscalLinkGlobalSlots_def)
  have "instr_decode (ch_code ch) 0 = (3, True)" unfolding ch_def by code_simp
  then have p3: "instr_start (ch_code ch) 3"
    using instr_start.next_instr [OF instr_start.start, of "ch_code ch" 3] by (simp add: ch_def)
  have res: "linkResolveName (ch_constants ch) (operand16 (ch_code ch) 0) = Some ''X''"
    "linkResolveName (ch_constants ch) (operand16 (ch_code ch) 3) = Some ''x''"
    "lower_string (take 255 ''X'') = lower_string (take 255 ''x'')"
    "slot_instr (ch_code ch ! 0)" "slot_instr (ch_code ch ! 3)" "ch_count ch = 6"
    unfolding ch_def by code_simp+
  have "operand16 (ch_code ch') 0 = operand16 (ch_code ch') 3"
    using link_same_slot_iff_same_name [OF unlinked(1) r instr_start.start _ _ p3 _ _ res(1,2)] res by simp
  then show ?thesis using r unfolding ch_def [symmetric] by (simp add: Let_def)
qed

subsection \<open>Reads of the linker\<close>

lemma defineGlobal_no_fault: "defineGlobalSlotPayloadLength code pc \<noteq> Inl LinkFault"
  by (auto simp: defineGlobalSlotPayloadLength_def Let_def result_simps split: if_splits)

lemma linkName_no_fault:
  "pc + 2 < length code \<Longrightarrow> linkNameFieldToSlot kpool code items pc nm \<noteq> Inl LinkFault"
  by (auto simp: linkNameFieldToSlot_def linkReadU16BE_def result_simps read_u16_be_in_range
      split_beta split: option.splits)

lemma link_step_no_fault:
  assumes "pc < length code" shows "link_step kpool code items pc \<noteq> Inl LinkFault"
proof
  assume step: "link_step kpool code items pc = Inl LinkFault"
  show False
  proof (cases "code ! pc = OP_DEFINE_GLOBAL_SLOT")
    case True
    have "defineGlobalSlotPayloadLength code pc = Inr len \<Longrightarrow> pc + 2 < length code" for len
      using define_payload_len [OF _ True] by fastforce
    then show ?thesis
      using step assms True defineGlobal_no_fault linkName_no_fault
      by (auto simp: link_step_def result_simps split_beta)
  next
    case False
    then show ?thesis
      using step assms linkName_no_fault
      by (auto simp: link_step_def result_simps split_beta split: if_splits option.splits)
  qed
qed

lemma link_loop_no_fault: "fst (link_loop kpool code items pc) \<noteq> Some LinkFault"
proof (induction kpool code items pc rule: link_loop.induct)
  case (1 kpool code items pc)
  then show ?case
    using link_step_no_fault [of pc code kpool items]
    by (auto simp: link_loop.simps [of _ _ _ pc] split: sum.splits)
qed

text \<open>C19: The linker runs before the verifier, on bytes nobody has checked. Whatever the code and
  the constants are, it reads no byte outside the code, and it ends.\<close>

theorem link_never_reads_outside:
  "fst (pscalLinkGlobalSlots env ch) \<noteq> Some LinkFault
   \<and> ch_count (snd (pscalLinkGlobalSlots env ch)) = ch_count ch"
proof -
  have "length (fst (snd (link_loop kpool code items pc))) = length code" for kpool code items pc
  proof (induction kpool code items pc rule: link_loop.induct)
    case (1 kpool code items pc)
    then show ?case
      by (auto simp: link_loop.simps [of _ _ _ pc] dest: link_step_progress split: sum.splits)
  qed
  moreover have "fst (link_loop (ch_constants ch) (ch_code ch) [] 0) \<noteq> Some LinkFault"
    by (rule link_loop_no_fault)
  ultimately show ?thesis
    by (auto simp: pscalLinkGlobalSlots_def install_slots_def split: prod.splits option.splits)
       (metis fst_conv snd_conv)+
qed

end
