(* ===== verification/Verifier.thy ===== *)
theory Verifier
  imports Linker
begin

section \<open>The bytecode verifier: instructions and operands\<close>

text \<open>
  \<open>compiler/bytecode_verify.c\<close>, first half: the walk over the instruction stream, the checks of
  every operand against the tables it indexes, and the checks of the upvalue descriptors. The
  third pass, over stack depths, is in its own theory.

  The code and constants of a chunk come from a file, and so do the numbers the verifier indexes its own
  tables with. Every array is read with \<open>fetch\<close> and written with \<open>store\<close>: the code, the constants, the
  boundary table, the upvalues of a symbol, and in the third pass the entries, owners and marks. \<open>VFault\<close> is an
  access outside an array, so that memory safety is a theorem about the model. A symbol is a pointer in the
  source and its number in a list here; that pointers in the symbol tables are valid is the tables' part.
\<close>

datatype verror =
    VFault
  | UndefinedOpcode nat u8
  | TruncatedInstr nat string
  | RunsPastEnd nat string
  | ConstIndexRange nat nat
  | CacheIndexRange nat nat
  | SlotIndexRange nat nat
  | CodeTargetBad nat nat
  | HostIdRange nat nat
  | FieldNotString nat nat
  | NoIndices nat
  | TypeDefaultBad nat u8
  | JumpTargetBad nat int
  | UpvalueRange nat nat nat
  | NoVerifierRule nat
  | ContinuesPastEnd nat int
  | EntersWithoutCall nat nat
  | ReachesOtherWalk nat nat
  | DepthMismatch nat int int
  | NeedsDepth nat int int
  | WouldUnderflow nat int int
  | ExceedsCeiling nat int
  | EntryNotBoundary nat
  | TooLargeToVerify nat

definition store :: "'a list \<Rightarrow> nat \<Rightarrow> 'a \<Rightarrow> 'e \<Rightarrow> 'e + 'a list" where
  "store xs i x e = (if i < length xs then Inr (xs[i := x]) else Inl e)"

lemma store_in_range [simp]: "i < length xs \<Longrightarrow> store xs i x e = Inr (xs[i := x])"
  by (simp add: store_def)

lemma store_iff [result_simps]:
  "store xs i x e = Inr ys \<longleftrightarrow> i < length xs \<and> ys = xs[i := x]"
  "store xs i x e = Inl e' \<longleftrightarrow> length xs \<le> i \<and> e' = e"
  by (auto simp: store_def)

definition HOST_FN_COUNT :: nat where
  "HOST_FN_COUNT = 17"

definition verifyReadU16BE :: "byte list \<Rightarrow> nat \<Rightarrow> verror + nat" where
  "verifyReadU16BE code pos = read_u16_be VFault code pos"

definition verifyReadU32BE :: "byte list \<Rightarrow> nat \<Rightarrow> verror + u32" where
  "verifyReadU32BE code pos = read_u32_be VFault code pos"

definition checkConstIndex :: "BytecodeChunk \<Rightarrow> nat \<Rightarrow> nat \<Rightarrow> verror + unit" where
  "checkConstIndex ch idx pc = check (idx < ch_constants_count ch) (ConstIndexRange pc idx)"

definition checkCacheIndex :: "BytecodeChunk \<Rightarrow> nat \<Rightarrow> nat \<Rightarrow> verror + unit" where
  "checkCacheIndex ch idx pc = check (idx < ch_cache_count ch) (CacheIndexRange pc idx)"

definition checkSlotIndex :: "BytecodeChunk \<Rightarrow> nat \<Rightarrow> nat \<Rightarrow> verror + unit" where
  "checkSlotIndex ch idx pc = check (idx < ch_global_slot_count ch) (SlotIndexRange pc idx)"

definition NO_ELEMENT_TYPE_NAME :: nat where
  "NO_ELEMENT_TYPE_NAME = 0xFFFF"

definition checkCodeTarget :: "BytecodeChunk \<Rightarrow> bool list \<Rightarrow> nat \<Rightarrow> nat \<Rightarrow> verror + unit" where
  "checkCodeTarget ch boundary target pc =
     (if ch_count ch \<le> target then Inl (CodeTargetBad pc target)
      else ebind (fetch boundary target VFault) (\<lambda>b. check b (CodeTargetBad pc target)))"

subsection \<open>Pass 1: the instruction stream\<close>

function verify_stream_loop :: "byte list \<Rightarrow> bool list \<Rightarrow> nat \<Rightarrow> verror + bool list" where
  "verify_stream_loop code boundary pc =
     (if length code \<le> pc then Inr boundary
      else ebind (fetch code pc VFault) (\<lambda>opcode.
        case pscalOpcodeInfo opcode of
          None \<Rightarrow> Inl (UndefinedOpcode pc opcode)
        | Some info \<Rightarrow>
            ebind (pscalDecodeInstructionLength VFault code pc) (\<lambda>(len, decoded_ok).
              if \<not> decoded_ok then Inl (TruncatedInstr pc (oi_name info))
              else if len = 0 \<or> length code < pc + len then Inl (RunsPastEnd pc (oi_name info))
              else ebind (store boundary pc True VFault) (\<lambda>boundary.
                verify_stream_loop code boundary (pc + len)))))"
  by pat_completeness auto
termination by (relation "measure (\<lambda>(code, boundary, pc). length code - pc)") auto

declare verify_stream_loop.simps [simp del]

definition verifyInstructionStream :: "BytecodeChunk \<Rightarrow> verror + bool list" where
  "verifyInstructionStream ch = verify_stream_loop (ch_code ch) (replicate (ch_count ch) False) 0"

subsection \<open>Pass 2: operands\<close>

text \<open>The bounds of an array declaration: a pair is two constants, or the sentinel of a bound
  computed at run time. The result is the position after them and the number of sentinels.\<close>

fun walk_dims :: "BytecodeChunk \<Rightarrow> nat \<Rightarrow> nat \<Rightarrow> nat \<Rightarrow> nat \<Rightarrow> verror + nat \<times> nat" where
  "walk_dims ch pc 0 cursor dynamic = Inr (cursor, dynamic)"
| "walk_dims ch pc (Suc n) cursor dynamic =
     ebind (verifyReadU16BE (ch_code ch) cursor) (\<lambda>lo.
     ebind (verifyReadU16BE (ch_code ch) (cursor + 2)) (\<lambda>hi.
       if lo = 0xFFFF \<and> hi = 0xFFFF then walk_dims ch pc n (cursor + 4) (dynamic + 1)
       else ethen (checkConstIndex ch lo pc)
           (ethen (checkConstIndex ch hi pc) (walk_dims ch pc n (cursor + 4) dynamic))))"

text \<open>From the dimension count on: the bounds, the element type byte and the element name.\<close>

definition walk_bounds :: "BytecodeChunk \<Rightarrow> nat \<Rightarrow> nat \<Rightarrow> verror + nat" where
  "walk_bounds ch pc pos =
     ebind (fetch (ch_code ch) pos VFault) (\<lambda>dims.
     ebind (walk_dims ch pc (unat dims) (pos + 1) 0) (\<lambda>(cursor, dynamic).
     ebind (verifyReadU16BE (ch_code ch) (cursor + 1)) (\<lambda>elem_name.
       ethen (checkConstIndex ch elem_name pc) (Inr dynamic))))"

definition walk_define_payload :: "BytecodeChunk \<Rightarrow> nat \<Rightarrow> u8 \<Rightarrow> verror + nat" where
  "walk_define_payload ch pc opcode =
     (let code = ch_code ch; wide = (opcode = OP_DEFINE_GLOBAL16 \<or> opcode = OP_DEFINE_GLOBAL_SLOT) in
      ebind (if wide then verifyReadU16BE code (pc + 1)
             else ebind (fetch code (pc + 1) VFault) (\<lambda>b. Inr (unat b))) (\<lambda>name_idx.
      ethen (if opcode = OP_DEFINE_GLOBAL_SLOT then checkSlotIndex ch name_idx pc
             else checkConstIndex ch name_idx pc)
      (let type_pos = (if wide then pc + 3 else pc + 2) in
       ebind (fetch code type_pos VFault) (\<lambda>declared.
         if declared = TYPE_ARRAY then
           ebind (walk_bounds ch pc (type_pos + 1)) (\<lambda>dynamic. Inr 0)
         else
           ebind (verifyReadU16BE code (type_pos + 1)) (\<lambda>type_name.
           ethen (checkConstIndex ch type_name pc)
             (if declared = TYPE_STRING then
                ebind (verifyReadU16BE code (type_pos + 3)) (\<lambda>len_idx.
                  ethen (checkConstIndex ch len_idx pc) (Inr 0))
              else if declared = TYPE_FILE then
                ebind (verifyReadU16BE code (type_pos + 4)) (\<lambda>elem_name.
                  ethen (if elem_name \<noteq> NO_ELEMENT_TYPE_NAME then checkConstIndex ch elem_name pc
                         else Inr ()) (Inr 0))
              else Inr 0))))))"

text \<open>The result is the number of array bounds computed at run time.\<close>

definition walkVariablePayload :: "BytecodeChunk \<Rightarrow> nat \<Rightarrow> verror + nat" where
  "walkVariablePayload ch pc =
     ebind (fetch (ch_code ch) pc VFault) (\<lambda>opcode.
       if opcode = OP_DEFINE_GLOBAL \<or> opcode = OP_DEFINE_GLOBAL16 \<or> opcode = OP_DEFINE_GLOBAL_SLOT
       then walk_define_payload ch pc opcode
       else walk_bounds ch pc (pc + 2))"

text \<open>The loop over the letters of a fixed operand spec: one turn checks the operand at the cursor
  and moves past it; a letter the switch does not name moves nothing.\<close>

definition check_letter :: "BytecodeChunk \<Rightarrow> bool list \<Rightarrow> nat \<Rightarrow> nat \<Rightarrow> nat \<Rightarrow> char \<Rightarrow> verror + unit" where
  "check_letter ch boundary pc len cursor p =
     (let code = ch_code ch in
      if p = CHR ''k'' then
        ebind (fetch code cursor VFault) (\<lambda>b. checkConstIndex ch (unat b) pc)
      else if p = CHR ''K'' then
        ebind (verifyReadU16BE code cursor) (\<lambda>idx. checkConstIndex ch idx pc)
      else if p = CHR ''W'' then
        ebind (verifyReadU32BE code cursor) (\<lambda>target. checkCodeTarget ch boundary (unat target) pc)
      else if p = CHR ''j'' then
        ebind (verifyReadU32BE code cursor) (\<lambda>raw.
          let target = int (pc + len) + sint raw in
          if target < 0 \<or> int (ch_count ch) \<le> target then Inl (JumpTargetBad pc target)
          else ebind (fetch boundary (nat target) VFault) (\<lambda>b. check b (JumpTargetBad pc target)))
      else if p = CHR ''c'' then
        ebind (verifyReadU16BE code cursor) (\<lambda>idx. checkCacheIndex ch idx pc)
      else if p = CHR ''s'' then
        ebind (verifyReadU16BE code cursor) (\<lambda>idx. checkSlotIndex ch idx pc)
      else Inr ())"

definition letter_advance :: "char \<Rightarrow> nat" where
  "letter_advance p = (case operand_width p of None \<Rightarrow> 0 | Some w \<Rightarrow> w)"

fun check_letters :: "BytecodeChunk \<Rightarrow> bool list \<Rightarrow> nat \<Rightarrow> nat \<Rightarrow> nat \<Rightarrow> string \<Rightarrow> verror + unit" where
  "check_letters ch boundary pc len cursor [] = Inr ()"
| "check_letters ch boundary pc len cursor (p # ps) =
     ethen (check_letter ch boundary pc len cursor p)
       (check_letters ch boundary pc len (cursor + letter_advance p) ps)"

definition field_opcode :: "u8 \<Rightarrow> bool" where
  "field_opcode op \<longleftrightarrow> op = OP_GET_FIELD_ADDRESS \<or> op = OP_GET_FIELD_ADDRESS16 \<or>
     op = OP_GET_FIELD_ADDRESS_KEEP \<or> op = OP_GET_FIELD_ADDRESS_KEEP16"

text \<open>The body of the loop of \<open>verifyOperands\<close>, for the instruction at a boundary.\<close>

definition verify_instr_operands :: "BytecodeChunk \<Rightarrow> bool list \<Rightarrow> nat \<Rightarrow> verror + unit" where
  "verify_instr_operands ch boundary pc =
     (let code = ch_code ch in
      ebind (fetch code pc VFault) (\<lambda>opcode.
      case pscalOpcodeInfo opcode of
        None \<Rightarrow> Inl VFault
      | Some info \<Rightarrow>
      ebind (pscalDecodeInstructionLength VFault code pc) (\<lambda>(len, decoded_ok).
      if oi_operands info = ''?'' then ebind (walkVariablePayload ch pc) (\<lambda>dynamic. Inr ())
      else if opcode = OP_CALL_HOST then
        ebind (fetch code (pc + 1) VFault) (\<lambda>host_id.
          check (unat host_id < HOST_FN_COUNT) (HostIdRange pc (unat host_id)))
      else if opcode = OP_INIT_LOCAL_FILE then
        ebind (verifyReadU16BE code (pc + 3)) (\<lambda>elem_name.
          if elem_name \<noteq> NO_ELEMENT_TYPE_NAME then checkConstIndex ch elem_name pc else Inr ())
      else if field_opcode opcode then
        (let wide = (opcode = OP_GET_FIELD_ADDRESS16 \<or> opcode = OP_GET_FIELD_ADDRESS_KEEP16) in
         ebind (if wide then verifyReadU16BE code (pc + 1)
                else ebind (fetch code (pc + 1) VFault) (\<lambda>b. Inr (unat b))) (\<lambda>name_idx.
         ethen (checkConstIndex ch name_idx pc)
           (ebind (fetch (ch_constants ch) name_idx VFault) (\<lambda>v.
             check (v_type v = TYPE_STRING) (FieldNotString pc name_idx)))))
      else
        ethen (if opcode = OP_LOAD_ELEMENT_VALUE
               then ebind (fetch code (pc + 1) VFault) (\<lambda>b. check (b \<noteq> 0) (NoIndices pc))
               else Inr ())
        (ethen (if opcode = OP_PUSH_TYPE_DEFAULT
                then ebind (fetch code (pc + 1) VFault) (\<lambda>t.
                       check (t = TYPE_RECORD \<or> t = TYPE_INTERFACE \<or> t = TYPE_POINTER)
                         (TypeDefaultBad pc t))
                else Inr ())
          (check_letters ch boundary pc len (pc + 1) (oi_operands info))))))"

definition verifyOperands :: "BytecodeChunk \<Rightarrow> bool list \<Rightarrow> verror + unit" where
  "verifyOperands ch boundary =
     eall (\<lambda>pc. ebind (fetch boundary pc VFault) (\<lambda>b.
         if b then verify_instr_operands ch boundary pc else Inr ()))
       [0..<ch_count ch]"

subsection \<open>Upvalue descriptors\<close>

definition upvalue_limit :: "Symbol \<Rightarrow> Upvalue \<Rightarrow> nat" where
  "upvalue_limit enclosing u =
     (if uv_isLocal u then unat (sy_arity enclosing) + unat (sy_locals_count enclosing)
      else length (sy_upvalues enclosing))"

text \<open>The upvalues of one symbol, against its enclosing routine behind at most one alias.\<close>

definition verify_symbol_upvalues :: "Symbol list \<Rightarrow> nat \<Rightarrow> verror + unit" where
  "verify_symbol_upvalues syms s =
     (let sy = syms ! s in
      if sy_is_alias sy \<or> sy_upvalues sy = [] then Inr ()
      else case sy_enclosing sy of
             None \<Rightarrow> Inr ()
           | Some e0 \<Rightarrow>
               (let e = resolveSymbolAlias syms e0 in
                eall (\<lambda>i. ebind (fetch (sy_upvalues sy) i VFault) (\<lambda>u.
                       let limit = upvalue_limit (syms ! e) u in
                       check (unat (uv_index u) < limit) (UpvalueRange s i (unat (uv_index u)))))
                  [0..<length (sy_upvalues sy)]))"

lemma eall_cong [fundef_cong]:
  "xs = ys \<Longrightarrow> (\<And>x. x \<in> set ys \<Longrightarrow> f x = g x) \<Longrightarrow> eall f xs = eall g ys"
  by (induction ys arbitrary: xs) auto

fun verifyUpvaluesInTable :: "Symbol list \<Rightarrow> HashTable \<Rightarrow> verror + unit" where
  "verifyUpvaluesInTable syms (HashTable bs) =
     eall (\<lambda>entries. eall (\<lambda>(s, nested).
       ethen (verify_symbol_upvalues syms s)
         (case nested of None \<Rightarrow> Inr () | Some t \<Rightarrow> verifyUpvaluesInTable syms t)) entries) bs"

subsection \<open>What pass 1 establishes\<close>

lemma instr_decode_defined:
  assumes "instr_decode code pc = (len, True)" shows "pscalOpcodeInfo (code ! pc) \<noteq> None"
proof -
  have "list_all (\<lambda>op. pscalOpcodeInfo op \<noteq> None) [OP_INIT_FIELD_ARRAY, OP_INIT_LOCAL_ARRAY,
     OP_DEFINE_GLOBAL, OP_DEFINE_GLOBAL16, OP_DEFINE_GLOBAL_SLOT]" by code_simp
  then show ?thesis using assms by (auto simp: instr_decode_trusted Let_def split: if_splits)
qed

text \<open>\<open>boundary\<close> marks exactly the starts of instructions below \<open>pc\<close>.\<close>

definition marks_below :: "byte list \<Rightarrow> bool list \<Rightarrow> nat \<Rightarrow> bool" where
  "marks_below code boundary pc \<longleftrightarrow> length boundary = length code \<and>
     (\<forall>i < length code. boundary ! i \<longleftrightarrow> i < pc \<and> instr_start code i)"

lemma marks_below_step:
  assumes "marks_below code b pc" "instr_start code pc" "pc < length code"
    "instr_decode code pc = (len, True)" "pc + len \<le> length code"
  shows "marks_below code (b[pc := True]) (pc + len)"
proof -
  have "0 < len" using instr_decode_len_pos [OF assms(4)] by simp
  moreover have "i < pc + len \<Longrightarrow> instr_start code i \<Longrightarrow> i \<le> pc" for i
    using instr_start_disjoint [OF assms(2) _ _ assms(3,4,5)] by fastforce
  ultimately show ?thesis
    using assms(1,2,3) unfolding marks_below_def by (auto simp: nth_list_update) fastforce+
qed

lemma verify_stream_sound:
  "verify_stream_loop code b pc = Inr b' \<Longrightarrow> instr_start code pc \<Longrightarrow> marks_below code b pc \<Longrightarrow>
   instr_start code (length code) \<and> marks_below code b' (length code)"
proof (induction code b pc rule: verify_stream_loop.induct)
  case (1 code b pc)
  show ?case
  proof (cases "length code \<le> pc")
    case True
    then show ?thesis
      using 1 instr_start_le [of code pc] by (simp add: verify_stream_loop.simps [of _ _ pc])
  next
    case False
    obtain len ok where d: "instr_decode code pc = (len, ok)" by fastforce
    obtain info where info: "pscalOpcodeInfo (code ! pc) = Some info"
      and ok: "ok" "len \<noteq> 0" "pc + len \<le> length code"
      and rest: "verify_stream_loop code (b[pc := True]) (pc + len) = Inr b'"
      using "1.prems"(1) False d
      by (auto simp: verify_stream_loop.simps [of _ _ pc] result_simps split: option.splits if_splits)
    have dt: "instr_decode code pc = (len, True)" using d ok by simp
    have st: "instr_start code (pc + len)"
      by (rule instr_start.next_instr) (use 1 False dt ok in auto)
    have mb: "marks_below code (b[pc := True]) (pc + len)"
      by (rule marks_below_step) (use 1 False dt ok in auto)
    have "pc < length b" using "1.prems"(3) False by (simp add: marks_below_def)
    then show ?thesis
      using "1.IH" [of "code ! pc" info "(len, ok)" len ok "b[pc := True]"] False info d ok rest st mb by simp
  qed
qed

lemma verify_stream_complete:
  "instr_start code (length code) \<Longrightarrow> instr_start code pc \<Longrightarrow> length b = length code \<Longrightarrow>
   \<exists>b'. verify_stream_loop code b pc = Inr b'"
proof (induction code b pc rule: verify_stream_loop.induct)
  case (1 code b pc)
  show ?case
  proof (cases "length code \<le> pc")
    case True
    then show ?thesis by (simp add: verify_stream_loop.simps [of _ _ pc])
  next
    case False
    obtain len where d: "instr_decode code pc = (len, True)" "pc + len \<le> length code"
      using instr_start_before [OF 1(2,3)] False by auto
    obtain info where info: "pscalOpcodeInfo (code ! pc) = Some info"
      using instr_decode_defined [OF d(1)] by auto
    have pos: "len \<noteq> 0" using instr_decode_len_pos [OF d(1)] by simp
    have st: "instr_start code (pc + len)"
      by (rule instr_start.next_instr) (use 1 False d in auto)
    then show ?thesis
      using "1.IH" [of "code ! pc" info "(len, True)" len True "b[pc := True]"] False info d pos "1.prems"
      by (simp add: verify_stream_loop.simps [of _ b pc])
  qed
qed

lemma marks_below_init: "marks_below code (replicate (length code) False) 0"
  by (simp add: marks_below_def)

lemma verify_stream_no_fault: "length b = length code \<Longrightarrow> verify_stream_loop code b pc \<noteq> Inl VFault"
proof (induction code b pc rule: verify_stream_loop.induct)
  case (1 code b pc)
  obtain len ok where d: "instr_decode code pc = (len, ok)" by fastforce
  show ?case
    using "1.IH" [of "code ! pc" _ "(len, ok)" len ok "b[pc := True]"] d "1.prems"
    by (cases "length code \<le> pc")
       (simp_all add: verify_stream_loop.simps [of _ b pc] split: option.splits)
qed

lemma verifyInstructionStream_boundary:
  assumes "verifyInstructionStream ch = Inr b"
  shows "instr_start (ch_code ch) (ch_count ch)" "length b = ch_count ch"
    "i < ch_count ch \<Longrightarrow> b ! i \<longleftrightarrow> instr_start (ch_code ch) i"
  using verify_stream_sound [OF assms [unfolded verifyInstructionStream_def] instr_start.start marks_below_init]
  by (auto simp: marks_below_def)

text \<open>C20: Pass 1 accepts a chunk exactly when its code splits, from the first byte to the last, into
  instructions of defined opcodes with trusted lengths; the boundary table it leaves marks exactly
  the first byte of each.\<close>

theorem stream_pass_characterised:
  "(\<exists>b. verifyInstructionStream ch = Inr b) = instr_start (ch_code ch) (ch_count ch)
   \<and> (case verifyInstructionStream ch of
        Inl e \<Rightarrow> e \<noteq> VFault
      | Inr b \<Rightarrow> map (\<lambda>i. instr_start (ch_code ch) i) [0..<ch_count ch] = b)"
proof -
  have "instr_start (ch_code ch) (ch_count ch) \<Longrightarrow> \<exists>b. verifyInstructionStream ch = Inr b"
    unfolding verifyInstructionStream_def by (rule verify_stream_complete [OF _ instr_start.start]) simp_all
  moreover have "verifyInstructionStream ch \<noteq> Inl VFault"
    by (simp add: verifyInstructionStream_def verify_stream_no_fault)
  moreover have "map (\<lambda>i. instr_start (ch_code ch) i) [0..<ch_count ch] = b"
    if "verifyInstructionStream ch = Inr b" for b
    by (rule nth_equalityI) (use verifyInstructionStream_boundary [OF that] in auto)
  ultimately show ?thesis
    using verifyInstructionStream_boundary(1) by (auto split: sum.splits)
qed

subsection \<open>What pass 2 establishes\<close>

text \<open>The operands of a fixed spec with their positions, and when one is within its table.\<close>

fun operand_fields :: "string \<Rightarrow> nat \<Rightarrow> (char \<times> nat) list" where
  "operand_fields [] pos = []"
| "operand_fields (c # cs) pos = (c, pos) # operand_fields cs (pos + letter_advance c)"

definition u16_at :: "byte list \<Rightarrow> nat \<Rightarrow> nat" where
  "u16_at code pos = unat (u16_be (code ! pos) (code ! (pos + 1)))"

definition u32_at :: "byte list \<Rightarrow> nat \<Rightarrow> u32" where
  "u32_at code pos = u32_be (code ! pos) (code ! (pos + 1)) (code ! (pos + 2)) (code ! (pos + 3))"

definition code_target :: "BytecodeChunk \<Rightarrow> int \<Rightarrow> bool" where
  "code_target ch t \<longleftrightarrow> 0 \<le> t \<and> t < int (ch_count ch) \<and> instr_start (ch_code ch) (nat t)"

definition field_ok :: "BytecodeChunk \<Rightarrow> nat \<Rightarrow> nat \<Rightarrow> char \<times> nat \<Rightarrow> bool" where
  "field_ok ch pc len f =
     (let code = ch_code ch; c = fst f; pos = snd f in
      (c = CHR ''k'' \<longrightarrow> unat (code ! pos) < ch_constants_count ch) \<and>
      (c = CHR ''K'' \<longrightarrow> u16_at code pos < ch_constants_count ch) \<and>
      (c = CHR ''W'' \<longrightarrow> unat (u32_at code pos) < ch_count ch \<and> instr_start code (unat (u32_at code pos))) \<and>
      (c = CHR ''j'' \<longrightarrow> code_target ch (int (pc + len) + sint (u32_at code pos))) \<and>
      (c = CHR ''c'' \<longrightarrow> u16_at code pos < ch_cache_count ch) \<and>
      (c = CHR ''s'' \<longrightarrow> u16_at code pos < ch_global_slot_count ch))"

lemma verifyRead_in_range:
  "pos + 1 < length code \<Longrightarrow> verifyReadU16BE code pos = Inr (u16_at code pos)"
  "pos + 3 < length code \<Longrightarrow> verifyReadU32BE code pos = Inr (u32_at code pos)"
  by (simp_all add: verifyReadU16BE_def verifyReadU32BE_def u16_at_def u32_at_def
      read_u16_be_in_range read_u32_be_in_range)

lemma checkIndex_iff [result_simps]:
  "checkConstIndex ch idx pc = Inr u \<longleftrightarrow> idx < ch_constants_count ch"
  "checkCacheIndex ch idx pc = Inr u \<longleftrightarrow> idx < ch_cache_count ch"
  "checkSlotIndex ch idx pc = Inr u \<longleftrightarrow> idx < ch_global_slot_count ch"
  "checkCodeTarget ch b t pc = Inr u \<longleftrightarrow> t < ch_count ch \<and> t < length b \<and> b ! t"
  by (auto simp: checkConstIndex_def checkCacheIndex_def checkSlotIndex_def checkCodeTarget_def
      check_Inr_iff result_simps)

lemma checkIndex_no_fault [simp]:
  "checkConstIndex ch idx pc \<noteq> Inl VFault" "checkCacheIndex ch idx pc \<noteq> Inl VFault"
  "checkSlotIndex ch idx pc \<noteq> Inl VFault"
  "length b = ch_count ch \<Longrightarrow> checkCodeTarget ch b t pc \<noteq> Inl VFault"
  by (simp_all add: checkConstIndex_def checkCacheIndex_def checkSlotIndex_def checkCodeTarget_def
      check_def)

text \<open>A boundary table of the chunk.\<close>

definition boundary_of :: "BytecodeChunk \<Rightarrow> bool list \<Rightarrow> bool" where
  "boundary_of ch b \<longleftrightarrow> length b = ch_count ch \<and> (\<forall>i < ch_count ch. b ! i \<longleftrightarrow> instr_start (ch_code ch) i)"

lemma check_letter_spec:
  assumes "cursor + letter_advance c \<le> ch_count ch" "boundary_of ch b"
  shows "check_letter ch b pc len cursor c = Inr () \<longleftrightarrow> field_ok ch pc len (c, cursor)"
    and "check_letter ch b pc len cursor c \<noteq> Inl VFault"
proof -
  have reads: "c = CHR ''k'' \<Longrightarrow> cursor < ch_count ch"
    "c = CHR ''K'' \<or> c = CHR ''c'' \<or> c = CHR ''s'' \<Longrightarrow>
       verifyReadU16BE (ch_code ch) cursor = Inr (u16_at (ch_code ch) cursor)"
    "c = CHR ''W'' \<or> c = CHR ''j'' \<Longrightarrow>
       verifyReadU32BE (ch_code ch) cursor = Inr (u32_at (ch_code ch) cursor)"
    using assms(1) by (auto simp: letter_advance_def operand_width_def verifyRead_in_range)
  have b: "t < ch_count ch \<Longrightarrow> b ! t = instr_start (ch_code ch) t" for t
    using assms(2) by (simp add: boundary_of_def)
  have len: "length b = ch_count ch" using assms(2) by (simp add: boundary_of_def)
  have bi: "0 \<le> t \<Longrightarrow> t < int (ch_count ch) \<Longrightarrow> b ! nat t = instr_start (ch_code ch) (nat t)" for t
    by (rule b) simp
  consider "c = CHR ''k''" | "c = CHR ''K''" | "c = CHR ''W''" | "c = CHR ''j''" | "c = CHR ''c''"
    | "c = CHR ''s''" | "c \<notin> set ''kKWjcs''" by fastforce
  note cs = this
  show "check_letter ch b pc len cursor c = Inr () \<longleftrightarrow> field_ok ch pc len (c, cursor)"
    by (rule cs) (use reads b bi len in \<open>auto simp: check_letter_def field_ok_def code_target_def result_simps Let_def
         check_Inr_iff linorder_not_less split: if_splits\<close>)
  show "check_letter ch b pc len cursor c \<noteq> Inl VFault"
    by (rule cs) (use reads b len in \<open>auto simp: check_letter_def result_simps check_def Let_def\<close>)
qed

lemma spec_length_Cons:
  assumes "pscalOpcodeOperandSpecLength (c # cs) = Some n"
  obtains k where "pscalOpcodeOperandSpecLength cs = Some k" "n = letter_advance c + k"
  using assms by (auto simp: letter_advance_def split: option.splits)

lemma check_letters_spec:
  assumes "pscalOpcodeOperandSpecLength cs = Some n" "cursor + n \<le> ch_count ch" "boundary_of ch b"
  shows "check_letters ch b pc len cursor cs = Inr ()
      \<longleftrightarrow> (\<forall>f \<in> set (operand_fields cs cursor). field_ok ch pc len f)"
    and "check_letters ch b pc len cursor cs \<noteq> Inl VFault"
proof -
  have "(check_letters ch b pc len cursor cs = Inr ()
      \<longleftrightarrow> (\<forall>f \<in> set (operand_fields cs cursor). field_ok ch pc len f)) \<and>
    check_letters ch b pc len cursor cs \<noteq> Inl VFault"
    using assms(1,2)
  proof (induction cs arbitrary: cursor n)
    case (Cons c cs)
    obtain k where k: "pscalOpcodeOperandSpecLength cs = Some k" "n = letter_advance c + k"
      using spec_length_Cons [OF Cons.prems(1)] .
    have le: "cursor + letter_advance c + k \<le> ch_count ch" using Cons.prems(2) k by simp
    then have le': "cursor + letter_advance c \<le> ch_count ch" by simp
    show ?case
      using Cons.IH [OF k(1) le] check_letter_spec [OF le' assms(3), of pc len]
      by (auto simp: result_simps)
  qed simp
  then show "check_letters ch b pc len cursor cs = Inr ()
      \<longleftrightarrow> (\<forall>f \<in> set (operand_fields cs cursor). field_ok ch pc len f)"
    "check_letters ch b pc len cursor cs \<noteq> Inl VFault" by blast+
qed

text \<open>The bounds of an array declaration: constants, or the run-time sentinel.\<close>

definition bound_pair_ok :: "BytecodeChunk \<Rightarrow> nat \<Rightarrow> bool" where
  "bound_pair_ok ch pos \<longleftrightarrow>
     (let lo = u16_at (ch_code ch) pos; hi = u16_at (ch_code ch) (pos + 2) in
      lo = 0xFFFF \<and> hi = 0xFFFF \<or> lo < ch_constants_count ch \<and> hi < ch_constants_count ch)"

lemma walk_dims_spec:
  assumes "cursor + 4 * n \<le> ch_count ch"
  shows "walk_dims ch pc n cursor dynamic \<noteq> Inl VFault"
    and "walk_dims ch pc n cursor dynamic = Inr (cur', dyn') \<Longrightarrow>
      cur' = cursor + 4 * n \<and> dynamic \<le> dyn' \<and> dyn' \<le> dynamic + n \<and>
      (\<forall>d < n. bound_pair_ok ch (cursor + 4 * d))"
proof -
  have "walk_dims ch pc n cursor dynamic \<noteq> Inl VFault \<and>
    (walk_dims ch pc n cursor dynamic = Inr (cur', dyn') \<longrightarrow>
      cur' = cursor + 4 * n \<and> dynamic \<le> dyn' \<and> dyn' \<le> dynamic + n \<and>
      (\<forall>d < n. bound_pair_ok ch (cursor + 4 * d)))"
    using assms
  proof (induction ch pc n cursor dynamic rule: walk_dims.induct)
    case (2 ch pc n cursor dynamic)
    let ?lo = "u16_at (ch_code ch) cursor" and ?hi = "u16_at (ch_code ch) (cursor + 2)"
    have rd: "verifyReadU16BE (ch_code ch) cursor = Inr ?lo"
      "verifyReadU16BE (ch_code ch) (cursor + 2) = Inr ?hi"
      using "2.prems" by (simp_all add: verifyRead_in_range)
    have all: "(\<forall>d < Suc n. bound_pair_ok ch (cursor + 4 * d)) \<longleftrightarrow>
       bound_pair_ok ch cursor \<and> (\<forall>d < n. bound_pair_ok ch (cursor + 4 + 4 * d))"
      unfolding All_less_Suc2 by (simp add: add.assoc)
    show ?case
    proof (cases "?lo = 0xFFFF \<and> ?hi = 0xFFFF")
      case True
      then have "bound_pair_ok ch cursor" by (simp add: bound_pair_ok_def)
      then show ?thesis
        using "2.IH"(1) [OF rd True] "2.prems" all rd True by auto
    next
      case False
      then show ?thesis
        using "2.IH"(2) [OF rd False] "2.prems" all rd
        by (auto simp: result_simps bound_pair_ok_def Let_def)
    qed
  qed simp
  then show "walk_dims ch pc n cursor dynamic \<noteq> Inl VFault"
    and "walk_dims ch pc n cursor dynamic = Inr (cur', dyn') \<Longrightarrow>
      cur' = cursor + 4 * n \<and> dynamic \<le> dyn' \<and> dyn' \<le> dynamic + n \<and>
      (\<forall>d < n. bound_pair_ok ch (cursor + 4 * d))" by blast+
qed

text \<open>The payload of an array declaration from its dimension count on, and of a global declaration
  from its type byte on.\<close>

definition array_payload_ok :: "BytecodeChunk \<Rightarrow> nat \<Rightarrow> bool" where
  "array_payload_ok ch pos \<longleftrightarrow>
     (let dims = unat (ch_code ch ! pos) in
      (\<forall>d < dims. bound_pair_ok ch (pos + 1 + 4 * d)) \<and>
      u16_at (ch_code ch) (pos + 2 + 4 * dims) < ch_constants_count ch)"

definition declaration_ok :: "BytecodeChunk \<Rightarrow> nat \<Rightarrow> bool" where
  "declaration_ok ch pos \<longleftrightarrow>
     (let code = ch_code ch; t = code ! pos; c = ch_constants_count ch in
      if t = TYPE_ARRAY then array_payload_ok ch (pos + 1)
      else u16_at code (pos + 1) < c \<and>
        (t = TYPE_STRING \<longrightarrow> u16_at code (pos + 3) < c) \<and>
        (t = TYPE_FILE \<longrightarrow> u16_at code (pos + 4) = NO_ELEMENT_TYPE_NAME \<or> u16_at code (pos + 4) < c))"

lemma walk_bounds_spec:
  assumes "pos < ch_count ch" "pos + 4 + 4 * unat (ch_code ch ! pos) \<le> ch_count ch"
  shows "walk_bounds ch pc pos \<noteq> Inl VFault"
    and "walk_bounds ch pc pos = Inr r \<Longrightarrow> array_payload_ok ch pos \<and> r \<le> 255"
proof -
  let ?n = "unat (ch_code ch ! pos)"
  have fit: "pos + 1 + 4 * ?n \<le> ch_count ch" using assms(2) by simp
  note nf = walk_dims_spec(1) [OF fit, of pc 0] and sp = walk_dims_spec(2) [OF fit, of pc 0]
  have rd: "verifyReadU16BE (ch_code ch) (pos + 1 + 4 * ?n + 1)
      = Inr (u16_at (ch_code ch) (pos + 2 + 4 * ?n))"
    using assms(2) by (simp add: verifyRead_in_range)
  have dims: "?n \<le> 255" using unat_u8_bound [of "ch_code ch ! pos"] by simp
  have w: "walk_bounds ch pc pos = ebind (walk_dims ch pc ?n (pos + 1) 0) (\<lambda>(cursor, dynamic).
      ebind (verifyReadU16BE (ch_code ch) (cursor + 1)) (\<lambda>elem_name.
        ethen (checkConstIndex ch elem_name pc) (Inr dynamic)))"
    using assms(1) by (simp add: walk_bounds_def)
  show "walk_bounds ch pc pos \<noteq> Inl VFault"
  proof (cases "walk_dims ch pc ?n (pos + 1) 0")
    case (Inl e)
    then show ?thesis using nf w by simp
  next
    case (Inr r')
    obtain cur dyn where r': "r' = (cur, dyn)" by (cases r')
    then have "cur = pos + 1 + 4 * ?n" using sp [of cur dyn] Inr by simp
    then show ?thesis using w Inr r' rd by (simp add: result_simps)
  qed
  assume ok: "walk_bounds ch pc pos = Inr r"
  obtain cur dyn where d: "walk_dims ch pc ?n (pos + 1) 0 = Inr (cur, dyn)"
    using ok unfolding w by (auto simp: ebind_Inr_iff)
  have sp': "cur = pos + 1 + 4 * ?n" "dyn \<le> ?n" "\<forall>k < ?n. bound_pair_ok ch (pos + 1 + 4 * k)"
    using sp [OF d] by simp_all
  have "r = dyn \<and> u16_at (ch_code ch) (pos + 2 + 4 * ?n) < ch_constants_count ch"
    using ok rd unfolding w d sp'(1) by (simp add: result_simps)
  then show "array_payload_ok ch pos \<and> r \<le> 255"
    using sp'(2,3) dims by (auto simp: array_payload_ok_def Let_def)
qed

lemma array_instr_layout:
  assumes "instr_decode (ch_code ch) pc = (len, True)" "pc + len \<le> ch_count ch"
    "ch_code ch ! pc = OP_INIT_LOCAL_ARRAY \<or> ch_code ch ! pc = OP_INIT_FIELD_ARRAY"
  shows "pc + 2 < ch_count ch" "pc + 2 + 4 + 4 * unat (ch_code ch ! (pc + 2)) \<le> ch_count ch"
  using assms by (auto simp: instr_decode_trusted Let_def)

definition define_name_ok :: "BytecodeChunk \<Rightarrow> nat \<Rightarrow> bool" where
  "define_name_ok ch pc \<longleftrightarrow>
     (if ch_code ch ! pc = OP_DEFINE_GLOBAL_SLOT
      then u16_at (ch_code ch) (pc + 1) < ch_global_slot_count ch
      else if ch_code ch ! pc = OP_DEFINE_GLOBAL16 then u16_at (ch_code ch) (pc + 1) < ch_constants_count ch
      else unat (ch_code ch ! (pc + 1)) < ch_constants_count ch)"

lemma walk_define_payload_spec:
  assumes "instr_decode (ch_code ch) pc = (len, True)" "pc + len \<le> ch_count ch"
    and op: "op = ch_code ch ! pc" "op = OP_DEFINE_GLOBAL \<or> op = OP_DEFINE_GLOBAL16 \<or> op = OP_DEFINE_GLOBAL_SLOT"
  shows "walk_define_payload ch pc op \<noteq> Inl VFault"
    and "walk_define_payload ch pc op = Inr n \<Longrightarrow>
      define_name_ok ch pc \<and> declaration_ok ch (pc + define_pos op)"
proof -
  let ?code = "ch_code ch"
  let ?tp = "pc + define_pos op"
  let ?t = "?code ! ?tp"
  have lay: "?tp < ch_count ch" "len = define_len ?code pc ?tp" "?t = TYPE_ARRAY \<longrightarrow> ?tp + 1 < ch_count ch"
    using assms by (auto simp: instr_decode_trusted Let_def)
  define body :: "verror + nat" where "body = (if ?t = TYPE_ARRAY then
           ebind (walk_bounds ch pc (?tp + 1)) (\<lambda>dynamic. Inr 0)
         else
           ebind (verifyReadU16BE ?code (?tp + 1)) (\<lambda>type_name.
           ethen (checkConstIndex ch type_name pc)
             (if ?t = TYPE_STRING then
                ebind (verifyReadU16BE ?code (?tp + 3)) (\<lambda>len_idx.
                  ethen (checkConstIndex ch len_idx pc) (Inr 0))
              else if ?t = TYPE_FILE then
                ebind (verifyReadU16BE ?code (?tp + 4)) (\<lambda>elem_name.
                  ethen (if elem_name \<noteq> NO_ELEMENT_TYPE_NAME then checkConstIndex ch elem_name pc
                         else Inr ()) (Inr 0))
              else Inr 0)))"
  have body: "body \<noteq> Inl VFault \<and> (body = Inr n \<longrightarrow> declaration_ok ch ?tp)"
  proof (cases "?t = TYPE_ARRAY")
    case True
    then have pos: "?tp + 1 < ch_count ch" "?tp + 1 + 4 + 4 * unat (?code ! (?tp + 1)) \<le> ch_count ch"
      using lay assms(2) by (simp_all add: define_len_def)
    show ?thesis
      using walk_bounds_spec(1) [OF pos, of pc] walk_bounds_spec(2) [OF pos, of pc] True
      by (auto simp: body_def declaration_ok_def result_simps)
  next
    case False
    then have "?tp + 3 + (if ?t = TYPE_STRING then 2 else if ?t = TYPE_FILE then 3 else 0) \<le> ch_count ch"
      using lay assms(2) by (simp add: define_len_def)
    then show ?thesis
      using False by (auto simp: body_def declaration_ok_def Let_def result_simps verifyRead_in_range
          split: if_splits)
  qed
  define name where "name = (if op = OP_DEFINE_GLOBAL16 \<or> op = OP_DEFINE_GLOBAL_SLOT
     then u16_at ?code (pc + 1) else unat (?code ! (pc + 1)))"
  have rd: "(if op = OP_DEFINE_GLOBAL16 \<or> op = OP_DEFINE_GLOBAL_SLOT then verifyReadU16BE ?code (pc + 1)
             else ebind (fetch ?code (pc + 1) VFault) (\<lambda>b. Inr (unat b))) = Inr name"
    using lay(1) op by (auto simp: name_def define_pos_def verifyRead_in_range)
  have tp: "(if op = OP_DEFINE_GLOBAL16 \<or> op = OP_DEFINE_GLOBAL_SLOT then pc + 3 else pc + 2) = ?tp"
    using op by (auto simp: define_pos_def)
  have w: "walk_define_payload ch pc op = ethen
      (if op = OP_DEFINE_GLOBAL_SLOT then checkSlotIndex ch name pc else checkConstIndex ch name pc) body"
    unfolding walk_define_payload_def Let_def rd tp ebind.simps fetch_in_range [OF lay(1)] body_def
    by (rule refl)
  show "walk_define_payload ch pc op \<noteq> Inl VFault"
    using body by (simp add: w result_simps)
  assume "walk_define_payload ch pc op = Inr n"
  then have "body = Inr n" "if op = OP_DEFINE_GLOBAL_SLOT then name < ch_global_slot_count ch
      else name < ch_constants_count ch"
    by (auto simp: w result_simps split: if_splits)
  then show "define_name_ok ch pc \<and> declaration_ok ch ?tp"
    using body op by (auto simp: define_name_ok_def name_def split: if_splits)
qed

subsection \<open>What pass 2 establishes of every instruction\<close>

definition wide_field :: "u8 \<Rightarrow> bool" where
  "wide_field op \<longleftrightarrow> op = OP_GET_FIELD_ADDRESS16 \<or> op = OP_GET_FIELD_ADDRESS_KEEP16"

definition define_opcode :: "u8 \<Rightarrow> bool" where
  "define_opcode op \<longleftrightarrow> op = OP_DEFINE_GLOBAL \<or> op = OP_DEFINE_GLOBAL16 \<or> op = OP_DEFINE_GLOBAL_SLOT"

definition array_opcode :: "u8 \<Rightarrow> bool" where
  "array_opcode op \<longleftrightarrow> op = OP_INIT_LOCAL_ARRAY \<or> op = OP_INIT_FIELD_ARRAY"

text \<open>What the interpreter relies on when it executes the instruction at \<open>pc\<close>.\<close>

definition instr_operands_ok :: "BytecodeChunk \<Rightarrow> nat \<Rightarrow> bool" where
  "instr_operands_ok ch pc \<longleftrightarrow>
     (let code = ch_code ch; op = code ! pc; c = ch_constants_count ch in
      if define_opcode op then define_name_ok ch pc \<and> declaration_ok ch (pc + define_pos op)
      else if array_opcode op then array_payload_ok ch (pc + 2)
      else if op = OP_CALL_HOST then unat (code ! (pc + 1)) < HOST_FN_COUNT
      else if op = OP_INIT_LOCAL_FILE then
        u16_at code (pc + 3) = NO_ELEMENT_TYPE_NAME \<or> u16_at code (pc + 3) < c
      else if field_opcode op then
        (let idx = (if wide_field op then u16_at code (pc + 1) else unat (code ! (pc + 1))) in
         idx < c \<and> v_type (ch_constants ch ! idx) = TYPE_STRING)
      else (op = OP_LOAD_ELEMENT_VALUE \<longrightarrow> code ! (pc + 1) \<noteq> 0) \<and>
        (op = OP_PUSH_TYPE_DEFAULT \<longrightarrow> code ! (pc + 1) \<in> {TYPE_RECORD, TYPE_INTERFACE, TYPE_POINTER}) \<and>
        (\<forall>info len. pscalOpcodeInfo op = Some info \<and> instr_decode code pc = (len, True) \<longrightarrow>
           (\<forall>f \<in> set (operand_fields (oi_operands info) (pc + 1)). field_ok ch pc len f)))"

lemma fixed_len:
  assumes "instr_decode code pc = (len, True)" "pscalOpcodeInfo (code ! pc) = Some info"
    "\<not> define_opcode (code ! pc)" "\<not> array_opcode (code ! pc)"
  obtains n where "pscalOpcodeOperandSpecLength (oi_operands info) = Some n" "len = 1 + n"
  using assms unfolding instr_decode_trusted Let_def define_opcode_def array_opcode_def
  by (auto split: if_splits)

lemma special_lengths:
  "list_all (\<lambda>(op, n). case pscalOpcodeInfo op of None \<Rightarrow> False
     | Some info \<Rightarrow> pscalOpcodeOperandSpecLength (oi_operands info) = Some n)
   [(OP_CALL_HOST, 1), (OP_INIT_LOCAL_FILE, 4), (OP_GET_FIELD_ADDRESS, 1), (OP_GET_FIELD_ADDRESS16, 2),
    (OP_GET_FIELD_ADDRESS_KEEP, 1), (OP_GET_FIELD_ADDRESS_KEEP16, 2), (OP_LOAD_ELEMENT_VALUE, 1),
    (OP_PUSH_TYPE_DEFAULT, 3)]"
  by code_simp

lemma special_len:
  assumes "instr_decode code pc = (len, True)" "(code ! pc, n) \<in> set
   [(OP_CALL_HOST, 1), (OP_INIT_LOCAL_FILE, 4), (OP_GET_FIELD_ADDRESS, 1), (OP_GET_FIELD_ADDRESS16, 2),
    (OP_GET_FIELD_ADDRESS_KEEP, 1), (OP_GET_FIELD_ADDRESS_KEEP16, 2), (OP_LOAD_ELEMENT_VALUE, 1),
    (OP_PUSH_TYPE_DEFAULT, 3)]"
  shows "len = 1 + n"
proof -
  obtain info where i: "pscalOpcodeInfo (code ! pc) = Some info"
    "pscalOpcodeOperandSpecLength (oi_operands info) = Some n"
    using special_lengths assms(2) by (fastforce simp: list_all_iff split: option.splits)
  have "\<not> define_opcode (code ! pc)" "\<not> array_opcode (code ! pc)"
    using assms(2) by (auto simp: define_opcode_def array_opcode_def)
  then show ?thesis using fixed_len [OF assms(1) i(1)] i(2) by auto
qed

lemma variable_row_opcode:
  "pscalOpcodeInfo op = Some info \<Longrightarrow> oi_operands info = ''?'' \<longleftrightarrow> define_opcode op \<or> array_opcode op"
  using variable_row_iff [of op info] by (auto simp: variable_row_def define_opcode_def array_opcode_def)

lemma walkVariablePayload_spec:
  assumes d: "instr_decode (ch_code ch) pc = (len, True)" and fit: "pc + len \<le> ch_count ch"
    and op: "define_opcode (ch_code ch ! pc) \<or> array_opcode (ch_code ch ! pc)"
  shows "walkVariablePayload ch pc \<noteq> Inl VFault"
    and "walkVariablePayload ch pc = Inr n \<Longrightarrow> instr_operands_ok ch pc \<and> (array_opcode (ch_code ch ! pc) \<longrightarrow> n \<le> 255)"
proof -
  have pc: "pc < ch_count ch" using d by (simp add: instr_decode_trusted)
  have "walkVariablePayload ch pc \<noteq> Inl VFault \<and>
    (walkVariablePayload ch pc = Inr n \<longrightarrow> instr_operands_ok ch pc \<and> (array_opcode (ch_code ch ! pc) \<longrightarrow> n \<le> 255))"
  proof (cases "define_opcode (ch_code ch ! pc)")
    case True
    then have dop: "ch_code ch ! pc = OP_DEFINE_GLOBAL \<or> ch_code ch ! pc = OP_DEFINE_GLOBAL16
        \<or> ch_code ch ! pc = OP_DEFINE_GLOBAL_SLOT" by (simp add: define_opcode_def)
    have w: "walkVariablePayload ch pc = walk_define_payload ch pc (ch_code ch ! pc)"
      using dop pc by (simp add: walkVariablePayload_def)
    have "\<not> array_opcode (ch_code ch ! pc)" using dop by (auto simp: array_opcode_def)
    then show ?thesis
      using walk_define_payload_spec [OF d fit refl dop] True
      unfolding w instr_operands_ok_def by (simp add: Let_def)
  next
    case False
    then have aop: "ch_code ch ! pc = OP_INIT_LOCAL_ARRAY \<or> ch_code ch ! pc = OP_INIT_FIELD_ARRAY"
      using op by (simp add: array_opcode_def)
    have w: "walkVariablePayload ch pc = walk_bounds ch pc (pc + 2)"
      using False pc by (auto simp: walkVariablePayload_def define_opcode_def)
    show ?thesis
      using walk_bounds_spec [OF array_instr_layout [OF d fit aop], of pc] False op
      unfolding w instr_operands_ok_def by (simp add: Let_def)
  qed
  then show "walkVariablePayload ch pc \<noteq> Inl VFault"
    and "walkVariablePayload ch pc = Inr n \<Longrightarrow> instr_operands_ok ch pc \<and> (array_opcode (ch_code ch ! pc) \<longrightarrow> n \<le> 255)"
    by blast+
qed

lemma field_opcode_cases:
  assumes "field_opcode op"
  obtains "wide_field op" "(op, 2) \<in> set [(OP_GET_FIELD_ADDRESS16, 2::nat), (OP_GET_FIELD_ADDRESS_KEEP16, 2)]"
    | "\<not> wide_field op" "(op, 1) \<in> set [(OP_GET_FIELD_ADDRESS, 1::nat), (OP_GET_FIELD_ADDRESS_KEEP, 1)]"
  using assms by (auto simp: field_opcode_def wide_field_def)

lemma verify_instr_operands_spec:
  assumes d: "instr_decode (ch_code ch) pc = (len, True)" and fit: "pc + len \<le> ch_count ch"
    and b: "boundary_of ch b"
  shows "verify_instr_operands ch b pc \<noteq> Inl VFault"
    and "verify_instr_operands ch b pc = Inr () \<Longrightarrow> instr_operands_ok ch pc"
proof -
  let ?code = "ch_code ch"
  let ?op = "?code ! pc"
  have pc: "pc < ch_count ch" using d by (simp add: instr_decode_trusted)
  obtain info where info: "pscalOpcodeInfo ?op = Some info" using instr_decode_defined [OF d] by auto
  note vr = variable_row_opcode [OF info]
  have "verify_instr_operands ch b pc \<noteq> Inl VFault \<and>
    (verify_instr_operands ch b pc = Inr () \<longrightarrow> instr_operands_ok ch pc)"
  proof (cases "define_opcode ?op \<or> array_opcode ?op")
    case True
    then show ?thesis
      using pc info d vr walkVariablePayload_spec [OF d fit True]
      by (auto simp: verify_instr_operands_def Let_def result_simps)
  next
    case False
    then have nd: "\<not> define_opcode ?op" "\<not> array_opcode ?op" by simp_all
    consider "?op = OP_CALL_HOST" | "?op = OP_INIT_LOCAL_FILE" | "field_opcode ?op"
      | "?op \<noteq> OP_CALL_HOST" "?op \<noteq> OP_INIT_LOCAL_FILE" "\<not> field_opcode ?op" by blast
    then show ?thesis
    proof cases
      case 1
      then have "pc + 1 < ch_count ch" using special_len [OF d, of 1] fit by simp
      then show ?thesis
        using pc info d vr nd 1
        by (auto simp: verify_instr_operands_def instr_operands_ok_def Let_def result_simps)
    next
      case 2
      then have "pc + 4 < ch_count ch" using special_len [OF d, of 4] fit by simp
      then show ?thesis
        using pc info d vr nd 2
        by (auto simp: verify_instr_operands_def instr_operands_ok_def Let_def result_simps verifyRead_in_range)
    next
      case 3
      then have no: "?op \<noteq> OP_CALL_HOST" "?op \<noteq> OP_INIT_LOCAL_FILE" by (auto simp: field_opcode_def)
      define idx where "idx = (if wide_field ?op then u16_at ?code (pc + 1) else unat (?code ! (pc + 1)))"
      have rd: "(if ?op = OP_GET_FIELD_ADDRESS16 \<or> ?op = OP_GET_FIELD_ADDRESS_KEEP16
                 then verifyReadU16BE ?code (pc + 1)
                 else ebind (fetch ?code (pc + 1) VFault) (\<lambda>b. Inr (unat b))) = Inr idx"
        using 3
      proof (cases rule: field_opcode_cases)
        case 1
        then have "pc + 2 < ch_count ch" using special_len [OF d, of 2] fit by auto
        then show ?thesis using 1 by (auto simp: idx_def wide_field_def verifyRead_in_range)
      next
        case 2
        then have "pc + 1 < ch_count ch" using special_len [OF d, of 1] fit by auto
        then show ?thesis using 2 by (auto simp: idx_def wide_field_def)
      qed
      have w: "verify_instr_operands ch b pc = ethen (checkConstIndex ch idx pc)
           (ebind (fetch (ch_constants ch) idx VFault) (\<lambda>v.
             check (v_type v = TYPE_STRING) (FieldNotString pc idx)))"
        using pc info d vr nd no 3 rd by (simp add: verify_instr_operands_def Let_def)
      show ?thesis
        using nd no 3
        unfolding w by (auto simp: result_simps instr_operands_ok_def idx_def Let_def)
    next
      case 4
      obtain n where n: "pscalOpcodeOperandSpecLength (oi_operands info) = Some n" "len = 1 + n"
        using fixed_len [OF d info nd] .
      have "pc + 1 + n \<le> ch_count ch" using fit n by simp
      note letters = check_letters_spec [OF n(1) this b, of pc len]
      have r1: "?op = OP_LOAD_ELEMENT_VALUE \<or> ?op = OP_PUSH_TYPE_DEFAULT \<Longrightarrow> pc + 1 < ch_count ch"
        using special_len [OF d, of 1] special_len [OF d, of 3] fit by auto
      have w: "verify_instr_operands ch b pc =
        ethen (if ?op = OP_LOAD_ELEMENT_VALUE
               then check (?code ! (pc + 1) \<noteq> 0) (NoIndices pc) else Inr ())
        (ethen (if ?op = OP_PUSH_TYPE_DEFAULT
                then check (?code ! (pc + 1) = TYPE_RECORD \<or> ?code ! (pc + 1) = TYPE_INTERFACE
                         \<or> ?code ! (pc + 1) = TYPE_POINTER) (TypeDefaultBad pc (?code ! (pc + 1)))
                else Inr ())
          (check_letters ch b pc len (pc + 1) (oi_operands info)))"
        using pc info d vr nd 4 r1 by (auto simp: verify_instr_operands_def Let_def)
      show ?thesis
        using nd 4 letters info d unfolding w
        by (auto simp: result_simps instr_operands_ok_def Let_def split: if_splits)
    qed
  qed
  then show "verify_instr_operands ch b pc \<noteq> Inl VFault"
    and "verify_instr_operands ch b pc = Inr () \<Longrightarrow> instr_operands_ok ch pc" by blast+
qed

lemma stream_instr:
  assumes "verifyInstructionStream ch = Inr b" "instr_start (ch_code ch) pc" "pc < ch_count ch"
  obtains len where "instr_decode (ch_code ch) pc = (len, True)" "pc + len \<le> ch_count ch"
  using instr_start_before [OF verifyInstructionStream_boundary(1) [OF assms(1)] assms(2,3)] by blast

lemma stream_boundary_of: "verifyInstructionStream ch = Inr b \<Longrightarrow> boundary_of ch b"
  by (simp add: boundary_of_def verifyInstructionStream_boundary(2,3))

lemma verifyOperands_no_fault:
  assumes "verifyInstructionStream ch = Inr b" shows "verifyOperands ch b \<noteq> Inl VFault"
proof
  assume "verifyOperands ch b = Inl VFault"
  then obtain pc where pc: "pc < ch_count ch" "b ! pc" "verify_instr_operands ch b pc = Inl VFault"
    using verifyInstructionStream_boundary(2) [OF assms]
    unfolding verifyOperands_def by (auto dest!: eall_InlD simp: result_simps split: if_splits)
  then have "instr_start (ch_code ch) pc" using verifyInstructionStream_boundary(3) [OF assms] by simp
  then obtain len where "instr_decode (ch_code ch) pc = (len, True)" "pc + len \<le> ch_count ch"
    using stream_instr [OF assms _ pc(1)] by blast
  then show False using verify_instr_operands_spec(1) [OF _ _ stream_boundary_of [OF assms]] pc(3) by blast
qed

lemma verifyOperands_sound:
  assumes "verifyInstructionStream ch = Inr b" "verifyOperands ch b = Inr ()"
    "instr_start (ch_code ch) pc" "pc < ch_count ch"
  shows "instr_operands_ok ch pc"
proof -
  obtain len where d: "instr_decode (ch_code ch) pc = (len, True)" "pc + len \<le> ch_count ch"
    using stream_instr [OF assms(1,3,4)] .
  have "b ! pc" using verifyInstructionStream_boundary(3) [OF assms(1)] assms(3,4) by simp
  then have "verify_instr_operands ch b pc = Inr ()"
    using assms(2,4) by (auto simp: verifyOperands_def eall_Inr_iff result_simps split: if_splits)
  then show ?thesis using verify_instr_operands_spec(2) [OF d stream_boundary_of [OF assms(1)]] by blast
qed

lemma verify_symbol_upvalues_no_fault: "verify_symbol_upvalues syms s \<noteq> Inl VFault"
  by (auto simp: verify_symbol_upvalues_def Let_def check_def result_simps dest!: eall_InlD
      split: option.splits if_splits)

lemma verifyUpvalues_no_fault: "verifyUpvaluesInTable syms t \<noteq> Inl VFault"
proof (induction syms t rule: verifyUpvaluesInTable.induct)
  case (1 syms bs)
  show ?case
  proof
    assume "verifyUpvaluesInTable syms (HashTable bs) = Inl VFault"
    then obtain entries s nested where e: "entries \<in> set bs" "(s, nested) \<in> set entries"
      "ethen (verify_symbol_upvalues syms s)
         (case nested of None \<Rightarrow> Inr () | Some t \<Rightarrow> verifyUpvaluesInTable syms t) = Inl VFault"
      by (fastforce dest!: eall_InlD)
    then show False
      using "1.IH" verify_symbol_upvalues_no_fault by (auto simp: result_simps split: option.splits)
  qed
qed

end
