(* ===== verification/VerifierWalk.thy ===== *)
theory VerifierWalk
  imports Verifier
begin

section \<open>The bytecode verifier: stack depths\<close>

text \<open>
  \<open>compiler/bytecode_verify.c\<close>, second half: the entries a frame can start at, the stack effect of
  each instruction, the worklist walk from every entry, and the public entry point. A depth is
  \<open>None\<close> where the C code's \<open>Depth\<close> is not known. The list of work items is the C array read from
  its top; pushing onto a full array drops the item, as the C code does.
\<close>

datatype BuiltinRoutineType = BUILTIN_TYPE_NONE | BUILTIN_TYPE_PROCEDURE | BUILTIN_TYPE_FUNCTION

text \<open>What the verifier is given beside the chunk: the symbols and the procedure table, the registry
  of builtins (\<open>getBuiltinType\<close>) and the configured ceiling of the value stack
  (\<open>pscalVmStackCeilingValues\<close>).\<close>

record VEnv =
  ve_syms :: "Symbol list"
  ve_procedures :: HashTable
  ve_builtin_type :: "string \<Rightarrow> BuiltinRoutineType"
  ve_stack_ceiling :: nat

subsection \<open>Entries\<close>

record AddrSym =
  as_addr :: nat
  as_sym :: "nat option"

definition addr_u32 :: "int \<Rightarrow> nat" where
  "addr_u32 a = to_uint32 a"

fun collectProcedures :: "Symbol list \<Rightarrow> HashTable \<Rightarrow> AddrSym list" where
  "collectProcedures syms (HashTable bs) =
     concat (map (\<lambda>entries. concat (map (\<lambda>(s, nested).
       (if \<not> sy_is_alias (syms ! s) \<and> sy_is_defined (syms ! s) \<and> 0 \<le> sy_bytecode_address (syms ! s)
        then [\<lparr>as_addr = addr_u32 (sy_bytecode_address (syms ! s)), as_sym = Some s\<rparr>] else [])
       @ (case nested of None \<Rightarrow> [] | Some t \<Rightarrow> collectProcedures syms t)) entries)) bs)"

fun first_some :: "('a \<Rightarrow> 'b option) \<Rightarrow> 'a list \<Rightarrow> 'b option" where
  "first_some f [] = None"
| "first_some f (x # xs) = (case f x of Some y \<Rightarrow> Some y | None \<Rightarrow> first_some f xs)"

lemma first_some_cong [fundef_cong]:
  "xs = ys \<Longrightarrow> (\<And>x. x \<in> set ys \<Longrightarrow> f x = g x) \<Longrightarrow> first_some f xs = first_some g ys"
  by (induction ys arbitrary: xs) (auto split: option.splits)

fun findProcByAddress :: "Symbol list \<Rightarrow> HashTable \<Rightarrow> nat \<Rightarrow> nat option" where
  "findProcByAddress syms (HashTable bs) address =
     first_some (\<lambda>entries. first_some (\<lambda>(s, nested).
       if sy_is_defined (syms ! s) \<and> addr_u32 (sy_bytecode_address (syms ! s)) = address
       then Some (resolveSymbolAlias syms s)
       else (case nested of None \<Rightarrow> None | Some t \<Rightarrow> findProcByAddress syms t address)) entries) bs"

definition findProcByName :: "Symbol list \<Rightarrow> HashTable \<Rightarrow> string \<Rightarrow> nat option" where
  "findProcByName syms table lowered_name =
     map_option (resolveSymbolAlias syms) (hashTableLookup syms table lowered_name)"

text \<open>The order of \<open>cmpAddrSym\<close> as a sort key: by address, a named entry before an unnamed one.\<close>

definition addr_key :: "AddrSym \<Rightarrow> nat" where
  "addr_key a = 2 * as_addr a + (if as_sym a = None then 1 else 0)"

subsection \<open>The effect of an instruction\<close>

record Effect =
  ef_req :: int
  ef_delta :: int
  ef_unknown_after :: bool

definition known_effect :: "int \<Rightarrow> int \<Rightarrow> Effect" where
  "known_effect r d = \<lparr>ef_req = r, ef_delta = d, ef_unknown_after = False\<rparr>"

definition unknown_effect :: "int \<Rightarrow> Effect" where
  "unknown_effect r = \<lparr>ef_req = r, ef_delta = 0, ef_unknown_after = True\<rparr>"

definition is_function :: "VEnv \<Rightarrow> nat option \<Rightarrow> bool" where
  "is_function env s = (case s of None \<Rightarrow> False | Some i \<Rightarrow> sy_type (ve_syms env ! i) \<noteq> TYPE_VOID)"

text \<open>The string constant at an index, if it is one.\<close>

definition string_of :: "Value \<Rightarrow> string option" where
  "string_of v = (case v of VString t s \<Rightarrow> (if t = TYPE_STRING then s else None) | _ \<Rightarrow> None)"

definition const_string :: "BytecodeChunk \<Rightarrow> nat \<Rightarrow> verror + string option" where
  "const_string ch idx =
     (if idx < ch_constants_count ch then ebind (fetch (ch_constants ch) idx VFault) (\<lambda>v. Inr (string_of v))
      else Inr None)"

lemma const_string_eq:
  "const_string ch idx = Inr (if idx < ch_constants_count ch then string_of (ch_constants ch ! idx) else None)"
  by (simp add: const_string_def)

definition classifyInstruction ::
    "VEnv \<Rightarrow> BytecodeChunk \<Rightarrow> nat \<Rightarrow> nat \<Rightarrow> OpcodeInfo \<Rightarrow> nat option \<Rightarrow> verror + Effect" where
  "classifyInstruction env ch pc len info entry_symbol =
     (let code = ch_code ch;
          arity_last = (\<lambda>f. ebind (fetch code (pc + len - 1) VFault) (\<lambda>b. f (int (unat b)))) in
      ebind (fetch code pc VFault) (\<lambda>opcode.
      if opcode = OP_RETURN \<or> opcode = OP_EXIT then
        Inr (known_effect (if is_function env entry_symbol then 1 else 0) 0)
      else if opcode = OP_GET_ELEMENT_ADDRESS \<or> opcode = OP_LOAD_ELEMENT_VALUE then
        ebind (fetch code (pc + 1) VFault) (\<lambda>b.
          let req = 1 + int (unat b) in Inr (known_effect req (1 - req)))
      else if opcode = OP_INIT_LOCAL_ARRAY then
        ebind (walkVariablePayload ch pc) (\<lambda>dynamic. Inr (known_effect (int dynamic) (- int dynamic)))
      else if opcode = OP_INIT_FIELD_ARRAY then
        ebind (walkVariablePayload ch pc) (\<lambda>dynamic. Inr (known_effect (1 + int dynamic) (- int dynamic)))
      else if opcode = OP_CALL_BUILTIN_PROC then
        arity_last (\<lambda>arity. Inr (known_effect arity (- arity)))
      else if opcode = OP_CALL_BUILTIN then
        arity_last (\<lambda>arity. ebind (verifyReadU16BE code (pc + 1)) (\<lambda>name_idx.
          ebind (const_string ch name_idx) (\<lambda>name.
          let pushed = (case name of
                          None \<Rightarrow> 1
                        | Some s \<Rightarrow> (if ve_builtin_type env s = BUILTIN_TYPE_PROCEDURE then 0 else 1))
          in Inr (known_effect arity (pushed - arity)))))
      else if opcode = OP_CALL_USER_PROC \<or> opcode = OP_CALL then
        arity_last (\<lambda>arity.
          ebind (if opcode = OP_CALL then
                   ebind (verifyReadU32BE code (pc + 3)) (\<lambda>addr.
                     Inr (findProcByAddress (ve_syms env) (ve_procedures env) (unat addr)))
                 else
                   ebind (verifyReadU16BE code (pc + 1)) (\<lambda>name_idx.
                   ebind (const_string ch name_idx) (\<lambda>name.
                     Inr (case name of
                            None \<Rightarrow> None
                          | Some s \<Rightarrow> findProcByName (ve_syms env) (ve_procedures env)
                                       (lower_string (take MAX_SYMBOL_LENGTH s))))))
            (\<lambda>target. Inr (case target of
               None \<Rightarrow> unknown_effect arity
             | Some t \<Rightarrow> known_effect arity (- arity + (if is_function env (Some t) then 1 else 0)))))
      else if opcode = OP_CALL_INDIRECT \<or> opcode = OP_CALL_METHOD then
        ebind (fetch code (pc + 1 + (if opcode = OP_CALL_METHOD then 1 else 0)) VFault) (\<lambda>b.
          Inr (unknown_effect (int (unat b) + 1)))
      else if opcode = OP_PROC_CALL_INDIRECT then
        ebind (fetch code (pc + 1) VFault) (\<lambda>b.
          let arity = int (unat b) in Inr (known_effect (arity + 1) (- (arity + 1))))
      else if opcode = OP_CALL_HOST then Inr (unknown_effect 0)
      else if oi_stack_in info < 0 \<or> oi_stack_out info < 0 then Inl (NoVerifierRule pc)
      else Inr (known_effect (oi_stack_in info) (oi_stack_out info - oi_stack_in info))))"

subsection \<open>The walk\<close>

text \<open>Tables indexed by pc, shared by all walks: the walk that owns it (0 for none), whether it was
  visited with a known and with an unknown depth, and the known depth.\<close>

record Walk =
  wk_owner :: "nat list"
  wk_known :: "bool list"
  wk_unknown :: "bool list"
  wk_depths :: "int list"

type_synonym work_item = "nat \<times> int option"

definition addSuccessor ::
    "BytecodeChunk \<Rightarrow> bool list \<Rightarrow> AddrSym list \<Rightarrow> Walk \<Rightarrow> nat \<Rightarrow> nat \<Rightarrow> int \<Rightarrow> verror + nat" where
  "addSuccessor ch boundary entries ws walk_id pc target =
     (if target < 0 \<or> int (ch_count ch) \<le> target then Inl (ContinuesPastEnd pc target)
      else ebind (fetch boundary (nat target) VFault) (\<lambda>b.
      if \<not> b then Inl (ContinuesPastEnd pc target)
      else ebind (fetch (wk_owner ws) (nat target) VFault) (\<lambda>other.
        if other \<noteq> 0 \<and> other \<noteq> walk_id then
          ebind (fetch entries (other - 1) VFault) (\<lambda>there.
            if int (as_addr there) = target then Inl (EntersWithoutCall pc (nat target))
            else Inl (ReachesOtherWalk pc (nat target)))
        else Inr (nat target))))"

text \<open>The depth after an instruction, with the checks of a known depth.\<close>

definition next_depth :: "VEnv \<Rightarrow> nat \<Rightarrow> Effect \<Rightarrow> int option \<Rightarrow> verror + int option" where
  "next_depth env pc eff d =
     (case d of
        None \<Rightarrow> Inr None
      | Some v \<Rightarrow>
          (if v < ef_req eff then Inl (NeedsDepth pc (ef_req eff) v)
           else if ef_unknown_after eff then Inr None
           else let nv = v + ef_delta eff in
                if nv < 0 then Inl (WouldUnderflow pc v (ef_delta eff))
                else if int (ve_stack_ceiling env) < nv then Inl (ExceedsCeiling pc nv)
                else Inr (Some nv)))"

text \<open>The targets control can reach from an instruction, in the order they are pushed.\<close>

definition jump_target :: "byte list \<Rightarrow> nat \<Rightarrow> nat \<Rightarrow> verror + int" where
  "jump_target code pc len =
     ebind (verifyReadU32BE code (pc + 1)) (\<lambda>raw. Inr (int (pc + len) + sint raw))"

definition successor_targets :: "byte list \<Rightarrow> nat \<Rightarrow> nat \<Rightarrow> u8 \<Rightarrow> verror + int list" where
  "successor_targets code pc len opcode =
     (if opcode = OP_RETURN \<or> opcode = OP_EXIT \<or> opcode = OP_HALT then Inr []
      else if opcode = OP_JUMP then ebind (jump_target code pc len) (\<lambda>t. Inr [t])
      else if opcode = OP_JUMP_IF_FALSE then
        ebind (jump_target code pc len) (\<lambda>t. Inr [t, int (pc + len)])
      else Inr [int (pc + len)])"

fun add_all :: "(int \<Rightarrow> verror + nat) \<Rightarrow> int list \<Rightarrow> verror + nat list" where
  "add_all f [] = Inr []"
| "add_all f (t # ts) = ebind (f t) (\<lambda>x. ebind (add_all f ts) (\<lambda>xs. Inr (x # xs)))"

text \<open>Marking a work item as visited; \<open>None\<close> when it carries nothing new.\<close>

definition mark_visited :: "nat \<Rightarrow> int option \<Rightarrow> Walk \<Rightarrow> verror + Walk option" where
  "mark_visited pc d ws =
     (case d of
        Some v \<Rightarrow>
          ebind (fetch (wk_known ws) pc VFault) (\<lambda>seen.
          ebind (fetch (wk_depths ws) pc VFault) (\<lambda>v0.
            if seen then (if v0 \<noteq> v then Inl (DepthMismatch pc v0 v) else Inr None)
            else Inr (Some (ws\<lparr>wk_known := (wk_known ws)[pc := True],
                              wk_depths := (wk_depths ws)[pc := v]\<rparr>))))
      | None \<Rightarrow>
          ebind (fetch (wk_unknown ws) pc VFault) (\<lambda>seen.
            if seen then Inr None
            else Inr (Some (ws\<lparr>wk_unknown := (wk_unknown ws)[pc := True]\<rparr>))))"

text \<open>One turn of the loop of \<open>verifyWalk\<close>: the tables after it and the items it pushes.\<close>

definition walk_step ::
    "VEnv \<Rightarrow> BytecodeChunk \<Rightarrow> bool list \<Rightarrow> AddrSym list \<Rightarrow> nat \<Rightarrow> nat option \<Rightarrow> work_item \<Rightarrow> Walk
     \<Rightarrow> verror + Walk \<times> work_item list" where
  "walk_step env ch boundary entries walk_id entry_sym item ws =
     (let pc = fst item; code = ch_code ch in
      ebind (store (wk_owner ws) pc walk_id VFault) (\<lambda>owner.
      let ws1 = ws\<lparr>wk_owner := owner\<rparr> in
      ebind (mark_visited pc (snd item) ws1) (\<lambda>fresh.
      case fresh of
        None \<Rightarrow> Inr (ws1, [])
      | Some ws2 \<Rightarrow>
          ebind (fetch code pc VFault) (\<lambda>opcode.
          case pscalOpcodeInfo opcode of
            None \<Rightarrow> Inl VFault
          | Some info \<Rightarrow>
              ebind (pscalDecodeInstructionLength VFault code pc) (\<lambda>(len, decoded_ok).
              ebind (classifyInstruction env ch pc len info entry_sym) (\<lambda>eff.
              ebind (next_depth env pc eff (snd item)) (\<lambda>nd.
              ebind (successor_targets code pc len opcode) (\<lambda>targets.
              ebind (add_all (addSuccessor ch boundary entries ws2 walk_id pc) targets) (\<lambda>succ.
                Inr (ws2, map (\<lambda>s. (s, nd)) succ))))))))))"

definition push_item :: "nat \<Rightarrow> work_item \<Rightarrow> work_item list \<Rightarrow> work_item list" where
  "push_item cap x wl = (if length wl < cap then x # wl else wl)"

text \<open>How many visits are left: it bounds the loop, since each turn either only takes an item off
  the list or uses up a visit and pushes at most two.\<close>

definition unset :: "bool list \<Rightarrow> nat" where
  "unset bs = length (filter Not bs)"

definition visits_left :: "Walk \<Rightarrow> nat" where
  "visits_left ws = unset (wk_known ws) + unset (wk_unknown ws)"

lemma unset_update:
  assumes "i < length bs" "\<not> bs ! i" shows "unset (bs[i := True]) + 1 = unset bs"
  using assms by (induction bs arbitrary: i) (auto simp: unset_def nth_Cons split: nat.splits)

lemma add_all_length: "add_all f ts = Inr xs \<Longrightarrow> length xs = length ts"
  by (induction ts arbitrary: xs) (auto simp: result_simps)

lemma successor_targets_length: "successor_targets code pc len op = Inr ts \<Longrightarrow> length ts \<le> 2"
  by (auto simp: successor_targets_def result_simps split: if_splits)

lemma mark_visited_left:
  "mark_visited pc d ws = Inr (Some ws') \<Longrightarrow> visits_left ws' + 1 = visits_left ws"
  using unset_update [of pc "wk_known ws"] unset_update [of pc "wk_unknown ws"]
  by (auto simp: mark_visited_def visits_left_def result_simps split: option.splits if_splits)

text \<open>A step that does not fail either finds the item visited, or checks the instruction.\<close>

lemma walk_step_Inr:
  assumes "walk_step env ch b es w sy (pc, d) ws = Inr (ws', items)"
  defines "ws1 \<equiv> ws\<lparr>wk_owner := (wk_owner ws)[pc := w]\<rparr>"
  shows "pc < length (wk_owner ws)
    \<and> (mark_visited pc d ws1 = Inr None \<and> ws' = ws1 \<and> items = []
      \<or> (\<exists>info eff nd targets succ.
           mark_visited pc d ws1 = Inr (Some ws') \<and> pc < ch_count ch
           \<and> pscalOpcodeInfo (ch_code ch ! pc) = Some info
           \<and> classifyInstruction env ch pc (fst (instr_decode (ch_code ch) pc)) info sy = Inr eff
           \<and> next_depth env pc eff d = Inr nd
           \<and> successor_targets (ch_code ch) pc (fst (instr_decode (ch_code ch) pc)) (ch_code ch ! pc)
               = Inr targets
           \<and> add_all (addSuccessor ch b es ws' w pc) targets = Inr succ
           \<and> items = map (\<lambda>s. (s, nd)) succ))"
proof -
  have own: "pc < length (wk_owner ws)" using assms(1) by (auto simp: walk_step_def result_simps Let_def)
  obtain fresh where fresh: "mark_visited pc d ws1 = Inr fresh"
    using assms(1) own unfolding walk_step_def ws1_def by (auto simp: result_simps Let_def)
  show ?thesis
  proof (cases fresh)
    case None
    then show ?thesis using assms(1) own fresh unfolding walk_step_def ws1_def by (simp add: Let_def)
  next
    case (Some ws2)
    have pc: "pc < ch_count ch"
      using assms(1) own fresh Some unfolding walk_step_def ws1_def by (simp add: Let_def result_simps)
    obtain info where info: "pscalOpcodeInfo (ch_code ch ! pc) = Some info"
      using assms(1) own fresh Some pc unfolding walk_step_def ws1_def
      by (auto simp: Let_def split: option.splits)
    then show ?thesis
      using assms(1) own fresh Some pc unfolding walk_step_def ws1_def [symmetric]
      by (auto simp: Let_def ws1_def [symmetric] split_beta ebind_Inr_iff)
  qed
qed

lemma walk_step_measure:
  assumes "walk_step env ch b es w sy item ws = Inr (ws', items)"
  shows "visits_left ws' = visits_left ws \<and> items = []
       \<or> visits_left ws' + 1 = visits_left ws \<and> length items \<le> 2"
proof -
  obtain pc d where item: "item = (pc, d)" by (cases item)
  have own: "visits_left (ws\<lparr>wk_owner := o'\<rparr>) = visits_left ws" for o'
    by (simp add: visits_left_def)
  show ?thesis
    using walk_step_Inr [OF assms [unfolded item]]
    by (auto simp: own dest!: mark_visited_left add_all_length successor_targets_length)
qed

lemma length_push_items: "length (fold (push_item cap) items wl) \<le> length items + length wl"
proof (induction items arbitrary: wl)
  case (Cons x items)
  have "length (push_item cap x wl) \<le> length wl + 1" by (simp add: push_item_def)
  then show ?case using Cons.IH [of "push_item cap x wl"] by simp
qed simp

function walk_loop ::
    "VEnv \<Rightarrow> BytecodeChunk \<Rightarrow> bool list \<Rightarrow> AddrSym list \<Rightarrow> nat \<Rightarrow> nat option \<Rightarrow> nat \<Rightarrow> work_item list \<Rightarrow> Walk
     \<Rightarrow> verror + Walk" where
  "walk_loop env ch boundary entries walk_id entry_sym cap [] ws = Inr ws"
| "walk_loop env ch boundary entries walk_id entry_sym cap (item # wl) ws =
     (case walk_step env ch boundary entries walk_id entry_sym item ws of
        Inl e \<Rightarrow> Inl e
      | Inr (ws', items) \<Rightarrow>
          walk_loop env ch boundary entries walk_id entry_sym cap (fold (push_item cap) items wl) ws')"
  by pat_completeness auto
termination
proof (relation "measure (\<lambda>(env, ch, b, es, w, sy, cap, wl, ws). 3 * visits_left ws + length wl)", simp)
  fix env ch b es w sy cap item wl ws r ws' items
  assume "walk_step env ch b es w sy item ws = Inr r" "(ws', items) = r"
  then have "visits_left ws' = visits_left ws \<and> items = []
       \<or> visits_left ws' + 1 = visits_left ws \<and> length items \<le> 2"
    by (intro walk_step_measure) simp
  moreover have "length (fold (push_item cap) items wl) \<le> length items + length wl"
    by (rule length_push_items)
  ultimately show "((env, ch, b, es, w, sy, cap, fold (push_item cap) items wl, ws'),
      env, ch, b, es, w, sy, cap, item # wl, ws)
    \<in> measure (\<lambda>(env, ch, b, es, w, sy, cap, wl, ws). 3 * visits_left ws + length wl)"
    by auto
qed

definition verifyWalk ::
    "VEnv \<Rightarrow> BytecodeChunk \<Rightarrow> bool list \<Rightarrow> AddrSym list \<Rightarrow> nat \<Rightarrow> nat \<Rightarrow> Walk \<Rightarrow> verror + Walk" where
  "verifyWalk env ch boundary entries walk_id cap ws =
     ebind (fetch entries (walk_id - 1) VFault) (\<lambda>entry.
       walk_loop env ch boundary entries walk_id (as_sym entry) cap [(as_addr entry, Some 0)] ws)"

subsection \<open>All walks, and the entry point\<close>

definition thread_entries :: "VEnv \<Rightarrow> BytecodeChunk \<Rightarrow> bool list \<Rightarrow> nat list \<Rightarrow> verror + AddrSym list" where
  "thread_entries env ch boundary pcs =
     fold (\<lambda>pc acc. ebind acc (\<lambda>es.
       ebind (fetch boundary pc VFault) (\<lambda>b. if b then
         ebind (fetch (ch_code ch) pc VFault) (\<lambda>op.
           if op = OP_THREAD_CREATE then
             ebind (verifyReadU32BE (ch_code ch) (pc + 1)) (\<lambda>t.
               Inr (es @ [\<lparr>as_addr = unat t,
                 as_sym = findProcByAddress (ve_syms env) (ve_procedures env) (unat t)\<rparr>]))
           else Inr es)
       else Inr es))) pcs (Inr [])"

text \<open>Removing duplicates and addresses past the end from the sorted entries; \<open>last\<close> is the address
  kept last.\<close>

fun dedupe :: "nat \<Rightarrow> bool list \<Rightarrow> nat option \<Rightarrow> AddrSym list \<Rightarrow> verror + AddrSym list" where
  "dedupe count boundary kept [] = Inr []"
| "dedupe count boundary kept (a # as) =
     (if count \<le> as_addr a then dedupe count boundary kept as
      else ebind (fetch boundary (as_addr a) VFault) (\<lambda>b.
      if \<not> b then Inl (EntryNotBoundary (as_addr a))
      else if kept = Some (as_addr a) then dedupe count boundary kept as
      else ebind (dedupe count boundary (Some (as_addr a)) as) (\<lambda>rest. Inr (a # rest))))"

definition collect_entries :: "VEnv \<Rightarrow> BytecodeChunk \<Rightarrow> bool list \<Rightarrow> verror + AddrSym list" where
  "collect_entries env ch boundary =
     ebind (thread_entries env ch boundary [0..<ch_count ch]) (\<lambda>threads.
       dedupe (ch_count ch) boundary None
         (sort_key addr_key (\<lparr>as_addr = 0, as_sym = None\<rparr>
            # collectProcedures (ve_syms env) (ve_procedures env) @ threads)))"

definition INT_MAX :: int where
  "INT_MAX = 2147483647"

text \<open>Every entry is claimed by its own walk before any walk runs.\<close>

definition claim_entries :: "AddrSym list \<Rightarrow> nat list \<Rightarrow> verror + nat list" where
  "claim_entries entries owner =
     fold (\<lambda>i acc. ebind acc (\<lambda>owner. ebind (fetch entries i VFault) (\<lambda>a.
       store owner (as_addr a) (i + 1) VFault))) [0..<length entries] (Inr owner)"

definition run_walks ::
    "VEnv \<Rightarrow> BytecodeChunk \<Rightarrow> bool list \<Rightarrow> AddrSym list \<Rightarrow> nat \<Rightarrow> nat list \<Rightarrow> Walk \<Rightarrow> verror + Walk" where
  "run_walks env ch boundary entries cap ids ws =
     fold (\<lambda>i acc. ebind acc (verifyWalk env ch boundary entries (i + 1) cap)) ids (Inr ws)"

definition verifyStackDepths :: "VEnv \<Rightarrow> BytecodeChunk \<Rightarrow> bool list \<Rightarrow> verror + Walk" where
  "verifyStackDepths env ch boundary =
     (let count = ch_count ch in
      ebind (collect_entries env ch boundary) (\<lambda>entries.
      if INT_MAX < int (count * 4 + 8) then Inl (TooLargeToVerify count)
      else ebind (claim_entries entries (replicate count 0)) (\<lambda>owner.
        run_walks env ch boundary entries (count * 4 + 8) [0..<length entries]
             \<lparr>wk_owner = owner, wk_known = replicate count False, wk_unknown = replicate count False,
              wk_depths = replicate count 0\<rparr>)))"

definition pscalVerifyBytecodeChunk :: "VEnv \<Rightarrow> BytecodeChunk \<Rightarrow> verror + unit" where
  "pscalVerifyBytecodeChunk env ch =
     (if ch_count ch = 0 then Inr ()
      else
        ebind (verifyInstructionStream ch) (\<lambda>boundary.
        ethen (verifyOperands ch boundary)
        (ethen (verifyUpvaluesInTable (ve_syms env) (ve_procedures env))
           (ebind (verifyStackDepths env ch boundary) (\<lambda>ws. Inr ())))))"

subsection \<open>Reads of the third pass\<close>

text \<open>The trailing arity byte and the operands the classification reads are inside an instruction
  whose length pass 1 has checked.\<close>

lemma call_lengths:
  "list_all (\<lambda>(op, n). case pscalOpcodeInfo op of None \<Rightarrow> False
     | Some info \<Rightarrow> pscalOpcodeOperandSpecLength (oi_operands info) = Some n)
   [(OP_GET_ELEMENT_ADDRESS, 1), (OP_LOAD_ELEMENT_VALUE, 1), (OP_CALL_BUILTIN_PROC, 5), (OP_CALL_BUILTIN, 3),
    (OP_CALL_USER_PROC, 3), (OP_CALL, 7), (OP_CALL_INDIRECT, 1), (OP_CALL_METHOD, 2), (OP_PROC_CALL_INDIRECT, 1),
    (OP_JUMP, 4), (OP_JUMP_IF_FALSE, 4), (OP_THREAD_CREATE, 4)]"
  by code_simp

lemma call_len:
  assumes "instr_decode code pc = (len, True)" "(code ! pc, n) \<in> set
   [(OP_GET_ELEMENT_ADDRESS, 1), (OP_LOAD_ELEMENT_VALUE, 1), (OP_CALL_BUILTIN_PROC, 5), (OP_CALL_BUILTIN, 3),
    (OP_CALL_USER_PROC, 3), (OP_CALL, 7), (OP_CALL_INDIRECT, 1), (OP_CALL_METHOD, 2), (OP_PROC_CALL_INDIRECT, 1),
    (OP_JUMP, 4), (OP_JUMP_IF_FALSE, 4), (OP_THREAD_CREATE, 4)]"
  shows "len = 1 + n"
proof -
  obtain info where i: "pscalOpcodeInfo (code ! pc) = Some info"
    "pscalOpcodeOperandSpecLength (oi_operands info) = Some n"
    using call_lengths assms(2) by (fastforce simp: list_all_iff split: option.splits)
  have "\<not> define_opcode (code ! pc)" "\<not> array_opcode (code ! pc)"
    using assms(2) by (auto simp: define_opcode_def array_opcode_def)
  then show ?thesis using fixed_len [OF assms(1) i(1)] i(2) by auto
qed

lemma classify_no_fault:
  assumes d: "instr_decode (ch_code ch) pc = (len, True)" and fit: "pc + len \<le> ch_count ch"
  shows "classifyInstruction env ch pc len info sy \<noteq> Inl VFault"
proof -
  let ?code = "ch_code ch"
  let ?op = "?code ! pc"
  have pc: "pc < ch_count ch" using d by (simp add: instr_decode_trusted)
  have last: "pc + len - 1 < ch_count ch" using fit instr_decode_len_pos [OF d] by simp
  have b1: "?op \<in> {OP_GET_ELEMENT_ADDRESS, OP_LOAD_ELEMENT_VALUE, OP_CALL_INDIRECT, OP_CALL_METHOD,
      OP_PROC_CALL_INDIRECT} \<Longrightarrow> pc + 1 < ch_count ch"
    using call_len [OF d, of 1] call_len [OF d, of 2] fit by auto
  have b2: "?op \<in> {OP_CALL_METHOD, OP_CALL_BUILTIN, OP_CALL_USER_PROC} \<Longrightarrow> pc + 2 < ch_count ch"
    using call_len [OF d, of 2] call_len [OF d, of 3] fit by auto
  have b6: "?op = OP_CALL \<Longrightarrow> pc + 6 < ch_count ch"
    using call_len [OF d, of 7] fit by auto
  have u16: "pc + 2 < ch_count ch \<Longrightarrow> verifyReadU16BE ?code (pc + 1) \<noteq> Inl VFault"
    by (simp add: verifyRead_in_range)
  have u32: "pc + 6 < ch_count ch \<Longrightarrow> verifyReadU32BE ?code (pc + 3) \<noteq> Inl VFault"
    by (simp add: verifyRead_in_range)
  have arr: "array_opcode ?op \<Longrightarrow> walkVariablePayload ch pc \<noteq> Inl VFault"
    using walkVariablePayload_spec(1) [OF d fit] by blast
  show ?thesis
    using pc last b1 b2 b6 u16 u32 arr
    unfolding classifyInstruction_def Let_def
    by (auto simp: result_simps const_string_eq array_opcode_def split: if_splits)
qed

end
