(* ===== verification/VerifierSound.thy ===== *)
theory VerifierSound
  imports VerifierWalk
begin

section \<open>Soundness of the stack-depth pass\<close>

text \<open>
  What the third pass establishes. \<open>reach\<close> is the abstract execution of one frame from an entry, by the verifier's
  own effects: it follows every edge of the control flow and tracks the operand-stack depth as long as it is known.
  On an accepted chunk every reached instruction starts at a boundary, finds the operands the effect requires, keeps
  the depth within the ceiling, and passes control only to instructions of the same routine. That these effects are
  those of the interpreter is the subject of \<open>VmStack\<close>.
\<close>

definition effect_at :: "VEnv \<Rightarrow> BytecodeChunk \<Rightarrow> nat option \<Rightarrow> nat \<Rightarrow> Effect option" where
  "effect_at env ch sy pc =
     (case pscalOpcodeInfo (ch_code ch ! pc) of
        None \<Rightarrow> None
      | Some info \<Rightarrow>
          (case classifyInstruction env ch pc (fst (instr_decode (ch_code ch) pc)) info sy of
             Inl e \<Rightarrow> None | Inr eff \<Rightarrow> Some eff))"

definition succs_at :: "BytecodeChunk \<Rightarrow> nat \<Rightarrow> int list" where
  "succs_at ch pc =
     (case successor_targets (ch_code ch) pc (fst (instr_decode (ch_code ch) pc)) (ch_code ch ! pc) of
        Inl e \<Rightarrow> [] | Inr ts \<Rightarrow> ts)"

definition depth_after :: "Effect \<Rightarrow> int option \<Rightarrow> int option" where
  "depth_after eff d =
     (case d of None \<Rightarrow> None | Some v \<Rightarrow> if ef_unknown_after eff then None else Some (v + ef_delta eff))"

inductive reach :: "VEnv \<Rightarrow> BytecodeChunk \<Rightarrow> AddrSym \<Rightarrow> nat \<Rightarrow> int option \<Rightarrow> bool" for env ch a where
  entry: "reach env ch a (as_addr a) (Some 0)"
| flow: "reach env ch a pc d \<Longrightarrow> effect_at env ch (as_sym a) pc = Some eff \<Longrightarrow> t \<in> set (succs_at ch pc) \<Longrightarrow>
    reach env ch a (nat t) (depth_after eff d)"

text \<open>What the effect of an instruction requires at depth \<open>d\<close>.\<close>

definition instr_safe :: "VEnv \<Rightarrow> BytecodeChunk \<Rightarrow> nat option \<Rightarrow> nat \<Rightarrow> int option \<Rightarrow> bool" where
  "instr_safe env ch sy pc d \<longleftrightarrow> pc < ch_count ch \<and> instr_start (ch_code ch) pc \<and>
     (\<exists>eff. effect_at env ch sy pc = Some eff \<and>
        (\<forall>v. d = Some v \<longrightarrow> ef_req eff \<le> v \<and>
           (\<not> ef_unknown_after eff \<longrightarrow>
              0 \<le> v + ef_delta eff \<and> v + ef_delta eff \<le> int (ve_stack_ceiling env)))) \<and>
     (\<forall>t \<in> set (succs_at ch pc). code_target ch t)"

subsection \<open>The invariant of the worklist\<close>

definition marked :: "Walk \<Rightarrow> nat \<Rightarrow> int option \<Rightarrow> bool" where
  "marked ws p d \<longleftrightarrow> (case d of None \<Rightarrow> wk_unknown ws ! p | Some v \<Rightarrow> wk_known ws ! p \<and> wk_depths ws ! p = v)"

definition sized :: "nat \<Rightarrow> Walk \<Rightarrow> bool" where
  "sized n ws \<longleftrightarrow> length (wk_owner ws) = n \<and> length (wk_known ws) = n \<and> length (wk_unknown ws) = n
     \<and> length (wk_depths ws) = n"

text \<open>A visited item has been checked, and each of its successors is visited in this walk or waits.\<close>

definition item_done ::
    "VEnv \<Rightarrow> BytecodeChunk \<Rightarrow> bool list \<Rightarrow> nat option \<Rightarrow> nat \<Rightarrow> Walk \<Rightarrow> work_item list \<Rightarrow> nat \<Rightarrow> int option \<Rightarrow> bool" where
  "item_done env ch b sy w ws wl p d \<longleftrightarrow>
     (\<exists>eff nd. effect_at env ch sy p = Some eff \<and> next_depth env p eff d = Inr nd \<and>
        (\<forall>t \<in> set (succs_at ch p). 0 \<le> t \<and> t < int (ch_count ch) \<and> b ! nat t \<and>
           (marked ws (nat t) nd \<and> wk_owner ws ! nat t = w \<or> (nat t, nd) \<in> set wl)))"

definition walk_inv ::
    "VEnv \<Rightarrow> BytecodeChunk \<Rightarrow> bool list \<Rightarrow> nat option \<Rightarrow> nat \<Rightarrow> Walk \<Rightarrow> work_item list \<Rightarrow> bool" where
  "walk_inv env ch b sy w ws wl \<longleftrightarrow> sized (ch_count ch) ws \<and>
     (\<forall>(p, d) \<in> set wl. p < ch_count ch \<and> b ! p \<and> wk_owner ws ! p \<in> {0, w}) \<and>
     (\<forall>p < ch_count ch. \<forall>d. marked ws p d \<longrightarrow> wk_owner ws ! p \<noteq> 0 \<and>
        (wk_owner ws ! p = w \<longrightarrow> b ! p \<and> item_done env ch b sy w ws wl p d))"

text \<open>What a walk leaves alone: other walks' instructions and marks; nothing is ever unmarked.\<close>

definition frame_at :: "nat \<Rightarrow> Walk \<Rightarrow> Walk \<Rightarrow> nat \<Rightarrow> bool" where
  "frame_at w ws ws' p \<longleftrightarrow>
     (if wk_owner ws ! p \<in> {0, w} then wk_owner ws' ! p \<in> {wk_owner ws ! p, w}
      else wk_owner ws' ! p = wk_owner ws ! p \<and> (\<forall>d. marked ws' p d \<longrightarrow> marked ws p d)) \<and>
     (\<forall>d. marked ws p d \<longrightarrow> marked ws' p d)"

definition walk_frame :: "nat \<Rightarrow> nat \<Rightarrow> Walk \<Rightarrow> Walk \<Rightarrow> bool" where
  "walk_frame n w ws ws' \<longleftrightarrow> (\<forall>p < n. frame_at w ws ws' p)"

lemma walk_frame_refl: "walk_frame n w ws ws"
  by (simp add: walk_frame_def frame_at_def)

lemma frame_at_trans:
  assumes a: "frame_at w ws ws' p" and b: "frame_at w ws' ws'' p" shows "frame_at w ws ws'' p"
proof (cases "wk_owner ws ! p \<in> {0, w}")
  case True
  then have 1: "wk_owner ws' ! p \<in> {wk_owner ws ! p, w}" using a unfolding frame_at_def by presburger
  then have "wk_owner ws' ! p \<in> {0, w}" using True by auto
  then have "wk_owner ws'' ! p \<in> {wk_owner ws' ! p, w}" using b unfolding frame_at_def by presburger
  then have "wk_owner ws'' ! p \<in> {wk_owner ws ! p, w}" using 1 by auto
  moreover have "\<forall>d. marked ws p d \<longrightarrow> marked ws'' p d" using a b unfolding frame_at_def by blast
  ultimately show ?thesis using True unfolding frame_at_def by presburger
next
  case False
  then have 1: "wk_owner ws' ! p = wk_owner ws ! p" "\<forall>d. marked ws' p d \<longrightarrow> marked ws p d"
    using a unfolding frame_at_def by presburger+
  then have 2: "wk_owner ws'' ! p = wk_owner ws' ! p" "\<forall>d. marked ws'' p d \<longrightarrow> marked ws' p d"
    using b False unfolding frame_at_def by presburger+
  have "\<forall>d. marked ws p d \<longrightarrow> marked ws'' p d" using a b unfolding frame_at_def by blast
  then show ?thesis using False 1 2 unfolding frame_at_def by presburger
qed

lemma walk_frame_trans: "walk_frame n w ws ws' \<Longrightarrow> walk_frame n w ws' ws'' \<Longrightarrow> walk_frame n w ws ws''"
  unfolding walk_frame_def by (blast intro: frame_at_trans)

lemma push_items_fit:
  "length items + length wl \<le> cap \<Longrightarrow> fold (push_item cap) items wl = rev items @ wl"
  by (induction items arbitrary: wl) (auto simp: push_item_def)

lemma mark_visited_None:
  "mark_visited p d ws = Inr None \<Longrightarrow> marked ws p d"
  by (auto simp: mark_visited_def marked_def result_simps split: option.splits if_splits)

lemma mark_visited_Some:
  assumes "mark_visited p d ws = Inr (Some ws')" "sized n ws"
  shows "p < n \<and> sized n ws' \<and> wk_owner ws' = wk_owner ws
    \<and> (\<forall>q e. q < n \<longrightarrow> marked ws' q e \<longleftrightarrow> marked ws q e \<or> q = p \<and> e = d)"
proof (cases d)
  case None
  then show ?thesis
    using assms by (auto simp: mark_visited_def marked_def sized_def result_simps nth_list_update split: option.splits if_splits)
next
  case (Some v)
  then have *: "p < n" "\<not> wk_known ws ! p"
    "ws' = ws\<lparr>wk_known := (wk_known ws)[p := True], wk_depths := (wk_depths ws)[p := v]\<rparr>"
    using assms by (auto simp: mark_visited_def sized_def result_simps split: if_splits)
  have "marked ws' q e \<longleftrightarrow> marked ws q e \<or> q = p \<and> e = d" if "q < n" for q e
    using * assms(2) that Some by (cases e) (auto simp: marked_def sized_def nth_list_update)
  then show ?thesis using * assms(2) by (simp add: sized_def)
qed

lemma add_all_Inr:
  "add_all f ts = Inr xs \<Longrightarrow> length xs = length ts \<and> (\<forall>i < length ts. f (ts ! i) = Inr (xs ! i))"
proof (induction ts arbitrary: xs)
  case (Cons t ts)
  then obtain y ys where "xs = y # ys" "f t = Inr y" "add_all f ts = Inr ys"
    by (auto simp: result_simps)
  then show ?case using Cons.IH [of ys] by (auto simp: nth_Cons split: nat.splits)
qed simp

lemma addSuccessor_Inr:
  "addSuccessor ch b es ws w pc t = Inr x \<Longrightarrow>
   0 \<le> t \<and> t < int (ch_count ch) \<and> b ! nat t \<and> x = nat t \<and> wk_owner ws ! nat t \<in> {0, w}"
  by (auto simp: addSuccessor_def result_simps split: if_splits)

lemma walk_step_inv:
  assumes inv: "walk_inv env ch b sy w ws ((pc, d) # wl)" and w: "w \<noteq> 0"
    and step: "walk_step env ch b es w sy (pc, d) ws = Inr (ws', items)"
  shows "walk_inv env ch b sy w ws' (rev items @ wl)" and "walk_frame (ch_count ch) w ws ws'"
    and "marked ws' pc d \<and> wk_owner ws' ! pc = w"
proof -
  let ?n = "ch_count ch"
  define ws1 where "ws1 = ws\<lparr>wk_owner := (wk_owner ws)[pc := w]\<rparr>"
  have sz: "sized ?n ws" and pc: "pc < ?n" "b ! pc" "wk_owner ws ! pc \<in> {0, w}"
    and wl: "\<And>p e. (p, e) \<in> set wl \<Longrightarrow> p < ?n \<and> b ! p \<and> wk_owner ws ! p \<in> {0, w}"
    and mk: "\<And>p e. p < ?n \<Longrightarrow> marked ws p e \<Longrightarrow> wk_owner ws ! p \<noteq> 0"
    and dn: "\<And>p e. p < ?n \<Longrightarrow> marked ws p e \<Longrightarrow> wk_owner ws ! p = w \<Longrightarrow>
               b ! p \<and> item_done env ch b sy w ws ((pc, d) # wl) p e"
    using inv by (auto simp: walk_inv_def)
  have sz1: "sized ?n ws1" using sz by (simp add: sized_def ws1_def)
  have own1: "wk_owner ws1 ! p = (if p = pc then w else wk_owner ws ! p)" if "p < ?n" for p
    using sz that by (auto simp: ws1_def sized_def nth_list_update)
  have mk1: "marked ws1 p e = marked ws p e" for p e
    by (simp add: marked_def ws1_def split: option.splits)
  note sp = walk_step_Inr [OF step]
  have "walk_inv env ch b sy w ws' (rev items @ wl) \<and> walk_frame ?n w ws ws' \<and> marked ws' pc d
      \<and> wk_owner ws' ! pc = w"
  proof (cases "mark_visited pc d ws1 = Inr None")
    case True
    then have same: "ws' = ws1" "items = []" using sp by (auto simp: ws1_def)
    have m: "marked ws1 pc d" using True by (rule mark_visited_None)
    have ow: "wk_owner ws ! pc = w" using mk [OF pc(1), of d] m pc(3) by (auto simp: mk1)
    have own_eq: "wk_owner ws1 ! p = wk_owner ws ! p" if "p < ?n" for p using own1 [OF that] ow by simp
    have "item_done env ch b sy w ws1 wl p e" if "item_done env ch b sy w ws ((pc, d) # wl) p e" for p e
      using that m ow own_eq unfolding item_done_def mk1
      by (fastforce simp: nat_less_iff)
    then have old: "\<And>p e. p < ?n \<Longrightarrow> marked ws p e \<Longrightarrow> wk_owner ws ! p = w \<Longrightarrow>
        b ! p \<and> item_done env ch b sy w ws1 wl p e" using dn by blast
    have "\<forall>(p, e) \<in> set wl. p < ?n \<and> b ! p \<and> wk_owner ws1 ! p \<in> {0, w}"
    proof (intro ballI, clarify)
      fix p e assume "(p, e) \<in> set wl"
      from wl [OF this] show "p < ?n \<and> b ! p \<and> wk_owner ws1 ! p \<in> {0, w}" using own_eq [of p] by simp
    qed
    then have "walk_inv env ch b sy w ws1 wl"
      using sz1 mk old own_eq unfolding walk_inv_def mk1 by auto
    moreover have "walk_frame ?n w ws ws1" by (simp add: walk_frame_def frame_at_def mk1 own_eq)
    ultimately show ?thesis using same m ow own_eq [OF pc(1)] by simp
  next
    case False
    then obtain info eff nd targets succ where mv: "mark_visited pc d ws1 = Inr (Some ws')"
      and info: "pscalOpcodeInfo (ch_code ch ! pc) = Some info"
      and eff: "classifyInstruction env ch pc (fst (instr_decode (ch_code ch) pc)) info sy = Inr eff"
      and nd: "next_depth env pc eff d = Inr nd"
      and ts: "successor_targets (ch_code ch) pc (fst (instr_decode (ch_code ch) pc)) (ch_code ch ! pc) = Inr targets"
      and succ: "add_all (addSuccessor ch b es ws' w pc) targets = Inr succ"
      and items: "items = map (\<lambda>s. (s, nd)) succ"
      using sp by (auto simp: ws1_def)
    have mv': "sized ?n ws'" "wk_owner ws' = wk_owner ws1"
      "\<And>q e. q < ?n \<Longrightarrow> marked ws' q e \<longleftrightarrow> marked ws q e \<or> q = pc \<and> e = d"
      using mark_visited_Some [OF mv sz1] by (auto simp: mk1)
    have ea: "effect_at env ch sy pc = Some eff" using info eff by (simp add: effect_at_def)
    have sa: "succs_at ch pc = targets" using ts by (simp add: succs_at_def)
    have each: "0 \<le> t \<and> t < int ?n \<and> b ! nat t \<and> (nat t, nd) \<in> set items \<and> wk_owner ws' ! nat t \<in> {0, w}"
      if t: "t \<in> set targets" for t
    proof -
      obtain i where i: "i < length targets" "targets ! i = t" using t by (auto simp: in_set_conv_nth)
      then have "addSuccessor ch b es ws' w pc t = Inr (succ ! i)" "i < length succ"
        using add_all_Inr [OF succ] by auto
      moreover from this have "(succ ! i, nd) \<in> set items" unfolding items by auto
      ultimately show ?thesis using addSuccessor_Inr [of ch b es ws' w pc t "succ ! i"] by simp
    qed
    have item_ok: "p < ?n \<and> b ! p \<and> wk_owner ws' ! p \<in> {0, w}" if pe: "(p, e) \<in> set items" for p e
    proof -
      obtain i where "i < length succ" "p = succ ! i" using pe items by (auto simp: in_set_conv_nth)
      then have "addSuccessor ch b es ws' w pc (targets ! i) = Inr p"
        using add_all_Inr [OF succ] by auto
      then show ?thesis using addSuccessor_Inr [of ch b es ws' w pc "targets ! i" p] by (auto simp: nat_less_iff)
    qed
    have own': "wk_owner ws' ! p = (if p = pc then w else wk_owner ws ! p)" if "p < ?n" for p
      using own1 [OF that] mv'(2) by simp
    have new: "item_done env ch b sy w ws' (rev items @ wl) pc d"
      unfolding item_done_def using ea nd sa each by (intro exI [of _ eff] exI [of _ nd]) auto
    have old: "item_done env ch b sy w ws' (rev items @ wl) p e"
      if it: "item_done env ch b sy w ws ((pc, d) # wl) p e" for p e
    proof -
      obtain eff' nd' where e: "effect_at env ch sy p = Some eff'" "next_depth env p eff' e = Inr nd'"
        and t: "\<And>t. t \<in> set (succs_at ch p) \<Longrightarrow> 0 \<le> t \<and> t < int ?n \<and> b ! nat t \<and>
           (marked ws (nat t) nd' \<and> wk_owner ws ! nat t = w \<or> (nat t, nd') \<in> set ((pc, d) # wl))"
        using it unfolding item_done_def by blast
      have "marked ws' (nat t) nd' \<and> wk_owner ws' ! nat t = w \<or> (nat t, nd') \<in> set (rev items @ wl)"
        if "t \<in> set (succs_at ch p)" for t
        using t [OF that] mv'(3) [of "nat t" nd'] own' [of "nat t"] by auto
      then show ?thesis unfolding item_done_def using e t by blast
    qed
    have "walk_inv env ch b sy w ws' (rev items @ wl)"
      unfolding walk_inv_def
    proof (intro conjI allI impI)
      show "sized ?n ws'" by (rule mv'(1))
      show "\<forall>(p, d) \<in> set (rev items @ wl). p < ?n \<and> b ! p \<and> wk_owner ws' ! p \<in> {0, w}"
      proof (intro ballI, clarify)
        fix p e assume pe: "(p, e) \<in> set (rev items @ wl)"
        show "p < ?n \<and> b ! p \<and> wk_owner ws' ! p \<in> {0, w}"
          using pe item_ok [of p e] wl [of p e] own' [of p] by auto
      qed
      fix p e assume p: "p < ?n" "marked ws' p e"
      show "wk_owner ws' ! p \<noteq> 0" using mv'(3) [OF p(1)] p mk [OF p(1)] own' [OF p(1)] w by auto
      assume ow: "wk_owner ws' ! p = w"
      show "b ! p" "item_done env ch b sy w ws' (rev items @ wl) p e"
        using mv'(3) [OF p(1), of e] p ow own' [OF p(1)] dn [OF p(1), of e] mk [OF p(1), of e] old new pc
        by (auto split: if_splits)
    qed
    moreover have "walk_frame ?n w ws ws'"
      unfolding walk_frame_def frame_at_def using own' mv'(3) pc(3) by auto
    ultimately show ?thesis using mv'(3) [OF pc(1), of d] own' [OF pc(1)] by simp
  qed
  then show "walk_inv env ch b sy w ws' (rev items @ wl)" and "walk_frame ?n w ws ws'"
    and "marked ws' pc d \<and> wk_owner ws' ! pc = w" by simp_all
qed

text \<open>A whole walk, as long as the worklist has room for two items per visit that is left.\<close>

lemma walk_loop_inv:
  assumes "walk_loop env ch b es w sy cap wl ws = Inr ws'" "walk_inv env ch b sy w ws wl"
    "length wl + 2 * visits_left ws \<le> cap" "w \<noteq> 0"
  shows "walk_inv env ch b sy w ws' [] \<and> walk_frame (ch_count ch) w ws ws' \<and>
    (\<forall>(p, d) \<in> set wl. marked ws' p d \<and> wk_owner ws' ! p = w) \<and> visits_left ws' \<le> visits_left ws"
  using assms
proof (induction env ch b es w sy cap wl ws rule: walk_loop.induct)
  case (1 env ch b es w sy cap ws)
  then show ?case by (simp add: walk_frame_refl)
next
  case (2 env ch b es w sy cap item wl ws)
  obtain pc d where item: "item = (pc, d)" by (cases item)
  obtain ws1 items where step: "walk_step env ch b es w sy (pc, d) ws = Inr (ws1, items)"
    and rest: "walk_loop env ch b es w sy cap (fold (push_item cap) items wl) ws1 = Inr ws'"
    using "2.prems"(1) item by (auto split: sum.splits)
  note m = walk_step_measure [OF step]
  have fit: "length items + length wl \<le> cap" "length (rev items @ wl) + 2 * visits_left ws1 \<le> cap"
    using m "2.prems"(3) by auto
  have push: "fold (push_item cap) items wl = rev items @ wl" by (rule push_items_fit [OF fit(1)])
  note si = walk_step_inv [OF "2.prems"(2) [unfolded item] "2.prems"(4) step]
  have ih: "walk_inv env ch b sy w ws' [] \<and> walk_frame (ch_count ch) w ws1 ws' \<and>
    (\<forall>(p, d) \<in> set (rev items @ wl). marked ws' p d \<and> wk_owner ws' ! p = w) \<and>
    visits_left ws' \<le> visits_left ws1"
    using "2.IH" [of "(ws1, items)" ws1 items] step item rest si(1) fit(2) "2.prems"(4) push by simp
  have pc: "pc < ch_count ch" using "2.prems"(2) item by (simp add: walk_inv_def)
  have "frame_at w ws1 ws' pc" using ih pc by (simp add: walk_frame_def)
  then have "marked ws' pc d \<and> wk_owner ws' ! pc = w" using si(3) by (auto simp: frame_at_def)
  moreover have "walk_frame (ch_count ch) w ws ws'"
    using walk_frame_trans [OF si(2)] ih by blast
  ultimately show ?case using ih m item by auto
qed

subsection \<open>All walks\<close>

text \<open>After the first \<open>k\<close> walks: every mark belongs to one of them, each is closed under the control
  flow, and every entry is still claimed by its own walk.\<close>

definition walks_inv :: "VEnv \<Rightarrow> BytecodeChunk \<Rightarrow> bool list \<Rightarrow> AddrSym list \<Rightarrow> nat \<Rightarrow> Walk \<Rightarrow> bool" where
  "walks_inv env ch b es k ws \<longleftrightarrow> sized (ch_count ch) ws \<and>
     (\<forall>p < ch_count ch. \<forall>d. marked ws p d \<longrightarrow> 0 < wk_owner ws ! p \<and> wk_owner ws ! p \<le> k \<and>
        b ! p \<and> item_done env ch b (as_sym (es ! (wk_owner ws ! p - 1))) (wk_owner ws ! p) ws [] p d) \<and>
     (\<forall>i < length es. wk_owner ws ! as_addr (es ! i) = i + 1) \<and>
     (\<forall>i < k. marked ws (as_addr (es ! i)) (Some 0))"

lemma item_done_frame:
  assumes "item_done env ch b sy w' ws [] p d" "walk_frame (ch_count ch) w ws ws'" "w' \<noteq> 0" "w' \<noteq> w"
  shows "item_done env ch b sy w' ws' [] p d"
proof -
  obtain eff nd where e: "effect_at env ch sy p = Some eff" "next_depth env p eff d = Inr nd"
    and t: "\<And>t. t \<in> set (succs_at ch p) \<Longrightarrow> 0 \<le> t \<and> t < int (ch_count ch) \<and> b ! nat t \<and>
       marked ws (nat t) nd \<and> wk_owner ws ! nat t = w'"
    using assms(1) by (auto simp: item_done_def)
  have "marked ws' (nat t) nd \<and> wk_owner ws' ! nat t = w'" if ts: "t \<in> set (succs_at ch p)" for t
  proof -
    have "frame_at w ws ws' (nat t)" using assms(2) t [OF ts] by (auto simp: walk_frame_def nat_less_iff)
    then show ?thesis using t [OF ts] assms(3,4) by (auto simp: frame_at_def)
  qed
  then show ?thesis unfolding item_done_def using e t by auto
qed

lemma run_walk_inv:
  assumes inv: "walks_inv env ch b es k ws" and k: "k < length es"
    and entries: "\<And>a. a \<in> set es \<Longrightarrow> as_addr a < ch_count ch \<and> b ! as_addr a"
    and cap: "1 + 2 * visits_left ws \<le> cap"
    and run: "verifyWalk env ch b es (k + 1) cap ws = Inr ws'"
  shows "walks_inv env ch b es (k + 1) ws' \<and> visits_left ws' \<le> visits_left ws"
proof -
  let ?n = "ch_count ch" and ?a = "es ! k" and ?w = "k + 1"
  have sz: "sized ?n ws" and own: "\<And>i. i < length es \<Longrightarrow> wk_owner ws ! as_addr (es ! i) = i + 1"
    and mk: "\<And>p d. p < ?n \<Longrightarrow> marked ws p d \<Longrightarrow> 0 < wk_owner ws ! p \<and> wk_owner ws ! p \<le> k \<and>
        b ! p \<and> item_done env ch b (as_sym (es ! (wk_owner ws ! p - 1))) (wk_owner ws ! p) ws [] p d"
    and em: "\<And>i. i < k \<Longrightarrow> marked ws (as_addr (es ! i)) (Some 0)"
    using inv by (auto simp: walks_inv_def)
  have addr: "as_addr (es ! i) < ?n" "b ! as_addr (es ! i)" if "i < length es" for i
    using entries [of "es ! i"] that by simp_all
  have loop: "walk_loop env ch b es ?w (as_sym ?a) cap [(as_addr ?a, Some 0)] ws = Inr ws'"
    using run k by (simp add: verifyWalk_def)
  have "walk_inv env ch b (as_sym ?a) ?w ws [(as_addr ?a, Some 0)]"
    using sz mk addr [OF k] own [OF k] by (auto simp: walk_inv_def) (metis Suc_n_not_le_n)+
  note li = walk_loop_inv [OF loop this] cap
  then have post: "walk_inv env ch b (as_sym ?a) ?w ws' []" "walk_frame ?n ?w ws ws'"
    "marked ws' (as_addr ?a) (Some 0)" "visits_left ws' \<le> visits_left ws" by auto
  have fr: "frame_at ?w ws ws' p" if "p < ?n" for p using post(2) that by (simp add: walk_frame_def)
  have "0 < wk_owner ws' ! p \<and> wk_owner ws' ! p \<le> k + 1 \<and> b ! p \<and>
      item_done env ch b (as_sym (es ! (wk_owner ws' ! p - 1))) (wk_owner ws' ! p) ws' [] p d"
    if p: "p < ?n" "marked ws' p d" for p d
  proof (cases "wk_owner ws' ! p = ?w")
    case True
    then show ?thesis using post(1) p by (auto simp: walk_inv_def)
  next
    case False
    have nz: "wk_owner ws' ! p \<noteq> 0" using post(1) p by (auto simp: walk_inv_def)
    then have same: "wk_owner ws ! p = wk_owner ws' ! p" "wk_owner ws ! p \<notin> {0, ?w}"
      using fr [OF p(1)] False by (auto simp: frame_at_def split: if_splits)
    then have "marked ws p d" using fr [OF p(1)] p(2) by (simp add: frame_at_def)
    from mk [OF p(1) this] show ?thesis
      using item_done_frame [OF _ post(2) nz False] same(1) by auto
  qed
  moreover have "wk_owner ws' ! as_addr (es ! i) = i + 1" if "i < length es" for i
    using fr [OF addr(1) [OF that]] own [OF that] by (auto simp: frame_at_def split: if_splits)
  moreover have "marked ws' (as_addr (es ! i)) (Some 0)" if "i < k + 1" for i
    using fr [OF addr(1), of i] em [of i] that k post(3) by (cases "i = k") (auto simp: frame_at_def)
  ultimately show ?thesis
    using post(1,4) by (simp add: walks_inv_def walk_inv_def)
qed

subsection \<open>The entries\<close>

lemma addr_key_le: "addr_key a \<le> addr_key x \<Longrightarrow> as_addr a \<le> as_addr x"
  by (auto simp: addr_key_def split: if_splits)

lemma sorted_addr: "sorted (map addr_key as) \<Longrightarrow> sorted (map as_addr as)"
  by (induction "as") (auto intro: addr_key_le)

lemma dedupe_spec:
  assumes "dedupe n b kept as = Inr r" "sorted (map as_addr as)"
    "\<And>k a. kept = Some k \<Longrightarrow> a \<in> set as \<Longrightarrow> k \<le> as_addr a"
  shows "distinct (map as_addr r) \<and> set r \<subseteq> set as \<and>
    (\<forall>a \<in> set r. as_addr a < n \<and> b ! as_addr a \<and> kept \<noteq> Some (as_addr a)) \<and>
    (\<forall>a \<in> set as. as_addr a < n \<longrightarrow> b ! as_addr a \<and> (kept = Some (as_addr a) \<or> as_addr a \<in> as_addr ` set r))"
  using assms
proof (induction n b kept as arbitrary: r rule: dedupe.induct)
  case (2 n b kept a as)
  have srt: "sorted (map as_addr as)" "\<forall>x \<in> set as. as_addr a \<le> as_addr x" using "2.prems"(2) by auto
  show ?case
  proof (cases "n \<le> as_addr a")
    case True
    then show ?thesis using "2.IH"(1) [OF True, of r] "2.prems" srt by fastforce
  next
    case False
    then have b: "b ! as_addr a" "as_addr a < length b"
      using "2.prems"(1) by (auto simp: result_simps split: if_splits)
    have fb: "fetch b (as_addr a) VFault = Inr True" using b by simp
    show ?thesis
    proof (cases "kept = Some (as_addr a)")
      case True
      then have "dedupe n b kept as = Inr r" using "2.prems"(1) False b by simp
      then show ?thesis using "2.IH"(2) [OF False fb _ True, of r] "2.prems"(3) b srt True by fastforce
    next
      case neq: False
      then obtain r' where r': "dedupe n b (Some (as_addr a)) as = Inr r'" "r = a # r'"
        using "2.prems"(1) False b by (auto simp: result_simps)
      have ih: "distinct (map as_addr r') \<and> set r' \<subseteq> set as \<and>
        (\<forall>x \<in> set r'. as_addr x < n \<and> b ! as_addr x \<and> Some (as_addr a) \<noteq> Some (as_addr x)) \<and>
        (\<forall>x \<in> set as. as_addr x < n \<longrightarrow> b ! as_addr x \<and>
           (Some (as_addr a) = Some (as_addr x) \<or> as_addr x \<in> as_addr ` set r'))"
        by (rule "2.IH"(3) [OF False fb]) (use b neq r' srt in auto)
      have "kept \<noteq> Some (as_addr x)" if "x \<in> set r'" for x
      proof
        assume k: "kept = Some (as_addr x)"
        have "as_addr x \<le> as_addr a" using "2.prems"(3) [OF k, of a] by simp
        moreover have "as_addr a \<le> as_addr x" using srt(2) ih that by auto
        ultimately show False using ih that by auto
      qed
      then show ?thesis using ih r' False b neq by auto
    qed
  qed
qed simp

definition claimed :: "AddrSym list \<Rightarrow> nat list \<Rightarrow> nat list" where
  "claimed es owner = fold (\<lambda>i owner. owner[as_addr (es ! i) := i + 1]) [0..<length es] owner"

lemma claim_entries_eq:
  assumes "\<forall>a \<in> set es. as_addr a < length owner"
  shows "claim_entries es owner = Inr (claimed es owner)"
proof -
  have "m \<le> length es \<Longrightarrow>
    length (fold (\<lambda>i owner. owner[as_addr (es ! i) := i + 1]) [0..<m] owner) = length owner \<and>
    fold (\<lambda>i acc. ebind acc (\<lambda>owner. ebind (fetch es i VFault) (\<lambda>a. store owner (as_addr a) (i + 1) VFault)))
      [0..<m] (Inr owner) = Inr (fold (\<lambda>i owner. owner[as_addr (es ! i) := i + 1]) [0..<m] owner)" for m
    by (induction m) (use assms in \<open>auto simp: nth_mem\<close>)
  then show ?thesis by (simp add: claim_entries_def claimed_def)
qed

lemma fold_claim:
  assumes "distinct (map as_addr es)" "\<forall>a \<in> set es. as_addr a < length owner" "m \<le> length es"
  shows "length (fold (\<lambda>i owner. owner[as_addr (es ! i) := i + 1]) [0..<m] owner) = length owner
    \<and> (\<forall>i < m. fold (\<lambda>i owner. owner[as_addr (es ! i) := i + 1]) [0..<m] owner ! as_addr (es ! i) = i + 1)"
  using assms(3)
proof (induction m)
  case (Suc m)
  have "\<forall>i < m. as_addr (es ! i) \<noteq> as_addr (es ! m)"
  proof (intro allI impI)
    fix i assume "i < m"
    then show "as_addr (es ! i) \<noteq> as_addr (es ! m)"
      using assms(1) Suc.prems nth_eq_iff_index_eq [of "map as_addr es" i m] by simp
  qed
  then show ?case using Suc assms(2) by (auto simp: nth_list_update less_Suc_eq)
qed simp

lemma fold_Inl: "fold (\<lambda>i acc. ebind acc (f i)) is (Inl e) = Inl e"
  by (induction "is") simp_all

lemma run_walks_inv:
  assumes "fold (\<lambda>i acc. ebind acc (verifyWalk env ch b es (i + 1) cap)) [0..<m] (Inr ws) = Inr ws'"
    "walks_inv env ch b es 0 ws" "m \<le> length es" "1 + 2 * visits_left ws \<le> cap"
    "\<And>a. a \<in> set es \<Longrightarrow> as_addr a < ch_count ch \<and> b ! as_addr a"
  shows "walks_inv env ch b es m ws' \<and> visits_left ws' \<le> visits_left ws"
  using assms(1,3)
proof (induction m arbitrary: ws')
  case 0
  then show ?case using assms(2) by simp
next
  case (Suc m)
  obtain ws1 where ws1: "fold (\<lambda>i acc. ebind acc (verifyWalk env ch b es (i + 1) cap)) [0..<m] (Inr ws) = Inr ws1"
    "verifyWalk env ch b es (m + 1) cap ws1 = Inr ws'"
    using Suc.prems(1) by (auto simp: result_simps)
  have "walks_inv env ch b es m ws1 \<and> visits_left ws1 \<le> visits_left ws"
    by (rule Suc.IH [OF ws1(1)]) (use Suc.prems in simp)
  then show ?case
    using run_walk_inv [of env ch b es m ws1 cap ws'] ws1(2) Suc.prems(2) assms(4,5) by fastforce
qed

lemma unset_replicate: "unset (replicate n False) = n"
  by (simp add: unset_def)

lemma walks_inv_init:
  assumes "distinct (map as_addr es)" "\<forall>a \<in> set es. as_addr a < ch_count ch"
  shows "walks_inv env ch b es 0
    \<lparr>wk_owner = claimed es (replicate (ch_count ch) 0), wk_known = replicate (ch_count ch) False,
     wk_unknown = replicate (ch_count ch) False, wk_depths = replicate (ch_count ch) 0\<rparr>"
  using fold_claim [OF assms(1), of "replicate (ch_count ch) 0" "length es"] assms(2)
  by (auto simp: walks_inv_def sized_def claimed_def marked_def split: option.splits)

lemma collect_entries_spec:
  assumes "collect_entries env ch b = Inr es"
  shows "distinct (map as_addr es)" "\<And>a. a \<in> set es \<Longrightarrow> as_addr a < ch_count ch \<and> b ! as_addr a"
    "\<And>a. a \<in> set (collectProcedures (ve_syms env) (ve_procedures env)) \<Longrightarrow> as_addr a < ch_count ch \<Longrightarrow>
       b ! as_addr a \<and> as_addr a \<in> as_addr ` set es"
    "0 < ch_count ch \<Longrightarrow> 0 \<in> as_addr ` set es"
proof -
  obtain threads where "dedupe (ch_count ch) b None
         (sort_key addr_key (\<lparr>as_addr = 0, as_sym = None\<rparr>
            # collectProcedures (ve_syms env) (ve_procedures env) @ threads)) = Inr es"
    using assms by (auto simp: collect_entries_def result_simps)
  note sp = dedupe_spec [OF this sorted_addr [OF sorted_sort_key], unfolded set_sort]
  show "distinct (map as_addr es)" using sp by simp
  show "\<And>a. a \<in> set es \<Longrightarrow> as_addr a < ch_count ch \<and> b ! as_addr a" using sp by blast
  show "\<And>a. a \<in> set (collectProcedures (ve_syms env) (ve_procedures env)) \<Longrightarrow> as_addr a < ch_count ch \<Longrightarrow>
       b ! as_addr a \<and> as_addr a \<in> as_addr ` set es" using sp by auto
  show "0 < ch_count ch \<Longrightarrow> 0 \<in> as_addr ` set es" using sp by fastforce
qed

subsection \<open>The guarantee\<close>

lemma next_depth_after:
  assumes "next_depth env pc eff d = Inr nd"
  shows "nd = depth_after eff d"
    and "d = Some v \<Longrightarrow> ef_req eff \<le> v \<and> (\<not> ef_unknown_after eff \<longrightarrow>
      0 \<le> v + ef_delta eff \<and> v + ef_delta eff \<le> int (ve_stack_ceiling env))"
  using assms by (auto simp: next_depth_def depth_after_def Let_def split: option.splits if_splits)

lemma reach_marked:
  assumes inv: "walks_inv env ch b es (length es) ws" and i: "i < length es"
    and entries: "\<And>a. a \<in> set es \<Longrightarrow> as_addr a < ch_count ch \<and> b ! as_addr a"
    and r: "reach env ch (es ! i) pc d"
  shows "pc < ch_count ch \<and> marked ws pc d \<and> wk_owner ws ! pc = i + 1"
  using r
proof (induction rule: reach.induct)
  case entry
  then show ?case using inv i entries [of "es ! i"] by (auto simp: walks_inv_def)
next
  case (flow pc d eff t)
  then have "item_done env ch b (as_sym (es ! i)) (i + 1) ws [] pc d"
    using inv by (auto simp: walks_inv_def)
  then obtain nd where nd: "next_depth env pc eff d = Inr nd"
    and "0 \<le> t" "t < int (ch_count ch)" "marked ws (nat t) nd" "wk_owner ws ! nat t = i + 1"
    using flow.hyps(2,3) by (auto simp: item_done_def)
  then show ?case using next_depth_after(1) [OF nd] by (auto simp: nat_less_iff)
qed

lemma verified_walks:
  assumes "pscalVerifyBytecodeChunk env ch = Inr ()" "ch_count ch \<noteq> 0"
  obtains b es ws where "verifyInstructionStream ch = Inr b" "verifyOperands ch b = Inr ()"
    "verifyUpvaluesInTable (ve_syms env) (ve_procedures env) = Inr ()"
    "collect_entries env ch b = Inr es" "walks_inv env ch b es (length es) ws"
proof -
  obtain b where b: "verifyInstructionStream ch = Inr b" "verifyOperands ch b = Inr ()"
    "verifyUpvaluesInTable (ve_syms env) (ve_procedures env) = Inr ()"
    and sd: "ok (verifyStackDepths env ch b)"
    using assms by (auto simp: pscalVerifyBytecodeChunk_def result_simps ok_iff)
  obtain es ws where es: "collect_entries env ch b = Inr es"
    and rw: "run_walks env ch b es (ch_count ch * 4 + 8) [0..<length es]
             \<lparr>wk_owner = claimed es (replicate (ch_count ch) 0),
              wk_known = replicate (ch_count ch) False, wk_unknown = replicate (ch_count ch) False,
              wk_depths = replicate (ch_count ch) 0\<rparr> = Inr ws"
    using sd collect_entries_spec(2) [of env ch b]
    by (auto simp: verifyStackDepths_def ok_iff result_simps claim_entries_eq Let_def split: if_splits)
  note ce = collect_entries_spec [OF es]
  have "walks_inv env ch b es (length es) ws"
    using run_walks_inv [OF rw [unfolded run_walks_def] walks_inv_init [OF ce(1)] _ _ ce(2)] ce(2)
    by (simp add: visits_left_def unset_replicate)
  then show ?thesis using that b es by blast
qed

text \<open>The frame entries of a chunk, as the verifier computes them.\<close>

definition frame_entries :: "VEnv \<Rightarrow> BytecodeChunk \<Rightarrow> AddrSym list" where
  "frame_entries env ch =
     (case verifyInstructionStream ch of
        Inl e \<Rightarrow> []
      | Inr b \<Rightarrow> (case collect_entries env ch b of Inl e \<Rightarrow> [] | Inr es \<Rightarrow> es))"

lemma frame_entries_collect:
  assumes "a \<in> set (frame_entries env ch)"
  shows "\<exists>b. verifyInstructionStream ch = Inr b \<and> collect_entries env ch b = Inr (frame_entries env ch)"
  using assms by (cases "verifyInstructionStream ch"; cases "collect_entries env ch (projr (verifyInstructionStream ch))")
     (auto simp: frame_entries_def)

lemma entry_in_code: "a \<in> set (frame_entries env ch) \<Longrightarrow> as_addr a < ch_count ch"
  using frame_entries_collect collect_entries_spec(2) by metis

lemma verified_tables:
  assumes "pscalVerifyBytecodeChunk env ch = Inr ()" "a \<in> set (frame_entries env ch)"
  obtains b ws where "verifyInstructionStream ch = Inr b"
    "collect_entries env ch b = Inr (frame_entries env ch)"
    "walks_inv env ch b (frame_entries env ch) (length (frame_entries env ch)) ws"
proof -
  have "ch_count ch \<noteq> 0" using entry_in_code [OF assms(2)] by auto
  then show ?thesis
    using verified_walks [OF assms(1)] frame_entries_collect [OF assms(2)] that by (metis sum.inject(2))
qed

text \<open>The abstract execution by the verifier's own effects stays within what the verifier checked. \<open>VmStack\<close> relates
  it to what the interpreter does.\<close>

lemma abstract_run_safe:
  assumes "pscalVerifyBytecodeChunk env ch = Inr ()" and "a \<in> set (frame_entries env ch)"
    and "reach env ch a pc d"
  shows "instr_safe env ch (as_sym a) pc d"
proof -
  let ?es = "frame_entries env ch"
  obtain b ws where v: "verifyInstructionStream ch = Inr b" "collect_entries env ch b = Inr ?es"
    and inv: "walks_inv env ch b ?es (length ?es) ws"
    using verified_tables [OF assms(1,2)] .
  note ce = collect_entries_spec [OF v(2)]
  obtain i where i: "i < length ?es" "?es ! i = a"
    using assms(2) by (auto simp: in_set_conv_nth)
  have m: "pc < ch_count ch \<and> marked ws pc d \<and> wk_owner ws ! pc = i + 1"
    by (rule reach_marked [OF inv i(1) ce(2)]) (use assms(3) i in auto)
  then have b: "b ! pc" and it: "item_done env ch b (as_sym a) (i + 1) ws [] pc d"
    using inv i by (auto simp: walks_inv_def)
  obtain eff nd where e: "effect_at env ch (as_sym a) pc = Some eff" "next_depth env pc eff d = Inr nd"
    and t: "\<And>t. t \<in> set (succs_at ch pc) \<Longrightarrow> 0 \<le> t \<and> t < int (ch_count ch) \<and> b ! nat t"
    using it by (auto simp: item_done_def)
  have bi: "p < ch_count ch \<Longrightarrow> b ! p = instr_start (ch_code ch) p" for p
    using verifyInstructionStream_boundary(3) [OF v(1)] by blast
  have "code_target ch t" if "t \<in> set (succs_at ch pc)" for t
    using t [OF that] bi [of "nat t"] by (simp add: code_target_def nat_less_iff)
  then show ?thesis
    using m b bi e next_depth_after(2) [OF e(2)] by (auto simp: instr_safe_def)
qed

definition demo_env :: VEnv where
  "demo_env = \<lparr>ve_syms = [], ve_procedures = HashTable [], ve_builtin_type = (\<lambda>s. BUILTIN_TYPE_NONE),
     ve_stack_ceiling = 100\<rparr>"

text \<open>A conditional jump around a push: both arms meet at depth 1, which POP takes off again.\<close>

definition demo_chunk :: BytecodeChunk where
  "demo_chunk = (initBytecodeChunk 9 0)\<lparr>ch_code :=
     [OP_CONST_1, OP_CONST_TRUE, OP_JUMP_IF_FALSE, 0, 0, 0, 2, OP_CONST_0, OP_POP, OP_POP, OP_HALT]\<rparr>"

lemma demo_verified: "pscalVerifyBytecodeChunk demo_env demo_chunk = Inr ()"
  by code_simp

lemma demo_entries: "frame_entries demo_env demo_chunk = [\<lparr>as_addr = 0, as_sym = None\<rparr>]"
  by code_simp

lemma demo_reach: "reach demo_env demo_chunk \<lparr>as_addr = 0, as_sym = None\<rparr> 1 (Some 1)"
proof -
  let ?a = "\<lparr>as_addr = 0, as_sym = None\<rparr>"
  have "effect_at demo_env demo_chunk (as_sym ?a) (as_addr ?a) = Some (known_effect 0 1)"
    "1 \<in> set (succs_at demo_chunk (as_addr ?a))" by code_simp+
  then show ?thesis
    using reach.flow [OF reach.entry [of demo_env demo_chunk ?a], of "known_effect 0 1" 1]
    by (simp add: depth_after_def known_effect_def)
qed

text \<open>C3: On an accepted chunk no instruction is shared between two routines, and none is reached at two
  known depths: the frame layout at an instruction is fixed by the instruction.\<close>

theorem verified_depth_unique:
  assumes "pscalVerifyBytecodeChunk env ch = Inr ()"
    and "a \<in> set (frame_entries env ch)" "a' \<in> set (frame_entries env ch)"
    and "reach env ch a pc d" "reach env ch a' pc d'"
  shows "a = a' \<and> (\<forall>v v'. d = Some v \<longrightarrow> d' = Some v' \<longrightarrow> v = v')"
proof -
  let ?es = "frame_entries env ch"
  obtain b ws where v: "collect_entries env ch b = Inr ?es"
    and inv: "walks_inv env ch b ?es (length ?es) ws"
    using verified_tables [OF assms(1,2)] .
  note ce = collect_entries_spec [OF v]
  obtain i j where ij: "i < length ?es" "?es ! i = a" "j < length ?es" "?es ! j = a'"
    using assms(2,3) by (auto simp: in_set_conv_nth)
  have "marked ws pc d \<and> wk_owner ws ! pc = i + 1" "marked ws pc d' \<and> wk_owner ws ! pc = j + 1"
    using reach_marked [OF inv ij(1) ce(2)] reach_marked [OF inv ij(3) ce(2)] assms(4,5) ij by blast+
  then show ?thesis using ij by (auto simp: marked_def)
qed

theorem verified_depth_unique_witness:
  "\<not> reach demo_env demo_chunk \<lparr>as_addr = 0, as_sym = None\<rparr> 1 (Some 2)"
proof
  let ?a = "\<lparr>as_addr = 0, as_sym = None\<rparr>"
  assume "reach demo_env demo_chunk ?a 1 (Some 2)"
  then show False
    using verified_depth_unique [OF demo_verified _ _ demo_reach, of ?a "Some 2"] by (simp add: demo_entries)
qed


definition demo_proc :: Symbol where
  "demo_proc = (const_symbol ''p'' TYPE_VOID 0)\<lparr>sy_is_defined := True, sy_bytecode_address := 6\<rparr>"

definition demo_env1 :: VEnv where
  "demo_env1 = demo_env\<lparr>ve_syms := [demo_proc], ve_procedures := HashTable [[(0, None)]]\<rparr>"

definition demo_chunk1 :: BytecodeChunk where
  "demo_chunk1 = (initBytecodeChunk 9 0)\<lparr>ch_code :=
     [OP_JUMP, 0, 0, 0, 2, OP_CONST_1, OP_RETURN, OP_HALT]\<rparr>"




subsection \<open>The upvalue pass\<close>

text \<open>All symbols of a table and of the tables nested in it, in the order the walks visit them.\<close>

fun table_symbols :: "HashTable \<Rightarrow> nat list" where
  "table_symbols (HashTable bs) =
     concat (map (\<lambda>entries. concat (map (\<lambda>(s, nested).
       s # (case nested of None \<Rightarrow> [] | Some t \<Rightarrow> table_symbols t)) entries)) bs)"

lemma verifyUpvalues_all:
  "verifyUpvaluesInTable syms t = Inr () \<longleftrightarrow> (\<forall>s \<in> set (table_symbols t). verify_symbol_upvalues syms s = Inr ())"
proof (induction syms t rule: verifyUpvaluesInTable.induct)
  case (1 syms bs)
  have "(case nested of None \<Rightarrow> Inr () | Some t \<Rightarrow> verifyUpvaluesInTable syms t) = Inr ()
      \<longleftrightarrow> (\<forall>x \<in> set (case nested of None \<Rightarrow> [] | Some t \<Rightarrow> table_symbols t). verify_symbol_upvalues syms x = Inr ())"
    if "entries \<in> set bs" "(s, nested) \<in> set entries" for entries s nested
    using "1.IH" that by (cases nested) auto
  then show ?case by (fastforce simp: eall_Inr_iff result_simps)
qed



subsection \<open>Memory safety\<close>

lemma next_depth_no_fault: "next_depth env pc eff d \<noteq> Inl VFault"
  by (auto simp: next_depth_def Let_def split: option.splits)

lemma successor_targets_no_fault:
  assumes "instr_decode code pc = (len, True)" "pc + len \<le> length code"
  shows "successor_targets code pc l (code ! pc) \<noteq> Inl VFault"
proof -
  have "code ! pc = OP_JUMP \<or> code ! pc = OP_JUMP_IF_FALSE \<Longrightarrow> pc + 4 < length code"
    using call_len [OF assms(1), of 4] assms(2) by auto
  then show ?thesis
    by (auto simp: successor_targets_def jump_target_def result_simps verifyRead_in_range)
qed

lemma add_all_Inl: "add_all f ts = Inl e \<Longrightarrow> \<exists>t \<in> set ts. f t = Inl e"
  by (induction ts) (auto simp: result_simps)

lemma addSuccessor_no_fault:
  assumes "sized (ch_count ch) ws" "\<And>p. p < ch_count ch \<Longrightarrow> wk_owner ws ! p \<le> length es"
    "length b = ch_count ch"
  shows "addSuccessor ch b es ws w pc t \<noteq> Inl VFault"
proof
  assume f: "addSuccessor ch b es ws w pc t = Inl VFault"
  then have "0 \<le> t" "t < int (ch_count ch)" by (auto simp: addSuccessor_def split: if_splits)
  then have t: "nat t < ch_count ch" by (simp add: nat_less_iff)
  have "nat t < length (wk_owner ws)" using t assms(1) by (simp add: sized_def)
  then show False using f assms(2) [OF t] t assms(3) by (auto simp: addSuccessor_def result_simps split: if_splits)
qed

lemma nth_update_le: "p < length xs \<Longrightarrow> xs ! p \<le> (k :: nat) \<Longrightarrow> v \<le> k \<Longrightarrow> xs[i := v] ! p \<le> k"
  by (cases "i = p") auto

lemma walk_step_no_fault:
  assumes inv: "walk_inv env ch b sy w ws ((pc, d) # wl)" and stream: "verifyInstructionStream ch = Inr b"
    and own: "\<And>p. p < ch_count ch \<Longrightarrow> wk_owner ws ! p \<le> length es" and w: "w \<le> length es"
  shows "walk_step env ch b es w sy (pc, d) ws \<noteq> Inl VFault"
proof -
  let ?n = "ch_count ch"
  define ws1 where "ws1 = ws\<lparr>wk_owner := (wk_owner ws)[pc := w]\<rparr>"
  have sz: "sized ?n ws" and pc: "pc < ?n" "b ! pc" using inv by (auto simp: walk_inv_def)
  have bl: "length b = ch_count ch" by (rule verifyInstructionStream_boundary(2) [OF stream])
  have sz1: "sized ?n ws1" using sz by (simp add: sized_def ws1_def)
  have own1: "wk_owner ws1 ! p \<le> length es" if "p < ?n" for p
    using own [OF that] w sz that by (auto simp: ws1_def sized_def intro: nth_update_le)
  have st: "instr_start (ch_code ch) pc" using verifyInstructionStream_boundary(3) [OF stream pc(1)] pc(2) by simp
  obtain len where len: "instr_decode (ch_code ch) pc = (len, True)" "pc + len \<le> ?n"
    using stream_instr [OF stream st pc(1)] .
  obtain info where info: "pscalOpcodeInfo (ch_code ch ! pc) = Some info"
    using instr_decode_defined [OF len(1)] by auto
  have mv: "mark_visited pc d ws1 \<noteq> Inl VFault"
    using sz1 pc(1) by (auto simp: mark_visited_def sized_def result_simps split: option.splits)
  have "add_all (addSuccessor ch b es ws2 w pc) ts \<noteq> Inl VFault"
    if m: "mark_visited pc d ws1 = Inr (Some ws2)" for ws2 ts
  proof
    assume "add_all (addSuccessor ch b es ws2 w pc) ts = Inl VFault"
    then obtain t where t: "addSuccessor ch b es ws2 w pc t = Inl VFault" using add_all_Inl by blast
    have ms: "sized ?n ws2" "wk_owner ws2 = wk_owner ws1" using mark_visited_Some [OF m sz1] by simp_all
    have "p < ?n \<Longrightarrow> wk_owner ws2 ! p \<le> length es" for p using own1 [of p] ms(2) by simp
    then show False using addSuccessor_no_fault [OF ms(1)] t bl by blast
  qed
  moreover have "pc < length (wk_owner ws)" using sz pc(1) by (simp add: sized_def)
  ultimately show ?thesis
    using pc(1) len info mv classify_no_fault [OF len] next_depth_no_fault successor_targets_no_fault [OF len]
    unfolding walk_step_def Let_def ws1_def [symmetric] fst_conv snd_conv
    by (auto simp: ebind_Inl_iff ws1_def [symmetric] split: option.splits)
qed

lemma walk_loop_no_fault:
  assumes "walk_inv env ch b sy w ws wl" "length wl + 2 * visits_left ws \<le> cap" "w \<noteq> 0" "w \<le> length es"
    "verifyInstructionStream ch = Inr b" "\<And>p. p < ch_count ch \<Longrightarrow> wk_owner ws ! p \<le> length es"
  shows "walk_loop env ch b es w sy cap wl ws \<noteq> Inl VFault"
  using assms
proof (induction env ch b es w sy cap wl ws rule: walk_loop.induct)
  case (2 env ch b es w sy cap item wl ws)
  obtain pc d where item: "item = (pc, d)" by (cases item)
  show ?case
  proof (cases "walk_step env ch b es w sy (pc, d) ws")
    case (Inl e)
    then show ?thesis
      using walk_step_no_fault [OF "2.prems"(1) [unfolded item] "2.prems"(5,6,4)] item by auto
  next
    case (Inr r)
    obtain ws1 items where r: "r = (ws1, items)" by (cases r)
    have step: "walk_step env ch b es w sy (pc, d) ws = Inr (ws1, items)" using Inr r by simp
    note m = walk_step_measure [OF step]
    have fit: "length items + length wl \<le> cap" "length (rev items @ wl) + 2 * visits_left ws1 \<le> cap"
      using m "2.prems"(2) by auto
    note si = walk_step_inv [OF "2.prems"(1) [unfolded item] "2.prems"(3) step]
    have own: "wk_owner ws1 ! p \<le> length es" if "p < ch_count ch" for p
    proof -
      have "frame_at w ws ws1 p" using si(2) that by (simp add: walk_frame_def)
      then show ?thesis using "2.prems"(4) "2.prems"(6) [OF that] by (auto simp: frame_at_def split: if_splits)
    qed
    have "walk_loop env ch b es w sy cap (rev items @ wl) ws1 \<noteq> Inl VFault"
      using "2.IH" [of "(ws1, items)" ws1 items] step item si(1) fit(2) "2.prems" own
        push_items_fit [OF fit(1)] by simp
    then show ?thesis using step item push_items_fit [OF fit(1)] by simp
  qed
qed simp

lemma run_walks_no_fault:
  assumes "walks_inv env ch b es 0 ws" "m \<le> length es" "1 + 2 * visits_left ws \<le> cap"
    "\<And>a. a \<in> set es \<Longrightarrow> as_addr a < ch_count ch \<and> b ! as_addr a"
    "verifyInstructionStream ch = Inr b" "\<And>p. p < ch_count ch \<Longrightarrow> wk_owner ws ! p \<le> length es"
  shows "(case fold (\<lambda>i acc. ebind acc (verifyWalk env ch b es (i + 1) cap)) [0..<m] (Inr ws) of
            Inl e \<Rightarrow> e \<noteq> VFault
          | Inr ws' \<Rightarrow> \<forall>p < ch_count ch. wk_owner ws' ! p \<le> length es)"
  using assms(2)
proof (induction m)
  case 0
  then show ?case using assms(6) by simp
next
  case (Suc m)
  let ?f = "fold (\<lambda>i acc. ebind acc (verifyWalk env ch b es (i + 1) cap)) [0..<m] (Inr ws)"
  show ?case
  proof (cases ?f)
    case (Inl e)
    then show ?thesis using Suc by simp
  next
    case (Inr ws1)
    have own: "\<And>p. p < ch_count ch \<Longrightarrow> wk_owner ws1 ! p \<le> length es" using Suc Inr by simp
    have iv: "walks_inv env ch b es m ws1" "visits_left ws1 \<le> visits_left ws"
      using run_walks_inv [OF Inr assms(1) _ assms(3,4)] Suc.prems by auto
    let ?a = "es ! m"
    have m: "m < length es" using Suc.prems by simp
    have a: "as_addr ?a < ch_count ch" "b ! as_addr ?a" using assms(4) [of ?a] m by simp_all
    have wi: "walk_inv env ch b (as_sym ?a) (m + 1) ws1 [(as_addr ?a, Some 0)]"
      using iv(1) a m by (auto simp: walks_inv_def walk_inv_def)
    have vw: "verifyWalk env ch b es (m + 1) cap ws1
        = walk_loop env ch b es (m + 1) (as_sym ?a) cap [(as_addr ?a, Some 0)] ws1"
      using m by (simp add: verifyWalk_def)
    have nf: "verifyWalk env ch b es (m + 1) cap ws1 \<noteq> Inl VFault"
      unfolding vw by (rule walk_loop_no_fault [OF wi]) (use iv(2) assms(3,5) m own in auto)
    have "wk_owner ws' ! p \<le> length es"
      if ws': "verifyWalk env ch b es (m + 1) cap ws1 = Inr ws'" and p: "p < ch_count ch" for ws' p
    proof -
      have "walk_frame (ch_count ch) (m + 1) ws1 ws'"
        using walk_loop_inv [OF ws' [unfolded vw] wi] iv(2) assms(3) by simp
      then have "frame_at (m + 1) ws1 ws' p" using p by (simp add: walk_frame_def)
      then show ?thesis using own [OF p] m by (auto simp: frame_at_def split: if_splits)
    qed
    then show ?thesis using Inr nf by (auto split: sum.splits)
  qed
qed

lemma thread_entries_no_fault:
  assumes "verifyInstructionStream ch = Inr b"
  shows "thread_entries env ch b [0..<ch_count ch] \<noteq> Inl VFault"
proof -
  have "m \<le> ch_count ch \<Longrightarrow> thread_entries env ch b [0..<m] \<noteq> Inl VFault" for m
  proof (induction m)
    case (Suc m)
    have "verifyReadU32BE (ch_code ch) (m + 1) \<noteq> Inl VFault" if "b ! m" "ch_code ch ! m = OP_THREAD_CREATE"
    proof -
      have m: "m < ch_count ch" using Suc.prems by simp
      have "instr_start (ch_code ch) m" using verifyInstructionStream_boundary(3) [OF assms m] that by simp
      then obtain len where "instr_decode (ch_code ch) m = (len, True)" "m + len \<le> ch_count ch"
        using stream_instr [OF assms _ m] by blast
      then show ?thesis using call_len [of "ch_code ch" m len 4] that(2) by (simp add: verifyRead_in_range)
    qed
    then show ?case using Suc verifyInstructionStream_boundary(2) [OF assms]
      by (auto simp: thread_entries_def result_simps split: if_splits)
  qed (simp add: thread_entries_def)
  then show ?thesis by simp
qed

lemma dedupe_no_fault: "n \<le> length b \<Longrightarrow> dedupe n b kept as \<noteq> Inl VFault"
  by (induction n b kept as rule: dedupe.induct) (auto simp: result_simps)

text \<open>C2: Memory safety of the verifier. Whatever bytes and constants a chunk holds and whatever the symbol tables say,
  the verifier accesses no array out of bounds: not the code or the constants, not the upvalues of a symbol, and none
  of its own tables of boundaries, entries, owners, marks and depths, which it indexes with numbers from the file.\<close>

theorem verifier_reads_in_bounds: "pscalVerifyBytecodeChunk env ch \<noteq> Inl VFault"
proof (cases "verifyInstructionStream ch")
  case (Inl e)
  then show ?thesis
    using verify_stream_no_fault [of "replicate (ch_count ch) False" "ch_code ch"]
    by (auto simp: pscalVerifyBytecodeChunk_def verifyInstructionStream_def)
next
  case (Inr b)
  have ce: "collect_entries env ch b \<noteq> Inl VFault"
    using thread_entries_no_fault [OF Inr] dedupe_no_fault verifyInstructionStream_boundary(2) [OF Inr]
    by (auto simp: collect_entries_def result_simps)
  have "verifyStackDepths env ch b \<noteq> Inl VFault"
  proof (cases "collect_entries env ch b")
    case (Inl e)
    then show ?thesis using ce by (simp add: verifyStackDepths_def)
  next
    case es: (Inr es)
    let ?ws = "\<lparr>wk_owner = claimed es (replicate (ch_count ch) 0), wk_known = replicate (ch_count ch) False,
       wk_unknown = replicate (ch_count ch) False, wk_depths = replicate (ch_count ch) 0\<rparr>"
    note sp = collect_entries_spec [OF es]
    have "wk_owner ?ws ! p \<le> length es" if "p < ch_count ch" for p
    proof -
      have "m \<le> length es \<Longrightarrow>
        length (fold (\<lambda>i owner. owner[as_addr (es ! i) := i + 1]) [0..<m] (replicate (ch_count ch) 0)) = ch_count ch \<and>
        fold (\<lambda>i owner. owner[as_addr (es ! i) := i + 1]) [0..<m] (replicate (ch_count ch) 0) ! p \<le> length es" for m
        by (induction m) (use that in \<open>auto intro: nth_update_le\<close>)
      then show ?thesis by (simp add: claimed_def)
    qed
    then have "run_walks env ch b es (ch_count ch * 4 + 8) [0..<length es] ?ws \<noteq> Inl VFault"
      using run_walks_no_fault [where env = env and cap = "ch_count ch * 4 + 8",
          OF walks_inv_init [OF sp(1)] order_refl _ sp(2) Inr] sp(2)
      by (auto simp: run_walks_def visits_left_def unset_replicate split: sum.splits)
    then show ?thesis using es sp(2) by (auto simp: verifyStackDepths_def claim_entries_eq Let_def)
  qed
  then show ?thesis
    using Inr verifyOperands_no_fault [OF Inr] verifyUpvalues_no_fault
    by (auto simp: pscalVerifyBytecodeChunk_def result_simps)
qed

end
