(* ===== verification/VmStack.thy ===== *)
theory VmStack
  imports VerifierSound
begin

section \<open>The operand stack of the interpreter, and what verification is worth there\<close>

text \<open>
  What the handlers of the interpreter loop (\<open>interpretBytecode\<close> in \<open>vm/vm.c\<close>) do to the operand stack and to the
  instruction pointer, read off the handlers themselves: the pushes, pops and peeks of each in their order, the
  operand bytes each reads, and where control goes. Nothing here uses the opcode page, the decoder of lengths or the
  verifier's table of effects, so that the theorem at the end compares two independent descriptions. Handlers may
  also stop with a runtime error in the middle; that ends the execution and is left out. Values are not modelled, so
  an execution takes every branch of a conditional jump.
\<close>

datatype stack_op = Pop | Peek nat | Push

text \<open>\<open>Peek k\<close> uses the cell \<open>k\<close> places below the top. \<open>enough ops d\<close>: with \<open>d\<close> cells above the frame's locals
  no operation reaches below them.\<close>

fun enough :: "stack_op list \<Rightarrow> int \<Rightarrow> bool" where
  "enough [] d = True"
| "enough (Pop # ops) d = (0 < d \<and> enough ops (d - 1))"
| "enough (Peek k # ops) d = (int k < d \<and> enough ops d)"
| "enough (Push # ops) d = enough ops (d + 1)"

fun net :: "stack_op list \<Rightarrow> int" where
  "net [] = 0"
| "net (Pop # ops) = net ops - 1"
| "net (Peek k # ops) = net ops"
| "net (Push # ops) = net ops + 1"

subsection \<open>Handlers with a fixed effect\<close>

text \<open>The opcode, the bytes its handler reads after it, and its stack operations.\<close>

definition constant_handlers :: "(u8 \<times> nat \<times> stack_op list) list" where
  "constant_handlers =
     [(OP_CONSTANT, 1, [Push]), (OP_CONSTANT16, 2, [Push]), (OP_CONST_0, 0, [Push]), (OP_CONST_1, 0, [Push]),
      (OP_CONST_TRUE, 0, [Push]), (OP_CONST_FALSE, 0, [Push]), (OP_PUSH_IMMEDIATE_INT8, 1, [Push])]"

definition operator_handlers :: "(u8 \<times> nat \<times> stack_op list) list" where
  "operator_handlers =
     [(OP_ADD, 0, [Pop, Pop, Push]), (OP_SUBTRACT, 0, [Pop, Pop, Push]), (OP_MULTIPLY, 0, [Pop, Pop, Push]),
      (OP_DIVIDE, 0, [Pop, Pop, Push]), (OP_NEGATE, 0, [Pop, Push]), (OP_NOT, 0, [Pop, Push]),
      (OP_TO_BOOL, 0, [Pop, Push]), (OP_SWAP, 0, [Peek 1, Peek 0]), (OP_DUP, 0, [Peek 0, Push]),
      (OP_AND, 0, [Pop, Pop, Push]), (OP_OR, 0, [Pop, Pop, Push]), (OP_XOR, 0, [Pop, Pop, Push]),
      (OP_INT_DIV, 0, [Pop, Pop, Push]), (OP_MOD, 0, [Pop, Pop, Push]), (OP_SHL, 0, [Pop, Pop, Push]),
      (OP_SHR, 0, [Pop, Pop, Push]), (OP_EQUAL, 0, [Pop, Pop, Push]), (OP_NOT_EQUAL, 0, [Pop, Pop, Push]),
      (OP_GREATER, 0, [Pop, Pop, Push]), (OP_GREATER_EQUAL, 0, [Pop, Pop, Push]), (OP_LESS, 0, [Pop, Pop, Push]),
      (OP_LESS_EQUAL, 0, [Pop, Pop, Push])]"

definition object_handlers :: "(u8 \<times> nat \<times> stack_op list) list" where
  "object_handlers =
     [(OP_ALLOC_OBJECT, 1, [Push]), (OP_ALLOC_OBJECT16, 2, [Push]),
      (OP_GET_FIELD_OFFSET, 1, [Peek 0, Pop, Push]), (OP_GET_FIELD_OFFSET16, 2, [Peek 0, Pop, Push]),
      (OP_LOAD_FIELD_VALUE, 1, [Pop, Push]), (OP_LOAD_FIELD_VALUE16, 2, [Pop, Push]),
      (OP_GET_FIELD_ADDRESS, 1, [Peek 0, Pop, Push]), (OP_GET_FIELD_ADDRESS16, 2, [Peek 0, Pop, Push]),
      (OP_GET_FIELD_ADDRESS_KEEP, 1, [Peek 0, Push]), (OP_GET_FIELD_ADDRESS_KEEP16, 2, [Peek 0, Push]),
      (OP_LOAD_FIELD_VALUE_BY_NAME, 1, [Pop, Push]), (OP_LOAD_FIELD_VALUE_BY_NAME16, 2, [Pop, Push])]"

definition address_handlers :: "(u8 \<times> nat \<times> stack_op list) list" where
  "address_handlers =
     [(OP_GET_CHAR_ADDRESS, 0, [Peek 1, Pop, Peek 0, Pop, Push]),
      (OP_GET_GSLOT_ADDRESS, 2, [Push]), (OP_GET_LOCAL_ADDRESS, 1, [Push]),
      (OP_GET_ELEMENT_ADDRESS_CONST, 4, [Pop, Push]), (OP_LOAD_ELEMENT_VALUE_CONST, 4, [Pop, Push]),
      (OP_SET_INDIRECT, 0, [Pop, Pop]), (OP_IN, 0, [Pop, Pop, Push]), (OP_MAKE_SET_SINGLETON, 0, [Pop, Push]),
      (OP_MAKE_SET_RANGE, 0, [Pop, Pop, Push]), (OP_GET_INDIRECT, 0, [Pop, Push]),
      (OP_GET_CHAR_FROM_STRING, 0, [Pop, Pop, Push])]"

definition variable_handlers :: "(u8 \<times> nat \<times> stack_op list) list" where
  "variable_handlers =
     [(OP_GET_GSLOT, 2, [Push]), (OP_SET_GSLOT, 2, [Pop]), (OP_GET_LOCAL, 1, [Push]), (OP_RESET_LOCAL, 1, []),
      (OP_SET_LOCAL, 1, [Pop]), (OP_INC_LOCAL, 1, []), (OP_DEC_LOCAL, 1, []), (OP_GET_UPVALUE, 1, [Push]),
      (OP_SET_UPVALUE, 1, [Pop]), (OP_GET_UPVALUE_ADDRESS, 1, [Push]), (OP_INIT_LOCAL_FILE, 4, []),
      (OP_INIT_LOCAL_POINTER, 3, []), (OP_INIT_LOCAL_STRING, 2, []), (OP_PUSH_TYPE_DEFAULT, 3, [Push]),
      (OP_POP, 0, [Pop])]"

definition thread_handlers :: "(u8 \<times> nat \<times> stack_op list) list" where
  "thread_handlers =
     [(OP_THREAD_CREATE, 4, [Push]), (OP_THREAD_JOIN, 0, [Peek 0, Pop]), (OP_MUTEX_CREATE, 0, [Push]),
      (OP_RCMUTEX_CREATE, 0, [Push]), (OP_MUTEX_LOCK, 0, [Peek 0, Pop]), (OP_MUTEX_UNLOCK, 0, [Peek 0, Pop]),
      (OP_MUTEX_DESTROY, 0, [Peek 0, Pop]), (OP_FORMAT_VALUE, 2, [Pop, Push]), (OP_FORMAT_VALUE16, 4, [Pop, Push])]"

definition plain_handlers :: "(u8 \<times> nat \<times> stack_op list) list" where
  "plain_handlers = constant_handlers @ operator_handlers @ object_handlers @ address_handlers
     @ variable_handlers @ thread_handlers"

subsection \<open>Who is called\<close>

text \<open>The routines \<open>vmGetProcedureByAddress\<close> can answer with: one registered at the address, or the target of an alias
  that is. Which of several it is depends on the order the address cache was filled in.\<close>

definition routines_at :: "VEnv \<Rightarrow> nat \<Rightarrow> nat list" where
  "routines_at env address =
     filter (\<lambda>s. sy_is_defined (ve_syms env ! s) \<and> addr_u32 (sy_bytecode_address (ve_syms env ! s)) = address)
       (table_symbols (ve_procedures env))"

definition cached_routines_at :: "VEnv \<Rightarrow> nat \<Rightarrow> nat list" where
  "cached_routines_at env address =
     filter (\<lambda>r. sy_is_defined (ve_syms env ! r) \<and> 0 \<le> sy_bytecode_address (ve_syms env ! r)
         \<and> nat (sy_bytecode_address (ve_syms env ! r)) = address)
       (map (resolveSymbolAlias (ve_syms env)) (table_symbols (ve_procedures env)))"

definition vm_callees_at :: "VEnv \<Rightarrow> nat \<Rightarrow> nat list" where
  "vm_callees_at env address =
     map (resolveSymbolAlias (ve_syms env)) (routines_at env address @ cached_routines_at env address)"

text \<open>The routines \<open>vmResolveUserProc\<close> can answer with: the one the global table has under the name, or any of that
  name nested anywhere. Which it is depends on the calling routine and the frames below it.\<close>

definition vm_callees_named :: "VEnv \<Rightarrow> string \<Rightarrow> nat list" where
  "vm_callees_named env name =
     map (resolveSymbolAlias (ve_syms env))
       ((case hashTableLookup (ve_syms env) (ve_procedures env) name of None \<Rightarrow> [] | Some s \<Rightarrow> [s])
        @ filter (\<lambda>s. sy_name (ve_syms env ! s) = lookup_key name) (table_symbols (ve_procedures env)))"

text \<open>What a call leaves when the callee has returned: \<open>returnFromCall\<close> takes the stack back to the callee's base, which
  is below the arguments, and pushes the result of a function.\<close>

definition result_of :: "VEnv \<Rightarrow> nat \<Rightarrow> stack_op list" where
  "result_of env callee = (if sy_type (ve_syms env ! callee) \<noteq> TYPE_VOID then [Push] else [])"

definition call_effects :: "VEnv \<Rightarrow> nat \<Rightarrow> nat list \<Rightarrow> stack_op list list" where
  "call_effects env arity callees = map (\<lambda>callee. replicate arity Pop @ result_of env callee) callees"

definition constant_string :: "BytecodeChunk \<Rightarrow> nat \<Rightarrow> string option" where
  "constant_string ch idx =
     (if idx < ch_constants_count ch then
        (case ch_constants ch ! idx of VString t s \<Rightarrow> (if t = TYPE_STRING then s else None) | _ \<Rightarrow> None)
      else None)"

definition callee_name :: "BytecodeChunk \<Rightarrow> nat \<Rightarrow> string option" where
  "callee_name ch pc =
     map_option (\<lambda>s. lower_string (take MAX_SYMBOL_LENGTH s)) (constant_string ch (u16_at (ch_code ch) (pc + 1)))"

definition builtin_type_at :: "VEnv \<Rightarrow> BytecodeChunk \<Rightarrow> nat \<Rightarrow> BuiltinRoutineType option" where
  "builtin_type_at env ch pc = map_option (ve_builtin_type env) (constant_string ch (u16_at (ch_code ch) (pc + 1)))"

definition user_proc_effects :: "VEnv \<Rightarrow> BytecodeChunk \<Rightarrow> nat \<Rightarrow> stack_op list list" where
  "user_proc_effects env ch pc =
     (case callee_name ch pc of None \<Rightarrow> []
      | Some name \<Rightarrow> call_effects env (unat (ch_code ch ! (pc + 3))) (vm_callees_named env name))"

definition builtin_effects :: "VEnv \<Rightarrow> BytecodeChunk \<Rightarrow> nat \<Rightarrow> stack_op list list" where
  "builtin_effects env ch pc =
     (case builtin_type_at env ch pc of None \<Rightarrow> []
      | Some t \<Rightarrow> [replicate (unat (ch_code ch ! (pc + 3))) Pop @ (if t = BUILTIN_TYPE_FUNCTION then [Push] else [])])"

subsection \<open>Every handler\<close>

text \<open>The size values an array instruction takes from the stack: one per dimension whose bounds are both 0xFFFF.\<close>

definition sized_dimensions :: "byte list \<Rightarrow> nat \<Rightarrow> nat \<Rightarrow> nat" where
  "sized_dimensions code pos n =
     length (filter (\<lambda>i. u16_at code (pos + 4 * i) = 0xFFFF \<and> u16_at code (pos + 4 * i + 2) = 0xFFFF) [0..<n])"

text \<open>Where \<open>handleDefineGlobalSlot\<close> has read to, from the type byte on.\<close>

definition define_end :: "byte list \<Rightarrow> nat \<Rightarrow> nat" where
  "define_end code pos =
     (if code ! pos = TYPE_ARRAY then pos + 2 + 4 * unat (code ! (pos + 1)) + 1 + 2
      else pos + 3 + (if code ! pos = TYPE_FILE then 3 else 0) + (if code ! pos = TYPE_STRING then 2 else 0))"

text \<open>The handlers of the address of a variable run the store that follows in the same step.\<close>

definition fused_store :: "BytecodeChunk \<Rightarrow> nat \<Rightarrow> bool" where
  "fused_store ch ip \<longleftrightarrow> ip + 1 < ch_count ch \<and> ch_code ch ! ip = OP_SWAP \<and> ch_code ch ! (ip + 1) = OP_SET_INDIRECT"

definition to_here :: "nat \<Rightarrow> stack_op list list \<Rightarrow> (stack_op list \<times> int list) list" where
  "to_here ip effects = map (\<lambda>ops. (ops, [int ip])) effects"

definition call_cases :: "VEnv \<Rightarrow> BytecodeChunk \<Rightarrow> nat \<Rightarrow> (stack_op list \<times> int list) list" where
  "call_cases env ch pc =
     (let code = ch_code ch; op = code ! pc; byte = (\<lambda>k. unat (code ! (pc + k))) in
      if op = OP_CALL_BUILTIN_PROC then to_here (pc + 6) [replicate (byte 5) Pop]
      else if op = OP_CALL_BUILTIN then to_here (pc + 4) (builtin_effects env ch pc)
      else if op = OP_CALL_USER_PROC then to_here (pc + 4) (user_proc_effects env ch pc)
      else if op = OP_CALL then
        to_here (pc + 8) (call_effects env (byte 7) (vm_callees_at env (unat (u32_at code (pc + 3)))))
      else if op = OP_CALL_INDIRECT then
        to_here (pc + 2) [Pop # replicate (byte 1) Pop, Pop # replicate (byte 1) Pop @ [Push]]
      else if op = OP_CALL_METHOD then
        to_here (pc + 3) [Peek (byte 2) # replicate (byte 2 + 1) Pop, Peek (byte 2) # replicate (byte 2 + 1) Pop @ [Push]]
      else if op = OP_PROC_CALL_INDIRECT then to_here (pc + 2) [Pop # replicate (byte 1) Pop]
      else [])"

definition plain_cases :: "BytecodeChunk \<Rightarrow> nat \<Rightarrow> (stack_op list \<times> int list) list" where
  "plain_cases ch pc =
     (case map_of plain_handlers (ch_code ch ! pc) of None \<Rightarrow> []
      | Some (n, ops) \<Rightarrow> to_here (pc + 1 + n) [ops])"

text \<open>What the handler at \<open>pc\<close> can do in a frame of routine \<open>sy\<close>: its stack operations, and the positions control goes to
  afterwards in this frame. Host functions are apart, below; the opcodes that name a global by a constant have no
  handler and end in a runtime error.\<close>

definition vm_cases :: "VEnv \<Rightarrow> BytecodeChunk \<Rightarrow> nat option \<Rightarrow> nat \<Rightarrow> (stack_op list \<times> int list) list" where
  "vm_cases env ch sy pc =
     (let code = ch_code ch; op = code ! pc; byte = (\<lambda>k. unat (code ! (pc + k)));
          jump = int (pc + 5) + sint (u32_at code (pc + 1)) in
      if op = OP_RETURN \<or> op = OP_EXIT then
        [((case sy of None \<Rightarrow> [] | Some s \<Rightarrow> if sy_type (ve_syms env ! s) \<noteq> TYPE_VOID then [Pop] else []), [])]
      else if op = OP_HALT then [([], [])]
      else if op = OP_JUMP then [([], [jump])]
      else if op = OP_JUMP_IF_FALSE then [([Pop], [int (pc + 5), jump])]
      else if op = OP_GET_ELEMENT_ADDRESS \<or> op = OP_LOAD_ELEMENT_VALUE then
        to_here (pc + 2) [Pop # replicate (byte 1) Pop @ [Push]]
      else if op = OP_INIT_LOCAL_ARRAY then
        to_here (pc + 6 + 4 * byte 2) [replicate (sized_dimensions code (pc + 3) (byte 2)) Pop]
      else if op = OP_INIT_FIELD_ARRAY then
        to_here (pc + 6 + 4 * byte 2) [replicate (sized_dimensions code (pc + 3) (byte 2)) Pop @ [Peek 0]]
      else if op = OP_DEFINE_GLOBAL_SLOT then to_here (define_end code (pc + 3)) [[]]
      else if op = OP_GET_GSLOT_ADDRESS \<and> fused_store ch (pc + 3) then
        plain_cases ch pc @ to_here (pc + 5) [[Pop]]
      else if op = OP_GET_LOCAL_ADDRESS \<and> fused_store ch (pc + 2) then
        plain_cases ch pc @ to_here (pc + 4) [[Pop]]
      else call_cases env ch pc @ plain_cases ch pc)"


subsection \<open>Execution of a frame\<close>

definition same_result :: "VEnv \<Rightarrow> nat list \<Rightarrow> bool" where
  "same_result env callees \<longleftrightarrow>
     (\<forall>c \<in> set callees. \<forall>c' \<in> set callees. (sy_type (ve_syms env ! c) = TYPE_VOID) = (sy_type (ve_syms env ! c') = TYPE_VOID))"

text \<open>Whether the instruction itself determines what it leaves on the stack. Calls through a value, a V-table or a host
  function do not; a call by address does if there is a routine there and all of them have a result or none has; a
  call by name, if the global table has the name and all routines of that name have a result or none has; and a
  builtin, if it is registered as a function or a procedure.\<close>

definition followed :: "VEnv \<Rightarrow> BytecodeChunk \<Rightarrow> nat \<Rightarrow> bool" where
  "followed env ch pc \<longleftrightarrow>
     (let op = ch_code ch ! pc; address = unat (u32_at (ch_code ch) (pc + 3)) in
      op \<noteq> OP_CALL_INDIRECT \<and> op \<noteq> OP_CALL_METHOD \<and> op \<noteq> OP_CALL_HOST
      \<and> (op = OP_CALL \<longrightarrow> routines_at env address \<noteq> [] \<and> same_result env (vm_callees_at env address))
      \<and> (op = OP_CALL_USER_PROC \<longrightarrow>
          (case callee_name ch pc of None \<Rightarrow> False
           | Some name \<Rightarrow> hashTableLookup (ve_syms env) (ve_procedures env) name \<noteq> None
               \<and> same_result env (vm_callees_named env name)))
      \<and> (op = OP_CALL_BUILTIN \<longrightarrow> builtin_type_at env ch pc \<noteq> Some BUILTIN_TYPE_NONE))"

text \<open>\<open>vm_exec env ch a pc d tracked\<close>: a frame of the routine that starts at entry \<open>a\<close> can come to \<open>pc\<close> with \<open>d\<close> cells
  above its locals (fewer than none, if it has popped into them); \<open>tracked\<close> if every instruction on the way was
  followed. A host function pops as much as it likes.\<close>

inductive vm_exec :: "VEnv \<Rightarrow> BytecodeChunk \<Rightarrow> AddrSym \<Rightarrow> nat \<Rightarrow> int \<Rightarrow> bool \<Rightarrow> bool" for env ch a where
  start: "vm_exec env ch a (as_addr a) 0 True"
| step: "vm_exec env ch a pc d tracked \<Longrightarrow> (ops, ts) \<in> set (vm_cases env ch (as_sym a) pc) \<Longrightarrow> t \<in> set ts \<Longrightarrow>
    vm_exec env ch a (nat t) (d + net ops) (tracked \<and> followed env ch pc)"
| host: "vm_exec env ch a pc d tracked \<Longrightarrow> ch_code ch ! pc = OP_CALL_HOST \<Longrightarrow> vm_exec env ch a (pc + 2) d' False"

definition vm_safe :: "VEnv \<Rightarrow> BytecodeChunk \<Rightarrow> AddrSym \<Rightarrow> nat \<Rightarrow> int \<Rightarrow> bool \<Rightarrow> bool" where
  "vm_safe env ch a pc d tracked \<longleftrightarrow> pc < ch_count ch \<and> instr_start (ch_code ch) pc \<and>
     (\<forall>(ops, ts) \<in> set (vm_cases env ch (as_sym a) pc).
        (tracked \<longrightarrow> enough ops d) \<and>
        (\<forall>t \<in> set ts. code_target ch t \<and>
           (tracked \<and> followed env ch pc \<longrightarrow> 0 \<le> d + net ops \<and> d + net ops \<le> int (ve_stack_ceiling env)))) \<and>
     (ch_code ch ! pc = OP_CALL_HOST \<longrightarrow> code_target ch (int (pc + 2)))"

subsection \<open>The handlers against the verifier's effects\<close>

fun needs :: "stack_op list \<Rightarrow> int" where
  "needs [] = 0"
| "needs (Pop # ops) = max 1 (needs ops + 1)"
| "needs (Peek k # ops) = max (int k + 1) (needs ops)"
| "needs (Push # ops) = needs ops - 1"

lemma needs_enough: "needs ops \<le> d \<Longrightarrow> enough ops d"
  by (induction ops d rule: enough.induct) auto

lemma enough_append [simp]: "enough (xs @ ys) d \<longleftrightarrow> enough xs d \<and> enough ys (d + net xs)"
  by (induction xs d rule: enough.induct) (auto simp: algebra_simps)

lemma net_append [simp]: "net (xs @ ys) = net xs + net ys"
  by (induction xs rule: net.induct) auto

lemma net_pops [simp]: "net (replicate n Pop) = - int n"
  by (induction n) auto

lemma enough_pops [simp]: "enough (replicate n Pop) d \<longleftrightarrow> n = 0 \<or> int n \<le> d"
  by (induction n arbitrary: d) auto

lemma net_result: "net (result_of env c) = (if sy_type (ve_syms env ! c) \<noteq> TYPE_VOID then 1 else 0)"
  "enough (result_of env c) d"
  by (simp_all add: result_of_def)

definition agrees :: "VEnv \<Rightarrow> BytecodeChunk \<Rightarrow> nat \<Rightarrow> Effect \<Rightarrow> stack_op list \<times> int list \<Rightarrow> bool" where
  "agrees env ch pc eff c \<longleftrightarrow> set (snd c) \<subseteq> set (succs_at ch pc)
     \<and> (\<forall>d. ef_req eff \<le> d \<longrightarrow> enough (fst c) d)
     \<and> (snd c \<noteq> [] \<and> followed env ch pc \<longrightarrow> \<not> ef_unknown_after eff \<and> net (fst c) = ef_delta eff)"

definition bespoke :: "u8 list" where
  "bespoke = [OP_RETURN, OP_EXIT, OP_HALT, OP_JUMP, OP_JUMP_IF_FALSE, OP_GET_ELEMENT_ADDRESS, OP_LOAD_ELEMENT_VALUE,
     OP_INIT_LOCAL_ARRAY, OP_INIT_FIELD_ARRAY, OP_CALL_BUILTIN_PROC, OP_CALL_BUILTIN, OP_CALL_USER_PROC, OP_CALL,
     OP_CALL_INDIRECT, OP_CALL_METHOD, OP_PROC_CALL_INDIRECT, OP_CALL_HOST, OP_DEFINE_GLOBAL, OP_DEFINE_GLOBAL16,
     OP_DEFINE_GLOBAL_SLOT]"

lemma plain_handlers_page:
  "list_all (\<lambda>(op, n, ops). op \<notin> set bespoke \<and>
     (case pscalOpcodeInfo op of None \<Rightarrow> False
      | Some info \<Rightarrow> pscalOpcodeOperandSpecLength (oi_operands info) = Some n
          \<and> 0 \<le> oi_stack_in info \<and> 0 \<le> oi_stack_out info \<and> needs ops \<le> oi_stack_in info
          \<and> net ops = oi_stack_out info - oi_stack_in info)) plain_handlers"
  by code_simp


lemma classified:
  assumes "instr_decode (ch_code ch) pc = (len, True)" "effect_at env ch sy pc = Some eff"
  obtains info where "pscalOpcodeInfo (ch_code ch ! pc) = Some info"
    "classifyInstruction env ch pc len info sy = Inr eff"
  using assms by (auto simp: effect_at_def split: option.splits sum.splits)

lemma falls_through:
  assumes "instr_decode (ch_code ch) pc = (len, True)"
    "ch_code ch ! pc \<notin> {OP_RETURN, OP_EXIT, OP_HALT, OP_JUMP, OP_JUMP_IF_FALSE}"
  shows "succs_at ch pc = [int (pc + len)]"
  using assms by (simp add: succs_at_def successor_targets_def)

lemma plain_agrees:
  assumes d: "instr_decode (ch_code ch) pc = (len, True)" and eff: "effect_at env ch sy pc = Some eff"
    and c: "c \<in> set (plain_cases ch pc)"
  shows "agrees env ch pc eff c"
proof -
  let ?op = "ch_code ch ! pc"
  obtain n ops where m: "map_of plain_handlers ?op = Some (n, ops)" and c: "c = (ops, [int (pc + 1 + n)])"
    using c by (cases "map_of plain_handlers ?op") (auto simp: plain_cases_def to_here_def)
  obtain info where i: "pscalOpcodeInfo ?op = Some info" "classifyInstruction env ch pc len info sy = Inr eff"
    using classified [OF d eff] .
  have page: "?op \<notin> set bespoke" "pscalOpcodeOperandSpecLength (oi_operands info) = Some n"
    "0 \<le> oi_stack_in info" "0 \<le> oi_stack_out info" "needs ops \<le> oi_stack_in info"
    "net ops = oi_stack_out info - oi_stack_in info"
    using plain_handlers_page map_of_SomeD [OF m] i(1) by (auto simp: list_all_iff)
  have nd: "\<not> define_opcode ?op" "\<not> array_opcode ?op"
    using page(1) by (auto simp: bespoke_def define_opcode_def array_opcode_def)
  have len: "len = 1 + n" using fixed_len [OF d i(1) nd] page(2) by auto
  have pc: "pc < ch_count ch" using d by (simp add: instr_decode_trusted)
  have "eff = known_effect (oi_stack_in info) (oi_stack_out info - oi_stack_in info)"
    using i(2) pc page(1,3,4) by (simp add: classifyInstruction_def bespoke_def Let_def)
  moreover have "succs_at ch pc = [int (pc + 1 + n)]"
    using falls_through [OF d] page(1) len by (simp add: bespoke_def)
  ultimately show ?thesis
    using page(5,6) by (auto simp: agrees_def c known_effect_def intro: needs_enough)
qed

lemma call_lens:
  assumes d: "instr_decode (ch_code ch) pc = (len, True)"
  shows "ch_code ch ! pc = OP_CALL_BUILTIN_PROC \<Longrightarrow> len = 6" "ch_code ch ! pc = OP_CALL_BUILTIN \<Longrightarrow> len = 4"
    "ch_code ch ! pc = OP_CALL_USER_PROC \<Longrightarrow> len = 4" "ch_code ch ! pc = OP_CALL \<Longrightarrow> len = 8"
    "ch_code ch ! pc = OP_CALL_INDIRECT \<Longrightarrow> len = 2" "ch_code ch ! pc = OP_CALL_METHOD \<Longrightarrow> len = 3"
    "ch_code ch ! pc = OP_PROC_CALL_INDIRECT \<Longrightarrow> len = 2" "ch_code ch ! pc = OP_JUMP \<Longrightarrow> len = 5"
    "ch_code ch ! pc = OP_JUMP_IF_FALSE \<Longrightarrow> len = 5" "ch_code ch ! pc = OP_GET_ELEMENT_ADDRESS \<Longrightarrow> len = 2"
    "ch_code ch ! pc = OP_LOAD_ELEMENT_VALUE \<Longrightarrow> len = 2" "ch_code ch ! pc = OP_CALL_HOST \<Longrightarrow> len = 2"
  using call_len [OF d, of 5] call_len [OF d, of 3] call_len [OF d, of 7] call_len [OF d, of 1]
    call_len [OF d, of 2] call_len [OF d, of 4] special_len [OF d, of 1] by simp_all

lemma const_string_constant: "const_string ch idx = Inr (constant_string ch idx)"
  by (simp add: const_string_eq constant_string_def string_of_def)

lemma first_some_SomeD: "first_some f xs = Some y \<Longrightarrow> \<exists>x \<in> set xs. f x = Some y"
  by (induction xs) (auto split: option.splits)

lemma first_some_None: "first_some f xs = None \<longleftrightarrow> (\<forall>x \<in> set xs. f x = None)"
  by (induction xs) (auto split: option.splits)

lemma callee_at_Some:
  "findProcByAddress syms t address = Some r \<Longrightarrow>
     \<exists>s \<in> set (table_symbols t). sy_is_defined (syms ! s) \<and> addr_u32 (sy_bytecode_address (syms ! s)) = address
       \<and> r = resolveSymbolAlias syms s"
proof (induction syms t address rule: findProcByAddress.induct)
  case (1 syms bs address)
  obtain entries s nested where e: "entries \<in> set bs" "(s, nested) \<in> set entries"
    "(if sy_is_defined (syms ! s) \<and> addr_u32 (sy_bytecode_address (syms ! s)) = address
      then Some (resolveSymbolAlias syms s)
      else (case nested of None \<Rightarrow> None | Some t \<Rightarrow> findProcByAddress syms t address)) = Some r"
    using "1.prems" by (fastforce dest!: first_some_SomeD)
  show ?case
  proof (cases "sy_is_defined (syms ! s) \<and> addr_u32 (sy_bytecode_address (syms ! s)) = address")
    case True
    then show ?thesis using e by (auto intro!: bexI [of _ s]) force
  next
    case False
    then obtain t where t: "nested = Some t" "findProcByAddress syms t address = Some r"
      using e(3) by (auto split: if_splits option.splits)
    obtain x where "x \<in> set (table_symbols t)"
      "sy_is_defined (syms ! x) \<and> addr_u32 (sy_bytecode_address (syms ! x)) = address \<and> r = resolveSymbolAlias syms x"
      using "1.IH" [OF e(1,2) refl False t] by blast
    moreover from this have "x \<in> set (table_symbols (HashTable bs))" using e(1,2) t(1) by force
    ultimately show ?thesis by blast
  qed
qed

lemma callee_at_None:
  "findProcByAddress syms t address = None \<Longrightarrow> s \<in> set (table_symbols t) \<Longrightarrow>
     \<not> (sy_is_defined (syms ! s) \<and> addr_u32 (sy_bytecode_address (syms ! s)) = address)"
proof (induction syms t address rule: findProcByAddress.induct)
  case (1 syms bs address)
  obtain entries x nested where e: "entries \<in> set bs" "(x, nested) \<in> set entries"
    "s = x \<or> (\<exists>t. nested = Some t \<and> s \<in> set (table_symbols t))"
    using "1.prems"(2) by (fastforce split: option.splits)
  have no: "(if sy_is_defined (syms ! x) \<and> addr_u32 (sy_bytecode_address (syms ! x)) = address
      then Some (resolveSymbolAlias syms x)
      else (case nested of None \<Rightarrow> None | Some t \<Rightarrow> findProcByAddress syms t address)) = None"
    using "1.prems"(1) e(1,2) by (force simp: first_some_None)
  then have nx: "\<not> (sy_is_defined (syms ! x) \<and> addr_u32 (sy_bytecode_address (syms ! x)) = address)"
    by (auto split: if_splits)
  show ?case
  proof (cases "s = x")
    case False
    then obtain t where t: "nested = Some t" "s \<in> set (table_symbols t)" using e(3) by blast
    then show ?thesis using "1.IH" [OF e(1,2) refl nx t(1)] no nx by auto
  qed (use nx in simp)
qed


lemma sized_dimensions_Suc:
  "sized_dimensions code pos (Suc n) =
     (if u16_at code pos = 0xFFFF \<and> u16_at code (pos + 2) = 0xFFFF then 1 else 0) + sized_dimensions code (pos + 4) n"
proof -
  have "[0..<Suc n] = 0 # map Suc [0..<n]" by (simp only: map_Suc_upt upt_conv_Cons [of 0 "Suc n"] zero_less_Suc)
  then show ?thesis
    by (simp only: sized_dimensions_def filter.simps filter_map length_map o_def list.size)
      (simp add: algebra_simps)
qed

lemma walk_dims_count:
  "walk_dims ch pc n cursor dynamic = Inr (c, k) \<Longrightarrow> cursor + 4 * n \<le> ch_count ch \<Longrightarrow>
     k = dynamic + sized_dimensions (ch_code ch) cursor n"
proof (induction ch pc n cursor dynamic arbitrary: c k rule: walk_dims.induct)
  case (1 ch pc cursor dynamic)
  then show ?case by (simp add: sized_dimensions_def)
next
  case (2 ch pc n cursor dynamic)
  let ?lo = "u16_at (ch_code ch) cursor" and ?hi = "u16_at (ch_code ch) (cursor + 2)"
  have rd: "verifyReadU16BE (ch_code ch) cursor = Inr ?lo"
    "verifyReadU16BE (ch_code ch) (cursor + 2) = Inr ?hi"
    using "2.prems" by (simp_all add: verifyRead_in_range)
  show ?case
  proof (cases "?lo = 0xFFFF \<and> ?hi = 0xFFFF")
    case True
    then show ?thesis using "2.IH"(1) [OF rd True] "2.prems" rd by (simp add: sized_dimensions_Suc)
  next
    case False
    then show ?thesis using "2.IH"(2) [OF rd False] "2.prems" rd by (auto simp: sized_dimensions_Suc result_simps)
  qed
qed

lemma array_sizes:
  assumes d: "instr_decode (ch_code ch) pc = (len, True)" and fit: "pc + len \<le> ch_count ch"
    and op: "ch_code ch ! pc = OP_INIT_LOCAL_ARRAY \<or> ch_code ch ! pc = OP_INIT_FIELD_ARRAY"
    and w: "walkVariablePayload ch pc = Inr k"
  shows "k = sized_dimensions (ch_code ch) (pc + 3) (unat (ch_code ch ! (pc + 2)))"
proof -
  let ?n = "unat (ch_code ch ! (pc + 2))"
  have pc: "pc + 2 < ch_count ch" "pc + 2 + 4 + 4 * ?n \<le> ch_count ch" using array_instr_layout [OF d fit op] .
  then have "walk_bounds ch pc (pc + 2) = Inr k" using w op by (auto simp: walkVariablePayload_def)
  then obtain c where "walk_dims ch pc ?n (pc + 2 + 1) 0 = Inr (c, k)"
    using pc by (auto simp: walk_bounds_def result_simps)
  moreover have "pc + 2 + 1 = pc + 3" by simp
  ultimately have "walk_dims ch pc ?n (pc + 3) 0 = Inr (c, k)" by (simp only:)
  from walk_dims_count [OF this] show ?thesis using pc(2) by simp
qed

lemma one_more_pos: "1 + uint (w :: u8) \<le> d \<Longrightarrow> 0 < d" "uint w + 1 \<le> d \<Longrightarrow> 0 < d"
  using uint_nonnegative [of w] by linarith+

lemma flow_agrees:
  assumes d: "instr_decode (ch_code ch) pc = (len, True)" and fit: "pc + len \<le> ch_count ch"
    and eff: "effect_at env ch sy pc = Some eff" and c: "c \<in> set (vm_cases env ch sy pc)"
    and op: "ch_code ch ! pc \<in> {OP_RETURN, OP_EXIT, OP_HALT, OP_JUMP, OP_JUMP_IF_FALSE, OP_GET_ELEMENT_ADDRESS,
      OP_LOAD_ELEMENT_VALUE, OP_INIT_LOCAL_ARRAY, OP_INIT_FIELD_ARRAY, OP_DEFINE_GLOBAL_SLOT}"
  shows "agrees env ch pc eff c"
proof -
  let ?op = "ch_code ch ! pc"
  obtain info where i: "pscalOpcodeInfo ?op = Some info" "classifyInstruction env ch pc len info sy = Inr eff"
    using classified [OF d eff] .
  have pc: "pc < ch_count ch" using d by (simp add: instr_decode_trusted)
  have page: "list_all (\<lambda>op. map_option (\<lambda>info. (oi_stack_in info, oi_stack_out info)) (pscalOpcodeInfo op)
      = Some (if op = OP_JUMP_IF_FALSE then 1 else 0, 0)) [OP_HALT, OP_JUMP, OP_JUMP_IF_FALSE, OP_DEFINE_GLOBAL_SLOT]"
    by code_simp
  consider "?op = OP_RETURN \<or> ?op = OP_EXIT" | "?op = OP_HALT" | "?op = OP_JUMP \<or> ?op = OP_JUMP_IF_FALSE"
    | "?op = OP_GET_ELEMENT_ADDRESS \<or> ?op = OP_LOAD_ELEMENT_VALUE"
    | "?op = OP_INIT_LOCAL_ARRAY \<or> ?op = OP_INIT_FIELD_ARRAY" | "?op = OP_DEFINE_GLOBAL_SLOT"
    using op by auto
  then show ?thesis
  proof cases
    case 1
    then show ?thesis
      using i(2) pc c by (auto simp: agrees_def vm_cases_def classifyInstruction_def known_effect_def is_function_def
          Let_def split: option.splits if_splits)
  next
    case 2
    then show ?thesis using c by (simp add: agrees_def vm_cases_def)
  next
    case 3
    then have len: "len = 5" using call_lens [OF d] by auto
    then have "verifyReadU32BE (ch_code ch) (pc + 1) = Inr (u32_at (ch_code ch) (pc + 1))"
      using fit by (simp add: verifyRead_in_range)
    then have "succs_at ch pc = (let j = int (pc + 5) + sint (u32_at (ch_code ch) (pc + 1)) in
        if ?op = OP_JUMP then [j] else [j, int (pc + 5)])"
      using 3 len d by (auto simp: succs_at_def successor_targets_def jump_target_def Let_def)
    moreover have "eff = known_effect (if ?op = OP_JUMP then 0 else 1) (if ?op = OP_JUMP then 0 else -1)"
      using 3 i pc page by (auto simp: classifyInstruction_def Let_def)
    ultimately show ?thesis
      using 3 c by (auto simp: agrees_def vm_cases_def known_effect_def Let_def)
  next
    case 4
    then have len: "len = 2" using call_lens [OF d] by auto
    have "eff = known_effect (1 + int (unat (ch_code ch ! (pc + 1)))) (- int (unat (ch_code ch ! (pc + 1))))"
      using 4 i(2) pc len fit by (auto simp: classifyInstruction_def Let_def)
    moreover have "succs_at ch pc = [int (pc + 2)]" using falls_through [OF d] 4 len by auto
    ultimately show ?thesis
      using 4 c by (auto dest: one_more_pos simp: agrees_def vm_cases_def to_here_def known_effect_def Let_def)
  next
    case 5
    let ?k = "sized_dimensions (ch_code ch) (pc + 3) (unat (ch_code ch ! (pc + 2)))"
    have len: "len = 6 + unat (ch_code ch ! (pc + 2)) * 4" using 5 d by (auto simp: instr_decode_trusted Let_def)
    obtain k where w: "walkVariablePayload ch pc = Inr k"
      using 5 i(2) pc by (cases "walkVariablePayload ch pc") (auto simp: classifyInstruction_def Let_def)
    have k: "k = ?k" by (rule array_sizes [OF d fit 5 w])
    have "eff = known_effect ((if ?op = OP_INIT_FIELD_ARRAY then 1 else 0) + int ?k) (- int ?k)"
      using 5 i(2) pc w k by (auto simp: classifyInstruction_def Let_def)
    moreover have "succs_at ch pc = [int (pc + len)]" using falls_through [OF d] 5 by auto
    ultimately show ?thesis
      using 5 c len by (auto simp: agrees_def vm_cases_def to_here_def known_effect_def Let_def)
  next
    case 6
    have "pc + 3 < ch_count ch" "len = define_len (ch_code ch) pc (pc + 3)"
      using 6 d by (auto simp: instr_decode_trusted define_pos_def Let_def)
    then have "int (pc + len) = int (define_end (ch_code ch) (pc + 3))"
      by (auto simp: define_len_def define_end_def)
    moreover have "eff = known_effect 0 0"
      using 6 i pc page by (auto simp: classifyInstruction_def Let_def)
    moreover have "succs_at ch pc = [int (pc + len)]" using falls_through [OF d] 6 by auto
    ultimately show ?thesis
      using 6 c by (auto simp: agrees_def vm_cases_def to_here_def known_effect_def Let_def)
  qed
qed


lemma call_effect_enough:
  "ops \<in> set (call_effects env arity callees) \<Longrightarrow> int arity \<le> d \<Longrightarrow> enough ops d"
  by (auto simp: call_effects_def net_result)

lemma call_effect_net:
  assumes "ops \<in> set (call_effects env arity callees)" "same_result env callees" "t \<in> set callees"
  shows "net ops = - int arity + (if is_function env (Some t) then 1 else 0)"
proof -
  obtain c where c: "c \<in> set callees" "ops = replicate arity Pop @ result_of env c"
    using assms(1) by (auto simp: call_effects_def)
  have "(sy_type (ve_syms env ! c) = TYPE_VOID) = (sy_type (ve_syms env ! t) = TYPE_VOID)"
    using assms(2) c(1) assms(3) unfolding same_result_def by blast
  then show ?thesis by (simp add: c(2) net_result is_function_def)
qed

lemma user_proc_agrees:
  assumes d: "instr_decode (ch_code ch) pc = (len, True)" and fit: "pc + len \<le> ch_count ch"
    and eff: "effect_at env ch sy pc = Some eff" and op: "ch_code ch ! pc = OP_CALL_USER_PROC"
    and c: "c \<in> set (to_here (pc + 4) (user_proc_effects env ch pc))"
  shows "agrees env ch pc eff c"
proof -
  let ?arity = "unat (ch_code ch ! (pc + 3))" and ?lookup = "hashTableLookup (ve_syms env) (ve_procedures env)"
  have len: "len = 4" and last: "pc + len - 1 = pc + 3" using call_lens [OF d] op by auto
  obtain info where i: "pscalOpcodeInfo (ch_code ch ! pc) = Some info"
    "classifyInstruction env ch pc len info sy = Inr eff" using classified [OF d eff] .
  have pc: "pc + 3 < ch_count ch" using fit len by simp
  have rd: "verifyReadU16BE (ch_code ch) (pc + 1) = Inr (u16_at (ch_code ch) (pc + 1))"
    using pc by (simp add: verifyRead_in_range)
  obtain name ops where name: "callee_name ch pc = Some name"
    and ops: "ops \<in> set (call_effects env ?arity (vm_callees_named env name))" and c: "c = (ops, [int (pc + 4)])"
    using c by (cases "callee_name ch pc") (auto simp: to_here_def user_proc_effects_def)
  have e: "eff = (case ?lookup name of None \<Rightarrow> unknown_effect (int ?arity)
      | Some s \<Rightarrow> (let t = resolveSymbolAlias (ve_syms env) s in
          known_effect (int ?arity) (- int ?arity + (if is_function env (Some t) then 1 else 0))))"
    using i(2) op pc last rd name
    by (auto simp: classifyInstruction_def const_string_constant callee_name_def findProcByName_def Let_def
        split: option.splits)
  have net: "net ops = - int ?arity + (if is_function env (Some (resolveSymbolAlias (ve_syms env) s)) then 1 else 0)"
    if "followed env ch pc" "?lookup name = Some s" for s
    by (rule call_effect_net [OF ops]) (use that op name in \<open>simp_all add: followed_def vm_callees_named_def\<close>)
  have req: "ef_req eff = int ?arity" using e by (simp add: known_effect_def unknown_effect_def Let_def split: option.splits)
  have delta: "\<not> ef_unknown_after eff \<and> net ops = ef_delta eff" if f: "followed env ch pc"
  proof -
    obtain s where s: "?lookup name = Some s" using f op name by (auto simp: followed_def)
    show ?thesis using e net [OF f s] s by (simp add: known_effect_def Let_def)
  qed
  have "enough ops v" if "ef_req eff \<le> v" for v using call_effect_enough [OF ops] that req by simp
  moreover have "succs_at ch pc = [int (pc + 4)]" using falls_through [OF d] op len by simp
  ultimately show ?thesis using delta unfolding agrees_def c by simp
qed

lemma call_at_agrees:
  assumes d: "instr_decode (ch_code ch) pc = (len, True)" and fit: "pc + len \<le> ch_count ch"
    and eff: "effect_at env ch sy pc = Some eff" and op: "ch_code ch ! pc = OP_CALL"
    and c: "c \<in> set (to_here (pc + 8) (call_effects env (unat (ch_code ch ! (pc + 7)))
                (vm_callees_at env (unat (u32_at (ch_code ch) (pc + 3))))))"
  shows "agrees env ch pc eff c"
proof -
  let ?arity = "unat (ch_code ch ! (pc + 7))" and ?addr = "unat (u32_at (ch_code ch) (pc + 3))"
  let ?find = "findProcByAddress (ve_syms env) (ve_procedures env) ?addr"
  have len: "len = 8" and last: "pc + len - 1 = pc + 7" using call_lens [OF d] op by auto
  obtain info where i: "pscalOpcodeInfo (ch_code ch ! pc) = Some info"
    "classifyInstruction env ch pc len info sy = Inr eff" using classified [OF d eff] .
  have pc: "pc + 7 < ch_count ch" using fit len by simp
  have rd: "verifyReadU32BE (ch_code ch) (pc + 3) = Inr (u32_at (ch_code ch) (pc + 3))"
    using pc by (simp add: verifyRead_in_range)
  obtain ops where ops: "ops \<in> set (call_effects env ?arity (vm_callees_at env ?addr))" and c: "c = (ops, [int (pc + 8)])"
    using c by (auto simp: to_here_def)
  have e: "eff = (case ?find of None \<Rightarrow> unknown_effect (int ?arity)
      | Some t \<Rightarrow> known_effect (int ?arity) (- int ?arity + (if is_function env (Some t) then 1 else 0)))"
    using i(2) op pc last rd by (auto simp: classifyInstruction_def Let_def split: option.splits)
  have req: "ef_req eff = int ?arity" using e by (simp add: known_effect_def unknown_effect_def split: option.splits)
  have delta: "\<not> ef_unknown_after eff \<and> net ops = ef_delta eff" if f: "followed env ch pc"
  proof -
    have r: "routines_at env ?addr \<noteq> []" "same_result env (vm_callees_at env ?addr)"
      using f op by (simp_all add: followed_def Let_def)
    then obtain t where t: "?find = Some t" using callee_at_None [of "ve_syms env" "ve_procedures env" ?addr]
      by (cases ?find) (auto simp: routines_at_def filter_empty_conv)
    then have "t \<in> set (vm_callees_at env ?addr)"
      using callee_at_Some [OF t] by (auto simp: vm_callees_at_def routines_at_def)
    then show ?thesis using call_effect_net [OF ops r(2)] e t by (simp add: known_effect_def)
  qed
  have "enough ops v" if "ef_req eff \<le> v" for v using call_effect_enough [OF ops] that req by simp
  moreover have "succs_at ch pc = [int (pc + 8)]" using falls_through [OF d] op len by simp
  ultimately show ?thesis using delta unfolding agrees_def c by simp
qed

lemma call_agrees:
  assumes d: "instr_decode (ch_code ch) pc = (len, True)" and fit: "pc + len \<le> ch_count ch"
    and eff: "effect_at env ch sy pc = Some eff" and c: "c \<in> set (call_cases env ch pc)"
  shows "agrees env ch pc eff c"
proof -
  let ?op = "ch_code ch ! pc" and ?byte = "\<lambda>k. unat (ch_code ch ! (pc + k))"
  obtain info where i: "pscalOpcodeInfo ?op = Some info" "classifyInstruction env ch pc len info sy = Inr eff"
    using classified [OF d eff] .
  have pc: "pc < ch_count ch" using d by (simp add: instr_decode_trusted)
  consider "?op = OP_CALL_BUILTIN_PROC" | "?op = OP_CALL_BUILTIN" | "?op = OP_CALL_USER_PROC" | "?op = OP_CALL"
    | "?op = OP_CALL_INDIRECT" | "?op = OP_CALL_METHOD" | "?op = OP_PROC_CALL_INDIRECT"
    using c by (auto simp: call_cases_def Let_def split: if_splits)
  then show ?thesis
  proof cases
    case 1
    then have len: "len = 6" and last: "pc + len - 1 = pc + 5" "pc + 5 < ch_count ch" using call_lens [OF d] fit by auto
    have "eff = known_effect (int (?byte 5)) (- int (?byte 5))"
      using 1 i(2) pc last by (simp add: classifyInstruction_def Let_def)
    moreover have "succs_at ch pc = [int (pc + 6)]" using falls_through [OF d] 1 len by simp
    ultimately show ?thesis using 1 c by (auto simp: agrees_def call_cases_def to_here_def known_effect_def Let_def)
  next
    case 2
    then have len: "len = 4" and last: "pc + len - 1 = pc + 3" "pc + 3 < ch_count ch" using call_lens [OF d] fit by auto
    have rd: "verifyReadU16BE (ch_code ch) (pc + 1) = Inr (u16_at (ch_code ch) (pc + 1))"
      using last by (simp add: verifyRead_in_range)
    obtain t where t: "builtin_type_at env ch pc = Some t"
      and cc: "c = (replicate (?byte 3) Pop @ (if t = BUILTIN_TYPE_FUNCTION then [Push] else []), [int (pc + 4)])"
      using 2 c by (cases "builtin_type_at env ch pc")
        (auto simp: call_cases_def builtin_effects_def to_here_def Let_def)
    have "eff = known_effect (int (?byte 3)) ((if t = BUILTIN_TYPE_PROCEDURE then 0 else 1) - int (?byte 3))"
      using 2 i(2) pc last rd t
      by (auto simp: classifyInstruction_def const_string_constant builtin_type_at_def Let_def split: option.splits)
    moreover have "succs_at ch pc = [int (pc + 4)]" using falls_through [OF d] 2 len by simp
    moreover have "followed env ch pc \<Longrightarrow> t \<noteq> BUILTIN_TYPE_NONE" using 2 t by (simp add: followed_def)
    ultimately show ?thesis unfolding agrees_def cc by (cases t) (auto simp: known_effect_def)
  next
    case 3
    then show ?thesis using user_proc_agrees [OF d fit eff 3] c by (simp add: call_cases_def Let_def)
  next
    case 4
    then show ?thesis using call_at_agrees [OF d fit eff 4] c by (simp add: call_cases_def Let_def)
  next
    case 5
    then have len: "len = 2" using call_lens [OF d] by auto
    have "eff = unknown_effect (int (?byte 1) + 1)"
      using 5 i(2) pc len fit by (simp add: classifyInstruction_def Let_def)
    moreover have "succs_at ch pc = [int (pc + 2)]" using falls_through [OF d] 5 len by simp
    moreover have "\<not> followed env ch pc" using 5 by (simp add: followed_def)
    ultimately show ?thesis
      using 5 c by (auto dest: one_more_pos simp: agrees_def call_cases_def to_here_def unknown_effect_def Let_def)
  next
    case 6
    then have len: "len = 3" using call_lens [OF d] by auto
    have "eff = unknown_effect (int (?byte 2) + 1)"
      using 6 i(2) pc len fit by (simp add: classifyInstruction_def Let_def)
    moreover have "succs_at ch pc = [int (pc + 3)]" using falls_through [OF d] 6 len by simp
    moreover have "\<not> followed env ch pc" using 6 by (simp add: followed_def)
    ultimately show ?thesis
      using 6 c by (auto dest: one_more_pos simp: agrees_def call_cases_def to_here_def unknown_effect_def Let_def)
  next
    case 7
    then have len: "len = 2" using call_lens [OF d] by auto
    have "eff = known_effect (int (?byte 1) + 1) (- (int (?byte 1) + 1))"
      using 7 i(2) pc len fit by (simp add: classifyInstruction_def Let_def)
    moreover have "succs_at ch pc = [int (pc + 2)]" using falls_through [OF d] 7 len by simp
    ultimately show ?thesis
      using 7 c by (auto dest: one_more_pos simp: agrees_def call_cases_def to_here_def known_effect_def Let_def)
  qed
qed


subsection \<open>Execution on an accepted chunk\<close>

lemma handler_agrees:
  assumes d: "instr_decode (ch_code ch) pc = (len, True)" and fit: "pc + len \<le> ch_count ch"
    and eff: "effect_at env ch sy pc = Some eff" and c: "c \<in> set (vm_cases env ch sy pc)"
  shows "agrees env ch pc eff c \<or>
    (\<exists>n. map_of plain_handlers (ch_code ch ! pc) = Some (n, [Push]) \<and> fused_store ch (pc + 1 + n)
      \<and> c = ([Pop], [int (pc + 1 + n + 2)]))"
proof -
  let ?op = "ch_code ch ! pc"
  have a: "map_of plain_handlers OP_GET_GSLOT_ADDRESS = Some (2, [Push])"
    "map_of plain_handlers OP_GET_LOCAL_ADDRESS = Some (1, [Push])" by code_simp+
  consider "?op \<in> {OP_RETURN, OP_EXIT, OP_HALT, OP_JUMP, OP_JUMP_IF_FALSE, OP_GET_ELEMENT_ADDRESS,
      OP_LOAD_ELEMENT_VALUE, OP_INIT_LOCAL_ARRAY, OP_INIT_FIELD_ARRAY, OP_DEFINE_GLOBAL_SLOT}"
    | "c \<in> set (plain_cases ch pc)" | "c \<in> set (call_cases env ch pc)"
    | "?op = OP_GET_GSLOT_ADDRESS" "fused_store ch (pc + 3)" "c = ([Pop], [int (pc + 5)])"
    | "?op = OP_GET_LOCAL_ADDRESS" "fused_store ch (pc + 2)" "c = ([Pop], [int (pc + 4)])"
    using c unfolding vm_cases_def Let_def by (auto simp: to_here_def split: if_splits)
  then show ?thesis
  proof cases
    case 1
    then show ?thesis using flow_agrees [OF d fit eff c] by blast
  next
    case 2
    then show ?thesis using plain_agrees [OF d eff] by blast
  next
    case 3
    then show ?thesis using call_agrees [OF d fit eff] by blast
  next
    case 4
    then show ?thesis using a by (intro disjI2 exI [of _ 2]) (simp add: numeral_3_eq_3)
  next
    case 5
    then show ?thesis using a by (intro disjI2 exI [of _ 1]) (simp add: numeral_2_eq_2)
  qed
qed

lemma reach_instr:
  assumes "pscalVerifyBytecodeChunk env ch = Inr ()" "a \<in> set (frame_entries env ch)" "reach env ch a pc dv"
  obtains len eff where "instr_decode (ch_code ch) pc = (len, True)" "pc + len \<le> ch_count ch"
    "pc < ch_count ch" "instr_start (ch_code ch) pc" "effect_at env ch (as_sym a) pc = Some eff"
    "\<And>v. dv = Some v \<Longrightarrow> ef_req eff \<le> v"
    "\<And>v. dv = Some v \<Longrightarrow> \<not> ef_unknown_after eff \<Longrightarrow>
       0 \<le> v + ef_delta eff \<and> v + ef_delta eff \<le> int (ve_stack_ceiling env)"
    "\<And>t. t \<in> set (succs_at ch pc) \<Longrightarrow> code_target ch t"
proof -
  obtain b where b: "verifyInstructionStream ch = Inr b" using verified_tables [OF assms(1,2)] by blast
  have s: "instr_safe env ch (as_sym a) pc dv" by (rule abstract_run_safe [OF assms])
  obtain len where "instr_decode (ch_code ch) pc = (len, True)" "pc + len \<le> ch_count ch"
    using stream_instr [OF b] s by (auto simp: instr_safe_def)
  then show ?thesis using that s unfolding instr_safe_def by blast
qed

text \<open>One plain instruction of the abstract execution, in terms of its handler.\<close>

lemma reach_plain:
  assumes v: "pscalVerifyBytecodeChunk env ch = Inr ()" "a \<in> set (frame_entries env ch)" "reach env ch a pc dv"
    and m: "map_of plain_handlers (ch_code ch ! pc) = Some (n, ops)"
  shows "reach env ch a (pc + 1 + n) (map_option (\<lambda>v. v + net ops) dv)" "code_target ch (int (pc + 1 + n))"
    and "\<And>v. dv = Some v \<Longrightarrow> enough ops v \<and> 0 \<le> v + net ops \<and> v + net ops \<le> int (ve_stack_ceiling env)"
proof -
  obtain len eff where d: "instr_decode (ch_code ch) pc = (len, True)" and e: "effect_at env ch (as_sym a) pc = Some eff"
    and req: "\<And>v. dv = Some v \<Longrightarrow> ef_req eff \<le> v"
    and post: "\<And>v. dv = Some v \<Longrightarrow> \<not> ef_unknown_after eff \<Longrightarrow>
       0 \<le> v + ef_delta eff \<and> v + ef_delta eff \<le> int (ve_stack_ceiling env)"
    and tgt: "\<And>t. t \<in> set (succs_at ch pc) \<Longrightarrow> code_target ch t" by (rule reach_instr [OF v]) blast
  have "ch_code ch ! pc \<notin> set bespoke"
    using plain_handlers_page map_of_SomeD [OF m] by (auto simp: list_all_iff)
  then have "followed env ch pc" by (auto simp: followed_def bespoke_def Let_def)
  then have ag: "int (pc + 1 + n) \<in> set (succs_at ch pc)" "\<And>v. ef_req eff \<le> v \<Longrightarrow> enough ops v"
    "\<not> ef_unknown_after eff" "net ops = ef_delta eff"
    using plain_agrees [OF d e, of "(ops, [int (pc + 1 + n)])"] m
    by (auto simp: agrees_def plain_cases_def to_here_def)
  have "depth_after eff dv = map_option (\<lambda>v. v + net ops) dv"
    using ag(3,4) by (simp add: depth_after_def split: option.splits)
  then show "reach env ch a (pc + 1 + n) (map_option (\<lambda>v. v + net ops) dv)"
    using reach.flow [OF v(3) e ag(1)] by (simp only: nat_int)
  show "code_target ch (int (pc + 1 + n))" using tgt ag(1) by blast
  show "\<And>v. dv = Some v \<Longrightarrow> enough ops v \<and> 0 \<le> v + net ops \<and> v + net ops \<le> int (ve_stack_ceiling env)"
    using req post ag by metis
qed

lemma reach_fused:
  assumes v: "pscalVerifyBytecodeChunk env ch = Inr ()" "a \<in> set (frame_entries env ch)" "reach env ch a pc dv"
    and m: "map_of plain_handlers (ch_code ch ! pc) = Some (n, [Push])" and f: "fused_store ch (pc + 1 + n)"
  shows "reach env ch a (pc + 1 + n + 2) (map_option (\<lambda>v. v - 1) dv)" "code_target ch (int (pc + 1 + n + 2))"
    and "\<And>v. dv = Some v \<Longrightarrow> 0 < v \<and> v - 1 \<le> int (ve_stack_ceiling env)"
proof -
  have st: "map_of plain_handlers OP_SWAP = Some (0, [Peek 1, Peek 0])"
    "map_of plain_handlers OP_SET_INDIRECT = Some (0, [Pop, Pop])" by code_simp+
  note r1 = reach_plain [OF v m]
  note r2 = reach_plain [OF v(1,2) r1(1), of 0 "[Peek 1, Peek 0]"]
  have m2: "map_of plain_handlers (ch_code ch ! (pc + 1 + n)) = Some (0, [Peek 1, Peek 0])"
    using f st(1) by (simp add: fused_store_def)
  have m3: "map_of plain_handlers (ch_code ch ! (pc + 1 + n + 1 + 0)) = Some (0, [Pop, Pop])"
    using f st(2) by (simp add: fused_store_def)
  note r3 = reach_plain [OF v(1,2) r2(1) [OF m2] m3]
  show "reach env ch a (pc + 1 + n + 2) (map_option (\<lambda>v. v - 1) dv)"
    using r3(1) by (simp add: option.map_comp o_def)
  show "code_target ch (int (pc + 1 + n + 2))" using r3(2) by (simp add: algebra_simps)
  show "\<And>v. dv = Some v \<Longrightarrow> 0 < v \<and> v - 1 \<le> int (ve_stack_ceiling env)"
    using r2(3) [OF m2] r3(3) by fastforce
qed

lemma exec_reach:
  assumes v: "pscalVerifyBytecodeChunk env ch = Inr ()" "a \<in> set (frame_entries env ch)"
    and x: "vm_exec env ch a pc d tracked"
  shows "\<exists>dv. reach env ch a pc dv \<and> (tracked \<longrightarrow> dv = Some d)"
  using x
proof induction
  case start
  then show ?case using reach.entry by blast
next
  case (step pc d tracked ops ts t)
  then obtain dv where r: "reach env ch a pc dv" "tracked \<longrightarrow> dv = Some d" by blast
  obtain len eff where i: "instr_decode (ch_code ch) pc = (len, True)" "pc + len \<le> ch_count ch"
    "effect_at env ch (as_sym a) pc = Some eff" by (rule reach_instr [OF v r(1)]) blast
  from handler_agrees [OF i step.hyps(2)] show ?case
  proof (elim disjE exE conjE)
    assume ag: "agrees env ch pc eff (ops, ts)"
    then have "reach env ch a (nat t) (depth_after eff dv)"
      using reach.flow [OF r(1) i(3)] step.hyps(3) by (auto simp: agrees_def)
    moreover have "depth_after eff dv = Some (d + net ops)" if "tracked \<and> followed env ch pc"
      using ag that r(2) step.hyps(3) by (auto simp: agrees_def depth_after_def)
    ultimately show ?thesis by blast
  next
    fix n assume f: "map_of plain_handlers (ch_code ch ! pc) = Some (n, [Push])" "fused_store ch (pc + 1 + n)"
      "(ops, ts) = ([Pop], [int (pc + 1 + n + 2)])"
    then have "nat t = pc + 1 + n + 2" "net ops = - 1" using step.hyps(3) by auto
    then show ?thesis using reach_fused(1) [OF v r(1) f(1,2)] r(2) by auto
  qed
next
  case (host pc d tracked d')
  then obtain dv where r: "reach env ch a pc dv" by blast
  obtain len eff where i: "instr_decode (ch_code ch) pc = (len, True)" "effect_at env ch (as_sym a) pc = Some eff"
    by (rule reach_instr [OF v r]) blast
  have "int (pc + 2) \<in> set (succs_at ch pc)"
    using falls_through [OF i(1)] call_lens(12) [OF i(1)] host.hyps(2) by simp
  from reach.flow [OF r i(2) this] show ?case by (auto simp only: nat_int)
qed


text \<open>On the demonstration chunk, after the constant and the condition have been pushed.\<close>

lemma demo_exec: "vm_exec demo_env demo_chunk \<lparr>as_addr = 0, as_sym = None\<rparr> 2 2 True"
proof -
  let ?a = "\<lparr>as_addr = 0, as_sym = None\<rparr>"
  have c: "vm_cases demo_env demo_chunk None 0 = [([Push], [1])]" "vm_cases demo_env demo_chunk None 1 = [([Push], [2])]"
    "followed demo_env demo_chunk 0" "followed demo_env demo_chunk 1" by code_simp+
  have "vm_exec demo_env demo_chunk ?a 1 1 True"
    using vm_exec.step [OF vm_exec.start [of demo_env demo_chunk ?a], of "[Push]" "[1]" 1] c by simp
  then show ?thesis using vm_exec.step [of demo_env demo_chunk ?a 1 1 True "[Push]" "[2]" 2] c by simp
qed



subsection \<open>A shadowed name\<close>

text \<open>The verifier takes the callee of a call by name from the global table, the interpreter from the routines nested in
  the calling one first. Where a procedure nested in the caller has the name of a global function, an accepted
  chunk pops a result that was never pushed, off the frame's own locals.\<close>

definition shadow_env :: VEnv where
  "shadow_env =
     (let caller = demo_proc\<lparr>sy_name := ''g'', sy_bytecode_address := 1\<rparr>;
          outer = demo_proc\<lparr>sy_name := ''hh'', sy_type := TYPE_INT32, sy_bytecode_address := 7\<rparr>;
          inner = demo_proc\<lparr>sy_name := ''hh'', sy_enclosing := Some 0, sy_bytecode_address := 9\<rparr> in
      demo_env\<lparr>ve_syms := [caller, outer, inner],
        ve_procedures := HashTable [[(1, None), (0, Some (HashTable [[(2, None)]]))]]\<rparr>)"

definition shadow_chunk :: BytecodeChunk where
  "shadow_chunk = (initBytecodeChunk 9 0)\<lparr>
     ch_constants := [VString TYPE_STRING (Some ''hh'')],
     ch_code := [OP_HALT, OP_CALL_USER_PROC, 0, 0, 0, OP_POP, OP_RETURN, OP_CONST_0, OP_RETURN, OP_RETURN]\<rparr>"

lemma shadowed_call_accepted:
  "pscalVerifyBytecodeChunk shadow_env shadow_chunk = Inr ()"
  "\<lparr>as_addr = 1, as_sym = Some 0\<rparr> \<in> set (frame_entries shadow_env shadow_chunk)"
  by code_simp+

lemma shadowed_call_underflows:
  "([], [5]) \<in> set (vm_cases shadow_env shadow_chunk (Some 0) 1)"
  "vm_cases shadow_env shadow_chunk (Some 0) 5 = [([Pop], [6])]" "\<not> enough [Pop] 0"
  by code_simp+

end
