(* ===== verification/Codec.thy ===== *)
theory Codec
  imports Diagmap
begin

section \<open>The byte codec of cache files\<close>

text \<open>
  The primitives of \<open>core/cache.c\<close> through which every byte of a PSB3 file goes: the growing
  buffer the writers append to (\<open>ByteBuf\<close>), the bounds-checked cursor the readers advance
  (\<open>Cursor\<close>), the little-endian integers, the LEB128 and zigzag varints, the length-prefixed
  strings and the nesting counter. A reader answers \<open>Inl ReadOutside\<close> where the C code would
  touch memory outside the section it was given; a truncated or malformed section is the
  cursor's sticky \<open>error\<close> flag, as in the source.

  Two predicates carry the proofs of the section readers. \<open>safe m\<close>: on a well-formed cursor \<open>m\<close>
  never faults, never moves back, never clears the error flag. \<open>parses d m bs x\<close>: on the bytes
  \<open>bs\<close>, with \<open>d\<close> levels of nesting left, \<open>m\<close> consumes exactly \<open>bs\<close> and yields \<open>x\<close>. Both
  compose along the sequencing of readers. The locale \<open>codec\<close> pairs a writer with a reader.
\<close>

named_theorems buf_simps \<open>what the writers append\<close>
named_theorems safe_intros \<open>readers that stay inside their section\<close>
named_theorems parse_intros \<open>readers that invert their writers\<close>

subsection \<open>Little-endian integers\<close>

fun le_bytes :: "nat \<Rightarrow> 'a::len word \<Rightarrow> byte list" where
  "le_bytes 0 v = []"
| "le_bytes (Suc n) v = ucast v # le_bytes n (drop_bit 8 v)"

fun le_word :: "byte list \<Rightarrow> 'a::len word" where
  "le_word [] = 0"
| "le_word (b # bs) = ucast b OR push_bit 8 (le_word bs)"

lemma length_le_bytes [simp]: "length (le_bytes n v) = n"
  by (induction n arbitrary: v) simp_all

lemma le_word_le_bytes: "le_word (le_bytes n v) = take_bit (8 * n) (v :: 'a::len word)"
proof (induction n arbitrary: v)
  case (Suc n)
  have "le_word (le_bytes (Suc n) v) = ucast (ucast v :: byte) OR push_bit 8 (take_bit (8 * n) (drop_bit 8 v))"
    by (simp add: Suc)
  also have "\<dots> = take_bit (8 * Suc n) v"
    by (rule bit_word_eqI) (auto simp: bit_or_iff bit_push_bit_iff bit_take_bit_iff bit_drop_bit_eq bit_ucast_iff)
  finally show ?case .
qed simp

lemma le_word_u16: "le_word (le_bytes 2 v) = (v :: u16)"
  and le_word_u32: "le_word (le_bytes 4 w) = (w :: u32)"
  and le_word_u64: "le_word (le_bytes 8 x) = (x :: u64)"
  by (simp_all add: le_word_le_bytes take_bit_word_eq_self)

subsection \<open>The output buffer\<close>

text \<open>\<open>len\<close> is the length of the bytes written; the cells between \<open>len\<close> and \<open>cap\<close> are not kept.\<close>

record ByteBuf =
  bb_data :: "byte list"
  bb_cap :: nat

definition bufInit :: ByteBuf where
  "bufInit = \<lparr>bb_data = [], bb_cap = 0\<rparr>"

definition bufReserve :: "nat \<Rightarrow> ByteBuf \<Rightarrow> ByteBuf" where
  "bufReserve extra b =
     (if length (bb_data b) + extra \<le> bb_cap b then b
      else b\<lparr>bb_cap := grow_cap (if bb_cap b \<noteq> 0 then bb_cap b * 2 else 64) (length (bb_data b) + extra)\<rparr>)"

definition bufBytes :: "byte list \<Rightarrow> ByteBuf \<Rightarrow> ByteBuf" where
  "bufBytes p b =
     (if p = [] then b
      else let b1 = bufReserve (length p) b in b1\<lparr>bb_data := bb_data b1 @ p\<rparr>)"

definition bufU8 :: "byte \<Rightarrow> ByteBuf \<Rightarrow> ByteBuf" where
  "bufU8 v b = bufBytes [v] b"

definition bufU16LE :: "u16 \<Rightarrow> ByteBuf \<Rightarrow> ByteBuf" where
  "bufU16LE v b = bufBytes [ucast v, ucast (drop_bit 8 v)] b"

definition bufU32LE :: "u32 \<Rightarrow> ByteBuf \<Rightarrow> ByteBuf" where
  "bufU32LE v b =
     bufBytes [ucast v, ucast (drop_bit 8 v), ucast (drop_bit 16 v), ucast (drop_bit 24 v)] b"

definition bufU64LE :: "u64 \<Rightarrow> ByteBuf \<Rightarrow> ByteBuf" where
  "bufU64LE v b = bufBytes (map (\<lambda>i. ucast (drop_bit (8 * i) v)) [0..<8]) b"

definition bufI32LE :: "int \<Rightarrow> ByteBuf \<Rightarrow> ByteBuf" where
  "bufI32LE v b = bufU32LE (word_of_int v) b"

text \<open>Reals are their bit patterns throughout.\<close>

definition bufF32LE :: "u32 \<Rightarrow> ByteBuf \<Rightarrow> ByteBuf" where
  "bufF32LE bits b = bufU32LE bits b"

definition bufF64LE :: "u64 \<Rightarrow> ByteBuf \<Rightarrow> ByteBuf" where
  "bufF64LE bits b = bufU64LE bits b"

lemma unat_drop7: "unat (drop_bit 7 (v :: u64)) = unat v div 128"
proof -
  have "unat v < 2 ^ 64" using unsigned_less [where 'a = nat, of v] by simp
  then have "take_bit 64 (unat v) = unat v" by (rule take_bit_nat_eq_self)
  then show ?thesis by (simp add: unsigned_drop_bit_eq drop_bit_nat_def)
qed

lemma drop_bit7_less: "(v :: u64) \<noteq> 0 \<Longrightarrow> unat (drop_bit 7 v) < unat v"
  by (simp add: unat_drop7 unat_gt_0)

function bufVarint :: "u64 \<Rightarrow> ByteBuf \<Rightarrow> ByteBuf" where
  "bufVarint v b =
     (let byte = ucast (v AND 0x7F);
          v' = drop_bit 7 v
      in if v' \<noteq> 0 then bufVarint v' (bufU8 (byte OR 0x80) b) else bufU8 byte b)"
  by auto
termination
proof (relation "measure (\<lambda>(v, b). unat v)")
  fix v :: u64 and b :: ByteBuf and byte :: u8 and v' :: u64
  assume "v' = drop_bit 7 v" "v' \<noteq> 0"
  then have "v \<noteq> 0" by auto
  then show "((v', bufU8 (byte OR 0x80) b), v, b) \<in> measure (\<lambda>(v, b). unat v)"
    using drop_bit7_less \<open>v' = drop_bit 7 v\<close> by simp
qed simp

declare bufVarint.simps [simp del]

text \<open>A signed 64-bit value is its bit pattern; its value as an integer is \<open>sint\<close> of it. The
  right shift of a signed operand is the arithmetic one.\<close>

definition zigzag :: "u64 \<Rightarrow> u64" where
  "zigzag v = push_bit 1 v XOR signed_drop_bit 63 v"

definition unzigzag :: "u64 \<Rightarrow> u64" where
  "unzigzag z = drop_bit 1 z XOR - (z AND 1)"

definition bufSVarint :: "u64 \<Rightarrow> ByteBuf \<Rightarrow> ByteBuf" where
  "bufSVarint v b = bufVarint (zigzag v) b"

definition bufLenPrefixedBytes :: "byte list \<Rightarrow> ByteBuf \<Rightarrow> ByteBuf" where
  "bufLenPrefixedBytes p b = bufBytes p (bufVarint (word_of_nat (length p)) b)"

subsection \<open>What the writers append\<close>

function varint_bytes :: "u64 \<Rightarrow> byte list" where
  "varint_bytes v =
     (if drop_bit 7 v \<noteq> 0 then (ucast (v AND 0x7F) OR 0x80) # varint_bytes (drop_bit 7 v)
      else [ucast (v AND 0x7F)])"
  by auto
termination
proof (relation "measure unat")
  fix v :: u64
  assume "drop_bit 7 v \<noteq> 0"
  then have "v \<noteq> 0" by auto
  then show "(drop_bit 7 v, v) \<in> measure unat" using drop_bit7_less by simp
qed simp

declare varint_bytes.simps [simp del]

definition len_prefixed :: "byte list \<Rightarrow> byte list" where
  "len_prefixed p = varint_bytes (word_of_nat (length p)) @ p"

lemma varint_bytes_ne [simp]: "varint_bytes v \<noteq> []"
  by (subst varint_bytes.simps) simp

lemma reserve_data [simp]: "bb_data (bufReserve n b) = bb_data b"
  by (simp add: bufReserve_def)

lemma bufBytes_data [buf_simps]: "bb_data (bufBytes p b) = bb_data b @ p"
  by (simp add: bufBytes_def Let_def)

lemma bufU8_data [buf_simps]: "bb_data (bufU8 v b) = bb_data b @ [v]"
  by (simp add: bufU8_def buf_simps)

lemma bufU16LE_data [buf_simps]: "bb_data (bufU16LE v b) = bb_data b @ le_bytes 2 v"
  by (simp add: bufU16LE_def buf_simps numeral_2_eq_2)

lemma bufU32LE_data [buf_simps]: "bb_data (bufU32LE v b) = bb_data b @ le_bytes 4 v"
  by (simp add: bufU32LE_def buf_simps eval_nat_numeral)

lemma bufU64LE_data [buf_simps]: "bb_data (bufU64LE v b) = bb_data b @ le_bytes 8 v"
  by (simp add: bufU64LE_def buf_simps eval_nat_numeral)

lemma bufI32LE_data [buf_simps]: "bb_data (bufI32LE v b) = bb_data b @ le_bytes 4 (word_of_int v :: u32)"
  by (simp add: bufI32LE_def buf_simps)

lemma bufF32LE_data [buf_simps]: "bb_data (bufF32LE v b) = bb_data b @ le_bytes 4 v"
  by (simp add: bufF32LE_def buf_simps)

lemma bufF64LE_data [buf_simps]: "bb_data (bufF64LE v b) = bb_data b @ le_bytes 8 v"
  by (simp add: bufF64LE_def buf_simps)

lemma bufVarint_data [buf_simps]: "bb_data (bufVarint v b) = bb_data b @ varint_bytes v"
proof (induction v b rule: bufVarint.induct)
  case (1 v b)
  show ?case
    by (subst bufVarint.simps, subst varint_bytes.simps) (auto simp: Let_def 1 buf_simps)
qed

lemma bufSVarint_data [buf_simps]: "bb_data (bufSVarint v b) = bb_data b @ varint_bytes (zigzag v)"
  by (simp add: bufSVarint_def buf_simps)

lemma bufLenPrefixedBytes_data [buf_simps]: "bb_data (bufLenPrefixedBytes p b) = bb_data b @ len_prefixed p"
  by (simp add: bufLenPrefixedBytes_def len_prefixed_def buf_simps)

text \<open>The copy of \<open>bufBytes\<close> lands inside the allocation.\<close>

definition buf_wf :: "ByteBuf \<Rightarrow> bool" where
  "buf_wf b \<longleftrightarrow> length (bb_data b) \<le> bb_cap b"

lemma bufReserve_room: "length (bb_data b) + n \<le> bb_cap (bufReserve n b)"
  by (auto simp: bufReserve_def intro!: grow_cap_ge)

lemma bufBytes_wf: "buf_wf b \<Longrightarrow> buf_wf (bufBytes p b)"
  using bufReserve_room [of b "length p"] by (simp add: buf_wf_def bufBytes_def Let_def)

lemma bufInit_wf: "buf_wf bufInit"
  by (simp add: buf_wf_def bufInit_def)

interpretation out_buf: byte_sink bufU8 bb_data
  by unfold_locales (simp add: buf_simps)

subsection \<open>Readers\<close>

datatype codec_fault = ReadOutside

record Cursor =
  cu_data :: "byte list"
  cu_size :: nat
  cu_pos :: nat
  cu_error :: bool
  cu_depth :: nat
  cu_too_deep :: bool

type_synonym 'a reader = "Cursor \<Rightarrow> codec_fault + ('a \<times> Cursor)"

definition curInit :: "byte list \<Rightarrow> nat \<Rightarrow> Cursor" where
  "curInit data len =
     \<lparr>cu_data = data, cu_size = len, cu_pos = 0, cu_error = False, cu_depth = 0, cu_too_deep = False\<rparr>"

definition rret :: "'a \<Rightarrow> 'a reader" where
  "rret x c = Inr (x, c)"

definition rbind :: "'a reader \<Rightarrow> ('a \<Rightarrow> 'b reader) \<Rightarrow> 'b reader" where
  "rbind m f c = ebind (m c) (\<lambda>(x, c'). f x c')"

text \<open>Reading the flag, setting it, and the bytes that are left.\<close>

definition curError :: "bool reader" where
  "curError c = Inr (cu_error c, c)"

definition curFail :: "unit reader" where
  "curFail c = Inr ((), c\<lparr>cu_error := True\<rparr>)"

definition curRemaining :: "nat reader" where
  "curRemaining c = Inr (cu_size c - cu_pos c, c)"

definition CACHE_MAX_NESTING :: nat where
  "CACHE_MAX_NESTING = 1000"

definition curEnterNested :: "bool reader" where
  "curEnterNested c =
     (if CACHE_MAX_NESTING \<le> cu_depth c then Inr (False, c\<lparr>cu_error := True, cu_too_deep := True\<rparr>)
      else Inr (True, c\<lparr>cu_depth := cu_depth c + 1\<rparr>))"

definition curLeaveNested :: "unit reader" where
  "curLeaveNested c = Inr ((), c\<lparr>cu_depth := cu_depth c - 1\<rparr>)"

definition curEnsure :: "nat \<Rightarrow> bool reader" where
  "curEnsure n c =
     (if cu_error c then Inr (False, c)
      else if cu_size c - cu_pos c < n then Inr (False, c\<lparr>cu_error := True\<rparr>)
      else Inr (True, c))"

text \<open>The memory accesses: \<open>n\<close> bytes from the current position, which then moves past them.\<close>

definition curLoad :: "nat \<Rightarrow> byte list reader" where
  "curLoad n c =
     (if cu_pos c + n \<le> length (cu_data c)
      then Inr (take n (drop (cu_pos c) (cu_data c)), c\<lparr>cu_pos := cu_pos c + n\<rparr>)
      else Inl ReadOutside)"

definition curU8 :: "byte reader" where
  "curU8 = rbind (curEnsure 1) (\<lambda>b. if \<not> b then rret 0
     else rbind (curLoad 1) (\<lambda>p. rret (p ! 0)))"

definition curU16LE :: "u16 reader" where
  "curU16LE = rbind (curEnsure 2) (\<lambda>b. if \<not> b then rret 0
     else rbind (curLoad 2) (\<lambda>p. rret (le_word p)))"

definition curU32LE :: "u32 reader" where
  "curU32LE = rbind (curEnsure 4) (\<lambda>b. if \<not> b then rret 0
     else rbind (curLoad 4) (\<lambda>p. rret (le_word p)))"

definition curU64LE :: "u64 reader" where
  "curU64LE = rbind (curEnsure 8) (\<lambda>b. if \<not> b then rret 0
     else rbind (curLoad 8) (\<lambda>p. rret (le_word p)))"

definition curI32LE :: "int reader" where
  "curI32LE = rbind curU32LE (\<lambda>w. rret (sint w))"

definition curF32LE :: "u32 reader" where
  "curF32LE = curU32LE"

definition curF64LE :: "u64 reader" where
  "curF64LE = curU64LE"

text \<open>\<open>None\<close> is the result \<open>false\<close>, with nothing copied.\<close>

definition curBytes :: "nat \<Rightarrow> byte list option reader" where
  "curBytes n = rbind (curEnsure n) (\<lambda>b. if \<not> b then rret None
     else rbind (curLoad n) (\<lambda>p. rret (Some p)))"

text \<open>The loop of \<open>curVarint\<close>: a tenth byte is still taken, at shift 63.\<close>

function curVarint_from :: "u64 \<Rightarrow> nat \<Rightarrow> u64 reader" where
  "curVarint_from result shift c =
     (if cu_error c \<or> 63 < shift then Inr (0, c\<lparr>cu_error := True\<rparr>)
      else ebind (curU8 c) (\<lambda>(byte, c1).
        if cu_error c1 then Inr (0, c1)
        else let result' = result OR push_bit shift (ucast (byte AND 0x7F))
             in if byte AND 0x80 = 0 then Inr (result', c1)
                else curVarint_from result' (shift + 7) c1))"
  by auto
termination by (relation "measure (\<lambda>(r, s, c). 64 - s)") auto

declare curVarint_from.simps [simp del]

definition curVarint :: "u64 reader" where
  "curVarint = curVarint_from 0 0"

definition curSVarint :: "u64 reader" where
  "curSVarint = rbind curVarint (\<lambda>z. rret (unzigzag z))"

definition curLenPrefixedString :: "byte list option reader" where
  "curLenPrefixedString = rbind curVarint (\<lambda>len. rbind curError (\<lambda>e c.
     if e \<or> cu_size c < unat len then rbind curFail (\<lambda>_. rret None) c
     else curBytes (unat len) c))"

subsection \<open>Readers stay inside their section\<close>

definition cur_wf :: "Cursor \<Rightarrow> bool" where
  "cur_wf c \<longleftrightarrow> cu_pos c \<le> cu_size c \<and> cu_size c \<le> length (cu_data c)"

definition cur_later :: "Cursor \<Rightarrow> Cursor \<Rightarrow> bool" where
  "cur_later c c' \<longleftrightarrow> cu_data c' = cu_data c \<and> cu_size c' = cu_size c \<and> cu_pos c \<le> cu_pos c'
     \<and> (cu_error c \<longrightarrow> cu_error c')"

definition safe :: "'a reader \<Rightarrow> bool" where
  "safe m \<longleftrightarrow> (\<forall>c. cur_wf c \<longrightarrow> (\<exists>x c'. m c = Inr (x, c') \<and> cur_wf c' \<and> cur_later c c'))"

lemma cur_later_refl [simp]: "cur_later c c"
  by (simp add: cur_later_def)

lemma cur_later_trans: "cur_later a b \<Longrightarrow> cur_later b c \<Longrightarrow> cur_later a c"
  by (auto simp: cur_later_def)

lemma safeI: "(\<And>c. cur_wf c \<Longrightarrow> \<exists>x c'. m c = Inr (x, c') \<and> cur_wf c' \<and> cur_later c c') \<Longrightarrow> safe m"
  by (simp add: safe_def)

lemma safeE:
  assumes "safe m" "cur_wf c"
  obtains x c' where "m c = Inr (x, c')" "cur_wf c'" "cur_later c c'"
  using assms by (auto simp: safe_def)

lemma safe_rret [safe_intros]: "safe (rret x)"
  by (rule safeI) (simp add: rret_def)

lemma safe_rbind [safe_intros]:
  assumes m: "safe m" and f: "\<And>x. safe (f x)" shows "safe (rbind m f)"
proof (rule safeI)
  fix c assume "cur_wf c"
  then obtain x c1 where 1: "m c = Inr (x, c1)" "cur_wf c1" "cur_later c c1" by (rule safeE [OF m])
  obtain y c2 where 2: "f x c1 = Inr (y, c2)" "cur_wf c2" "cur_later c1 c2" by (rule safeE [OF f 1(2)])
  show "\<exists>y c'. rbind m f c = Inr (y, c') \<and> cur_wf c' \<and> cur_later c c'"
    using 1 2 cur_later_trans by (auto simp: rbind_def)
qed

lemma safe_if [safe_intros]: "(b \<Longrightarrow> safe m) \<Longrightarrow> (\<not> b \<Longrightarrow> safe m') \<Longrightarrow> safe (if b then m else m')"
  by simp

lemma safe_let [safe_intros]: "(\<And>x. x = e \<Longrightarrow> safe (f x)) \<Longrightarrow> safe (let x = e in f x)"
  by simp

lemma safe_option [safe_intros]:
  "safe m \<Longrightarrow> (\<And>x. safe (f x)) \<Longrightarrow> safe (case r of None \<Rightarrow> m | Some x \<Rightarrow> f x)"
  by (cases r) simp_all

lemma safe_flags [safe_intros]: "safe curError" "safe curFail" "safe curRemaining"
    "safe curEnterNested" "safe curLeaveNested" "safe (curEnsure n)"
  by (auto simp: safe_def curError_def curFail_def curRemaining_def curEnterNested_def
      curLeaveNested_def curEnsure_def cur_wf_def cur_later_def)

text \<open>A load is guarded by \<open>curEnsure\<close>; only the pair of them is safe.\<close>

lemma ensure_load:
  "cur_wf c \<Longrightarrow> rbind (curEnsure n) (\<lambda>b. if \<not> b then rret x else rbind (curLoad n) (\<lambda>p. rret (f p))) c =
     (if cu_error c then Inr (x, c)
      else if cu_size c - cu_pos c < n then Inr (x, c\<lparr>cu_error := True\<rparr>)
      else Inr (f (take n (drop (cu_pos c) (cu_data c))), c\<lparr>cu_pos := cu_pos c + n\<rparr>))"
  by (auto simp: rbind_def curEnsure_def curLoad_def rret_def cur_wf_def)

lemma safe_ensure_load [safe_intros]:
  "safe (rbind (curEnsure n) (\<lambda>b. if \<not> b then rret x else rbind (curLoad n) (\<lambda>p. rret (f p))))"
  by (rule safeI) (auto simp: ensure_load, auto simp: cur_wf_def cur_later_def)

lemma safe_fixed [safe_intros]:
  "safe curU8" "safe curU16LE" "safe curU32LE" "safe curU64LE" "safe curF32LE" "safe curF64LE"
  "safe (curBytes n)"
  unfolding curU8_def curU16LE_def curU32LE_def curU64LE_def curF32LE_def curF64LE_def
      curBytes_def by (rule safe_ensure_load)+

lemma safe_curI32LE [safe_intros]: "safe curI32LE"
  unfolding curI32LE_def by (intro safe_intros)

lemma safe_varint_from: "safe (curVarint_from r s)"
proof (rule safeI)
  fix c assume "cur_wf c"
  then show "\<exists>x c'. curVarint_from r s c = Inr (x, c') \<and> cur_wf c' \<and> cur_later c c'"
  proof (induction r s c rule: curVarint_from.induct)
    case (1 r s c)
    show ?case
    proof (cases "cu_error c \<or> 63 < s")
      case True
      then show ?thesis using 1(2)
        by (subst curVarint_from.simps) (auto simp: cur_wf_def cur_later_def)
    next
      case False
      obtain b c1 where b: "curU8 c = Inr (b, c1)" "cur_wf c1" "cur_later c c1"
        by (rule safeE [OF safe_fixed(1) 1(2)])
      let ?r = "r OR push_bit s (ucast (b AND 0x7F))"
      show ?thesis
      proof (cases "cu_error c1 \<or> b AND 0x80 = 0")
        case True
        then show ?thesis using b False
          by (subst curVarint_from.simps) (auto simp: Let_def)
      next
        case more: False
        then have "\<exists>x c'. curVarint_from ?r (s + 7) c1 = Inr (x, c') \<and> cur_wf c' \<and> cur_later c1 c'"
          using 1(1) [OF False b(1) refl _ refl] b(2) by simp
        then show ?thesis using b False more cur_later_trans
          by (subst curVarint_from.simps) (auto simp: Let_def)
      qed
    qed
  qed
qed

lemma safe_varint [safe_intros]: "safe curVarint"
  by (simp add: curVarint_def safe_varint_from)

lemma safe_svarint [safe_intros]: "safe curSVarint"
  unfolding curSVarint_def by (intro safe_intros)

lemma safe_lenPrefixed [safe_intros]: "safe curLenPrefixedString"
proof -
  have *: "safe (\<lambda>c. if e \<or> cu_size c < k then rbind curFail (\<lambda>_. rret None) c else curBytes n c)"
    for e k n
  proof (rule safeI)
    fix c assume c: "cur_wf c"
    have "safe (rbind curFail (\<lambda>_. rret (None :: byte list option)))" by (intro safe_intros)
    then show "\<exists>x c'. (if e \<or> cu_size c < k then rbind curFail (\<lambda>_. rret None) c else curBytes n c)
        = Inr (x, c') \<and> cur_wf c' \<and> cur_later c c'"
      using safe_fixed(7) [of n] c by (auto simp: safe_def)
  qed
  show ?thesis unfolding curLenPrefixedString_def by (intro safe_intros *)
qed

subsection \<open>Readers invert the writers\<close>

definition at :: "Cursor \<Rightarrow> byte list \<Rightarrow> bool" where
  "at c bs \<longleftrightarrow> cur_wf c \<and> \<not> cu_error c \<and> cu_pos c + length bs \<le> cu_size c
     \<and> take (length bs) (drop (cu_pos c) (cu_data c)) = bs"

abbreviation adv :: "nat \<Rightarrow> Cursor \<Rightarrow> Cursor" where
  "adv n c \<equiv> c\<lparr>cu_pos := cu_pos c + n\<rparr>"

definition parses :: "nat \<Rightarrow> 'a reader \<Rightarrow> byte list \<Rightarrow> 'a \<Rightarrow> bool" where
  "parses d m bs x \<longleftrightarrow> (\<forall>c. at c bs \<longrightarrow> cu_depth c + d \<le> CACHE_MAX_NESTING \<longrightarrow>
     m c = Inr (x, adv (length bs) c))"

lemma parsesI:
  "(\<And>c. at c bs \<Longrightarrow> cu_depth c + d \<le> CACHE_MAX_NESTING \<Longrightarrow> m c = Inr (x, adv (length bs) c)) \<Longrightarrow> parses d m bs x"
  by (simp add: parses_def)

lemma parsesD: "parses d m bs x \<Longrightarrow> at c bs \<Longrightarrow> cu_depth c + d \<le> CACHE_MAX_NESTING \<Longrightarrow>
    m c = Inr (x, adv (length bs) c)"
  by (simp add: parses_def)

lemma at_append:
  assumes "at c (xs @ ys)" shows "at c xs" "at (adv (length xs) c) ys"
proof -
  let ?d = "drop (cu_pos c) (cu_data c)"
  have t: "take (length xs + length ys) ?d = xs @ ys" and p: "cu_pos c + length xs + length ys \<le> cu_size c"
    and w: "cur_wf c" "\<not> cu_error c"
    using assms by (auto simp: at_def)
  have "take (length xs) ?d = take (length xs) (take (length xs + length ys) ?d)"
    by (simp add: min_def)
  also have "\<dots> = xs" by (simp add: t)
  finally show "at c xs" using p w by (simp add: at_def)
  have "take (length ys) (drop (length xs) ?d) = drop (length xs) (take (length xs + length ys) ?d)"
    by (simp add: drop_take)
  also have "\<dots> = ys" by (simp add: t)
  finally show "at (adv (length xs) c) ys" using p w by (simp add: at_def cur_wf_def add.commute)
qed

lemma at_noerror: "at c bs \<Longrightarrow> \<not> cu_error c"
  by (simp add: at_def)

lemma parses_weaken: "parses d m bs x \<Longrightarrow> d \<le> d' \<Longrightarrow> parses d' m bs x"
  by (auto simp: parses_def)

lemma parses_rret [parse_intros]: "parses d (rret x) [] x"
  by (simp add: parses_def rret_def)

lemma parses_rbind:
  assumes m: "parses d m xs x" and f: "parses d (f x) ys y"
  shows "parses d (rbind m f) (xs @ ys) y"
proof (rule parsesI)
  fix c assume a: "at c (xs @ ys)" and d: "cu_depth c + d \<le> CACHE_MAX_NESTING"
  show "rbind m f c = Inr (y, adv (length (xs @ ys)) c)"
    using parsesD [OF m at_append(1) [OF a] d] parsesD [OF f at_append(2) [OF a]] d
    by (simp add: rbind_def add.assoc)
qed

text \<open>Two forms of the rule: after a reader that takes nothing, and at the end.\<close>

lemma parses_rbind0:
  assumes "parses d m [] x" "parses d (f x) ys y"
  shows "parses d (rbind m f) ys y"
  using parses_rbind [of d m "[]" x f ys y] assms by simp

lemma parses_rbind_last:
  assumes "parses d m xs x" "parses d (f x) [] y"
  shows "parses d (rbind m f) xs y"
  using parses_rbind [of d m xs x f "[]" y] assms by simp

lemma parses_curError [parse_intros]: "parses d curError [] False"
  by (auto simp: parses_def curError_def at_def)

lemma parses_if_False: "parses d m' bs x \<Longrightarrow> \<not> b \<Longrightarrow> parses d (if b then m else m') bs x"
  and parses_if_True: "parses d m bs x \<Longrightarrow> b \<Longrightarrow> parses d (if b then m else m') bs x"
  by simp_all

lemma parses_ensure_load:
  "n = length bs \<Longrightarrow>
   parses d (rbind (curEnsure n) (\<lambda>b. if \<not> b then rret x else rbind (curLoad n) (\<lambda>p. rret (f p)))) bs (f bs)"
  by (rule parsesI) (auto simp: ensure_load at_def)

lemma parses_curU8 [parse_intros]: "parses d curU8 [v] v"
  unfolding curU8_def using parses_ensure_load [of 1 "[v]" d 0 "\<lambda>p. p ! 0"] by simp

lemma parses_curU16LE [parse_intros]: "parses d curU16LE (le_bytes 2 v) v"
proof -
  have "parses d curU16LE (le_bytes 2 v) (le_word (le_bytes 2 v))"
    unfolding curU16LE_def by (rule parses_ensure_load) simp
  then show ?thesis by (simp only: le_word_u16)
qed

lemma parses_curU32LE [parse_intros]: "parses d curU32LE (le_bytes 4 v) v"
proof -
  have "parses d curU32LE (le_bytes 4 v) (le_word (le_bytes 4 v))"
    unfolding curU32LE_def by (rule parses_ensure_load) simp
  then show ?thesis by (simp only: le_word_u32)
qed

lemma parses_curU64LE [parse_intros]: "parses d curU64LE (le_bytes 8 v) v"
proof -
  have "parses d curU64LE (le_bytes 8 v) (le_word (le_bytes 8 v))"
    unfolding curU64LE_def by (rule parses_ensure_load) simp
  then show ?thesis by (simp only: le_word_u64)
qed

lemma parses_curI32LE [parse_intros]: "parses d curI32LE (le_bytes 4 (word_of_int i :: u32)) (to_int32 i)"
  unfolding curI32LE_def to_int32_def
  by (rule parses_rbind_last [OF parses_curU32LE]) (rule parses_rret)

lemma parses_curF32LE [parse_intros]: "parses d curF32LE (le_bytes 4 v) v"
  by (simp add: curF32LE_def parses_curU32LE)

lemma parses_curF64LE [parse_intros]: "parses d curF64LE (le_bytes 8 v) v"
  by (simp add: curF64LE_def parses_curU64LE)

lemma parses_curBytes: "n = length bs \<Longrightarrow> parses d (curBytes n) bs (Some bs)"
  using parses_ensure_load [of n bs d None Some] by (simp only: curBytes_def)

text \<open>Varints: the bits read so far and those still to come make up the number.\<close>

lemma bit_7F [simp]: "bit (0x7F :: 'a::len word) n \<longleftrightarrow> n < 7 \<and> n < LENGTH('a)"
proof -
  have "(0x7F :: 'a word) = mask 7" by (simp add: mask_eq_exp_minus_1)
  then show ?thesis by (simp only: bit_mask_iff) auto
qed

lemma bit_80 [simp]: "bit (0x80 :: byte) n \<longleftrightarrow> n = 7"
proof -
  have "(0x80 :: byte) = push_bit 7 1" by simp
  then show ?thesis by (simp only: bit_push_bit_iff bit_1_iff) auto
qed

lemma push_split7: "push_bit s (ucast (ucast (v AND 0x7F) :: byte)) OR push_bit (s + 7) (drop_bit 7 v)
    = push_bit s (v :: u64)"
proof (rule bit_word_eqI)
  fix n assume "n < LENGTH(64)"
  then show "bit (push_bit s (ucast (ucast (v AND 0x7F) :: byte)) OR push_bit (s + 7) (drop_bit 7 v)) n
      = bit (push_bit s v) n"
    unfolding bit_or_iff bit_push_bit_iff bit_drop_bit_eq bit_ucast_iff bit_and_iff bit_7F
    by (cases "n < 7 + s") auto
qed

lemma low7_high: "(ucast (v AND 0x7F) :: byte) AND 0x80 = 0"
    "(ucast ((v :: u64) AND 0x7F) OR 0x80 :: byte) AND 0x80 \<noteq> 0"
    "(ucast (v AND 0x7F) OR 0x80 :: byte) AND 0x7F = ucast (v AND 0x7F)"
    "(ucast (v AND 0x7F) :: byte) AND 0x7F = ucast (v AND 0x7F)"
proof -
  note bs = bit_or_iff bit_ucast_iff bit_and_iff
  show "(ucast (v AND 0x7F) :: byte) AND 0x80 = 0"
    by (rule bit_word_eqI, unfold bs bit_7F bit_80) auto
  show "(ucast (v AND 0x7F) OR 0x80 :: byte) AND 0x7F = ucast (v AND 0x7F)"
    by (rule bit_word_eqI, unfold bs bit_7F bit_80) auto
  show "(ucast (v AND 0x7F) :: byte) AND 0x7F = ucast (v AND 0x7F)"
    by (rule bit_word_eqI, unfold bs bit_7F bit_80) auto
  have "bit ((ucast (v AND 0x7F) OR 0x80 :: byte) AND 0x80) 7"
    unfolding bs bit_80 by simp
  then show "(ucast (v AND 0x7F) OR 0x80 :: byte) AND 0x80 \<noteq> 0"
    by (metis bit_0_eq bot_fun_def bot_bool_def)
qed

lemma varint_shift:
  assumes "s \<le> 63" "unat v < 2 ^ (64 - s)" "drop_bit 7 v \<noteq> (0 :: u64)"
  shows "s + 7 \<le> 63" "unat (drop_bit 7 v) < 2 ^ (64 - (s + 7))"
proof -
  have u: "unat (drop_bit 7 v) = unat v div 128" by (rule unat_drop7)
  have "unat (drop_bit 7 v) \<noteq> 0" using assms(3) by (simp add: unat_eq_zero)
  then have big: "2 ^ 7 \<le> unat v" using u by (simp add: div_greater_zero_iff)
  then have "(2::nat) ^ 7 < 2 ^ (64 - s)" using assms(2) by linarith
  then have "7 < 64 - s" by (rule power_less_imp_less_exp [rotated]) simp
  then show s7: "s + 7 \<le> 63" by simp
  have "64 - s = (64 - (s + 7)) + 7" using s7 by simp
  then have "(2::nat) ^ (64 - s) = 2 ^ ((64 - (s + 7)) + 7)" by (rule arg_cong)
  also have "\<dots> = 2 ^ (64 - (s + 7)) * 2 ^ 7" by (rule power_add)
  finally show "unat (drop_bit 7 v) < 2 ^ (64 - (s + 7))" using u assms(2) by (simp add: less_mult_imp_div_less)
qed

lemma parses_varint_from:
  "s \<le> 63 \<Longrightarrow> unat v < 2 ^ (64 - s) \<Longrightarrow>
   parses d (curVarint_from r s) (varint_bytes v) (r OR push_bit s v)"
proof (induction v arbitrary: r s rule: varint_bytes.induct)
  case (1 v)
  let ?lo = "ucast (v AND 0x7F) :: byte" and ?v' = "drop_bit 7 v"
  show ?case
  proof (rule parsesI)
    fix c assume a: "at c (varint_bytes v)" and dep: "cu_depth c + d \<le> CACHE_MAX_NESTING"
    show "curVarint_from r s c = Inr (r OR push_bit s v, adv (length (varint_bytes v)) c)"
    proof (cases "?v' = 0")
      case True
      then have vb: "varint_bytes v = [?lo]" by (subst varint_bytes.simps) simp
      have "push_bit s (ucast ?lo) = push_bit s v" using push_split7 [of s v] True by simp
      moreover have "curU8 c = Inr (?lo, adv 1 c)"
        using parsesD [OF parses_curU8 _ dep, of ?lo] a vb by simp
      ultimately show ?thesis using at_noerror [OF a] 1(2)
        by (subst curVarint_from.simps) (simp add: Let_def low7_high vb)
    next
      case False
      then have vb: "varint_bytes v = [?lo OR 0x80] @ varint_bytes ?v'"
        by (subst varint_bytes.simps) simp
      note s7 = varint_shift(1) [OF 1(2,3) False] and small = varint_shift(2) [OF 1(2,3) False]
      have b: "curU8 c = Inr (?lo OR 0x80, adv 1 c)"
        using parsesD [OF parses_curU8 at_append(1) dep] a vb by fastforce
      have "at (adv 1 c) (varint_bytes ?v')" using at_append(2) [of c "[?lo OR 0x80]"] a vb by simp
      with parsesD [OF 1(1) [OF False s7 small], of "adv 1 c"] dep
      have "curVarint_from (r OR push_bit s (ucast ?lo)) (s + 7) (adv 1 c)
          = Inr ((r OR push_bit s (ucast ?lo)) OR push_bit (s + 7) ?v', adv (length (varint_bytes ?v')) (adv 1 c))"
        by simp
      then show ?thesis using at_noerror [OF a] 1(2) b
        by (subst curVarint_from.simps) (simp add: Let_def low7_high vb or.assoc push_split7)
    qed
  qed
qed

lemma parses_curVarint [parse_intros]: "parses d curVarint (varint_bytes v) v"
  using parses_varint_from [of 0 v d 0] unsigned_less [where 'a = nat, of v] by (simp add: curVarint_def)

lemma bit_zigzag: "bit (zigzag v) n \<longleftrightarrow> n < 64 \<and> ((0 < n \<and> bit v (n - 1)) \<noteq> bit v 63)"
  unfolding zigzag_def bit_xor_iff bit_push_bit_iff bit_signed_drop_bit_iff
  by (cases "n < 64") (auto simp: Suc_le_eq dest: bit_imp_le_length)

lemma unzigzag_zigzag: "unzigzag (zigzag v) = v"
proof -
  have one: "zigzag v AND 1 = (if bit v 63 then 1 else 0)"
    by (rule bit_word_eqI) (auto simp: bit_and_iff bit_1_iff bit_zigzag)
  have "bit (drop_bit 1 (zigzag v)) n = (bit v n \<noteq> bit v 63)" if "n < 64" for n
    using that unfolding bit_drop_bit_eq by (cases "n = 63") (auto simp: bit_zigzag)
  then show ?thesis
    unfolding unzigzag_def one
    by (intro bit_word_eqI) (auto simp: bit_xor_iff)
qed

lemma parses_curSVarint [parse_intros]: "parses d curSVarint (varint_bytes (zigzag v)) v"
proof -
  have "parses d (rret (unzigzag (zigzag v))) [] v"
    using parses_rret [of d v] by (simp add: unzigzag_zigzag)
  then show ?thesis
    unfolding curSVarint_def by (rule parses_rbind_last [OF parses_curVarint])
qed

lemma parses_lenPrefixed [parse_intros]:
  assumes "length p < 2 ^ 64"
  shows "parses d curLenPrefixedString (len_prefixed p) (Some p)"
proof -
  have n: "unat (word_of_nat (length p) :: u64) = length p"
    using assms by (simp add: unsigned_of_nat take_bit_nat_eq_self)
  have body: "parses d (\<lambda>c. if e \<or> cu_size c < length p then rbind curFail (\<lambda>_. rret None) c
      else curBytes (length p) c) p (Some p)" if "\<not> e" for e
  proof (rule parsesI)
    fix c assume a: "at c p" and dep: "cu_depth c + d \<le> CACHE_MAX_NESTING"
    then show "(if e \<or> cu_size c < length p then rbind curFail (\<lambda>_. rret None) c
        else curBytes (length p) c) = Inr (Some p, adv (length p) c)"
      using that parsesD [OF parses_curBytes a dep] by (auto simp: at_def)
  qed
  show ?thesis
    unfolding curLenPrefixedString_def len_prefixed_def
    by (rule parses_rbind [OF parses_curVarint], rule parses_rbind0 [OF parses_curError],
        simp only: n) (rule body, simp)
qed

subsection \<open>Codecs\<close>

text \<open>Reading \<open>n\<close> items one after the other, and the contract of a writer and its reader.\<close>

fun rrepeat :: "nat \<Rightarrow> 'a reader \<Rightarrow> 'a list reader" where
  "rrepeat 0 m = rret []"
| "rrepeat (Suc n) m = rbind m (\<lambda>x. rbind (rrepeat n m) (\<lambda>xs. rret (x # xs)))"

lemma safe_rrepeat [safe_intros]: "safe m \<Longrightarrow> safe (rrepeat n m)"
  by (induction n) (auto intro!: safe_intros)

lemma parses_rrepeat:
  assumes "\<And>x. x \<in> set xs \<Longrightarrow> parses d m (enc x) (seen x)"
  shows "parses d (rrepeat (length xs) m) (concat (map enc xs)) (map seen xs)"
  using assms
proof (induction xs)
  case Nil
  show ?case by (simp add: parses_rret)
next
  case (Cons x xs)
  have "parses d (rbind (rrepeat (length xs) m) (\<lambda>ys. rret (seen x # ys))) (concat (map enc xs))
      (seen x # map seen xs)"
    by (rule parses_rbind_last [OF Cons.IH parses_rret]) (use Cons.prems in simp)
  with Cons.prems show ?case by (auto intro!: parses_rbind)
qed

locale codec =
  fixes valid :: "'a \<Rightarrow> bool"
    and nesting :: "'a \<Rightarrow> nat"
    and seen :: "'a \<Rightarrow> 'b"
    and enc :: "'a \<Rightarrow> byte list"
    and put :: "'a \<Rightarrow> ByteBuf \<Rightarrow> ByteBuf"
    and get :: "'b reader"
  assumes put_enc: "bb_data (put x b) = bb_data b @ enc x"
    and get_enc: "valid x \<Longrightarrow> parses (nesting x) get (enc x) (seen x)"
    and get_safe: "safe get"
begin

lemma fold_put: "bb_data (fold put xs b) = bb_data b @ concat (map enc xs)"
  by (induction xs arbitrary: b) (simp_all add: put_enc)

lemma get_enc_weak: "valid x \<Longrightarrow> nesting x \<le> d \<Longrightarrow> parses d get (enc x) (seen x)"
  by (rule parses_weaken [OF get_enc])

lemma rrepeat_enc:
  "\<forall>x \<in> set xs. valid x \<and> nesting x \<le> d \<Longrightarrow>
   parses d (rrepeat (length xs) get) (concat (map enc xs)) (map seen xs)"
  by (rule parses_rrepeat) (auto intro: get_enc_weak)

text \<open>What was written is what a cursor on the written bytes reads back, and the cursor is then
  at the end of what was written.\<close>

lemma get_after_put:
  assumes "valid x" "nesting x \<le> CACHE_MAX_NESTING" "bb_data b = []"
  shows "get (curInit (bb_data (put x b) @ rest) (length (bb_data (put x b) @ rest)))
    = Inr (seen x, adv (length (enc x)) (curInit (enc x @ rest) (length (enc x @ rest))))"
  using parsesD [OF get_enc [OF assms(1)], of "curInit (enc x @ rest) (length (enc x @ rest))"] assms(2)
  by (simp add: put_enc assms(3) at_def cur_wf_def curInit_def)

text \<open>On any bytes at all, the reader returns with the cursor inside the section.\<close>

lemma get_total:
  "n \<le> length data \<Longrightarrow> \<exists>x c. get (curInit data n) = Inr (x, c) \<and> cu_pos c \<le> n"
proof -
  assume "n \<le> length data"
  then have "cur_wf (curInit data n)" by (simp add: cur_wf_def curInit_def)
  then obtain x c where "get (curInit data n) = Inr (x, c)" "cur_wf c" "cur_later (curInit data n) c"
    by (rule safeE [OF get_safe])
  then show ?thesis by (auto simp: cur_wf_def cur_later_def curInit_def)
qed

end

interpretation u8_codec: codec "\<lambda>_. True" "\<lambda>_. 0" "\<lambda>v. v" "\<lambda>v. [v]" bufU8 curU8
  by unfold_locales (simp_all add: buf_simps parse_intros safe_intros)

interpretation u16_codec: codec "\<lambda>_. True" "\<lambda>_. 0" "\<lambda>v. v" "le_bytes 2" bufU16LE curU16LE
  by unfold_locales (simp_all add: buf_simps parse_intros safe_intros)

interpretation u32_codec: codec "\<lambda>_. True" "\<lambda>_. 0" "\<lambda>v. v" "le_bytes 4" bufU32LE curU32LE
  by unfold_locales (simp_all add: buf_simps parse_intros safe_intros)

interpretation u64_codec: codec "\<lambda>_. True" "\<lambda>_. 0" "\<lambda>v. v" "le_bytes 8" bufU64LE curU64LE
  by unfold_locales (simp_all add: buf_simps parse_intros safe_intros)

interpretation varint_codec: codec "\<lambda>_. True" "\<lambda>_. 0" "\<lambda>v. v" varint_bytes bufVarint curVarint
  by unfold_locales (simp_all add: buf_simps parse_intros safe_intros)

interpretation svarint_codec: codec "\<lambda>_. True" "\<lambda>_. 0" "\<lambda>v. v" "\<lambda>v. varint_bytes (zigzag v)" bufSVarint curSVarint
  by unfold_locales (simp_all add: buf_simps parse_intros safe_intros)

lemma length_varint: "unat v < 2 ^ (7 * k) \<Longrightarrow> 0 < k \<Longrightarrow> length (varint_bytes v) \<le> k"
proof (induction v arbitrary: k rule: varint_bytes.induct)
  case (1 v)
  show ?case
  proof (cases "drop_bit 7 v = 0")
    case True
    then show ?thesis using 1(3) by (subst varint_bytes.simps) simp
  next
    case False
    then obtain j where k: "k = Suc j" using 1(3) by (cases k) auto
    have "unat (drop_bit 7 v) \<noteq> 0" using False by (simp add: unat_eq_zero)
    then have j: "0 < j" using 1(2) k by (cases j) (auto simp: unat_drop7)
    have "unat (drop_bit 7 v) < 2 ^ (7 * j)"
      using 1(2) k by (simp add: unat_drop7 less_mult_imp_div_less power_add mult.commute)
    from 1(1) [OF False this j] False k show ?thesis by (subst varint_bytes.simps) simp
  qed
qed

lemma length_varint_10: "length (varint_bytes v) \<le> 10"
proof (rule length_varint)
  have "unat v < 2 ^ 64" using unsigned_less [where 'a = nat, of v] by simp
  also have "(2::nat) ^ 64 \<le> 2 ^ (7 * 10)" by (rule power_increasing) simp_all
  finally show "unat v < 2 ^ (7 * 10)" .
qed simp

subsection \<open>Properties\<close>

text \<open>Every signed 64-bit number written by \<open>bufSVarint\<close>, whatever follows it in the buffer,
  is read back by \<open>curSVarint\<close>, which consumes exactly the bytes written (between 1 and 10).\<close>

theorem svarint_roundtrip:
  "curSVarint (curInit (bb_data (bufBytes rest (bufSVarint v bufInit)))
       (length (bb_data (bufBytes rest (bufSVarint v bufInit)))))
     = Inr (v, (curInit (bb_data (bufBytes rest (bufSVarint v bufInit)))
          (length (bb_data (bufBytes rest (bufSVarint v bufInit)))))
            \<lparr>cu_pos := length (bb_data (bufSVarint v bufInit))\<rparr>)
   \<and> 1 \<le> length (bb_data (bufSVarint v bufInit)) \<and> length (bb_data (bufSVarint v bufInit)) \<le> 10"
proof -
  let ?e = "varint_bytes (zigzag v)"
  have d: "bb_data (bufSVarint v bufInit) = ?e" "bb_data (bufBytes rest (bufSVarint v bufInit)) = ?e @ rest"
    by (simp_all add: buf_simps bufInit_def)
  let ?c = "curInit (?e @ rest) (length (?e @ rest))"
  have "curSVarint ?c = Inr (v, adv (length ?e) ?c)"
    using svarint_codec.get_after_put [where x = v and b = bufInit and rest = rest]
    unfolding d(1) by (simp add: bufInit_def)
  moreover have "1 \<le> length ?e" by (simp add: Suc_le_eq)
  ultimately show ?thesis
    unfolding d using length_varint_10 by (simp add: curInit_def)
qed

end
