(* ===== verification/Psb3.thy ===== *)
theory Psb3
  imports Codec Chunk
begin

section \<open>PSB3 files\<close>

text \<open>
  The container of \<open>core/cache.c\<close> and the sections that hold a chunk's code, its line table and
  its builtin map: the writers (\<open>writeCodeSection\<close>, \<open>writeLinesSection\<close>, \<open>writeBmapSection\<close> and
  the container part of \<open>psb3Write\<close>), the readers that load them back (\<open>readCodeSection\<close>,
  \<open>readLinesSection\<close>, \<open>readBmapSection\<close>, \<open>psb3ParseHeader\<close>, \<open>psb3FindSection\<close>), the META section
  and the FNV-1a hash that the fingerprints and the integrity check use. A reader that returns
  \<open>false\<close> leaves a chunk its caller resets, so it is \<open>None\<close> here. Allocation never fails.
\<close>

subsection \<open>The FNV-1a hash\<close>

definition FNV1A64_OFFSET :: u64 where
  "FNV1A64_OFFSET = 1469598103934665603"

definition FNV1A64_PRIME :: u64 where
  "FNV1A64_PRIME = 1099511628211"

definition fnv1aUpdate :: "byte list \<Rightarrow> u64 \<Rightarrow> u64" where
  "fnv1aUpdate bytes h = fold (\<lambda>b h. (h XOR ucast b) * FNV1A64_PRIME) bytes h"

text \<open>The integers are hashed as they lie in memory: little-endian on the supported hosts.\<close>

definition fnv1aUpdateUInt32 :: "u32 \<Rightarrow> u64 \<Rightarrow> u64" where
  "fnv1aUpdateUInt32 v h = fnv1aUpdate (le_bytes 4 v) h"

definition fnv1aUpdateInt :: "int \<Rightarrow> u64 \<Rightarrow> u64" where
  "fnv1aUpdateInt v h = fnv1aUpdate (le_bytes 4 (word_of_int v :: u32)) h"

definition fnv1aUpdateUInt64 :: "u64 \<Rightarrow> u64 \<Rightarrow> u64" where
  "fnv1aUpdateUInt64 v h = fnv1aUpdate (le_bytes 8 v) h"

subsection \<open>Frontend kinds\<close>

definition FRONTEND_KIND_LAST :: int where
  "FRONTEND_KIND_LAST = 5"

definition frontendKindIsValid :: "int \<Rightarrow> bool" where
  "frontendKindIsValid v \<longleftrightarrow> 0 \<le> v \<and> v \<le> FRONTEND_KIND_LAST"

definition kFrontendKindNames :: "string list" where
  "kFrontendKindNames = [''unknown'', ''pascal'', ''rea'', ''aether'', ''clike'', ''shell'']"

definition frontendKindName :: "int \<Rightarrow> string option" where
  "frontendKindName kind =
     (if frontendKindIsValid kind then Some (kFrontendKindNames ! nat kind) else None)"

fun kind_from_name :: "string \<Rightarrow> int \<Rightarrow> string list \<Rightarrow> int option" where
  "kind_from_name name i [] = None"
| "kind_from_name name i (n # ns) =
     (if lower_string name = lower_string n then Some i else kind_from_name name (i + 1) ns)"

definition frontendKindFromName :: "string option \<Rightarrow> int option" where
  "frontendKindFromName name =
     (case name of None \<Rightarrow> None
      | Some n \<Rightarrow> if n = [] then None else kind_from_name n 0 kFrontendKindNames)"

subsection \<open>The CODE section\<close>

definition PSB3_MAX_CODE_BYTES :: nat where
  "PSB3_MAX_CODE_BYTES = 64 * 1024 * 1024"

definition writeCodeSection :: "BytecodeChunk \<Rightarrow> ByteBuf \<Rightarrow> ByteBuf" where
  "writeCodeSection ch out =
     (let out1 = bufVarint (word_of_nat (ch_cache_count ch)) (bufVarint (word_of_nat (ch_count ch)) out)
      in if 0 < ch_count ch then bufBytes (ch_code ch) out1 else out1)"

definition readCodeSection :: "BytecodeChunk \<Rightarrow> BytecodeChunk option reader" where
  "readCodeSection ch =
     rbind curVarint (\<lambda>w. rbind curError (\<lambda>e.
       let count = unat w in
       if e \<or> PSB3_MAX_CODE_BYTES < count then rret None
       else rbind curVarint (\<lambda>w'. rbind curError (\<lambda>e'.
         let cache_count = unat w' in
         if e' \<or> 0x10000 < cache_count then rret None
         else let ch1 = ch\<lparr>ch_capacity := count, ch_cache_count := cache_count, ch_code := []\<rparr>
              in if count = 0 then rret (Some ch1)
                 else rbind (curBytes count) (\<lambda>p. case p of
                        None \<Rightarrow> rret None
                      | Some bs \<Rightarrow> rret (Some (ch1\<lparr>ch_code := bs\<rparr>)))))))"

subsection \<open>The LINE section\<close>

text \<open>Runs of equal lines: for each run its distance from the start of the previous one and the
  difference of the lines. \<open>prev\<close> is \<open>lines[pc - 1]\<close>, \<open>None\<close> at pc 0.\<close>

fun count_runs :: "int option \<Rightarrow> int list \<Rightarrow> nat" where
  "count_runs prev [] = 0"
| "count_runs prev (l # ls) = (if prev \<noteq> Some l then 1 else 0) + count_runs (Some l) ls"

fun write_runs :: "nat \<Rightarrow> nat \<Rightarrow> int \<Rightarrow> int option \<Rightarrow> int list \<Rightarrow> ByteBuf \<Rightarrow> ByteBuf" where
  "write_runs pc prev_pc prev_line prev [] out = out"
| "write_runs pc prev_pc prev_line prev (line # ls) out =
     (if prev \<noteq> Some line
      then write_runs (pc + 1) pc line (Some line) ls
             (bufSVarint (word_of_int (line - prev_line)) (bufVarint (word_of_nat (pc - prev_pc)) out))
      else write_runs (pc + 1) prev_pc prev_line (Some line) ls out)"

definition writeLinesSection :: "BytecodeChunk \<Rightarrow> ByteBuf \<Rightarrow> ByteBuf" where
  "writeLinesSection ch out =
     write_runs 0 0 0 None (ch_lines ch) (bufVarint (word_of_nat (count_runs None (ch_lines ch))) out)"

text \<open>The array is filled from the front; \<open>fill lines i j v\<close> is \<open>for (k = i; k < j; k++) lines[k] = v\<close>.\<close>

definition fill :: "int list \<Rightarrow> nat \<Rightarrow> nat \<Rightarrow> int \<Rightarrow> int list" where
  "fill lines i j v = take i lines @ replicate (j - i) v @ drop (max i j) lines"

text \<open>\<open>first\<close> is \<open>r == 0\<close>. The position is an \<open>int\<close>: the sum below wraps, which in C is undefined
  for a delta near the largest \<open>int\<close>.\<close>

fun read_runs :: "nat \<Rightarrow> bool \<Rightarrow> nat \<Rightarrow> int \<Rightarrow> int list \<Rightarrow> int list option reader" where
  "read_runs 0 first cur_pc cur_line lines =
     rret (Some (fill lines cur_pc (length lines) cur_line))"
| "read_runs (Suc n) first cur_pc cur_line lines =
     rbind curVarint (\<lambda>pc_delta. rbind curSVarint (\<lambda>line_delta. rbind curError (\<lambda>e.
       let new_pc = to_int32 (int cur_pc + sint (ucast pc_delta :: u32)) in
       if e \<or> new_pc < int cur_pc \<or> int (length lines) < new_pc \<or> (first \<and> new_pc \<noteq> 0) then rret None
       else read_runs n False (nat new_pc) (to_int32 (cur_line + sint line_delta))
              (if first then lines else fill lines cur_pc (nat new_pc) cur_line))))"

text \<open>\<open>junk\<close> is what the cells of the fresh array hold before they are filled.\<close>

definition readLinesSection :: "int \<Rightarrow> BytecodeChunk \<Rightarrow> BytecodeChunk option reader" where
  "readLinesSection junk ch =
     rbind curVarint (\<lambda>run_count. rbind curError (\<lambda>e.
       if e \<or> ch_count ch < unat run_count
       then rret (if ch_count ch = 0 \<and> run_count = 0 then Some (ch\<lparr>ch_lines := []\<rparr>) else None)
       else if ch_count ch = 0
       then rret (if run_count = 0 then Some (ch\<lparr>ch_lines := []\<rparr>) else None)
       else rbind (read_runs (unat run_count) True 0 0 (replicate (ch_count ch) junk)) (\<lambda>r.
              rret (map_option (\<lambda>lines. ch\<lparr>ch_lines := lines\<rparr>) r))))"

subsection \<open>The BMAP section\<close>

definition computeBuiltinFingerprintEntry :: "byte list option \<Rightarrow> u64" where
  "computeBuiltinFingerprintEntry lower_name =
     (case lower_name of None \<Rightarrow> FNV1A64_OFFSET | Some s \<Rightarrow> fnv1aUpdate s FNV1A64_OFFSET)"

definition bytes_of :: "string \<Rightarrow> byte list" where
  "bytes_of s = map (\<lambda>c. of_char c) s"

definition bmap_name :: "Value list \<Rightarrow> int \<Rightarrow> byte list option" where
  "bmap_name constants lower_idx =
     (case constants ! nat lower_idx of
        VString t s \<Rightarrow> (if t = TYPE_STRING then map_option bytes_of s else None)
      | _ \<Rightarrow> None)"

definition bmap_pairs :: "BytecodeChunk \<Rightarrow> (nat \<times> int) list" where
  "bmap_pairs ch =
     (case ch_builtin_lowercase_indices ch of None \<Rightarrow> []
      | Some xs \<Rightarrow> filter (\<lambda>(i, l). 0 \<le> l \<and> l < int (ch_constants_count ch))
                    (map (\<lambda>i. (i, xs ! i)) [0..<ch_constants_count ch]))"

definition writeBmapSection :: "BytecodeChunk \<Rightarrow> ByteBuf \<Rightarrow> ByteBuf" where
  "writeBmapSection ch out =
     (let ps = bmap_pairs ch;
          out1 = bufVarint (word_of_nat (length ps)) out;
          out2 = fold (\<lambda>(i, l) b. bufVarint (word_of_int l) (bufVarint (word_of_nat i) b)) ps out1;
          fingerprint = fold (\<lambda>(i, l) h. fnv1aUpdateUInt64
                          (computeBuiltinFingerprintEntry (bmap_name (ch_constants ch) l)) h)
                          ps FNV1A64_OFFSET
      in bufU64LE fingerprint out2)"

fun read_bmap_pairs :: "nat \<Rightarrow> nat \<Rightarrow> nat \<Rightarrow> int list \<Rightarrow> int list option reader" where
  "read_bmap_pairs 0 cap constants_count xs = rret (Some xs)"
| "read_bmap_pairs (Suc n) cap constants_count xs =
     rbind curVarint (\<lambda>orig_idx. rbind curVarint (\<lambda>lower_idx. rbind curError (\<lambda>e.
       if e \<or> cap \<le> unat orig_idx \<or> constants_count \<le> unat lower_idx then rret None
       else read_bmap_pairs n cap constants_count (xs[unat orig_idx := int (unat lower_idx)]))))"

definition readBmapSection :: "BytecodeChunk \<Rightarrow> BytecodeChunk option reader" where
  "readBmapSection ch =
     (let cap = ch_constants_capacity ch in
      rbind curVarint (\<lambda>n. rbind curError (\<lambda>e.
        if e then rret None
        else rbind (read_bmap_pairs (unat n) cap (ch_constants_count ch) (replicate cap (- 1))) (\<lambda>r.
               rbind curU64LE (\<lambda>_. rbind curError (\<lambda>e'. rret (case r of
                   None \<Rightarrow> None
                 | Some xs \<Rightarrow> if e' then None
                     else Some (ch\<lparr>ch_builtin_resolved_ids := None,
                       ch_builtin_lowercase_indices := (if 0 < cap then Some xs else None)\<rparr>)))))))) "

subsection \<open>The META section\<close>

record MetaSection =
  ms_source_hash :: u64
  ms_combined_hash :: u64
  ms_source_path :: "byte list"

text \<open>\<open>src\<close> is the path as \<open>realpath\<close> resolves it.\<close>

definition writeMetaSection :: "MetaSection \<Rightarrow> ByteBuf \<Rightarrow> ByteBuf" where
  "writeMetaSection meta out =
     bufLenPrefixedBytes (ms_source_path meta)
       (bufU64LE (ms_combined_hash meta) (bufU64LE (ms_source_hash meta) out))"

definition readMetaSection :: "MetaSection option reader" where
  "readMetaSection =
     rbind curU64LE (\<lambda>sh. rbind curU64LE (\<lambda>ch. rbind curLenPrefixedString (\<lambda>p. rbind curError (\<lambda>e.
       rret (case p of None \<Rightarrow> None
             | Some s \<Rightarrow> if e then None
                 else Some \<lparr>ms_source_hash = sh, ms_combined_hash = ch, ms_source_path = s\<rparr>)))))"

subsection \<open>Readers of the sections stay inside them\<close>

lemma safe_readCodeSection [safe_intros]: "safe (readCodeSection ch)"
  unfolding readCodeSection_def Let_def by (intro safe_intros)

lemma safe_read_runs [safe_intros]: "safe (read_runs n b pc l ls)"
  by (induction n arbitrary: b pc l ls) (auto simp: Let_def intro!: safe_intros)

lemma safe_readLinesSection [safe_intros]: "safe (readLinesSection junk ch)"
  unfolding readLinesSection_def Let_def by (intro safe_intros)

lemma safe_read_bmap_pairs [safe_intros]: "safe (read_bmap_pairs n cap cc xs)"
  by (induction n arbitrary: xs) (auto intro!: safe_intros)

lemma safe_readBmapSection [safe_intros]: "safe (readBmapSection ch)"
  unfolding readBmapSection_def Let_def by (intro safe_intros)

lemma safe_readMetaSection [safe_intros]: "safe readMetaSection"
  unfolding readMetaSection_def by (intro safe_intros)

subsection \<open>Loading the sections back\<close>

lemma unat_u64_of_nat: "n < 2 ^ 64 \<Longrightarrow> unat (word_of_nat n :: u64) = n"
  by (simp add: unsigned_of_nat take_bit_nat_eq_self)

lemma sint_u64_of_int: "- (2 ^ 63) \<le> i \<Longrightarrow> i < 2 ^ 63 \<Longrightarrow> sint (word_of_int i :: u64) = i"
  by (simp add: signed_of_int signed_take_bit_int_eq_self)

lemma sint_small_ucast:
  assumes "unat (w :: u64) = n" "n < 2 ^ 31" shows "sint (ucast w :: u32) = int n"
proof -
  have "uint w = int n" using assms(1) by (metis unsigned_of_nat of_nat_unat of_nat_eq_iff)
  then have "uint (ucast w :: u32) = int n"
    using assms(2) by (simp add: unsigned_ucast_eq take_bit_int_eq_self)
  then show ?thesis using assms(2) by (simp add: sint_uint signed_take_bit_int_eq_self)
qed

definition code_bytes :: "BytecodeChunk \<Rightarrow> byte list" where
  "code_bytes ch = varint_bytes (word_of_nat (ch_count ch)) @
     varint_bytes (word_of_nat (ch_cache_count ch)) @ ch_code ch"

lemma writeCodeSection_data [buf_simps]: "bb_data (writeCodeSection ch b) = bb_data b @ code_bytes ch"
  by (simp add: writeCodeSection_def Let_def buf_simps code_bytes_def)

lemma parses_readCodeSection:
  assumes n: "ch_count ch \<le> PSB3_MAX_CODE_BYTES" and k: "ch_cache_count ch \<le> 0x10000"
  shows "parses d (readCodeSection ch0) (code_bytes ch)
    (Some (ch0\<lparr>ch_capacity := ch_count ch, ch_cache_count := ch_cache_count ch, ch_code := ch_code ch\<rparr>))"
proof -
  have un: "unat (word_of_nat (ch_count ch) :: u64) = ch_count ch"
    using n by (intro unat_u64_of_nat) (simp add: PSB3_MAX_CODE_BYTES_def)
  have uk: "unat (word_of_nat (ch_cache_count ch) :: u64) = ch_cache_count ch"
    using k by (intro unat_u64_of_nat) simp
  let ?ch1 = "ch0\<lparr>ch_capacity := ch_count ch, ch_cache_count := ch_cache_count ch, ch_code := []\<rparr>"
  have last: "parses d (if ch_count ch = 0 then rret (Some ?ch1)
       else rbind (curBytes (ch_count ch)) (\<lambda>p. case p of None \<Rightarrow> rret None
          | Some bs \<Rightarrow> rret (Some (?ch1\<lparr>ch_code := bs\<rparr>)))) (ch_code ch)
     (Some (?ch1\<lparr>ch_code := ch_code ch\<rparr>))"
  proof (cases "ch_count ch = 0")
    case True
    then show ?thesis using parses_rret [of d "Some ?ch1"] by simp
  next
    case False
    show ?thesis
      by (rule parses_if_False [OF parses_rbind_last [OF parses_curBytes [OF refl]] False])
        (simp add: parses_rret)
  qed
  show ?thesis
    unfolding readCodeSection_def code_bytes_def
    apply (rule parses_rbind [OF parses_curVarint])
    apply (rule parses_rbind0 [OF parses_curError])
    apply (unfold Let_def un)
    apply (rule parses_if_False)
     apply (rule parses_rbind [OF parses_curVarint])
     apply (rule parses_rbind0 [OF parses_curError])
     apply (unfold uk)
     apply (rule parses_if_False)
    using last n k by simp_all
qed

text \<open>The writer's runs, as bytes.\<close>

fun run_bytes :: "nat \<Rightarrow> nat \<Rightarrow> int \<Rightarrow> int option \<Rightarrow> int list \<Rightarrow> byte list" where
  "run_bytes pc prev_pc prev_line prev [] = []"
| "run_bytes pc prev_pc prev_line prev (line # ls) =
     (if prev \<noteq> Some line
      then varint_bytes (word_of_nat (pc - prev_pc)) @ varint_bytes (zigzag (word_of_int (line - prev_line)))
           @ run_bytes (pc + 1) pc line (Some line) ls
      else run_bytes (pc + 1) prev_pc prev_line (Some line) ls)"

lemma write_runs_data [buf_simps]:
  "bb_data (write_runs pc pp pl prev ls b) = bb_data b @ run_bytes pc pp pl prev ls"
  by (induction pc pp pl prev ls b rule: write_runs.induct) (auto simp: buf_simps)

lemma length_fill: "i \<le> j \<Longrightarrow> j \<le> length xs \<Longrightarrow> length (fill xs i j v) = length xs"
  by (simp add: fill_def)

lemma fill_nth:
  "i \<le> j \<Longrightarrow> j \<le> length xs \<Longrightarrow> k < length xs \<Longrightarrow>
   fill xs i j v ! k = (if i \<le> k \<and> k < j then v else xs ! k)"
  by (auto simp: fill_def nth_append min_def)

text \<open>Between runs: the array agrees with the lines up to the start of the current run, and the
  lines from there to \<open>pc\<close> are all the current one.\<close>

lemma parses_read_runs:
  assumes "length ls = length lines" "length lines < 2 ^ 31" "\<forall>l \<in> set lines. - (2 ^ 31) \<le> l \<and> l < 2 ^ 31"
    and "pc \<le> length lines" "pp \<le> pc" "- (2 ^ 31) \<le> pl" "pl < 2 ^ 31"
    and "\<forall>k < pp. ls ! k = lines ! k" "\<forall>k. pp \<le> k \<longrightarrow> k < pc \<longrightarrow> lines ! k = pl"
    and "prev = (if pc = 0 then None else Some pl)" "pc = 0 \<longrightarrow> pl = 0" "first \<longleftrightarrow> pc = 0"
    and "first \<longrightarrow> 0 < length lines"
  shows "parses d (read_runs (count_runs prev (drop pc lines)) first pp pl ls)
    (run_bytes pc pp pl prev (drop pc lines)) (Some lines)"
  using assms
proof (induction "length lines - pc" arbitrary: pc pp pl ls prev first)
  case 0
  then have pc: "pc = length lines" and nf: "\<not> first" by auto
  have "fill ls pp (length ls) pl = lines"
    by (rule nth_equalityI) (use 0 pc in \<open>auto simp: length_fill fill_nth\<close>)
  then show ?case using pc by (simp add: parses_rret)
next
  case (Suc n)
  have lt: "pc < length lines" using Suc.hyps(2) by simp
  define line where "line = lines ! pc"
  have dr: "drop pc lines = line # drop (pc + 1) lines"
    using Cons_nth_drop_Suc [OF lt] by (simp add: line_def)
  have rng: "- (2 ^ 31) \<le> line" "line < 2 ^ 31" using Suc.prems(3) lt by (auto simp: line_def)
  have n: "n = length lines - (pc + 1)" using Suc.hyps(2) by simp
  show ?case
  proof (cases "prev = Some line")
    case True
    then have pl: "pl = line" and pc0: "pc \<noteq> 0" using Suc.prems(10) by (auto split: if_splits)
    have seg: "\<forall>k. pp \<le> k \<longrightarrow> k < pc + 1 \<longrightarrow> lines ! k = pl"
      using Suc.prems(9) pl by (auto simp: less_Suc_eq line_def)
    have "parses d (read_runs (count_runs (Some pl) (drop (pc + 1) lines)) False pp pl ls)
        (run_bytes (pc + 1) pp pl (Some pl) (drop (pc + 1) lines)) (Some lines)"
      by (rule Suc.hyps(1) [OF n]) (use Suc.prems lt seg in auto)
    then show ?thesis using True pl pc0 Suc.prems(12) by (simp add: dr)
  next
    case False
    let ?ls = "if first then ls else fill ls pp pc pl"
    have len: "length ?ls = length lines" using Suc.prems lt by (simp add: length_fill)
    have pcnat: "unat (word_of_nat (pc - pp) :: u64) = pc - pp"
      using Suc.prems(2) lt by (intro unat_u64_of_nat) simp
    have d32: "sint (ucast (word_of_nat (pc - pp) :: u64) :: u32) = int (pc - pp)"
      by (rule sint_small_ucast) (use pcnat Suc.prems(2,5) lt in auto)
    have np: "to_int32 (int pp + sint (ucast (word_of_nat (pc - pp) :: u64) :: u32)) = int pc"
      unfolding d32 using Suc.prems(2,5) lt by (subst to_int32_id) auto
    have nl: "to_int32 (pl + sint (word_of_int (line - pl) :: u64)) = line"
      using rng Suc.prems(6,7) by (subst sint_u64_of_int) (auto simp: to_int32_id)
    have f0: "first \<Longrightarrow> pc = 0 \<and> pp = 0" using Suc.prems(5,12) by simp
    have agree: "\<forall>k < pc. ?ls ! k = lines ! k"
      using Suc.prems f0 lt by (auto simp: fill_nth)
    have rest: "parses d (read_runs (count_runs (Some line) (drop (pc + 1) lines)) False pc line ?ls)
        (run_bytes (pc + 1) pc line (Some line) (drop (pc + 1) lines)) (Some lines)"
      by (rule Suc.hyps(1) [OF n]) (use Suc.prems(2,3) len rng lt agree in \<open>auto simp: line_def less_Suc_eq\<close>)
    show ?thesis
      unfolding dr count_runs.simps run_bytes.simps
      apply (simp only: False if_True not_False_eq_True not_True_eq_False add_Suc plus_1_eq_Suc read_runs.simps simp_thms)
      apply (rule parses_rbind [OF parses_curVarint])
      apply (rule parses_rbind [OF parses_curSVarint])
      apply (rule parses_rbind0 [OF parses_curError])
      apply (unfold Let_def np nl)
      apply (rule parses_if_False)
      using rest f0 lt Suc.prems by (auto simp: le_less_trans)
  qed
qed

lemma count_runs_le: "count_runs prev ls \<le> length ls"
  by (induction ls arbitrary: prev) (auto intro: le_SucI)

definition lines_bytes :: "int list \<Rightarrow> byte list" where
  "lines_bytes lines = varint_bytes (word_of_nat (count_runs None lines)) @ run_bytes 0 0 0 None lines"

lemma writeLinesSection_data [buf_simps]: "bb_data (writeLinesSection ch b) = bb_data b @ lines_bytes (ch_lines ch)"
  by (simp add: writeLinesSection_def lines_bytes_def buf_simps)

lemma parses_readLinesSection:
  assumes n: "length lines = ch_count ch0" "length lines < 2 ^ 31"
    and r: "\<forall>l \<in> set lines. - (2 ^ 31) \<le> l \<and> l < 2 ^ 31"
  shows "parses d (readLinesSection junk ch0) (lines_bytes lines) (Some (ch0\<lparr>ch_lines := lines\<rparr>))"
proof -
  have un: "unat (word_of_nat (count_runs None lines) :: u64) = count_runs None lines"
    using n(2) count_runs_le [of None lines] by (intro unat_u64_of_nat) simp
  show ?thesis
  proof (cases "ch_count ch0 = 0")
    case True
    then have l: "lines = []" using n(1) by simp
    show ?thesis
      unfolding readLinesSection_def lines_bytes_def l
      by (rule parses_rbind [OF parses_curVarint], rule parses_rbind0 [OF parses_curError])
        (simp add: True parses_rret)
  next
    case False
    let ?ls = "replicate (ch_count ch0) junk"
    have "parses d (read_runs (count_runs None (drop 0 lines)) True 0 0 ?ls)
        (run_bytes 0 0 0 None (drop 0 lines)) (Some lines)"
      by (rule parses_read_runs) (use n r False in auto)
    then have rr: "parses d (read_runs (count_runs None lines) True 0 0 ?ls)
        (run_bytes 0 0 0 None lines) (Some lines)" by simp
    have "parses d (rret (map_option (\<lambda>lines. ch0\<lparr>ch_lines := lines\<rparr>) (Some lines))) []
        (Some (ch0\<lparr>ch_lines := lines\<rparr>))"
      by (simp add: parses_rret)
    from parses_rbind_last [where f = "\<lambda>r. rret (map_option (\<lambda>lines. ch0\<lparr>ch_lines := lines\<rparr>) r)", OF rr this]
    show ?thesis
      unfolding readLinesSection_def lines_bytes_def
      using count_runs_le [of None lines] n(1) False
      by (intro parses_rbind [OF parses_curVarint] parses_rbind0 [OF parses_curError]) (simp add: un)
  qed
qed

text \<open>The builtin map: the pairs written are those of valid entries, in order.\<close>

definition pair_bytes :: "nat \<times> int \<Rightarrow> byte list" where
  "pair_bytes = (\<lambda>(i, l). varint_bytes (word_of_nat i) @ varint_bytes (word_of_int l))"

definition bmap_fingerprint :: "BytecodeChunk \<Rightarrow> u64" where
  "bmap_fingerprint ch = fold (\<lambda>(i, l) h. fnv1aUpdateUInt64
     (computeBuiltinFingerprintEntry (bmap_name (ch_constants ch) l)) h) (bmap_pairs ch) FNV1A64_OFFSET"

definition bmap_bytes :: "BytecodeChunk \<Rightarrow> byte list" where
  "bmap_bytes ch = varint_bytes (word_of_nat (length (bmap_pairs ch)))
     @ concat (map pair_bytes (bmap_pairs ch)) @ le_bytes 8 (bmap_fingerprint ch)"

lemma fold_pairs_data:
  "bb_data (fold (\<lambda>(i, l) b. bufVarint (word_of_int l) (bufVarint (word_of_nat i) b)) ps out)
     = bb_data out @ concat (map pair_bytes ps)"
  by (induction ps arbitrary: out) (auto simp: buf_simps pair_bytes_def)

lemma writeBmapSection_data [buf_simps]: "bb_data (writeBmapSection ch b) = bb_data b @ bmap_bytes ch"
  by (simp add: writeBmapSection_def Let_def buf_simps fold_pairs_data bmap_bytes_def bmap_fingerprint_def)

fun store_pairs :: "(nat \<times> int) list \<Rightarrow> int list \<Rightarrow> int list" where
  "store_pairs [] xs = xs"
| "store_pairs ((i, l) # ps) xs = store_pairs ps (xs[i := l])"

lemma parses_read_bmap_pairs:
  assumes "\<forall>(i, l) \<in> set ps. i < cap \<and> 0 \<le> l \<and> l < int cc" "cap < 2 ^ 31" "cc < 2 ^ 31"
  shows "parses d (read_bmap_pairs (length ps) cap cc xs) (concat (map pair_bytes ps)) (Some (store_pairs ps xs))"
  using assms(1)
proof (induction ps arbitrary: xs)
  case Nil
  then show ?case by (simp add: parses_rret)
next
  case (Cons p ps)
  obtain i l where p: "p = (i, l)" by (cases p)
  have b: "i < cap" "0 \<le> l" "l < int cc" using Cons.prems p by auto
  have ui: "unat (word_of_nat i :: u64) = i" using b assms(2) by (intro unat_u64_of_nat) simp
  have nl: "\<not> cc \<le> nat l" using b by linarith
  have ul: "unat (word_of_int l :: u64) = nat l"
    using b assms(3) by (simp add: unsigned_of_int take_bit_int_eq_self)
  have "parses d (read_bmap_pairs (length ps) cap cc (xs[i := l])) (concat (map pair_bytes ps))
      (Some (store_pairs ps (xs[i := l])))" using Cons by auto
  then show ?case
    unfolding p length_Cons read_bmap_pairs.simps list.map concat.simps pair_bytes_def prod.case append_assoc
    using b nl by (intro parses_rbind [OF parses_curVarint] parses_rbind0 [OF parses_curError])
      (simp add: ui ul not_le pair_bytes_def)
qed

lemma store_pairs_length [simp]: "length (store_pairs ps xs) = length xs"
  by (induction ps xs rule: store_pairs.induct) simp_all

lemma store_pairs_nth:
  "distinct (map fst ps) \<Longrightarrow> k < length xs \<Longrightarrow>
   store_pairs ps xs ! k = (case map_of ps k of Some l \<Rightarrow> l | None \<Rightarrow> xs ! k)"
proof (induction ps xs rule: store_pairs.induct)
  case (2 i l ps xs)
  have "map_of ps i = None" using 2(2) by (simp add: map_of_eq_None_iff)
  then show ?case using 2 by (cases "k = i") (simp_all split: option.split)
qed simp

text \<open>What a valid entry of the table is, and what is loaded for each constant.\<close>

definition loaded_indices :: "BytecodeChunk \<Rightarrow> int list" where
  "loaded_indices ch = map (\<lambda>i. case ch_builtin_lowercase_indices ch of None \<Rightarrow> - 1
      | Some xs \<Rightarrow> if 0 \<le> xs ! i \<and> xs ! i < int (ch_constants_count ch) then xs ! i else - 1)
     [0..<ch_constants_count ch]"

lemma bmap_pairs_map_of:
  "k < ch_constants_count ch \<Longrightarrow> map_of (bmap_pairs ch) k =
     (case ch_builtin_lowercase_indices ch of None \<Rightarrow> None
      | Some xs \<Rightarrow> if 0 \<le> xs ! k \<and> xs ! k < int (ch_constants_count ch) then Some (xs ! k) else None)"
proof (cases "ch_builtin_lowercase_indices ch")
  case (Some xs)
  assume k: "k < ch_constants_count ch"
  have "map_of (filter (\<lambda>(i, l). P l) (map (\<lambda>i. (i, xs ! i)) is)) k
      = (if k \<in> set is \<and> P (xs ! k) then Some (xs ! k) else None)" for P "is"
    by (induction "is") auto
  from this [of "\<lambda>l. 0 \<le> l \<and> l < int (ch_constants_count ch)" "[0..<ch_constants_count ch]"]
  show ?thesis using k by (simp add: bmap_pairs_def Some)
qed (simp add: bmap_pairs_def)

lemma bmap_pairs_props:
  "distinct (map fst (bmap_pairs ch))"
  "\<forall>(i, l) \<in> set (bmap_pairs ch). i < ch_constants_count ch \<and> 0 \<le> l \<and> l < int (ch_constants_count ch)"
  "length (bmap_pairs ch) \<le> ch_constants_count ch"
proof -
  have "distinct (map fst (filter P (map (\<lambda>i. (i, xs ! i)) is)))" if "distinct is"
    for P and "is" :: "nat list" and xs :: "int list"
    using that by (induction "is") auto
  then show "distinct (map fst (bmap_pairs ch))"
    by (simp add: bmap_pairs_def split: option.split)
  show "\<forall>(i, l) \<in> set (bmap_pairs ch). i < ch_constants_count ch \<and> 0 \<le> l \<and> l < int (ch_constants_count ch)"
    by (auto simp: bmap_pairs_def split: option.splits)
  show "length (bmap_pairs ch) \<le> ch_constants_count ch"
    using length_filter_le by (auto simp: bmap_pairs_def split: option.split intro: order_trans [OF length_filter_le])
qed

lemma store_bmap:
  "store_pairs (bmap_pairs ch) (replicate (ch_constants_count ch) (- 1)) = loaded_indices ch"
  by (rule nth_equalityI)
    (auto simp: loaded_indices_def store_pairs_nth bmap_pairs_props bmap_pairs_map_of split: option.split)

lemma parses_readBmapSection:
  assumes "ch_constants_count ch0 = ch_constants_count ch" "ch_constants_capacity ch0 = ch_constants_count ch"
    and small: "ch_constants_count ch < 2 ^ 31"
  shows "parses d (readBmapSection ch0) (bmap_bytes ch)
    (Some (ch0\<lparr>ch_builtin_resolved_ids := None, ch_builtin_lowercase_indices :=
       (if 0 < ch_constants_count ch then Some (loaded_indices ch) else None)\<rparr>))"
proof -
  let ?n = "length (bmap_pairs ch)"
  have un: "unat (word_of_nat ?n :: u64) = ?n"
    using small bmap_pairs_props(3) [of ch] by (intro unat_u64_of_nat) simp
  have loop: "parses d (read_bmap_pairs ?n (ch_constants_count ch) (ch_constants_count ch)
      (replicate (ch_constants_count ch) (- 1))) (concat (map pair_bytes (bmap_pairs ch)))
      (Some (loaded_indices ch))"
    unfolding store_bmap [symmetric]
    by (rule parses_read_bmap_pairs) (use bmap_pairs_props(2) small in auto)
  show ?thesis
    unfolding readBmapSection_def bmap_bytes_def Let_def assms(1,2)
    apply (rule parses_rbind [OF parses_curVarint])
    apply (rule parses_rbind0 [OF parses_curError])
    apply (rule parses_if_False)
     apply (unfold un)
     apply (rule parses_rbind [OF loop])
     apply (rule parses_rbind_last [OF parses_curU64LE])
     apply (rule parses_rbind0 [OF parses_curError])
    by (simp_all add: parses_rret)
qed

lemma meta_eta: "m = \<lparr>ms_source_hash = ms_source_hash m, ms_combined_hash = ms_combined_hash m,
    ms_source_path = ms_source_path m\<rparr>"
  by (cases m) simp

text \<open>The META section is a codec of its own.\<close>

interpretation meta_codec: codec "\<lambda>m. length (ms_source_path m) < 2 ^ 64" "\<lambda>_. 0" Some
    "\<lambda>m. le_bytes 8 (ms_source_hash m) @ le_bytes 8 (ms_combined_hash m) @ len_prefixed (ms_source_path m)"
    writeMetaSection readMetaSection
proof
  fix m b
  show "bb_data (writeMetaSection m b) = bb_data b @ le_bytes 8 (ms_source_hash m)
      @ le_bytes 8 (ms_combined_hash m) @ len_prefixed (ms_source_path m)"
    by (simp add: writeMetaSection_def buf_simps)
next
  fix m :: MetaSection assume "length (ms_source_path m) < 2 ^ 64"
  then show "parses 0 readMetaSection (le_bytes 8 (ms_source_hash m) @ le_bytes 8 (ms_combined_hash m)
      @ len_prefixed (ms_source_path m)) (Some m)"
    unfolding readMetaSection_def
    by (intro parses_rbind [OF parses_curU64LE] parses_rbind_last [OF parses_lenPrefixed]
        parses_rbind0 [OF parses_curError]) (simp_all add: parses_rret flip: meta_eta)
qed (rule safe_readMetaSection)

subsection \<open>The hash tells apart what differs in one byte\<close>

lemma fnv_prime_odd: "FNV1A64_PRIME * 14886173955864302971 = 1"
  by (simp add: FNV1A64_PRIME_def)

lemma times_prime_inj: "a * FNV1A64_PRIME = b * FNV1A64_PRIME \<longleftrightarrow> a = b"
proof
  assume "a * FNV1A64_PRIME = b * FNV1A64_PRIME"
  then have "a * (FNV1A64_PRIME * 14886173955864302971) = b * (FNV1A64_PRIME * 14886173955864302971)"
    by (simp only: mult.assoc [symmetric])
  then show "a = b" by (simp only: fnv_prime_odd mult_1_right)
qed simp

lemma xor_right_inj: "(a :: 'a::len word) XOR c = b XOR c \<longleftrightarrow> a = b"
proof
  assume "a XOR c = b XOR c"
  then have "(a XOR c) XOR c = (b XOR c) XOR c" by simp
  then show "a = b" by (simp add: xor.assoc)
qed simp

lemma fnv_inj_seed: "fnv1aUpdate bs h = fnv1aUpdate bs h' \<longleftrightarrow> h = h'"
  by (induction bs arbitrary: h h') (simp_all add: fnv1aUpdate_def times_prime_inj xor_right_inj)

lemma fnv_append: "fnv1aUpdate (xs @ ys) h = fnv1aUpdate ys (fnv1aUpdate xs h)"
  by (simp add: fnv1aUpdate_def)

lemma fnv_one_byte:
  "fnv1aUpdate (xs @ b # ys) h = fnv1aUpdate (xs @ b' # ys) h \<longleftrightarrow> b = b'"
proof -
  have "(ucast b :: u64) = ucast b' \<longleftrightarrow> b = b'"
  proof
    assume "(ucast b :: u64) = ucast b'"
    then have "unat (ucast b :: u64) = unat (ucast b' :: u64)" by (rule arg_cong)
    then show "b = b'" by (simp add: unat_ucast_u8 word_unat_eq_iff)
  qed simp
  moreover have "fnv1aUpdate (c # ys) g = fnv1aUpdate ys ((g XOR ucast c) * FNV1A64_PRIME)" for c g
    by (simp add: fnv1aUpdate_def)
  ultimately show ?thesis
    by (simp add: fnv_append fnv_inj_seed times_prime_inj xor.commute [of _ "ucast _"] xor_right_inj)
qed

text \<open>The builtin fingerprint never confuses two names that differ in a single byte: FNV-1a is
  injective in each byte, because its xor step and the multiplication by its odd prime are both
  bijections of the 64-bit words.\<close>

theorem fingerprint_sees_each_byte:
  "computeBuiltinFingerprintEntry (Some (xs @ b # ys)) = computeBuiltinFingerprintEntry (Some (xs @ b' # ys))
     \<longleftrightarrow> b = b'"
  by (simp add: computeBuiltinFingerprintEntry_def fnv_one_byte)

end
