(* ===== verification/Psb3File.thy ===== *)
theory Psb3File
  imports Psb3
begin

section \<open>The PSB3 container\<close>

text \<open>
  The part of \<open>psb3Write\<close> that lays the finished sections out in a file (header, directory, bodies
  on 8-byte boundaries), and \<open>psb3ParseHeader\<close>, \<open>psb3FindSection\<close>, which open any file before a
  section is read. A file is the list of its bytes. The file sizes and offsets of the writer are
  unbounded here; where the source stores them in 32 bits the model converts.
\<close>

subsection \<open>Writing\<close>

definition PSB3_MAGIC :: u32 where
  "PSB3_MAGIC = 0x50534233"

definition PSB3_FORMAT_VERSION :: u16 where
  "PSB3_FORMAT_VERSION = 6"

record Psb3SectionEntry =
  se_id :: u32
  se_offset :: u32
  se_length :: u32

definition psb3_align :: "nat \<Rightarrow> nat" where
  "psb3_align n = (n + 7) div 8 * 8"

fun psb3_offsets :: "nat \<Rightarrow> byte list list \<Rightarrow> nat list" where
  "psb3_offsets running_offset [] = []"
| "psb3_offsets running_offset (s # ss) =
     running_offset # psb3_offsets (psb3_align (running_offset + length s)) ss"

definition psb3_header :: "u16 \<Rightarrow> int \<Rightarrow> nat \<Rightarrow> ByteBuf" where
  "psb3_header version frontend_kind n =
     bufU32LE (word_of_nat n) (bufU32LE (word_of_int frontend_kind AND 0xFF)
       (bufU16LE version (bufU16LE PSB3_FORMAT_VERSION (bufU32LE PSB3_MAGIC bufInit))))"

definition psb3_entry :: "Psb3SectionEntry \<Rightarrow> ByteBuf \<Rightarrow> ByteBuf" where
  "psb3_entry e b = bufU32LE (se_length e) (bufU32LE (se_offset e) (bufU32LE (se_id e) b))"

definition psb3_body :: "nat \<times> byte list \<Rightarrow> byte list \<Rightarrow> byte list" where
  "psb3_body = (\<lambda>(offset, bs) written.
     let w1 = written @ replicate (offset - length written) 0;
         w2 = w1 @ bs
     in w2 @ replicate (psb3_align (length w2) - length w2) 0)"

definition psb3_entries :: "nat \<Rightarrow> (u32 \<times> byte list) list \<Rightarrow> Psb3SectionEntry list" where
  "psb3_entries start sections =
     map (\<lambda>((sid, bs), off). \<lparr>se_id = sid, se_offset = word_of_nat off, se_length = word_of_nat (length bs)\<rparr>)
       (zip sections (psb3_offsets start (map snd sections)))"

definition psb3_container :: "u16 \<Rightarrow> int \<Rightarrow> (u32 \<times> byte list) list \<Rightarrow> byte list" where
  "psb3_container version frontend_kind sections =
     (let header = bb_data (psb3_header version frontend_kind (length sections));
          start = psb3_align (length header + length sections * 12);
          directory = bb_data (fold psb3_entry (psb3_entries start sections) bufInit)
      in fold psb3_body (zip (psb3_offsets start (map snd sections)) (map snd sections))
           (header @ directory))"

subsection \<open>Reading\<close>

datatype load_error =
    TruncatedHeader
  | NotPsb3
  | WrongFormat u16
  | ImplausibleSectionCount u32
  | UnknownFrontend int
  | TruncatedDirectory
  | SectionPastEnd u32
  | SectionsOverlap u32 u32

record Psb3File =
  pf_file_data :: "byte list"
  pf_format_version :: u16
  pf_vm_version :: u16
  pf_flags :: u32
  pf_frontend_kind :: int
  pf_sections :: "Psb3SectionEntry list"

definition psb3SectionName :: "u32 \<Rightarrow> string" where
  "psb3SectionName sid = map (\<lambda>i.
     let ch = unat (drop_bit (8 * i) sid AND 0xFF) in if 32 \<le> ch \<and> ch \<le> 126 then char_of ch else CHR ''?'')
     [0..<4]"

definition read_header :: "(u32 \<times> u16 \<times> u16 \<times> u32 \<times> u32) reader" where
  "read_header = rbind curU32LE (\<lambda>magic. rbind curU16LE (\<lambda>format_ver. rbind curU16LE (\<lambda>vm_ver.
     rbind curU32LE (\<lambda>flags. rbind curU32LE (\<lambda>section_count.
       rret (magic, format_ver, vm_ver, flags, section_count))))))"

definition read_entry :: "Psb3SectionEntry reader" where
  "read_entry = rbind curU32LE (\<lambda>i. rbind curU32LE (\<lambda>off. rbind curU32LE (\<lambda>len.
     rret \<lparr>se_id = i, se_offset = off, se_length = len\<rparr>)))"

text \<open>Each section against the file, then against every later one. The sums are on 64 bits in the
  source and cannot wrap, so they are plain sums here.\<close>

definition se_start :: "Psb3SectionEntry \<Rightarrow> nat" where
  "se_start e = unat (se_offset e)"

definition se_end :: "Psb3SectionEntry \<Rightarrow> nat" where
  "se_end e = unat (se_offset e) + unat (se_length e)"

fun check_sections :: "nat \<Rightarrow> Psb3SectionEntry list \<Rightarrow> load_error option" where
  "check_sections file_size [] = None"
| "check_sections file_size (s # ss) =
     (let len = unat (se_length s) in
      if 0 < len \<and> (file_size \<le> se_start s \<or> file_size - se_start s < len)
      then Some (SectionPastEnd (se_id s))
      else case find (\<lambda>t. se_start s < se_end t \<and> se_start t < se_end s) ss of
             Some t \<Rightarrow> Some (SectionsOverlap (se_id s) (se_id t))
           | None \<Rightarrow> check_sections file_size ss)"

definition psb3ParseHeader :: "byte list \<Rightarrow> codec_fault + (load_error + Psb3File)" where
  "psb3ParseHeader data =
     ebind (read_header (curInit data (length data)))
       (\<lambda>((magic, format_ver, vm_ver, flags, section_count), c).
        let frontend_code = int (unat (flags AND 0xFF)) in
        if cu_error c then Inr (Inl TruncatedHeader)
        else if magic \<noteq> PSB3_MAGIC then Inr (Inl NotPsb3)
        else if format_ver \<noteq> PSB3_FORMAT_VERSION then Inr (Inl (WrongFormat format_ver))
        else if 64 < unat section_count then Inr (Inl (ImplausibleSectionCount section_count))
        else if \<not> frontendKindIsValid frontend_code then Inr (Inl (UnknownFrontend frontend_code))
        else ebind (rrepeat (unat section_count) read_entry c) (\<lambda>(es, c').
          if cu_error c' then Inr (Inl TruncatedDirectory)
          else case check_sections (length data) es of
                 Some e \<Rightarrow> Inr (Inl e)
               | None \<Rightarrow> Inr (Inr \<lparr>pf_file_data = data, pf_format_version = format_ver,
                   pf_vm_version = vm_ver, pf_flags = flags, pf_frontend_kind = frontend_code,
                   pf_sections = es\<rparr>)))"

definition psb3FindSection :: "Psb3File \<Rightarrow> u32 \<Rightarrow> Cursor option" where
  "psb3FindSection pf sid =
     (case find (\<lambda>e. se_id e = sid) (pf_sections pf) of
        None \<Rightarrow> None
      | Some e \<Rightarrow> Some (curInit (drop (se_start e) (pf_file_data pf)) (unat (se_length e))))"

subsection \<open>Opening any file is safe\<close>

definition apart :: "Psb3SectionEntry \<Rightarrow> Psb3SectionEntry \<Rightarrow> bool" where
  "apart s t \<longleftrightarrow> \<not> (se_start s < se_end t \<and> se_start t < se_end s)"

definition in_file :: "nat \<Rightarrow> Psb3SectionEntry \<Rightarrow> bool" where
  "in_file file_size e \<longleftrightarrow> unat (se_length e) = 0 \<or> se_end e \<le> file_size"

lemma check_sections_None:
  "check_sections file_size es = None \<longleftrightarrow> list_all (in_file file_size) es \<and> sorted_wrt apart es"
proof (induction es)
  case (Cons s ss)
  have "find (\<lambda>t. se_start s < se_end t \<and> se_start t < se_end s) ss = None \<longleftrightarrow> (\<forall>t \<in> set ss. apart s t)"
    by (auto simp: find_None_iff apart_def)
  moreover have "(0 < unat (se_length s) \<and> (file_size \<le> se_start s \<or> file_size - se_start s < unat (se_length s)))
      \<longleftrightarrow> \<not> in_file file_size s"
    by (auto simp: in_file_def se_start_def se_end_def)
  ultimately show ?case
    using Cons.IH by (auto simp: Let_def split: option.split)
qed simp

lemma safe_read_header: "safe read_header"
  unfolding read_header_def by (intro safe_intros)

lemma safe_read_entry [safe_intros]: "safe read_entry"
  unfolding read_entry_def by (intro safe_intros)

lemma cur_wf_init: "n \<le> length data \<Longrightarrow> cur_wf (curInit data n)"
  by (simp add: cur_wf_def curInit_def)

lemma parse_header_total: "\<exists>r. psb3ParseHeader data = Inr r"
proof -
  obtain h c where h: "read_header (curInit data (length data)) = Inr (h, c)" "cur_wf c"
    by (rule safeE [OF safe_read_header cur_wf_init [OF order_refl]])
  obtain magic fmt vm flags n where hd: "h = (magic, fmt, vm, flags, n)" by (cases h) auto
  obtain es c' where "rrepeat (unat n) read_entry c = Inr (es, c')"
    by (rule safeE [OF safe_rrepeat [OF safe_read_entry] h(2)])
  then show ?thesis
    by (auto simp: psb3ParseHeader_def h(1) hd Let_def split: option.split)
qed

lemma parse_header_accepts:
  assumes "psb3ParseHeader data = Inr (Inr pf)"
  shows "pf_file_data pf = data" "check_sections (length data) (pf_sections pf) = None"
    "frontendKindIsValid (pf_frontend_kind pf)"
  using assms by (auto simp: psb3ParseHeader_def result_simps Let_def split: if_splits option.splits)

lemma find_section_wf:
  assumes a: "psb3ParseHeader data = Inr (Inr pf)" and f: "psb3FindSection pf i = Some c"
  shows "cur_wf c"
proof -
  obtain e where e: "find (\<lambda>e. se_id e = i) (pf_sections pf) = Some e"
    and c: "c = curInit (drop (se_start e) (pf_file_data pf)) (unat (se_length e))"
    using f by (auto simp: psb3FindSection_def split: option.splits)
  have "in_file (length data) e"
    using find_SomeD [OF e] parse_header_accepts(2) [OF a] by (auto simp: check_sections_None list_all_iff)
  then show ?thesis
    unfolding c parse_header_accepts(1) [OF a]
    by (intro cur_wf_init) (auto simp: in_file_def se_end_def se_start_def)
qed

lemma safe_ok: "safe m \<Longrightarrow> cur_wf c \<Longrightarrow> ok (m c)"
  by (auto simp: safe_def ok_iff)

text \<open>C26: Opening any file at all is memory safe. \<open>psb3ParseHeader\<close> never reads outside the file;
  when it accepts, every section that is not empty lies inside the file, no two of them overlap, the
  frontend kind is one of the known ones, and the cursor that \<open>psb3FindSection\<close> hands out for any
  id is one from which the CODE, LINE, BMAP and META readers never leave that section.\<close>

theorem any_file_opens_safely:
  "case psb3ParseHeader data of
     Inl f \<Rightarrow> False
   | Inr (Inl e) \<Rightarrow> True
   | Inr (Inr pf) \<Rightarrow>
       list_all (in_file (length data)) (pf_sections pf) \<and> sorted_wrt apart (pf_sections pf)
       \<and> frontendKindIsValid (pf_frontend_kind pf)
       \<and> (case psb3FindSection pf i of None \<Rightarrow> True
          | Some c \<Rightarrow> ok (readCodeSection ch c) \<and> ok (readLinesSection junk ch c)
              \<and> ok (readBmapSection ch c) \<and> ok (readMetaSection c))"
proof -
  obtain r where r: "psb3ParseHeader data = Inr r" using parse_header_total by blast
  show ?thesis
  proof (cases r)
    case (Inl e)
    then show ?thesis by (simp add: r)
  next
    case (Inr pf)
    note acc = parse_header_accepts [OF r [unfolded Inr]]
    have "case psb3FindSection pf i of None \<Rightarrow> True
          | Some c \<Rightarrow> ok (readCodeSection ch c) \<and> ok (readLinesSection junk ch c)
              \<and> ok (readBmapSection ch c) \<and> ok (readMetaSection c)"
      using find_section_wf [OF r [unfolded Inr]] by (auto split: option.split intro!: safe_ok safe_intros)
    then show ?thesis using acc by (simp add: r Inr check_sections_None)
  qed
qed

subsection \<open>What was laid out is what is found\<close>

interpretation entry_codec: codec "\<lambda>_. True" "\<lambda>_. 0" "\<lambda>e. e"
    "\<lambda>e. le_bytes 4 (se_id e) @ le_bytes 4 (se_offset e) @ le_bytes 4 (se_length e)" psb3_entry read_entry
proof
  fix e b
  show "bb_data (psb3_entry e b) = bb_data b @ le_bytes 4 (se_id e) @ le_bytes 4 (se_offset e) @ le_bytes 4 (se_length e)"
    by (simp add: psb3_entry_def buf_simps)
next
  fix e :: Psb3SectionEntry
  have "parses 0 (rret \<lparr>se_id = se_id e, se_offset = se_offset e, se_length = se_length e\<rparr>) [] e"
    by (cases e) (simp add: parses_rret)
  then show "parses 0 read_entry (le_bytes 4 (se_id e) @ le_bytes 4 (se_offset e) @ le_bytes 4 (se_length e)) e"
    unfolding read_entry_def
    by (intro parses_rbind [OF parses_curU32LE] parses_rbind_last [OF parses_curU32LE])
qed (rule safe_read_entry)

definition header_bytes :: "u16 \<Rightarrow> int \<Rightarrow> nat \<Rightarrow> byte list" where
  "header_bytes version kind n = le_bytes 4 PSB3_MAGIC @ le_bytes 2 PSB3_FORMAT_VERSION @ le_bytes 2 version
     @ le_bytes 4 (word_of_int kind AND 0xFF :: u32) @ le_bytes 4 (word_of_nat n :: u32)"

lemma psb3_header_data: "bb_data (psb3_header version kind n) = header_bytes version kind n"
  by (simp add: psb3_header_def header_bytes_def buf_simps bufInit_def)

lemma parses_read_header:
  "parses d read_header (header_bytes version kind n)
     (PSB3_MAGIC, PSB3_FORMAT_VERSION, version, word_of_int kind AND 0xFF, word_of_nat n)"
  unfolding read_header_def header_bytes_def
  by (intro parses_rbind [OF parses_curU32LE] parses_rbind [OF parses_curU16LE]
      parses_rbind_last [OF parses_curU32LE] parses_rret)

lemma psb3_align_ge: "n \<le> psb3_align n"
  and psb3_align_less: "psb3_align n \<le> n + 7"
  by (simp_all add: psb3_align_def)

lemma psb3_align_idem: "psb3_align (psb3_align n) = psb3_align n"
  by (simp add: psb3_align_def)

lemma psb3_offsets_length [simp]: "length (psb3_offsets start ss) = length ss"
  by (induction start ss rule: psb3_offsets.induct) simp_all

text \<open>The layout: each body starts at its offset, and the next one after its end.\<close>

lemma bodies_laid_out:
  assumes "length out \<le> start"
    and F: "F = fold psb3_body (zip (psb3_offsets start ss) ss) out"
  shows "take (length out) F = out \<and> length out \<le> length F \<and>
    (\<forall>k < length ss. start \<le> psb3_offsets start ss ! k
       \<and> psb3_offsets start ss ! k + length (ss ! k) \<le> length F
       \<and> take (length (ss ! k)) (drop (psb3_offsets start ss ! k) F) = ss ! k) \<and>
    sorted_wrt (\<lambda>(o1, s1) (o2, s2). o1 + length s1 \<le> o2) (zip (psb3_offsets start ss) ss)"
  unfolding F using assms(1)
proof (induction start ss arbitrary: out rule: psb3_offsets.induct)
  case (1 start)
  then show ?case by simp
next
  case (2 start s ss)
  let ?pad = "out @ replicate (start - length out) 0 @ s"
  let ?next = "psb3_align (start + length s)"
  let ?out = "?pad @ replicate (?next - length ?pad) 0"
  have lp: "length ?pad = start + length s" using 2(2) by simp
  have lo: "length ?out = ?next" using lp psb3_align_ge [of "start + length s"] by simp
  have "psb3_body (start, s) out = ?pad @ replicate (psb3_align (length ?pad) - length ?pad) 0"
    by (simp add: psb3_body_def Let_def add.assoc)
  then have body: "psb3_body (start, s) out = ?out" by (simp only: lp)
  let ?G = "fold psb3_body (zip (psb3_offsets ?next ss) ss) ?out"
  have IH: "take (length ?out) ?G = ?out" "length ?out \<le> length ?G"
    "\<forall>k < length ss. ?next \<le> psb3_offsets ?next ss ! k
       \<and> psb3_offsets ?next ss ! k + length (ss ! k) \<le> length ?G
       \<and> take (length (ss ! k)) (drop (psb3_offsets ?next ss ! k) ?G) = ss ! k"
    "sorted_wrt (\<lambda>(o1, s1) (o2, s2). o1 + length s1 \<le> o2) (zip (psb3_offsets ?next ss) ss)"
    using 2(1) [of ?out] lo by simp_all
  have F: "fold psb3_body (zip (psb3_offsets start (s # ss)) (s # ss)) out = ?G"
    by (simp add: body)
  obtain rest where G: "?G = ?out @ rest" using IH(1) by (metis append_take_drop_id)
  have first: "take (length s) (drop start ?G) = s" unfolding G using 2(2) by simp
  have pre: "take (length out) ?G = out" unfolding G by simp
  have ends: "start + length s \<le> ?next" by (rule psb3_align_ge)
  have each: "start \<le> psb3_offsets start (s # ss) ! k
       \<and> psb3_offsets start (s # ss) ! k + length ((s # ss) ! k) \<le> length ?G
       \<and> take (length ((s # ss) ! k)) (drop (psb3_offsets start (s # ss) ! k) ?G) = (s # ss) ! k"
    if "k < length (s # ss)" for k
  proof (cases k)
    case 0
    then show ?thesis using first IH(2) lo ends by simp
  next
    case (Suc j)
    then show ?thesis using that IH(3) ends by auto
  qed
  have after: "start + length s \<le> fst p" if p: "p \<in> set (zip (psb3_offsets ?next ss) ss)" for p
  proof -
    obtain k where "k < length ss" "p = (psb3_offsets ?next ss ! k, ss ! k)"
      using p by (auto simp: set_zip)
    then show ?thesis using IH(3) ends by auto
  qed
  have len: "length out \<le> length ?G" using IH(2) 2(2) lo ends by linarith
  have "sorted_wrt (\<lambda>(o1, s1) (o2, s2). o1 + length s1 \<le> o2) (zip (psb3_offsets start (s # ss)) (s # ss))"
    using IH(4) after by auto
  with pre len each show ?case unfolding F by blast
qed

text \<open>The file as a whole: header, directory, then the bodies where the directory says.\<close>

definition total_size :: "(u32 \<times> byte list) list \<Rightarrow> nat" where
  "total_size sections = 16 + length sections * 12 + 7 + sum_list (map (\<lambda>(i, bs). length bs + 7) sections)"

lemma offsets_bounded:
  "k < length ss \<Longrightarrow> psb3_offsets start ss ! k + length (ss ! k) \<le> start + sum_list (map (\<lambda>bs. length bs + 7) ss)"
proof (induction start ss arbitrary: k rule: psb3_offsets.induct)
  case (2 start s ss)
  show ?case
  proof (cases k)
    case (Suc j)
    then have "psb3_offsets (psb3_align (start + length s)) ss ! j + length (ss ! j)
        \<le> psb3_align (start + length s) + sum_list (map (\<lambda>bs. length bs + 7) ss)"
      using 2 by simp
    then show ?thesis using Suc psb3_align_less [of "start + length s"] by simp
  qed simp
qed simp

lemma psb3_entries_length [simp]: "length (psb3_entries start sections) = length sections"
  by (simp add: psb3_entries_def)

lemma psb3_entries_nth:
  "k < length sections \<Longrightarrow> psb3_entries start sections ! k =
     \<lparr>se_id = fst (sections ! k), se_offset = word_of_nat (psb3_offsets start (map snd sections) ! k),
      se_length = word_of_nat (length (snd (sections ! k)))\<rparr>"
  by (simp add: psb3_entries_def split_beta)

lemma unat_u32_of_nat: "n < 2 ^ 32 \<Longrightarrow> unat (word_of_nat n :: u32) = n"
  by (simp add: unsigned_of_nat take_bit_nat_eq_self)

lemma find_nth:
  assumes "k < length xs" "P (xs ! k)" "\<And>j. j < length xs \<Longrightarrow> P (xs ! j) \<Longrightarrow> j = k"
  shows "find P xs = Some (xs ! k)"
proof -
  have "\<forall>j < k. \<not> P (xs ! j)" using assms(1,3) by (metis less_trans less_irrefl)
  then show ?thesis using assms(1,2) by (subst find_Some_iff) blast
qed

lemma flags_kind:
  "frontendKindIsValid kind \<Longrightarrow> int (unat ((word_of_int kind AND 0xFF :: u32) AND 0xFF)) = kind"
proof -
  assume "frontendKindIsValid kind"
  then have "kind = 0 \<or> kind = 1 \<or> kind = 2 \<or> kind = 3 \<or> kind = 4 \<or> kind = 5"
    unfolding frontendKindIsValid_def FRONTEND_KIND_LAST_def by presburger
  then show ?thesis by auto
qed

lemma length_header_bytes [simp]: "length (header_bytes version kind n) = 16"
  by (simp add: header_bytes_def)

lemma length_entry_bytes:
  "length (concat (map (\<lambda>e. le_bytes 4 (se_id e) @ le_bytes 4 (se_offset e) @ le_bytes 4 (se_length e)) es))
     = 12 * length es"
  by (induction es) simp_all

text \<open>The entries of the directory, in numbers.\<close>

lemma entries_in_numbers:
  assumes "total_size sections < 2 ^ 32" "k < length sections"
  defines "start \<equiv> psb3_align (16 + length sections * 12)"
  shows "se_start (psb3_entries start sections ! k) = psb3_offsets start (map snd sections) ! k"
    "unat (se_length (psb3_entries start sections ! k)) = length (snd (sections ! k))"
    "se_end (psb3_entries start sections ! k)
      = psb3_offsets start (map snd sections) ! k + length (snd (sections ! k))"
proof -
  let ?o = "psb3_offsets start (map snd sections) ! k" and ?l = "length (snd (sections ! k))"
  have "?o + ?l \<le> start + sum_list (map (\<lambda>bs. length bs + 7) (map snd sections))"
    using offsets_bounded [of k "map snd sections" start] assms(2) by simp
  also have "\<dots> \<le> total_size sections"
    using psb3_align_less [of "16 + length sections * 12"]
    by (simp add: total_size_def start_def o_def case_prod_beta')
  finally have b: "?o + ?l < 2 ^ 32" using assms(1) by simp
  then have "unat (word_of_nat ?o :: u32) = ?o" "unat (word_of_nat ?l :: u32) = ?l"
    by (intro unat_u32_of_nat; simp)+
  then show "se_start (psb3_entries start sections ! k) = ?o"
    "unat (se_length (psb3_entries start sections ! k)) = ?l"
    "se_end (psb3_entries start sections ! k) = ?o + ?l"
    using assms(2) by (simp_all add: se_start_def se_end_def psb3_entries_nth)
qed

lemma parse_header_of_layout:
  assumes F: "F = header_bytes version kind (length es) @ concat (map (\<lambda>e. le_bytes 4 (se_id e)
      @ le_bytes 4 (se_offset e) @ le_bytes 4 (se_length e)) es) @ rest"
    and n: "length es \<le> 64" and kind: "frontendKindIsValid kind"
    and chk: "check_sections (length F) es = None"
  shows "psb3ParseHeader F = Inr (Inr \<lparr>pf_file_data = F, pf_format_version = PSB3_FORMAT_VERSION,
     pf_vm_version = version, pf_flags = word_of_int kind AND 0xFF, pf_frontend_kind = kind, pf_sections = es\<rparr>)"
proof -
  let ?hb = "header_bytes version kind (length es)"
  let ?db = "concat (map (\<lambda>e. le_bytes 4 (se_id e) @ le_bytes 4 (se_offset e) @ le_bytes 4 (se_length e)) es)"
  let ?c = "curInit F (length F)"
  have a: "at ?c (?hb @ ?db)" by (simp add: at_def cur_wf_def curInit_def F)
  have dep: "cu_depth ?c + 0 \<le> CACHE_MAX_NESTING" by (simp add: curInit_def)
  note h = parsesD [OF parses_read_header at_append(1) [OF a] dep]
  have un: "unat (word_of_nat (length es) :: u32) = length es" using n by (intro unat_u32_of_nat) simp
  have "parses 0 (rrepeat (length es) read_entry) ?db (map (\<lambda>e. e) es)"
    by (rule entry_codec.rrepeat_enc) simp
  from parsesD [OF this at_append(2) [OF a]]
  have e: "rrepeat (length es) read_entry (adv (length ?hb) ?c) = Inr (es, adv (length ?db) (adv (length ?hb) ?c))"
    by (simp add: curInit_def)
  show ?thesis
    unfolding psb3ParseHeader_def h ebind.simps prod.case Let_def un e
    unfolding flags_kind [OF kind] using n kind chk by (simp add: curInit_def)
qed

text \<open>C25: Writing sections into a file and opening it again gives every section back. For
  sections with distinct ids (at most 64 of them, as the reader demands) in a file that fits 32-bit
  offsets, the header parser accepts the written file with the frontend kind and version written,
  and \<open>psb3FindSection\<close> answers each id with a cursor over exactly the bytes of its section.\<close>

theorem container_roundtrip:
  assumes n: "length sections \<le> 64" and dist: "distinct (map fst sections)"
    and size: "total_size sections < 2 ^ 32" and kind: "frontendKindIsValid kind"
  shows "\<exists>pf. psb3ParseHeader (psb3_container version kind sections) = Inr (Inr pf)
    \<and> pf_vm_version pf = version \<and> pf_frontend_kind pf = kind
    \<and> (\<forall>(i, bs) \<in> set sections. \<exists>c. psb3FindSection pf i = Some c \<and> cu_size c = length bs
         \<and> cu_pos c = 0 \<and> \<not> cu_error c \<and> take (length bs) (cu_data c) = bs)"
proof -
  let ?start = "psb3_align (16 + length sections * 12)"
  let ?bodies = "map snd sections" and ?es = "psb3_entries ?start sections"
  let ?offs = "psb3_offsets ?start ?bodies"
  let ?db = "concat (map (\<lambda>e. le_bytes 4 (se_id e) @ le_bytes 4 (se_offset e) @ le_bytes 4 (se_length e)) ?es)"
  let ?out = "header_bytes version kind (length ?es) @ ?db"
  let ?F = "psb3_container version kind sections"
  have F: "?F = fold psb3_body (zip ?offs ?bodies) ?out"
    by (simp add: psb3_container_def Let_def psb3_header_data entry_codec.fold_put bufInit_def)
  have "length ?out \<le> ?start" 
    using psb3_align_ge [of "16 + length sections * 12"] by (simp add: length_entry_bytes)
  note laid = bodies_laid_out [OF this F]
  note num = entries_in_numbers [OF size]
  have body: "?offs ! k + length (snd (sections ! k)) \<le> length ?F
      \<and> take (length (snd (sections ! k))) (drop (?offs ! k) ?F) = snd (sections ! k)"
    if "k < length sections" for k
    using laid that by simp
  have inf: "list_all (in_file (length ?F)) ?es"
    using body num by (simp add: list_all_length in_file_def)
  have "apart (?es ! j) (?es ! k)" if "j < k" "k < length ?es" for j k
  proof -
    have "?offs ! j + length (?bodies ! j) \<le> ?offs ! k"
      using laid that by (auto simp: sorted_wrt_iff_nth_less)
    then show ?thesis using that num(1,3) [of j] num(1,3) [of k] by (simp add: apart_def)
  qed
  then have "sorted_wrt apart ?es" by (auto simp: sorted_wrt_iff_nth_less)
  then have chk: "check_sections (length ?F) ?es = None" using inf by (simp add: check_sections_None)
  have "take (length ?out) ?F = ?out" using laid by (rule conjunct1)
  then have "?F = ?out @ drop (length ?out) ?F" using append_take_drop_id [of "length ?out" ?F] by simp
  then have parse: "psb3ParseHeader ?F = Inr (Inr \<lparr>pf_file_data = ?F, pf_format_version = PSB3_FORMAT_VERSION,
     pf_vm_version = version, pf_flags = word_of_int kind AND 0xFF, pf_frontend_kind = kind, pf_sections = ?es\<rparr>)"
    using n kind chk by (intro parse_header_of_layout) simp_all
  have found: "\<exists>c. psb3FindSection \<lparr>pf_file_data = ?F, pf_format_version = PSB3_FORMAT_VERSION,
       pf_vm_version = version, pf_flags = word_of_int kind AND 0xFF, pf_frontend_kind = kind,
       pf_sections = ?es\<rparr> (fst (sections ! k)) = Some c \<and> cu_size c = length (snd (sections ! k))
       \<and> cu_pos c = 0 \<and> \<not> cu_error c \<and> take (length (snd (sections ! k))) (cu_data c) = snd (sections ! k)"
    if k: "k < length sections" for k
  proof -
    have "find (\<lambda>e. se_id e = fst (sections ! k)) ?es = Some (?es ! k)"
    proof (rule find_nth)
      fix j assume j: "j < length ?es" "se_id (?es ! j) = fst (sections ! k)"
      then have "map fst sections ! j = map fst sections ! k" using k by (simp add: psb3_entries_nth)
      then show "j = k" using nth_eq_iff_index_eq [OF dist, of j k] j(1) k by simp
    qed (use k in \<open>simp_all add: psb3_entries_nth\<close>)
    then show ?thesis using body [OF k] num [OF k] by (simp add: psb3FindSection_def curInit_def)
  qed
  let ?pf = "\<lparr>pf_file_data = ?F, pf_format_version = PSB3_FORMAT_VERSION, pf_vm_version = version,
     pf_flags = word_of_int kind AND 0xFF, pf_frontend_kind = kind, pf_sections = ?es\<rparr>"
  have "\<exists>c. psb3FindSection ?pf (fst p) = Some c \<and> cu_size c = length (snd p)
       \<and> cu_pos c = 0 \<and> \<not> cu_error c \<and> take (length (snd p)) (cu_data c) = snd p" if "p \<in> set sections" for p
  proof -
    from that have "\<exists>k < length sections. sections ! k = p" by (simp add: in_set_conv_nth)
    then show ?thesis using found by blast
  qed
  then have "\<forall>(i, bs) \<in> set sections. \<exists>c. psb3FindSection ?pf i = Some c \<and> cu_size c = length bs
       \<and> cu_pos c = 0 \<and> \<not> cu_error c \<and> take (length bs) (cu_data c) = bs"
    by (simp add: case_prod_beta)
  with parse show ?thesis by (intro exI [of _ ?pf]) simp
qed

lemma container_roundtrip_witness:
  "\<exists>pf. psb3ParseHeader (psb3_container 7 1 [(3, [1, 2]), (9, [])]) = Inr (Inr pf)
     \<and> pf_vm_version pf = 7 \<and> pf_frontend_kind pf = 1
     \<and> (\<exists>c. psb3FindSection pf 3 = Some c \<and> cu_size c = 2 \<and> take 2 (cu_data c) = [1, 2])"
proof -
  have "length [(3 :: u32, [1, 2 :: byte]), (9, [])] \<le> 64" by simp
  moreover have "distinct (map fst [(3 :: u32, [1, 2 :: byte]), (9, [])])" by simp
  moreover have "total_size [(3 :: u32, [1, 2 :: byte]), (9, [])] < 2 ^ 32" by (simp add: total_size_def)
  moreover have "frontendKindIsValid 1" by (simp add: frontendKindIsValid_def FRONTEND_KIND_LAST_def)
  ultimately obtain pf where pf: "psb3ParseHeader (psb3_container 7 1 [(3, [1, 2]), (9, [])]) = Inr (Inr pf)"
    "pf_vm_version pf = 7" "pf_frontend_kind pf = 1"
    "\<forall>(i, bs) \<in> set [(3, [1, 2]), (9, [])]. \<exists>c. psb3FindSection pf i = Some c \<and> cu_size c = length bs
         \<and> cu_pos c = 0 \<and> \<not> cu_error c \<and> take (length bs) (cu_data c) = bs"
    using container_roundtrip [of "[(3, [1, 2]), (9, [])]" 1 7] by blast
  from pf(4) have "\<exists>c. psb3FindSection pf 3 = Some c \<and> cu_size c = 2 \<and> take 2 (cu_data c) = [1, 2]"
    unfolding numeral_2_eq_2 by auto
  with pf(1-3) show ?thesis by blast
qed

definition cached_sections :: "BytecodeChunk \<Rightarrow> byte list" where
  "cached_sections ch = bb_data (writeBmapSection ch (writeLinesSection ch (writeCodeSection ch bufInit)))"

definition load_sections :: "int \<Rightarrow> BytecodeChunk \<Rightarrow> BytecodeChunk option reader" where
  "load_sections junk ch0 = rbind (readCodeSection ch0) (\<lambda>r1. case r1 of None \<Rightarrow> rret None | Some ch1 \<Rightarrow>
     rbind (readLinesSection junk ch1) (\<lambda>r2. case r2 of None \<Rightarrow> rret None | Some ch2 \<Rightarrow>
       readBmapSection ch2))"

text \<open>C27: A chunk survives being cached. The CODE, LINE and BMAP sections written one after the
  other are read back, from any position of a larger buffer, as the same code, cache count, source
  lines and builtin map: an index of the map that is out of range is loaded as \<open>-1\<close>, and a fresh
  cell of the loader's arrays never survives.\<close>

theorem sections_roundtrip:
  assumes "ch_count ch \<le> PSB3_MAX_CODE_BYTES" "ch_cache_count ch \<le> 0x10000"
    and "length (ch_lines ch) = ch_count ch"
    and "\<forall>l \<in> set (ch_lines ch). - (2 ^ 31) \<le> l \<and> l < 2 ^ 31"
    and "ch_constants_count ch < 2 ^ 31" "ch_constants ch0 = ch_constants ch"
    and "ch_constants_capacity ch0 = ch_constants_count ch"
    and "bs = cached_sections ch"
  shows "\<exists>ch' c. load_sections junk ch0 (curInit (bs @ rest) (length (bs @ rest))) = Inr (Some ch', c)
    \<and> cu_pos c = length bs \<and> \<not> cu_error c
    \<and> ch_code ch' = ch_code ch \<and> ch_cache_count ch' = ch_cache_count ch \<and> ch_lines ch' = ch_lines ch
    \<and> (\<forall>i. getBuiltinLowercaseIndex i ch' =
          (if 0 \<le> getBuiltinLowercaseIndex i ch \<and> getBuiltinLowercaseIndex i ch < int (ch_constants_count ch)
           then getBuiltinLowercaseIndex i ch else - 1))"
proof -
  let ?ch1 = "ch0\<lparr>ch_capacity := ch_count ch, ch_cache_count := ch_cache_count ch, ch_code := ch_code ch\<rparr>"
  let ?ch2 = "?ch1\<lparr>ch_lines := ch_lines ch\<rparr>"
  let ?ch3 = "?ch2\<lparr>ch_builtin_resolved_ids := None, ch_builtin_lowercase_indices :=
       (if 0 < ch_constants_count ch then Some (loaded_indices ch) else None)\<rparr>"
  let ?m = "load_sections junk ch0"
  have bs: "bs = code_bytes ch @ lines_bytes (ch_lines ch) @ bmap_bytes ch"
    by (simp add: assms(8) cached_sections_def buf_simps bufInit_def)
  have "parses 0 ?m bs (Some ?ch3)"
    unfolding bs load_sections_def
  proof (rule parses_rbind [OF parses_readCodeSection [OF assms(1,2)]], unfold option.case, rule parses_rbind)
    show "parses 0 (readLinesSection junk ?ch1) (lines_bytes (ch_lines ch)) (Some ?ch2)"
      using parses_readLinesSection [of "ch_lines ch" ?ch1 0 junk] assms by (simp add: PSB3_MAX_CODE_BYTES_def)
    show "parses 0 (case Some ?ch2 of None \<Rightarrow> rret None | Some ch2 \<Rightarrow> readBmapSection ch2) (bmap_bytes ch) (Some ?ch3)"
      using parses_readBmapSection [of ?ch2 ch 0] assms by simp
  qed
  from parsesD [OF this, of "curInit (bs @ rest) (length (bs @ rest))"]
  have run: "?m (curInit (bs @ rest) (length (bs @ rest)))
      = Inr (Some ?ch3, adv (length bs) (curInit (bs @ rest) (length (bs @ rest))))"
    by (simp add: at_def cur_wf_def curInit_def)
  have "getBuiltinLowercaseIndex i ?ch3 =
          (if 0 \<le> getBuiltinLowercaseIndex i ch \<and> getBuiltinLowercaseIndex i ch < int (ch_constants_count ch)
           then getBuiltinLowercaseIndex i ch else - 1)" for i
    using assms(6) by (auto simp: getBuiltinLowercaseIndex_def loaded_indices_def split: option.split)
  with run show ?thesis
    by (intro exI [of _ ?ch3] exI [of _ "adv (length bs) (curInit (bs @ rest) (length (bs @ rest)))"])
      (simp add: curInit_def)
qed

definition demo_cached :: BytecodeChunk where
  "demo_cached = (initBytecodeChunk 1 1)
     \<lparr>ch_code := [10, 20, 30], ch_capacity := 8, ch_lines := [4, 4, 9], ch_constants_capacity := 8,
      ch_constants := [VString TYPE_STRING (Some ''WriteLn''), VString TYPE_STRING (Some ''writeln'')],
      ch_builtin_lowercase_indices := Some [1, 7, - 1, - 1, - 1, - 1, - 1, - 1]\<rparr>"

lemma sections_roundtrip_witness:
  "\<exists>ch' c. load_sections 77 (demo_cached\<lparr>ch_constants_capacity := 2, ch_code := []\<rparr>)
       (curInit (cached_sections demo_cached @ [0]) (length (cached_sections demo_cached @ [0]))) = Inr (Some ch', c)
     \<and> ch_code ch' = [10, 20, 30] \<and> ch_lines ch' = [4, 4, 9]
     \<and> getBuiltinLowercaseIndex 0 ch' = 1 \<and> getBuiltinLowercaseIndex 1 ch' = - 1"
proof -
  let ?ch0 = "demo_cached\<lparr>ch_constants_capacity := 2, ch_code := []\<rparr>"
  have d: "ch_code demo_cached = [10, 20, 30]" "ch_lines demo_cached = [4, 4, 9]"
    "ch_cache_count demo_cached = 0" "ch_constants_count demo_cached = 2"
    "ch_builtin_lowercase_indices demo_cached = Some [1, 7, - 1, - 1, - 1, - 1, - 1, - 1]"
    by (simp_all add: demo_cached_def initBytecodeChunk_def)
  have "ch_count demo_cached \<le> PSB3_MAX_CODE_BYTES" "ch_cache_count demo_cached \<le> 0x10000"
    "length (ch_lines demo_cached) = ch_count demo_cached"
    "\<forall>l \<in> set (ch_lines demo_cached). - (2 ^ 31) \<le> l \<and> l < 2 ^ 31"
    "ch_constants_count demo_cached < 2 ^ 31" "ch_constants ?ch0 = ch_constants demo_cached"
    "ch_constants_capacity ?ch0 = ch_constants_count demo_cached"
    by (simp_all add: d PSB3_MAX_CODE_BYTES_def)
  note r = sections_roundtrip [OF this refl, of 77 "[0]"]
  then obtain ch' c where
    run: "load_sections 77 ?ch0 (curInit (cached_sections demo_cached @ [0])
       (length (cached_sections demo_cached @ [0]))) = Inr (Some ch', c)"
    and eq: "ch_code ch' = ch_code demo_cached" "ch_lines ch' = ch_lines demo_cached"
    and idx: "\<And>i. getBuiltinLowercaseIndex i ch' =
          (if 0 \<le> getBuiltinLowercaseIndex i demo_cached
              \<and> getBuiltinLowercaseIndex i demo_cached < int (ch_constants_count demo_cached)
           then getBuiltinLowercaseIndex i demo_cached else - 1)"
    by blast
  have "getBuiltinLowercaseIndex 0 ch' = 1 \<and> getBuiltinLowercaseIndex 1 ch' = - 1"
    using idx [of 0] idx [of 1] by (simp add: getBuiltinLowercaseIndex_def [of _ demo_cached] d)
  with run eq show ?thesis by (intro exI [of _ ch'] exI [of _ c]) (simp add: d)
qed

end
