(* ===== verification/AstCodec.thy ===== *)
theory AstCodec
  imports Psb3
begin

section \<open>Syntax trees in cache files\<close>

text \<open>
  \<open>writeToken\<close>, \<open>readToken\<close>, \<open>writeAst\<close>, \<open>readAst\<close> and \<open>readAstNested\<close> of \<open>core/cache.c\<close>, through
  which the type declarations of a program go in and out of a cache file. \<open>NULL\<close> pointers are the
  constructor \<open>Null\<close>; the fields of an AST node that the codec neither writes nor reads (parent
  links, which the tree implies, unit list, symbol table, type definition, record layout) are left
  out. The C function recurses once per level and stops at \<open>CACHE_MAX_NESTING\<close>; the model recurses
  on the levels that are left, and \<open>readAst_unfold\<close> is the recursion of the source.
\<close>

named_theorems level_intros \<open>readers that leave the nesting level as it was\<close>
named_theorems agree_intros \<open>readers that agree on a nesting level\<close>

subsection \<open>Tokens and trees\<close>

record Token =
  tk_type :: u32
  tk_value :: "byte list option"
  tk_line :: int
  tk_column :: int
  tk_is_char_code :: bool
  tk_char_code_value :: u32

record ASTInfo =
  ai_type :: u32
  ai_token :: "Token option"
  ai_var_type :: u32
  ai_by_ref :: int
  ai_i_val :: int
  ai_is_global_scope :: bool
  ai_is_inline :: bool
  ai_is_forward_decl :: bool
  ai_is_virtual :: bool
  ai_is_exported :: bool

datatype AST =
    Null
  | Node ASTInfo AST AST AST "AST list"

definition newASTNode :: "u32 \<Rightarrow> Token option \<Rightarrow> ASTInfo" where
  "newASTNode t tok =
     \<lparr>ai_type = t, ai_token = tok, ai_var_type = 1, ai_by_ref = 0, ai_i_val = 0, ai_is_global_scope = False,
      ai_is_inline = False, ai_is_forward_decl = False, ai_is_virtual = False, ai_is_exported = False\<rparr>"

definition setTypeAST :: "u32 \<Rightarrow> ASTInfo \<Rightarrow> ASTInfo" where
  "setTypeAST vt i = i\<lparr>ai_var_type := vt\<rparr>"

subsection \<open>Writing\<close>

definition writeToken :: "Token option \<Rightarrow> ByteBuf \<Rightarrow> ByteBuf" where
  "writeToken tok out =
     (case tok of
        None \<Rightarrow> bufU8 0 out
      | Some t \<Rightarrow> bufLenPrefixedBytes (case tk_value t of None \<Rightarrow> [] | Some v \<Rightarrow> v)
                    (bufU32LE (tk_type t) (bufU8 1 out)))"

definition ast_flags :: "ASTInfo \<Rightarrow> byte" where
  "ast_flags i =
     (if ai_by_ref i \<noteq> 0 then 0x01 else 0) OR (if ai_is_inline i then 0x02 else 0) OR
     (if ai_is_virtual i then 0x04 else 0) OR (if ai_is_global_scope i then 0x08 else 0)"

fun writeAst :: "AST \<Rightarrow> ByteBuf \<Rightarrow> ByteBuf" where
  "writeAst Null out = bufU8 0 out"
| "writeAst (Node i l r e cs) out =
     (let out1 = bufI32LE (ai_i_val i) (writeToken (ai_token i) (bufU8 (ast_flags i)
                   (bufU32LE (ai_var_type i) (bufU32LE (ai_type i) (bufU8 1 out)))));
          out2 = writeAst e (writeAst r (writeAst l out1));
          out3 = bufI32LE (int (length cs)) out2
      in fold writeAst cs out3)"

subsection \<open>Reading\<close>

definition readToken :: "Token option reader" where
  "readToken = rbind curU8 (\<lambda>has. rbind curError (\<lambda>e.
     if e \<or> has = 0 then rret None
     else rbind curU32LE (\<lambda>t. rbind curLenPrefixedString (\<lambda>buf. rbind curError (\<lambda>e'. rret (case buf of
         None \<Rightarrow> None
       | Some s \<Rightarrow> if e' then None
           else Some \<lparr>tk_type = t, tk_value = Some s, tk_line = 0, tk_column = 0,
                  tk_is_char_code = False, tk_char_code_value = 0\<rparr>))))))"

definition read_info :: "u32 \<Rightarrow> u32 \<Rightarrow> byte \<Rightarrow> Token option \<Rightarrow> int \<Rightarrow> ASTInfo" where
  "read_info t vt flags tok i_val =
     (setTypeAST vt (newASTNode t tok))\<lparr>ai_i_val := i_val,
        ai_by_ref := (if flags AND 0x01 \<noteq> 0 then 1 else 0),
        ai_is_inline := flags AND 0x02 \<noteq> 0, ai_is_virtual := flags AND 0x04 \<noteq> 0,
        ai_is_global_scope := flags AND 0x08 \<noteq> 0\<rparr>"

text \<open>The children: \<open>readAst\<close> is the reader of a subtree.\<close>

definition read_children :: "AST reader \<Rightarrow> ASTInfo \<Rightarrow> AST \<Rightarrow> AST \<Rightarrow> AST \<Rightarrow> AST reader" where
  "read_children readAst i l r x = rbind curI32LE (\<lambda>child_count. rbind curError (\<lambda>e. rbind curRemaining (\<lambda>left.
     if e \<or> child_count < 0 \<or> left < nat child_count then rret Null
     else if 0 < child_count
     then rbind (rrepeat (nat child_count) readAst) (\<lambda>cs. rbind curError (\<lambda>e'.
            rret (if e' then Null else Node i l r x cs)))
     else rret (Node i l r x []))))"

definition readAstNested :: "AST reader \<Rightarrow> AST reader" where
  "readAstNested readAst = rbind curU8 (\<lambda>has. rbind curError (\<lambda>e.
     if e \<or> has = 0 then rret Null
     else rbind curU32LE (\<lambda>t. rbind curU32LE (\<lambda>vt. rbind curU8 (\<lambda>flags. rbind readToken (\<lambda>tok.
       rbind curError (\<lambda>e1. if e1 then rret Null
       else rbind curI32LE (\<lambda>i_val. rbind curError (\<lambda>e2. if e2 then rret Null
       else rbind readAst (\<lambda>l. rbind readAst (\<lambda>r. rbind readAst (\<lambda>x. rbind curError (\<lambda>e3.
         if e3 then rret Null
         else read_children readAst (read_info t vt flags tok i_val) l r x)))))))))))))"

definition nested :: "'a \<Rightarrow> 'a reader \<Rightarrow> 'a reader" where
  "nested failed m = rbind curEnterNested (\<lambda>b. if \<not> b then rret failed
     else rbind m (\<lambda>x. rbind curLeaveNested (\<lambda>_. rret x)))"

primrec readAst_below :: "nat \<Rightarrow> AST reader" where
  "readAst_below 0 = nested Null (rret Null)"
| "readAst_below (Suc n) = nested Null (readAstNested (readAst_below n))"

definition readAst :: "AST reader" where
  "readAst c = readAst_below (CACHE_MAX_NESTING - cu_depth c) c"

subsection \<open>Nesting levels\<close>

definition level :: "'a reader \<Rightarrow> bool" where
  "level m \<longleftrightarrow> (\<forall>c x c'. m c = Inr (x, c') \<longrightarrow> cu_depth c' = cu_depth c)"

definition agree :: "nat \<Rightarrow> 'a reader \<Rightarrow> 'a reader \<Rightarrow> bool" where
  "agree d m m' \<longleftrightarrow> (\<forall>c. cu_depth c = d \<longrightarrow> m c = m' c)"

lemma levelD: "level m \<Longrightarrow> m c = Inr (x, c') \<Longrightarrow> cu_depth c' = cu_depth c"
  by (auto simp: level_def)

lemma level_rret [level_intros]: "level (rret x)"
  by (simp add: level_def rret_def)

lemma level_rbind [level_intros]:
  assumes m: "level m" and f: "\<And>x. level (f x)" shows "level (rbind m f)"
  unfolding level_def
proof (intro allI impI)
  fix c y c' assume "rbind m f c = Inr (y, c')"
  then obtain x c1 where "m c = Inr (x, c1)" "f x c1 = Inr (y, c')"
    by (auto simp: rbind_def result_simps)
  then show "cu_depth c' = cu_depth c" using levelD [OF m] levelD [OF f] by metis
qed

lemma level_if [level_intros]: "(b \<Longrightarrow> level m) \<Longrightarrow> (\<not> b \<Longrightarrow> level m') \<Longrightarrow> level (if b then m else m')"
  by simp

lemma level_option [level_intros]:
  "level m \<Longrightarrow> (\<And>x. level (f x)) \<Longrightarrow> level (case r of None \<Rightarrow> m | Some x \<Rightarrow> f x)"
  by (cases r) simp_all

lemma level_basic [level_intros]: "level curError" "level curFail" "level curRemaining"
    "level (curEnsure n)" "level (curLoad n)"
  by (auto simp: level_def curError_def curFail_def curRemaining_def curEnsure_def curLoad_def)

lemma level_fixed [level_intros]: "level curU8" "level curU16LE" "level curU32LE" "level curU64LE"
    "level curI32LE" "level curF32LE" "level curF64LE" "level (curBytes n)"
  unfolding curU8_def curU16LE_def curU32LE_def curU64LE_def curI32LE_def curF32LE_def curF64LE_def
    curBytes_def by (intro level_intros)+

lemma level_varint_from: "level (curVarint_from r s)"
proof -
  have "curVarint_from r s c = Inr (x, c') \<Longrightarrow> cu_depth c' = cu_depth c" for c x c'
  proof (induction r s c rule: curVarint_from.induct)
    case (1 r s c)
    show ?case
    proof (cases "cu_error c \<or> 63 < s")
      case True
      then show ?thesis using 1(2) by (subst (asm) curVarint_from.simps) auto
    next
      case False
      then obtain b c1 where b: "curU8 c = Inr (b, c1)"
        using 1(2) by (subst (asm) curVarint_from.simps) (auto simp: result_simps)
      then have d: "cu_depth c1 = cu_depth c" using level_fixed(1) by (rule levelD [rotated])
      show ?thesis
      proof (cases "cu_error c1 \<or> b AND 0x80 = 0")
        case True
        then show ?thesis using 1(2) False b d
          by (subst (asm) curVarint_from.simps) (auto simp: Let_def split: if_splits)
      next
        case more: False
        then have "curVarint_from (r OR push_bit s (ucast (b AND 0x7F))) (s + 7) c1 = Inr (x, c')"
          using 1(2) False b by (subst (asm) curVarint_from.simps) (auto simp: Let_def)
        then show ?thesis using 1(1) [OF False b refl _ refl] more d by simp
      qed
    qed
  qed
  then show ?thesis by (simp add: level_def)
qed

lemma level_varint [level_intros]: "level curVarint"
  by (simp add: curVarint_def level_varint_from)

lemma level_lenPrefixed [level_intros]: "level curLenPrefixedString"
proof -
  have "level (\<lambda>c. if e \<or> cu_size c < k then rbind curFail (\<lambda>_. rret None) c else curBytes n c)" for e k n
  proof -
    have "level (rbind curFail (\<lambda>_. rret (None :: byte list option)))" by (intro level_intros)
    then show ?thesis using level_fixed(8) [of n] unfolding level_def by (metis (full_types))
  qed
  then show ?thesis unfolding curLenPrefixedString_def by (intro level_intros)
qed

lemma level_rrepeat [level_intros]: "level m \<Longrightarrow> level (rrepeat n m)"
  by (induction n) (auto intro!: level_intros)

lemma level_nested:
  assumes "level m" shows "level (nested x m)"
  unfolding level_def
proof (intro allI impI)
  fix c y c' assume r: "nested x m c = Inr (y, c')"
  show "cu_depth c' = cu_depth c"
  proof (cases "CACHE_MAX_NESTING \<le> cu_depth c")
    case True
    then show ?thesis using r by (auto simp: nested_def rbind_def curEnterNested_def rret_def)
  next
    case False
    then obtain c1 where "m (c\<lparr>cu_depth := cu_depth c + 1\<rparr>) = Inr (y, c1)" "c' = c1\<lparr>cu_depth := cu_depth c1 - 1\<rparr>"
      using r by (auto simp: nested_def rbind_def curEnterNested_def curLeaveNested_def rret_def result_simps)
    then show ?thesis using levelD [OF assms] by fastforce
  qed
qed

lemma level_readToken [level_intros]: "level readToken"
  unfolding readToken_def by (intro level_intros)

lemma level_readAstNested: "level m \<Longrightarrow> level (readAstNested m)"
  unfolding readAstNested_def read_children_def by (intro level_intros)

lemma level_readAst_below: "level (readAst_below n)"
  by (induction n) (auto intro: level_nested level_readAstNested level_rret)

subsection \<open>The recursion of the source\<close>

lemma agree_refl [agree_intros]: "agree d m m"
  by (simp add: agree_def)

lemma agree_rbind [agree_intros]:
  assumes "level m" "agree d m m'" "\<And>x. agree d (f x) (f' x)"
  shows "agree d (rbind m f) (rbind m' f')"
  unfolding agree_def
proof (intro allI impI)
  fix c :: Cursor assume c: "cu_depth c = d"
  then have e: "m' c = m c" using assms(2) by (simp add: agree_def)
  show "rbind m f c = rbind m' f' c"
    unfolding rbind_def e
  proof (rule ebind_cong [OF refl])
    fix p assume p: "m c = Inr p"
    obtain x c1 where "p = (x, c1)" by (cases p)
    then show "(case p of (x, c') \<Rightarrow> f x c') = (case p of (x, c') \<Rightarrow> f' x c')"
      using levelD [OF assms(1)] p c assms(3) by (auto simp: agree_def)
  qed
qed

lemma agree_if [agree_intros]:
  "agree d m m' \<Longrightarrow> agree d n n' \<Longrightarrow> agree d (if b then m else n) (if b then m' else n')"
  by simp

lemma agree_rrepeat: "level m \<Longrightarrow> agree d m m' \<Longrightarrow> agree d (rrepeat n m) (rrepeat n m')"
proof (induction n)
  case (Suc n)
  show ?case
    unfolding rrepeat.simps
    by (rule agree_rbind [OF Suc.prems(1,2)], rule agree_rbind [OF level_rrepeat [OF Suc.prems(1)]
          Suc.IH [OF Suc.prems]]) (rule agree_refl)
qed (simp add: agree_refl)

lemma agree_nested:
  assumes "agree (Suc d) m m'" shows "agree d (nested x m) (nested x m')"
  using assms by (auto simp: agree_def nested_def rbind_def curEnterNested_def)

lemma agree_readAstNested:
  assumes "level m" "agree d m m'" shows "agree d (readAstNested m) (readAstNested m')"
  unfolding readAstNested_def read_children_def
  using assms by (intro agree_intros agree_rrepeat level_intros)

lemma readAst_below_enough:
  "CACHE_MAX_NESTING - d \<le> n \<Longrightarrow> CACHE_MAX_NESTING - d \<le> k \<Longrightarrow> agree d (readAst_below n) (readAst_below k)"
proof (induction n arbitrary: d k)
  case 0
  then have full: "CACHE_MAX_NESTING \<le> d" by simp
  show ?case
    unfolding agree_def by (cases k) (auto simp: nested_def rbind_def curEnterNested_def rret_def full)
next
  case (Suc n)
  show ?case
  proof (cases "CACHE_MAX_NESTING \<le> d")
    case True
    then show ?thesis
      unfolding agree_def by (cases k) (auto simp: nested_def rbind_def curEnterNested_def rret_def)
  next
    case False
    then obtain j where k: "k = Suc j" using Suc.prems(2) by (cases k) auto
    have "agree (Suc d) (readAst_below n) (readAst_below j)"
      using Suc.prems k by (intro Suc.IH) simp_all
    then show ?thesis
      unfolding k readAst_below.simps
      by (intro agree_nested agree_readAstNested level_readAst_below)
  qed
qed

lemma readAst_agrees: "CACHE_MAX_NESTING - d \<le> n \<Longrightarrow> agree d readAst (readAst_below n)"
  using readAst_below_enough [of d "CACHE_MAX_NESTING - d" n] by (auto simp: agree_def readAst_def)

lemma level_readAst [level_intros]: "level readAst"
  using level_readAst_below by (auto simp: level_def readAst_def)

text \<open>\<open>readAst\<close> satisfies the equation of the C function.\<close>

lemma readAst_unfold: "readAst = nested Null (readAstNested readAst)"
proof
  fix c :: Cursor
  let ?n = "CACHE_MAX_NESTING - cu_depth c"
  have "agree (Suc (cu_depth c)) readAst (readAst_below ?n)"
    by (rule readAst_agrees) simp
  then have "agree (cu_depth c) (nested Null (readAstNested readAst)) (readAst_below (Suc ?n))"
    unfolding readAst_below.simps by (intro agree_nested agree_readAstNested level_readAst)
  moreover have "agree (cu_depth c) readAst (readAst_below (Suc ?n))"
    by (rule readAst_agrees) simp
  ultimately show "readAst c = nested Null (readAstNested readAst) c"
    by (simp add: agree_def)
qed

subsection \<open>Any bytes\<close>

lemma safe_nested [safe_intros]: "safe m \<Longrightarrow> safe (nested x m)"
  unfolding nested_def by (intro safe_intros)

lemma safe_readToken [safe_intros]: "safe readToken"
  unfolding readToken_def by (intro safe_intros)

lemma safe_readAstNested: "safe m \<Longrightarrow> safe (readAstNested m)"
  unfolding readAstNested_def read_children_def by (intro safe_intros)

lemma safe_readAst_below: "safe (readAst_below n)"
  by (induction n) (auto intro!: safe_intros safe_readAstNested)

lemma safe_readAst [safe_intros]: "safe readAst"
  using safe_readAst_below by (auto simp: safe_def readAst_def)

subsection \<open>Trees survive the file\<close>

text \<open>What a tree is once loaded: a token keeps its type and text, and of the node's flags only the
  four that have a bit.\<close>

definition stored_token :: "Token \<Rightarrow> Token" where
  "stored_token t = \<lparr>tk_type = tk_type t, tk_value = Some (case tk_value t of None \<Rightarrow> [] | Some v \<Rightarrow> v),
     tk_line = 0, tk_column = 0, tk_is_char_code = False, tk_char_code_value = 0\<rparr>"

definition stored_info :: "ASTInfo \<Rightarrow> ASTInfo" where
  "stored_info i = \<lparr>ai_type = ai_type i, ai_token = map_option stored_token (ai_token i),
     ai_var_type = ai_var_type i, ai_by_ref = (if ai_by_ref i \<noteq> 0 then 1 else 0), ai_i_val = ai_i_val i,
     ai_is_global_scope = ai_is_global_scope i, ai_is_inline = ai_is_inline i, ai_is_forward_decl = False,
     ai_is_virtual = ai_is_virtual i, ai_is_exported = False\<rparr>"

fun stored_ast :: "AST \<Rightarrow> AST" where
  "stored_ast Null = Null"
| "stored_ast (Node i l r e cs) =
     Node (stored_info i) (stored_ast l) (stored_ast r) (stored_ast e) (map stored_ast cs)"

fun ast_levels :: "AST \<Rightarrow> nat" where
  "ast_levels Null = 1"
| "ast_levels (Node i l r e cs) =
     Suc (max (max (ast_levels l) (ast_levels r)) (max (ast_levels e) (fold max (map ast_levels cs) 0)))"

definition token_ok :: "Token option \<Rightarrow> bool" where
  "token_ok t \<longleftrightarrow> (case t of None \<Rightarrow> True
     | Some t \<Rightarrow> (case tk_value t of None \<Rightarrow> True | Some v \<Rightarrow> length v < 2 ^ 64))"

fun ast_ok :: "AST \<Rightarrow> bool" where
  "ast_ok Null \<longleftrightarrow> True"
| "ast_ok (Node i l r e cs) \<longleftrightarrow> token_ok (ai_token i) \<and> - (2 ^ 31) \<le> ai_i_val i \<and> ai_i_val i < 2 ^ 31
     \<and> ast_ok l \<and> ast_ok r \<and> ast_ok e \<and> length cs < 2 ^ 31 \<and> list_all ast_ok cs"

definition token_bytes :: "Token option \<Rightarrow> byte list" where
  "token_bytes tok = (case tok of None \<Rightarrow> [0]
     | Some t \<Rightarrow> [1] @ le_bytes 4 (tk_type t) @ len_prefixed (case tk_value t of None \<Rightarrow> [] | Some v \<Rightarrow> v))"

fun ast_bytes :: "AST \<Rightarrow> byte list" where
  "ast_bytes Null = [0]"
| "ast_bytes (Node i l r e cs) =
     [1] @ le_bytes 4 (ai_type i) @ le_bytes 4 (ai_var_type i) @ [ast_flags i] @ token_bytes (ai_token i)
     @ le_bytes 4 (word_of_int (ai_i_val i) :: u32) @ ast_bytes l @ ast_bytes r @ ast_bytes e
     @ le_bytes 4 (word_of_int (int (length cs)) :: u32) @ concat (map ast_bytes cs)"

lemma writeToken_data [buf_simps]: "bb_data (writeToken tok b) = bb_data b @ token_bytes tok"
  by (simp add: writeToken_def token_bytes_def buf_simps split: option.split)

lemma writeAst_data [buf_simps]: "bb_data (writeAst t b) = bb_data b @ ast_bytes t"
proof (induction t arbitrary: b)
  case (Node i l r e cs)
  have "bb_data (fold writeAst cs b) = bb_data b @ concat (map ast_bytes cs)" for b
    using Node(4) by (induction cs arbitrary: b) simp_all
  then show ?case using Node(1-3) by (simp add: Let_def buf_simps)
qed (simp add: buf_simps)

lemma ast_bytes_ne: "1 \<le> length (ast_bytes t)"
  by (cases t) simp_all

lemma children_bytes: "length cs \<le> length (concat (map ast_bytes cs))"
proof (induction cs)
  case (Cons c cs)
  then show ?case using ast_bytes_ne [of c] by simp
qed simp

lemma parses_readToken:
  "token_ok tok \<Longrightarrow> parses d readToken (token_bytes tok) (map_option stored_token tok)"
proof (cases tok)
  case None
  then show ?thesis
    unfolding readToken_def token_bytes_def
    by (auto intro!: parses_rbind_last [OF parses_curU8] parses_rbind0 [OF parses_curError] parses_rret)
next
  case (Some t)
  let ?v = "case tk_value t of None \<Rightarrow> [] | Some v \<Rightarrow> v"
  assume "token_ok tok"
  then have "length ?v < 2 ^ 64" using Some by (auto simp: token_ok_def split: option.splits)
  then show ?thesis
    unfolding readToken_def token_bytes_def Some option.case
    by (intro parses_rbind [OF parses_curU8] parses_rbind0 [OF parses_curError])
      (auto intro!: parses_rbind [OF parses_curU32LE] parses_rbind_last [OF parses_lenPrefixed]
        parses_rbind0 [OF parses_curError] simp: stored_token_def parses_rret)
qed

lemma read_info_stored:
  "read_info (ai_type i) (ai_var_type i) (ast_flags i) (map_option stored_token (ai_token i)) (ai_i_val i)
     = stored_info i"
  by (auto simp: read_info_def setTypeAST_def newASTNode_def stored_info_def ast_flags_def)

lemma parses_remaining:
  assumes "\<And>n. length bs \<le> n \<Longrightarrow> parses d (f n) bs x"
  shows "parses d (rbind curRemaining f) bs x"
proof (rule parsesI)
  fix c assume a: "at c bs" and dep: "cu_depth c + d \<le> CACHE_MAX_NESTING"
  then have "length bs \<le> cu_size c - cu_pos c" by (auto simp: at_def)
  from parsesD [OF assms [OF this] a dep]
  show "rbind curRemaining f c = Inr (x, adv (length bs) c)"
    by (simp add: rbind_def curRemaining_def)
qed

lemma parses_nested:
  assumes "parses d m bs x" shows "parses (Suc d) (nested y m) bs x"
proof (rule parsesI)
  fix c assume a: "at c bs" and dep: "cu_depth c + Suc d \<le> CACHE_MAX_NESTING"
  let ?c = "c\<lparr>cu_depth := cu_depth c + 1\<rparr>"
  have "at ?c bs" using a by (simp add: at_def cur_wf_def)
  from parsesD [OF assms this] dep
  have "m ?c = Inr (x, adv (length bs) ?c)" by simp
  then show "nested y m c = Inr (x, adv (length bs) c)"
    using dep by (simp add: nested_def rbind_def curEnterNested_def curLeaveNested_def rret_def)
qed

lemma fold_max_ge: "a \<le> fold max xs (a :: nat)"
  and fold_max_member: "x \<in> set xs \<Longrightarrow> x \<le> fold max xs (a :: nat)"
proof -
  have *: "a \<le> fold max xs (a :: nat)" for a xs
  proof (induction xs arbitrary: a)
    case (Cons y ys)
    have "a \<le> max y a" by simp
    also have "\<dots> \<le> fold max ys (max y a)" by (rule Cons)
    finally show ?case by simp
  qed simp
  then show "a \<le> fold max xs a" .
  show "x \<in> set xs \<Longrightarrow> x \<le> fold max xs (a :: nat)"
  proof (induction xs arbitrary: a)
    case (Cons y ys)
    then show ?case using * [of "max y a" ys] by auto
  qed simp
qed

lemma parses_read_children:
  assumes cs: "\<And>c. c \<in> set cs \<Longrightarrow> parses d sub (ast_bytes c) (stored_ast c)" and n: "length cs < 2 ^ 31"
  shows "parses d (read_children sub i l r x)
    (le_bytes 4 (word_of_int (int (length cs)) :: u32) @ concat (map ast_bytes cs))
    (Node i l r x (map stored_ast cs))"
proof -
  have cc: "to_int32 (int (length cs)) = int (length cs)" using n by (intro to_int32_id) simp_all
  have body: "parses d (if (0::int) < int (length cs)
     then rbind (rrepeat (nat (int (length cs))) sub) (\<lambda>cs. rbind curError (\<lambda>e'.
            rret (if e' then Null else Node i l r x cs)))
     else rret (Node i l r x [])) (concat (map ast_bytes cs)) (Node i l r x (map stored_ast cs))"
  proof (cases "cs = []")
    case True
    then show ?thesis by (simp add: parses_rret)
  next
    case False
    have "parses d (rrepeat (length cs) sub) (concat (map ast_bytes cs)) (map stored_ast cs)"
      by (rule parses_rrepeat) (rule cs)
    moreover have "parses d (rbind curError (\<lambda>e'. rret (if e' then Null else Node i l r x (map stored_ast cs)))) []
        (Node i l r x (map stored_ast cs))"
      by (rule parses_rbind0 [OF parses_curError]) (simp add: parses_rret)
    ultimately show ?thesis using False by (simp add: parses_rbind_last)
  qed
  show ?thesis
    unfolding read_children_def
    apply (rule parses_rbind [OF parses_curI32LE], rule parses_rbind0 [OF parses_curError],
        rule parses_remaining)
    apply (unfold cc, rule parses_if_False [OF body])
    using children_bytes [of cs] by simp
qed

lemma parses_readAstNested:
  assumes ok: "token_ok (ai_token i)" "- (2 ^ 31) \<le> ai_i_val i" "ai_i_val i < 2 ^ 31" "length cs < 2 ^ 31"
    and sub: "\<And>c. c \<in> {l, r, e} \<union> set cs \<Longrightarrow> parses d sub (ast_bytes c) (stored_ast c)"
  shows "parses d (readAstNested sub) (ast_bytes (Node i l r e cs)) (stored_ast (Node i l r e cs))"
proof -
  have iv: "to_int32 (ai_i_val i) = ai_i_val i" using ok by (intro to_int32_id) simp_all
  have kids: "parses d (read_children sub (read_info (ai_type i) (ai_var_type i) (ast_flags i)
        (map_option stored_token (ai_token i)) (to_int32 (ai_i_val i))) (stored_ast l) (stored_ast r) (stored_ast e))
      (le_bytes 4 (word_of_int (int (length cs)) :: u32) @ concat (map ast_bytes cs))
      (Node (stored_info i) (stored_ast l) (stored_ast r) (stored_ast e) (map stored_ast cs))"
    unfolding iv read_info_stored by (rule parses_read_children) (use sub ok in auto)
  show ?thesis
    unfolding readAstNested_def ast_bytes.simps stored_ast.simps
    apply (rule parses_rbind [OF parses_curU8], rule parses_rbind0 [OF parses_curError],
        rule parses_if_False)
     apply (rule parses_rbind [OF parses_curU32LE], rule parses_rbind [OF parses_curU32LE],
        rule parses_rbind [OF parses_curU8], rule parses_rbind [OF parses_readToken [OF ok(1)]],
        rule parses_rbind0 [OF parses_curError], rule parses_if_False)
      apply (rule parses_rbind [OF parses_curI32LE], rule parses_rbind0 [OF parses_curError],
        rule parses_if_False)
       apply (rule parses_rbind [OF sub], simp)
       apply (rule parses_rbind [OF sub], simp)
       apply (rule parses_rbind [OF sub], simp)
       apply (rule parses_rbind0 [OF parses_curError], rule parses_if_False)
        apply (rule kids)
    by simp_all
qed

lemma parses_readAst:
  "ast_ok t \<Longrightarrow> ast_levels t \<le> d \<Longrightarrow> parses d readAst (ast_bytes t) (stored_ast t)"
proof (induction t arbitrary: d)
  case Null
  then obtain k where d: "d = Suc k" by (cases d) auto
  have "parses k (readAstNested readAst) [0] Null"
    unfolding readAstNested_def
    by (rule parses_rbind_last [OF parses_curU8], rule parses_rbind0 [OF parses_curError])
      (simp add: parses_rret)
  then show ?case unfolding d by (subst readAst_unfold) (simp add: parses_nested)
next
  case (Node i l r e cs)
  let ?m = "max (max (ast_levels l) (ast_levels r)) (max (ast_levels e) (fold max (map ast_levels cs) 0))"
  obtain k where d: "d = Suc k" and k: "?m \<le> k" using Node.prems(2) by (cases d) auto
  have "parses k readAst (ast_bytes c) (stored_ast c)" if "c \<in> {l, r, e} \<union> set cs" for c
  proof -
    have "ast_levels c \<le> ?m" if "c \<in> set cs"
      using fold_max_member [of "ast_levels c" "map ast_levels cs" 0] that by simp
    then show ?thesis using that Node k by (auto simp: list_all_iff)
  qed
  then have "parses k (readAstNested readAst) (ast_bytes (Node i l r e cs)) (stored_ast (Node i l r e cs))"
    using Node.prems(1) by (intro parses_readAstNested) simp_all
  then show ?case unfolding d by (subst readAst_unfold) (rule parses_nested)
qed

interpretation ast_codec: codec ast_ok ast_levels stored_ast ast_bytes writeAst readAst
  by unfold_locales (simp_all add: writeAst_data parses_readAst safe_readAst)

subsection \<open>Properties\<close>

text \<open>C28: A syntax tree written to a cache file is read back as its stored form, whatever follows it:
  the same shape, node types, type codes, integer values, token texts and the four flags that have
  a bit. The tree must not nest deeper than the reader allows and its fields must fit their C types.\<close>

theorem ast_roundtrip:
  assumes "ast_ok t" "ast_levels t \<le> CACHE_MAX_NESTING"
  shows "\<exists>c. readAst (curInit (bb_data (writeAst t bufInit) @ rest)
            (length (bb_data (writeAst t bufInit) @ rest))) = Inr (stored_ast t, c)
    \<and> cu_pos c = length (bb_data (writeAst t bufInit)) \<and> \<not> cu_error c"
proof -
  have e: "bb_data bufInit = []" by (simp add: bufInit_def)
  show ?thesis
    using ast_codec.get_after_put [where x = t and b = bufInit and rest = rest, OF assms e]
    by (intro exI) (auto simp: writeAst_data e curInit_def)
qed

definition demo_info :: "u32 \<Rightarrow> ASTInfo" where
  "demo_info t = (newASTNode t (Some \<lparr>tk_type = 2, tk_value = Some [120, 121], tk_line = 7, tk_column = 3,
      tk_is_char_code = False, tk_char_code_value = 0\<rparr>))\<lparr>ai_i_val := - 5, ai_is_virtual := True\<rparr>"

lemma ast_roundtrip_witness:
  "\<exists>c. readAst (curInit (bb_data (writeAst (Node (demo_info 4) Null Null Null [Null, Node (demo_info 9) Null Null Null []]) bufInit))
            (length (bb_data (writeAst (Node (demo_info 4) Null Null Null [Null, Node (demo_info 9) Null Null Null []]) bufInit))))
      = Inr (Node (stored_info (demo_info 4)) Null Null Null [Null, Node (stored_info (demo_info 9)) Null Null Null []], c)
      \<and> \<not> cu_error c"
proof -
  let ?t = "Node (demo_info 4) Null Null Null [Null, Node (demo_info 9) Null Null Null []]"
  have "ast_ok ?t" by (simp add: demo_info_def newASTNode_def token_ok_def)
  moreover have "ast_levels ?t \<le> CACHE_MAX_NESTING" by (simp add: CACHE_MAX_NESTING_def)
  ultimately show ?thesis using ast_roundtrip [of ?t "[]"] by auto
qed

text \<open>C29: \<open>readAst\<close> is total on any bytes. The recursion of the C function, which passes through
  \<open>curEnterNested\<close> and \<open>curLeaveNested\<close>, ends because each call takes one of the
  \<open>CACHE_MAX_NESTING\<close> levels: the function defined by recursion on the levels that are left satisfies
  the equation of the source, never reads outside the section, and gives back every level it took.\<close>

theorem readAst_total:
  "readAst = nested Null (readAstNested readAst) \<and>
   (case readAst (curInit data (length data)) of
      Inl f \<Rightarrow> False
    | Inr (t, c) \<Rightarrow> cu_pos c \<le> length data \<and> cu_depth c = 0)"
proof -
  obtain t c where r: "readAst (curInit data (length data)) = Inr (t, c)" "cu_pos c \<le> length data"
    using ast_codec.get_total [of "length data" data] by auto
  then have "cu_depth c = 0" using levelD [OF level_readAst] by (fastforce simp: curInit_def)
  with r readAst_unfold show ?thesis by simp
qed

text \<open>A node whose child count is negative: the reader gives up on it without setting the error flag.\<close>

definition bad_node :: "u32 \<Rightarrow> u32 \<Rightarrow> byte \<Rightarrow> int \<Rightarrow> byte list" where
  "bad_node t vt flags i_val = [1] @ le_bytes 4 t @ le_bytes 4 vt @ [flags] @ [0]
     @ le_bytes 4 (word_of_int i_val :: u32) @ [0] @ [0] @ [0] @ le_bytes 4 (word_of_int (- 1) :: u32)"

lemma parses_null: "parses (Suc d) readAst [0] Null"
  using parses_readAst [of Null "Suc d"] by simp

text \<open>A malformed node is silently read as a NULL pointer. When the child count of a node is
  negative, \<open>readAstNested\<close> frees the node and returns \<open>NULL\<close> but leaves the cursor's error flag
  clear, and \<open>NULL\<close> without an error is what an absent child reads as: the caller goes on from the
  middle of the malformed node.\<close>

lemma malformed_node_reads_as_null:
  "parses 2 readAst (bad_node t vt flags i_val) Null"
proof -
  have m1: "to_int32 (- 1) = - 1" by (rule to_int32_id) simp_all
  have kids: "parses 1 (read_children readAst i Null Null Null) (le_bytes 4 (word_of_int (- 1) :: u32)) Null" for i
    unfolding read_children_def
    by (rule parses_rbind_last [OF parses_curI32LE], rule parses_rbind0 [OF parses_curError],
        rule parses_remaining) (simp add: m1 parses_rret)
  have tok: "parses 1 readToken [0] None"
    using parses_readToken [of None 1] by (simp add: token_ok_def token_bytes_def)
  have "parses 1 (readAstNested readAst) (bad_node t vt flags i_val) Null"
    unfolding readAstNested_def bad_node_def
    apply (rule parses_rbind [OF parses_curU8], rule parses_rbind0 [OF parses_curError],
        rule parses_if_False)
     apply (rule parses_rbind [OF parses_curU32LE], rule parses_rbind [OF parses_curU32LE],
        rule parses_rbind [OF parses_curU8], rule parses_rbind [OF tok],
        rule parses_rbind0 [OF parses_curError], rule parses_if_False)
      apply (rule parses_rbind [OF parses_curI32LE], rule parses_rbind0 [OF parses_curError],
        rule parses_if_False)
       apply (rule parses_rbind [OF parses_null [of 0, folded One_nat_def]])
       apply (rule parses_rbind [OF parses_null [of 0, folded One_nat_def]])
       apply (rule parses_rbind [OF parses_null [of 0, folded One_nat_def]])
       apply (rule parses_rbind0 [OF parses_curError], rule parses_if_False)
        apply (rule kids)
    by simp_all
  then have "parses (Suc 1) (nested Null (readAstNested readAst)) (bad_node t vt flags i_val) Null"
    by (rule parses_nested)
  then show ?thesis by (subst readAst_unfold) (simp add: numeral_2_eq_2)
qed

end
