(* ===== verification/TypeRegistry.thy ===== *)
theory TypeRegistry
  imports AstCodec
begin

section \<open>The type registry\<close>

text \<open>
  \<open>core/type_registry.c\<close>, \<open>copyAST\<close> of \<open>ast/ast.c\<close> and the TYPE section of a cache file
  (\<open>writeTypesSection\<close>, \<open>readTypesSection\<close>). The registry is the linked list \<open>type_table\<close>, most
  recently declared type first, with the generation number that invalidates cached record layouts.
  Trees are values here: the node a TYPE_REFERENCE shares with its original is an equal tree. A
  C string read from a file ends at its first NUL.
\<close>

definition AST_TYPE_REFERENCE :: u32 where
  "AST_TYPE_REFERENCE = 37"

definition AST_INTERFACE :: u32 where
  "AST_INTERFACE = 45"

subsection \<open>Copies\<close>

text \<open>\<open>is_exported\<close> is the one scalar field that \<open>copyASTRecursive\<close> does not copy.\<close>

fun copyAST :: "AST \<Rightarrow> AST" where
  "copyAST Null = Null"
| "copyAST (Node i l r e cs) =
     Node (i\<lparr>ai_is_exported := False\<rparr>) (copyAST l)
       (if ai_type i = AST_TYPE_REFERENCE then r else copyAST r) (copyAST e) (map copyAST cs)"

lemma copyAST_Null_iff [simp]: "copyAST t = Null \<longleftrightarrow> t = Null"
  by (cases t) simp_all

lemma stored_ast_Null_iff [simp]: "stored_ast t = Null \<longleftrightarrow> t = Null"
  by (cases t) simp_all

lemma copy_stored [simp]: "copyAST (stored_ast t) = stored_ast t"
proof (induction t)
  case (Node i l r e cs)
  then show ?case by (simp add: stored_info_def)
qed simp

lemma stored_copy: "stored_ast (copyAST t) = stored_ast t"
proof (induction t)
  case (Node i l r e cs)
  then show ?case by (simp add: stored_info_def)
qed simp

subsection \<open>The table\<close>

record TypeTables =
  tt_entries :: "(string \<times> AST) list"
  tt_generation :: u64

definition pscalNoteTypeTablesChanged :: "TypeTables \<Rightarrow> TypeTables" where
  "pscalNoteTypeTablesChanged t = t\<lparr>tt_generation := tt_generation t + 1\<rparr>"

text \<open>\<open>strcasecmp(a, b) == 0\<close>\<close>

definition same_name :: "string \<Rightarrow> string \<Rightarrow> bool" where
  "same_name a b \<longleftrightarrow> lower_string a = lower_string b"

definition findTypeEntry :: "TypeTables \<Rightarrow> string \<Rightarrow> (string \<times> AST) option" where
  "findTypeEntry t name = find (\<lambda>e. same_name (fst e) name) (tt_entries t)"

definition lookupType :: "TypeTables \<Rightarrow> string \<Rightarrow> AST" where
  "lookupType t name = (case findTypeEntry t name of None \<Rightarrow> Null | Some e \<Rightarrow> snd e)"

text \<open>The entry found is the first one of its name: replacing its tree changes that entry alone.\<close>

fun set_entry :: "string \<Rightarrow> AST \<Rightarrow> (string \<times> AST) list \<Rightarrow> (string \<times> AST) list" where
  "set_entry name ast [] = []"
| "set_entry name ast ((n, a) # es) =
     (if same_name n name then (n, ast) # es else (n, a) # set_entry name ast es)"

definition link_type :: "string \<Rightarrow> AST \<Rightarrow> TypeTables \<Rightarrow> TypeTables" where
  "link_type name copy t =
     pscalNoteTypeTablesChanged
       (case findTypeEntry t name of
          Some e \<Rightarrow> t\<lparr>tt_entries := set_entry name copy (tt_entries t)\<rparr>
        | None \<Rightarrow> t\<lparr>tt_entries := (name, copy) # tt_entries t\<rparr>)"

definition insertType :: "string \<Rightarrow> AST \<Rightarrow> TypeTables \<Rightarrow> TypeTables" where
  "insertType name typeAST t = (if typeAST = Null then t else link_type name (copyAST typeAST) t)"

definition placeholder :: "u32 \<Rightarrow> AST" where
  "placeholder kind = Node (setTypeAST kind (newASTNode AST_INTERFACE None)) Null Null Null []"

definition reserveTypePlaceholder :: "string \<Rightarrow> u32 \<Rightarrow> TypeTables \<Rightarrow> TypeTables" where
  "reserveTypePlaceholder name kind t =
     (case findTypeEntry t name of
        Some e \<Rightarrow>
          (case snd e of
             Null \<Rightarrow> pscalNoteTypeTablesChanged (t\<lparr>tt_entries := set_entry name (placeholder kind) (tt_entries t)\<rparr>)
           | Node i l r x cs \<Rightarrow>
               pscalNoteTypeTablesChanged
                 (if ai_var_type i = 0 \<and> kind \<noteq> 0
                  then t\<lparr>tt_entries := set_entry name (Node (setTypeAST kind i) l r x cs) (tt_entries t)\<rparr>
                  else t))
      | None \<Rightarrow> pscalNoteTypeTablesChanged (t\<lparr>tt_entries := (name, placeholder kind) # tt_entries t\<rparr>))"

subsection \<open>The registry is a table\<close>

text \<open>No two entries have the same name, ignoring case.\<close>

definition types_inv :: "TypeTables \<Rightarrow> bool" where
  "types_inv t \<longleftrightarrow> distinct (map (lower_string \<circ> fst) (tt_entries t))"

lemma set_entry_names [simp]: "map (lower_string \<circ> fst) (set_entry name ast es) = map (lower_string \<circ> fst) es"
  by (induction name ast es rule: set_entry.induct) auto

lemma find_set_entry:
  "find (\<lambda>e. same_name (fst e) name) es \<noteq> None \<Longrightarrow>
   map_option snd (find (\<lambda>e. same_name (fst e) k) (set_entry name ast es)) =
     (if same_name k name then Some ast else map_option snd (find (\<lambda>e. same_name (fst e) k) es))"
  by (induction name ast es rule: set_entry.induct) (auto simp: same_name_def split: if_splits)

lemma find_name_None:
  "find (\<lambda>e. same_name (fst e) name) es = None \<longleftrightarrow> lower_string name \<notin> set (map (lower_string \<circ> fst) es)"
  by (induction es) (auto simp: same_name_def)

lemma entries_note [simp]: "tt_entries (pscalNoteTypeTablesChanged t) = tt_entries t"
  by (simp add: pscalNoteTypeTablesChanged_def)

interpretation type_table: lookup_table types_inv "\<lambda>_. True" lower_string
    "\<lambda>t name. map_option snd (findTypeEntry t name)" link_type
proof
  fix t name ast
  assume "types_inv t"
  then show "types_inv (link_type name ast t)"
    using find_name_None [of name "tt_entries t"]
    by (auto simp: types_inv_def link_type_def findTypeEntry_def simp del: map_map split: option.split)
next
  fix t name ast k
  show "map_option snd (findTypeEntry (link_type name ast t) k) =
     (if lower_string k = lower_string name then Some ast else map_option snd (findTypeEntry t k))"
    using find_set_entry [of name "tt_entries t" k ast]
    by (auto simp: link_type_def findTypeEntry_def same_name_def split: option.split)
qed

lemma insertType_inv: "types_inv t \<Longrightarrow> types_inv (insertType name ast t)"
  by (simp add: insertType_def type_table.put_inv)

lemma reserve_inv: "types_inv t \<Longrightarrow> types_inv (reserveTypePlaceholder name kind t)"
  using find_name_None [of name "tt_entries t"]
  by (auto simp: types_inv_def reserveTypePlaceholder_def findTypeEntry_def simp del: map_map
      split: option.split AST.split)

lemma lookup_insertType:
  "types_inv t \<Longrightarrow> lookupType (insertType name ast t) k =
     (if ast \<noteq> Null \<and> lower_string k = lower_string name then copyAST ast else lookupType t k)"
  using type_table.get_put [of t name "copyAST ast" k]
  by (auto simp: insertType_def lookupType_def split: option.splits if_splits)

subsection \<open>The TYPE section\<close>

definition c_string :: "byte list \<Rightarrow> string" where
  "c_string bs = map (\<lambda>b. char_of (unat b)) (takeWhile (\<lambda>b. b \<noteq> 0) bs)"

definition writeTypesSection :: "TypeTables \<Rightarrow> ByteBuf \<Rightarrow> ByteBuf" where
  "writeTypesSection t out =
     fold (\<lambda>(name, ast) b. writeAst ast (bufLenPrefixedBytes (bytes_of name) b)) (tt_entries t)
       (bufVarint (word_of_nat (length (tt_entries t))) out)"

primrec read_types :: "nat \<Rightarrow> TypeTables \<Rightarrow> (bool \<times> TypeTables) reader" where
  "read_types 0 t = rret (True, t)"
| "read_types (Suc n) t = rbind curLenPrefixedString (\<lambda>name. rbind curError (\<lambda>e.
     case name of
       None \<Rightarrow> rret (False, t)
     | Some nm \<Rightarrow> if e then rret (False, t)
         else rbind readAst (\<lambda>type_ast. rbind curError (\<lambda>e'.
           if e' \<or> type_ast = Null then rret (False, t)
           else read_types n (insertType (c_string nm) type_ast t)))))"

definition readTypesSection :: "TypeTables \<Rightarrow> (bool \<times> TypeTables) reader" where
  "readTypesSection t = rbind curVarint (\<lambda>type_count. rbind curError (\<lambda>e.
     if e then rret (False, t) else read_types (unat type_count) t))"

lemma safe_read_types: "safe (read_types n t)"
  by (induction n arbitrary: t) (auto intro!: safe_intros)

lemma safe_readTypesSection [safe_intros]: "safe (readTypesSection t)"
  unfolding readTypesSection_def by (intro safe_intros safe_read_types)

subsection \<open>Loading a saved registry\<close>

definition no_nul :: "string \<Rightarrow> bool" where
  "no_nul s \<longleftrightarrow> (\<forall>c \<in> set s. code_of c \<noteq> 0)"

lemma unat_of_char: "unat (of_char c :: byte) = code_of c"
proof -
  have "(of_char c :: byte) = word_of_nat (code_of c)" by (simp add: of_nat_of_char)
  moreover have "code_of c mod 256 < 256" by simp
  then have "code_of c < 256" by (simp only: of_char_mod_256)
  ultimately show ?thesis by (simp add: unsigned_of_nat take_bit_nat_eq_self)
qed

lemma c_string_bytes_of: "no_nul s \<Longrightarrow> c_string (bytes_of s) = s"
proof -
  assume "no_nul s"
  then have "\<forall>b \<in> set (bytes_of s). b \<noteq> 0"
    by (auto simp: no_nul_def bytes_of_def simp flip: unat_eq_zero unat_of_char)
  then have "takeWhile (\<lambda>b. b \<noteq> 0) (bytes_of s) = bytes_of s" by (simp only: takeWhile_eq_all_conv)
  then show ?thesis by (simp only: c_string_def) (simp add: bytes_of_def o_def unat_of_char)
qed

definition entry_ok :: "string \<times> AST \<Rightarrow> bool" where
  "entry_ok = (\<lambda>(name, ast). no_nul name \<and> length name < 2 ^ 64 \<and> ast \<noteq> Null \<and> ast_ok ast
     \<and> ast_levels ast \<le> CACHE_MAX_NESTING)"

definition type_bytes :: "string \<times> AST \<Rightarrow> byte list" where
  "type_bytes = (\<lambda>(name, ast). len_prefixed (bytes_of name) @ ast_bytes ast)"

lemma writeTypesSection_data [buf_simps]:
  "bb_data (writeTypesSection t b) = bb_data b @ varint_bytes (word_of_nat (length (tt_entries t)))
     @ concat (map type_bytes (tt_entries t))"
proof -
  have "bb_data (fold (\<lambda>(name, ast) b. writeAst ast (bufLenPrefixedBytes (bytes_of name) b)) es b)
      = bb_data b @ concat (map type_bytes es)" for es b
    by (induction es arbitrary: b) (auto simp: buf_simps type_bytes_def)
  then show ?thesis by (simp add: writeTypesSection_def buf_simps)
qed

lemma parses_read_types:
  "\<forall>e \<in> set es. entry_ok e \<Longrightarrow>
   parses CACHE_MAX_NESTING (read_types (length es) t) (concat (map type_bytes es))
     (True, fold (\<lambda>(n, a). link_type n (stored_ast a)) es t)"
proof (induction es arbitrary: t)
  case Nil
  show ?case by (simp add: parses_rret)
next
  case (Cons e es)
  obtain n a where e: "e = (n, a)" by (cases e)
  have n: "no_nul n" "length (bytes_of n) < 2 ^ 64" "a \<noteq> Null" "ast_ok a" "ast_levels a \<le> CACHE_MAX_NESTING"
    using Cons.prems e by (auto simp: entry_ok_def bytes_of_def)
  have ins: "insertType (c_string (bytes_of n)) (stored_ast a) t = link_type n (stored_ast a) t"
    using n by (simp add: insertType_def c_string_bytes_of)
  have rest: "parses CACHE_MAX_NESTING (read_types (length es) (link_type n (stored_ast a) t))
      (concat (map type_bytes es)) (True, fold (\<lambda>(n, a). link_type n (stored_ast a)) (e # es) t)"
    using Cons e by simp
  show ?case
    unfolding e length_Cons read_types.simps list.map concat.simps type_bytes_def prod.case append_assoc
    apply (rule parses_rbind [OF parses_lenPrefixed [OF n(2)]], rule parses_rbind0 [OF parses_curError],
        unfold option.case, rule parses_if_False)
     apply (rule parses_rbind [OF parses_readAst [OF n(4,5)]], rule parses_rbind0 [OF parses_curError],
        rule parses_if_False)
      apply (unfold ins)
    using rest n(3) by (simp_all add: e type_bytes_def)
qed

lemma parses_readTypesSection:
  assumes "\<forall>e \<in> set (tt_entries t). entry_ok e" "length (tt_entries t) < 2 ^ 64"
  shows "parses CACHE_MAX_NESTING (readTypesSection t0)
     (varint_bytes (word_of_nat (length (tt_entries t))) @ concat (map type_bytes (tt_entries t)))
     (True, fold (\<lambda>(n, a). link_type n (stored_ast a)) (tt_entries t) t0)"
  unfolding readTypesSection_def
  apply (rule parses_rbind [OF parses_curVarint], rule parses_rbind0 [OF parses_curError], rule parses_if_False)
  using parses_read_types [OF assms(1), of t0] unat_u64_of_nat [OF assms(2)] by simp_all

lemma find_map_of:
  "map_option snd (find (\<lambda>e. same_name (fst e) k) es) = map_of (map (\<lambda>(n, a). (lower_string n, a)) es) (lower_string k)"
  by (induction es) (auto simp: same_name_def)

lemma map_of_rev: "distinct (map fst xs) \<Longrightarrow> map_of (rev xs) = map_of xs"
  by (metis distinct_map distinct_rev map_of_inject_set rev_map set_rev)

lemma map_of_both:
  "map_of (map (\<lambda>(n, a). (f n, g a)) es) k = map_option g (map_of (map (\<lambda>(n, a). (f n, a)) es) k)"
  by (induction es) auto

text \<open>C30: A type registry survives the cache. Reading the TYPE section of a registry back, into a
  registry where nothing is declared, makes every name, in any spelling, look up the stored form of
  the tree it was declared with; the loader inserts in the opposite order, which no lookup can see.\<close>

theorem types_roundtrip:
  assumes "\<forall>e \<in> set (tt_entries t). entry_ok e" "types_inv t" "length (tt_entries t) < 2 ^ 64"
    and "tt_entries t0 = []"
  shows "\<exists>t' c. readTypesSection t0 (curInit (bb_data (writeTypesSection t bufInit) @ rest)
           (length (bb_data (writeTypesSection t bufInit) @ rest))) = Inr ((True, t'), c)
     \<and> \<not> cu_error c \<and> types_inv t' \<and> (\<forall>name. lookupType t' name = stored_ast (lookupType t name))"
proof -
  let ?bs = "varint_bytes (word_of_nat (length (tt_entries t))) @ concat (map type_bytes (tt_entries t))"
  let ?kvs = "map (\<lambda>(n, a). (n, stored_ast a)) (tt_entries t)"
  let ?t' = "fold (\<lambda>(n, a). link_type n (stored_ast a)) (tt_entries t) t0"
  let ?c = "curInit (?bs @ rest) (length (?bs @ rest))"
  have bs: "bb_data (writeTypesSection t bufInit) = ?bs" by (simp add: buf_simps bufInit_def)
  have run: "readTypesSection t0 ?c = Inr ((True, ?t'), adv (length ?bs) ?c)"
    by (rule parsesD [OF parses_readTypesSection [OF assms(1,3)]]) (simp_all add: at_def cur_wf_def curInit_def)
  have f: "?t' = fold (\<lambda>(n, a). link_type n a) ?kvs t0"
    by (simp add: fold_map o_def case_prod_beta')
  have inv0: "types_inv t0" by (simp add: types_inv_def assms(4))
  have inv: "types_inv ?t'" unfolding f by (rule type_table.inv_fold [OF inv0]) simp
  let ?xs = "map (\<lambda>(n, a). (lower_string n, a)) (tt_entries t)"
  have d: "distinct (map fst (map (\<lambda>(n, a). (lower_string n, stored_ast a)) (tt_entries t)))"
    using assms(2) by (simp add: types_inv_def o_def split_beta)
  have look: "lookupType ?t' k = stored_ast (lookupType t k)" for k
  proof -
    have "map_option snd (findTypeEntry ?t' k) =
        map_of (rev (map (\<lambda>(n, a). (lower_string n, stored_ast a)) (tt_entries t))) (lower_string k)"
      unfolding f using type_table.get_fold [OF inv0, of ?kvs k] assms(4)
      by (simp add: o_def case_prod_beta' findTypeEntry_def [of t0] split: option.split)
    also have "\<dots> = map_of (map (\<lambda>(n, a). (lower_string n, stored_ast a)) (tt_entries t)) (lower_string k)"
      by (simp only: map_of_rev [OF d])
    also have "\<dots> = map_option stored_ast (map_of ?xs (lower_string k))"
      by (rule map_of_both)
    also have "map_of ?xs (lower_string k) = map_option snd (findTypeEntry t k)"
      by (simp add: findTypeEntry_def find_map_of)
    finally show ?thesis by (auto simp: lookupType_def split: option.splits)
  qed
  show ?thesis
    unfolding bs using run inv look by (intro exI [of _ ?t'] exI [of _ "adv (length ?bs) ?c"]) (simp add: curInit_def)
qed

definition demo_types :: TypeTables where
  "demo_types = \<lparr>tt_entries = [(''Point'', Node (newASTNode 30 None) Null Null Null []),
     (''Color'', Node (newASTNode 49 None) Null Null Null [])], tt_generation = 5\<rparr>"

lemma types_roundtrip_witness:
  "\<exists>t' c. readTypesSection \<lparr>tt_entries = [], tt_generation = 1\<rparr>
       (curInit (bb_data (writeTypesSection demo_types bufInit)) (length (bb_data (writeTypesSection demo_types bufInit))))
       = Inr ((True, t'), c)
     \<and> lookupType t' ''COLOR'' = Node (stored_info (newASTNode 49 None)) Null Null Null []
     \<and> lookupType t' ''Shape'' = Null"
proof -
  let ?t0 = "\<lparr>tt_entries = [], tt_generation = 1\<rparr> :: TypeTables"
  have "\<forall>e \<in> set (tt_entries demo_types). entry_ok e"
    by (simp add: demo_types_def entry_ok_def no_nul_def token_ok_def newASTNode_def CACHE_MAX_NESTING_def)
  moreover have "types_inv demo_types"
    by (simp add: types_inv_def demo_types_def lower_string_def c_tolower_def)
  moreover have "length (tt_entries demo_types) < 2 ^ 64" by (simp add: demo_types_def)
  moreover have "tt_entries ?t0 = []" by simp
  ultimately obtain t' c where r: "readTypesSection ?t0 (curInit (bb_data (writeTypesSection demo_types bufInit) @ [])
        (length (bb_data (writeTypesSection demo_types bufInit) @ []))) = Inr ((True, t'), c)"
    and l: "\<forall>name. lookupType t' name = stored_ast (lookupType demo_types name)"
    using types_roundtrip [of demo_types ?t0 "[]"] by blast
  have "lookupType demo_types ''COLOR'' = Node (newASTNode 49 None) Null Null Null []"
    "lookupType demo_types ''Shape'' = Null"
    by code_simp+
  with r l show ?thesis by auto
qed

end
