(* ===== verification/MapObj.thy ===== *)
theory MapObj
  imports Psb3
begin

section \<open>Ordered hash maps\<close>

text \<open>
  \<open>MapObj\<close> of \<open>core/types.h\<close> and its operations in \<open>core/utils.c\<close>: the run-time representation of
  an Aether map. The entries lie in an array in insertion order; removing one marks it dead. The
  index is an open-addressing hash table over the positions of the entries, probed linearly, with
  \<open>-1\<close> for a slot never used and \<open>-2\<close> for one whose entry was removed. Both are rebuilt when the
  index is half full or most entries are dead.

  The model is over any type of values: a value is stored as \<open>mapCoerceStored\<close> left it, and
  releasing values is not modelled. The probing loop of the rebuild has no bound in the source; it
  is given as many steps as there are slots and yields \<open>None\<close> where it would run on, and the
  theorems show that it never does. A map implements an association list in insertion order.
\<close>

subsection \<open>State\<close>

record 'v MapEntry =
  me_key :: "byte list"
  me_hash :: u64
  me_value :: 'v
  me_live :: bool

record 'v MapObj =
  mo_entries :: "'v MapEntry list"
  mo_entry_cap :: nat
  mo_live_count :: nat
  mo_index :: "int list"

abbreviation mo_entry_count :: "'v MapObj \<Rightarrow> nat" where
  "mo_entry_count m \<equiv> length (mo_entries m)"

abbreviation mo_index_cap :: "'v MapObj \<Rightarrow> nat" where
  "mo_index_cap m \<equiv> length (mo_index m)"

definition pscalMapObjCreate :: "'v MapObj" where
  "pscalMapObjCreate = \<lparr>mo_entries = [], mo_entry_cap = 0, mo_live_count = 0, mo_index = []\<rparr>"

definition mapHashKey :: "byte list \<Rightarrow> u64" where
  "mapHashKey key = fold (\<lambda>b h. (h XOR ucast b) * 1099511628211) key 1469598103934665603"

subsection \<open>Probing\<close>

definition first_slot :: "u64 \<Rightarrow> nat \<Rightarrow> nat" where
  "first_slot h cap = unat h AND (cap - 1)"

definition next_slot :: "nat \<Rightarrow> nat \<Rightarrow> nat" where
  "next_slot slot cap = (slot + 1) AND (cap - 1)"

fun probe :: "'v MapObj \<Rightarrow> byte list \<Rightarrow> u64 \<Rightarrow> nat \<Rightarrow> nat \<Rightarrow> int \<Rightarrow> bool \<times> int" where
  "probe m key h 0 slot firstDeleted = (False, firstDeleted)"
| "probe m key h (Suc n) slot firstDeleted =
     (let pos = mo_index m ! slot in
      if pos = - 1 then (False, if 0 \<le> firstDeleted then firstDeleted else int slot)
      else if pos = - 2
      then probe m key h n (next_slot slot (mo_index_cap m)) (if firstDeleted < 0 then int slot else firstDeleted)
      else let e = mo_entries m ! nat pos in
           if me_hash e = h \<and> me_key e = key then (True, int slot)
           else probe m key h n (next_slot slot (mo_index_cap m)) firstDeleted)"

definition mapIndexFind :: "'v MapObj \<Rightarrow> byte list \<Rightarrow> u64 \<Rightarrow> bool \<times> int" where
  "mapIndexFind m key h =
     (if mo_index_cap m = 0 then (False, - 1)
      else probe m key h (mo_index_cap m) (first_slot h (mo_index_cap m)) (- 1))"

subsection \<open>Rebuilding\<close>

fun free_slot :: "int list \<Rightarrow> nat \<Rightarrow> nat \<Rightarrow> nat option" where
  "free_slot idx 0 slot = None"
| "free_slot idx (Suc n) slot =
     (if idx ! slot = - 1 then Some slot else free_slot idx n (next_slot slot (length idx)))"

fun place_all :: "'v MapEntry list \<Rightarrow> nat \<Rightarrow> int list \<Rightarrow> int list option" where
  "place_all [] i idx = Some idx"
| "place_all (e # es) i idx =
     (case free_slot idx (length idx) (first_slot (me_hash e) (length idx)) of
        None \<Rightarrow> None
      | Some slot \<Rightarrow> place_all es (i + 1) (idx[slot := int i]))"

definition mapRehash :: "'v MapObj \<Rightarrow> nat \<Rightarrow> 'v MapObj option" where
  "mapRehash m cap =
     (let es = filter me_live (mo_entries m)
      in map_option (\<lambda>idx. m\<lparr>mo_entries := es, mo_index := idx\<rparr>) (place_all es 0 (replicate cap (- 1))))"

subsection \<open>Operations\<close>

definition pscalMapFind :: "'v MapObj \<Rightarrow> byte list \<Rightarrow> 'v option" where
  "pscalMapFind m key =
     (case mapIndexFind m key (mapHashKey key) of
        (found, slot) \<Rightarrow>
          if \<not> found then None
          else Some (me_value (mo_entries m ! nat (mo_index m ! nat slot))))"

definition map_append :: "'v MapObj \<Rightarrow> byte list \<Rightarrow> u64 \<Rightarrow> 'v \<Rightarrow> int \<Rightarrow> 'v MapObj" where
  "map_append m key h v slot =
     m\<lparr>mo_entries := mo_entries m @ [\<lparr>me_key = key, me_hash = h, me_value = v, me_live = True\<rparr>],
       mo_entry_cap := (if mo_entry_count m = mo_entry_cap m
                        then (if mo_entry_cap m = 0 then 8 else mo_entry_cap m * 2) else mo_entry_cap m),
       mo_index := (mo_index m)[nat slot := int (mo_entry_count m)],
       mo_live_count := mo_live_count m + 1\<rparr>"

definition pscalMapSet :: "'v MapObj \<Rightarrow> byte list \<Rightarrow> 'v \<Rightarrow> 'v MapObj option" where
  "pscalMapSet m key v =
     (let h = mapHashKey key in
      case mapIndexFind m key h of
        (found, slot) \<Rightarrow>
          if found
          then let p = nat (mo_index m ! nat slot)
               in Some (m\<lparr>mo_entries := (mo_entries m)[p := (mo_entries m ! p)\<lparr>me_value := v\<rparr>]\<rparr>)
          else if mo_index_cap m = 0 \<or> mo_index_cap m < (mo_entry_count m + 1) * 2
          then (case mapRehash m (grow_cap 8 ((mo_live_count m + 1) * 2)) of
                  None \<Rightarrow> None
                | Some m1 \<Rightarrow> Some (map_append m1 key h v (snd (mapIndexFind m1 key h))))
          else Some (map_append m key h v slot))"

text \<open>\<open>nil\<close> is the value a removed entry is left with.\<close>

definition pscalMapRemove :: "'v \<Rightarrow> 'v MapObj \<Rightarrow> byte list \<Rightarrow> (bool \<times> 'v MapObj) option" where
  "pscalMapRemove nil m key =
     (case mapIndexFind m key (mapHashKey key) of
        (found, slot) \<Rightarrow>
          if \<not> found then Some (False, m)
          else let p = nat (mo_index m ! nat slot);
                   m1 = m\<lparr>mo_entries := (mo_entries m)[p := (mo_entries m ! p)\<lparr>me_live := False, me_value := nil\<rparr>],
                          mo_index := (mo_index m)[nat slot := - 2],
                          mo_live_count := mo_live_count m - 1\<rparr>
               in if 16 < mo_entry_count m1 \<and> mo_live_count m1 < mo_entry_count m1 - mo_live_count m1
                  then map_option (\<lambda>m2. (True, m2)) (mapRehash m1 (grow_cap 8 ((mo_live_count m1 + 1) * 2)))
                  else Some (True, m1))"

text \<open>\<open>copy\<close> is what \<open>pscalMapCopyValue\<close> makes of a value.\<close>

fun clone_entries :: "('v \<Rightarrow> 'v) \<Rightarrow> 'v MapEntry list \<Rightarrow> 'v MapObj \<Rightarrow> 'v MapObj option" where
  "clone_entries copy [] m = Some m"
| "clone_entries copy (e # es) m =
     (if \<not> me_live e then clone_entries copy es m
      else case pscalMapSet m (me_key e) (copy (me_value e)) of
             None \<Rightarrow> None
           | Some m' \<Rightarrow> clone_entries copy es m')"

definition pscalMapClone :: "('v \<Rightarrow> 'v) \<Rightarrow> 'v MapObj \<Rightarrow> 'v MapObj option" where
  "pscalMapClone copy src = clone_entries copy (mo_entries src) pscalMapObjCreate"

subsection \<open>Invariant\<close>

text \<open>The \<open>i\<close>-th slot probed for a hash, the index being a power of two long.\<close>

definition path :: "u64 \<Rightarrow> nat \<Rightarrow> nat \<Rightarrow> nat" where
  "path h cap i = (unat h + i) mod cap"

definition reached :: "int list \<Rightarrow> u64 \<Rightarrow> nat \<Rightarrow> bool" where
  "reached idx h s \<longleftrightarrow> (\<exists>i < length idx. path h (length idx) i = s \<and> (\<forall>j < i. idx ! path h (length idx) j \<noteq> - 1))"

definition idx_ok :: "'v MapEntry list \<Rightarrow> int list \<Rightarrow> bool" where
  "idx_ok es idx \<longleftrightarrow>
     (\<forall>s < length idx. idx ! s = - 1 \<or> idx ! s = - 2 \<or>
        0 \<le> idx ! s \<and> nat (idx ! s) < length es \<and> me_live (es ! nat (idx ! s))) \<and>
     (\<forall>s < length idx. \<forall>t < length idx. 0 \<le> idx ! s \<longrightarrow> idx ! s = idx ! t \<longrightarrow> s = t) \<and>
     (\<forall>p < length es. me_live (es ! p) \<longrightarrow>
        (\<exists>s < length idx. idx ! s = int p \<and> reached idx (me_hash (es ! p)) s)) \<and>
     length (filter (\<lambda>x. x \<noteq> - 1) idx) \<le> length es"

definition live_keys :: "'v MapEntry list \<Rightarrow> byte list list" where
  "live_keys es = map me_key (filter me_live es)"

definition map_inv :: "'v MapObj \<Rightarrow> bool" where
  "map_inv m \<longleftrightarrow>
     (mo_index m = [] \<and> mo_entries m = [] \<or> (\<exists>k. mo_index_cap m = 2 ^ k) \<and> 0 < mo_index_cap m) \<and>
     mo_entry_count m * 2 \<le> mo_index_cap m \<and>
     idx_ok (mo_entries m) (mo_index m) \<and>
     distinct (live_keys (mo_entries m)) \<and>
     (\<forall>e \<in> set (mo_entries m). me_hash e = mapHashKey (me_key e)) \<and>
     mo_live_count m = length (filter me_live (mo_entries m))"

text \<open>The association list a map stands for.\<close>

definition map_abs :: "'v MapObj \<Rightarrow> (byte list \<times> 'v) list" where
  "map_abs m = map (\<lambda>e. (me_key e, me_value e)) (filter me_live (mo_entries m))"

subsection \<open>Slots\<close>

lemma and_mask_mod: "n AND (2 ^ k - 1) = n mod (2 ^ k :: nat)"
  by (simp only: mask_eq_exp_minus_1 [symmetric] take_bit_eq_mask [symmetric] take_bit_eq_mod)

lemma first_slot_path: "cap = 2 ^ k \<Longrightarrow> first_slot h cap = path h cap 0"
  unfolding first_slot_def path_def by (simp only: and_mask_mod add_0_right)

lemma next_slot_path: "cap = 2 ^ k \<Longrightarrow> next_slot (path h cap i) cap = path h cap (Suc i)"
  unfolding next_slot_def path_def by (simp only: and_mask_mod) (simp add: mod_simps)

lemma path_less: "0 < cap \<Longrightarrow> path h cap i < cap"
  by (simp add: path_def)

lemma path_covers: "s < cap \<Longrightarrow> \<exists>i < cap. path h cap i = s"
proof -
  assume s: "s < cap"
  let ?a = "unat h mod cap"
  let ?i = "(s + (cap - ?a)) mod cap"
  have a: "?a < cap" using s by simp
  have "path h cap ?i = (?a + (s + (cap - ?a))) mod cap" by (simp add: path_def mod_simps)
  also have "?a + (s + (cap - ?a)) = s + cap" using a by simp
  finally have "path h cap ?i = s" using s by simp
  then show ?thesis using s by (intro exI [of _ ?i]) simp
qed

text \<open>An index with room has a slot never used, and probing meets a first such slot.\<close>

lemma empty_slot:
  assumes "length (filter (\<lambda>x. x \<noteq> - 1) (idx :: int list)) < length idx"
  obtains s where "s < length idx" "idx ! s = - 1"
proof -
  have "\<exists>x \<in> set idx. x = - 1"
  proof (rule ccontr)
    assume "\<not> (\<exists>x \<in> set idx. x = - 1)"
    then have "filter (\<lambda>x. x \<noteq> - 1) idx = idx" by (intro filter_True) auto
    then show False using assms by simp
  qed
  then show ?thesis using that by (auto simp: in_set_conv_nth)
qed

lemma first_empty:
  assumes "length (filter (\<lambda>x. x \<noteq> - 1) (idx :: int list)) < length idx"
  obtains j where "j < length idx" "idx ! path h (length idx) j = - 1"
    "\<forall>i < j. idx ! path h (length idx) i \<noteq> - 1"
proof -
  obtain s where s: "s < length idx" "idx ! s = - 1" by (rule empty_slot [OF assms])
  obtain i where i: "i < length idx" "path h (length idx) i = s" using path_covers [OF s(1)] by blast
  let ?P = "\<lambda>j. idx ! path h (length idx) j = - 1"
  have 1: "?P (LEAST j. ?P j)" by (rule LeastI [of ?P i]) (simp add: i s)
  have 2: "(LEAST j. ?P j) \<le> i" by (rule Least_le) (simp add: i s)
  have 3: "\<forall>j < (LEAST j. ?P j). \<not> ?P j" using not_less_Least by blast
  show ?thesis by (rule that [OF le_less_trans [OF 2 i(1)] 1 3])
qed

subsection \<open>Probing finds what is there\<close>

definition hit :: "'v MapObj \<Rightarrow> byte list \<Rightarrow> u64 \<Rightarrow> nat \<Rightarrow> bool" where
  "hit m key h s \<longleftrightarrow> mo_index m ! s \<noteq> - 1 \<and> mo_index m ! s \<noteq> - 2
     \<and> me_hash (mo_entries m ! nat (mo_index m ! s)) = h \<and> me_key (mo_entries m ! nat (mo_index m ! s)) = key"

lemma probe_step:
  "probe m key h (Suc n) s fd =
     (if mo_index m ! s = - 1 then (False, if 0 \<le> fd then fd else int s)
      else if hit m key h s then (True, int s)
      else probe m key h n (next_slot s (mo_index_cap m))
             (if mo_index m ! s = - 2 \<and> fd < 0 then int s else fd))"
  by (auto simp: hit_def Let_def)

lemma probe_hit:
  assumes "mo_index_cap m = 2 ^ k" "j < n" "hit m key h (path h (mo_index_cap m) (a + j))"
    and "\<forall>i < j. mo_index m ! path h (mo_index_cap m) (a + i) \<noteq> - 1 \<and> \<not> hit m key h (path h (mo_index_cap m) (a + i))"
  shows "probe m key h n (path h (mo_index_cap m) a) fd = (True, int (path h (mo_index_cap m) (a + j)))"
  using assms(2-4)
proof (induction j arbitrary: n a fd)
  case 0
  then obtain n' where "n = Suc n'" by (cases n) auto
  then show ?case using 0 by (simp only: probe_step) (auto simp: hit_def)
next
  case (Suc j)
  then obtain n' where n: "n = Suc n'" by (cases n) auto
  have here: "mo_index m ! path h (mo_index_cap m) a \<noteq> - 1" "\<not> hit m key h (path h (mo_index_cap m) a)"
    using Suc.prems(3) by (metis add_0_right zero_less_Suc)+
  have "probe m key h n' (path h (mo_index_cap m) (Suc a)) fd' = (True, int (path h (mo_index_cap m) (Suc a + j)))" for fd'
    by (rule Suc.IH) (use Suc.prems n in auto)
  then show ?case using here by (simp only: n probe_step next_slot_path [OF assms(1)]) simp
qed

text \<open>Without a hit before the first slot never used, the answer is that slot, or the first slot of a
  removed entry on the way to it.\<close>

lemma probe_miss:
  assumes "mo_index_cap m = 2 ^ k" "j < n" "mo_index m ! path h (mo_index_cap m) (a + j) = - 1"
    and "\<forall>i < j. mo_index m ! path h (mo_index_cap m) (a + i) \<noteq> - 1 \<and> \<not> hit m key h (path h (mo_index_cap m) (a + i))"
  shows "\<exists>s. probe m key h n (path h (mo_index_cap m) a) fd = (False, s) \<and>
    (if 0 \<le> fd then s = fd
     else \<exists>i \<le> j. s = int (path h (mo_index_cap m) (a + i)) \<and>
        (mo_index m ! path h (mo_index_cap m) (a + i) = - 1 \<or> mo_index m ! path h (mo_index_cap m) (a + i) = - 2))"
  using assms(2-4)
proof (induction j arbitrary: n a fd)
  case 0
  then obtain n' where "n = Suc n'" by (cases n) auto
  then show ?case using 0 by (simp only: probe_step) simp
next
  case (Suc j)
  then obtain n' where n: "n = Suc n'" by (cases n) auto
  let ?s = "path h (mo_index_cap m) a"
  have here: "mo_index m ! ?s \<noteq> - 1" "\<not> hit m key h ?s"
    using Suc.prems(3) by (metis add_0_right zero_less_Suc)+
  let ?fd = "if mo_index m ! ?s = - 2 \<and> fd < 0 then int ?s else fd"
  have 1: "j < n'" using Suc.prems(1) n by simp
  have 2: "mo_index m ! path h (mo_index_cap m) (Suc a + j) = - 1" using Suc.prems(2) by simp
  have 3: "\<forall>i < j. mo_index m ! path h (mo_index_cap m) (Suc a + i) \<noteq> - 1
      \<and> \<not> hit m key h (path h (mo_index_cap m) (Suc a + i))"
  proof (intro allI impI)
    fix i assume "i < j"
    then show "mo_index m ! path h (mo_index_cap m) (Suc a + i) \<noteq> - 1
      \<and> \<not> hit m key h (path h (mo_index_cap m) (Suc a + i))"
      using Suc.prems(3) [rule_format, of "Suc i"] by simp
  qed
  obtain s where s: "probe m key h n' (path h (mo_index_cap m) (Suc a)) ?fd = (False, s)"
    and r: "if 0 \<le> ?fd then s = ?fd
     else \<exists>i \<le> j. s = int (path h (mo_index_cap m) (Suc a + i)) \<and>
        (mo_index m ! path h (mo_index_cap m) (Suc a + i) = - 1 \<or> mo_index m ! path h (mo_index_cap m) (Suc a + i) = - 2)"
    using Suc.IH [OF 1 2 3, of ?fd] by blast
  have "probe m key h n ?s fd = (False, s)"
    using here s by (simp only: n probe_step next_slot_path [OF assms(1)]) simp
  moreover have "if 0 \<le> fd then s = fd
     else \<exists>i \<le> Suc j. s = int (path h (mo_index_cap m) (a + i)) \<and>
        (mo_index m ! path h (mo_index_cap m) (a + i) = - 1 \<or> mo_index m ! path h (mo_index_cap m) (a + i) = - 2)"
  proof (cases "0 \<le> ?fd")
    case True
    then show ?thesis using r by (auto split: if_splits intro!: exI [of _ 0])
  next
    case False
    then obtain i where "i \<le> j" "s = int (path h (mo_index_cap m) (Suc a + i))"
      "mo_index m ! path h (mo_index_cap m) (Suc a + i) = - 1 \<or> mo_index m ! path h (mo_index_cap m) (Suc a + i) = - 2"
      using r by auto
    moreover have "\<not> 0 \<le> fd" using False by (auto split: if_splits)
    ultimately show ?thesis by (auto intro!: exI [of _ "Suc i"])
  qed
  ultimately show ?case by blast
qed

lemma map_inv_idx: "map_inv m \<Longrightarrow> idx_ok (mo_entries m) (mo_index m)"
  by (simp add: map_inv_def)

lemma idx_ok_reach:
  "idx_ok es idx \<Longrightarrow> p < length es \<Longrightarrow> me_live (es ! p) \<Longrightarrow>
   \<exists>s < length idx. idx ! s = int p \<and> reached idx (me_hash (es ! p)) s"
  by (simp add: idx_ok_def)

lemma idx_room: "map_inv m \<Longrightarrow> 0 < mo_index_cap m \<Longrightarrow> length (filter (\<lambda>x. x \<noteq> - 1) (mo_index m)) < mo_index_cap m"
proof -
  assume "map_inv m" "0 < mo_index_cap m"
  then have "length (filter (\<lambda>x. x \<noteq> - 1) (mo_index m)) \<le> mo_entry_count m" "mo_entry_count m * 2 \<le> mo_index_cap m"
    by (simp_all add: map_inv_def idx_ok_def)
  then show ?thesis using \<open>0 < mo_index_cap m\<close> by linarith
qed

lemma hit_live:
  assumes "map_inv m" "s < mo_index_cap m" "hit m key h s"
  obtains p where "mo_index m ! s = int p" "p < mo_entry_count m" "me_live (mo_entries m ! p)"
    "me_key (mo_entries m ! p) = key"
proof -
  have "0 \<le> mo_index m ! s \<and> nat (mo_index m ! s) < mo_entry_count m \<and> me_live (mo_entries m ! nat (mo_index m ! s))"
    using assms by (auto simp: map_inv_def idx_ok_def hit_def)
  then show ?thesis using assms(3) that [of "nat (mo_index m ! s)"] by (auto simp: hit_def)
qed

lemma live_key_unique:
  assumes "distinct (live_keys es)" "p < length es" "q < length es" "me_live (es ! p)" "me_live (es ! q)"
    "me_key (es ! p) = me_key (es ! q)"
  shows "p = q"
  using assms
proof (induction es arbitrary: p q)
  case (Cons e es)
  have notin: "me_key e \<notin> set (live_keys es)" if "me_live e" using Cons.prems(1) that by (simp add: live_keys_def)
  have mem: "me_key (es ! r) \<in> set (live_keys es)" if "r < length es" "me_live (es ! r)" for r
    using that by (auto simp: live_keys_def)
  have d: "distinct (live_keys es)" using Cons.prems(1) by (auto simp: live_keys_def split: if_splits)
  show ?case
  proof (cases p)
    case 0
    show ?thesis
    proof (cases q)
      case (Suc q')
      then show ?thesis using 0 Cons.prems notin mem [of q'] by auto
    qed (simp add: 0)
  next
    case (Suc p')
    show ?thesis
    proof (cases q)
      case 0
      then show ?thesis using Suc Cons.prems notin mem [of p'] by auto
    next
      case (Suc q')
      then show ?thesis using \<open>p = Suc p'\<close> Cons.prems Cons.IH [OF d, of p' q'] by simp
    qed
  qed
qed simp

lemma find_live:
  assumes m: "map_inv m" and p: "p < mo_entry_count m" "me_live (mo_entries m ! p)" "me_key (mo_entries m ! p) = key"
  shows "\<exists>s < mo_index_cap m. mapIndexFind m key (mapHashKey key) = (True, int s) \<and> mo_index m ! s = int p"
proof -
  let ?h = "mapHashKey key" and ?cap = "mo_index_cap m"
  have h: "me_hash (mo_entries m ! p) = ?h" using m p by (auto simp: map_inv_def)
  have cap0: "0 < ?cap" using m p by (auto simp: map_inv_def)
  then obtain k where k: "?cap = 2 ^ k" using m by (auto simp: map_inv_def)
  obtain s where "mo_index m ! s = int p" "reached (mo_index m) ?h s"
    using idx_ok_reach [OF map_inv_idx [OF m] p(1,2)] h by auto
  then obtain i where i: "i < ?cap" "mo_index m ! path ?h ?cap i = int p" "\<forall>j < i. mo_index m ! path ?h ?cap j \<noteq> - 1"
    by (auto simp: reached_def)
  let ?P = "\<lambda>j. mo_index m ! path ?h ?cap j = int p"
  let ?j = "LEAST j. ?P j"
  have j: "?P ?j" "?j \<le> i" using LeastI [of ?P i] Least_le [of ?P i] i(2) by auto
  have nohit: "\<not> hit m key ?h (path ?h ?cap l)" if l: "l < ?j" for l
  proof
    assume hl: "hit m key ?h (path ?h ?cap l)"
    obtain q where q: "mo_index m ! path ?h ?cap l = int q" "q < mo_entry_count m" "me_live (mo_entries m ! q)"
      "me_key (mo_entries m ! q) = key"
      by (rule hit_live [OF m path_less [OF cap0] hl])
    have "distinct (live_keys (mo_entries m))" using m by (simp add: map_inv_def)
    from live_key_unique [OF this q(2) p(1) q(3) p(2)] q(4) p(3) have "q = p" by simp
    then show False using q(1) not_less_Least [OF l] by simp
  qed
  have "hit m key ?h (path ?h ?cap ?j)" using j(1) h p(3) by (simp add: hit_def)
  then have "probe m key ?h ?cap (path ?h ?cap 0) (- 1) = (True, int (path ?h ?cap (0 + ?j)))"
    using j i nohit by (intro probe_hit [OF k]) auto
  then show ?thesis
    using cap0 j(1) path_less [OF cap0]
    by (intro exI [of _ "path ?h ?cap ?j"]) (simp add: mapIndexFind_def first_slot_path [OF k])
qed

lemma find_absent:
  assumes m: "map_inv m" and cap0: "0 < mo_index_cap m" and a: "key \<notin> set (live_keys (mo_entries m))"
  shows "\<exists>s < mo_index_cap m. mapIndexFind m key (mapHashKey key) = (False, int s)
    \<and> mo_index m ! s < 0 \<and> reached (mo_index m) (mapHashKey key) s"
proof -
  let ?h = "mapHashKey key" and ?cap = "mo_index_cap m"
  obtain k where k: "?cap = 2 ^ k" using m cap0 by (auto simp: map_inv_def)
  obtain j where j: "j < ?cap" "mo_index m ! path ?h ?cap j = - 1" "\<forall>i < j. mo_index m ! path ?h ?cap i \<noteq> - 1"
    by (rule first_empty [OF idx_room [OF m cap0]])
  have nohit: "\<not> hit m key ?h s" if s: "s < ?cap" for s
  proof
    assume "hit m key ?h s"
    from hit_live [OF m s this] obtain p where "p < mo_entry_count m" "me_live (mo_entries m ! p)"
      "me_key (mo_entries m ! p) = key" by blast
    then show False using a by (auto simp: live_keys_def)
  qed
  have "\<forall>i < j. mo_index m ! path ?h ?cap (0 + i) \<noteq> - 1 \<and> \<not> hit m key ?h (path ?h ?cap (0 + i))"
    using j(3) nohit path_less [OF cap0] by simp
  from probe_miss [OF k j(1), of ?h 0 key "- 1"] this j(2) obtain s i where
    s: "probe m key ?h ?cap (path ?h ?cap 0) (- 1) = (False, s)" "i \<le> j" "s = int (path ?h ?cap i)"
       "mo_index m ! path ?h ?cap i = - 1 \<or> mo_index m ! path ?h ?cap i = - 2" by auto
  have "reached (mo_index m) ?h (path ?h ?cap i)"
    unfolding reached_def using s(2) j by (intro exI [of _ i]) auto
  then show ?thesis
    using s cap0 path_less [OF cap0]
    by (intro exI [of _ "path ?h ?cap i"]) (auto simp: mapIndexFind_def first_slot_path [OF k])
qed

subsection \<open>Entering, removing and rebuilding keep the index\<close>

lemma reached_update:
  assumes "reached idx h t" "v \<noteq> - 1" shows "reached (idx[s := v]) h t"
proof -
  obtain i where i: "i < length idx" "path h (length idx) i = t" "\<forall>j < i. idx ! path h (length idx) j \<noteq> - 1"
    using assms(1) by (auto simp: reached_def)
  have "path h (length idx) j < length idx" for j
    by (rule path_less) (rule le_less_trans [OF le0 i(1)])
  then have "idx[s := v] ! path h (length idx) j \<noteq> - 1" if "j < i" for j
    using i(3) that assms(2) by (cases "path h (length idx) j = s") auto
  then show ?thesis unfolding reached_def using i by (intro exI [of _ i]) simp
qed

lemma filter_update_le: "length (filter P (xs[i := v])) \<le> Suc (length (filter P xs))"
proof (induction xs arbitrary: i)
  case (Cons x xs)
  show ?case
  proof (cases i)
    case (Suc j)
    then show ?thesis using Cons [of j] by simp
  qed simp
qed simp

lemma filter_update_same: "i < length xs \<Longrightarrow> P (xs ! i) \<Longrightarrow> length (filter P (xs[i := v])) \<le> length (filter P xs)"
proof (induction xs arbitrary: i)
  case (Cons x xs)
  show ?case
  proof (cases i)
    case 0
    then show ?thesis using Cons.prems by simp
  next
    case (Suc j)
    then show ?thesis using Cons.IH [of j] Cons.prems by simp
  qed
qed simp

lemma idx_ok_place:
  assumes ok: "idx_ok es idx" and s: "s < length idx" "idx ! s < 0" "reached idx (me_hash e) s" and e: "me_live e"
  shows "idx_ok (es @ [e]) (idx[s := int (length es)])"
proof -
  let ?idx = "idx[s := int (length es)]"
  have vals: "idx ! t = - 1 \<or> idx ! t = - 2 \<or> 0 \<le> idx ! t \<and> nat (idx ! t) < length es \<and> me_live (es ! nat (idx ! t))"
    if "t < length idx" for t using ok that by (simp add: idx_ok_def)
  have inj: "t = u" if "t < length idx" "u < length idx" "0 \<le> idx ! t" "idx ! t = idx ! u" for t u
    using ok that unfolding idx_ok_def by blast
  have 1: "?idx ! t = - 1 \<or> ?idx ! t = - 2 \<or> 0 \<le> ?idx ! t \<and> nat (?idx ! t) < length (es @ [e])
      \<and> me_live ((es @ [e]) ! nat (?idx ! t))" if "t < length ?idx" for t
    using vals [of t] that e s(1) by (auto simp: nth_list_update_if nth_append)
  have 2: "t = u" if t: "t < length ?idx" "u < length ?idx" "0 \<le> ?idx ! t" "?idx ! t = ?idx ! u" for t u
  proof (cases "t = s \<or> u = s")
    case True
    then show ?thesis using t vals [of t] vals [of u] s(1) by (auto simp: nth_list_update_if split: if_splits)
  next
    case False
    then show ?thesis using t inj [of t u] by simp
  qed
  have 3: "\<exists>t < length ?idx. ?idx ! t = int p \<and> reached ?idx (me_hash ((es @ [e]) ! p)) t"
    if p: "p < length (es @ [e])" "me_live ((es @ [e]) ! p)" for p
  proof (cases "p < length es")
    case True
    then obtain t where t: "t < length idx" "idx ! t = int p" "reached idx (me_hash (es ! p)) t"
      using idx_ok_reach [OF ok True] p by (auto simp: nth_append)
    then have "t \<noteq> s" using s(2) by auto
    then show ?thesis using t True by (intro exI [of _ t]) (simp add: nth_append reached_update)
  next
    case False
    then have "p = length es" using p by simp
    then show ?thesis using s by (intro exI [of _ s]) (simp add: reached_update)
  qed
  have 4: "length (filter (\<lambda>x. x \<noteq> - 1) ?idx) \<le> length (es @ [e])"
    using ok filter_update_le [of "\<lambda>x. x \<noteq> - 1" idx s "int (length es)"] by (simp add: idx_ok_def)
  show ?thesis unfolding idx_ok_def using 1 2 3 4 by blast
qed

lemma idx_ok_remove:
  assumes ok: "idx_ok es idx" and s: "s < length idx" "idx ! s = int p" and p: "p < length es"
    and e: "me_hash e = me_hash (es ! p)" "\<not> me_live e"
  shows "idx_ok (es[p := e]) (idx[s := - 2])"
proof -
  have vals: "idx ! t = - 1 \<or> idx ! t = - 2 \<or> 0 \<le> idx ! t \<and> nat (idx ! t) < length es \<and> me_live (es ! nat (idx ! t))"
    if "t < length idx" for t using ok that by (simp add: idx_ok_def)
  have inj: "t = u" if "t < length idx" "u < length idx" "0 \<le> idx ! t" "idx ! t = idx ! u" for t u
    using ok that unfolding idx_ok_def by blast
  let ?idx = "idx[s := - 2]" and ?es = "es[p := e]"
  have 1: "?idx ! t = - 1 \<or> ?idx ! t = - 2 \<or> 0 \<le> ?idx ! t \<and> nat (?idx ! t) < length ?es
      \<and> me_live (?es ! nat (?idx ! t))" if "t < length ?idx" for t
  proof (cases "t = s")
    case False
    then have "0 \<le> idx ! t \<Longrightarrow> nat (idx ! t) \<noteq> p" using inj [of s t] s that by auto
    then show ?thesis using vals [of t] that False by auto
  qed (use s in simp)
  have 2: "t = u" if t: "t < length ?idx" "u < length ?idx" "0 \<le> ?idx ! t" "?idx ! t = ?idx ! u" for t u
    using t inj [of t u] s(1) by (auto simp: nth_list_update_if split: if_splits)
  have 3: "\<exists>t < length ?idx. ?idx ! t = int q \<and> reached ?idx (me_hash (?es ! q)) t"
    if q: "q < length ?es" "me_live (?es ! q)" for q
  proof -
    have qp: "q \<noteq> p" using q p e(2) by auto
    then obtain t where t: "t < length idx" "idx ! t = int q" "reached idx (me_hash (es ! q)) t"
      using idx_ok_reach [OF ok, of q] q by auto
    then have "t \<noteq> s" using s(2) qp by auto
    then show ?thesis using t qp by (intro exI [of _ t]) (simp add: reached_update)
  qed
  have 4: "length (filter (\<lambda>x. x \<noteq> - 1) ?idx) \<le> length ?es"
    using ok filter_update_same [of s idx "\<lambda>x. x \<noteq> - 1" "- 2"] s by (simp add: idx_ok_def)
  show ?thesis unfolding idx_ok_def using 1 2 3 4 by blast
qed

lemma idx_ok_same_shape:
  "idx_ok es idx \<Longrightarrow> p < length es \<Longrightarrow> me_hash e = me_hash (es ! p) \<Longrightarrow> me_live e = me_live (es ! p) \<Longrightarrow>
   idx_ok (es[p := e]) idx"
  by (auto simp: idx_ok_def nth_list_update)

lemma free_slot_finds:
  assumes "length idx = 2 ^ k" "j < n" "idx ! path h (length idx) (a + j) = - 1"
    "\<forall>i < j. idx ! path h (length idx) (a + i) \<noteq> - 1"
  shows "free_slot idx n (path h (length idx) a) = Some (path h (length idx) (a + j))"
  using assms(2-4)
proof (induction j arbitrary: n a)
  case 0
  then show ?case by (cases n) simp_all
next
  case (Suc j)
  then obtain n' where n: "n = Suc n'" by (cases n) auto
  have "idx ! path h (length idx) a \<noteq> - 1" using Suc.prems(3) by (metis add_0_right zero_less_Suc)
  moreover have "free_slot idx n' (path h (length idx) (Suc a)) = Some (path h (length idx) (Suc a + j))"
    by (rule Suc.IH) (use Suc.prems n in auto)
  ultimately show ?case by (simp add: n next_slot_path [OF assms(1)])
qed

lemma place_all_ok:
  assumes "length idx = 2 ^ k" "idx_ok es1 idx" "length es1 + length es2 < length idx" "\<forall>e \<in> set es2. me_live e"
  shows "\<exists>idx'. place_all es2 (length es1) idx = Some idx' \<and> idx_ok (es1 @ es2) idx' \<and> length idx' = length idx"
  using assms
proof (induction es2 arbitrary: es1 idx)
  case (Cons e es2)
  let ?h = "me_hash e"
  have "length (filter (\<lambda>x. x \<noteq> - 1) idx) < length idx" using Cons.prems(2,3) by (simp add: idx_ok_def)
  then obtain j where j: "j < length idx" "idx ! path ?h (length idx) j = - 1"
    "\<forall>i < j. idx ! path ?h (length idx) i \<noteq> - 1" by (rule first_empty)
  let ?s = "path ?h (length idx) j"
  have fs: "free_slot idx (length idx) (first_slot ?h (length idx)) = Some ?s"
    using free_slot_finds [OF Cons.prems(1), of j "length idx" ?h 0] j
    by (simp add: first_slot_path [OF Cons.prems(1)])
  have s: "?s < length idx" by (rule path_less [OF le_less_trans [OF le0 j(1)]])
  have "reached idx ?h ?s" unfolding reached_def using j by (intro exI [of _ j]) simp
  then have "idx_ok (es1 @ [e]) (idx[?s := int (length es1)])"
    using Cons.prems s j(2) by (intro idx_ok_place) simp_all
  from Cons.IH [OF _ this] Cons.prems show ?case
    unfolding place_all.simps fs option.case by simp
qed simp

lemma grow_cap_power: "\<exists>k. grow_cap (2 ^ a) n = 2 ^ k"
proof (induction "2 ^ a :: nat" n arbitrary: a rule: grow_cap.induct)
  case (1 n)
  show ?case
  proof (cases "n \<le> 2 ^ a")
    case True
    then show ?thesis by (subst grow_cap.simps) auto
  next
    case False
    then have "\<exists>k. grow_cap (2 ^ Suc a) n = 2 ^ k" using 1(1) [of "Suc a"] by (simp add: mult.commute)
    then show ?thesis using False by (subst grow_cap.simps) (simp add: mult.commute)
  qed
qed

lemma live_keys_filter [simp]: "live_keys (filter me_live es) = live_keys es"
  by (simp add: live_keys_def)

lemma rehash_ok:
  assumes m: "distinct (live_keys (mo_entries m))" "\<forall>e \<in> set (mo_entries m). me_hash e = mapHashKey (me_key e)"
    "mo_live_count m = length (filter me_live (mo_entries m))"
  shows "\<exists>m'. mapRehash m (grow_cap 8 ((mo_live_count m + 1) * 2)) = Some m' \<and> map_inv m' \<and> map_abs m' = map_abs m
    \<and> (mo_entry_count m' + 1) * 2 \<le> mo_index_cap m'"
proof -
  define cap where "cap = grow_cap 8 ((mo_live_count m + 1) * 2)"
  let ?es = "filter me_live (mo_entries m)"
  obtain k where k: "cap = 2 ^ k"
    using grow_cap_power [of 3 "(mo_live_count m + 1) * 2"] by (auto simp: cap_def)
  have ge: "(mo_live_count m + 1) * 2 \<le> cap" unfolding cap_def by (rule grow_cap_ge) simp
  have "\<exists>idx'. place_all ?es (length ([] :: 'a MapEntry list)) (replicate cap (- 1)) = Some idx'
      \<and> idx_ok ([] @ ?es) idx' \<and> length idx' = length (replicate cap (- 1 :: int))"
  proof (rule place_all_ok)
    show "length (replicate cap (- 1 :: int)) = 2 ^ k" by (simp add: k)
    show "idx_ok ([] :: 'a MapEntry list) (replicate cap (- 1))" by (simp add: idx_ok_def)
    show "length ([] :: 'a MapEntry list) + length ?es < length (replicate cap (- 1 :: int))" using ge m(3) by simp
  qed simp
  then obtain idx where idx: "place_all ?es 0 (replicate cap (- 1)) = Some idx" "idx_ok ?es idx" "length idx = cap"
    by auto
  let ?m = "m\<lparr>mo_entries := ?es, mo_index := idx\<rparr>"
  have "mapRehash m cap = Some ?m" by (simp add: mapRehash_def Let_def idx(1))
  moreover have "map_inv ?m"
    unfolding map_inv_def
  proof (intro conjI)
    have "0 < length idx" using ge idx(3) by simp
    then show "mo_index ?m = [] \<and> mo_entries ?m = [] \<or> (\<exists>k. mo_index_cap ?m = 2 ^ k) \<and> 0 < mo_index_cap ?m"
      using k idx(3) by auto
    show "mo_entry_count ?m * 2 \<le> mo_index_cap ?m" using ge idx(3) m(3) by simp
    show "idx_ok (mo_entries ?m) (mo_index ?m)" using idx(2) by simp
    show "distinct (live_keys (mo_entries ?m))" using m(1) by simp
    show "\<forall>e \<in> set (mo_entries ?m). me_hash e = mapHashKey (me_key e)" using m(2) by simp
    show "mo_live_count ?m = length (filter me_live (mo_entries ?m))" using m(3) by simp
  qed
  moreover have "map_abs ?m = map_abs m" by (simp add: map_abs_def)
  moreover have "(mo_entry_count ?m + 1) * 2 \<le> mo_index_cap ?m" using ge idx(3) m(3) by simp
  ultimately show ?thesis unfolding cap_def by blast
qed

subsection \<open>The map as an association list\<close>

fun alist_set :: "'k \<Rightarrow> 'v \<Rightarrow> ('k \<times> 'v) list \<Rightarrow> ('k \<times> 'v) list" where
  "alist_set k v [] = [(k, v)]"
| "alist_set k v ((j, w) # xs) = (if j = k then (j, v) # xs else (j, w) # alist_set k v xs)"

lemma alist_set_fresh: "k \<notin> fst ` set xs \<Longrightarrow> alist_set k v xs = xs @ [(k, v)]"
  by (induction k v xs rule: alist_set.induct) auto

lemma alist_set_lookup: "map_of (alist_set k v xs) j = (if j = k then Some v else map_of xs j)"
  by (induction k v xs rule: alist_set.induct) auto

lemma keys_of_abs: "map fst (map_abs m) = live_keys (mo_entries m)"
  by (simp add: map_abs_def live_keys_def)

lemma abs_update:
  "distinct (live_keys es) \<Longrightarrow> p < length es \<Longrightarrow> me_live (es ! p) \<Longrightarrow>
   map (\<lambda>e. (me_key e, me_value e)) (filter me_live (es[p := (es ! p)\<lparr>me_value := v\<rparr>]))
   = alist_set (me_key (es ! p)) v (map (\<lambda>e. (me_key e, me_value e)) (filter me_live es))"
proof (induction es arbitrary: p)
  case (Cons e es)
  show ?case
  proof (cases p)
    case 0
    then show ?thesis using Cons.prems by simp
  next
    case (Suc q)
    then have q: "q < length es" "me_live (es ! q)" using Cons.prems by simp_all
    have "me_key (es ! q) \<noteq> me_key e" if "me_live e"
      using Cons.prems(1) that q by (auto simp: live_keys_def image_iff)
    moreover have "distinct (live_keys es)" using Cons.prems(1) by (auto simp: live_keys_def split: if_splits)
    ultimately show ?thesis using Suc q Cons.IH [of q] by auto
  qed
qed simp

lemma abs_remove:
  "distinct (live_keys es) \<Longrightarrow> p < length es \<Longrightarrow> me_live (es ! p) \<Longrightarrow> \<not> me_live e' \<Longrightarrow>
   map (\<lambda>e. (me_key e, me_value e)) (filter me_live (es[p := e']))
   = filter (\<lambda>kv. fst kv \<noteq> me_key (es ! p)) (map (\<lambda>e. (me_key e, me_value e)) (filter me_live es))"
proof (induction es arbitrary: p)
  case (Cons e es)
  show ?case
  proof (cases p)
    case 0
    then have "\<forall>x \<in> set es. me_live x \<longrightarrow> me_key x \<noteq> me_key e" using Cons.prems by (auto simp: live_keys_def image_iff)
    then have "filter (\<lambda>kv. fst kv \<noteq> me_key e) (map (\<lambda>e. (me_key e, me_value e)) (filter me_live es))
        = map (\<lambda>e. (me_key e, me_value e)) (filter me_live es)"
      by (intro filter_True) auto
    then show ?thesis using 0 Cons.prems by simp
  next
    case (Suc q)
    then have q: "q < length es" "me_live (es ! q)" using Cons.prems by simp_all
    have "me_key (es ! q) \<noteq> me_key e" if "me_live e"
      using Cons.prems(1) that q by (auto simp: live_keys_def image_iff)
    moreover have "distinct (live_keys es)" using Cons.prems(1) by (auto simp: live_keys_def split: if_splits)
    ultimately show ?thesis using Suc q Cons.prems(4) Cons.IH [of q] by auto
  qed
qed simp

lemma live_keys_update: "p < length es \<Longrightarrow> live_keys (es[p := (es ! p)\<lparr>me_value := v\<rparr>]) = live_keys es"
proof (induction es arbitrary: p)
  case (Cons e es)
  then show ?case by (cases p) (auto simp: live_keys_def)
qed simp

lemma live_count_update: "p < length es \<Longrightarrow> me_live e' = me_live (es ! p) \<Longrightarrow>
    length (filter me_live (es[p := e'])) = length (filter me_live es)"
proof (induction es arbitrary: p)
  case (Cons e es)
  then show ?case by (cases p) auto
qed simp

lemma live_count_remove: "p < length es \<Longrightarrow> me_live (es ! p) \<Longrightarrow> \<not> me_live e' \<Longrightarrow>
    length (filter me_live (es[p := e'])) = length (filter me_live es) - 1"
proof (induction es arbitrary: p)
  case (Cons e es)
  show ?case
  proof (cases p)
    case (Suc q)
    then have "es ! q \<in> set (filter me_live es)" using Cons.prems by simp
    then have "0 < length (filter me_live es)" by (metis length_pos_if_in_set)
    then show ?thesis using Suc Cons by auto
  qed (use Cons.prems in simp)
qed simp

lemma map_inv_create: "map_inv pscalMapObjCreate"
  by (simp add: map_inv_def pscalMapObjCreate_def idx_ok_def live_keys_def)

lemma map_append_ok:
  assumes m: "map_inv m" and room: "(mo_entry_count m + 1) * 2 \<le> mo_index_cap m"
    and k: "key \<notin> set (live_keys (mo_entries m))"
    and s: "s < mo_index_cap m" "mo_index m ! s < 0" "reached (mo_index m) (mapHashKey key) s"
  shows "map_inv (map_append m key (mapHashKey key) v (int s))"
    "map_abs (map_append m key (mapHashKey key) v (int s)) = map_abs m @ [(key, v)]"
proof -
  let ?e = "\<lparr>me_key = key, me_hash = mapHashKey key, me_value = v, me_live = True\<rparr>"
  let ?m = "map_append m key (mapHashKey key) v (int s)"
  have e: "mo_entries ?m = mo_entries m @ [?e]" "mo_index ?m = (mo_index m)[s := int (mo_entry_count m)]"
    "mo_live_count ?m = mo_live_count m + 1" by (simp_all add: map_append_def)
  show "map_abs ?m = map_abs m @ [(key, v)]" by (simp add: map_abs_def e)
  show "map_inv ?m"
    unfolding map_inv_def
  proof (intro conjI)
    show "mo_index ?m = [] \<and> mo_entries ?m = [] \<or> (\<exists>k. mo_index_cap ?m = 2 ^ k) \<and> 0 < mo_index_cap ?m"
      using m s(1) by (auto simp: map_inv_def e)
    show "mo_entry_count ?m * 2 \<le> mo_index_cap ?m" using room by (simp add: e)
    show "idx_ok (mo_entries ?m) (mo_index ?m)"
      unfolding e using s by (intro idx_ok_place map_inv_idx [OF m]) simp_all
    show "distinct (live_keys (mo_entries ?m))" using m k by (simp add: e map_inv_def live_keys_def)
    show "\<forall>e \<in> set (mo_entries ?m). me_hash e = mapHashKey (me_key e)" using m by (simp add: e map_inv_def)
    show "mo_live_count ?m = length (filter me_live (mo_entries ?m))" using m by (simp add: e map_inv_def)
  qed
qed

lemma key_live_iff: "key \<in> set (live_keys es) \<longleftrightarrow> (\<exists>p < length es. me_live (es ! p) \<and> me_key (es ! p) = key)"
proof -
  have "key \<in> set (live_keys es) \<longleftrightarrow> (\<exists>e \<in> set es. me_live e \<and> me_key e = key)"
    by (auto simp: live_keys_def)
  then show ?thesis by (metis in_set_conv_nth)
qed

lemma set_ok:
  assumes m: "map_inv m"
  shows "\<exists>m'. pscalMapSet m key v = Some m' \<and> map_inv m' \<and> map_abs m' = alist_set key v (map_abs m)"
proof (cases "key \<in> set (live_keys (mo_entries m))")
  case True
  then obtain p where p: "p < mo_entry_count m" "me_live (mo_entries m ! p)" "me_key (mo_entries m ! p) = key"
    by (auto simp: key_live_iff)
  obtain s where s: "mapIndexFind m key (mapHashKey key) = (True, int s)" "mo_index m ! s = int p"
    using find_live [OF m p] by blast
  let ?m = "m\<lparr>mo_entries := (mo_entries m)[p := (mo_entries m ! p)\<lparr>me_value := v\<rparr>]\<rparr>"
  have "pscalMapSet m key v = Some ?m" by (simp add: pscalMapSet_def s)
  moreover have "map_inv ?m"
    using m p idx_ok_same_shape [OF map_inv_idx [OF m] p(1), of "(mo_entries m ! p)\<lparr>me_value := v\<rparr>"]
    by (auto simp: map_inv_def live_keys_update live_count_update dest!: subsetD [OF set_update_subset_insert])
  moreover have "map_abs ?m = alist_set key v (map_abs m)"
    using abs_update [OF _ p(1,2), of v] m p(3) by (simp add: map_abs_def map_inv_def)
  ultimately show ?thesis by blast
next
  case False
  have fresh: "alist_set key v (map_abs m) = map_abs m @ [(key, v)]"
    by (rule alist_set_fresh) (use False keys_of_abs [of m] in \<open>simp flip: set_map\<close>)
  obtain s0 where miss: "mapIndexFind m key (mapHashKey key) = (False, s0)"
    using find_absent [OF m _ False] by (cases "mo_index_cap m = 0") (auto simp: mapIndexFind_def)
  show ?thesis
  proof (cases "mo_index_cap m = 0 \<or> mo_index_cap m < (mo_entry_count m + 1) * 2")
    case True
    obtain m1 where m1: "mapRehash m (grow_cap 8 ((mo_live_count m + 1) * 2)) = Some m1" "map_inv m1"
      "map_abs m1 = map_abs m" "(mo_entry_count m1 + 1) * 2 \<le> mo_index_cap m1"
      using rehash_ok [of m] m by (auto simp: map_inv_def)
    have k1: "key \<notin> set (live_keys (mo_entries m1))"
      using False keys_of_abs [of m] keys_of_abs [of m1] m1(3) by simp
    have "0 < mo_index_cap m1" by (rule less_le_trans [OF _ m1(4)]) simp
    from find_absent [OF m1(2) this k1] obtain s where s: "s < mo_index_cap m1"
      "mapIndexFind m1 key (mapHashKey key) = (False, int s)" "mo_index m1 ! s < 0"
      "reached (mo_index m1) (mapHashKey key) s" by blast
    have "pscalMapSet m key v = Some (map_append m1 key (mapHashKey key) v (int s))"
      using True m1(1) s(2) by (auto simp: pscalMapSet_def miss Let_def)
    then show ?thesis using map_append_ok [OF m1(2,4) k1 s(1,3,4), of v] fresh m1(3) by simp
  next
    case noGrow: False
    then have "0 < mo_index_cap m" by simp
    from find_absent [OF m this False] obtain s where s: "s < mo_index_cap m"
      "mapIndexFind m key (mapHashKey key) = (False, int s)" "mo_index m ! s < 0"
      "reached (mo_index m) (mapHashKey key) s" by blast
    have room: "(mo_entry_count m + 1) * 2 \<le> mo_index_cap m" using noGrow by simp
    have "pscalMapSet m key v = Some (map_append m key (mapHashKey key) v (int s))"
      using noGrow by (auto simp: pscalMapSet_def s(2) Let_def)
    then show ?thesis using map_append_ok [OF m room False s(1,3,4), of v] fresh by simp
  qed
qed

lemma remove_ok:
  assumes m: "map_inv m"
  shows "\<exists>m'. pscalMapRemove nil m key = Some (key \<in> fst ` set (map_abs m), m') \<and> map_inv m'
    \<and> map_abs m' = filter (\<lambda>kv. fst kv \<noteq> key) (map_abs m)"
proof -
  have keys: "fst ` set (map_abs m) = set (live_keys (mo_entries m))"
    using keys_of_abs [of m] by (metis list.set_map)
  show ?thesis
  proof (cases "key \<in> set (live_keys (mo_entries m))")
    case False
    obtain s0 where miss: "mapIndexFind m key (mapHashKey key) = (False, s0)"
      using find_absent [OF m _ False] by (cases "mo_index_cap m = 0") (auto simp: mapIndexFind_def)
    have "filter (\<lambda>kv. fst kv \<noteq> key) (map_abs m) = map_abs m"
      using False keys by (intro filter_True) auto
    then show ?thesis using miss m False keys by (simp add: pscalMapRemove_def)
  next
    case True
    then obtain p where p: "p < mo_entry_count m" "me_live (mo_entries m ! p)" "me_key (mo_entries m ! p) = key"
      by (auto simp: key_live_iff)
    obtain s where s: "s < mo_index_cap m" "mapIndexFind m key (mapHashKey key) = (True, int s)" "mo_index m ! s = int p"
      using find_live [OF m p] by blast
    let ?e = "(mo_entries m ! p)\<lparr>me_live := False, me_value := nil\<rparr>"
    let ?m = "m\<lparr>mo_entries := (mo_entries m)[p := ?e], mo_index := (mo_index m)[s := - 2],
        mo_live_count := mo_live_count m - 1\<rparr>"
    have d: "distinct (live_keys (mo_entries m))" using m by (simp add: map_inv_def)
    have abs: "map_abs ?m = filter (\<lambda>kv. fst kv \<noteq> key) (map_abs m)"
      using abs_remove [OF d p(1,2), of ?e] p(3) by (simp add: map_abs_def)
    have dk: "distinct (live_keys (mo_entries ?m))"
    proof -
      have "live_keys (mo_entries ?m) = map fst (filter (\<lambda>kv. fst kv \<noteq> key) (map_abs m))"
        using keys_of_abs [of ?m] abs by simp
      moreover have "distinct (map fst (map_abs m))" using d keys_of_abs [of m] by simp
      ultimately show ?thesis by (simp add: distinct_map_filter)
    qed
    have hs: "\<forall>e \<in> set (mo_entries ?m). me_hash e = mapHashKey (me_key e)"
      using m p by (auto simp: map_inv_def dest!: subsetD [OF set_update_subset_insert])
    have lc: "mo_live_count ?m = length (filter me_live (mo_entries ?m))"
      using m p by (simp add: map_inv_def live_count_remove)
    have inv: "map_inv ?m"
      unfolding map_inv_def
    proof (intro conjI dk hs lc)
      show "mo_index ?m = [] \<and> mo_entries ?m = [] \<or> (\<exists>k. mo_index_cap ?m = 2 ^ k) \<and> 0 < mo_index_cap ?m"
        using m s(1) by (auto simp: map_inv_def)
      show "mo_entry_count ?m * 2 \<le> mo_index_cap ?m" using m by (simp add: map_inv_def)
      show "idx_ok (mo_entries ?m) (mo_index ?m)"
        using idx_ok_remove [OF map_inv_idx [OF m] s(1,3) p(1), of ?e] by simp
    qed
    show ?thesis
    proof (cases "16 < mo_entry_count ?m \<and> mo_live_count ?m < mo_entry_count ?m - mo_live_count ?m")
      case True
      obtain m2 where m2: "mapRehash ?m (grow_cap 8 ((mo_live_count ?m + 1) * 2)) = Some m2" "map_inv m2"
        "map_abs m2 = map_abs ?m" using rehash_ok [OF dk hs lc] by blast
      have "pscalMapRemove nil m key = Some (True, m2)"
        using True m2(1) by (simp add: pscalMapRemove_def s Let_def)
      then show ?thesis using m2 abs \<open>key \<in> _\<close> keys by simp
    next
      case False
      then have "pscalMapRemove nil m key = Some (True, ?m)"
        by (auto simp: pscalMapRemove_def s Let_def)
      then show ?thesis using inv abs \<open>key \<in> _\<close> keys by simp
    qed
  qed
qed

lemma find_ok:
  assumes m: "map_inv m" shows "pscalMapFind m key = map_of (map_abs m) key"
proof (cases "key \<in> set (live_keys (mo_entries m))")
  case True
  then obtain p where p: "p < mo_entry_count m" "me_live (mo_entries m ! p)" "me_key (mo_entries m ! p) = key"
    by (auto simp: key_live_iff)
  obtain s where s: "mapIndexFind m key (mapHashKey key) = (True, int s)" "mo_index m ! s = int p"
    using find_live [OF m p] by blast
  have "(key, me_value (mo_entries m ! p)) \<in> set (map_abs m)" using p by (auto simp: map_abs_def)
  moreover have "distinct (map fst (map_abs m))" using m by (simp add: keys_of_abs map_inv_def)
  ultimately have "map_of (map_abs m) key = Some (me_value (mo_entries m ! p))" by simp
  then show ?thesis by (simp add: pscalMapFind_def s)
next
  case False
  obtain s0 where miss: "mapIndexFind m key (mapHashKey key) = (False, s0)"
    using find_absent [OF m _ False] by (cases "mo_index_cap m = 0") (auto simp: mapIndexFind_def)
  have "map_of (map_abs m) key = None"
    using False keys_of_abs [of m] by (metis map_of_eq_None_iff list.set_map)
  then show ?thesis by (simp add: pscalMapFind_def miss)
qed

subsection \<open>Copying\<close>

lemma clone_entries_ok:
  assumes "map_inv m" "distinct (map fst (map_abs m) @ live_keys es)"
  shows "\<exists>m'. clone_entries copy es m = Some m' \<and> map_inv m'
    \<and> map_abs m' = map_abs m @ map (\<lambda>e. (me_key e, copy (me_value e))) (filter me_live es)"
  using assms
proof (induction es arbitrary: m)
  case (Cons e es)
  show ?case
  proof (cases "me_live e")
    case True
    obtain m1 where m1: "pscalMapSet m (me_key e) (copy (me_value e)) = Some m1" "map_inv m1"
      "map_abs m1 = alist_set (me_key e) (copy (me_value e)) (map_abs m)"
      using set_ok [OF Cons.prems(1)] by blast
    have "me_key e \<notin> set (map fst (map_abs m))" using Cons.prems(2) True by (auto simp: live_keys_def)
    then have abs1: "map_abs m1 = map_abs m @ [(me_key e, copy (me_value e))]"
      unfolding m1(3) by (intro alist_set_fresh) simp
    have "distinct (map fst (map_abs m1) @ live_keys es)"
      using Cons.prems(2) True by (auto simp: abs1 live_keys_def)
    from Cons.IH [OF m1(2) this] show ?thesis using True m1(1) abs1 by auto
  next
    case False
    then show ?thesis using Cons.IH [OF Cons.prems(1)] Cons.prems(2) by (simp add: live_keys_def)
  qed
qed simp

lemma abs_create: "map_abs pscalMapObjCreate = []"
  by (simp add: map_abs_def pscalMapObjCreate_def)

lemma clone_ok:
  assumes "map_inv m"
  shows "\<exists>m'. pscalMapClone copy m = Some m' \<and> map_inv m' \<and> map_abs m' = map (apsnd copy) (map_abs m)"
proof -
  have d: "distinct (map fst (map_abs (pscalMapObjCreate :: 'a MapObj)) @ live_keys (mo_entries m))"
    using assms by (simp add: abs_create map_inv_def)
  from clone_entries_ok [OF map_inv_create d, of copy] show ?thesis
    unfolding pscalMapClone_def abs_create by (simp add: map_abs_def comp_def)
qed

subsection \<open>A map as a lookup table\<close>

definition map_set :: "byte list \<Rightarrow> 'v \<Rightarrow> 'v MapObj \<Rightarrow> 'v MapObj" where
  "map_set k v m = the (pscalMapSet m k v)"

interpretation ordered_map: lookup_table map_inv "\<lambda>_. True" id pscalMapFind map_set
proof
  fix m :: "'v MapObj" and k v
  assume m: "map_inv m"
  obtain m' where m': "pscalMapSet m k v = Some m'" "map_inv m'" "map_abs m' = alist_set k v (map_abs m)"
    using set_ok [OF m] by blast
  show "map_inv (map_set k v m)" using m' by (simp add: map_set_def)
  show "pscalMapFind (map_set k v m) k' = (if id k' = id k then Some v else pscalMapFind m k')" for k'
    using find_ok [OF m'(2)] find_ok [OF m] m' by (simp add: map_set_def alist_set_lookup)
qed

subsection \<open>Histories\<close>

text \<open>A client's calls on one map, what each returns, and the same calls on an association list.\<close>

datatype 'v map_op = CallSet "byte list" 'v | CallRemove "byte list" | CallFind "byte list" | CallClone

datatype 'v map_reply = Done | Removed bool | Found "'v option"

fun map_call :: "'v \<Rightarrow> 'v map_op \<Rightarrow> 'v MapObj \<Rightarrow> ('v map_reply \<times> 'v MapObj) option" where
  "map_call nil (CallSet k v) m = map_option (Pair Done) (pscalMapSet m k v)"
| "map_call nil (CallRemove k) m = map_option (map_prod Removed id) (pscalMapRemove nil m k)"
| "map_call nil (CallFind k) m = Some (Found (pscalMapFind m k), m)"
| "map_call nil CallClone m = map_option (Pair Done) (pscalMapClone id m)"

fun map_calls :: "'v \<Rightarrow> 'v map_op list \<Rightarrow> 'v MapObj \<Rightarrow> ('v map_reply list \<times> 'v MapObj) option" where
  "map_calls nil [] m = Some ([], m)"
| "map_calls nil (c # cs) m =
     (case map_call nil c m of
        None \<Rightarrow> None
      | Some (r, m1) \<Rightarrow> map_option (map_prod (Cons r) id) (map_calls nil cs m1))"

fun alist_call :: "'v map_op \<Rightarrow> (byte list \<times> 'v) list \<Rightarrow> 'v map_reply \<times> (byte list \<times> 'v) list" where
  "alist_call (CallSet k v) kvs = (Done, alist_set k v kvs)"
| "alist_call (CallRemove k) kvs = (Removed (k \<in> fst ` set kvs), filter (\<lambda>kv. fst kv \<noteq> k) kvs)"
| "alist_call (CallFind k) kvs = (Found (map_of kvs k), kvs)"
| "alist_call CallClone kvs = (Done, kvs)"

fun alist_calls :: "'v map_op list \<Rightarrow> (byte list \<times> 'v) list \<Rightarrow> 'v map_reply list \<times> (byte list \<times> 'v) list" where
  "alist_calls [] kvs = ([], kvs)"
| "alist_calls (c # cs) kvs =
     (let (r, kvs1) = alist_call c kvs in map_prod (Cons r) id (alist_calls cs kvs1))"

lemma map_call_refines:
  assumes "map_inv m"
  shows "\<exists>m'. map_call nil c m = Some (fst (alist_call c (map_abs m)), m') \<and> map_inv m'
    \<and> map_abs m' = snd (alist_call c (map_abs m))"
  using assms
  by (cases c)
     (use set_ok [OF assms] remove_ok [OF assms, of nil] find_ok [OF assms] clone_ok [OF assms, of id] in
        \<open>fastforce simp: apsnd_def map_prod.id\<close>)+

lemma map_calls_refine:
  "map_inv m \<Longrightarrow> \<exists>m'. map_calls nil cs m = Some (fst (alist_calls cs (map_abs m)), m') \<and> map_inv m'
    \<and> map_abs m' = snd (alist_calls cs (map_abs m))"
proof (induction cs arbitrary: m)
  case (Cons c cs)
  obtain m1 where m1: "map_call nil c m = Some (fst (alist_call c (map_abs m)), m1)" "map_inv m1"
    "map_abs m1 = snd (alist_call c (map_abs m))"
    using map_call_refines [OF Cons.prems] by blast
  from Cons.IH [OF m1(2)] m1 show ?case by (auto simp: Let_def case_prod_beta')
qed simp

text \<open>C32: Whatever calls a client makes on a new map, none loops, every reply is the one an association
  list in insertion order gives, and the entries left are that list: growing, rebuilding, and reusing
  the slots of removed entries cannot be observed.\<close>

theorem map_refines_alist:
  "\<exists>m. map_calls nil cs pscalMapObjCreate = Some (fst (alist_calls cs []), m)
     \<and> map_abs m = snd (alist_calls cs [])"
  using map_calls_refine [OF map_inv_create, of nil cs] by (auto simp: abs_create)

text \<open>Setting a key of a well-formed map ends, keeps the map well-formed (the index reaches every
  live entry, no key is live twice, at most half the slots are used), makes the key find the new value
  and every other key what it found before.\<close>

theorem map_set_keeps:
  assumes "map_inv m"
  shows "\<exists>m'. pscalMapSet m key v = Some m' \<and> map_inv m'
    \<and> (\<forall>k. pscalMapFind m' k = (if k = key then Some v else pscalMapFind m k))"
  using set_ok [OF assms, of key v] ordered_map.put_inv [OF assms, of key v]
    ordered_map.get_put [OF assms, of key v] by (auto simp: map_set_def)

lemma map_set_keeps_witness:
  "\<exists>m'. pscalMapSet pscalMapObjCreate [97, 98] (7 :: int) = Some m' \<and> map_inv m'
    \<and> pscalMapFind m' [97, 98] = Some 7"
  using map_set_keeps [OF map_inv_create, of "[97, 98]" "7 :: int"] by auto

end
