(* ===== verification/Utf8.thy ===== *)
theory Utf8
  imports Prelude
begin

section \<open>UTF-8 text\<close>

text \<open>
  The text primitives of \<open>core/utils.c\<close>: encoding and decoding one code point, validating a byte
  string, counting code points, finding the byte of the n-th one, CP437 characters, shell identifiers
  and text output. A text is the list of its bytes; the null pointers the C functions accept are the
  empty list. The loops recurse on the bytes from the current offset on.

  \<open>scalar\<close> is the code point the encoder writes, and the theorems relate every routine to the
  encoder: a text is valid exactly if it is the encoding of some code points.
\<close>

subsection \<open>Encoding\<close>

definition UNICODE_MAX :: u32 where "UNICODE_MAX = 0x10FFFF"

definition encodeUtf8Codepoint :: "u32 \<Rightarrow> byte list" where
  "encodeUtf8Codepoint cp0 =
     (let cp = (if UNICODE_MAX < cp0 \<or> 0xD800 \<le> cp0 \<and> cp0 \<le> 0xDFFF then 0xFFFD else cp0) in
      if cp \<le> 0x7F then [ucast cp]
      else if cp \<le> 0x7FF then [ucast (0xC0 OR drop_bit 6 cp), ucast (0x80 OR (cp AND 0x3F))]
      else if cp \<le> 0xFFFF
      then [ucast (0xE0 OR drop_bit 12 cp), ucast (0x80 OR (drop_bit 6 cp AND 0x3F)), ucast (0x80 OR (cp AND 0x3F))]
      else [ucast (0xF0 OR drop_bit 18 cp), ucast (0x80 OR (drop_bit 12 cp AND 0x3F)),
            ucast (0x80 OR (drop_bit 6 cp AND 0x3F)), ucast (0x80 OR (cp AND 0x3F))])"

definition kCp437ToUnicode :: "u32 list" where
  "kCp437ToUnicode =
    [0x00C7, 0x00FC, 0x00E9, 0x00E2, 0x00E4, 0x00E0, 0x00E5, 0x00E7,
     0x00EA, 0x00EB, 0x00E8, 0x00EF, 0x00EE, 0x00EC, 0x00C4, 0x00C5,
     0x00C9, 0x00E6, 0x00C6, 0x00F4, 0x00F6, 0x00F2, 0x00FB, 0x00F9,
     0x00FF, 0x00D6, 0x00DC, 0x00A2, 0x00A3, 0x00A5, 0x20A7, 0x0192,
     0x00E1, 0x00ED, 0x00F3, 0x00FA, 0x00F1, 0x00D1, 0x00AA, 0x00BA,
     0x00BF, 0x2310, 0x00AC, 0x00BD, 0x00BC, 0x00A1, 0x00AB, 0x00BB,
     0x2591, 0x2592, 0x2593, 0x2502, 0x2524, 0x2561, 0x2562, 0x2556,
     0x2555, 0x2563, 0x2551, 0x2557, 0x255D, 0x255C, 0x255B, 0x2510,
     0x2514, 0x2534, 0x252C, 0x251C, 0x2500, 0x253C, 0x255E, 0x255F,
     0x255A, 0x2554, 0x2569, 0x2566, 0x2560, 0x2550, 0x256C, 0x2567,
     0x2568, 0x2564, 0x2565, 0x2559, 0x2558, 0x2552, 0x2553, 0x256B,
     0x256A, 0x2518, 0x250C, 0x2588, 0x2584, 0x258C, 0x2590, 0x2580,
     0x03B1, 0x00DF, 0x0393, 0x03C0, 0x03A3, 0x03C3, 0x00B5, 0x03C4,
     0x03A6, 0x0398, 0x03A9, 0x03B4, 0x221E, 0x03C6, 0x03B5, 0x2229,
     0x2261, 0x00B1, 0x2265, 0x2264, 0x2320, 0x2321, 0x00F7, 0x2248,
     0x00B0, 0x2219, 0x00B7, 0x221A, 0x207F, 0x00B2, 0x25A0, 0x00A0]"

definition pascal_char_codepoint :: "int \<Rightarrow> u32" where
  "pascal_char_codepoint value =
     (if value < 0 then 0xFFFD
      else if value \<le> 0x7F then word_of_int value
      else if value \<le> 0xFF then kCp437ToUnicode ! nat (value - 0x80)
      else 0xFFFD)"

definition encodePascalCharUtf8 :: "int \<Rightarrow> byte list" where
  "encodePascalCharUtf8 value = encodeUtf8Codepoint (pascal_char_codepoint value)"

subsection \<open>Validation and decoding\<close>

abbreviation cont :: "byte \<Rightarrow> bool" where
  "cont b \<equiv> b AND 0xC0 = 0x80"

abbreviation within :: "byte \<Rightarrow> byte \<Rightarrow> byte \<Rightarrow> bool" where
  "within lo hi c \<equiv> lo \<le> c \<and> c \<le> hi"

function isValidUtf8Bytes :: "byte list \<Rightarrow> bool" where
  "isValidUtf8Bytes t =
     (if t = [] then True
      else
        let c = t ! 0; remaining = length t in
        if c \<le> 0x7F then isValidUtf8Bytes (drop 1 t)
        else if within 0xC2 0xDF c
        then if remaining < 2 then False
             else if \<not> cont (t ! 1) then False
             else isValidUtf8Bytes (drop 2 t)
        else if c = 0xE0
        then if remaining < 3 then False
             else if t ! 1 < 0xA0 \<or> 0xBF < t ! 1 then False
             else if \<not> cont (t ! 2) then False
             else isValidUtf8Bytes (drop 3 t)
        else if within 0xE1 0xEC c
        then if remaining < 3 then False
             else if \<not> cont (t ! 1) then False
             else if \<not> cont (t ! 2) then False
             else isValidUtf8Bytes (drop 3 t)
        else if c = 0xED
        then if remaining < 3 then False
             else if t ! 1 < 0x80 \<or> 0x9F < t ! 1 then False
             else if \<not> cont (t ! 2) then False
             else isValidUtf8Bytes (drop 3 t)
        else if within 0xEE 0xEF c
        then if remaining < 3 then False
             else if \<not> cont (t ! 1) then False
             else if \<not> cont (t ! 2) then False
             else isValidUtf8Bytes (drop 3 t)
        else if c = 0xF0
        then if remaining < 4 then False
             else if t ! 1 < 0x90 \<or> 0xBF < t ! 1 then False
             else if \<not> cont (t ! 2) then False
             else if \<not> cont (t ! 3) then False
             else isValidUtf8Bytes (drop 4 t)
        else if within 0xF1 0xF3 c
        then if remaining < 4 then False
             else if \<not> cont (t ! 1) then False
             else if \<not> cont (t ! 2) then False
             else if \<not> cont (t ! 3) then False
             else isValidUtf8Bytes (drop 4 t)
        else if c = 0xF4
        then if remaining < 4 then False
             else if t ! 1 < 0x80 \<or> 0x8F < t ! 1 then False
             else if \<not> cont (t ! 2) then False
             else if \<not> cont (t ! 3) then False
             else isValidUtf8Bytes (drop 4 t)
        else False)"
  by pat_completeness auto
termination by (relation "measure length") auto

declare isValidUtf8Bytes.simps [simp del]

definition combine2 :: "byte \<Rightarrow> byte \<Rightarrow> u32" where
  "combine2 c0 c1 = push_bit 6 (ucast (c0 AND 0x1F)) OR ucast (c1 AND 0x3F)"

definition combine3 :: "byte \<Rightarrow> byte \<Rightarrow> byte \<Rightarrow> u32" where
  "combine3 c0 c1 c2 =
     push_bit 12 (ucast (c0 AND 0x0F)) OR push_bit 6 (ucast (c1 AND 0x3F)) OR ucast (c2 AND 0x3F)"

definition combine4 :: "byte \<Rightarrow> byte \<Rightarrow> byte \<Rightarrow> byte \<Rightarrow> u32" where
  "combine4 c0 c1 c2 c3 =
     push_bit 18 (ucast (c0 AND 0x07)) OR push_bit 12 (ucast (c1 AND 0x3F)) OR
     push_bit 6 (ucast (c2 AND 0x3F)) OR ucast (c3 AND 0x3F)"

definition decodeUtf8Codepoint :: "byte list \<Rightarrow> (u32 \<times> nat) option" where
  "decodeUtf8Codepoint t =
     (if t = [] then None
      else
        let c0 = t ! 0; c1 = t ! 1; c2 = t ! 2; c3 = t ! 3 in
        if c0 \<le> 0x7F then Some (ucast c0, 1)
        else if within 0xC2 0xDF c0
        then if length t < 2 then None
             else if \<not> cont c1 then None
             else Some (combine2 c0 c1, 2)
        else if c0 = 0xE0
        then if length t < 3 then None
             else if c1 < 0xA0 \<or> 0xBF < c1 \<or> \<not> cont c2 then None
             else Some (combine3 c0 c1 c2, 3)
        else if within 0xE1 0xEC c0 \<or> within 0xEE 0xEF c0
        then if length t < 3 then None
             else if \<not> cont c1 \<or> \<not> cont c2 then None
             else Some (combine3 c0 c1 c2, 3)
        else if c0 = 0xED
        then if length t < 3 then None
             else if c1 < 0x80 \<or> 0x9F < c1 \<or> \<not> cont c2 then None
             else Some (combine3 c0 c1 c2, 3)
        else if c0 = 0xF0
        then if length t < 4 then None
             else if c1 < 0x90 \<or> 0xBF < c1 \<or> \<not> cont c2 \<or> \<not> cont c3 then None
             else Some (combine4 c0 c1 c2 c3, 4)
        else if within 0xF1 0xF3 c0
        then if length t < 4 then None
             else if \<not> cont c1 \<or> \<not> cont c2 \<or> \<not> cont c3 then None
             else Some (combine4 c0 c1 c2 c3, 4)
        else if c0 = 0xF4
        then if length t < 4 then None
             else if c1 < 0x80 \<or> 0x8F < c1 \<or> \<not> cont c2 \<or> \<not> cont c3 then None
             else Some (combine4 c0 c1 c2 c3, 4)
        else None)"

lemma decode_advance: "decodeUtf8Codepoint t = Some (cp, n) \<Longrightarrow> 0 < n \<and> n \<le> length t"
  by (auto simp: decodeUtf8Codepoint_def Let_def Suc_le_eq split: if_splits)

subsection \<open>Counting and indexing\<close>

text \<open>The loops stop with \<open>None\<close> at a byte that starts no code point.\<close>

function count_from :: "byte list \<Rightarrow> nat option" where
  "count_from t =
     (if t = [] then Some 0
      else case decodeUtf8Codepoint t of
             None \<Rightarrow> None
           | Some (cp, advance) \<Rightarrow> map_option Suc (count_from (drop advance t)))"
  by pat_completeness auto
termination by (relation "measure length") (auto dest: decode_advance)

declare count_from.simps [simp del]

definition utf8CodepointCount :: "byte list \<Rightarrow> nat" where
  "utf8CodepointCount t =
     (if t = [] then 0 else case count_from t of None \<Rightarrow> length t | Some n \<Rightarrow> n)"

fun offset_from :: "byte list \<Rightarrow> nat \<Rightarrow> nat \<Rightarrow> nat option" where
  "offset_from t 0 offset = Some offset"
| "offset_from t (Suc n) offset =
     (if t = [] then Some offset
      else case decodeUtf8Codepoint t of
             None \<Rightarrow> None
           | Some (cp, advance) \<Rightarrow> offset_from (drop advance t) n (offset + advance))"

definition utf8ByteOffsetForCodepointIndex :: "byte list \<Rightarrow> nat \<Rightarrow> nat" where
  "utf8ByteOffsetForCodepointIndex t index =
     (if t = [] \<or> index = 0 then 0
      else case offset_from t index 0 of
             None \<Rightarrow> if index < length t then index else length t
           | Some offset \<Rightarrow> offset)"

subsection \<open>Shell identifiers and output\<close>

definition isShellIdentifierStartCodepoint :: "u32 \<Rightarrow> bool" where
  "isShellIdentifierStartCodepoint cp =
     (if cp = 0x5F then True
      else if cp \<le> 0x7F then within 0x41 0x5A (ucast cp) \<or> within 0x61 0x7A (ucast cp)
      else cp \<le> 0x10FFFF)"

definition isShellIdentifierContinueCodepoint :: "u32 \<Rightarrow> bool \<Rightarrow> bool" where
  "isShellIdentifierContinueCodepoint cp allow_hash =
     (if cp = 0x5F then True
      else if allow_hash \<and> cp = 0x23 then True
      else if cp \<le> 0x7F
      then within 0x41 0x5A (ucast cp) \<or> within 0x61 0x7A (ucast cp) \<or> within 0x30 0x39 (ucast cp)
      else cp \<le> 0x10FFFF)"

function consume_rest :: "bool \<Rightarrow> byte list \<Rightarrow> nat \<Rightarrow> nat" where
  "consume_rest allow_hash t consumed =
     (if t = [] then consumed
      else case decodeUtf8Codepoint t of
             None \<Rightarrow> consumed
           | Some (cp, advance) \<Rightarrow>
               if \<not> isShellIdentifierContinueCodepoint cp allow_hash then consumed
               else consume_rest allow_hash (drop advance t) (consumed + advance))"
  by pat_completeness auto
termination by (relation "measure (\<lambda>(_, t, _). length t)") (auto dest: decode_advance)

declare consume_rest.simps [simp del]

definition consumeShellIdentifier :: "byte list \<Rightarrow> bool \<Rightarrow> nat option" where
  "consumeShellIdentifier t allow_hash =
     (if t = [] then None
      else case decodeUtf8Codepoint t of
             None \<Rightarrow> None
           | Some (cp, advance) \<Rightarrow>
               if \<not> isShellIdentifierStartCodepoint cp then None
               else Some (consume_rest allow_hash (drop advance t) advance))"

text \<open>The bytes \<open>writePascalText\<close> writes to the stream.\<close>

definition writePascalText :: "byte list \<Rightarrow> byte list" where
  "writePascalText t =
     (if t = [] then []
      else if isValidUtf8Bytes t then t
      else concat (map (\<lambda>b. encodePascalCharUtf8 (uint b)) t))"

subsection \<open>The encoding in numbers\<close>

definition scalar :: "u32 \<Rightarrow> u32" where
  "scalar cp = (if UNICODE_MAX < cp \<or> 0xD800 \<le> cp \<and> cp \<le> 0xDFFF then 0xFFFD else cp)"

fun numbers :: "nat \<Rightarrow> nat list" where
  "numbers n =
     (if n < 128 then [n]
      else if n < 2048 then [192 + n div 64, 128 + n mod 64]
      else if n < 65536 then [224 + n div 4096, 128 + n div 64 mod 64, 128 + n mod 64]
      else [240 + n div 262144, 128 + n div 4096 mod 64, 128 + n div 64 mod 64, 128 + n mod 64])"

lemma unat_low_bits:
  "unat (w AND 0x3F :: u32) = unat w mod 64" "unat (c AND 0x3F :: byte) = unat c mod 64"
  "unat (c AND 0x1F :: byte) = unat c mod 32" "unat (c AND 0x0F :: byte) = unat c mod 16"
  "unat (c AND 0x07 :: byte) = unat c mod 8"
proof -
  have m: "(0x3F :: u32) = mask 6" "(0x3F :: byte) = mask 6" "(0x1F :: byte) = mask 5" "(0x0F :: byte) = mask 4"
    "(0x07 :: byte) = mask 3" by (simp_all add: mask_eq_exp_minus_1)
  show "unat (w AND 0x3F :: u32) = unat w mod 64" "unat (c AND 0x3F :: byte) = unat c mod 64"
    "unat (c AND 0x1F :: byte) = unat c mod 32" "unat (c AND 0x0F :: byte) = unat c mod 16"
    "unat (c AND 0x07 :: byte) = unat c mod 8"
    unfolding m take_bit_eq_mask [symmetric]
    by (simp_all only: unsigned_take_bit_eq) (simp_all add: take_bit_nat_def)
qed

lemma unat_tagged:
  fixes x :: u32
  assumes "unat x < 2 ^ k" "k \<le> 8" "unat a * 2 ^ k + 2 ^ k \<le> 256"
  shows "unat (ucast (push_bit k a OR x) :: byte) = unat a * 2 ^ k + unat x"
proof -
  have "unat (push_bit k a OR x) = unat a * 2 ^ k + unat x"
    by (rule unat_push_or) (use assms in auto)
  then show ?thesis using assms by (simp add: unsigned_ucast_eq take_bit_eq_mod)
qed

lemma unat_lead:
  fixes x :: u32
  shows "unat x < 64 \<Longrightarrow> unat (ucast (0x80 OR x) :: byte) = 128 + unat x"
    "unat x < 32 \<Longrightarrow> unat (ucast (0xC0 OR x) :: byte) = 192 + unat x"
    "unat x < 16 \<Longrightarrow> unat (ucast (0xE0 OR x) :: byte) = 224 + unat x"
    "unat x < 8 \<Longrightarrow> unat (ucast (0xF0 OR x) :: byte) = 240 + unat x"
  using unat_tagged [of x 6 2] unat_tagged [of x 5 6] unat_tagged [of x 4 14] unat_tagged [of x 3 30]
  by (simp_all add: push_bit_eq_mult)

lemma unat_drop_bit: "unat (drop_bit k w) = unat w div 2 ^ k"
  by (simp only: unat_drop_bit_eq drop_bit_nat_def)

lemma encode_numbers: "map unat (encodeUtf8Codepoint cp) = numbers (unat (scalar cp))"
proof -
  let ?s = "scalar cp"
  have max: "unat ?s \<le> 1114111" by (simp add: scalar_def UNICODE_MAX_def word_le_nat_alt word_less_nat_alt)
  have enc: "encodeUtf8Codepoint cp =
     (if ?s \<le> 0x7F then [ucast ?s]
      else if ?s \<le> 0x7FF then [ucast (0xC0 OR drop_bit 6 ?s), ucast (0x80 OR (?s AND 0x3F))]
      else if ?s \<le> 0xFFFF
      then [ucast (0xE0 OR drop_bit 12 ?s), ucast (0x80 OR (drop_bit 6 ?s AND 0x3F)), ucast (0x80 OR (?s AND 0x3F))]
      else [ucast (0xF0 OR drop_bit 18 ?s), ucast (0x80 OR (drop_bit 12 ?s AND 0x3F)),
            ucast (0x80 OR (drop_bit 6 ?s AND 0x3F)), ucast (0x80 OR (?s AND 0x3F))])"
    by (simp only: encodeUtf8Codepoint_def scalar_def Let_def)
  have small: "?s \<le> 0x7F \<Longrightarrow> unat (ucast ?s :: byte) = unat ?s"
    by (simp add: word_le_nat_alt unsigned_ucast_eq take_bit_eq_mod)
  show ?thesis
    unfolding enc using max small
    by (simp add: word_le_nat_alt unat_lead unat_low_bits unat_drop_bit)
qed

lemma cont_unat: "cont b \<longleftrightarrow> 128 \<le> unat b \<and> unat b < 192"
proof -
  have "\<forall>n \<in> set [0..<256]. (word_of_nat n :: byte) AND 0xC0 = 0x80 \<longleftrightarrow> 128 \<le> n \<and> n < 192"
    by code_simp
  then have "(word_of_nat (unat b) :: byte) AND 0xC0 = 0x80 \<longleftrightarrow> 128 \<le> unat b \<and> unat b < 192"
    by (rule bspec) (use unat_u8_bound [of b] in simp)
  then show ?thesis by simp
qed

lemma combine_unat:
  "unat (combine2 c0 c1) = unat c0 mod 32 * 64 + unat c1 mod 64"
  "unat (combine3 c0 c1 c2) = unat c0 mod 16 * 4096 + unat c1 mod 64 * 64 + unat c2 mod 64"
  "unat (combine4 c0 c1 c2 c3) = unat c0 mod 8 * 262144 + unat c1 mod 64 * 4096 + unat c2 mod 64 * 64 + unat c3 mod 64"
proof -
  have up: "unat (ucast b :: u32) = unat b" for b :: byte by (rule unat_ucast_u8) simp
  have join: "unat (push_bit 6 a OR ucast (b AND 0x3F) :: u32) = unat a * 64 + unat b mod 64"
    if "unat a < 2 ^ 26" for a :: u32 and b :: byte
    using unat_push_or [of "ucast (b AND 0x3F) :: u32" 6 a] that by (simp add: up unat_low_bits)
  show two: "unat (combine2 c0 c1) = unat c0 mod 32 * 64 + unat c1 mod 64"
    unfolding combine2_def by (subst join) (simp_all add: up unat_low_bits)
  have lead: "unat (push_bit 6 (ucast a) OR ucast (b AND 0x3F) :: u32) = unat a * 64 + unat b mod 64" for a b :: byte
    using join [of "ucast a" b] unat_u8_bound [of a] by (simp add: up)
  have c3: "combine3 c0 c1 c2 = push_bit 6 (push_bit 6 (ucast (c0 AND 0x0F)) OR ucast (c1 AND 0x3F)) OR ucast (c2 AND 0x3F)"
    by (simp add: combine3_def push_bit_or or.assoc)
  show "unat (combine3 c0 c1 c2) = unat c0 mod 16 * 4096 + unat c1 mod 64 * 64 + unat c2 mod 64"
    unfolding c3 by (subst join) (simp_all add: lead unat_low_bits)
  have c4: "combine4 c0 c1 c2 c3 =
     push_bit 6 (push_bit 6 (push_bit 6 (ucast (c0 AND 0x07)) OR ucast (c1 AND 0x3F)) OR ucast (c2 AND 0x3F))
       OR ucast (c3 AND 0x3F)"
    by (simp add: combine4_def push_bit_or or.assoc)
  have mid: "unat (push_bit 6 (push_bit 6 (ucast (c0 AND 0x07)) OR ucast (c1 AND 0x3F)) OR ucast (c2 AND 0x3F) :: u32)
      = unat c0 mod 8 * 4096 + unat c1 mod 64 * 64 + unat c2 mod 64"
    by (subst join) (simp_all add: lead unat_low_bits)
  show "unat (combine4 c0 c1 c2 c3) = unat c0 mod 8 * 262144 + unat c1 mod 64 * 4096 + unat c2 mod 64 * 64 + unat c3 mod 64"
  proof -
    have "unat c0 mod 8 * 4096 + unat c1 mod 64 * 64 + unat c2 mod 64 < 2 ^ 26"
      using mod_less_divisor [of 8 "unat c0"] mod_less_divisor [of 64 "unat c1"] mod_less_divisor [of 64 "unat c2"]
      by simp
    then show ?thesis unfolding c4 by (subst join) (simp_all only: mid, simp)
  qed
qed

subsection \<open>Decoding undoes encoding\<close>

lemma word_eq_unat: "w = v \<longleftrightarrow> unat w = unat v"
  by (rule word_unat_eq_iff)

lemmas in_numbers = word_le_nat_alt word_less_nat_alt cont_unat

lemma unat_is: "(c :: byte) = 0xE0 \<longleftrightarrow> unat c = 224" "c = 0xED \<longleftrightarrow> unat c = 237"
  "c = 0xF0 \<longleftrightarrow> unat c = 240" "c = 0xF4 \<longleftrightarrow> unat c = 244"
  by (simp_all add: word_eq_unat)

lemma numbers_split:
  "n < 128 \<Longrightarrow> numbers n = [n]"
  "2 \<le> a \<Longrightarrow> a < 32 \<Longrightarrow> b < 64 \<Longrightarrow> numbers (a * 64 + b) = [192 + a, 128 + b]"
  "a < 16 \<Longrightarrow> b < 64 \<Longrightarrow> c < 64 \<Longrightarrow> 32 \<le> a * 64 + b \<Longrightarrow>
     numbers (a * 4096 + b * 64 + c) = [224 + a, 128 + b, 128 + c]"
  "a < 8 \<Longrightarrow> b < 64 \<Longrightarrow> c < 64 \<Longrightarrow> d < 64 \<Longrightarrow> 16 \<le> a * 64 + b \<Longrightarrow>
     numbers (a * 262144 + b * 4096 + c * 64 + d) = [240 + a, 128 + b, 128 + c, 128 + d]"
proof -
  show "n < 128 \<Longrightarrow> numbers n = [n]" by simp
  show "2 \<le> a \<Longrightarrow> a < 32 \<Longrightarrow> b < 64 \<Longrightarrow> numbers (a * 64 + b) = [192 + a, 128 + b]" by simp
  show "a < 16 \<Longrightarrow> b < 64 \<Longrightarrow> c < 64 \<Longrightarrow> 32 \<le> a * 64 + b \<Longrightarrow>
     numbers (a * 4096 + b * 64 + c) = [224 + a, 128 + b, 128 + c]"
  proof -
    assume h: "a < 16" "b < 64" "c < 64" "32 \<le> a * 64 + b"
    define x where "x = a * 64 + b"
    define y where "y = x * 64 + c"
    have y: "a * 4096 + b * 64 + c = y" by (simp add: x_def y_def)
    have "x div 64 = a" "x mod 64 = b" using h by (simp_all add: x_def)
    moreover have "y div 64 = x" "y mod 64 = c" using h by (simp_all add: y_def)
    ultimately have dm: "x div 64 = a" "x mod 64 = b" "y div 64 = x" "y mod 64 = c" by simp_all
    have "y div 4096 = a" using div_mult2_eq [of y 64 64] dm by simp
    moreover have "2048 \<le> y" "y < 65536" using h by (simp_all add: x_def y_def)
    ultimately show ?thesis unfolding y using h dm by simp
  qed
  show "a < 8 \<Longrightarrow> b < 64 \<Longrightarrow> c < 64 \<Longrightarrow> d < 64 \<Longrightarrow> 16 \<le> a * 64 + b \<Longrightarrow>
     numbers (a * 262144 + b * 4096 + c * 64 + d) = [240 + a, 128 + b, 128 + c, 128 + d]"
  proof -
    assume h: "a < 8" "b < 64" "c < 64" "d < 64" "16 \<le> a * 64 + b"
    define x where "x = a * 64 + b"
    define y where "y = x * 64 + c"
    define z where "z = y * 64 + d"
    have z: "a * 262144 + b * 4096 + c * 64 + d = z" by (simp add: x_def y_def z_def)
    have "x div 64 = a" "x mod 64 = b" using h by (simp_all add: x_def)
    moreover have "y div 64 = x" "y mod 64 = c" using h by (simp_all add: y_def)
    moreover have "z div 64 = y" "z mod 64 = d" using h by (simp_all add: z_def)
    ultimately have dm: "x div 64 = a" "x mod 64 = b" "y div 64 = x" "y mod 64 = c" "z div 64 = y" "z mod 64 = d"
      by simp_all
    have "z div 4096 = x" "z div 262144 = a"
      using div_mult2_eq [of z 64 64] div_mult2_eq [of z 64 4096] div_mult2_eq [of y 64 64] dm by simp_all
    moreover have "65536 \<le> z" using h by (simp add: x_def y_def z_def)
    ultimately show ?thesis unfolding z using h dm by simp
  qed
qed

declare numbers.simps [simp del]

lemma numbers_cases:
  fixes n :: nat
  assumes "n < 2097152"
  obtains (one) "n < 128" | (two) a b where "n = a * 64 + b" "2 \<le> a" "a < 32" "b < 64"
  | (three) a b c where "n = a * 4096 + b * 64 + c" "a < 16" "b < 64" "c < 64" "32 \<le> a * 64 + b"
  | (four) a b c d where "n = a * 262144 + b * 4096 + c * 64 + d" "a < 8" "b < 64" "c < 64" "d < 64" "16 \<le> a * 64 + b"
proof -
  consider "n < 128" | "128 \<le> n" "n < 2048" | "2048 \<le> n" "n < 65536" | "65536 \<le> n" by linarith
  then show ?thesis
  proof cases
    case 2
    show ?thesis by (rule two [of "n div 64" "n mod 64"]) (use 2 in \<open>auto simp: less_mult_imp_div_less\<close>)
  next
    case 3
    define x where "x = n div 64"
    have n: "n = x * 64 + n mod 64" "x = x div 64 * 64 + x mod 64" by (simp_all add: x_def)
    have x: "32 \<le> x" "x < 1024" using n(1) mod_less_divisor [of 64 n] 3 by linarith+
    show ?thesis
      by (rule three [of "x div 64" "x mod 64" "n mod 64"])
         (use n x mod_less_divisor [of 64 n] mod_less_divisor [of 64 x] in linarith)+
  next
    case 4
    define x where "x = n div 64"
    define y where "y = x div 64"
    have n: "n = x * 64 + n mod 64" "x = y * 64 + x mod 64" "y = y div 64 * 64 + y mod 64" by (simp_all add: x_def y_def)
    have x: "1024 \<le> x" "x < 32768" using n(1) mod_less_divisor [of 64 n] 4 assms by linarith+
    have y: "16 \<le> y" "y < 512" using n(2) mod_less_divisor [of 64 x] x by linarith+
    show ?thesis
      by (rule four [of "y div 64" "y mod 64" "x mod 64" "n mod 64"])
         (use n y mod_less_divisor [of 64 n] mod_less_divisor [of 64 x] mod_less_divisor [of 64 y] in linarith)+
  qed (rule one)
qed

lemma decode_in_numbers:
  "decodeUtf8Codepoint t =
     (if t = [] then None
      else
        let c0 = unat (t ! 0); c1 = unat (t ! 1); c2 = unat (t ! 2); c3 = unat (t ! 3) in
        if c0 < 128 then Some (ucast (t ! 0), 1)
        else if 194 \<le> c0 \<and> c0 < 224 \<and> 2 \<le> length t \<and> 128 \<le> c1 \<and> c1 < 192
        then Some (combine2 (t ! 0) (t ! 1), 2)
        else if 224 \<le> c0 \<and> c0 < 240 \<and> 3 \<le> length t \<and> 128 \<le> c1 \<and> c1 < 192 \<and> 128 \<le> c2 \<and> c2 < 192
          \<and> (c0 = 224 \<longrightarrow> 160 \<le> c1) \<and> (c0 = 237 \<longrightarrow> c1 < 160)
        then Some (combine3 (t ! 0) (t ! 1) (t ! 2), 3)
        else if 240 \<le> c0 \<and> c0 < 245 \<and> 4 \<le> length t \<and> 128 \<le> c1 \<and> c1 < 192 \<and> 128 \<le> c2 \<and> c2 < 192
          \<and> 128 \<le> c3 \<and> c3 < 192 \<and> (c0 = 240 \<longrightarrow> 144 \<le> c1) \<and> (c0 = 244 \<longrightarrow> c1 < 144)
        then Some (combine4 (t ! 0) (t ! 1) (t ! 2) (t ! 3), 4)
        else None)"
proof -
  let ?c = "unat (t ! 0)"
  consider "?c < 128" | "128 \<le> ?c" "?c < 194" | "194 \<le> ?c" "?c < 224" | "?c = 224" | "225 \<le> ?c" "?c < 237"
    | "?c = 237" | "238 \<le> ?c" "?c < 240" | "?c = 240" | "241 \<le> ?c" "?c < 244" | "?c = 244" | "245 \<le> ?c"
    by linarith
  then show ?thesis
    by cases (simp_all add: decodeUtf8Codepoint_def Let_def unat_is in_numbers not_le not_less)
qed

lemma scalar_numbers: "scalar cp = cp \<longleftrightarrow> unat cp < 1114112 \<and> \<not> (55296 \<le> unat cp \<and> unat cp < 57344)"
  by (simp add: scalar_def UNICODE_MAX_def word_le_nat_alt word_less_nat_alt word_eq_unat) linarith

lemma take_units:
  "2 \<le> length t \<Longrightarrow> take 2 t = [t ! 0, t ! 1]"
  "3 \<le> length t \<Longrightarrow> take 3 t = [t ! 0, t ! 1, t ! 2]"
  "4 \<le> length t \<Longrightarrow> take 4 t = [t ! 0, t ! 1, t ! 2, t ! 3]"
  by (simp_all add: list_eq_iff_nth_eq less_Suc_eq numeral_2_eq_2 numeral_3_eq_3 eval_nat_numeral)

lemma offset_mod:
  fixes n :: nat
  shows "192 \<le> n \<Longrightarrow> n < 224 \<Longrightarrow> n mod 32 = n - 192" "224 \<le> n \<Longrightarrow> n < 240 \<Longrightarrow> n mod 16 = n - 224"
    "240 \<le> n \<Longrightarrow> n < 248 \<Longrightarrow> n mod 8 = n - 240" "128 \<le> n \<Longrightarrow> n < 192 \<Longrightarrow> n mod 64 = n - 128"
proof -
  have shift: "n mod d = n - k" if "k mod d = 0" "k \<le> n" "n < k + d" for k d :: nat
  proof -
    have "n mod d = (n - k + k) mod d" using that by simp
    also have "\<dots> = (n - k) mod d" using that(1) by (metis add.right_neutral mod_add_right_eq)
    also have "\<dots> = n - k" using that by simp
    finally show ?thesis .
  qed
  show "192 \<le> n \<Longrightarrow> n < 224 \<Longrightarrow> n mod 32 = n - 192" "224 \<le> n \<Longrightarrow> n < 240 \<Longrightarrow> n mod 16 = n - 224"
    "240 \<le> n \<Longrightarrow> n < 248 \<Longrightarrow> n mod 8 = n - 240" "128 \<le> n \<Longrightarrow> n < 192 \<Longrightarrow> n mod 64 = n - 128"
    by (rule shift; simp)+
qed

lemma decode_SomeD:
  assumes "decodeUtf8Codepoint t = Some (cp, n)"
  shows "scalar cp = cp \<and> n \<le> length t \<and> map unat (take n t) = numbers (unat cp)"
proof -
  let ?c = "\<lambda>i. unat (t ! i)"
  from assms consider
      (one) "t \<noteq> []" "?c 0 < 128" "cp = ucast (t ! 0)" "n = 1"
    | (two) "194 \<le> ?c 0" "?c 0 < 224" "2 \<le> length t" "128 \<le> ?c 1" "?c 1 < 192"
        "cp = combine2 (t ! 0) (t ! 1)" "n = 2"
    | (three) "224 \<le> ?c 0" "?c 0 < 240" "3 \<le> length t" "128 \<le> ?c 1" "?c 1 < 192" "128 \<le> ?c 2" "?c 2 < 192"
        "?c 0 = 224 \<longrightarrow> 160 \<le> ?c 1" "?c 0 = 237 \<longrightarrow> ?c 1 < 160" "cp = combine3 (t ! 0) (t ! 1) (t ! 2)" "n = 3"
    | (four) "240 \<le> ?c 0" "?c 0 < 245" "4 \<le> length t" "128 \<le> ?c 1" "?c 1 < 192" "128 \<le> ?c 2" "?c 2 < 192"
        "128 \<le> ?c 3" "?c 3 < 192" "?c 0 = 240 \<longrightarrow> 144 \<le> ?c 1" "?c 0 = 244 \<longrightarrow> ?c 1 < 144"
        "cp = combine4 (t ! 0) (t ! 1) (t ! 2) (t ! 3)" "n = 4"
    unfolding decode_in_numbers Let_def
    by (simp only: split: if_splits) (simp_all only: option.inject prod.inject option.distinct simp_thms)
  then show ?thesis
  proof cases
    case one
    have u: "unat cp = ?c 0" unfolding one by (rule unat_ucast_u8) simp
    then show ?thesis using one by (simp add: scalar_numbers take_Suc hd_conv_nth Suc_le_eq numbers_split)
  next
    case two
    obtain a b where ab: "?c 0 = 192 + a" "?c 1 = 128 + b" 
      by (rule that [of "?c 0 - 192" "?c 1 - 128"]) (use two in auto)
    have u: "unat cp = a * 64 + b" using two by (simp add: combine_unat offset_mod ab del: One_nat_def)
    have "numbers (unat cp) = [192 + a, 128 + b]" unfolding u by (rule numbers_split) (use two ab in auto)
    then show ?thesis using two(1-5) ab by (simp add: two(7) scalar_numbers u take_units)
  next
    case three
    obtain a b c where abc: "?c 0 = 224 + a" "?c 1 = 128 + b" "?c 2 = 128 + c"
      by (rule that [of "?c 0 - 224" "?c 1 - 128" "?c 2 - 128"]) (use three in auto)
    have u: "unat cp = a * 4096 + b * 64 + c" using three by (simp add: combine_unat offset_mod abc del: One_nat_def)
    have "numbers (unat cp) = [224 + a, 128 + b, 128 + c]" unfolding u
      by (rule numbers_split) (use three abc in auto)
    moreover have "a \<le> 12 \<or> a = 13 \<or> 14 \<le> a" by linarith
    then have "scalar cp = cp" unfolding scalar_numbers u using three(1-9) abc by (elim disjE) simp_all
    ultimately show ?thesis using three(3) abc by (simp add: three(11) take_units)
  next
    case four
    obtain a b c d where abc: "?c 0 = 240 + a" "?c 1 = 128 + b" "?c 2 = 128 + c" "?c 3 = 128 + d"
      by (rule that [of "?c 0 - 240" "?c 1 - 128" "?c 2 - 128" "?c 3 - 128"]) (use four in auto)
    have u: "unat cp = a * 262144 + b * 4096 + c * 64 + d" using four by (simp add: combine_unat offset_mod abc del: One_nat_def)
    have "numbers (unat cp) = [240 + a, 128 + b, 128 + c, 128 + d]" unfolding u
      by (rule numbers_split) (use four abc in auto)
    then show ?thesis using four(1-11) abc by (auto simp: four(13) scalar_numbers u take_units)
  qed
qed

lemma decode_SomeI:
  assumes "scalar cp = cp" "map unat (take n t) = numbers (unat cp)" "n = length (numbers (unat cp))"
  shows "decodeUtf8Codepoint t = Some (cp, n)"
proof -
  let ?c = "\<lambda>i. unat (t ! i)"
  have s: "unat cp < 1114112" "\<not> (55296 \<le> unat cp \<and> unat cp < 57344)" using assms(1) by (simp_all add: scalar_numbers)
  have len: "n \<le> length t" using assms(2,3) by (metis length_map length_take min.absorb_iff2)
  have "unat cp < 2097152" using s by simp
  then show ?thesis
  proof (cases rule: numbers_cases)
    case one
    then have n: "n = 1" using assms(3) by (simp add: numbers_split)
    with len have ne: "t \<noteq> []" by auto
    have c: "?c 0 = unat cp" using assms(2) ne one by (simp add: n take_Suc hd_conv_nth numbers_split)
    have "(ucast (t ! 0) :: u32) = cp" using c by (simp add: word_eq_unat unat_ucast_u8)
    then show ?thesis using ne one by (simp add: decode_in_numbers c n)
  next
    case (two a b)
    have ns: "numbers (unat cp) = [192 + a, 128 + b]" unfolding two(1) by (rule numbers_split) (use two in auto)
    then have n: "n = 2" using assms(3) by simp
    have c: "?c 0 = 192 + a" "?c 1 = 128 + b" "t \<noteq> []" using assms(2) len by (auto simp: ns n take_units)
    have "combine2 (t ! 0) (t ! 1) = cp"
      using two by (simp add: word_eq_unat combine_unat c offset_mod del: One_nat_def)
    then show ?thesis using len two c by (simp add: decode_in_numbers n del: One_nat_def)
  next
    case (three a b c)
    have ns: "numbers (unat cp) = [224 + a, 128 + b, 128 + c]" unfolding three(1)
      by (rule numbers_split) (use three in auto)
    then have n: "n = 3" using assms(3) by simp
    have c: "?c 0 = 224 + a" "?c 1 = 128 + b" "?c 2 = 128 + c" "t \<noteq> []" using assms(2) len by (auto simp: ns n take_units)
    have "combine3 (t ! 0) (t ! 1) (t ! 2) = cp"
      using three by (simp add: word_eq_unat combine_unat c offset_mod del: One_nat_def)
    moreover have "a = 0 \<longrightarrow> 32 \<le> b" "a = 13 \<longrightarrow> b < 32" using three s by auto
    ultimately show ?thesis using len three c by (simp add: decode_in_numbers n del: One_nat_def)
  next
    case (four a b c d)
    have ns: "numbers (unat cp) = [240 + a, 128 + b, 128 + c, 128 + d]" unfolding four(1)
      by (rule numbers_split) (use four in auto)
    then have n: "n = 4" using assms(3) by simp
    have c: "?c 0 = 240 + a" "?c 1 = 128 + b" "?c 2 = 128 + c" "?c 3 = 128 + d" "t \<noteq> []"
      using assms(2) len by (auto simp: ns n take_units)
    have "combine4 (t ! 0) (t ! 1) (t ! 2) (t ! 3) = cp"
      using four by (simp add: word_eq_unat combine_unat c offset_mod del: One_nat_def)
    moreover have "a < 5" "a = 0 \<longrightarrow> 16 \<le> b" "a = 4 \<longrightarrow> b < 16" using four s by auto
    ultimately show ?thesis using len four c by (simp add: decode_in_numbers n del: One_nat_def)
  qed
qed

lemma map_unat_inj: "map unat ws = map unat vs \<Longrightarrow> ws = vs"
  by (rule map_injective [OF _ injI]) (simp_all add: word_eq_unat)

lemma scalar_idem: "scalar (scalar cp) = scalar cp"
  by (simp add: scalar_def UNICODE_MAX_def)

lemma encode_scalar: "encodeUtf8Codepoint (scalar cp) = encodeUtf8Codepoint cp"
  by (rule map_unat_inj) (simp add: encode_numbers scalar_idem)

lemma decode_encoded: "decodeUtf8Codepoint (encodeUtf8Codepoint cp @ rest) = Some (scalar cp, length (encodeUtf8Codepoint cp))"
proof (rule decode_SomeI)
  show "length (encodeUtf8Codepoint cp) = length (numbers (unat (scalar cp)))"
    by (metis encode_numbers length_map)
qed (simp_all only: scalar_idem take_append encode_numbers diff_self_eq_0 take0 take_all order_refl append_Nil2)

lemma encode_decoded:
  assumes "decodeUtf8Codepoint t = Some (cp, n)" shows "take n t = encodeUtf8Codepoint cp"
  using decode_SomeD [OF assms] encode_numbers [of cp] by (intro map_unat_inj) simp

lemma valid_in_numbers:
  "isValidUtf8Bytes t =
     (if t = [] then True
      else
        let c0 = unat (t ! 0); c1 = unat (t ! 1); c2 = unat (t ! 2); c3 = unat (t ! 3) in
        if c0 < 128 then isValidUtf8Bytes (drop 1 t)
        else if 194 \<le> c0 \<and> c0 < 224 \<and> 2 \<le> length t \<and> 128 \<le> c1 \<and> c1 < 192
        then isValidUtf8Bytes (drop 2 t)
        else if 224 \<le> c0 \<and> c0 < 240 \<and> 3 \<le> length t \<and> 128 \<le> c1 \<and> c1 < 192 \<and> 128 \<le> c2 \<and> c2 < 192
          \<and> (c0 = 224 \<longrightarrow> 160 \<le> c1) \<and> (c0 = 237 \<longrightarrow> c1 < 160)
        then isValidUtf8Bytes (drop 3 t)
        else if 240 \<le> c0 \<and> c0 < 245 \<and> 4 \<le> length t \<and> 128 \<le> c1 \<and> c1 < 192 \<and> 128 \<le> c2 \<and> c2 < 192
          \<and> 128 \<le> c3 \<and> c3 < 192 \<and> (c0 = 240 \<longrightarrow> 144 \<le> c1) \<and> (c0 = 244 \<longrightarrow> c1 < 144)
        then isValidUtf8Bytes (drop 4 t)
        else False)"
proof -
  let ?c = "unat (t ! 0)"
  consider "?c < 128" | "128 \<le> ?c" "?c < 194" | "194 \<le> ?c" "?c < 224" | "?c = 224" | "225 \<le> ?c" "?c < 237"
    | "?c = 237" | "238 \<le> ?c" "?c < 240" | "?c = 240" | "241 \<le> ?c" "?c < 244" | "?c = 244" | "245 \<le> ?c"
    by linarith
  then show ?thesis
    by cases (simp_all add: isValidUtf8Bytes.simps [of t] Let_def unat_is in_numbers not_le not_less)
qed

lemma case_of_ifs:
  "(if e then True else if a1 then v n1 else if a2 then v n2 else if a3 then v n3 else if a4 then v n4 else False)
   = (if e then True
      else case (if e then None else if a1 then Some (c1, n1) else if a2 then Some (c2, n2)
                 else if a3 then Some (c3, n3) else if a4 then Some (c4, n4) else None) of
             None \<Rightarrow> False | Some (c, n) \<Rightarrow> v n)"
  by simp

lemma valid_unfold:
  "isValidUtf8Bytes t =
     (if t = [] then True
      else case decodeUtf8Codepoint t of None \<Rightarrow> False | Some (cp, n) \<Rightarrow> isValidUtf8Bytes (drop n t))"
  unfolding valid_in_numbers [of t] decode_in_numbers Let_def by (rule case_of_ifs)

subsection \<open>Texts and code points\<close>

definition encode_all :: "u32 list \<Rightarrow> byte list" where
  "encode_all cps = concat (map encodeUtf8Codepoint cps)"

lemma encode_all_simps [simp]:
  "encode_all [] = []" "encode_all (cp # cps) = encodeUtf8Codepoint cp @ encode_all cps"
  by (simp_all add: encode_all_def)

lemma encode_ne [simp]: "encodeUtf8Codepoint cp \<noteq> []"
  by (auto simp: encodeUtf8Codepoint_def Let_def)

lemma encode_all_Nil [simp]: "encode_all cps = [] \<longleftrightarrow> cps = []"
  by (cases cps) auto

lemma valid_encode_all: "isValidUtf8Bytes (encode_all cps)"
  by (induction cps) (subst valid_unfold, simp add: decode_encoded)+

lemma valid_is_encoding: "isValidUtf8Bytes t \<Longrightarrow> \<exists>cps. t = encode_all cps"
proof (induction "length t" arbitrary: t rule: less_induct)
  case less
  show ?case
  proof (cases "t = []")
    case False
    with less.prems obtain cp n where d: "decodeUtf8Codepoint t = Some (cp, n)" and v: "isValidUtf8Bytes (drop n t)"
      by (subst (asm) valid_unfold) (auto split: option.splits)
    have "length (drop n t) < length t" using decode_advance [OF d] False by simp
    from less.hyps [OF this v] obtain cps where "drop n t = encode_all cps" by blast
    then have "t = encode_all (cp # cps)"
      using encode_decoded [OF d] append_take_drop_id [of n t] by simp
    then show ?thesis by blast
  qed (auto intro: exI [of _ "[]"])
qed

lemma count_encode_all: "count_from (encode_all cps) = Some (length cps)"
  by (induction cps) (subst count_from.simps, simp add: decode_encoded)+

lemma offset_encode_all:
  "offset_from (encode_all cps) n k = Some (k + length (encode_all (take n cps)))"
proof (induction n arbitrary: cps k)
  case (Suc n)
  then show ?case by (cases cps) (simp_all add: decode_encoded)
qed simp

text \<open>Decoding the bytes of a code point, whatever follows them, gives the code point back and
  consumes exactly them; a surrogate or a number above \<open>U+10FFFF\<close> comes back as \<open>U+FFFD\<close>.\<close>

theorem utf8_roundtrip:
  "decodeUtf8Codepoint (encodeUtf8Codepoint cp @ rest) = Some (scalar cp, length (encodeUtf8Codepoint cp))"
  by (rule decode_encoded)

text \<open>C33: A byte string is valid UTF-8 exactly if it is the concatenated encoding of some code points:
  no overlong form, surrogate or truncated sequence is accepted, and nothing else is refused.\<close>

theorem valid_iff_encoding: "isValidUtf8Bytes t \<longleftrightarrow> (\<exists>cps. t = concat (map encodeUtf8Codepoint cps))"
  using valid_encode_all valid_is_encoding by (auto simp: encode_all_def)

text \<open>In the encoding of a list of code points, the count is the length of the list, and the n-th
  code point starts right after the encoding of the first n.\<close>

lemma codepoints_indexed:
  "utf8CodepointCount (concat (map encodeUtf8Codepoint cps)) = length cps \<and>
   utf8ByteOffsetForCodepointIndex (concat (map encodeUtf8Codepoint cps)) n
     = length (concat (map encodeUtf8Codepoint (take n cps)))"
  using count_encode_all [of cps] offset_encode_all [of cps n 0]
  unfolding utf8CodepointCount_def utf8ByteOffsetForCodepointIndex_def encode_all_def [symmetric] by auto

subsection \<open>Characters and output\<close>


subsection \<open>Characters and output\<close>

lemma cp437_length: "length kCp437ToUnicode = 128"
  by (simp add: kCp437ToUnicode_def)

lemma cp437_range: "list_all (\<lambda>cp. 0xA0 \<le> cp \<and> cp < 0xD800) kCp437ToUnicode"
  by (simp add: kCp437ToUnicode_def)

lemma cp437_distinct: "distinct kCp437ToUnicode"
proof -
  have "distinct (map unat kCp437ToUnicode)" by (simp add: kCp437ToUnicode_def)
  then show ?thesis by (simp add: distinct_map)
qed

lemma cp437_nth: "n < 128 \<Longrightarrow> 160 \<le> unat (kCp437ToUnicode ! n) \<and> unat (kCp437ToUnicode ! n) < 55296"
  using cp437_range by (simp add: list_all_length cp437_length word_le_nat_alt word_less_nat_alt)

text \<open>A byte as a character.\<close>

definition byte_codepoint :: "byte \<Rightarrow> u32" where
  "byte_codepoint b = (if unat b < 128 then ucast b else kCp437ToUnicode ! (unat b - 128))"

lemma pascal_char_byte: "pascal_char_codepoint (uint b) = byte_codepoint b"
proof -
  have u: "uint b = int (unat b)" by simp
  have w: "word_of_nat (unat b) = (ucast b :: u32)" by simp
  have "nat (int n - 128) = n - 128" for n by simp
  note n = this [of "unat b"]
  show ?thesis using unat_u8_bound [of b] unfolding pascal_char_codepoint_def byte_codepoint_def u
    by (auto simp: w n simp del: of_nat_unat)
qed

lemma unat_byte_codepoint:
  "unat b < 128 \<Longrightarrow> unat (byte_codepoint b) = unat b"
  "128 \<le> unat b \<Longrightarrow> 160 \<le> unat (byte_codepoint b) \<and> unat (byte_codepoint b) < 55296"
  using cp437_nth [of "unat b - 128"] unat_u8_bound [of b]
  by (simp_all add: byte_codepoint_def unat_ucast_u8)

lemma byte_codepoint_scalar: "scalar (byte_codepoint b) = byte_codepoint b"
  using unat_byte_codepoint [of b] unfolding scalar_numbers by linarith

lemma byte_codepoint_inj: "byte_codepoint a = byte_codepoint b \<Longrightarrow> a = b"
proof -
  assume eq: "byte_codepoint a = byte_codepoint b"
  consider "unat a < 128" "unat b < 128" | "128 \<le> unat a" "128 \<le> unat b"
    | "unat a < 128" "128 \<le> unat b" | "128 \<le> unat a" "unat b < 128" by linarith
  then show ?thesis
  proof cases
    case 2
    then have "unat a - 128 = unat b - 128"
      using eq cp437_distinct unat_u8_bound [of a] unat_u8_bound [of b]
      by (simp add: byte_codepoint_def nth_eq_iff_index_eq cp437_length)
    then show ?thesis using 2 by (simp add: word_eq_unat)
  qed (use eq unat_byte_codepoint [of a] unat_byte_codepoint [of b] in \<open>simp_all add: word_eq_unat\<close>)
qed

lemma encode_all_inj:
  "encode_all (map scalar as) = encode_all (map scalar bs) \<Longrightarrow> map scalar as = map scalar bs"
proof (induction as arbitrary: bs)
  case (Cons a as)
  then obtain b bs' where bs: "bs = b # bs'" by (cases bs) auto
  have enc: "encodeUtf8Codepoint a @ encode_all (map scalar as) = encodeUtf8Codepoint b @ encode_all (map scalar bs')"
    using Cons.prems by (simp add: bs encode_scalar)
  then have "decodeUtf8Codepoint (encodeUtf8Codepoint a @ encode_all (map scalar as))
      = decodeUtf8Codepoint (encodeUtf8Codepoint b @ encode_all (map scalar bs'))" by simp
  then have ab: "scalar a = scalar b" by (simp add: decode_encoded)
  then have "encodeUtf8Codepoint a = encodeUtf8Codepoint b" by (metis encode_scalar)
  with enc have "encode_all (map scalar as) = encode_all (map scalar bs')" by simp
  from Cons.IH [OF this] show ?case using ab by (simp add: bs)
qed (simp add: eq_commute [of "[]"])

lemma converted: "concat (map (\<lambda>b. encodePascalCharUtf8 (uint b)) t) = encode_all (map byte_codepoint t)"
  by (simp add: encode_all_def encodePascalCharUtf8_def pascal_char_byte comp_def)

lemma map_scalar_bytes: "map scalar (map byte_codepoint t) = map byte_codepoint t"
  by (simp add: byte_codepoint_scalar)

text \<open>What \<open>writePascalText\<close> writes is always valid UTF-8; a valid text is written unchanged, and
  two different texts that are not valid are never written alike: the 256 characters have different
  encodings.\<close>

lemma written_text_valid:
  "isValidUtf8Bytes (writePascalText t) \<and> (isValidUtf8Bytes t \<longrightarrow> writePascalText t = t)
   \<and> inj_on writePascalText {t. \<not> isValidUtf8Bytes t}"
proof (intro conjI inj_onI)
  show "isValidUtf8Bytes (writePascalText t)"
    using valid_encode_all [of "[]"] by (auto simp: writePascalText_def converted valid_encode_all)
  show "isValidUtf8Bytes t \<longrightarrow> writePascalText t = t" by (simp add: writePascalText_def)
next
  fix s t assume "s \<in> {t. \<not> isValidUtf8Bytes t}" "t \<in> {t. \<not> isValidUtf8Bytes t}" "writePascalText s = writePascalText t"
  then have "encode_all (map scalar (map byte_codepoint s)) = encode_all (map scalar (map byte_codepoint t))"
    using valid_encode_all [of "[]"] unfolding map_scalar_bytes by (auto simp: writePascalText_def converted split: if_splits)
  from encode_all_inj [OF this] have "map byte_codepoint s = map byte_codepoint t" by (simp only: map_scalar_bytes)
  then show "s = t" by (rule map_injective [OF _ injI]) (rule byte_codepoint_inj)
qed

lemma written_text_valid_witness:
  "isValidUtf8Bytes [0x41, 0xC3, 0xA9] \<and> writePascalText [0x41, 0xC3, 0xA9] = [0x41, 0xC3, 0xA9]"
  using written_text_valid [of "[0x41, 0xC3, 0xA9]"] by (simp add: isValidUtf8Bytes.simps)

text \<open>On a text with an invalid byte after a valid code point the count falls back to bytes while the
  offset of a position before the invalid byte stays that of a code point, so offsets are not monotone:
  position 2 lies before position 1, and a length taken as their difference is negative.\<close>

lemma offsets_not_monotone:
  "utf8CodepointCount [0xF0, 0x9F, 0x98, 0x80, 0xFF] = 5
   \<and> utf8ByteOffsetForCodepointIndex [0xF0, 0x9F, 0x98, 0x80, 0xFF] 1 = 4
   \<and> utf8ByteOffsetForCodepointIndex [0xF0, 0x9F, 0x98, 0x80, 0xFF] 2 = 2"
  by code_simp

subsection \<open>Identifiers\<close>

definition ident_ends :: "bool \<Rightarrow> byte list \<Rightarrow> bool" where
  "ident_ends h rest =
     (case decodeUtf8Codepoint rest of
        None \<Rightarrow> True | Some (cp, n) \<Rightarrow> \<not> isShellIdentifierContinueCodepoint cp h)"

lemma decode_Nil [simp]: "decodeUtf8Codepoint [] = None"
  by (simp add: decodeUtf8Codepoint_def)

lemma consume_rest_spec:
  "\<exists>cps rest. t = encode_all cps @ rest \<and> consume_rest h t k = k + length (encode_all cps)
     \<and> list_all (\<lambda>cp. isShellIdentifierContinueCodepoint cp h) cps \<and> ident_ends h rest"
proof (induction h t k rule: consume_rest.induct)
  case (1 h t k)
  show ?case
  proof (cases "ident_ends h t")
    case True
    then show ?thesis
      by (intro exI [of _ "[]"] exI [of _ t]) (auto simp: consume_rest.simps [of h t] ident_ends_def split: option.splits)
  next
    case False
    then obtain cp n where d: "decodeUtf8Codepoint t = Some (cp, n)" "isShellIdentifierContinueCodepoint cp h"
      by (auto simp: ident_ends_def split: option.splits)
    then have ne: "t \<noteq> []" by auto
    obtain cps rest where ih: "drop n t = encode_all cps @ rest"
      "consume_rest h (drop n t) (k + n) = k + n + length (encode_all cps)"
      "list_all (\<lambda>cp. isShellIdentifierContinueCodepoint cp h) cps" "ident_ends h rest"
      using 1 [OF ne d(1) refl] d(2) by blast
    have tk: "take n t = encodeUtf8Codepoint cp" by (rule encode_decoded [OF d(1)])
    have "length (encodeUtf8Codepoint cp) = n" using decode_advance [OF d(1)] by (simp flip: tk)
    then show ?thesis
      using ih d ne append_take_drop_id [of n t]
      by (intro exI [of _ "cp # cps"] exI [of _ rest]) (simp add: tk consume_rest.simps [of h t])
  qed
qed

text \<open>A shell identifier is consumed exactly as far as it goes: the bytes taken are the encoding of
  a start code point and of continuation code points, and what follows is the end of the text, a byte
  that starts no code point, or a code point that cannot continue it. A text is refused only when it
  starts with no such code point.\<close>

theorem identifier_consumed:
  "case consumeShellIdentifier t h of
     None \<Rightarrow> \<not> (\<exists>cp n. decodeUtf8Codepoint t = Some (cp, n) \<and> isShellIdentifierStartCodepoint cp)
   | Some n \<Rightarrow> \<exists>cp cps rest. t = concat (map encodeUtf8Codepoint (cp # cps)) @ rest
       \<and> n = length (concat (map encodeUtf8Codepoint (cp # cps)))
       \<and> isShellIdentifierStartCodepoint cp
       \<and> list_all (\<lambda>cp. isShellIdentifierContinueCodepoint cp h) cps \<and> ident_ends h rest"
proof (cases "\<exists>cp n. decodeUtf8Codepoint t = Some (cp, n) \<and> isShellIdentifierStartCodepoint cp")
  case True
  then obtain cp n where d: "decodeUtf8Codepoint t = Some (cp, n)" "isShellIdentifierStartCodepoint cp" by blast
  then have ne: "t \<noteq> []" by auto
  obtain cps rest where r: "drop n t = encode_all cps @ rest"
    "consume_rest h (drop n t) n = n + length (encode_all cps)"
    "list_all (\<lambda>cp. isShellIdentifierContinueCodepoint cp h) cps" "ident_ends h rest"
    using consume_rest_spec [of "drop n t" h n] by blast
  have tk: "take n t = encodeUtf8Codepoint cp" by (rule encode_decoded [OF d(1)])
  have "length (encodeUtf8Codepoint cp) = n" using decode_advance [OF d(1)] by (simp flip: tk)
  then show ?thesis
    unfolding encode_all_def [symmetric] using r d ne append_take_drop_id [of n t]
    by (auto simp: consumeShellIdentifier_def tk intro!: exI [of _ cp] exI [of _ cps] exI [of _ rest])
next
  case False
  then show ?thesis by (auto simp: consumeShellIdentifier_def split: option.splits)
qed

end
