(* ===== verification/Tagged.thy ===== *)
theory Tagged
  imports Chunk
begin

section \<open>Tagged words and reference counts\<close>

text \<open>
  The run-time representation of a value: \<open>core/obj_header.h\<close>, \<open>core/obj_header.c\<close> and the setters
  and getters of \<open>core/types.h\<close>. A value is a type code and a 64-bit word. The word is a double, or
  lies in the region of NaNs whose 13 top bits are \<open>PSCAL_NANBOX_HEADER\<close> and holds a 50-bit pointer
  or a kind and a 45-bit immediate; 64-bit integers are the word itself. C integers are their bit
  patterns: \<open>long long\<close> is a \<open>u64\<close> read by \<open>sint\<close>. A double or float is its bit pattern too;
  the conversions between floating-point formats and the boxed \<open>long double\<close> are not modelled.

  Heap objects are counted by \<open>ObjHeader\<close>. Each atomic operation is one step, so that what several
  threads do is some sequence of steps.
\<close>

subsection \<open>Words\<close>

definition PSCAL_NANBOX_HEADER_MASK :: u64 where "PSCAL_NANBOX_HEADER_MASK = push_bit 51 0x1FFF"
definition PSCAL_NANBOX_HEADER :: u64 where "PSCAL_NANBOX_HEADER = push_bit 51 0x0FFF"

definition pscalWordIsNanBoxTag :: "u64 \<Rightarrow> bool" where
  "pscalWordIsNanBoxTag bits \<longleftrightarrow> bits AND PSCAL_NANBOX_HEADER_MASK = PSCAL_NANBOX_HEADER"

definition pscalBoxDouble :: "u64 \<Rightarrow> u64" where
  "pscalBoxDouble bits = (if pscalWordIsNanBoxTag bits then bits OR push_bit 63 1 else bits)"

definition pscalUnboxDouble :: "u64 \<Rightarrow> u64" where
  "pscalUnboxDouble bits = bits"

definition pscalObjPointerFitsPayload :: "u64 \<Rightarrow> bool" where
  "pscalObjPointerFitsPayload ptr \<longleftrightarrow> drop_bit 50 ptr = 0"

abbreviation PSCAL_TAG_VOID :: u64 where "PSCAL_TAG_VOID \<equiv> 0"
abbreviation PSCAL_TAG_NIL :: u64 where "PSCAL_TAG_NIL \<equiv> 1"
abbreviation PSCAL_TAG_BOOLEAN :: u64 where "PSCAL_TAG_BOOLEAN \<equiv> 2"
abbreviation PSCAL_TAG_CHAR :: u64 where "PSCAL_TAG_CHAR \<equiv> 3"
abbreviation PSCAL_TAG_WIDECHAR :: u64 where "PSCAL_TAG_WIDECHAR \<equiv> 4"
abbreviation PSCAL_TAG_BYTE :: u64 where "PSCAL_TAG_BYTE \<equiv> 5"
abbreviation PSCAL_TAG_WORD :: u64 where "PSCAL_TAG_WORD \<equiv> 6"
abbreviation PSCAL_TAG_INT8 :: u64 where "PSCAL_TAG_INT8 \<equiv> 7"
abbreviation PSCAL_TAG_UINT8 :: u64 where "PSCAL_TAG_UINT8 \<equiv> 8"
abbreviation PSCAL_TAG_INT16 :: u64 where "PSCAL_TAG_INT16 \<equiv> 9"
abbreviation PSCAL_TAG_UINT16 :: u64 where "PSCAL_TAG_UINT16 \<equiv> 10"
abbreviation PSCAL_TAG_INT32 :: u64 where "PSCAL_TAG_INT32 \<equiv> 11"
abbreviation PSCAL_TAG_UINT32 :: u64 where "PSCAL_TAG_UINT32 \<equiv> 12"
abbreviation PSCAL_TAG_FLOAT :: u64 where "PSCAL_TAG_FLOAT \<equiv> 13"

definition PSCAL_TAG_DISCRIMINANT_BIT :: u64 where "PSCAL_TAG_DISCRIMINANT_BIT = push_bit 50 1"
definition PSCAL_TAG_POINTER_PAYLOAD_MASK :: u64 where "PSCAL_TAG_POINTER_PAYLOAD_MASK = push_bit 50 1 - 1"
definition PSCAL_TAG_KIND_MASK :: u64 where "PSCAL_TAG_KIND_MASK = push_bit 45 0x1F"
definition PSCAL_TAG_IMMEDIATE_PAYLOAD_MASK :: u64 where "PSCAL_TAG_IMMEDIATE_PAYLOAD_MASK = push_bit 45 1 - 1"

definition pscalTaggedWordIsPointer :: "u64 \<Rightarrow> bool" where
  "pscalTaggedWordIsPointer w \<longleftrightarrow> w AND PSCAL_TAG_DISCRIMINANT_BIT = 0"

definition pscalTagPointer :: "u64 \<Rightarrow> u64" where
  "pscalTagPointer addr = PSCAL_NANBOX_HEADER OR (addr AND PSCAL_TAG_POINTER_PAYLOAD_MASK)"

definition pscalUntagPointer :: "u64 \<Rightarrow> u64" where
  "pscalUntagPointer w = w AND PSCAL_TAG_POINTER_PAYLOAD_MASK"

definition pscalTagImmediate :: "u64 \<Rightarrow> u64 \<Rightarrow> u64" where
  "pscalTagImmediate kind raw_payload =
     (let kind_bits = push_bit 45 kind AND PSCAL_TAG_KIND_MASK;
          payload = raw_payload AND PSCAL_TAG_IMMEDIATE_PAYLOAD_MASK
      in PSCAL_NANBOX_HEADER OR PSCAL_TAG_DISCRIMINANT_BIT OR kind_bits OR payload)"

definition pscalTaggedWordKind :: "u64 \<Rightarrow> u64" where
  "pscalTaggedWordKind w = drop_bit 45 (w AND PSCAL_TAG_KIND_MASK)"

definition pscalTaggedWordPayload :: "u64 \<Rightarrow> u64" where
  "pscalTaggedWordPayload w = w AND PSCAL_TAG_IMMEDIATE_PAYLOAD_MASK"

subsection \<open>Immediates\<close>

definition pscalTagVoid :: u64 where "pscalTagVoid = pscalTagImmediate PSCAL_TAG_VOID 0"
definition pscalTagNil :: u64 where "pscalTagNil = pscalTagImmediate PSCAL_TAG_NIL 0"
definition pscalTagBoolean :: "bool \<Rightarrow> u64" where
  "pscalTagBoolean b = pscalTagImmediate PSCAL_TAG_BOOLEAN (if b then 1 else 0)"
definition pscalUntagBoolean :: "u64 \<Rightarrow> bool" where
  "pscalUntagBoolean w \<longleftrightarrow> pscalTaggedWordPayload w AND 1 \<noteq> 0"
definition pscalTagChar :: "u8 \<Rightarrow> u64" where "pscalTagChar c = pscalTagImmediate PSCAL_TAG_CHAR (ucast c)"
definition pscalUntagChar :: "u64 \<Rightarrow> u8" where "pscalUntagChar w = ucast (pscalTaggedWordPayload w)"
definition pscalTagWideChar :: "u32 \<Rightarrow> u64" where
  "pscalTagWideChar cp = pscalTagImmediate PSCAL_TAG_WIDECHAR (ucast cp)"
definition pscalUntagWideChar :: "u64 \<Rightarrow> u32" where "pscalUntagWideChar w = ucast (pscalTaggedWordPayload w)"
definition pscalTagByte :: "u8 \<Rightarrow> u64" where "pscalTagByte b = pscalTagImmediate PSCAL_TAG_BYTE (ucast b)"
definition pscalUntagByte :: "u64 \<Rightarrow> u8" where "pscalUntagByte w = ucast (pscalTaggedWordPayload w)"
definition pscalTagWord :: "u16 \<Rightarrow> u64" where "pscalTagWord w = pscalTagImmediate PSCAL_TAG_WORD (ucast w)"
definition pscalUntagWord :: "u64 \<Rightarrow> u16" where "pscalUntagWord w = ucast (pscalTaggedWordPayload w)"
definition pscalTagInt8 :: "u8 \<Rightarrow> u64" where "pscalTagInt8 v = pscalTagImmediate PSCAL_TAG_INT8 (ucast v)"
definition pscalUntagInt8 :: "u64 \<Rightarrow> u8" where "pscalUntagInt8 w = ucast (pscalTaggedWordPayload w)"
definition pscalTagUInt8 :: "u8 \<Rightarrow> u64" where "pscalTagUInt8 v = pscalTagImmediate PSCAL_TAG_UINT8 (ucast v)"
definition pscalUntagUInt8 :: "u64 \<Rightarrow> u8" where "pscalUntagUInt8 w = ucast (pscalTaggedWordPayload w)"
definition pscalTagInt16 :: "u16 \<Rightarrow> u64" where "pscalTagInt16 v = pscalTagImmediate PSCAL_TAG_INT16 (ucast v)"
definition pscalUntagInt16 :: "u64 \<Rightarrow> u16" where "pscalUntagInt16 w = ucast (pscalTaggedWordPayload w)"
definition pscalTagUInt16 :: "u16 \<Rightarrow> u64" where "pscalTagUInt16 v = pscalTagImmediate PSCAL_TAG_UINT16 (ucast v)"
definition pscalUntagUInt16 :: "u64 \<Rightarrow> u16" where "pscalUntagUInt16 w = ucast (pscalTaggedWordPayload w)"
definition pscalTagInt32 :: "u32 \<Rightarrow> u64" where "pscalTagInt32 v = pscalTagImmediate PSCAL_TAG_INT32 (ucast v)"
definition pscalUntagInt32 :: "u64 \<Rightarrow> u32" where "pscalUntagInt32 w = ucast (pscalTaggedWordPayload w)"
definition pscalTagUInt32 :: "u32 \<Rightarrow> u64" where "pscalTagUInt32 v = pscalTagImmediate PSCAL_TAG_UINT32 (ucast v)"
definition pscalUntagUInt32 :: "u64 \<Rightarrow> u32" where "pscalUntagUInt32 w = ucast (pscalTaggedWordPayload w)"
definition pscalTagFloat :: "u32 \<Rightarrow> u64" where "pscalTagFloat bits = pscalTagImmediate PSCAL_TAG_FLOAT (ucast bits)"
definition pscalUntagFloat :: "u64 \<Rightarrow> u32" where "pscalUntagFloat w = ucast (pscalTaggedWordPayload w)"

subsection \<open>Values\<close>

record ValueStruct =
  vs_type :: u8
  vs_bits :: u64

definition int_bits :: "u8 \<Rightarrow> u64 \<Rightarrow> u64 \<Rightarrow> u64" where
  "int_bits t val old =
     (if t = TYPE_BOOLEAN then pscalTagBoolean (val \<noteq> 0)
      else if t = TYPE_CHAR then pscalTagChar (ucast val)
      else if t = TYPE_WIDECHAR then pscalTagWideChar (ucast val)
      else if t = TYPE_BYTE then pscalTagByte (ucast val)
      else if t = TYPE_WORD then pscalTagWord (ucast val)
      else if t = TYPE_INT8 then pscalTagInt8 (ucast val)
      else if t = TYPE_UINT8 then pscalTagUInt8 (ucast val)
      else if t = TYPE_INT16 then pscalTagInt16 (ucast val)
      else if t = TYPE_UINT16 then pscalTagUInt16 (ucast val)
      else if t = TYPE_INT32 then pscalTagInt32 (ucast val)
      else if t = TYPE_UINT32 then pscalTagUInt32 (ucast val)
      else if t = TYPE_THREAD then pscalTagInt32 (ucast val)
      else if t = TYPE_INT64 \<or> t = TYPE_UINT64 then val
      else old)"

definition pscalValueSetIntBits :: "ValueStruct \<Rightarrow> u64 \<Rightarrow> ValueStruct" where
  "pscalValueSetIntBits dest val = dest\<lparr>vs_bits := int_bits (vs_type dest) val (vs_bits dest)\<rparr>"

definition pscalValueSetCharBits :: "ValueStruct \<Rightarrow> u32 \<Rightarrow> ValueStruct" where
  "pscalValueSetCharBits dest val =
     (if vs_type dest = TYPE_WIDECHAR then dest\<lparr>vs_bits := pscalTagWideChar val\<rparr>
      else dest\<lparr>vs_bits := pscalTagChar (ucast val)\<rparr>)"

definition pscalValueSetHeapPtrBits :: "ValueStruct \<Rightarrow> u64 \<Rightarrow> ValueStruct" where
  "pscalValueSetHeapPtrBits dest ptr = dest\<lparr>vs_bits := pscalTagPointer ptr\<rparr>"

definition pscalValueResetBitsForType :: "ValueStruct \<Rightarrow> u8 \<Rightarrow> ValueStruct" where
  "pscalValueResetBitsForType dest t = dest\<lparr>vs_bits :=
     (if t = TYPE_VOID then pscalTagVoid
      else if t = TYPE_NIL then pscalTagNil
      else if t = TYPE_BOOLEAN then pscalTagBoolean False
      else if t = TYPE_CHAR then pscalTagChar 0
      else if t = TYPE_WIDECHAR then pscalTagWideChar 0
      else if t = TYPE_BYTE then pscalTagByte 0
      else if t = TYPE_WORD then pscalTagWord 0
      else if t = TYPE_INT8 then pscalTagInt8 0
      else if t = TYPE_UINT8 then pscalTagUInt8 0
      else if t = TYPE_INT16 then pscalTagInt16 0
      else if t = TYPE_UINT16 then pscalTagUInt16 0
      else if t = TYPE_INT32 then pscalTagInt32 0
      else if t = TYPE_UINT32 then pscalTagUInt32 0
      else if t = TYPE_FLOAT then pscalTagFloat 0
      else if t = TYPE_DOUBLE then pscalBoxDouble 0
      else if t = TYPE_THREAD then pscalTagInt32 0
      else if t = TYPE_INT64 \<or> t = TYPE_UINT64 then 0
      else if t \<in> {TYPE_STRING, TYPE_UNICODE_STRING, TYPE_ARRAY, TYPE_RECORD, TYPE_FILE, TYPE_ENUM,
                   TYPE_POINTER, TYPE_SET, TYPE_MEMORYSTREAM, TYPE_LONG_DOUBLE, TYPE_CLOSURE,
                   TYPE_INTERFACE, TYPE_TASK}
      then pscalTagPointer 0
      else 0)\<rparr>"

definition SET_VALUE_TYPE :: "ValueStruct \<Rightarrow> u8 \<Rightarrow> ValueStruct" where
  "SET_VALUE_TYPE dest t =
     (if vs_type dest \<noteq> t then pscalValueResetBitsForType (dest\<lparr>vs_type := t\<rparr>) t else dest)"

definition pscalValueDecodeInt :: "ValueStruct \<Rightarrow> u64" where
  "pscalValueDecodeInt v =
     (let t = vs_type v; b = vs_bits v in
      if t = TYPE_BOOLEAN then (if pscalUntagBoolean b then 1 else 0)
      else if t = TYPE_CHAR then ucast (pscalUntagChar b)
      else if t = TYPE_WIDECHAR then ucast (pscalUntagWideChar b)
      else if t = TYPE_BYTE then ucast (pscalUntagByte b)
      else if t = TYPE_WORD then ucast (pscalUntagWord b)
      else if t = TYPE_INT8 then scast (pscalUntagInt8 b)
      else if t = TYPE_UINT8 then ucast (pscalUntagUInt8 b)
      else if t = TYPE_INT16 then scast (pscalUntagInt16 b)
      else if t = TYPE_UINT16 then ucast (pscalUntagUInt16 b)
      else if t = TYPE_INT32 then scast (pscalUntagInt32 b)
      else if t = TYPE_UINT32 then ucast (pscalUntagUInt32 b)
      else if t = TYPE_THREAD then scast (pscalUntagInt32 b)
      else if t = TYPE_INT64 \<or> t = TYPE_UINT64 then b
      else 0)"

definition pscalValueDecodeUInt :: "ValueStruct \<Rightarrow> u64" where
  "pscalValueDecodeUInt v =
     (let t = vs_type v; b = vs_bits v in
      if t = TYPE_BOOLEAN then (if pscalUntagBoolean b then 1 else 0)
      else if t = TYPE_CHAR then ucast (pscalUntagChar b)
      else if t = TYPE_WIDECHAR then ucast (pscalUntagWideChar b)
      else if t = TYPE_BYTE then ucast (pscalUntagByte b)
      else if t = TYPE_WORD then ucast (pscalUntagWord b)
      else if t = TYPE_INT8 then scast (pscalUntagInt8 b)
      else if t = TYPE_UINT8 then ucast (pscalUntagUInt8 b)
      else if t = TYPE_INT16 then scast (pscalUntagInt16 b)
      else if t = TYPE_UINT16 then ucast (pscalUntagUInt16 b)
      else if t = TYPE_INT32 then scast (pscalUntagInt32 b)
      else if t = TYPE_UINT32 then ucast (pscalUntagUInt32 b)
      else if t = TYPE_THREAD then scast (pscalUntagInt32 b)
      else if t = TYPE_INT64 \<or> t = TYPE_UINT64 then b
      else 0)"

subsection \<open>Words keep their kind and payload\<close>

lemmas word_parts = PSCAL_NANBOX_HEADER_MASK_def PSCAL_NANBOX_HEADER_def PSCAL_TAG_DISCRIMINANT_BIT_def
  PSCAL_TAG_POINTER_PAYLOAD_MASK_def PSCAL_TAG_KIND_MASK_def PSCAL_TAG_IMMEDIATE_PAYLOAD_MASK_def

lemma masks: "push_bit 50 1 - 1 = (mask 50 :: u64)" "push_bit 45 1 - 1 = (mask 45 :: u64)"
  "(0x1FFF :: u64) = mask 13" "(0x0FFF :: u64) = mask 12" "(0x1F :: u64) = mask 5"
  by (simp_all add: mask_eq_exp_minus_1)

lemma bit_push_mask: "bit (push_bit k (mask m) :: u64) n \<longleftrightarrow> k \<le> n \<and> n < k + m \<and> n < 64"
  by (auto simp: bit_push_bit_iff bit_mask_iff)

lemma bit_push_one: "k < 64 \<Longrightarrow> bit (push_bit k 1 :: u64) n \<longleftrightarrow> n = k"
  by (auto simp: bit_push_bit_iff bit_1_iff simp del: push_bit_of_1)

lemma bit_masks:
  "bit (mask k :: u64) n \<longleftrightarrow> n < k \<and> n < 64"
  by (auto simp: bit_mask_iff)

lemma bit_parts:
  "bit PSCAL_NANBOX_HEADER_MASK n \<longleftrightarrow> 51 \<le> n \<and> n < 64"
  "bit PSCAL_NANBOX_HEADER n \<longleftrightarrow> 51 \<le> n \<and> n < 63"
  "bit PSCAL_TAG_DISCRIMINANT_BIT n \<longleftrightarrow> n = 50"
  "bit PSCAL_TAG_POINTER_PAYLOAD_MASK n \<longleftrightarrow> n < 50"
  "bit PSCAL_TAG_KIND_MASK n \<longleftrightarrow> 45 \<le> n \<and> n < 50"
  "bit PSCAL_TAG_IMMEDIATE_PAYLOAD_MASK n \<longleftrightarrow> n < 45"
  unfolding word_parts masks bit_push_mask bit_masks by (auto simp: bit_push_one simp del: push_bit_of_1)

lemma word_eq_bits: "(w :: u64) = v \<longleftrightarrow> (\<forall>n. bit w n = bit v n)"
  using bit_eqI [of w v] by auto

lemma is_tag_iff: "pscalWordIsNanBoxTag b \<longleftrightarrow> \<not> bit b 63 \<and> (\<forall>n. 51 \<le> n \<longrightarrow> n < 63 \<longrightarrow> bit b n)"
proof -
  have "bit (b AND PSCAL_NANBOX_HEADER_MASK) n = bit PSCAL_NANBOX_HEADER n \<longleftrightarrow>
      (n = 63 \<longrightarrow> \<not> bit b n) \<and> (51 \<le> n \<longrightarrow> n < 63 \<longrightarrow> bit b n)" for n
    by (cases n "63 :: nat" rule: linorder_cases) (auto simp: bit_and_iff bit_parts)
  then have "pscalWordIsNanBoxTag b \<longleftrightarrow> (\<forall>n. (n = 63 \<longrightarrow> \<not> bit b n) \<and> (51 \<le> n \<longrightarrow> n < 63 \<longrightarrow> bit b n))"
    by (simp only: pscalWordIsNanBoxTag_def word_eq_bits)
  then show ?thesis by blast
qed

lemma word_zero_iff: "(w :: u64) = 0 \<longleftrightarrow> (\<forall>n. \<not> bit w n)"
  using bit_eqI [of w 0] by auto

lemma is_pointer_iff: "pscalTaggedWordIsPointer w \<longleftrightarrow> \<not> bit w 50"
proof -
  have "w AND PSCAL_TAG_DISCRIMINANT_BIT = 0 \<longleftrightarrow> (\<forall>n. \<not> bit (w AND PSCAL_TAG_DISCRIMINANT_BIT) n)"
    by (rule word_zero_iff)
  also have "\<dots> \<longleftrightarrow> \<not> bit w 50" by (auto simp: bit_and_iff bit_parts)
  finally show ?thesis by (simp add: pscalTaggedWordIsPointer_def)
qed

lemma box_double_bits: "pscalWordIsNanBoxTag d \<Longrightarrow> bit (pscalBoxDouble d) n \<longleftrightarrow> bit d n \<or> n = 63"
  by (auto simp: pscalBoxDouble_def bit_or_iff bit_push_one simp del: push_bit_of_1)

lemma boxed_not_tag: "\<not> pscalWordIsNanBoxTag (pscalBoxDouble d)"
proof (cases "pscalWordIsNanBoxTag d")
  case True
  then show ?thesis by (simp add: is_tag_iff [of "pscalBoxDouble d"] box_double_bits)
qed (simp add: pscalBoxDouble_def)

lemma bit_tag_pointer: "bit (pscalTagPointer p) n \<longleftrightarrow> 51 \<le> n \<and> n < 63 \<or> bit p n \<and> n < 50"
  by (auto simp: pscalTagPointer_def bit_or_iff bit_and_iff bit_parts)

lemma bit_tag_immediate:
  "bit (pscalTagImmediate k x) n \<longleftrightarrow>
     51 \<le> n \<and> n < 63 \<or> n = 50 \<or> 45 \<le> n \<and> n < 50 \<and> bit k (n - 45) \<or> bit x n \<and> n < 45"
  by (auto simp: pscalTagImmediate_def Let_def bit_or_iff bit_and_iff bit_push_bit_iff bit_parts)

lemma untag_pointer: "pscalUntagPointer (pscalTagPointer p) = p AND PSCAL_TAG_POINTER_PAYLOAD_MASK"
  by (rule bit_eqI) (auto simp: pscalUntagPointer_def bit_and_iff bit_tag_pointer bit_parts)

lemma immediate_payload: "pscalTaggedWordPayload (pscalTagImmediate k x) = x AND PSCAL_TAG_IMMEDIATE_PAYLOAD_MASK"
  by (rule bit_eqI) (auto simp: pscalTaggedWordPayload_def bit_and_iff bit_tag_immediate bit_parts)

lemma immediate_kind: "pscalTaggedWordKind (pscalTagImmediate k x) = k AND 0x1F"
  unfolding masks by (rule bit_eqI)
    (auto simp: pscalTaggedWordKind_def bit_drop_bit_eq bit_and_iff bit_tag_immediate bit_parts bit_masks)

lemma pointer_fits_iff: "pscalObjPointerFitsPayload p \<longleftrightarrow> p AND PSCAL_TAG_POINTER_PAYLOAD_MASK = p"
proof -
  have "pscalObjPointerFitsPayload p \<longleftrightarrow> (\<forall>n. \<not> bit p (50 + n))"
    by (simp only: pscalObjPointerFitsPayload_def word_zero_iff bit_drop_bit_eq o_apply)
  also have "\<dots> \<longleftrightarrow> (\<forall>n. bit p n \<longrightarrow> n < 50)" by (metis le_add1 le_add_diff_inverse not_le)
  also have "\<dots> \<longleftrightarrow> p AND PSCAL_TAG_POINTER_PAYLOAD_MASK = p"
    by (auto simp: word_eq_bits bit_and_iff bit_parts)
  finally show ?thesis .
qed

text \<open>A word that is a tag is a NaN, and so is what boxing makes of it.\<close>

lemma nan_bits: "(\<forall>n. 52 \<le> n \<longrightarrow> n < 63 \<longrightarrow> bit d n) \<Longrightarrow> bit d 51 \<Longrightarrow> f64_nan d"
proof -
  assume e: "\<forall>n. 52 \<le> n \<longrightarrow> n < 63 \<longrightarrow> bit d n" and q: "bit d 51"
  have m: "(0x7FF :: u64) = mask 11" "(0xFFFFFFFFFFFFF :: u64) = mask 52" by (simp_all add: mask_eq_exp_minus_1)
  have "bit (drop_bit 52 d AND mask 11) n = bit (mask 11 :: u64) n" for n
    using e by (auto simp: bit_and_iff bit_drop_bit_eq bit_masks)
  then have "drop_bit 52 d AND 0x7FF = 0x7FF" unfolding m by (intro bit_eqI) simp
  moreover have "bit (d AND mask 52) 51" using q by (simp add: bit_and_iff bit_masks)
  then have "d AND 0xFFFFFFFFFFFFF \<noteq> 0" unfolding m by auto
  ultimately show ?thesis by (simp add: f64_nan_def)
qed

lemma double_kept: "pscalUnboxDouble (pscalBoxDouble d) = d \<or> f64_nan d \<and> f64_nan (pscalUnboxDouble (pscalBoxDouble d))"
proof (cases "pscalWordIsNanBoxTag d")
  case True
  then have "\<forall>n. 51 \<le> n \<longrightarrow> n < 63 \<longrightarrow> bit d n" by (simp add: is_tag_iff)
  then have "f64_nan d" "f64_nan (pscalBoxDouble d)"
    by (auto intro!: nan_bits simp: box_double_bits [OF True])
  then show ?thesis by (simp add: pscalUnboxDouble_def)
qed (simp add: pscalUnboxDouble_def pscalBoxDouble_def)

text \<open>C34: The three sorts of words never overlap and keep what was put in: a boxed double is never a
  tagged word and reads back as the same double, or as a NaN where it was one; a pointer word and an
  immediate word are tagged and told apart; a pointer survives exactly if it fits the 50-bit payload;
  and an immediate keeps its kind and its 45-bit payload.\<close>

theorem tagged_words_separate:
  "\<not> pscalWordIsNanBoxTag (pscalBoxDouble d)
   \<and> (pscalUnboxDouble (pscalBoxDouble d) = d \<or> f64_nan d \<and> f64_nan (pscalUnboxDouble (pscalBoxDouble d)))
   \<and> pscalWordIsNanBoxTag (pscalTagPointer p) \<and> pscalTaggedWordIsPointer (pscalTagPointer p)
   \<and> (pscalUntagPointer (pscalTagPointer p) = p \<longleftrightarrow> pscalObjPointerFitsPayload p)
   \<and> pscalWordIsNanBoxTag (pscalTagImmediate k x) \<and> \<not> pscalTaggedWordIsPointer (pscalTagImmediate k x)
   \<and> pscalTaggedWordKind (pscalTagImmediate k x) = k AND 0x1F
   \<and> pscalTaggedWordPayload (pscalTagImmediate k x) = x AND PSCAL_TAG_IMMEDIATE_PAYLOAD_MASK"
  using boxed_not_tag [of d] double_kept [of d] untag_pointer [of p] pointer_fits_iff [of p]
    immediate_kind [of k x] immediate_payload [of k x]
  by (simp add: is_tag_iff is_pointer_iff bit_tag_pointer bit_tag_immediate)

subsection \<open>Scalars keep their value\<close>

text \<open>What C makes of a \<open>long long\<close> stored in a variable of a type, and which types hold one.\<close>

definition int_types :: "u8 list" where
  "int_types = [TYPE_BOOLEAN, TYPE_CHAR, TYPE_WIDECHAR, TYPE_BYTE, TYPE_WORD, TYPE_INT8, TYPE_UINT8, TYPE_INT16,
     TYPE_UINT16, TYPE_INT32, TYPE_UINT32, TYPE_THREAD, TYPE_INT64, TYPE_UINT64]"

definition signed_part :: "nat \<Rightarrow> int \<Rightarrow> int" where
  "signed_part w x = (x + 2 ^ (w - 1)) mod 2 ^ w - 2 ^ (w - 1)"

definition narrowed :: "u8 \<Rightarrow> int \<Rightarrow> int" where
  "narrowed t x =
     (if t = TYPE_BOOLEAN then (if x = 0 then 0 else 1)
      else if t \<in> {TYPE_CHAR, TYPE_BYTE, TYPE_UINT8} then x mod 2 ^ 8
      else if t \<in> {TYPE_WORD, TYPE_UINT16} then x mod 2 ^ 16
      else if t \<in> {TYPE_WIDECHAR, TYPE_UINT32} then x mod 2 ^ 32
      else if t = TYPE_INT8 then signed_part 8 x
      else if t = TYPE_INT16 then signed_part 16 x
      else if t \<in> {TYPE_INT32, TYPE_THREAD} then signed_part 32 x
      else x)"

lemma payload_ucast:
  fixes v :: "'a::len word"
  assumes "LENGTH('a) \<le> 45"
  shows "ucast (pscalTaggedWordPayload (pscalTagImmediate k (ucast v))) = v"
  unfolding immediate_payload
  by (rule bit_eqI) (use assms in \<open>auto simp: bit_ucast_iff bit_and_iff bit_parts\<close>)

lemma untag_scalars [simp]:
  "pscalUntagBoolean (pscalTagBoolean b) = b" "pscalUntagChar (pscalTagChar c) = c"
  "pscalUntagWideChar (pscalTagWideChar w) = w" "pscalUntagByte (pscalTagByte c) = c"
  "pscalUntagWord (pscalTagWord h) = h" "pscalUntagInt8 (pscalTagInt8 c) = c"
  "pscalUntagUInt8 (pscalTagUInt8 c) = c" "pscalUntagInt16 (pscalTagInt16 h) = h"
  "pscalUntagUInt16 (pscalTagUInt16 h) = h" "pscalUntagInt32 (pscalTagInt32 w) = w"
  "pscalUntagUInt32 (pscalTagUInt32 w) = w" "pscalUntagFloat (pscalTagFloat w) = w"
proof -
  have "(1 :: u64) AND PSCAL_TAG_IMMEDIATE_PAYLOAD_MASK = 1"
    by (rule bit_eqI) (auto simp: bit_and_iff bit_parts bit_1_iff)
  then show "pscalUntagBoolean (pscalTagBoolean b) = b"
    by (simp add: pscalUntagBoolean_def pscalTagBoolean_def immediate_payload)
qed (simp_all add: payload_ucast pscalUntagChar_def pscalTagChar_def pscalUntagWideChar_def
  pscalTagWideChar_def pscalUntagByte_def pscalTagByte_def pscalUntagWord_def pscalTagWord_def
  pscalUntagInt8_def pscalTagInt8_def pscalUntagUInt8_def pscalTagUInt8_def pscalUntagInt16_def
  pscalTagInt16_def pscalUntagUInt16_def pscalTagUInt16_def pscalUntagInt32_def pscalTagInt32_def
  pscalUntagUInt32_def pscalTagUInt32_def pscalUntagFloat_def pscalTagFloat_def)

lemma sint_zero_extended:
  assumes "LENGTH('a::len) < 64"
  shows "sint (ucast (ucast (v :: u64) :: 'a word) :: u64) = sint v mod 2 ^ LENGTH('a)"
proof -
  have "uint (ucast v :: 'a word) = take_bit LENGTH('a) (sint v)"
    using assms by (simp add: unsigned_ucast_eq uint_sint [of v] min_def)
  moreover have "signed_take_bit 63 (take_bit LENGTH('a) (sint v)) = take_bit LENGTH('a) (sint v)"
    using assms by (simp add: signed_take_bit_take_bit)
  ultimately show ?thesis by (simp add: signed_ucast_eq take_bit_eq_mod)
qed

lemma sint_sign_extended:
  assumes "LENGTH('a::len) \<le> 64"
  shows "sint (scast (ucast (v :: u64) :: 'a word) :: u64) = signed_part (LENGTH('a)) (sint v)"
proof -
  obtain k where k: "LENGTH('a) = Suc k" using len_not_eq_0 [where 'a = 'a] by (cases "LENGTH('a)") auto
  have "sint (ucast v :: 'a word) = signed_take_bit k (sint v)"
    using assms by (simp add: signed_ucast_eq k uint_sint [of v] signed_take_bit_take_bit)
  then have "sint (scast (ucast v :: 'a word) :: u64) = signed_take_bit k (sint v)"
    using assms by (simp add: signed_scast_eq k)
  then show ?thesis by (simp add: signed_part_def k signed_take_bit_eq_take_bit_shift take_bit_eq_mod)
qed

text \<open>C35: Storing a 64-bit number in a value of an integer type and reading it back gives what the C
  conversion to that type makes of it: reduced modulo the width, with the sign bit read back for the
  signed types, and 0 or 1 for a boolean. The signed and the unsigned getter give the same word.\<close>

theorem scalar_value_kept:
  assumes "vs_type v \<in> set int_types"
  shows "sint (pscalValueDecodeInt (pscalValueSetIntBits v x)) = narrowed (vs_type v) (sint x)
    \<and> pscalValueDecodeUInt (pscalValueSetIntBits v x) = pscalValueDecodeInt (pscalValueSetIntBits v x)
    \<and> vs_type (pscalValueSetIntBits v x) = vs_type v"
proof -
  have b: "sint x = 0 \<longleftrightarrow> x = 0" by (rule signed_eq_0_iff)
  show ?thesis
    using assms unfolding int_types_def list.set insert_iff empty_iff
    by (elim disjE) (simp_all add: pscalValueDecodeInt_def pscalValueDecodeUInt_def pscalValueSetIntBits_def int_bits_def narrowed_def b sint_zero_extended sint_sign_extended)
qed

text \<open>A value given another type reads as zero, whatever its word was.\<close>

lemma retyped_reads_zero: "vs_type v \<noteq> t \<Longrightarrow> pscalValueDecodeInt (SET_VALUE_TYPE v t) = 0"
  by (simp add: SET_VALUE_TYPE_def pscalValueResetBitsForType_def pscalValueDecodeInt_def)

lemma scalar_value_kept_witness:
  "sint (pscalValueDecodeInt (pscalValueSetIntBits \<lparr>vs_type = TYPE_INT8, vs_bits = 0\<rparr> 200)) = - 56"
  using scalar_value_kept [of "\<lparr>vs_type = TYPE_INT8, vs_bits = 0\<rparr>" 200]
  by (simp add: int_types_def narrowed_def signed_part_def signed_take_bit_eq_take_bit_shift take_bit_eq_mod)

subsection \<open>Reference counts\<close>

text \<open>The destructors registered so far, by type code, and the outcome of a release: the object is
  still referenced, its destructor ran and its memory is gone, a release too many was refused, or
  the process aborted for want of a destructor.\<close>

record ObjHeader =
  oh_type :: nat
  oh_refcount :: u32

datatype release_outcome = StillReferenced ObjHeader | DestructorRan | DoubleRelease ObjHeader | ReleaseAborted

definition PSCAL_OBJ_DESTRUCTOR_TABLE_SIZE :: nat where
  "PSCAL_OBJ_DESTRUCTOR_TABLE_SIZE = unat TYPE_MAP + 1"

definition pscalObjRegisterDestructor :: "bool list \<Rightarrow> nat \<Rightarrow> bool list option" where
  "pscalObjRegisterDestructor table t =
     (if PSCAL_OBJ_DESTRUCTOR_TABLE_SIZE \<le> t then None
      else if table ! t then None
      else Some (table[t := True]))"

definition pscalObjHeaderInit :: "nat \<Rightarrow> ObjHeader" where
  "pscalObjHeaderInit t = \<lparr>oh_type = t, oh_refcount = 1\<rparr>"

definition pscalObjRetain :: "ObjHeader \<Rightarrow> ObjHeader" where
  "pscalObjRetain h = h\<lparr>oh_refcount := oh_refcount h + 1\<rparr>"

definition pscalObjRelease :: "bool list \<Rightarrow> ObjHeader \<Rightarrow> release_outcome" where
  "pscalObjRelease table h =
     (let prev = oh_refcount h; h1 = h\<lparr>oh_refcount := prev - 1\<rparr> in
      if prev = 0 then DoubleRelease (h1\<lparr>oh_refcount := oh_refcount h1 + 1\<rparr>)
      else if prev \<noteq> 1 then StillReferenced h1
      else if PSCAL_OBJ_DESTRUCTOR_TABLE_SIZE \<le> oh_type h \<or> \<not> table ! oh_type h then ReleaseAborted
      else DestructorRan)"

text \<open>One object shared by several holders (threads, or values of one thread). A holder only retains,
  hands over or releases a reference it holds; \<open>rs_obj\<close> is \<open>None\<close> once the memory is gone, and
  \<open>rs_faults\<close> counts the accesses to an object that is gone, the refused releases and the aborts.\<close>

record RefSys =
  rs_obj :: "ObjHeader option"
  rs_held :: "nat list"
  rs_destroyed :: nat
  rs_faults :: nat

definition held_refs :: "RefSys \<Rightarrow> nat" where
  "held_refs s = sum_list (rs_held s)"

definition retain_by :: "nat \<Rightarrow> RefSys \<Rightarrow> RefSys" where
  "retain_by i s =
     (case rs_obj s of
        None \<Rightarrow> s\<lparr>rs_faults := rs_faults s + 1\<rparr>
      | Some h \<Rightarrow> s\<lparr>rs_obj := Some (pscalObjRetain h), rs_held := (rs_held s)[i := rs_held s ! i + 1]\<rparr>)"

definition hand_over :: "nat \<Rightarrow> nat \<Rightarrow> RefSys \<Rightarrow> RefSys" where
  "hand_over i j s =
     (let held = (rs_held s)[i := rs_held s ! i - 1] in s\<lparr>rs_held := held[j := held ! j + 1]\<rparr>)"

definition release_by :: "bool list \<Rightarrow> nat \<Rightarrow> RefSys \<Rightarrow> RefSys" where
  "release_by table i s =
     (let s1 = s\<lparr>rs_held := (rs_held s)[i := rs_held s ! i - 1]\<rparr> in
      case rs_obj s of
        None \<Rightarrow> s1\<lparr>rs_faults := rs_faults s + 1\<rparr>
      | Some h \<Rightarrow>
          (case pscalObjRelease table h of
             StillReferenced h' \<Rightarrow> s1\<lparr>rs_obj := Some h'\<rparr>
           | DestructorRan \<Rightarrow> s1\<lparr>rs_obj := None, rs_destroyed := rs_destroyed s + 1\<rparr>
           | DoubleRelease h' \<Rightarrow> s1\<lparr>rs_obj := Some h', rs_faults := rs_faults s + 1\<rparr>
           | ReleaseAborted \<Rightarrow> s1\<lparr>rs_faults := rs_faults s + 1\<rparr>))"

inductive ref_step :: "bool list \<Rightarrow> RefSys \<Rightarrow> RefSys \<Rightarrow> bool" for table :: "bool list" where
  retain: "i < length (rs_held s) \<Longrightarrow> 0 < rs_held s ! i \<Longrightarrow> held_refs s < 2 ^ 32 - 1 \<Longrightarrow>
    ref_step table s (retain_by i s)"
| hand: "i < length (rs_held s) \<Longrightarrow> j < length (rs_held s) \<Longrightarrow> 0 < rs_held s ! i \<Longrightarrow>
    ref_step table s (hand_over i j s)"
| release: "i < length (rs_held s) \<Longrightarrow> 0 < rs_held s ! i \<Longrightarrow> ref_step table s (release_by table i s)"

inductive ref_reach :: "bool list \<Rightarrow> RefSys \<Rightarrow> RefSys \<Rightarrow> bool" for table :: "bool list" where
  start: "ref_reach table s s"
| next_step: "ref_reach table s s' \<Longrightarrow> ref_step table s' s'' \<Longrightarrow> ref_reach table s s''"

inductive_cases ref_stepE: "ref_step table s s'"

text \<open>An object just created by holder 0, among \<open>n\<close> holders.\<close>

definition ref_start :: "nat \<Rightarrow> nat \<Rightarrow> RefSys" where
  "ref_start t n = \<lparr>rs_obj = Some (pscalObjHeaderInit t), rs_held = 1 # replicate (n - 1) 0,
     rs_destroyed = 0, rs_faults = 0\<rparr>"

definition ref_inv :: "nat \<Rightarrow> RefSys \<Rightarrow> bool" where
  "ref_inv t s \<longleftrightarrow> rs_faults s = 0 \<and> held_refs s < 2 ^ 32 \<and>
     (case rs_obj s of
        None \<Rightarrow> held_refs s = 0 \<and> rs_destroyed s = 1
      | Some h \<Rightarrow> oh_type h = t \<and> unat (oh_refcount h) = held_refs s \<and> 0 < held_refs s \<and> rs_destroyed s = 0)"

lemma sum_list_set: "i < length xs \<Longrightarrow> sum_list (xs[i := v]) + xs ! i = sum_list xs + (v :: nat)"
  by (induction xs arbitrary: i) (auto simp: nth_Cons split: nat.splits)

lemma held_pos: "i < length (rs_held s) \<Longrightarrow> 0 < rs_held s ! i \<Longrightarrow> 0 < held_refs s"
  unfolding held_refs_def by (metis elem_le_sum_list less_le_trans)

lemma ref_inv_start: "ref_inv t (ref_start t n)"
  by (simp add: ref_inv_def ref_start_def held_refs_def pscalObjHeaderInit_def sum_list_replicate)

definition destructor_registered :: "bool list \<Rightarrow> nat \<Rightarrow> bool" where
  "destructor_registered table t \<longleftrightarrow> t < PSCAL_OBJ_DESTRUCTOR_TABLE_SIZE \<and> table ! t"

lemma ref_inv_retain:
  assumes "ref_inv t s" "i < length (rs_held s)" "0 < rs_held s ! i" "held_refs s < 2 ^ 32 - 1"
  shows "ref_inv t (retain_by i s)"
proof -
  obtain h where h: "rs_obj s = Some h" "oh_type h = t" "unat (oh_refcount h) = held_refs s" "rs_destroyed s = 0"
    using assms(1) held_pos [OF assms(2,3)] by (auto simp: ref_inv_def split: option.splits)
  have held: "held_refs (retain_by i s) = held_refs s + 1"
    using sum_list_set [OF assms(2), of "rs_held s ! i + 1"] by (simp add: held_refs_def retain_by_def h)
  have "unat (oh_refcount h + 1) = held_refs s + 1"
    using assms(4) h(3) by (simp add: unat_word_ariths(1))
  then show ?thesis
    using assms(1,4) h held by (simp add: ref_inv_def retain_by_def pscalObjRetain_def)
qed

lemma ref_inv_hand:
  assumes "ref_inv t s" "i < length (rs_held s)" "j < length (rs_held s)" "0 < rs_held s ! i"
  shows "ref_inv t (hand_over i j s)"
proof -
  let ?held = "(rs_held s)[i := rs_held s ! i - 1]"
  have "held_refs (hand_over i j s) = held_refs s"
    using sum_list_set [OF assms(2), of "rs_held s ! i - 1"] sum_list_set [of j ?held "?held ! j + 1"] assms(3,4)
    by (simp add: held_refs_def hand_over_def Let_def)
  moreover have "rs_obj (hand_over i j s) = rs_obj s" "rs_faults (hand_over i j s) = rs_faults s"
    "rs_destroyed (hand_over i j s) = rs_destroyed s" by (simp_all add: hand_over_def Let_def)
  ultimately show ?thesis using assms(1) by (auto simp: ref_inv_def split: option.splits)
qed

lemma ref_inv_release:
  assumes "ref_inv t s" "i < length (rs_held s)" "0 < rs_held s ! i" "destructor_registered table t"
  shows "ref_inv t (release_by table i s)" "held_refs (release_by table i s) + 1 = held_refs s"
proof -
  obtain h where h: "rs_obj s = Some h" "oh_type h = t" "unat (oh_refcount h) = held_refs s" "rs_destroyed s = 0"
    using assms(1) held_pos [OF assms(2,3)] by (auto simp: ref_inv_def split: option.splits)
  have pos: "0 < held_refs s" by (rule held_pos [OF assms(2,3)])
  have rc0: "oh_refcount h \<noteq> 0" using pos h(3) by auto
  have "rs_held (release_by table i s) = (rs_held s)[i := rs_held s ! i - 1]"
    by (simp add: release_by_def Let_def split: option.split release_outcome.split)
  then have held: "held_refs (release_by table i s) + 1 = held_refs s"
    using sum_list_set [OF assms(2), of "rs_held s ! i - 1"] assms(3) by (simp add: held_refs_def)
  then show "held_refs (release_by table i s) + 1 = held_refs s" .
  have small: "held_refs s < 2 ^ 32" "rs_faults s = 0" using assms(1) by (simp_all add: ref_inv_def)
  show "ref_inv t (release_by table i s)"
  proof (cases "oh_refcount h = 1")
    case True
    then have out: "pscalObjRelease table h = DestructorRan"
      using assms(4) h(2) by (simp add: pscalObjRelease_def destructor_registered_def not_le)
    have "held_refs s = 1" using h(3) True by simp
    then show ?thesis using held small h(4) by (simp add: ref_inv_def release_by_def h(1) out)
  next
    case False
    then have out: "pscalObjRelease table h = StillReferenced (h\<lparr>oh_refcount := oh_refcount h - 1\<rparr>)"
      using rc0 by (simp add: pscalObjRelease_def Let_def)
    have "unat (oh_refcount h - 1) = held_refs s - 1" using rc0 h(3) by (simp add: unat_minus_one)
    moreover have "held_refs s \<noteq> 1" using False h(3) by (simp add: word_unat_eq_iff)
    ultimately show ?thesis using held small h pos by (simp add: ref_inv_def release_by_def out)
  qed
qed

lemma ref_inv_reach:
  "ref_reach table s s' \<Longrightarrow> ref_inv t s \<Longrightarrow> destructor_registered table t \<Longrightarrow> ref_inv t s'"
proof (induction rule: ref_reach.induct)
  case (next_step s s' s'')
  then show ?case
    by (auto elim!: ref_stepE intro: ref_inv_retain ref_inv_hand ref_inv_release)
qed simp

lemma ref_reach_trans: "ref_reach table b c \<Longrightarrow> ref_reach table a b \<Longrightarrow> ref_reach table a c"
  by (induction rule: ref_reach.induct) (auto intro: ref_reach.intros)

text \<open>C36: However several holders retain, hand over and release the references they hold, in any order,
  the memory of the object is there exactly as long as somebody holds a reference, its count is then
  the number of references held, its destructor runs exactly once, and no operation touches an object
  that is gone, is refused as a double release, or aborts.\<close>

theorem object_lives_while_held:
  assumes "ref_reach table (ref_start t n) s" "destructor_registered table t"
  shows "rs_faults s = 0
    \<and> (case rs_obj s of
         None \<Rightarrow> held_refs s = 0 \<and> rs_destroyed s = 1
       | Some h \<Rightarrow> 0 < held_refs s \<and> unat (oh_refcount h) = held_refs s \<and> rs_destroyed s = 0)"
  using ref_inv_reach [OF assms(1) ref_inv_start assms(2)] by (auto simp: ref_inv_def split: option.splits)

text \<open>Nothing leaks: from every state the holders can get into, releasing what is still held destroys
  the object.\<close>

lemma object_can_be_destroyed:
  assumes "ref_reach table (ref_start t n) s" "destructor_registered table t"
  shows "\<exists>s'. ref_reach table s s' \<and> rs_obj s' = None \<and> rs_destroyed s' = 1"
proof -
  have "ref_inv t s" by (rule ref_inv_reach [OF assms(1) ref_inv_start assms(2)])
  then show ?thesis
  proof (induction "held_refs s" arbitrary: s)
    case 0
    then show ?case by (auto simp: ref_inv_def split: option.splits intro: ref_reach.start)
  next
    case (Suc k)
    have "\<exists>i < length (rs_held s). 0 < rs_held s ! i"
    proof (rule ccontr)
      assume "\<not> ?thesis"
      then have "\<forall>x \<in> set (rs_held s). x = 0" by (auto simp: in_set_conv_nth)
      then have "sum_list (rs_held s) = 0" by (simp add: sum_list_eq_0_iff)
      with Suc(2) show False by (simp add: held_refs_def del: sum_list_eq_0_iff)
    qed
    then obtain i where i: "i < length (rs_held s)" "0 < rs_held s ! i" by blast
    let ?s = "release_by table i s"
    have r: "ref_inv t ?s" "held_refs ?s + 1 = held_refs s"
      by (rule ref_inv_release [OF Suc(3) i assms(2)])+
    then have "k = held_refs ?s" using Suc(2) by simp
    from Suc(1) [OF this r(1)] obtain s' where s': "ref_reach table ?s s'" "rs_obj s' = None" "rs_destroyed s' = 1"
      by blast
    have "ref_reach table s ?s" by (rule next_step [OF ref_reach.start ref_step.release [OF i]])
    then show ?case using s' ref_reach_trans by blast
  qed
qed

definition demo_table :: "bool list" where
  "demo_table = replicate PSCAL_OBJ_DESTRUCTOR_TABLE_SIZE True"

lemma object_lives_while_held_witness:
  "rs_faults (release_by demo_table 0 (hand_over 0 1 (retain_by 0 (ref_start 4 2)))) = 0"
proof -
  have s: "ref_reach demo_table (ref_start 4 2) (release_by demo_table 0 (hand_over 0 1 (retain_by 0 (ref_start 4 2))))"
    by (rule next_step [OF next_step [OF next_step [OF ref_reach.start ref_step.retain] ref_step.hand] ref_step.release])
      (simp_all add: ref_start_def retain_by_def hand_over_def held_refs_def pscalObjHeaderInit_def)
  have "destructor_registered demo_table 4"
    by (simp add: destructor_registered_def demo_table_def PSCAL_OBJ_DESTRUCTOR_TABLE_SIZE_def)
  from object_lives_while_held [OF s this] show ?thesis by simp
qed

lemma object_can_be_destroyed_witness:
  "\<exists>s'. ref_reach demo_table (ref_start 4 2) s' \<and> rs_obj s' = None \<and> rs_destroyed s' = 1"
proof -
  have "destructor_registered demo_table 4"
    by (simp add: destructor_registered_def demo_table_def PSCAL_OBJ_DESTRUCTOR_TABLE_SIZE_def)
  from object_can_be_destroyed [OF ref_reach.start this] show ?thesis .
qed

end
