(* ===== verification/ValueCodec.thy ===== *)
theory ValueCodec
  imports AstCodec MapObj Tagged Utf8
begin

section \<open>Values in cache files\<close>

text \<open>
  \<open>writeValue\<close>, \<open>readValue\<close>, \<open>writePointerValue\<close>, \<open>readPointerValue\<close> and the CONS section of
  \<open>core/cache.c\<close>, with \<open>mapCoerceStored\<close> of \<open>core/utils.c\<close> through which a map is refilled. A scalar
  is a tagged word, read and written with the getters and setters of the theory Tagged; what lies
  behind a heap pointer is part of the value. A string is its bytes up to the NUL; the length limit of
  a string, the prototype of an array's elements and the metadata of an enumeration are not stored
  in a file and are left out. A \<open>long double\<close> is the double it is stored as.

  Two things are parameters, collected in a record: what writes and reads the compiled shell function
  behind a pointer (a whole chunk, with its own sections, linked and verified), and the conversion of
  an integer to a double, which the hardware does.

  The C reader recurses once per nesting level and stops at \<open>CACHE_MAX_NESTING\<close>; the model recurses
  on the levels left, as that of syntax trees does.
\<close>

subsection \<open>Values\<close>

datatype PBase = BaseOpaque | BaseStringLength | BaseByteArray | BaseType AST

datatype 'f PPointer =
    NoPointerObj
  | CharPointer "byte list option"
  | ShellFunction "'f option"
  | OtherPointer PBase u64

datatype 'f PValue =
    PScalar ValueStruct
  | PFloat u32
  | PDouble u64
  | PLongDouble u64
  | PHandle u8 bool
  | PString u8 "byte list option"
  | PEnum "byte list option" int
  | PSet "u64 list"
  | PArray u32 bool bool "(int \<times> int) list" "byte list" "'f PValue list"
  | PMap "(u8 \<times> (byte list \<times> 'f PValue) list) option"
  | PStream "byte list option"
  | PPointer "'f PPointer"
  | PLive u8

text \<open>\<open>PArray\<close> holds the element type, whether the bytes are packed, whether the array is dynamic,
  the bounds of each dimension, the packed bytes and the elements. \<open>PHandle\<close> is a task or channel and
  whether it is live; \<open>PLive\<close> is a value of a kind that has no encoding.\<close>

record 'f PEnv =
  pe_write_function :: "'f \<Rightarrow> ByteBuf \<Rightarrow> ByteBuf option"
  pe_read_function :: "'f option reader"
  pe_to_double :: "ValueStruct \<Rightarrow> u64"

fun p_type :: "'f PValue \<Rightarrow> u8" where
  "p_type (PScalar v) = vs_type v"
| "p_type (PFloat b) = TYPE_FLOAT"
| "p_type (PDouble b) = TYPE_DOUBLE"
| "p_type (PLongDouble b) = TYPE_LONG_DOUBLE"
| "p_type (PHandle t live) = t"
| "p_type (PString t s) = t"
| "p_type (PEnum n i) = TYPE_ENUM"
| "p_type (PSet vs) = TYPE_SET"
| "p_type (PArray e p d bs raw es) = TYPE_ARRAY"
| "p_type (PMap m) = TYPE_MAP"
| "p_type (PStream s) = TYPE_MEMORYSTREAM"
| "p_type (PPointer p) = TYPE_POINTER"
| "p_type (PLive t) = t"

subsection \<open>Coercions\<close>

definition isRealType :: "u8 \<Rightarrow> bool" where
  "isRealType t \<longleftrightarrow> t = TYPE_FLOAT \<or> t = TYPE_DOUBLE \<or> t = TYPE_LONG_DOUBLE"

definition isPascalStringType :: "u8 \<Rightarrow> bool" where
  "isPascalStringType t \<longleftrightarrow> t = TYPE_STRING \<or> t = TYPE_UNICODE_STRING"

definition isIntegerFamilyType :: "u8 \<Rightarrow> bool" where
  "isIntegerFamilyType t \<longleftrightarrow> t \<in> {TYPE_INT32, TYPE_WORD, TYPE_BYTE, TYPE_INT8, TYPE_UINT8, TYPE_INT16,
     TYPE_UINT16, TYPE_UINT32, TYPE_INT64, TYPE_UINT64}"

definition isIntlikeType :: "u8 \<Rightarrow> bool" where
  "isIntlikeType t \<longleftrightarrow> isIntegerFamilyType t \<or> t \<in> {TYPE_BOOLEAN, TYPE_CHAR, TYPE_WIDECHAR, TYPE_THREAD}"

definition asI64 :: "ValueStruct \<Rightarrow> u64" where
  "asI64 v =
     (if vs_type v \<in> {TYPE_UINT64, TYPE_UINT32, TYPE_UINT16, TYPE_UINT8, TYPE_WORD, TYPE_BYTE}
      then pscalValueDecodeUInt v else pscalValueDecodeInt v)"

definition makeScalar :: "u8 \<Rightarrow> u64 \<Rightarrow> ValueStruct" where
  "makeScalar t x = pscalValueSetIntBits \<lparr>vs_type = t, vs_bits = 0\<rparr> x"

definition AS_INTEGER :: "'f PValue \<Rightarrow> u64" where
  "AS_INTEGER v = (case v of PScalar s \<Rightarrow> asI64 s | _ \<Rightarrow> 0)"

definition mapCoerceStored :: "'f PEnv \<Rightarrow> u8 \<Rightarrow> 'f PValue \<Rightarrow> 'f PValue" where
  "mapCoerceStored env want v =
     (case v of
        PScalar s \<Rightarrow>
          let have_t = vs_type s in
          if isRealType want \<and> isIntlikeType have_t \<and> have_t \<noteq> TYPE_BOOLEAN \<and> have_t \<noteq> TYPE_CHAR
          then PDouble (pe_to_double env s)
          else if want = TYPE_INT64 \<and> isIntlikeType have_t \<and> have_t \<noteq> TYPE_INT64 \<and> have_t \<noteq> TYPE_BOOLEAN
            \<and> have_t \<noteq> TYPE_CHAR \<and> have_t \<noteq> TYPE_WIDECHAR
          then PScalar (makeScalar TYPE_INT64 (asI64 s))
          else if isPascalStringType want \<and> (have_t = TYPE_CHAR \<or> have_t = TYPE_WIDECHAR)
          then PString TYPE_UNICODE_STRING (Some
                 (if have_t = TYPE_CHAR then encodePascalCharUtf8 (sint (pscalValueDecodeInt s))
                  else encodeUtf8Codepoint (ucast (pscalValueDecodeInt s))))
          else v
      | _ \<Rightarrow> v)"

subsection \<open>Writing\<close>

fun count_elements :: "int \<Rightarrow> (int \<times> int) list \<Rightarrow> int" where
  "count_elements n [] = n"
| "count_elements n ((lb, ub) # bounds) =
     (let span = ub - lb + 1 in
      if span \<le> 0 then 0
      else if (2 ^ 31 - 1) div n < span then - 1
      else count_elements (n * span) bounds)"

definition arrayCodecElementCount :: "(int \<times> int) list \<Rightarrow> int" where
  "arrayCodecElementCount bounds = (if bounds = [] then 0 else count_elements 1 bounds)"

definition writeScalar :: "ValueStruct \<Rightarrow> ByteBuf \<Rightarrow> ByteBuf option" where
  "writeScalar v out =
     (let t = vs_type v in
      if t \<in> {TYPE_INTEGER, TYPE_WORD, TYPE_BYTE, TYPE_BOOLEAN, TYPE_INT8, TYPE_INT16, TYPE_INT64}
      then Some (bufU64LE (pscalValueDecodeInt v) out)
      else if t \<in> {TYPE_UINT8, TYPE_UINT16, TYPE_UINT32, TYPE_UINT64}
      then Some (bufU64LE (pscalValueDecodeUInt v) out)
      else if t = TYPE_CHAR \<or> t = TYPE_WIDECHAR then Some (bufU32LE (ucast (pscalValueDecodeInt v)) out)
      else if t = TYPE_THREAD then Some (bufU64LE (pscalValueDecodeInt v) out)
      else if t = TYPE_VOID \<or> t = TYPE_NIL then Some out
      else None)"

definition writePointerValue :: "'f PEnv \<Rightarrow> 'f PPointer \<Rightarrow> ByteBuf \<Rightarrow> ByteBuf option" where
  "writePointerValue env p out =
     (case p of
        NoPointerObj \<Rightarrow> Some (bufU8 0 out)
      | CharPointer None \<Rightarrow> None
      | CharPointer (Some text) \<Rightarrow> Some (bufLenPrefixedBytes text (bufU8 2 out))
      | ShellFunction None \<Rightarrow> None
      | ShellFunction (Some f) \<Rightarrow> pe_write_function env f (bufU8 1 out)
      | OtherPointer base address \<Rightarrow>
          (case (base, address = 0) of
             (BaseType t, True) \<Rightarrow> Some (writeAst t (bufU8 4 out))
           | _ \<Rightarrow> Some (bufU64LE address (bufU8 3 out))))"

definition write_raw :: "byte list \<Rightarrow> ByteBuf \<Rightarrow> ByteBuf option" where
  "write_raw raw out = fold (\<lambda>b r. Option.bind r (\<lambda>out'.
     writeScalar (makeScalar TYPE_BYTE (ucast b)) (bufU32LE (ucast (TYPE_BYTE :: u8)) out'))) raw (Some out)"

fun writeValue :: "'f PEnv \<Rightarrow> 'f PValue \<Rightarrow> ByteBuf \<Rightarrow> ByteBuf option"
  and write_values :: "'f PEnv \<Rightarrow> nat \<Rightarrow> 'f PValue list \<Rightarrow> ByteBuf \<Rightarrow> ByteBuf option"
  and write_entries :: "'f PEnv \<Rightarrow> (byte list \<times> 'f PValue) list \<Rightarrow> ByteBuf \<Rightarrow> ByteBuf option" where
  "writeValue env (PScalar v) out = writeScalar v (bufU32LE (ucast (vs_type v)) out)"
| "writeValue env (PFloat b) out = Some (bufF32LE b (bufU32LE (ucast TYPE_FLOAT) out))"
| "writeValue env (PDouble b) out = Some (bufF64LE b (bufU32LE (ucast TYPE_DOUBLE) out))"
| "writeValue env (PLongDouble b) out = Some (bufF64LE b (bufU32LE (ucast TYPE_LONG_DOUBLE) out))"
| "writeValue env (PHandle t live) out = (if live then None else Some (bufU32LE (ucast t) out))"
| "writeValue env (PString t s) out =
     (let out1 = bufU32LE (ucast t) out in
      Some (case s of None \<Rightarrow> bufU8 0 out1 | Some buf \<Rightarrow> bufLenPrefixedBytes buf (bufU8 1 out1)))"
| "writeValue env (PEnum name ordinal) out =
     Some (bufI32LE ordinal (bufLenPrefixedBytes (case name of None \<Rightarrow> [] | Some n \<Rightarrow> n)
       (bufU32LE (ucast TYPE_ENUM) out)))"
| "writeValue env (PSet vs) out =
     Some (fold bufU64LE vs (bufI32LE (int (length vs)) (bufU32LE (ucast TYPE_SET) out)))"
| "writeValue env (PArray element_type packed dyn bounds raw elements) out =
     (let out1 = bufU32LE element_type (bufI32LE (int (length bounds)) (bufU32LE (ucast TYPE_ARRAY) out));
          out2 = fold (\<lambda>(lb, ub) b. bufI32LE ub (bufI32LE lb b)) bounds out1;
          n = arrayCodecElementCount bounds in
      if n < 0 then None
      else if packed then write_raw (take (nat n) raw) out2
      else write_values env (nat n) elements out2)"
| "writeValue env (PMap m) out =
     (let out1 = bufU32LE (ucast TYPE_MAP) out in
      case m of
        None \<Rightarrow> Some (bufU8 0 out1)
      | Some (value_type, entries) \<Rightarrow>
          write_entries env entries (bufU32LE (word_of_nat (length entries)) (bufU8 value_type (bufU8 1 out1))))"
| "writeValue env (PStream s) out =
     (let out1 = bufU32LE (ucast TYPE_MEMORYSTREAM) out in
      Some (case s of None \<Rightarrow> bufU8 0 out1 | Some buf \<Rightarrow> bufLenPrefixedBytes buf (bufU8 1 out1)))"
| "writeValue env (PPointer p) out = writePointerValue env p (bufU32LE (ucast TYPE_POINTER) out)"
| "writeValue env (PLive t) out = None"
| "write_values env n [] out = (if n = 0 then Some out else None)"
| "write_values env n (v # vs) out =
     (if n = 0 then Some out
      else case writeValue env v out of None \<Rightarrow> None | Some out1 \<Rightarrow> write_values env (n - 1) vs out1)"
| "write_entries env [] out = Some out"
| "write_entries env ((k, v) # es) out =
     (case writeValue env v (bufLenPrefixedBytes k out) of None \<Rightarrow> None | Some out1 \<Rightarrow> write_entries env es out1)"

definition writeConstSection :: "'f PEnv \<Rightarrow> 'f PValue list \<Rightarrow> ByteBuf \<Rightarrow> ByteBuf option" where
  "writeConstSection env consts_pool out =
     write_values env (length consts_pool) consts_pool (bufVarint (word_of_nat (length consts_pool)) out)"

subsection \<open>Reading\<close>

text \<open>A reader that returns \<open>false\<close> yields \<open>None\<close>. \<open>rtry\<close> stops at the first \<open>false\<close>, \<open>unless_error\<close> at an error or a
  condition.\<close>

definition rtry :: "'a option reader \<Rightarrow> ('a \<Rightarrow> 'b option reader) \<Rightarrow> 'b option reader" where
  "rtry m f = rbind m (\<lambda>r. case r of None \<Rightarrow> rret None | Some x \<Rightarrow> f x)"

definition rok :: "'a \<Rightarrow> 'a option reader" where
  "rok x = rret (Some x)"

definition unless_error :: "bool \<Rightarrow> 'a option reader \<Rightarrow> 'a option reader" where
  "unless_error bad m = rbind curError (\<lambda>e. if e \<or> bad then rret None else m)"

fun rtries :: "nat \<Rightarrow> 'a option reader \<Rightarrow> 'a list option reader" where
  "rtries 0 m = rok []"
| "rtries (Suc n) m = rtry m (\<lambda>x. rtry (rtries n m) (\<lambda>xs. rok (x # xs)))"

definition read_text :: "byte list option reader" where
  "read_text = rbind curLenPrefixedString (\<lambda>s. rbind curError (\<lambda>e. rret (if e then None else s)))"

definition readPointerValue :: "'f PEnv \<Rightarrow> 'f PPointer option reader" where
  "readPointerValue env = rbind curU8 (\<lambda>kind. unless_error False
     (if kind = 0 then rok NoPointerObj
      else if kind = 2 then rtry read_text (\<lambda>text. rok (CharPointer (Some text)))
      else if kind = 3 then rbind curU64LE (\<lambda>raw_addr. unless_error False (rok (OtherPointer BaseOpaque raw_addr)))
      else if kind = 4 then rbind readAst (\<lambda>base. unless_error False (rok (OtherPointer (BaseType base) 0)))
      else if kind \<noteq> 1 then rret None
      else rtry (pe_read_function env) (\<lambda>f. rok (ShellFunction (Some f)))))"

definition read_bounds :: "int \<Rightarrow> (int \<times> int) list reader" where
  "read_bounds dims = rrepeat (nat dims) (rbind curI32LE (\<lambda>lb. rbind curI32LE (\<lambda>ub. rret (lb, ub))))"

definition readArray :: "'f PValue option reader \<Rightarrow> 'f PValue option reader" where
  "readArray readValue = rbind curI32LE (\<lambda>dims. unless_error (dims < 0)
     (rbind curU32LE (\<lambda>element_type. unless_error False
       (let packed = (element_type = ucast (TYPE_BYTE :: u8)) in
        rbind (read_bounds dims) (\<lambda>bounds. rbind curError (\<lambda>e.
          if 0 < dims \<and> e then rret None
          else let n = arrayCodecElementCount bounds in
            if n < 0 then rret None
            else rbind curRemaining (\<lambda>left.
              if left div 4 < nat n then rret None
              else rtry (rtries (nat n) readValue) (\<lambda>vs.
                rok (if packed then PArray element_type True False bounds (map (\<lambda>v. ucast (AS_INTEGER v)) vs) []
                     else PArray element_type False False bounds [] vs)))))))))"

definition read_entry_value :: "'f PValue option reader \<Rightarrow> (byte list \<times> 'f PValue) option reader" where
  "read_entry_value readValue = rtry read_text (\<lambda>key. rtry readValue (\<lambda>item. rok (key, item)))"

definition readMap :: "'f PEnv \<Rightarrow> 'f PValue option reader \<Rightarrow> 'f PValue option reader" where
  "readMap env readValue = rbind curU8 (\<lambda>present. unless_error False
     (if present = 0 then rok (PMap None)
      else rbind curU8 (\<lambda>vt. rbind curU32LE (\<lambda>count. unless_error False
        (rtry (rtries (unat count) (read_entry_value readValue)) (\<lambda>entries.
           rok (PMap (Some (vt, fold (\<lambda>(key, item) m. alist_set key (mapCoerceStored env vt item) m)
                              entries [])))))))))"

definition readString :: "u8 \<Rightarrow> 'f PValue option reader" where
  "readString t = rbind curU8 (\<lambda>present. unless_error False
     (if present \<noteq> 0 then rtry read_text (\<lambda>s. rok (PString t (Some s))) else rok (PString t None)))"

definition readStream :: "'f PValue option reader" where
  "readStream = rbind curU8 (\<lambda>present. unless_error False
     (if present = 0 then rok (PStream None) else rtry read_text (\<lambda>s. rok (PStream (Some s)))))"

definition readEnum :: "'f PValue option reader" where
  "readEnum = rbind curLenPrefixedString (\<lambda>nm. unless_error False
     (rbind curI32LE (\<lambda>ordinal. unless_error False
       (rok (PEnum (case nm of None \<Rightarrow> None | Some n \<Rightarrow> if n = [] then None else Some n) ordinal)))))"

definition readSet :: "'f PValue option reader" where
  "readSet = rbind curI32LE (\<lambda>sz. unless_error (sz < 0)
     (if 0 < sz then rbind (rrepeat (nat sz) curU64LE) (\<lambda>vs. unless_error False (rok (PSet vs)))
      else rok (PSet [])))"

definition readScalar :: "u8 \<Rightarrow> 'f PValue option reader" where
  "readScalar t =
     (if t = TYPE_CHAR then rbind curU32LE (\<lambda>c. rok (PScalar (makeScalar t (scast (ucast c :: u8)))))
      else rbind curU64LE (\<lambda>x. rok (PScalar (makeScalar t x))))"

definition readValueOf :: "'f PEnv \<Rightarrow> 'f PValue option reader \<Rightarrow> u8 \<Rightarrow> 'f PValue option reader" where
  "readValueOf env readValue t =
     (if t \<in> {TYPE_INTEGER, TYPE_WORD, TYPE_BYTE, TYPE_BOOLEAN, TYPE_INT8, TYPE_INT16, TYPE_INT64,
                   TYPE_UINT8, TYPE_UINT16, TYPE_UINT32, TYPE_UINT64, TYPE_CHAR, TYPE_THREAD}
      then readScalar t
      else if t = TYPE_FLOAT then rbind curF32LE (\<lambda>b. rok (PFloat b))
      else if t = TYPE_REAL then rbind curF64LE (\<lambda>b. rok (PDouble b))
      else if t = TYPE_LONG_DOUBLE then rbind curF64LE (\<lambda>b. rok (PLongDouble b))
      else if t = TYPE_WIDECHAR
      then rbind curU32LE (\<lambda>cp. unless_error False (rok (PScalar (makeScalar t (ucast cp)))))
      else if t = TYPE_TASK \<or> t = TYPE_CHANNEL then rok (PHandle t False)
      else if t = TYPE_VOID then rok (PScalar \<lparr>vs_type = t, vs_bits = pscalTagVoid\<rparr>)
      else if t = TYPE_STRING \<or> t = TYPE_UNICODE_STRING then readString t
      else if t = TYPE_NIL then rok (PScalar \<lparr>vs_type = t, vs_bits = pscalTagNil\<rparr>)
      else if t = TYPE_ENUM then readEnum
      else if t = TYPE_SET then readSet
      else if t = TYPE_ARRAY then readArray readValue
      else if t = TYPE_MAP then readMap env readValue
      else if t = TYPE_MEMORYSTREAM then readStream
      else if t = TYPE_POINTER then rtry (readPointerValue env) (\<lambda>p. rok (PPointer p))
      else rret None)"

definition readValueNested :: "'f PEnv \<Rightarrow> 'f PValue option reader \<Rightarrow> 'f PValue option reader" where
  "readValueNested env readValue = rbind curU32LE (\<lambda>code. unless_error False
     (if unat TYPE_MAP < unat code then rret None else readValueOf env readValue (ucast code)))"

primrec readValue_below :: "'f PEnv \<Rightarrow> nat \<Rightarrow> 'f PValue option reader" where
  "readValue_below env 0 = nested None (rret None)"
| "readValue_below env (Suc n) = nested None (readValueNested env (readValue_below env n))"

definition readValue :: "'f PEnv \<Rightarrow> 'f PValue option reader" where
  "readValue env c = readValue_below env (CACHE_MAX_NESTING - cu_depth c) c"

definition readConstSection :: "'f PEnv \<Rightarrow> 'f PValue list option reader" where
  "readConstSection env = rbind curVarint (\<lambda>const_count. unless_error (2 ^ 31 - 1 < unat const_count)
     (rtries (unat const_count) (readValue env)))"

subsection \<open>The recursion of the source\<close>

lemma level_rok [level_intros]: "level (rok x)"
  unfolding rok_def by (rule level_rret)

lemma level_rtry [level_intros]: "level m \<Longrightarrow> (\<And>x. level (f x)) \<Longrightarrow> level (rtry m f)"
  unfolding rtry_def by (intro level_intros)

lemma level_unless_error [level_intros]: "level m \<Longrightarrow> level (unless_error b m)"
  unfolding unless_error_def by (intro level_intros)

lemma level_rtries [level_intros]: "level m \<Longrightarrow> level (rtries n m)"
  by (induction n) (auto intro!: level_intros)

lemma level_let [level_intros]: "level (f x) \<Longrightarrow> level (let y = x in f y)"
  by simp

lemma agree_option [agree_intros]:
  "agree d m m' \<Longrightarrow> (\<And>x. agree d (f x) (f' x)) \<Longrightarrow>
   agree d (case r of None \<Rightarrow> m | Some x \<Rightarrow> f x) (case r of None \<Rightarrow> m' | Some x \<Rightarrow> f' x)"
  by (cases r) simp_all

lemma agree_let [agree_intros]: "agree d (f x) (f' x) \<Longrightarrow> agree d (let y = x in f y) (let y = x in f' y)"
  by simp

lemma agree_rtry [agree_intros]:
  "level m \<Longrightarrow> agree d m m' \<Longrightarrow> (\<And>x. agree d (f x) (f' x)) \<Longrightarrow> agree d (rtry m f) (rtry m' f')"
  unfolding rtry_def by (intro agree_intros) simp_all

lemma agree_unless_error [agree_intros]: "agree d m m' \<Longrightarrow> agree d (unless_error b m) (unless_error b m')"
  unfolding unless_error_def by (intro agree_intros level_intros)

lemma agree_rtries: "level m \<Longrightarrow> agree d m m' \<Longrightarrow> agree d (rtries n m) (rtries n m')"
proof (induction n)
  case (Suc n)
  show ?case
    unfolding rtries.simps
    by (rule agree_rtry [OF Suc.prems], rule agree_rtry [OF level_rtries [OF Suc.prems(1)] Suc.IH [OF Suc.prems]])
       (rule agree_refl)
qed (simp add: agree_refl)

lemmas value_readers = readValueOf_def readPointerValue_def read_bounds_def readArray_def read_entry_value_def readMap_def
  readString_def readStream_def readEnum_def readSet_def readScalar_def read_text_def

lemma level_readValueNested:
  assumes f: "level (pe_read_function env)" and m: "level m" shows "level (readValueNested env m)"
  unfolding readValueNested_def value_readers by (intro level_intros f m)

lemma level_readValue_below: "level (pe_read_function env) \<Longrightarrow> level (readValue_below env n)"
  by (induction n) (auto intro: level_nested level_readValueNested level_rret)

lemma agree_readValueNested:
  assumes f: "level (pe_read_function env)" and m: "level m" "agree d m m'"
  shows "agree d (readValueNested env m) (readValueNested env m')"
  unfolding readValueNested_def value_readers
  by (intro agree_intros agree_rtries level_intros f m)

lemma readValue_below_enough:
  assumes f: "level (pe_read_function env)"
  shows "CACHE_MAX_NESTING - d \<le> n \<Longrightarrow> CACHE_MAX_NESTING - d \<le> k \<Longrightarrow>
    agree d (readValue_below env n) (readValue_below env k)"
proof (induction n arbitrary: d k)
  case 0
  then have full: "CACHE_MAX_NESTING \<le> d" by simp
  show ?case
    unfolding agree_def by (cases k) (auto simp: nested_def rbind_def curEnterNested_def rret_def full)
next
  case (Suc n)
  show ?case
  proof (cases "CACHE_MAX_NESTING \<le> d")
    case True
    then show ?thesis
      unfolding agree_def by (cases k) (auto simp: nested_def rbind_def curEnterNested_def rret_def)
  next
    case False
    then obtain j where k: "k = Suc j" using Suc.prems(2) by (cases k) auto
    have "agree (Suc d) (readValue_below env n) (readValue_below env j)"
      using Suc.prems k by (intro Suc.IH) simp_all
    then show ?thesis
      unfolding k readValue_below.simps
      by (intro agree_nested agree_readValueNested level_readValue_below f)
  qed
qed

lemma readValue_agrees:
  "level (pe_read_function env) \<Longrightarrow> CACHE_MAX_NESTING - d \<le> n \<Longrightarrow> agree d (readValue env) (readValue_below env n)"
  using readValue_below_enough [of env d "CACHE_MAX_NESTING - d" n] by (auto simp: agree_def readValue_def)

lemma level_readValue [level_intros]: "level (pe_read_function env) \<Longrightarrow> level (readValue env)"
  using level_readValue_below [of env] by (auto simp: level_def readValue_def)

lemma readValue_unfold:
  assumes f: "level (pe_read_function env)"
  shows "readValue env = nested None (readValueNested env (readValue env))"
proof
  fix c :: Cursor
  let ?n = "CACHE_MAX_NESTING - cu_depth c"
  have "agree (Suc (cu_depth c)) (readValue env) (readValue_below env ?n)"
    by (rule readValue_agrees [OF f]) simp
  then have "agree (cu_depth c) (nested None (readValueNested env (readValue env))) (readValue_below env (Suc ?n))"
    unfolding readValue_below.simps by (intro agree_nested agree_readValueNested level_readValue f)
  moreover have "agree (cu_depth c) (readValue env) (readValue_below env (Suc ?n))"
    by (rule readValue_agrees [OF f]) simp
  ultimately show "readValue env c = nested None (readValueNested env (readValue env)) c"
    by (simp add: agree_def)
qed

subsection \<open>Any bytes\<close>

lemma safe_rok [safe_intros]: "safe (rok x)"
  unfolding rok_def by (rule safe_rret)

lemma safe_rtry [safe_intros]: "safe m \<Longrightarrow> (\<And>x. safe (f x)) \<Longrightarrow> safe (rtry m f)"
  unfolding rtry_def by (intro safe_intros)

lemma safe_unless_error [safe_intros]: "safe m \<Longrightarrow> safe (unless_error b m)"
  unfolding unless_error_def by (intro safe_intros)

lemma safe_rtries [safe_intros]: "safe m \<Longrightarrow> safe (rtries n m)"
  by (induction n) (auto intro!: safe_intros)

lemma safe_readValueNested:
  assumes f: "safe (pe_read_function env)" and m: "safe m" shows "safe (readValueNested env m)"
  unfolding readValueNested_def value_readers by (intro safe_intros f m)

lemma safe_readValue [safe_intros]:
  assumes f: "safe (pe_read_function env)" shows "safe (readValue env)"
proof -
  have "safe (readValue_below env n)" for n
    by (induction n) (auto intro!: safe_intros safe_readValueNested f)
  then show ?thesis by (auto simp: safe_def readValue_def)
qed

lemma safe_readConstSection: "safe (pe_read_function env) \<Longrightarrow> safe (readConstSection env)"
  unfolding readConstSection_def by (intro safe_intros)

subsection \<open>Values survive the file\<close>

text \<open>The bytes of a value, what it is once loaded, the nesting levels it takes, and the values the
  theorem is about: well-formed ones, with no live handle and no compiled function behind a pointer.\<close>

definition scalar_bytes :: "ValueStruct \<Rightarrow> byte list" where
  "scalar_bytes v =
     (if vs_type v = TYPE_VOID \<or> vs_type v = TYPE_NIL then []
      else if vs_type v = TYPE_CHAR \<or> vs_type v = TYPE_WIDECHAR
      then le_bytes 4 (ucast (pscalValueDecodeInt v) :: u32)
      else le_bytes 8 (pscalValueDecodeInt v))"

definition pointer_bytes :: "'f PPointer \<Rightarrow> byte list" where
  "pointer_bytes p =
     (case p of
        CharPointer (Some text) \<Rightarrow> [2] @ len_prefixed text
      | OtherPointer base address \<Rightarrow>
          (case (base, address = 0) of (BaseType t, True) \<Rightarrow> [4] @ ast_bytes t | _ \<Rightarrow> [3] @ le_bytes 8 address)
      | _ \<Rightarrow> [0])"

definition value_type_bytes :: "u8 \<Rightarrow> byte list" where
  "value_type_bytes t = le_bytes 4 (ucast t :: u32)"

definition optional_bytes :: "byte list option \<Rightarrow> byte list" where
  "optional_bytes s = (case s of None \<Rightarrow> [0] | Some b \<Rightarrow> [1] @ len_prefixed b)"

definition bounds_bytes :: "(int \<times> int) list \<Rightarrow> byte list" where
  "bounds_bytes bs = concat (map (\<lambda>(lb, ub). le_bytes 4 (word_of_int lb :: u32) @ le_bytes 4 (word_of_int ub :: u32)) bs)"

definition raw_bytes :: "byte list \<Rightarrow> byte list" where
  "raw_bytes raw = concat (map (\<lambda>b. value_type_bytes TYPE_BYTE @ le_bytes 8 (ucast b :: u64)) raw)"

fun value_bytes :: "'f PValue \<Rightarrow> byte list" where
  "value_bytes (PScalar v) = value_type_bytes (vs_type v) @ scalar_bytes v"
| "value_bytes (PFloat b) = value_type_bytes TYPE_FLOAT @ le_bytes 4 b"
| "value_bytes (PDouble b) = value_type_bytes TYPE_DOUBLE @ le_bytes 8 b"
| "value_bytes (PLongDouble b) = value_type_bytes TYPE_LONG_DOUBLE @ le_bytes 8 b"
| "value_bytes (PHandle t live) = value_type_bytes t"
| "value_bytes (PString t s) = value_type_bytes t @ optional_bytes s"
| "value_bytes (PEnum n i) = value_type_bytes TYPE_ENUM @ len_prefixed (case n of None \<Rightarrow> [] | Some b \<Rightarrow> b)
     @ le_bytes 4 (word_of_int i :: u32)"
| "value_bytes (PSet vs) = value_type_bytes TYPE_SET @ le_bytes 4 (word_of_int (int (length vs)) :: u32)
     @ concat (map (le_bytes 8) vs)"
| "value_bytes (PArray e p d bs raw es) = value_type_bytes TYPE_ARRAY @ le_bytes 4 (word_of_int (int (length bs)) :: u32)
     @ le_bytes 4 e @ bounds_bytes bs @ (if p then raw_bytes raw else concat (map value_bytes es))"
| "value_bytes (PMap None) = value_type_bytes TYPE_MAP @ [0]"
| "value_bytes (PMap (Some (vt, es))) = value_type_bytes TYPE_MAP @ [1] @ [vt] @ le_bytes 4 (word_of_nat (length es) :: u32)
     @ concat (map (\<lambda>(k, v). len_prefixed k @ value_bytes v) es)"
| "value_bytes (PStream s) = value_type_bytes TYPE_MEMORYSTREAM @ optional_bytes s"
| "value_bytes (PPointer p) = value_type_bytes TYPE_POINTER @ pointer_bytes p"
| "value_bytes (PLive t) = []"

definition stored_pointer :: "'f PPointer \<Rightarrow> 'f PPointer" where
  "stored_pointer p =
     (case p of
        OtherPointer base address \<Rightarrow>
          (case (base, address = 0) of
             (BaseType t, True) \<Rightarrow> OtherPointer (BaseType (stored_ast t)) 0
           | _ \<Rightarrow> OtherPointer BaseOpaque address)
      | _ \<Rightarrow> p)"

fun stored_value :: "'f PValue \<Rightarrow> 'f PValue" where
  "stored_value (PEnum n i) = PEnum (if n = Some [] then None else n) i"
| "stored_value (PArray e p d bs raw es) = PArray e p False bs raw (map stored_value es)"
| "stored_value (PMap (Some (vt, es))) = PMap (Some (vt, map (\<lambda>(k, v). (k, stored_value v)) es))"
| "stored_value (PPointer p) = PPointer (stored_pointer p)"
| "stored_value v = v"

definition pointer_levels :: "'f PPointer \<Rightarrow> nat" where
  "pointer_levels p = (case p of OtherPointer (BaseType t) a \<Rightarrow> ast_levels t | _ \<Rightarrow> 0)"

fun value_levels :: "'f PValue \<Rightarrow> nat" where
  "value_levels (PArray e p d bs raw es) = Suc (fold max (map value_levels es) 1)"
| "value_levels (PMap (Some (vt, es))) = Suc (fold max (map (\<lambda>(k, v). value_levels v) es) 0)"
| "value_levels (PPointer p) = Suc (pointer_levels p)"
| "value_levels v = 1"

definition scalar_ok :: "ValueStruct \<Rightarrow> bool" where
  "scalar_ok v \<longleftrightarrow> vs_type v \<in> set int_types \<and> v = makeScalar (vs_type v) (pscalValueDecodeInt v)
     \<or> vs_type v = TYPE_VOID \<and> vs_bits v = pscalTagVoid \<or> vs_type v = TYPE_NIL \<and> vs_bits v = pscalTagNil"

definition int32_ok :: "int \<Rightarrow> bool" where
  "int32_ok i \<longleftrightarrow> - (2 ^ 31) \<le> i \<and> i < 2 ^ 31"

definition text_ok :: "byte list option \<Rightarrow> bool" where
  "text_ok s \<longleftrightarrow> (case s of None \<Rightarrow> True | Some b \<Rightarrow> length b < 2 ^ 64)"

definition pointer_ok :: "'f PPointer \<Rightarrow> bool" where
  "pointer_ok p \<longleftrightarrow>
     (case p of
        NoPointerObj \<Rightarrow> True
      | CharPointer s \<Rightarrow> s \<noteq> None \<and> text_ok s
      | ShellFunction f \<Rightarrow> False
      | OtherPointer base address \<Rightarrow> (case base of BaseType t \<Rightarrow> ast_ok t | _ \<Rightarrow> True))"

fun value_ok :: "'f PEnv \<Rightarrow> 'f PValue \<Rightarrow> bool" where
  "value_ok env (PScalar v) \<longleftrightarrow> scalar_ok v"
| "value_ok env (PHandle t live) \<longleftrightarrow> \<not> live \<and> (t = TYPE_TASK \<or> t = TYPE_CHANNEL)"
| "value_ok env (PString t s) \<longleftrightarrow> (t = TYPE_STRING \<or> t = TYPE_UNICODE_STRING) \<and> text_ok s"
| "value_ok env (PEnum n i) \<longleftrightarrow> text_ok n \<and> int32_ok i"
| "value_ok env (PSet vs) \<longleftrightarrow> length vs < 2 ^ 31"
| "value_ok env (PArray e p d bs raw es) \<longleftrightarrow>
     p = (e = ucast TYPE_BYTE) \<and> length bs < 2 ^ 31 \<and> list_all (\<lambda>(lb, ub). int32_ok lb \<and> int32_ok ub) bs
     \<and> 0 \<le> arrayCodecElementCount bs
     \<and> (if p then length raw = nat (arrayCodecElementCount bs) \<and> es = []
        else raw = [] \<and> length es = nat (arrayCodecElementCount bs) \<and> list_all (value_ok env) es)"
| "value_ok env (PMap (Some (vt, es))) \<longleftrightarrow>
     distinct (map fst es) \<and> length es < 2 ^ 32
     \<and> list_all (\<lambda>(k, v). length k < 2 ^ 64 \<and> value_ok env v \<and> mapCoerceStored env vt (stored_value v) = stored_value v) es"
| "value_ok env (PStream s) \<longleftrightarrow> text_ok s"
| "value_ok env (PPointer p) \<longleftrightarrow> pointer_ok p"
| "value_ok env (PLive t) \<longleftrightarrow> False"
| "value_ok env v \<longleftrightarrow> True"

text \<open>What the writers append.\<close>

definition writes :: "(ByteBuf \<Rightarrow> ByteBuf option) \<Rightarrow> byte list \<Rightarrow> bool" where
  "writes w bs \<longleftrightarrow> (\<forall>out. \<exists>out'. w out = Some out' \<and> bb_data out' = bb_data out @ bs)"

lemma writesD: "writes w bs \<Longrightarrow> \<exists>out'. w out = Some out' \<and> bb_data out' = bb_data out @ bs"
  by (simp add: writes_def)

lemma writes_buf: "(\<And>out. bb_data (f out) = bb_data out @ bs) \<Longrightarrow> writes (\<lambda>out. Some (f out)) bs"
  by (simp add: writes_def)

lemma writes_after:
  assumes "writes w ys" "\<And>out. bb_data (f out) = bb_data out @ xs" shows "writes (\<lambda>out. w (f out)) (xs @ ys)"
  unfolding writes_def
proof
  fix out
  obtain out' where "w (f out) = Some out'" "bb_data out' = bb_data (f out) @ ys"
    using writesD [OF assms(1)] by blast
  then show "\<exists>out'. w (f out) = Some out' \<and> bb_data out' = bb_data out @ xs @ ys" by (simp add: assms(2))
qed

lemma type_u32: "bb_data (bufU32LE (ucast t) out) = bb_data out @ value_type_bytes t"
  by (simp add: buf_simps value_type_bytes_def)

lemma scalar_types: "scalar_ok v \<Longrightarrow> vs_type v \<in> set int_types \<union> {TYPE_VOID, TYPE_NIL}"
  by (auto simp: scalar_ok_def)

lemma decode_uint: "pscalValueDecodeUInt v = pscalValueDecodeInt v"
  by (simp add: pscalValueDecodeUInt_def pscalValueDecodeInt_def Let_def)

lemma writes_scalar:
  assumes "scalar_ok v" shows "writes (writeScalar v) (scalar_bytes v)"
proof -
  have "\<exists>f. writeScalar v = (\<lambda>out. Some (f out)) \<and> (\<forall>out. bb_data (f out) = bb_data out @ scalar_bytes v)"
    using scalar_types [OF assms] unfolding int_types_def list.set Un_insert_left sup_bot_left insert_iff empty_iff
    by (elim disjE) (auto simp: writeScalar_def fun_eq_iff scalar_bytes_def buf_simps decode_uint)
  then show ?thesis using writes_buf by force
qed

lemma byte_scalar_ok: "scalar_ok (makeScalar TYPE_BYTE (ucast b))"
    "scalar_bytes (makeScalar TYPE_BYTE (ucast (b :: byte))) = le_bytes 8 (ucast b :: u64)"
proof -
  have "ucast (ucast (ucast b :: u64) :: byte) = (ucast b :: u64)"
    by (rule bit_word_eqI) (auto simp: bit_ucast_iff dest: bit_imp_le_length)
  then have "pscalValueDecodeInt (makeScalar TYPE_BYTE (ucast b)) = ucast b"
    by (simp add: makeScalar_def pscalValueSetIntBits_def int_bits_def pscalValueDecodeInt_def)
  then show "scalar_ok (makeScalar TYPE_BYTE (ucast b))"
      "scalar_bytes (makeScalar TYPE_BYTE (ucast (b :: byte))) = le_bytes 8 (ucast b :: u64)"
    by (simp_all add: scalar_ok_def scalar_bytes_def int_types_def makeScalar_def pscalValueSetIntBits_def)
qed

lemma writes_raw: "writes (write_raw raw) (raw_bytes raw)"
proof (induction raw rule: rev_induct)
  case Nil
  show ?case by (simp add: writes_def write_raw_def raw_bytes_def)
next
  case (snoc b raw)
  have one: "writes (\<lambda>out. writeScalar (makeScalar TYPE_BYTE (ucast b)) (bufU32LE (ucast (TYPE_BYTE :: u8)) out))
      (value_type_bytes TYPE_BYTE @ le_bytes 8 (ucast b :: u64))"
    using writes_after [OF writes_scalar [OF byte_scalar_ok(1)] type_u32, of b TYPE_BYTE]
    by (simp only: byte_scalar_ok)
  show ?case
    unfolding writes_def
  proof
    fix out
    obtain out1 where 1: "write_raw raw out = Some out1" "bb_data out1 = bb_data out @ raw_bytes raw"
      using writesD [OF snoc] by blast
    obtain out2 where 2: "writeScalar (makeScalar TYPE_BYTE (ucast b)) (bufU32LE (ucast (TYPE_BYTE :: u8)) out1) = Some out2"
      "bb_data out2 = bb_data out1 @ value_type_bytes TYPE_BYTE @ le_bytes 8 (ucast b :: u64)"
      using writesD [OF one] by blast
    show "\<exists>out'. write_raw (raw @ [b]) out = Some out' \<and> bb_data out' = bb_data out @ raw_bytes (raw @ [b])"
      using 1 2 by (simp add: write_raw_def raw_bytes_def)
  qed
qed

lemma writes_values:
  "(\<And>v. v \<in> set vs \<Longrightarrow> writes (writeValue env v) (value_bytes v)) \<Longrightarrow>
   writes (write_values env (length vs) vs) (concat (map value_bytes vs))"
proof (induction vs)
  case (Cons v vs)
  have v: "writes (writeValue env v) (value_bytes v)" and vs: "writes (write_values env (length vs) vs) (concat (map value_bytes vs))"
    using Cons by simp_all
  show ?case
    unfolding writes_def
  proof
    fix out
    obtain out1 where 1: "writeValue env v out = Some out1" "bb_data out1 = bb_data out @ value_bytes v"
      using writesD [OF v] by blast
    obtain out2 where 2: "write_values env (length vs) vs out1 = Some out2" "bb_data out2 = bb_data out1 @ concat (map value_bytes vs)"
      using writesD [OF vs] by blast
    show "\<exists>out'. write_values env (length (v # vs)) (v # vs) out = Some out'
      \<and> bb_data out' = bb_data out @ concat (map value_bytes (v # vs))"
      using 1 2 by simp
  qed
qed (simp add: writes_def)

lemma writes_entries:
  "(\<And>k v. (k, v) \<in> set es \<Longrightarrow> writes (writeValue env v) (value_bytes v)) \<Longrightarrow>
   writes (write_entries env es) (concat (map (\<lambda>(k, v). len_prefixed k @ value_bytes v) es))"
proof (induction es)
  case (Cons e es)
  obtain k v where e: "e = (k, v)" by (cases e)
  have v: "writes (writeValue env v) (value_bytes v)"
    and es: "writes (write_entries env es) (concat (map (\<lambda>(k, v). len_prefixed k @ value_bytes v) es))"
    using Cons e by auto
  show ?case
    unfolding writes_def
  proof
    fix out
    obtain out1 where 1: "writeValue env v (bufLenPrefixedBytes k out) = Some out1"
      "bb_data out1 = bb_data out @ len_prefixed k @ value_bytes v"
      using writesD [OF v, of "bufLenPrefixedBytes k out"] by (auto simp: buf_simps)
    obtain out2 where 2: "write_entries env es out1 = Some out2"
      "bb_data out2 = bb_data out1 @ concat (map (\<lambda>(k, v). len_prefixed k @ value_bytes v) es)"
      using writesD [OF es] by blast
    show "\<exists>out'. write_entries env (e # es) out = Some out'
      \<and> bb_data out' = bb_data out @ concat (map (\<lambda>(k, v). len_prefixed k @ value_bytes v) (e # es))"
      using 1 2 by (simp add: e)
  qed
qed (simp add: writes_def)

lemma bounds_data: "bb_data (fold (\<lambda>(lb, ub) b. bufI32LE ub (bufI32LE lb b)) bs out) = bb_data out @ bounds_bytes bs"
  by (induction bs arbitrary: out) (auto simp: bounds_bytes_def buf_simps)

lemma set_data: "bb_data (fold bufU64LE vs out) = bb_data out @ concat (map (le_bytes 8) vs)"
  by (rule u64_codec.fold_put)

lemma writes_pointer: "pointer_ok p \<Longrightarrow> writes (writePointerValue env p) (pointer_bytes p)"
  by (auto simp: writes_def writePointerValue_def pointer_bytes_def pointer_ok_def buf_simps
      split: PPointer.splits PBase.splits option.splits bool.splits)

lemma writes_value: "value_ok env v \<Longrightarrow> writes (writeValue env v) (value_bytes v)"
proof (induction v rule: value_bytes.induct)
  case (1 v)
  then show ?case using writes_after [OF writes_scalar type_u32, of v "vs_type v"] by simp
next
  case (9 e p d bs raw es)
  let ?n = "nat (arrayCodecElementCount bs)"
  have body: "writes (\<lambda>out. if p then write_raw (take ?n raw) out else write_values env ?n es out)
      (if p then raw_bytes raw else concat (map value_bytes es))"
  proof (cases p)
    case True
    then show ?thesis using 9(2) writes_raw [of raw] by simp
  next
    case False
    have "writes (write_values env (length es) es) (concat (map value_bytes es))"
      by (rule writes_values) (use 9 False in \<open>auto simp: list_all_iff\<close>)
    then show ?thesis using 9(2) False by simp
  qed
  have "writes (\<lambda>out. (if p then write_raw (take ?n raw) (fold (\<lambda>(lb, ub) b. bufI32LE ub (bufI32LE lb b)) bs
        (bufU32LE e (bufI32LE (int (length bs)) (bufU32LE (ucast TYPE_ARRAY) out))))
      else write_values env ?n es (fold (\<lambda>(lb, ub) b. bufI32LE ub (bufI32LE lb b)) bs
        (bufU32LE e (bufI32LE (int (length bs)) (bufU32LE (ucast TYPE_ARRAY) out))))))
      ((value_type_bytes TYPE_ARRAY @ le_bytes 4 (word_of_int (int (length bs)) :: u32) @ le_bytes 4 e @ bounds_bytes bs)
        @ (if p then raw_bytes raw else concat (map value_bytes es)))"
    by (rule writes_after [OF body]) (simp add: bounds_data buf_simps value_type_bytes_def)
  moreover have "\<not> arrayCodecElementCount bs < 0" using 9(2) by simp
  ultimately show ?case by (simp only: writeValue.simps value_bytes.simps Let_def if_False append_assoc)
next
  case (11 vt es)
  have "writes (write_entries env es) (concat (map (\<lambda>(k, v). len_prefixed k @ value_bytes v) es))"
    by (rule writes_entries) (use 11 in \<open>auto simp: list_all_iff\<close>)
  then have "writes (\<lambda>out. write_entries env es (bufU32LE (word_of_nat (length es)) (bufU8 vt (bufU8 1
      (bufU32LE (ucast TYPE_MAP) out))))) ((value_type_bytes TYPE_MAP @ [1] @ [vt] @ le_bytes 4 (word_of_nat (length es) :: u32))
        @ concat (map (\<lambda>(k, v). len_prefixed k @ value_bytes v) es))"
    by (rule writes_after) (simp add: buf_simps value_type_bytes_def)
  then show ?case by (simp add: Let_def)
next
  case (13 p)
  then show ?case using writes_after [OF writes_pointer [of p env] type_u32, of TYPE_POINTER] by simp
qed (auto simp: writes_def buf_simps value_type_bytes_def set_data optional_bytes_def Let_def split: option.splits)

text \<open>What the readers make of those bytes.\<close>

lemma parses_rok: "parses d (rok x) [] (Some x)"
  unfolding rok_def by (rule parses_rret)

lemma parses_rtry: "parses d m xs (Some x) \<Longrightarrow> parses d (f x) ys y \<Longrightarrow> parses d (rtry m f) (xs @ ys) y"
  unfolding rtry_def by (erule parses_rbind) (simp only: option.case)

lemma parses_rtry_last: "parses d m xs (Some x) \<Longrightarrow> parses d (f x) [] y \<Longrightarrow> parses d (rtry m f) xs y"
  using parses_rtry [of d m xs x f "[]" y] by simp

lemma parses_unless_error: "parses d m xs y \<Longrightarrow> \<not> b \<Longrightarrow> parses d (unless_error b m) xs y"
  unfolding unless_error_def by (rule parses_rbind0 [OF parses_curError]) simp

lemma parses_rtries:
  "(\<And>x. x \<in> set xs \<Longrightarrow> parses d m (enc x) (Some (seen x))) \<Longrightarrow>
   parses d (rtries (length xs) m) (concat (map enc xs)) (Some (map seen xs))"
proof (induction xs)
  case (Cons x xs)
  have "parses d (rtry (rtries (length xs) m) (\<lambda>ys. rok (seen x # ys))) (concat (map enc xs)) (Some (seen x # map seen xs))"
    by (rule parses_rtry_last [OF Cons.IH parses_rok]) (use Cons.prems in simp)
  then show ?case using Cons.prems by (auto intro: parses_rtry)
qed (simp add: parses_rok)

lemma parses_text: "length b < 2 ^ 64 \<Longrightarrow> parses d read_text (len_prefixed b) (Some b)"
  unfolding read_text_def
  by (rule parses_rbind_last [OF parses_lenPrefixed], assumption, rule parses_rbind0 [OF parses_curError])
     (simp add: parses_rret)

lemma parses_tried: "length b < 2 ^ 64 \<Longrightarrow> parses d (rtry read_text (\<lambda>s. rok (f s))) (len_prefixed b) (Some (f b))"
  by (rule parses_rtry_last [OF parses_text parses_rok])

lemma scalar_kept: "scalar_ok v \<Longrightarrow> vs_type v \<in> set int_types \<Longrightarrow> makeScalar (vs_type v) (pscalValueDecodeInt v) = v"
  by (auto simp: scalar_ok_def int_types_def)

lemma parses_scalar8:
  assumes "scalar_ok v" "vs_type v \<in> set int_types" "vs_type v \<noteq> TYPE_CHAR" "vs_type v \<noteq> TYPE_WIDECHAR"
  shows "parses d (readScalar (vs_type v)) (scalar_bytes v) (Some (PScalar v))"
proof -
  have "vs_type v \<noteq> TYPE_VOID" "vs_type v \<noteq> TYPE_NIL" using assms(2) by (auto simp: int_types_def)
  then have "scalar_bytes v = le_bytes 8 (pscalValueDecodeInt v)" using assms by (simp add: scalar_bytes_def)
  then show ?thesis
    using assms(3) parses_rbind_last [OF parses_curU64LE, of d "\<lambda>x. rok (PScalar (makeScalar (vs_type v) x))"
        "pscalValueDecodeInt v" "Some (PScalar v)"]
    by (simp add: readScalar_def scalar_kept [OF assms(1,2)] parses_rok)
qed

lemma parses_head:
  assumes "parses d (readValueOf env m t) bs y" "t \<le> TYPE_MAP"
  shows "parses d (readValueNested env m) (value_type_bytes t @ bs) y"
proof -
  have "ucast (ucast t :: u32) = t" by (rule bit_word_eqI) (auto simp: bit_ucast_iff dest: bit_imp_le_length)
  moreover have "unat (ucast t :: u32) = unat t" by (rule unat_ucast_u8) simp
  ultimately show ?thesis
    using assms unfolding readValueNested_def value_type_bytes_def
    by (intro parses_rbind [OF parses_curU32LE] parses_unless_error) (simp_all add: word_le_nat_alt)
qed

lemma parses_head0: "parses d (readValueOf env m t) [] y \<Longrightarrow> t \<le> TYPE_MAP \<Longrightarrow> parses d (readValueNested env m) (value_type_bytes t) y"
  using parses_head [of d env m t "[]" y] by simp

lemma char_kept:
  "makeScalar TYPE_CHAR (scast (ucast (ucast (x :: u64) :: u32) :: u8)) = makeScalar TYPE_CHAR x"
  "makeScalar TYPE_WIDECHAR (ucast (ucast (x :: u64) :: u32)) = makeScalar TYPE_WIDECHAR x"
proof -
  have "ucast (scast (ucast (ucast x :: u32) :: u8) :: u64) = (ucast x :: u8)"
    by (rule bit_word_eqI) (auto simp: bit_ucast_iff bit_simps)
  then show "makeScalar TYPE_CHAR (scast (ucast (ucast (x :: u64) :: u32) :: u8)) = makeScalar TYPE_CHAR x"
    by (simp add: makeScalar_def pscalValueSetIntBits_def int_bits_def)
  have "ucast (ucast (ucast x :: u32) :: u64) = (ucast x :: u32)"
    by (rule bit_word_eqI) (auto simp: bit_ucast_iff dest: bit_imp_le_length)
  then show "makeScalar TYPE_WIDECHAR (ucast (ucast (x :: u64) :: u32)) = makeScalar TYPE_WIDECHAR x"
    by (simp add: makeScalar_def pscalValueSetIntBits_def int_bits_def)
qed

lemma parses_scalar:
  assumes ok: "scalar_ok v"
  shows "parses d (readValueNested env m) (value_type_bytes (vs_type v) @ scalar_bytes v) (Some (PScalar v))"
proof -
  consider "vs_type v = TYPE_VOID" "vs_bits v = pscalTagVoid" | "vs_type v = TYPE_NIL" "vs_bits v = pscalTagNil"
    | "vs_type v = TYPE_CHAR" "vs_type v \<in> set int_types" | "vs_type v = TYPE_WIDECHAR" "vs_type v \<in> set int_types"
    | "vs_type v \<in> set int_types" "vs_type v \<noteq> TYPE_CHAR" "vs_type v \<noteq> TYPE_WIDECHAR"
    using ok unfolding scalar_ok_def by blast
  then show ?thesis
  proof cases
    case 1
    then have "v = \<lparr>vs_type = TYPE_VOID, vs_bits = pscalTagVoid\<rparr>" by simp
    then show ?thesis
      using parses_head0 [of d env m TYPE_VOID "Some (PScalar v)"]
      by (simp add: readValueOf_def scalar_bytes_def parses_rok)
  next
    case 2
    then have "v = \<lparr>vs_type = TYPE_NIL, vs_bits = pscalTagNil\<rparr>" by simp
    then show ?thesis
      using parses_head0 [of d env m TYPE_NIL "Some (PScalar v)"]
      by (simp add: readValueOf_def scalar_bytes_def parses_rok)
  next
    case 3
    have "parses d (readScalar TYPE_CHAR) (scalar_bytes v) (Some (PScalar v))"
      using parses_rbind_last [OF parses_curU32LE, of d "\<lambda>c. rok (PScalar (makeScalar TYPE_CHAR (scast (ucast c :: u8))))"
        "ucast (pscalValueDecodeInt v)" "Some (PScalar v)"] scalar_kept [OF ok 3(2)] 3(1)
      by (simp add: readScalar_def scalar_bytes_def char_kept parses_rok)
    then show ?thesis using 3 by (intro parses_head) (simp_all add: readValueOf_def)
  next
    case 4
    have "parses d (rbind curU32LE (\<lambda>cp. unless_error False (rok (PScalar (makeScalar TYPE_WIDECHAR (ucast cp))))))
        (scalar_bytes v) (Some (PScalar v))"
      using parses_rbind_last [OF parses_curU32LE, of d "\<lambda>cp. unless_error False (rok (PScalar (makeScalar TYPE_WIDECHAR (ucast cp))))"
        "ucast (pscalValueDecodeInt v)" "Some (PScalar v)"] scalar_kept [OF ok 4(2)] 4(1)
      by (simp add: scalar_bytes_def char_kept parses_rok parses_unless_error)
    then show ?thesis using 4 by (intro parses_head) (simp_all add: readValueOf_def)
  next
    case 5
    have "readValueOf env m (vs_type v) = readScalar (vs_type v)"
      using 5 unfolding int_types_def list.set insert_iff empty_iff
      by (elim disjE) (simp_all add: readValueOf_def)
    moreover have "vs_type v \<le> TYPE_MAP"
      using 5(1) unfolding int_types_def list.set insert_iff empty_iff by (elim disjE) simp_all
    ultimately show ?thesis using parses_scalar8 [OF ok 5] by (intro parses_head) simp_all
  qed
qed

lemma parses_optional:
  assumes "text_ok s"
  shows "parses d (readString t) (optional_bytes s) (Some (PString t s))"
    "parses d readStream (optional_bytes s) (Some (PStream s))"
proof -
  show "parses d (readString t) (optional_bytes s) (Some (PString t s))"
  proof (cases s)
    case None
    then show ?thesis unfolding readString_def optional_bytes_def
      by (auto intro!: parses_rbind_last [OF parses_curU8] parses_unless_error parses_rok)
  next
    case (Some b)
    then show ?thesis using assms unfolding readString_def optional_bytes_def Some option.case
      by (intro parses_rbind [OF parses_curU8] parses_unless_error)
        (auto simp: text_ok_def intro!: parses_tried)
  qed
  show "parses d readStream (optional_bytes s) (Some (PStream s))"
  proof (cases s)
    case None
    then show ?thesis unfolding readStream_def optional_bytes_def
      by (auto intro!: parses_rbind_last [OF parses_curU8] parses_unless_error parses_rok)
  next
    case (Some b)
    then show ?thesis using assms unfolding readStream_def optional_bytes_def Some option.case
      by (intro parses_rbind [OF parses_curU8] parses_unless_error)
        (auto simp: text_ok_def intro!: parses_tried)
  qed
qed

lemma int32_kept: "int32_ok i \<Longrightarrow> to_int32 i = i"
  by (rule to_int32_id) (simp_all add: int32_ok_def)

lemma parses_enum:
  assumes "text_ok nm" "int32_ok i"
  shows "parses d readEnum (len_prefixed (case nm of None \<Rightarrow> [] | Some b \<Rightarrow> b) @ le_bytes 4 (word_of_int i :: u32))
    (Some (PEnum (if nm = Some [] then None else nm) i))"
proof -
  let ?b = "case nm of None \<Rightarrow> [] | Some b \<Rightarrow> b"
  have "length ?b < 2 ^ 64" using assms(1) by (simp add: text_ok_def split: option.splits)
  moreover have "(case Some ?b of None \<Rightarrow> None | Some n \<Rightarrow> if n = [] then None else Some n) = (if nm = Some [] then None else nm)"
    by (cases nm) auto
  moreover have i: "parses d curI32LE (le_bytes 4 (word_of_int i :: u32)) i"
    using parses_curI32LE [of d i] assms(2) by (simp add: int32_kept)
  ultimately show ?thesis
    unfolding readEnum_def
    by (intro parses_rbind [OF parses_lenPrefixed] parses_unless_error parses_rbind_last [OF i])
       (simp_all add: parses_rok)
qed

lemma parses_set:
  assumes "length vs < 2 ^ 31"
  shows "parses d readSet (le_bytes 4 (word_of_int (int (length vs)) :: u32) @ concat (map (le_bytes 8) vs)) (Some (PSet vs))"
proof -
  have n: "to_int32 (int (length vs)) = int (length vs)" using assms by (intro to_int32_id) simp_all
  have "parses d (rbind (rrepeat (nat (int (length vs))) curU64LE) (\<lambda>vs. unless_error False (rok (PSet vs))))
      (concat (map (le_bytes 8) vs)) (Some (PSet vs))"
    using parses_rbind_last [OF parses_rrepeat [of vs d curU64LE "le_bytes 8" "\<lambda>v. v"], of "\<lambda>vs. unless_error False (rok (PSet vs))" "Some (PSet vs)"]
    by (simp add: parses_curU64LE parses_unless_error parses_rok)
  then show ?thesis unfolding readSet_def
    by (intro parses_rbind [OF parses_curI32LE [of d "int (length vs)", unfolded n]] parses_unless_error)
       (auto simp: parses_rok)
qed

lemma parses_bounds:
  assumes "list_all (\<lambda>(lb, ub). int32_ok lb \<and> int32_ok ub) bs"
  shows "parses d (read_bounds (int (length bs))) (bounds_bytes bs) bs"
proof -
  have "parses d (rbind curI32LE (\<lambda>lb. rbind curI32LE (\<lambda>ub. rret (lb, ub))))
      (case b of (lb, ub) \<Rightarrow> le_bytes 4 (word_of_int lb :: u32) @ le_bytes 4 (word_of_int ub :: u32)) b"
    if "b \<in> set bs" for b
  proof -
    obtain lb ub where b: "b = (lb, ub)" by (cases b)
    then have ok: "int32_ok lb" "int32_ok ub" using assms that by (auto simp: list_all_iff)
    have i: "parses d curI32LE (le_bytes 4 (word_of_int lb :: u32)) lb" "parses d curI32LE (le_bytes 4 (word_of_int ub :: u32)) ub"
      using parses_curI32LE [of d lb] parses_curI32LE [of d ub] ok by (simp_all add: int32_kept)
    show ?thesis unfolding b prod.case
      by (rule parses_rbind [OF i(1)], rule parses_rbind_last [OF i(2)], rule parses_rret)
  qed
  then have "parses d (rrepeat (length bs) (rbind curI32LE (\<lambda>lb. rbind curI32LE (\<lambda>ub. rret (lb, ub)))))
      (concat (map (\<lambda>b. case b of (lb, ub) \<Rightarrow> le_bytes 4 (word_of_int lb :: u32) @ le_bytes 4 (word_of_int ub :: u32)) bs))
      (map (\<lambda>b. b) bs)"
    by (rule parses_rrepeat)
  then show ?thesis by (simp add: read_bounds_def bounds_bytes_def)
qed

lemma parses_pointer:
  assumes "pointer_ok p" "pointer_levels p \<le> d"
  shows "parses d (readPointerValue env) (pointer_bytes p) (Some (stored_pointer p))"
proof -
  have kind: "parses d (readPointerValue env) ([k] @ bs) y"
    if "parses d (if k = 0 then rok NoPointerObj
      else if k = 2 then rtry read_text (\<lambda>text. rok (CharPointer (Some text)))
      else if k = 3 then rbind curU64LE (\<lambda>raw_addr. unless_error False (rok (OtherPointer BaseOpaque raw_addr)))
      else if k = 4 then rbind readAst (\<lambda>base. unless_error False (rok (OtherPointer (BaseType base) 0)))
      else if k \<noteq> 1 then rret None
      else rtry (pe_read_function env) (\<lambda>f. rok (ShellFunction (Some f)))) bs y" for k bs y
    unfolding readPointerValue_def by (intro parses_rbind [OF parses_curU8] parses_unless_error) (use that in simp_all)
  have raw: "parses d (readPointerValue env) ([3] @ le_bytes 8 a) (Some (OtherPointer BaseOpaque a))" for a
  proof (rule kind)
    have "parses d (rbind curU64LE (\<lambda>raw_addr. unless_error False (rok (OtherPointer BaseOpaque raw_addr)))) (le_bytes 8 a)
        (Some (OtherPointer BaseOpaque a :: 'a PPointer))"
      by (rule parses_rbind_last [OF parses_curU64LE], rule parses_unless_error [OF parses_rok]) simp
    then show "parses d (if (3 :: byte) = 0 then rok NoPointerObj
      else if (3 :: byte) = 2 then rtry read_text (\<lambda>text. rok (CharPointer (Some text)))
      else if (3 :: byte) = 3 then rbind curU64LE (\<lambda>raw_addr. unless_error False (rok (OtherPointer BaseOpaque raw_addr)))
      else if (3 :: byte) = 4 then rbind readAst (\<lambda>base. unless_error False (rok (OtherPointer (BaseType base) 0)))
      else if (3 :: byte) \<noteq> 1 then rret None
      else rtry (pe_read_function env) (\<lambda>f. rok (ShellFunction (Some f)))) (le_bytes 8 a)
        (Some (OtherPointer BaseOpaque a))" by simp
  qed
  have typed: "parses d (readPointerValue env) ([4] @ ast_bytes t) (Some (OtherPointer (BaseType (stored_ast t)) 0))"
    if "ast_ok t" "ast_levels t \<le> d" for t
  proof (rule kind)
    have "parses d (rbind readAst (\<lambda>base. unless_error False (rok (OtherPointer (BaseType base) 0)))) (ast_bytes t)
        (Some (OtherPointer (BaseType (stored_ast t)) 0 :: 'a PPointer))"
      by (rule parses_rbind_last [OF parses_readAst [OF that]], rule parses_unless_error [OF parses_rok]) simp
    then show "parses d (if (4 :: byte) = 0 then rok NoPointerObj
      else if (4 :: byte) = 2 then rtry read_text (\<lambda>text. rok (CharPointer (Some text)))
      else if (4 :: byte) = 3 then rbind curU64LE (\<lambda>raw_addr. unless_error False (rok (OtherPointer BaseOpaque raw_addr)))
      else if (4 :: byte) = 4 then rbind readAst (\<lambda>base. unless_error False (rok (OtherPointer (BaseType base) 0)))
      else if (4 :: byte) \<noteq> 1 then rret None
      else rtry (pe_read_function env) (\<lambda>f. rok (ShellFunction (Some f)))) (ast_bytes t)
        (Some (OtherPointer (BaseType (stored_ast t)) 0))" by simp
  qed
  show ?thesis
  proof (cases p)
    case NoPointerObj
    then show ?thesis using kind [of 0 "[]" "Some NoPointerObj"]
      by (simp add: pointer_bytes_def stored_pointer_def parses_rok)
  next
    case (CharPointer s)
    then obtain b where b: "s = Some b" "length b < 2 ^ 64" using assms(1) by (auto simp: pointer_ok_def text_ok_def)
    have "parses d (rtry read_text (\<lambda>text. rok (CharPointer (Some text) :: 'a PPointer))) (len_prefixed b)
        (Some (CharPointer (Some b)))"
      by (rule parses_tried [OF b(2)])
    then show ?thesis using kind [of 2 "len_prefixed b" "Some (CharPointer (Some b))"] CharPointer b(1)
      by (simp add: pointer_bytes_def stored_pointer_def)
  next
    case (ShellFunction f)
    then show ?thesis using assms(1) by (simp add: pointer_ok_def)
  next
    case (OtherPointer base a)
    then show ?thesis using assms raw [of a] typed
      by (cases base; cases "a = 0") (simp_all add: pointer_bytes_def stored_pointer_def pointer_ok_def pointer_levels_def)
  qed
qed

lemma items_fit: "(\<And>x. x \<in> set xs \<Longrightarrow> k \<le> length (enc x)) \<Longrightarrow> k * length xs \<le> length (concat (map enc xs))"
proof (induction xs)
  case (Cons x xs)
  then have "k \<le> length (enc x)" "k * length xs \<le> length (concat (map enc xs))" by simp_all
  then show ?case by simp
qed simp

lemma parses_array:
  assumes bs: "list_all (\<lambda>(lb, ub). int32_ok lb \<and> int32_ok ub) bs" "length bs < 2 ^ 31" "0 \<le> arrayCodecElementCount bs"
    and xs: "length xs = nat (arrayCodecElementCount bs)" "\<And>x. x \<in> set xs \<Longrightarrow> 4 \<le> length (enc x)"
      "\<And>x. x \<in> set xs \<Longrightarrow> parses d m (enc x) (Some (seen x))"
  shows "parses d (readArray m) (le_bytes 4 (word_of_int (int (length bs)) :: u32) @ le_bytes 4 e @ bounds_bytes bs
      @ concat (map enc xs))
    (Some (if e = ucast TYPE_BYTE then PArray e True False bs (map (\<lambda>v. ucast (AS_INTEGER v)) (map seen xs)) []
           else PArray e False False bs [] (map seen xs)))"
proof -
  let ?n = "arrayCodecElementCount bs"
  have dims: "to_int32 (int (length bs)) = int (length bs)" using bs(2) by (intro to_int32_id) simp_all
  have items: "parses d (rtries (nat ?n) m) (concat (map enc xs)) (Some (map seen xs))"
    using parses_rtries [of xs d m enc seen] xs by simp
  have fit: "4 * nat ?n \<le> length (concat (map enc xs))" using items_fit [of xs 4 enc] xs(1,2) by simp
  show ?thesis
    unfolding readArray_def Let_def
    apply (rule parses_rbind [OF parses_curI32LE [of d "int (length bs)", unfolded dims]], rule parses_unless_error)
     apply (rule parses_rbind [OF parses_curU32LE], rule parses_unless_error)
      apply (rule parses_rbind [OF parses_bounds [OF bs(1)]], rule parses_rbind0 [OF parses_curError])
      apply (rule parses_if_False, rule parses_if_False, rule parses_remaining, rule parses_if_False)
         apply (rule parses_rtry_last [OF items])
    using bs(3) fit by (auto simp: parses_rok)
qed

lemma parses_entries:
  assumes "\<And>k v. (k, v) \<in> set es \<Longrightarrow> length k < 2 ^ 64 \<and> parses d m (value_bytes v) (Some (stored_value v))"
  shows "parses d (rtries (length es) (read_entry_value m)) (concat (map (\<lambda>(k, v). len_prefixed k @ value_bytes v) es))
    (Some (map (\<lambda>(k, v). (k, stored_value v)) es))"
proof (rule parses_rtries)
  fix x assume "x \<in> set es"
  moreover obtain k v where x: "x = (k, v)" by (cases x)
  ultimately have k: "length k < 2 ^ 64" and v: "parses d m (value_bytes v) (Some (stored_value v))"
    using assms by auto
  show "parses d (read_entry_value m) (case x of (k, v) \<Rightarrow> len_prefixed k @ value_bytes v)
      (Some (case x of (k, v) \<Rightarrow> (k, stored_value v)))"
    unfolding x prod.case read_entry_value_def
    by (rule parses_rtry [OF parses_text [OF k]], rule parses_rtry_last [OF v], rule parses_rok)
qed

lemma fold_alist_set:
  "distinct (map fst acc @ map fst es) \<Longrightarrow> (\<And>k v. (k, v) \<in> set es \<Longrightarrow> f v = v) \<Longrightarrow>
   fold (\<lambda>(k, v) m. alist_set k (f v) m) es acc = acc @ es"
proof (induction es arbitrary: acc)
  case (Cons e es)
  obtain k v where e: "e = (k, v)" by (cases e)
  have "k \<notin> fst ` set acc" using Cons.prems(1) by (auto simp: e)
  then have "alist_set k (f v) acc = acc @ [(k, v)]" using Cons.prems(2) [of k v] by (simp add: alist_set_fresh e)
  then show ?case using Cons.IH [of "acc @ [(k, v)]"] Cons.prems by (auto simp: e)
qed simp

lemma parses_map:
  assumes es: "distinct (map fst es)" "length es < 2 ^ 32"
    and sub: "\<And>k v. (k, v) \<in> set es \<Longrightarrow> length k < 2 ^ 64 \<and> parses d m (value_bytes v) (Some (stored_value v))
      \<and> mapCoerceStored env vt (stored_value v) = stored_value v"
  shows "parses d (readMap env m) ([1] @ [vt] @ le_bytes 4 (word_of_nat (length es) :: u32)
      @ concat (map (\<lambda>(k, v). len_prefixed k @ value_bytes v) es))
    (Some (PMap (Some (vt, map (\<lambda>(k, v). (k, stored_value v)) es))))"
proof -
  let ?es = "map (\<lambda>(k, v). (k, stored_value v)) es"
  have n: "unat (word_of_nat (length es) :: u32) = length es"
    using es(2) by (simp add: unsigned_of_nat take_bit_nat_eq_self)
  have items: "parses d (rtries (length es) (read_entry_value m))
      (concat (map (\<lambda>(k, v). len_prefixed k @ value_bytes v) es)) (Some ?es)"
    using sub by (intro parses_entries) blast
  have keys: "map fst ?es = map fst es" by auto
  have fix_item: "mapCoerceStored env vt v = v" if "(k, v) \<in> set ?es" for k v using that sub by auto
  have filled: "fold (\<lambda>(key, item) m. alist_set key (mapCoerceStored env vt item) m) ?es [] = [] @ ?es"
    by (rule fold_alist_set) (use es(1) fix_item in \<open>simp_all only: keys list.map(1) append_Nil\<close>)
  show ?thesis
    unfolding readMap_def
    apply (rule parses_rbind [OF parses_curU8], rule parses_unless_error, rule parses_if_False)
      apply (rule parses_rbind [OF parses_curU8], rule parses_rbind [OF parses_curU32LE], rule parses_unless_error)
       apply (unfold n, rule parses_rtry_last [OF items])
    by (simp_all add: filled parses_rok)
qed

lemma value_bytes_long: "value_ok env v \<Longrightarrow> 4 \<le> length (value_bytes v)"
  by (cases v rule: value_bytes.cases) (simp_all add: value_type_bytes_def)

lemma readValue_byte:
  assumes "level (pe_read_function env)"
  shows "parses (Suc d) (readValue env) (value_type_bytes TYPE_BYTE @ le_bytes 8 (ucast (b :: byte) :: u64))
    (Some (PScalar (makeScalar TYPE_BYTE (ucast b))))"
proof -
  have "vs_type (makeScalar TYPE_BYTE (ucast b)) = TYPE_BYTE" by (simp add: makeScalar_def pscalValueSetIntBits_def)
  then show ?thesis
    using parses_scalar [OF byte_scalar_ok(1), of d env "readValue env" b]
    by (subst readValue_unfold [OF assms]) (simp add: parses_nested byte_scalar_ok)
qed

lemma parses_enter:
  assumes "level (pe_read_function env)" "parses k (readValueNested env (readValue env)) bs y" "Suc k \<le> d"
  shows "parses d (readValue env) bs y"
proof (rule parses_weaken)
  show "parses (Suc k) (readValue env) bs y"
    by (subst readValue_unfold [OF assms(1)]) (rule parses_nested [OF assms(2)])
qed (rule assms(3))

text \<open>The values with nothing nested in them.\<close>

lemma parses_plain:
  "scalar_ok v \<Longrightarrow> parses k (readValueNested env m) (value_bytes (PScalar v)) (Some (PScalar v))"
  "parses k (readValueNested env m) (value_bytes (PFloat b32)) (Some (PFloat b32))"
  "parses k (readValueNested env m) (value_bytes (PDouble b)) (Some (PDouble b))"
  "parses k (readValueNested env m) (value_bytes (PLongDouble b)) (Some (PLongDouble b))"
  "t = TYPE_TASK \<or> t = TYPE_CHANNEL \<Longrightarrow> parses k (readValueNested env m) (value_bytes (PHandle t False)) (Some (PHandle t False))"
  "t = TYPE_STRING \<or> t = TYPE_UNICODE_STRING \<Longrightarrow> text_ok s \<Longrightarrow>
     parses k (readValueNested env m) (value_bytes (PString t s)) (Some (PString t s))"
  "text_ok s \<Longrightarrow> int32_ok i \<Longrightarrow>
     parses k (readValueNested env m) (value_bytes (PEnum s i)) (Some (stored_value (PEnum s i)))"
  "length vs < 2 ^ 31 \<Longrightarrow> parses k (readValueNested env m) (value_bytes (PSet vs)) (Some (PSet vs))"
  "parses k (readValueNested env m) (value_bytes (PMap None)) (Some (PMap None))"
  "text_ok s \<Longrightarrow> parses k (readValueNested env m) (value_bytes (PStream s)) (Some (PStream s))"
proof -
  show "scalar_ok v \<Longrightarrow> parses k (readValueNested env m) (value_bytes (PScalar v)) (Some (PScalar v))"
    by (simp add: parses_scalar)
  have "parses k (rbind curF32LE (\<lambda>b. rok (PFloat b))) (le_bytes 4 b32) (Some (PFloat b32 :: 'a PValue))"
    by (rule parses_rbind_last [OF parses_curF32LE parses_rok])
  then show "parses k (readValueNested env m) (value_bytes (PFloat b32)) (Some (PFloat b32))"
    unfolding value_bytes.simps by (intro parses_head) (simp_all add: readValueOf_def)
  have "parses k (rbind curF64LE (\<lambda>b. rok (PDouble b))) (le_bytes 8 b) (Some (PDouble b :: 'a PValue))"
    by (rule parses_rbind_last [OF parses_curF64LE parses_rok])
  then show "parses k (readValueNested env m) (value_bytes (PDouble b)) (Some (PDouble b))"
    unfolding value_bytes.simps by (intro parses_head) (simp_all add: readValueOf_def)
  have "parses k (rbind curF64LE (\<lambda>b. rok (PLongDouble b))) (le_bytes 8 b) (Some (PLongDouble b :: 'a PValue))"
    by (rule parses_rbind_last [OF parses_curF64LE parses_rok])
  then show "parses k (readValueNested env m) (value_bytes (PLongDouble b)) (Some (PLongDouble b))"
    unfolding value_bytes.simps by (intro parses_head) (simp_all add: readValueOf_def)
  show "t = TYPE_TASK \<or> t = TYPE_CHANNEL \<Longrightarrow> parses k (readValueNested env m) (value_bytes (PHandle t False)) (Some (PHandle t False))"
    unfolding value_bytes.simps by (rule parses_head0) (auto simp: readValueOf_def parses_rok)
  show "t = TYPE_STRING \<or> t = TYPE_UNICODE_STRING \<Longrightarrow> text_ok s \<Longrightarrow>
     parses k (readValueNested env m) (value_bytes (PString t s)) (Some (PString t s))"
    using parses_optional(1) [of s k t] unfolding value_bytes.simps
    by (intro parses_head) (auto simp: readValueOf_def)
  show "text_ok s \<Longrightarrow> int32_ok i \<Longrightarrow>
     parses k (readValueNested env m) (value_bytes (PEnum s i)) (Some (stored_value (PEnum s i)))"
    using parses_enum [of s i k] unfolding value_bytes.simps stored_value.simps
    by (intro parses_head) (simp_all add: readValueOf_def)
  show "length vs < 2 ^ 31 \<Longrightarrow> parses k (readValueNested env m) (value_bytes (PSet vs)) (Some (PSet vs))"
    using parses_set [of vs k] unfolding value_bytes.simps
    by (intro parses_head) (simp_all add: readValueOf_def)
  have "parses k (readMap env m) [0] (Some (PMap None))"
    unfolding readMap_def by (rule parses_rbind_last [OF parses_curU8], rule parses_unless_error) (simp_all add: parses_rok)
  then show "parses k (readValueNested env m) (value_bytes (PMap None)) (Some (PMap None))"
    unfolding value_bytes.simps by (intro parses_head) (simp_all add: readValueOf_def)
  show "text_ok s \<Longrightarrow> parses k (readValueNested env m) (value_bytes (PStream s)) (Some (PStream s))"
    using parses_optional(2) [of s k] unfolding value_bytes.simps
    by (intro parses_head) (simp_all add: readValueOf_def)
qed

lemma parses_value:
  assumes f: "level (pe_read_function env)"
  shows "value_ok env v \<Longrightarrow> value_levels v \<le> d \<Longrightarrow> parses d (readValue env) (value_bytes v) (Some (stored_value v))"
proof (induction v arbitrary: d rule: value_bytes.induct)
  case (9 e p dyn bs raw es)
  obtain k where d: "d = Suc k" "fold max (map value_levels es) 1 \<le> k" using 9(3) by (cases d) auto
  then have "1 \<le> k" using fold_max_ge [of 1 "map value_levels es"] by linarith
  then obtain j where k: "k = Suc j" by (cases k) auto
  have ok: "p = (e = ucast TYPE_BYTE)" "list_all (\<lambda>(lb, ub). int32_ok lb \<and> int32_ok ub) bs" "length bs < 2 ^ 31"
    "0 \<le> arrayCodecElementCount bs" using 9(2) by simp_all
  have "parses k (readArray (readValue env)) (le_bytes 4 (word_of_int (int (length bs)) :: u32) @ le_bytes 4 e
      @ bounds_bytes bs @ (if p then raw_bytes raw else concat (map value_bytes es)))
      (Some (PArray e p False bs raw (map stored_value es)))"
  proof (cases p)
    case True
    then have raw: "length raw = nat (arrayCodecElementCount bs)" "es = []" using 9(2) by simp_all
    have "ucast (AS_INTEGER (PScalar (makeScalar TYPE_BYTE (ucast b)) :: 'a PValue)) = b" for b :: byte
    proof -
      have "ucast (ucast (ucast (ucast b :: u64) :: byte) :: u64) = b"
        by (rule bit_word_eqI) (auto simp: bit_ucast_iff dest: bit_imp_le_length)
      then show ?thesis
        by (simp add: AS_INTEGER_def asI64_def makeScalar_def pscalValueSetIntBits_def int_bits_def pscalValueDecodeUInt_def)
    qed
    then have raw_back: "map (\<lambda>v. ucast (AS_INTEGER v)) (map (\<lambda>b. PScalar (makeScalar TYPE_BYTE (ucast b)) :: 'a PValue) raw) = raw"
      by (simp add: comp_def)
    show ?thesis
      using parses_array [OF ok(2-4), of raw "\<lambda>b. value_type_bytes TYPE_BYTE @ le_bytes 8 (ucast b :: u64)" k "readValue env"
          "\<lambda>b. PScalar (makeScalar TYPE_BYTE (ucast b))" e] raw readValue_byte [OF f, of j] True ok(1) raw_back
      by (simp add: k raw_bytes_def value_type_bytes_def del: map_map)
  next
    case False
    then have es: "raw = []" "length es = nat (arrayCodecElementCount bs)" "list_all (value_ok env) es"
      using 9(2) by simp_all
    have "parses k (readValue env) (value_bytes v) (Some (stored_value v))" if "v \<in> set es" for v
    proof -
      have "value_levels v \<le> fold max (map value_levels es) 1" using that by (intro fold_max_member) simp
      then show ?thesis using 9(1) [OF False that] es(3) that d(2) by (auto simp: list_all_iff)
    qed
    then show ?thesis
      using parses_array [OF ok(2-4), of es value_bytes k "readValue env" stored_value e] es False ok(1) value_bytes_long
      by (auto simp: list_all_iff)
  qed
  then have "parses k (readValueNested env (readValue env)) (value_bytes (PArray e p dyn bs raw es))
      (Some (stored_value (PArray e p dyn bs raw es)))"
    unfolding value_bytes.simps stored_value.simps by (intro parses_head) (simp_all add: readValueOf_def)
  then show ?case by (rule parses_enter [OF f]) (simp add: d(1))
next
  case (11 vt es)
  obtain k where d: "d = Suc k" "fold max (map (\<lambda>(k, v). value_levels v) es) 0 \<le> k" using 11(3) by (cases d) auto
  have sub: "length key < 2 ^ 64 \<and> parses k (readValue env) (value_bytes v) (Some (stored_value v))
      \<and> mapCoerceStored env vt (stored_value v) = stored_value v" if "(key, v) \<in> set es" for key v
  proof -
    have "value_levels v \<in> set (map (\<lambda>(k, v). value_levels v) es)" using that by force
    then have "value_levels v \<le> fold max (map (\<lambda>(k, v). value_levels v) es) 0" by (rule fold_max_member)
    then show ?thesis using 11(1) [OF that refl] 11(2) that d(2) by (auto simp: list_all_iff)
  qed
  have "parses k (readMap env (readValue env)) ([1] @ [vt] @ le_bytes 4 (word_of_nat (length es) :: u32)
      @ concat (map (\<lambda>(k, v). len_prefixed k @ value_bytes v) es))
      (Some (PMap (Some (vt, map (\<lambda>(k, v). (k, stored_value v)) es))))"
    by (rule parses_map) (use 11(2) sub in auto)
  then have "parses k (readValueNested env (readValue env)) (value_bytes (PMap (Some (vt, es))))
      (Some (stored_value (PMap (Some (vt, es)))))"
    unfolding value_bytes.simps stored_value.simps by (intro parses_head) (simp_all add: readValueOf_def)
  then show ?case by (rule parses_enter [OF f]) (simp add: d(1))
next
  case (13 p)
  obtain k where d: "d = Suc k" "pointer_levels p \<le> k" using 13(2) by (cases d) auto
  have "parses k (rtry (readPointerValue env) (\<lambda>p. rok (PPointer p))) (pointer_bytes p) (Some (PPointer (stored_pointer p)))"
    by (rule parses_rtry_last [OF parses_pointer parses_rok]) (use 13(1) d(2) in simp_all)
  then have "parses k (readValueNested env (readValue env)) (value_bytes (PPointer p)) (Some (stored_value (PPointer p)))"
    unfolding value_bytes.simps stored_value.simps by (intro parses_head) (simp_all add: readValueOf_def)
  then show ?case by (rule parses_enter [OF f]) (simp add: d(1))
next
  case (1 v)
  then show ?case using parses_enter [OF f parses_plain(1) [where k = 0 and v = v]] by simp
next
  case (2 b)
  then show ?case using parses_enter [OF f parses_plain(2) [where k = 0 and ?b32.0 = b]] by simp
next
  case (3 b)
  then show ?case using parses_enter [OF f parses_plain(3) [where k = 0 and b = b]] by simp
next
  case (4 b)
  then show ?case using parses_enter [OF f parses_plain(4) [where k = 0 and b = b]] by simp
next
  case (5 t live)
  then show ?case using parses_enter [OF f parses_plain(5) [where k = 0 and t = t]] by simp
next
  case (6 t s)
  then show ?case using parses_enter [OF f parses_plain(6) [where k = 0 and t = t and s = s]] by simp
next
  case (7 n i)
  then show ?case using parses_enter [OF f parses_plain(7) [where k = 0 and s = n and i = i]] by simp
next
  case (8 vs)
  then show ?case using parses_enter [OF f parses_plain(8) [where k = 0 and vs = vs]] by simp
next
  case (10)
  then show ?case using parses_enter [OF f parses_plain(9) [where k = 0]] by simp
next
  case (12 s)
  then show ?case using parses_enter [OF f parses_plain(10) [where k = 0 and s = s]] by simp
next
  case (14 t)
  then show ?case by simp
qed


lemma writes_constants:
  assumes "\<And>v. v \<in> set pool \<Longrightarrow> value_ok env v"
  shows "writes (writeConstSection env pool) (varint_bytes (word_of_nat (length pool)) @ concat (map value_bytes pool))"
proof -
  have "writes (write_values env (length pool) pool) (concat (map value_bytes pool))"
    by (rule writes_values) (use assms writes_value in blast)
  then show ?thesis
    unfolding writeConstSection_def by (rule writes_after) (rule bufVarint_data)
qed

lemma parses_constants:
  assumes f: "level (pe_read_function env)"
    and ok: "\<And>v. v \<in> set pool \<Longrightarrow> value_ok env v \<and> value_levels v \<le> d" and n: "length pool < 2 ^ 31"
  shows "parses d (readConstSection env) (varint_bytes (word_of_nat (length pool)) @ concat (map value_bytes pool))
           (Some (map stored_value pool))"
proof -
  have "unat (word_of_nat (length pool) :: u64) = length pool" using n by (simp add: unat_of_nat)
  moreover have "parses d (rtries (length pool) (readValue env)) (concat (map value_bytes pool)) (Some (map stored_value pool))"
    by (rule parses_rtries) (use parses_value [OF f] ok in blast)
  ultimately show ?thesis
    unfolding readConstSection_def
    by (intro parses_rbind [OF parses_curVarint] parses_unless_error) (use n in simp_all)
qed

subsection \<open>The constant pool survives the file\<close>

text \<open>C31: Writing a constant pool and reading the section back gives the stored form of each of its values
  (\<open>stored_value\<close>), for every pool of well-formed values nested at most as deep as the reader allows: scalars of every
  kind, reals, strings, enumerations, sets, arrays of any dimension (packed bytes or values), maps, memory
  streams and pointers. The stored form is the value itself but for what the format has no bytes for: an empty
  enumeration name is no name, a dynamic array becomes static, and of the base of an ordinary pointer only the type
  description of a nil pointer is kept, less the fields of its nodes that are not written: any other base, the
  sentinels for a string's length and for the bytes of an array among them, comes back opaque. The reader stops
  exactly where the section ends, whatever follows it.\<close>
theorem constants_roundtrip:
  assumes "level (pe_read_function env)"
    and "list_all (\<lambda>v. value_ok env v \<and> value_levels v \<le> CACHE_MAX_NESTING) pool" and "length pool < 2 ^ 31"
  shows "\<exists>out. writeConstSection env pool bufInit = Some out
    \<and> (\<exists>c. readConstSection env (curInit (bb_data out @ rest) (length (bb_data out @ rest))) = Inr (Some (map stored_value pool), c)
          \<and> cu_pos c = length (bb_data out) \<and> \<not> cu_error c)"
proof -
  let ?bs = "varint_bytes (word_of_nat (length pool)) @ concat (map value_bytes pool)"
  obtain out where out: "writeConstSection env pool bufInit = Some out" "bb_data out = ?bs"
    using writesD [OF writes_constants [of pool env], of bufInit] assms(2) by (auto simp: list_all_iff bufInit_def)
  have "parses CACHE_MAX_NESTING (readConstSection env) ?bs (Some (map stored_value pool))"
    by (rule parses_constants [OF assms(1) _ assms(3)]) (use assms(2) in \<open>simp add: list_all_iff\<close>)
  from parsesD [OF this, of "curInit (?bs @ rest) (length (?bs @ rest))"]
  have "readConstSection env (curInit (?bs @ rest) (length (?bs @ rest)))
      = Inr (Some (map stored_value pool), adv (length ?bs) (curInit (?bs @ rest) (length (?bs @ rest))))"
    by (simp add: at_def cur_wf_def curInit_def)
  with out show ?thesis
    by (intro exI [of _ out] conjI exI [of _ "adv (length ?bs) (curInit (?bs @ rest) (length (?bs @ rest)))"])
      (simp_all only: append_assoc, simp_all add: curInit_def)
qed

definition demo_env :: "unit PEnv" where
  "demo_env = \<lparr>pe_write_function = (\<lambda>f out. None), pe_read_function = rret None, pe_to_double = vs_bits\<rparr>"

definition demo_pool :: "unit PValue list" where
  "demo_pool = [PString TYPE_STRING (Some [104, 105]), PDouble 7, PSet [3, 9], PEnum (Some [67]) 2,
     PArray (ucast TYPE_BYTE) True False [(1, 3)] [1, 2, 255] [],
     PArray (ucast TYPE_STRING) False True [(0, 1)] [] [PString TYPE_STRING None, PString TYPE_STRING (Some [120])],
     PMap (Some (TYPE_UNKNOWN, [([107], PStream (Some [0, 1])), ([], PPointer (CharPointer (Some [97])))])),
     PPointer NoPointerObj, PScalar (makeScalar TYPE_BYTE 77)]"

lemma constants_roundtrip_witness:
  "\<exists>out. writeConstSection demo_env demo_pool bufInit = Some out
    \<and> (\<exists>c. readConstSection demo_env (curInit (bb_data out @ [1, 2]) (length (bb_data out @ [1, 2])))
          = Inr (Some (map stored_value demo_pool), c)
          \<and> cu_pos c = length (bb_data out) \<and> \<not> cu_error c)
    \<and> map stored_value demo_pool ! 5
        = PArray (ucast TYPE_STRING) False False [(0, 1)] [] [PString TYPE_STRING None, PString TYPE_STRING (Some [120])]"
proof -
  have f: "level (pe_read_function demo_env)" by (simp add: demo_env_def level_def rret_def)
  have ok: "list_all (\<lambda>v. value_ok demo_env v \<and> value_levels v \<le> CACHE_MAX_NESTING) demo_pool" "length demo_pool < 2 ^ 31"
    using byte_scalar_ok [of 77]
    by (simp_all add: demo_pool_def CACHE_MAX_NESTING_def text_ok_def int32_ok_def arrayCodecElementCount_def
        mapCoerceStored_def pointer_ok_def pointer_levels_def)
  have "map stored_value demo_pool ! 5
        = PArray (ucast TYPE_STRING) False False [(0, 1)] [] [PString TYPE_STRING None, PString TYPE_STRING (Some [120])]"
    by (simp add: demo_pool_def)
  then show ?thesis using constants_roundtrip [OF f ok, of "[1, 2]"] by blast
qed

end
