(* ===== verification/FxPolicy.thy ===== *)
theory FxPolicy
  imports ValueCodec TypeRegistry
begin

section \<open>The effect policy: denied effects and the call journal\<close>

text \<open>
  \<open>vm/vm_fx_policy.c\<close>, the framed values of \<open>core/cache.c\<close> it journals with, and \<open>vmApplyFxPolicy\<close> of
  \<open>vm/vm.c\<close>, the gate in front of every builtin call. A journal is a list of bytes; whether a file
  can be opened is an argument, and writes to an open file succeed. The journal's mutex makes each
  recorded call and each replayed call one step, which is how they are modelled.

  The journal looks behind the arguments of a call: a non-null pointer argument points to a value cell
  and a memory stream is shared by everything that refers to it. Cells and streams live in a store, so
  two arguments may share one.
\<close>

subsection \<open>Effect masks and deny lists\<close>

type_synonym EffectMask = u32

definition FX_PURE :: EffectMask where "FX_PURE = 0"
definition FX_IO :: EffectMask where "FX_IO = push_bit 0 1"
definition FX_NET :: EffectMask where "FX_NET = push_bit 1 1"
definition FX_PROC :: EffectMask where "FX_PROC = push_bit 2 1"
definition FX_CLOCK :: EffectMask where "FX_CLOCK = push_bit 3 1"
definition FX_RANDOM :: EffectMask where "FX_RANDOM = push_bit 4 1"
definition FX_EXT :: EffectMask where "FX_EXT = push_bit 5 1"

definition FX_ALL_KNOWN :: EffectMask where
  "FX_ALL_KNOWN = (FX_IO OR FX_NET OR FX_PROC OR FX_CLOCK OR FX_RANDOM OR FX_EXT)"

text \<open>\<open>strtok_r\<close> with the delimiter ',': the next token and what is left.\<close>

definition next_token :: "string \<Rightarrow> (string \<times> string) option" where
  "next_token s =
     (let t = dropWhile (\<lambda>c. c = CHR '','') s in
      if t = [] then None else Some (takeWhile (\<lambda>c. c \<noteq> CHR '','') t, drop 1 (dropWhile (\<lambda>c. c \<noteq> CHR '','') t)))"

definition trim_spaces :: "string \<Rightarrow> string" where
  "trim_spaces tok = rev (dropWhile (\<lambda>c. c = CHR '' '') (rev (dropWhile (\<lambda>c. c = CHR '' '') tok)))"

definition deny_token :: "string \<Rightarrow> EffectMask option" where
  "deny_token tok =
     (if same_name tok ''io'' then Some FX_IO
      else if same_name tok ''net'' then Some FX_NET
      else if same_name tok ''proc'' then Some FX_PROC
      else if same_name tok ''clock'' then Some FX_CLOCK
      else if same_name tok ''random'' then Some FX_RANDOM
      else if same_name tok ''ext'' then Some FX_EXT
      else if same_name tok ''all'' then Some FX_ALL_KNOWN
      else None)"

lemma next_token_shorter: "next_token s = Some (tok, rest) \<Longrightarrow> length rest < length s"
proof -
  assume "next_token s = Some (tok, rest)"
  then have t: "dropWhile (\<lambda>c. c = CHR '','') s \<noteq> []"
    and r: "rest = drop 1 (dropWhile (\<lambda>c. c \<noteq> CHR '','') (dropWhile (\<lambda>c. c = CHR '','') s))"
    by (auto simp: next_token_def Let_def split: if_splits)
  have "length (dropWhile (\<lambda>c. c \<noteq> CHR '','') (dropWhile (\<lambda>c. c = CHR '','') s)) \<le> length s"
    using length_dropWhile_le order_trans by blast
  moreover have "0 < length s" using t by (cases s) auto
  ultimately show ?thesis unfolding r length_drop by linarith
qed

function deny_tokens :: "string \<Rightarrow> EffectMask \<Rightarrow> bool \<times> EffectMask" where
  "deny_tokens buf denied =
     (case next_token buf of
        None \<Rightarrow> (True, denied)
      | Some (tok, rest) \<Rightarrow>
          let tok = trim_spaces tok in
          if tok = [] then deny_tokens rest denied
          else case deny_token tok of
                 None \<Rightarrow> (False, denied)
               | Some m \<Rightarrow> deny_tokens rest (denied OR m))"
  by pat_completeness auto
termination by (relation "measure (\<lambda>(buf, denied). length buf)") (auto simp: next_token_shorter)

declare deny_tokens.simps [simp del]

definition pscalFxParseDenyList :: "string option \<Rightarrow> bool \<times> EffectMask" where
  "pscalFxParseDenyList csv =
     (case csv of
        None \<Rightarrow> (True, FX_PURE)
      | Some s \<Rightarrow>
          if s = [] then (True, FX_PURE)
          else if 256 \<le> length s then (False, FX_PURE)
          else deny_tokens s FX_PURE)"

subsection \<open>The policy in force\<close>

text \<open>\<open>fx_record_file\<close> is what the open journal holds so far, \<open>fx_replay_file\<close> what is left to read.\<close>

record FxPolicy =
  fx_cli_denied_mask :: EffectMask
  fx_env_once :: bool
  fx_env_denied_mask :: EffectMask
  fx_record_file :: "byte list option"
  fx_replay_file :: "byte list option"

definition fx_initial :: FxPolicy where
  "fx_initial = \<lparr>fx_cli_denied_mask = FX_PURE, fx_env_once = False, fx_env_denied_mask = FX_PURE,
     fx_record_file = None, fx_replay_file = None\<rparr>"

definition pscalFxSetDeniedMask :: "EffectMask \<Rightarrow> FxPolicy \<Rightarrow> FxPolicy" where
  "pscalFxSetDeniedMask denied st = st\<lparr>fx_cli_denied_mask := denied\<rparr>"

definition pscalFxGetDeniedMask :: "FxPolicy \<Rightarrow> EffectMask" where
  "pscalFxGetDeniedMask st = fx_cli_denied_mask st"

text \<open>\<open>getenv("PSCAL_VM_DENY")\<close> is an argument; \<open>pthread_once\<close> is the flag.\<close>

definition pscalFxInitEnvDeniedMaskOnce :: "string option \<Rightarrow> FxPolicy \<Rightarrow> FxPolicy" where
  "pscalFxInitEnvDeniedMaskOnce env st =
     (case env of
        None \<Rightarrow> st
      | Some s \<Rightarrow>
          if s = [] then st
          else case pscalFxParseDenyList env of
                 (True, parsed) \<Rightarrow> st\<lparr>fx_env_denied_mask := parsed\<rparr>
               | (False, _) \<Rightarrow> st)"

definition pscalFxEffectiveDeniedMask :: "string option \<Rightarrow> FxPolicy \<Rightarrow> EffectMask \<times> FxPolicy" where
  "pscalFxEffectiveDeniedMask env st =
     (let st = (if fx_env_once st then st else (pscalFxInitEnvDeniedMaskOnce env st)\<lparr>fx_env_once := True\<rparr>)
      in (fx_cli_denied_mask st OR fx_env_denied_mask st, st))"

definition pscalFxPolicyActive :: "string option \<Rightarrow> FxPolicy \<Rightarrow> bool \<times> FxPolicy" where
  "pscalFxPolicyActive env st =
     (let (denied, st) = pscalFxEffectiveDeniedMask env st
      in (denied \<noteq> FX_PURE \<or> fx_record_file st \<noteq> None \<or> fx_replay_file st \<noteq> None, st))"

definition kFxJournalMagic :: "byte list" where
  "kFxJournalMagic = bytes_of ''PSFX''"

definition FX_JOURNAL_VERSION :: byte where
  "FX_JOURNAL_VERSION = 1"

text \<open>\<open>opened\<close> is whether \<open>fopen\<close> succeeds, and for a replay what the file holds.\<close>

definition pscalFxBeginRecord :: "string \<Rightarrow> bool \<Rightarrow> FxPolicy \<Rightarrow> bool \<times> FxPolicy" where
  "pscalFxBeginRecord filename opened st =
     (if filename = [] \<or> fx_record_file st \<noteq> None \<or> fx_replay_file st \<noteq> None \<or> \<not> opened then (False, st)
      else (True, st\<lparr>fx_record_file := Some (kFxJournalMagic @ [FX_JOURNAL_VERSION])\<rparr>))"

definition pscalFxBeginReplay :: "string \<Rightarrow> byte list option \<Rightarrow> FxPolicy \<Rightarrow> bool \<times> FxPolicy" where
  "pscalFxBeginReplay filename opened st =
     (if filename = [] \<or> fx_record_file st \<noteq> None \<or> fx_replay_file st \<noteq> None then (False, st)
      else case opened of
        None \<Rightarrow> (False, st)
      | Some f \<Rightarrow>
          if length f < 4 \<or> take 4 f \<noteq> kFxJournalMagic \<or> length f < 5 \<or> f ! 4 \<noteq> FX_JOURNAL_VERSION then (False, st)
          else (True, st\<lparr>fx_replay_file := Some (drop 5 f)\<rparr>))"

definition pscalFxEndSession :: "FxPolicy \<Rightarrow> FxPolicy" where
  "pscalFxEndSession st = st\<lparr>fx_record_file := None, fx_replay_file := None, fx_cli_denied_mask := FX_PURE\<rparr>"

definition pscalFxIsCliFlag :: "string \<Rightarrow> bool" where
  "pscalFxIsCliFlag arg \<longleftrightarrow> arg = ''--deny'' \<or> arg = ''--fx-record'' \<or> arg = ''--fx-replay''"

text \<open>\<open>disk\<close> is the file system as far as the journal sees it: whether a path can be created, and
  what a path holds.\<close>

definition pscalFxHandleCliFlag ::
  "(string \<Rightarrow> bool) \<times> (string \<Rightarrow> byte list option) \<Rightarrow> string \<Rightarrow> string option \<Rightarrow> FxPolicy \<Rightarrow> bool \<times> FxPolicy" where
  "pscalFxHandleCliFlag disk flag arg st =
     (case arg of
        None \<Rightarrow> (False, st)
      | Some v \<Rightarrow>
          if flag = ''--deny'' then
            (case pscalFxParseDenyList (Some v) of
               (True, denied) \<Rightarrow> (True, pscalFxSetDeniedMask denied st)
             | (False, _) \<Rightarrow> (False, st))
          else if flag = ''--fx-record'' then pscalFxBeginRecord v (fst disk v) st
          else if flag = ''--fx-replay'' then pscalFxBeginReplay v (snd disk v) st
          else (False, st))"

definition kFxJournalExemptNames :: "string list" where
  "kFxJournalExemptNames = [''socketcreate'', ''socketbind'', ''socketbindaddr'', ''socketlisten'',
     ''socketaccept'', ''socketconnect'', ''socketsend'', ''socketreceive'', ''socketpoll'', ''socketclose'',
     ''socketsetblocking'', ''socketpeeraddr'', ''socketlasterror'']"

definition pscalFxBuiltinIsJournalExempt :: "string option \<Rightarrow> bool" where
  "pscalFxBuiltinIsJournalExempt canonical =
     (case canonical of None \<Rightarrow> False | Some n \<Rightarrow> list_ex (\<lambda>e. same_name e n) kFxJournalExemptNames)"

definition kFxDenyExemptNames :: "string list" where
  "kFxDenyExemptNames = [''halt'', ''exit'']"

definition pscalFxBuiltinIsDenyExempt :: "string option \<Rightarrow> bool" where
  "pscalFxBuiltinIsDenyExempt canonical =
     (case canonical of None \<Rightarrow> False | Some n \<Rightarrow> list_ex (\<lambda>e. same_name e n) kFxDenyExemptNames)"

subsection \<open>Framed values\<close>

text \<open>A reader of a file yields \<open>None\<close> for \<open>false\<close> and what is left of the file.\<close>

type_synonym 'a file_reader = "byte list \<Rightarrow> (codec_fault + 'a option) \<times> byte list"

definition frame_limit :: nat where
  "frame_limit = 64 * 1024 * 1024"

fun file_varint :: "u64 \<Rightarrow> nat \<Rightarrow> byte list \<Rightarrow> u64 option \<times> byte list" where
  "file_varint len shift [] = (None, [])"
| "file_varint len shift (b # f) =
     (let len = len OR push_bit shift (ucast (b AND 0x7F)) in
      if b AND 0x80 = 0 then (Some len, f)
      else if 63 < shift + 7 then (None, f)
      else file_varint len (shift + 7) f)"

definition pscalCacheWriteValueFramed :: "'f PEnv \<Rightarrow> 'f PValue \<Rightarrow> byte list \<Rightarrow> bool \<times> byte list" where
  "pscalCacheWriteValueFramed env v f =
     (case writeValue env v bufInit of
        None \<Rightarrow> (False, f)
      | Some buf \<Rightarrow> (True, f @ bb_data (bufLenPrefixedBytes (bb_data buf) bufInit)))"

definition pscalCacheReadValueFramed :: "'f PEnv \<Rightarrow> 'f PValue file_reader" where
  "pscalCacheReadValueFramed env f =
     (case file_varint 0 0 f of
        (None, f) \<Rightarrow> (Inr None, f)
      | (Some len, f) \<Rightarrow>
          let n = unat len in
          if frame_limit < n then (Inr None, f)
          else if length f < n then (Inr None, [])
          else (case readValue env (curInit (take n f) n) of
                  Inl fault \<Rightarrow> (Inl fault, drop n f)
                | Inr (v, cur) \<Rightarrow> (Inr (if cu_error cur then None else v), drop n f)))"

definition writeRawBlob :: "byte list \<Rightarrow> u32 \<Rightarrow> byte list \<Rightarrow> byte list" where
  "writeRawBlob data len f = f @ le_bytes 4 len @ take (unat len) data"

definition readRawBlob :: "byte list file_reader" where
  "readRawBlob f =
     (if length f < 4 then (Inr None, [])
      else let len = unat (le_word (take 4 f) :: u32); f = drop 4 f in
        if frame_limit < len then (Inr None, f)
        else if length f < len then (Inr None, [])
        else (Inr (Some (take len f)), drop len f))"

subsection \<open>The journal\<close>

text \<open>A cell holds a value or a live memory stream; an argument is a pointer to a cell, a memory
  stream, or anything else.\<close>

datatype 'f FxCell = CellValue "'f PValue" | CellStream nat
datatype 'f FxArg = ArgCell nat | ArgStream nat | ArgOther "'f PValue"

record 'f FxStore =
  fx_cells :: "nat \<Rightarrow> 'f FxCell"
  fx_streams :: "nat \<Rightarrow> byte list"

definition not_substitutable :: "u8 list" where
  "not_substitutable = [TYPE_VOID, TYPE_THREAD, TYPE_TASK, TYPE_CHANNEL, TYPE_MEMORYSTREAM, TYPE_UNICODE_STRING, TYPE_WIDECHAR]"

definition valueIsGenericSerializable :: "'f PEnv \<Rightarrow> 'f PValue \<Rightarrow> bool" where
  "valueIsGenericSerializable env v \<longleftrightarrow>
     p_type v \<notin> set not_substitutable \<and> fst (pscalCacheWriteValueFramed env v [])"

definition fxResolveMStreamArg :: "'f FxStore \<Rightarrow> 'f FxArg \<Rightarrow> nat option" where
  "fxResolveMStreamArg s arg =
     (case arg of
        ArgStream ms \<Rightarrow> Some ms
      | ArgCell c \<Rightarrow> (case fx_cells s c of CellStream ms \<Rightarrow> Some ms | CellValue v \<Rightarrow> None)
      | ArgOther v \<Rightarrow> None)"

datatype writeback_kind = FX_WB_KIND_GENERIC | FX_WB_KIND_MSTREAM

text \<open>The pass that decides what is written back: at most 256 arguments, and none when an argument
  points to a value that cannot be stored.\<close>

fun collect_writebacks :: "'f PEnv \<Rightarrow> 'f FxStore \<Rightarrow> nat \<Rightarrow> nat \<Rightarrow> 'f FxArg list \<Rightarrow> (nat \<times> writeback_kind) list option" where
  "collect_writebacks env s i wb_count [] = Some []"
| "collect_writebacks env s i wb_count (arg # args) =
     (if 256 \<le> wb_count then Some []
      else if fxResolveMStreamArg s arg \<noteq> None
      then map_option (Cons (i, FX_WB_KIND_MSTREAM)) (collect_writebacks env s (i + 1) (wb_count + 1) args)
      else case arg of
             ArgCell c \<Rightarrow>
               (case fx_cells s c of
                  CellValue v \<Rightarrow>
                    if valueIsGenericSerializable env v
                    then map_option (Cons (i, FX_WB_KIND_GENERIC)) (collect_writebacks env s (i + 1) (wb_count + 1) args)
                    else None
                | CellStream ms \<Rightarrow> None)
           | _ \<Rightarrow> collect_writebacks env s (i + 1) wb_count args)"

definition makeString :: "string \<Rightarrow> 'f PValue" where
  "makeString s = PString TYPE_STRING (Some (bytes_of s))"

definition makeInt :: "int \<Rightarrow> 'f PValue" where
  "makeInt n = PScalar (makeScalar TYPE_INT32 (word_of_int n))"

definition makeBoolean :: "bool \<Rightarrow> 'f PValue" where
  "makeBoolean b = PScalar (makeScalar TYPE_BOOLEAN (if b then 1 else 0))"

definition framed :: "'f PEnv \<Rightarrow> 'f PValue \<Rightarrow> byte list \<Rightarrow> byte list" where
  "framed env v f = snd (pscalCacheWriteValueFramed env v f)"

definition kind_code :: "writeback_kind \<Rightarrow> int" where
  "kind_code k = (case k of FX_WB_KIND_GENERIC \<Rightarrow> 0 | FX_WB_KIND_MSTREAM \<Rightarrow> 1)"

definition write_writeback ::
  "'f PEnv \<Rightarrow> 'f FxStore \<Rightarrow> 'f FxArg list \<Rightarrow> nat \<times> writeback_kind \<Rightarrow> byte list \<Rightarrow> byte list" where
  "write_writeback env s args w f =
     (let f = framed env (makeInt (kind_code (snd w))) (framed env (makeInt (int (fst w))) f) in
      case snd w of
        FX_WB_KIND_MSTREAM \<Rightarrow>
          (case fxResolveMStreamArg s (args ! fst w) of
             None \<Rightarrow> writeRawBlob [] 0 f
           | Some ms \<Rightarrow> writeRawBlob (fx_streams s ms) (word_of_nat (length (fx_streams s ms))) f)
      | FX_WB_KIND_GENERIC \<Rightarrow>
          (case args ! fst w of
             ArgCell c \<Rightarrow> (case fx_cells s c of CellValue v \<Rightarrow> framed env v f | CellStream ms \<Rightarrow> f)
           | _ \<Rightarrow> f))"

definition pscalFxRecordCall ::
  "'f PEnv \<Rightarrow> string option \<Rightarrow> 'f FxArg list \<Rightarrow> 'f FxStore \<Rightarrow> 'f PValue option \<Rightarrow> FxPolicy \<Rightarrow> FxPolicy" where
  "pscalFxRecordCall env name args s result st =
     (case (fx_record_file st, name) of
        (Some f, Some name) \<Rightarrow>
          let wbs = (if (case result of None \<Rightarrow> True | Some v \<Rightarrow> valueIsGenericSerializable env v)
                     then collect_writebacks env s 0 0 args else None);
              f = framed env (makeInt (int (length args))) (framed env (makeString name) f);
              f = framed env (makeBoolean (wbs \<noteq> None)) f
          in (case wbs of
                None \<Rightarrow> st\<lparr>fx_record_file := Some f\<rparr>
              | Some ws \<Rightarrow>
                  let f = framed env (makeBoolean (result \<noteq> None)) f;
                      f = (case result of None \<Rightarrow> f | Some v \<Rightarrow> framed env v f);
                      f = framed env (makeInt (int (length ws))) f
                  in st\<lparr>fx_record_file := Some (fold (write_writeback env s args) ws f)\<rparr>)
      | _ \<Rightarrow> st)"

subsection \<open>Replaying\<close>

text \<open>Why a replay stops: what the message of the source says, with the numbers it names.\<close>

datatype fx_mismatch =
    JournalNotOpen
  | JournalExhausted
  | OtherCall string int
  | TruncatedFlag
  | TruncatedPresence
  | TruncatedResult
  | TruncatedCount
  | TruncatedHeader nat
  | TruncatedStream nat
  | NoStream nat int
  | TruncatedWriteback nat
  | NoVarParameter nat int

datatype 'f fx_replay =
    REPLAY_MISMATCH fx_mismatch
  | REPLAY_SUBSTITUTED "'f PValue"
  | REPLAY_RUN_LIVE
  | REPLAY_FAULT codec_fault

type_synonym 'f replayer = "byte list \<Rightarrow> 'f FxStore \<Rightarrow> 'f fx_replay \<times> byte list \<times> 'f FxStore"

definition stop :: "'f fx_replay \<Rightarrow> 'f replayer" where
  "stop r f s = (r, f, s)"

definition read_or :: "fx_mismatch \<Rightarrow> 'a file_reader \<Rightarrow> ('a \<Rightarrow> 'f replayer) \<Rightarrow> 'f replayer" where
  "read_or msg m k f s =
     (case m f of
        (Inl fault, f) \<Rightarrow> stop (REPLAY_FAULT fault) f s
      | (Inr None, f) \<Rightarrow> stop (REPLAY_MISMATCH msg) f s
      | (Inr (Some x), f) \<Rightarrow> k x f s)"

definition read_typed :: "'f PEnv \<Rightarrow> u8 \<Rightarrow> fx_mismatch \<Rightarrow> ('f PValue \<Rightarrow> 'f replayer) \<Rightarrow> 'f replayer" where
  "read_typed env t msg k = read_or msg (pscalCacheReadValueFramed env)
     (\<lambda>v. if p_type v \<noteq> t then stop (REPLAY_MISMATCH msg) else k v)"

definition val_int :: "'f PValue \<Rightarrow> u64" where
  "val_int v = (case v of PScalar x \<Rightarrow> pscalValueDecodeInt x | _ \<Rightarrow> 0)"

definition as_int :: "'f PValue \<Rightarrow> int" where
  "as_int v = sint (ucast (val_int v) :: u32)"

definition as_string :: "'f PValue \<Rightarrow> string option" where
  "as_string v = (case v of PString t s \<Rightarrow> map_option c_string s | _ \<Rightarrow> None)"

definition arg_at :: "'f FxArg list \<Rightarrow> int \<Rightarrow> 'f FxArg option" where
  "arg_at args idx = (if 0 \<le> idx \<and> idx < int (length args) then Some (args ! nat idx) else None)"

text \<open>One writeback: its header, then the bytes of a stream or a value.\<close>

definition replay_writeback :: "'f PEnv \<Rightarrow> 'f FxArg list \<Rightarrow> nat \<Rightarrow> 'f replayer \<Rightarrow> 'f replayer" where
  "replay_writeback env args w k =
     read_typed env TYPE_INTEGER (TruncatedHeader w) (\<lambda>idx_val.
     read_typed env TYPE_INTEGER (TruncatedHeader w) (\<lambda>kind_val.
       let idx = as_int idx_val in
       if as_int kind_val = 1
       then read_or (TruncatedStream w) readRawBlob (\<lambda>bytes f s.
         (case Option.bind (arg_at args idx) (fxResolveMStreamArg s) of
            None \<Rightarrow> stop (REPLAY_MISMATCH (NoStream w idx)) f s
          | Some ms \<Rightarrow> k f (s\<lparr>fx_streams := (fx_streams s)(ms := bytes)\<rparr>)))
       else read_or (TruncatedWriteback w) (pscalCacheReadValueFramed env) (\<lambda>wb_val f s.
         (case arg_at args idx of
            Some (ArgCell c) \<Rightarrow> k f (s\<lparr>fx_cells := (fx_cells s)(c := CellValue wb_val)\<rparr>)
          | _ \<Rightarrow> stop (REPLAY_MISMATCH (NoVarParameter w idx)) f s))))"

text \<open>The writebacks \<open>w\<close>, \<open>w + 1\<close>, ... of which \<open>left\<close> are to come.\<close>

fun replay_writebacks :: "'f PEnv \<Rightarrow> 'f FxArg list \<Rightarrow> nat \<Rightarrow> nat \<Rightarrow> 'f replayer \<Rightarrow> 'f replayer" where
  "replay_writebacks env args w 0 k = k"
| "replay_writebacks env args w (Suc left) k =
     replay_writeback env args w (replay_writebacks env args (w + 1) left k)"

definition replay_result :: "'f PEnv \<Rightarrow> bool \<Rightarrow> ('f PValue \<Rightarrow> 'f replayer) \<Rightarrow> 'f replayer" where
  "replay_result env has_result k =
     (if has_result then read_or TruncatedResult (pscalCacheReadValueFramed env) k
      else k (PScalar \<lparr>vs_type = TYPE_NIL, vs_bits = pscalTagNil\<rparr>))"

definition replay_call :: "'f PEnv \<Rightarrow> string \<Rightarrow> 'f FxArg list \<Rightarrow> 'f replayer" where
  "replay_call env name args =
     read_typed env TYPE_STRING JournalExhausted (\<lambda>journaled_name.
     read_typed env TYPE_INTEGER JournalExhausted (\<lambda>journaled_count.
       let name_ok = (case as_string journaled_name of None \<Rightarrow> False | Some n \<Rightarrow> same_name n name);
           count_ok = (as_int journaled_count = int (length args)) in
       if \<not> name_ok \<or> \<not> count_ok
       then stop (REPLAY_MISMATCH (OtherCall (case as_string journaled_name of None \<Rightarrow> ''?'' | Some n \<Rightarrow> n) (as_int journaled_count)))
       else
     read_typed env TYPE_BOOLEAN TruncatedFlag (\<lambda>substitutable.
       if val_int substitutable = 0 then stop REPLAY_RUN_LIVE
       else
     read_typed env TYPE_BOOLEAN TruncatedPresence (\<lambda>present.
     replay_result env (val_int present \<noteq> 0) (\<lambda>result.
     read_typed env TYPE_INTEGER TruncatedCount (\<lambda>wb_count.
     replay_writebacks env args 0 (nat (as_int wb_count)) (stop (REPLAY_SUBSTITUTED result))))))))"

definition pscalFxReplayCall ::
  "'f PEnv \<Rightarrow> string option \<Rightarrow> 'f FxArg list \<Rightarrow> 'f FxStore \<Rightarrow> FxPolicy \<Rightarrow> 'f fx_replay \<times> 'f FxStore \<times> FxPolicy" where
  "pscalFxReplayCall env name args s st =
     (case (fx_replay_file st, name) of
        (Some f, Some name) \<Rightarrow>
          (let (r, f, s) = replay_call env name args f s in (r, s, st\<lparr>fx_replay_file := Some f\<rparr>))
      | _ \<Rightarrow> (REPLAY_MISMATCH JournalNotOpen, s, st))"

subsection \<open>The gate in front of a builtin\<close>

text \<open>What the dispatcher knows of a builtin: the name it is called by, its name in the table of
  builtins, and its effects. The outcome of the gate is an error, a value taken from the journal, or
  to run the handler, with the effects the call is recorded under.\<close>

record FxBuiltin =
  fb_name :: "string option"
  fb_table_name :: "string option"
  fb_mask :: EffectMask

datatype 'f fx_gate =
    GateDenied EffectMask
  | GateMismatch fx_mismatch
  | GateFault codec_fault
  | GateReplayed "'f PValue"
  | GateRun EffectMask

definition vmApplyFxPolicy ::
  "'f PEnv \<Rightarrow> string option \<Rightarrow> FxBuiltin \<Rightarrow> 'f FxArg list \<Rightarrow> 'f FxStore \<Rightarrow> FxPolicy
   \<Rightarrow> 'f fx_gate \<times> 'f FxStore \<times> FxPolicy" where
  "vmApplyFxPolicy env getenv b args s st =
     (let (active, st) = pscalFxPolicyActive getenv st in
      if \<not> active then (GateRun FX_PURE, s, st)
      else if fb_mask b = FX_PURE then (GateRun FX_PURE, s, st)
      else
        let (denied, st) = pscalFxEffectiveDeniedMask getenv st in
        if denied AND fb_mask b \<noteq> 0 \<and> \<not> pscalFxBuiltinIsDenyExempt (fb_table_name b)
        then (GateDenied denied, s, st)
        else if pscalFxBuiltinIsJournalExempt (fb_table_name b) then (GateRun FX_PURE, s, st)
        else if fx_replay_file st = None then (GateRun (fb_mask b), s, st)
        else
          let (r, s, st) = pscalFxReplayCall env (Some (case fb_name b of None \<Rightarrow> ''?'' | Some n \<Rightarrow> n)) args s st in
          (case r of
             REPLAY_MISMATCH m \<Rightarrow> GateMismatch m
           | REPLAY_SUBSTITUTED v \<Rightarrow> GateReplayed v
           | REPLAY_RUN_LIVE \<Rightarrow> GateRun (fb_mask b)
           | REPLAY_FAULT e \<Rightarrow> GateFault e, s, st))"

text \<open>A builtin call of the dispatcher, from the gate to the journal. The handler is a parameter that
  works on the store and on whatever \<open>'w\<close> is outside the program.\<close>

datatype 'f fx_outcome = CallReturned "'f PValue" | CallRefused "'f fx_gate"

definition call_builtin ::
  "'f PEnv \<Rightarrow> string option \<Rightarrow> FxBuiltin
   \<Rightarrow> ('f FxArg list \<Rightarrow> 'f FxStore \<Rightarrow> 'w \<Rightarrow> 'f PValue \<times> 'f FxStore \<times> 'w)
   \<Rightarrow> 'f FxArg list \<Rightarrow> 'f FxStore \<Rightarrow> 'w \<Rightarrow> FxPolicy \<Rightarrow> 'f fx_outcome \<times> 'f FxStore \<times> 'w \<times> FxPolicy" where
  "call_builtin env getenv b handler args s w st =
     (case vmApplyFxPolicy env getenv b args s st of
        (GateReplayed v, s, st) \<Rightarrow> (CallReturned v, s, w, st)
      | (GateRun fx, s, st) \<Rightarrow>
          (let (result, s, w) = handler args s w;
               st = (if fx \<noteq> FX_PURE \<and> fx_record_file st \<noteq> None
                     then pscalFxRecordCall env (fb_name b) args s (Some result) st else st)
           in (CallReturned result, s, w, st))
      | (g, s, st) \<Rightarrow> (CallRefused g, s, w, st))"

subsection \<open>A deny list does what it says\<close>

text \<open>The list read as a specification: fields between commas, blanks around a field ignored, a field
  names one class of effects or all of them, in any case.\<close>

fun comma_fields :: "string \<Rightarrow> string list" where
  "comma_fields [] = [[]]"
| "comma_fields (c # s) =
     (if c = CHR '','' then [] # comma_fields s
      else case comma_fields s of [] \<Rightarrow> [[c]] | f # fs \<Rightarrow> (c # f) # fs)"

definition effect_words :: "string list" where
  "effect_words = [''io'', ''net'', ''proc'', ''clock'', ''random'', ''ext'']"

definition field_names :: "string \<Rightarrow> nat \<Rightarrow> bool" where
  "field_names tok n \<longleftrightarrow> n < length effect_words \<and> (same_name (trim_spaces tok) (effect_words ! n) \<or> same_name (trim_spaces tok) ''all'')"

definition field_known :: "string \<Rightarrow> bool" where
  "field_known tok \<longleftrightarrow> trim_spaces tok = [] \<or> list_ex (field_names tok) [0..<length effect_words]"

definition deny_list_valid :: "string \<Rightarrow> bool" where
  "deny_list_valid csv \<longleftrightarrow> length csv < 256 \<and> list_all field_known (comma_fields csv)"

definition denied_by :: "string option \<Rightarrow> nat \<Rightarrow> bool" where
  "denied_by csv n \<longleftrightarrow>
     (case csv of None \<Rightarrow> False | Some s \<Rightarrow> deny_list_valid s \<and> list_ex (\<lambda>f. field_names f n) (comma_fields s))"

fun deny_fields :: "string list \<Rightarrow> EffectMask \<Rightarrow> bool \<times> EffectMask" where
  "deny_fields [] denied = (True, denied)"
| "deny_fields (f # fs) denied =
     (if trim_spaces f = [] then deny_fields fs denied
      else case deny_token (trim_spaces f) of
             None \<Rightarrow> (False, denied)
           | Some m \<Rightarrow> deny_fields fs (denied OR m))"

lemma trim_Nil [simp]: "trim_spaces [] = []"
  by (simp add: trim_spaces_def)

lemma comma_fields_ne [simp]: "comma_fields s \<noteq> []"
  by (induction s) (auto split: list.splits)

lemma fields_skip_commas:
  "deny_fields (comma_fields (dropWhile (\<lambda>c. c = CHR '','') s)) denied = deny_fields (comma_fields s) denied"
  by (induction s) auto

lemma fields_of_token:
  "deny_fields (comma_fields s) denied
     = deny_fields (takeWhile (\<lambda>c. c \<noteq> CHR '','') s # comma_fields (drop 1 (dropWhile (\<lambda>c. c \<noteq> CHR '','') s))) denied"
proof -
  have split: "comma_fields s = takeWhile (\<lambda>c. c \<noteq> CHR '','') s #
      (case dropWhile (\<lambda>c. c \<noteq> CHR '','') s of [] \<Rightarrow> [] | _ # r \<Rightarrow> comma_fields r)"
  proof (induction s)
    case (Cons c s)
    show ?case
    proof (cases "c = CHR '',''")
      case False
      then show ?thesis unfolding comma_fields.simps if_not_P [OF False] by (subst Cons.IH) simp
    qed simp
  qed simp
  have blank: "deny_fields [f, []] denied = deny_fields [f] denied" for f by (simp split: option.split)
  show ?thesis
    by (subst split, cases "dropWhile (\<lambda>c. c \<noteq> CHR '','') s") (simp_all only: list.case drop_Nil drop_Suc_Cons drop_0 comma_fields.simps blank One_nat_def)
qed

lemma deny_tokens_fields: "deny_tokens s denied = deny_fields (comma_fields s) denied"
proof (induction s denied rule: deny_tokens.induct)
  case (1 s denied)
  let ?t = "dropWhile (\<lambda>c. c = CHR '','') s"
  have s: "deny_fields (comma_fields s) denied
      = deny_fields (takeWhile (\<lambda>c. c \<noteq> CHR '','') ?t # comma_fields (drop 1 (dropWhile (\<lambda>c. c \<noteq> CHR '','') ?t))) denied"
    using fields_skip_commas [of s denied] fields_of_token [of ?t denied] by simp
  show ?case
  proof (cases "?t = []")
    case True
    then have "next_token s = None" by (simp add: next_token_def Let_def)
    then show ?thesis by (subst deny_tokens.simps) (simp add: s True)
  next
    case False
    then have nt: "next_token s = Some (takeWhile (\<lambda>c. c \<noteq> CHR '','') ?t, drop 1 (dropWhile (\<lambda>c. c \<noteq> CHR '','') ?t))"
      (is "_ = Some (?tok, ?rest)") by (simp add: next_token_def Let_def)
    show ?thesis
    proof (cases "trim_spaces ?tok = []")
      case True
      then show ?thesis unfolding s deny_tokens.simps [of s] nt using 1(1) [OF nt refl refl True] by simp
    next
      case named: False
      show ?thesis
      proof (cases "deny_token (trim_spaces ?tok)")
        case None
        then show ?thesis unfolding s deny_tokens.simps [of s] nt using named by simp
      next
        case (Some m)
        then show ?thesis unfolding s deny_tokens.simps [of s] nt using named 1(2) [OF nt refl refl named Some] by simp
      qed
    qed
  qed
qed

lemma same_name_sym: "same_name a b \<longleftrightarrow> lower_string b = lower_string a"
  by (auto simp: same_name_def)

lemma bit_effects: "bit FX_IO n \<longleftrightarrow> n = 0" "bit FX_NET n \<longleftrightarrow> n = 1" "bit FX_PROC n \<longleftrightarrow> n = 2" "bit FX_CLOCK n \<longleftrightarrow> n = 3"
  "bit FX_RANDOM n \<longleftrightarrow> n = 4" "bit FX_EXT n \<longleftrightarrow> n = 5" "\<not> bit FX_PURE n"
  unfolding FX_IO_def FX_NET_def FX_PROC_def FX_CLOCK_def FX_RANDOM_def FX_EXT_def FX_PURE_def bit_push_bit_iff bit_1_iff
  by auto

lemma bit_all_known: "bit FX_ALL_KNOWN n \<longleftrightarrow> n < length effect_words"
  unfolding FX_ALL_KNOWN_def bit_or_iff bit_effects effect_words_def by simp linarith

lemma lower_words: "lower_string ''io'' = ''io''" "lower_string ''net'' = ''net''" "lower_string ''proc'' = ''proc''"
  "lower_string ''clock'' = ''clock''" "lower_string ''random'' = ''random''" "lower_string ''ext'' = ''ext''"
  "lower_string ''all'' = ''all''"
  by code_simp+

lemma effect_index: "n < length effect_words \<Longrightarrow> n = 0 \<or> n = 1 \<or> n = 2 \<or> n = 3 \<or> n = 4 \<or> n = 5"
  by (auto simp: effect_words_def)

lemma field_names_iff:
  "field_names tok n \<longleftrightarrow> (let l = lower_string (trim_spaces tok) in
     n < length effect_words \<and> l = ''all'' \<or> n = 0 \<and> l = ''io'' \<or> n = 1 \<and> l = ''net'' \<or> n = 2 \<and> l = ''proc''
     \<or> n = 3 \<and> l = ''clock'' \<or> n = 4 \<and> l = ''random'' \<or> n = 5 \<and> l = ''ext'')"
proof (cases "n < length effect_words")
  case True
  from effect_index [OF this] show ?thesis
    by (elim disjE) (auto simp: field_names_def same_name_def effect_words_def lower_words)
next
  case False
  then show ?thesis by (auto simp: field_names_def effect_words_def)
qed

lemma deny_token_lower:
  "deny_token tok = (let l = lower_string tok in
     if l = ''io'' then Some FX_IO else if l = ''net'' then Some FX_NET else if l = ''proc'' then Some FX_PROC
     else if l = ''clock'' then Some FX_CLOCK else if l = ''random'' then Some FX_RANDOM
     else if l = ''ext'' then Some FX_EXT else if l = ''all'' then Some FX_ALL_KNOWN else None)"
  by (simp add: deny_token_def same_name_def lower_words Let_def)

lemma deny_token_bits: "deny_token (trim_spaces tok) = Some m \<Longrightarrow> bit m n \<longleftrightarrow> field_names tok n"
  unfolding deny_token_lower field_names_iff Let_def
  by (auto simp: bit_effects bit_all_known split: if_splits)

lemma deny_token_None: "deny_token (trim_spaces tok) = None \<longleftrightarrow> \<not> list_ex (field_names tok) [0..<length effect_words]"
proof (cases "deny_token (trim_spaces tok)")
  case None
  then show ?thesis
    unfolding deny_token_lower list_ex_iff field_names_iff Let_def by (auto split: if_splits)
next
  case (Some m)
  then have "m \<in> {FX_IO, FX_NET, FX_PROC, FX_CLOCK, FX_RANDOM, FX_EXT, FX_ALL_KNOWN}"
    by (auto simp: deny_token_lower Let_def split: if_splits)
  then have "\<exists>n < length effect_words. bit m n" by (auto simp: bit_effects bit_all_known effect_words_def)
  then show ?thesis using Some by (auto simp: list_ex_iff deny_token_bits [OF Some])
qed

lemma blank_names_nothing: "trim_spaces f = [] \<Longrightarrow> \<not> field_names f n"
  by (auto simp: field_names_iff lower_string_def)

lemma deny_fields_spec:
  "fst (deny_fields fs denied) = list_all field_known fs"
  "list_all field_known fs \<Longrightarrow> bit (snd (deny_fields fs denied)) n \<longleftrightarrow> bit denied n \<or> list_ex (\<lambda>f. field_names f n) fs"
proof (induction fs arbitrary: denied)
  case (Cons f fs)
  {
    case 1
    show ?case using Cons(1) deny_token_None [of f] by (auto simp: field_known_def split: option.split)
  next
    case 2
    then show ?case using Cons(2) deny_token_None [of f]
      by (auto simp: field_known_def blank_names_nothing bit_or_iff deny_token_bits split: option.split)
  }
qed simp_all

lemma parse_deny_list:
  "fst (pscalFxParseDenyList (Some csv)) = deny_list_valid csv"
  "deny_list_valid csv \<Longrightarrow> bit (snd (pscalFxParseDenyList (Some csv))) n = denied_by (Some csv) n"
proof -
  have e: "field_known []" "\<not> field_names [] n" for n by (simp_all add: field_known_def blank_names_nothing)
  show "fst (pscalFxParseDenyList (Some csv)) = deny_list_valid csv"
    using deny_fields_spec(1) [of "comma_fields csv" FX_PURE] e
    by (auto simp: pscalFxParseDenyList_def deny_list_valid_def deny_tokens_fields)
  assume v: "deny_list_valid csv"
  then have "length csv < 256" "list_all field_known (comma_fields csv)" by (simp_all add: deny_list_valid_def)
  with v show "bit (snd (pscalFxParseDenyList (Some csv))) n = denied_by (Some csv) n"
    using deny_fields_spec(2) [of "comma_fields csv" FX_PURE n] e
    by (auto simp: pscalFxParseDenyList_def denied_by_def deny_tokens_fields bit_effects)
qed

text \<open>The mask in force once the command line and the environment are read.\<close>

lemma bit_effective:
  assumes "snd (pscalFxHandleCliFlag disk ''--deny'' (Some csv) fx_initial) = st"
  shows "bit (fst (pscalFxEffectiveDeniedMask getenv st)) n \<longleftrightarrow> denied_by (Some csv) n \<or> denied_by getenv n"
proof -
  have parsed: "if fst p then bit (snd p) n = denied_by (Some e) n else \<not> denied_by (Some e) n"
    if "p = pscalFxParseDenyList (Some e)" for p e
    using parse_deny_list [of e] unfolding that by (cases "deny_list_valid e") (simp_all add: denied_by_def)
  obtain ok m where p: "pscalFxParseDenyList (Some csv) = (ok, m)" by fastforce
  have cli: "bit (fx_cli_denied_mask st) n = denied_by (Some csv) n" "\<not> fx_env_once st" "fx_env_denied_mask st = FX_PURE"
    using parsed [OF p [symmetric]] assms
    by (cases ok; auto simp: pscalFxHandleCliFlag_def p fx_initial_def pscalFxSetDeniedMask_def bit_effects)+
  have "bit (fx_env_denied_mask (pscalFxInitEnvDeniedMaskOnce getenv st)) n = denied_by getenv n"
  proof (cases getenv)
    case (Some e)
    obtain ok' m' where p': "pscalFxParseDenyList (Some e) = (ok', m')" by fastforce
    have "\<not> denied_by (Some []) n" by (simp add: denied_by_def blank_names_nothing)
    then show ?thesis using parsed [OF p' [symmetric]] Some
      by (cases ok'; cases "e = []") (simp_all add: pscalFxInitEnvDeniedMaskOnce_def p' cli bit_effects)
  qed (simp add: pscalFxInitEnvDeniedMaskOnce_def cli bit_effects denied_by_def)
  moreover have "fx_cli_denied_mask (pscalFxInitEnvDeniedMaskOnce getenv st) = fx_cli_denied_mask st"
    by (auto simp: pscalFxInitEnvDeniedMaskOnce_def split: option.split prod.split bool.split)
  ultimately show ?thesis using cli by (simp add: pscalFxEffectiveDeniedMask_def bit_or_iff)
qed

lemma no_journal_after_deny:
  "snd (pscalFxHandleCliFlag disk ''--deny'' (Some csv) fx_initial) = st \<Longrightarrow> fx_record_file st = None \<and> fx_replay_file st = None"
  by (cases "pscalFxParseDenyList (Some csv)")
    (auto simp: pscalFxHandleCliFlag_def fx_initial_def pscalFxSetDeniedMask_def split: bool.splits)

lemma effective_again:
  assumes "pscalFxEffectiveDeniedMask getenv st = (denied, st')"
  shows "pscalFxEffectiveDeniedMask getenv st' = (denied, st')"
    and "fx_record_file st' = fx_record_file st" "fx_replay_file st' = fx_replay_file st"
proof -
  have same: "fx_record_file (pscalFxInitEnvDeniedMaskOnce getenv st) = fx_record_file st"
    "fx_replay_file (pscalFxInitEnvDeniedMaskOnce getenv st) = fx_replay_file st"
    by (auto simp: pscalFxInitEnvDeniedMaskOnce_def split: option.split prod.split bool.split)
  show "pscalFxEffectiveDeniedMask getenv st' = (denied, st')"
    "fx_record_file st' = fx_record_file st" "fx_replay_file st' = fx_replay_file st"
    using assms same by (auto simp: pscalFxEffectiveDeniedMask_def Let_def split: if_splits)
qed

lemma gate_without_journal:
  assumes "fx_record_file st = None" "fx_replay_file st = None"
    and eff: "pscalFxEffectiveDeniedMask getenv st = (denied, st')"
  shows "if denied AND fb_mask b \<noteq> 0 \<and> \<not> pscalFxBuiltinIsDenyExempt (fb_table_name b)
    then vmApplyFxPolicy env getenv b args s st = (GateDenied denied, s, st')
    else \<exists>fx. vmApplyFxPolicy env getenv b args s st = (GateRun fx, s, st')"
  using effective_again [OF eff] assms
  by (auto simp: vmApplyFxPolicy_def pscalFxPolicyActive_def eff FX_PURE_def)

lemma and_nonzero_iff: "a AND b \<noteq> 0 \<longleftrightarrow> (\<exists>n. bit b n \<and> bit (a :: EffectMask) n)"
proof -
  have "a AND b = 0 \<longleftrightarrow> (\<forall>n. \<not> bit (a AND b) n)"
    using bit_eqI [of "a AND b" 0] by auto
  then show ?thesis by (auto simp: bit_and_iff)
qed

text \<open>C37: After \<open>--deny\<close> a list, every builtin call is decided by the list as it reads: the flag is accepted
  exactly when each field between commas is blank or names a class of effects or all of them, and then a
  builtin with a denied effect, by the list or by the environment's, is refused before its handler runs,
  leaving the program and the world as they were, unless it is one of the two the gate exempts, \<open>halt\<close> and \<open>exit\<close>,
  which run even if their effects are denied; every builtin without a denied effect runs its handler. A
  rejected list denies nothing.\<close>
theorem deny_list_enforced:
  "fst (pscalFxHandleCliFlag disk ''--deny'' (Some csv) fx_initial) = deny_list_valid csv
   \<and> (\<exists>denied st'. call_builtin env getenv b handler args s w
          (snd (pscalFxHandleCliFlag disk ''--deny'' (Some csv) fx_initial))
        = (if (\<exists>n. bit (fb_mask b) n \<and> (denied_by (Some csv) n \<or> denied_by getenv n))
             \<and> \<not> pscalFxBuiltinIsDenyExempt (fb_table_name b)
           then (CallRefused (GateDenied denied), s, w, st')
           else case handler args s w of (r, s', w') \<Rightarrow> (CallReturned r, s', w', st')))"
proof
  show "fst (pscalFxHandleCliFlag disk ''--deny'' (Some csv) fx_initial) = deny_list_valid csv"
    using parse_deny_list(1) [of csv]
    by (cases "pscalFxParseDenyList (Some csv)") (auto simp: pscalFxHandleCliFlag_def split: bool.split)
  let ?st = "snd (pscalFxHandleCliFlag disk ''--deny'' (Some csv) fx_initial)"
  obtain denied st' where eff: "pscalFxEffectiveDeniedMask getenv ?st = (denied, st')" by fastforce
  have denied: "denied AND fb_mask b \<noteq> 0 \<longleftrightarrow> (\<exists>n. bit (fb_mask b) n \<and> (denied_by (Some csv) n \<or> denied_by getenv n))"
    using bit_effective [of disk csv ?st getenv] eff unfolding and_nonzero_iff by simp
  note nj = no_journal_after_deny [of disk csv, OF refl]
  have "fx_record_file st' = None" using effective_again(2) [OF eff] nj by simp
  then show "\<exists>denied st'. call_builtin env getenv b handler args s w ?st
        = (if (\<exists>n. bit (fb_mask b) n \<and> (denied_by (Some csv) n \<or> denied_by getenv n))
             \<and> \<not> pscalFxBuiltinIsDenyExempt (fb_table_name b)
           then (CallRefused (GateDenied denied), s, w, st')
           else case handler args s w of (r, s', w') \<Rightarrow> (CallReturned r, s', w', st'))"
    using gate_without_journal [OF conjunct1 [OF nj] conjunct2 [OF nj] eff, of b env args s] unfolding denied
    by (intro exI [of _ denied] exI [of _ st']) (auto simp: call_builtin_def split: if_splits prod.split)
qed

subsection \<open>A framed value reads back\<close>

lemma file_varint_from:
  "s \<le> 63 \<Longrightarrow> unat v < 2 ^ (64 - s) \<Longrightarrow> file_varint r s (varint_bytes v @ rest) = (Some (r OR push_bit s v), rest)"
proof (induction v arbitrary: r s rule: varint_bytes.induct)
  case (1 v)
  let ?lo = "ucast (v AND 0x7F) :: byte" and ?v' = "drop_bit 7 v"
  show ?case
  proof (cases "?v' = 0")
    case True
    then have vb: "varint_bytes v = [?lo]" by (subst varint_bytes.simps) simp
    have "push_bit s (ucast ?lo) = push_bit s v" using push_split7 [of s v] True by simp
    then show ?thesis by (simp add: Let_def low7_high vb)
  next
    case False
    then have vb: "varint_bytes v = [?lo OR 0x80] @ varint_bytes ?v'"
      by (subst varint_bytes.simps) simp
    note s7 = varint_shift(1) [OF 1(2,3) False] and small = varint_shift(2) [OF 1(2,3) False]
    show ?thesis using 1(1) [OF False s7 small, of "r OR push_bit s (ucast ?lo)"] s7
      by (simp add: Let_def low7_high vb or.assoc push_split7)
  qed
qed

lemma file_varint_back [simp]: "file_varint 0 0 (varint_bytes v @ rest) = (Some v, rest)"
  using file_varint_from [of 0 v 0 rest] unsigned_less [where 'a = nat, of v] by simp

definition frame :: "'f PValue \<Rightarrow> byte list" where
  "frame v = len_prefixed (value_bytes v)"

definition fits :: "'f PEnv \<Rightarrow> 'f PValue \<Rightarrow> bool" where
  "fits env v \<longleftrightarrow> value_ok env v \<and> value_levels v \<le> CACHE_MAX_NESTING \<and> length (value_bytes v) \<le> frame_limit"

lemma frame_limit_small: "n \<le> frame_limit \<Longrightarrow> n < 2 ^ 32"
  by (simp add: frame_limit_def)

lemma framed_fits: "fits env v \<Longrightarrow> pscalCacheWriteValueFramed env v f = (True, f @ frame v)"
  using writesD [OF writes_value, of env v bufInit]
  by (auto simp: fits_def pscalCacheWriteValueFramed_def frame_def bufInit_def buf_simps)

lemma read_frame:
  assumes f: "level (pe_read_function env)" and v: "fits env v"
  shows "pscalCacheReadValueFramed env (frame v @ rest) = (Inr (Some (stored_value v)), rest)"
proof -
  let ?bs = "value_bytes v" and ?c = "curInit (value_bytes v) (length (value_bytes v))"
  have n: "length ?bs \<le> frame_limit" using v by (simp add: fits_def)
  have len: "unat (word_of_nat (length ?bs) :: u64) = length ?bs"
    using frame_limit_small [OF n] by (simp add: unat_of_nat)
  have "parses CACHE_MAX_NESTING (readValue env) ?bs (Some (stored_value v))"
    using parses_value [OF f, of v] v by (simp add: fits_def)
  then have "readValue env ?c = Inr (Some (stored_value v), adv (length ?bs) ?c)"
    by (rule parsesD) (simp_all add: at_def cur_wf_def curInit_def)
  then show ?thesis
    using n by (simp add: pscalCacheReadValueFramed_def frame_def len_prefixed_def len Let_def) (simp add: curInit_def)
qed

lemma read_or_frame:
  "level (pe_read_function env) \<Longrightarrow> fits env v \<Longrightarrow>
   read_or msg (pscalCacheReadValueFramed env) k (frame v @ rest) s = k (stored_value v) rest s"
  by (simp add: read_or_def read_frame)

lemma raw_blob_back:
  assumes "length data \<le> frame_limit"
  shows "readRawBlob (writeRawBlob data (word_of_nat (length data)) [] @ rest) = (Inr (Some data), rest)"
proof -
  have "unat (word_of_nat (length data) :: u32) = length data"
    using frame_limit_small [OF assms] by (simp add: unat_of_nat)
  then show ?thesis using assms by (simp add: readRawBlob_def writeRawBlob_def le_word_u32 Let_def)
qed

subsection \<open>The values of a record\<close>

lemma decode_made:
  "pscalValueDecodeInt (makeScalar TYPE_INT32 x) = scast (ucast x :: u32)"
  "pscalValueDecodeInt (makeScalar TYPE_BOOLEAN x) = (if x \<noteq> 0 then 1 else 0)"
  by (simp_all add: makeScalar_def pscalValueSetIntBits_def int_bits_def pscalValueDecodeInt_def)

lemma narrow_again: "ucast (scast (w :: u32) :: u64) = w"
  by (rule bit_word_eqI) (auto simp: bit_ucast_iff bit_word_scast_iff dest: bit_imp_le_length)

lemma value_made:
  "scalar_ok (makeScalar TYPE_INT32 x)" "scalar_ok (makeScalar TYPE_BOOLEAN x)"
  "length (scalar_bytes (makeScalar TYPE_INT32 x)) = 8" "length (scalar_bytes (makeScalar TYPE_BOOLEAN x)) = 8"
proof -
  show "scalar_ok (makeScalar TYPE_INT32 x)" "scalar_ok (makeScalar TYPE_BOOLEAN x)"
    unfolding scalar_ok_def
    by (simp_all add: decode_made, simp_all add: makeScalar_def pscalValueSetIntBits_def int_bits_def int_types_def narrow_again)
  show "length (scalar_bytes (makeScalar TYPE_INT32 x)) = 8" "length (scalar_bytes (makeScalar TYPE_BOOLEAN x)) = 8"
    by (simp_all add: scalar_bytes_def, simp_all add: makeScalar_def pscalValueSetIntBits_def)
qed

lemma type_made [simp]: "vs_type (makeScalar t x) = t"
  by (simp add: makeScalar_def pscalValueSetIntBits_def)

lemma made_simps [simp]:
  "p_type (makeInt n) = TYPE_INTEGER" "p_type (makeBoolean b) = TYPE_BOOLEAN" "p_type (makeString s) = TYPE_STRING"
  "stored_value (makeInt n) = makeInt n" "stored_value (makeBoolean b) = makeBoolean b" "stored_value (makeString s) = makeString s"
  "val_int (makeBoolean b) = 0 \<longleftrightarrow> \<not> b"
  by (simp_all add: makeInt_def makeBoolean_def makeString_def val_int_def decode_made)

lemma as_int_made: "- (2 ^ 31) \<le> n \<Longrightarrow> n < 2 ^ 31 \<Longrightarrow> as_int (makeInt n) = n"
proof -
  assume n: "- (2 ^ 31) \<le> n" "n < 2 ^ 31"
  have "sint (word_of_int n :: u32) = n"
    using to_int32_id [OF n] by (simp only: to_int32_def)
  moreover have "ucast (word_of_int n :: u64) = (word_of_int n :: u32)"
    by (rule bit_word_eqI) (simp add: bit_ucast_iff bit_word_of_int_iff)
  ultimately show ?thesis by (simp add: as_int_def val_int_def makeInt_def decode_made narrow_again)
qed

lemma as_string_made [simp]: "no_nul s \<Longrightarrow> as_string (makeString s) = Some s"
  by (simp add: as_string_def makeString_def c_string_bytes_of)

lemma levels_allowed: "1 \<le> CACHE_MAX_NESTING"
  by (simp add: CACHE_MAX_NESTING_def)

lemma fits_made [simp]: "fits env (makeInt n)" "fits env (makeBoolean b)"
  using levels_allowed by (simp_all add: fits_def makeInt_def makeBoolean_def value_made value_type_bytes_def frame_limit_def)

lemma fits_name: "length name \<le> 2 ^ 20 \<Longrightarrow> fits env (makeString name)"
proof -
  assume n: "length name \<le> 2 ^ 20"
  have "length (value_bytes (makeString name :: 'a PValue)) \<le> 5 + 10 + length name"
    using length_varint_10 [of "word_of_nat (length name)"]
    by (simp add: makeString_def value_type_bytes_def optional_bytes_def len_prefixed_def bytes_of_def)
  then show ?thesis using n levels_allowed
    by (simp add: fits_def frame_limit_def makeString_def text_ok_def bytes_of_def)
qed

subsection \<open>The journal gives back what it recorded\<close>

text \<open>What replaying a call leaves in the store: behind every argument of the call what the journal
  saw there after the call, as a cache file keeps it, and everything else as it was.\<close>

definition written_back :: "'f FxArg list \<Rightarrow> 'f FxStore \<Rightarrow> 'f FxStore \<Rightarrow> 'f FxStore" where
  "written_back args s t =
     \<lparr>fx_cells = (\<lambda>c. case fx_cells s c of
          CellValue v \<Rightarrow> if ArgCell c \<in> set args then CellValue (stored_value v) else fx_cells t c
        | CellStream ms \<Rightarrow> fx_cells t c),
      fx_streams = (\<lambda>ms. if list_ex (\<lambda>a. fxResolveMStreamArg s a = Some ms) args then fx_streams s ms else fx_streams t ms)\<rparr>"

definition arg_storable :: "'f PEnv \<Rightarrow> 'f FxStore \<Rightarrow> 'f FxArg \<Rightarrow> bool" where
  "arg_storable env s arg \<longleftrightarrow>
     (case arg of ArgCell c \<Rightarrow> (case fx_cells s c of CellValue v \<Rightarrow> valueIsGenericSerializable env v | CellStream ms \<Rightarrow> True)
      | _ \<Rightarrow> True)"

text \<open>The values behind the arguments that the theorem is about.\<close>

definition arg_recordable :: "'f PEnv \<Rightarrow> 'f FxStore \<Rightarrow> 'f FxArg \<Rightarrow> bool" where
  "arg_recordable env s arg \<longleftrightarrow>
     (\<forall>ms. fxResolveMStreamArg s arg = Some ms \<longrightarrow> length (fx_streams s ms) \<le> frame_limit)
     \<and> (case arg of ArgCell c \<Rightarrow> (case fx_cells s c of CellValue v \<Rightarrow> valueIsGenericSerializable env v \<longrightarrow> fits env v | _ \<Rightarrow> True)
        | _ \<Rightarrow> True)"

definition wb_bytes :: "'f FxStore \<Rightarrow> 'f FxArg list \<Rightarrow> nat \<times> writeback_kind \<Rightarrow> byte list" where
  "wb_bytes s args w = frame (makeInt (int (fst w)) :: 'f PValue) @ frame (makeInt (kind_code (snd w)) :: 'f PValue) @
     (case snd w of
        FX_WB_KIND_MSTREAM \<Rightarrow>
          (case fxResolveMStreamArg s (args ! fst w) of
             None \<Rightarrow> writeRawBlob [] 0 []
           | Some ms \<Rightarrow> writeRawBlob (fx_streams s ms) (word_of_nat (length (fx_streams s ms))) [])
      | FX_WB_KIND_GENERIC \<Rightarrow>
          (case args ! fst w of ArgCell c \<Rightarrow> (case fx_cells s c of CellValue v \<Rightarrow> frame v | CellStream ms \<Rightarrow> []) | _ \<Rightarrow> []))"

lemma written_back_Nil [simp]: "written_back [] s t = t"
  by (simp add: written_back_def fun_eq_iff split: FxCell.split)

lemma written_back_Cons: "written_back (a # args) s t = written_back args s (written_back [a] s t)"
  by (auto simp: written_back_def fun_eq_iff split: FxCell.split)

lemma written_back_other: "written_back [ArgOther v] s t = t"
  by (simp add: written_back_def fxResolveMStreamArg_def fun_eq_iff split: FxCell.split)

lemma written_back_stream:
  "fxResolveMStreamArg s a = Some ms \<Longrightarrow>
   written_back [a] s t = t\<lparr>fx_streams := (fx_streams t)(ms := fx_streams s ms)\<rparr>"
  by (auto simp: written_back_def fxResolveMStreamArg_def fun_eq_iff split: FxCell.splits FxArg.splits)

lemma written_back_cell:
  "fx_cells s c = CellValue v \<Longrightarrow>
   written_back [ArgCell c] s t = t\<lparr>fx_cells := (fx_cells t)(c := CellValue (stored_value v))\<rparr>"
  by (auto simp: written_back_def fxResolveMStreamArg_def fun_eq_iff split: FxCell.splits)

lemma resolve_written:
  "fxResolveMStreamArg t x = fxResolveMStreamArg s x \<Longrightarrow> fxResolveMStreamArg (written_back [a] s t) x = fxResolveMStreamArg s x"
  by (auto simp: written_back_def fxResolveMStreamArg_def split: FxCell.splits FxArg.splits)

lemma collect_None:
  "n + length args \<le> 256 \<Longrightarrow> collect_writebacks env s i n args = None \<longleftrightarrow> \<not> list_all (arg_storable env s) args"
  by (induction env s i n args rule: collect_writebacks.induct)
    (auto simp: arg_storable_def fxResolveMStreamArg_def split: FxArg.splits FxCell.splits)

lemma read_typed_made:
  assumes "level (pe_read_function (env :: 'f PEnv))"
  shows "read_typed env TYPE_INTEGER msg k (frame (makeInt n :: 'f PValue) @ rest) t = k (makeInt n) rest t"
    "read_typed env TYPE_BOOLEAN msg k (frame (makeBoolean b :: 'f PValue) @ rest) t = k (makeBoolean b) rest t"
    "length name \<le> 2 ^ 20 \<Longrightarrow> read_typed env TYPE_STRING msg k (frame (makeString name :: 'f PValue) @ rest) t = k (makeString name) rest t"
  by (simp_all add: read_typed_def read_or_def read_frame [OF assms] fits_name)

lemma arg_at_middle [simp]: "arg_at (pre @ a # suf) (int (length pre)) = Some a"
  by (simp add: arg_at_def)

lemma replay_one_stream:
  assumes f: "level (pe_read_function env)" and a: "fxResolveMStreamArg s a = Some ms" "fxResolveMStreamArg t a = Some ms"
    and len: "length (fx_streams s ms) \<le> frame_limit" "length pre < 2 ^ 31"
  shows "replay_writeback env (pre @ a # suf) w k (wb_bytes s (pre @ a # suf) (length pre, FX_WB_KIND_MSTREAM) @ rest) t
    = k rest (written_back [a] s t)"
  using len by (simp add: replay_writeback_def wb_bytes_def read_typed_made [OF f] as_int_made kind_code_def a read_or_def
      raw_blob_back written_back_stream [OF a(1)] Let_def)

lemma replay_one_cell:
  assumes f: "level (pe_read_function env)" and c: "fx_cells s c = CellValue v" and v: "fits env v" and len: "length pre < 2 ^ 31"
  shows "replay_writeback env (pre @ ArgCell c # suf) w k (wb_bytes s (pre @ ArgCell c # suf) (length pre, FX_WB_KIND_GENERIC) @ rest) t
    = k rest (written_back [ArgCell c] s t)"
  using len by (simp add: replay_writeback_def wb_bytes_def read_typed_made [OF f] as_int_made kind_code_def c
      read_or_frame [OF f v] written_back_cell [OF c] Let_def)

lemma replay_collected:
  assumes f: "level (pe_read_function env)"
  shows "collect_writebacks env s (length pre) n suf = Some ws \<Longrightarrow> n + length suf \<le> 256 \<Longrightarrow> length pre + length suf \<le> 256 \<Longrightarrow>
    list_all (arg_recordable env s) suf \<Longrightarrow> \<forall>a \<in> set suf. fxResolveMStreamArg t a = fxResolveMStreamArg s a \<Longrightarrow>
    replay_writebacks env (pre @ suf) w (length ws) k (concat (map (wb_bytes s (pre @ suf)) ws) @ rest) t
      = k rest (written_back suf s t)"
proof (induction suf arbitrary: pre n w ws t)
  case (Cons a suf)
  have IH: "replay_writebacks env (pre @ a # suf) w' (length ws') k (concat (map (wb_bytes s (pre @ a # suf)) ws') @ rest) t'
      = k rest (written_back suf s t')"
    if "collect_writebacks env s (Suc (length pre)) n' suf = Some ws'" "n' + length suf \<le> 256"
      "\<forall>x \<in> set suf. fxResolveMStreamArg t' x = fxResolveMStreamArg s x" for n' w' ws' t'
    using Cons.IH [of "pre @ [a]" n' ws' t' w'] that Cons.prems by simp
  have t': "\<forall>x \<in> set suf. fxResolveMStreamArg (written_back [a] s t) x = fxResolveMStreamArg s x"
    using Cons.prems(5) by (simp add: resolve_written)
  have n: "n < 256" "length pre < 2 ^ 31" using Cons.prems by simp_all
  show ?case
  proof (cases "fxResolveMStreamArg s a")
    case (Some ms)
    then obtain ws' where ws: "ws = (length pre, FX_WB_KIND_MSTREAM) # ws'"
        "collect_writebacks env s (Suc (length pre)) (Suc n) suf = Some ws'"
      using Cons.prems(1) n by auto
    have len: "length (fx_streams s ms) \<le> frame_limit" using Cons.prems(4) Some by (simp add: arg_recordable_def)
    have t: "fxResolveMStreamArg t a = Some ms" using Cons.prems(5) Some by simp
    show ?thesis
      using IH [OF ws(2) _ t', of "Suc w"] Cons.prems(2)
      unfolding ws(1) by (subst written_back_Cons) (simp add: replay_one_stream [OF f Some t len n(2)])
  next
    case None
    show ?thesis
    proof (cases a)
      case (ArgCell c)
      then obtain v where v: "fx_cells s c = CellValue v" using None by (auto simp: fxResolveMStreamArg_def split: FxCell.splits)
      then obtain ws' where ws: "ws = (length pre, FX_WB_KIND_GENERIC) # ws'"
          "collect_writebacks env s (Suc (length pre)) (Suc n) suf = Some ws'" and ser: "valueIsGenericSerializable env v"
        using Cons.prems(1) n None ArgCell by (auto split: if_splits)
      have fit: "fits env v" using Cons.prems(4) ser v ArgCell by (simp add: arg_recordable_def)
      show ?thesis
        using IH [OF ws(2) _ t', of "Suc w"] Cons.prems(2)
        unfolding ws(1) ArgCell by (subst written_back_Cons) (simp add: replay_one_cell [OF f v fit n(2)])
    next
      case (ArgStream ms)
      then show ?thesis using None by (simp add: fxResolveMStreamArg_def)
    next
      case (ArgOther v)
      then have "collect_writebacks env s (Suc (length pre)) n suf = Some ws" using Cons.prems(1) n None by simp
      then show ?thesis using IH [of n ws t w] Cons.prems(2,5) ArgOther
        by (subst written_back_Cons) (simp add: written_back_other)
    qed
  qed
qed simp

lemma collect_index:
  "collect_writebacks env s i n args = Some ws \<Longrightarrow> w \<in> set ws \<Longrightarrow> i \<le> fst w \<and> fst w < i + length args"
proof (induction args arbitrary: i n ws)
  case (Cons a args)
  have deeper: "i \<le> fst w \<and> fst w < Suc (i + length args)"
    if "collect_writebacks env s (Suc i) m args = Some ws'" "w \<in> set ws'" for m ws'
    using Cons.IH [OF that] by simp
  show ?case using Cons.prems by (auto dest: deeper split: if_splits FxArg.splits FxCell.splits)
qed simp

lemma collect_length: "collect_writebacks env s i n args = Some ws \<Longrightarrow> length ws \<le> length args"
  by (induction args arbitrary: i n ws) (force split: if_splits FxArg.splits FxCell.splits)+

lemma blob_appended: "writeRawBlob data len f = f @ writeRawBlob data len []"
  by (simp add: writeRawBlob_def)

lemma framed_appended: "fits env v \<Longrightarrow> framed env v f = f @ frame v"
  by (simp add: framed_def framed_fits)

lemma writeback_appended:
  assumes "\<And>c v. args ! fst w = ArgCell c \<Longrightarrow> fx_cells s c = CellValue v \<Longrightarrow> snd w = FX_WB_KIND_GENERIC \<Longrightarrow> fits env v"
  shows "write_writeback env s args w f = f @ wb_bytes s args w"
  using assms
  by (auto simp: write_writeback_def wb_bytes_def framed_appended Let_def
      blob_appended [of _ _ "f @ _"] append_assoc
      split: writeback_kind.split option.split FxArg.split FxCell.split)

lemma writebacks_appended:
  "(\<And>w f. w \<in> set ws \<Longrightarrow> write_writeback env s args w f = f @ wb_bytes s args w) \<Longrightarrow>
   fold (write_writeback env s args) ws f = f @ concat (map (wb_bytes s args) ws)"
  by (induction ws arbitrary: f) simp_all

record 'f FxCall =
  fc_name :: string
  fc_args :: "'f FxArg list"
  fc_after :: "'f FxStore"
  fc_result :: "'f PValue option"

text \<open>When a call is taken from the journal, what it yields then, and the store it leaves.\<close>

definition substituted :: "'f PEnv \<Rightarrow> 'f FxCall \<Rightarrow> bool" where
  "substituted env c \<longleftrightarrow>
     (case fc_result c of None \<Rightarrow> True | Some v \<Rightarrow> valueIsGenericSerializable env v)
     \<and> list_all (arg_storable env (fc_after c)) (fc_args c)"

definition replay_outcome :: "'f PEnv \<Rightarrow> 'f FxCall \<Rightarrow> 'f fx_replay" where
  "replay_outcome env c =
     (if substituted env c
      then REPLAY_SUBSTITUTED (case fc_result c of
             None \<Rightarrow> PScalar \<lparr>vs_type = TYPE_NIL, vs_bits = pscalTagNil\<rparr> | Some v \<Rightarrow> stored_value v)
      else REPLAY_RUN_LIVE)"

definition replay_store :: "'f PEnv \<Rightarrow> 'f FxCall \<Rightarrow> 'f FxStore \<Rightarrow> 'f FxStore" where
  "replay_store env c t = (if substituted env c then written_back (fc_args c) (fc_after c) t else t)"

definition call_recordable :: "'f PEnv \<Rightarrow> 'f FxCall \<Rightarrow> bool" where
  "call_recordable env c \<longleftrightarrow>
     no_nul (fc_name c) \<and> length (fc_name c) \<le> 2 ^ 20 \<and> length (fc_args c) \<le> 256
     \<and> (case fc_result c of None \<Rightarrow> True | Some v \<Rightarrow> valueIsGenericSerializable env v \<longrightarrow> fits env v)
     \<and> list_all (arg_recordable env (fc_after c)) (fc_args c)"

definition same_streams :: "'f FxCall \<Rightarrow> 'f FxStore \<Rightarrow> bool" where
  "same_streams c t \<longleftrightarrow> list_all (\<lambda>a. fxResolveMStreamArg t a = fxResolveMStreamArg (fc_after c) a) (fc_args c)"

definition call_writebacks :: "'f PEnv \<Rightarrow> 'f FxCall \<Rightarrow> (nat \<times> writeback_kind) list option" where
  "call_writebacks env c =
     (if (case fc_result c of None \<Rightarrow> True | Some v \<Rightarrow> valueIsGenericSerializable env v)
      then collect_writebacks env (fc_after c) 0 0 (fc_args c) else None)"

definition call_bytes :: "'f PEnv \<Rightarrow> 'f FxCall \<Rightarrow> byte list" where
  "call_bytes env c =
     frame (makeString (fc_name c) :: 'f PValue) @ frame (makeInt (int (length (fc_args c))) :: 'f PValue) @
     frame (makeBoolean (substituted env c) :: 'f PValue) @
     (case call_writebacks env c of
        None \<Rightarrow> []
      | Some ws \<Rightarrow>
          frame (makeBoolean (fc_result c \<noteq> None) :: 'f PValue) @ (case fc_result c of None \<Rightarrow> [] | Some v \<Rightarrow> frame v) @
          frame (makeInt (int (length ws)) :: 'f PValue) @ concat (map (wb_bytes (fc_after c) (fc_args c)) ws))"

lemma call_writebacks_None: "length (fc_args c) \<le> 256 \<Longrightarrow> call_writebacks env c = None \<longleftrightarrow> \<not> substituted env c"
  by (auto simp: call_writebacks_def substituted_def collect_None)

lemma call_recorded:
  assumes ok: "call_recordable env c" and st: "fx_record_file st = Some f"
  shows "pscalFxRecordCall env (Some (fc_name c)) (fc_args c) (fc_after c) (fc_result c) st
    = st\<lparr>fx_record_file := Some (f @ call_bytes env c)\<rparr>"
proof -
  let ?w = "call_writebacks env c"
  have n: "length (fc_args c) \<le> 256" and name: "fits env (makeString (fc_name c))"
    using ok by (simp_all add: call_recordable_def fits_name)
  note appended = framed_appended [OF name] framed_appended [OF fits_made(1)] framed_appended [OF fits_made(2)]
  have w: "(if (case fc_result c of None \<Rightarrow> True | Some v \<Rightarrow> valueIsGenericSerializable env v)
      then collect_writebacks env (fc_after c) 0 0 (fc_args c) else None) = ?w" by (simp add: call_writebacks_def)
  show ?thesis
  proof (cases ?w)
    case None
    then show ?thesis using call_writebacks_None [OF n, of env]
      by (simp add: pscalFxRecordCall_def st w appended call_bytes_def)
  next
    case (Some ws)
    then have sub: "substituted env c" using call_writebacks_None [OF n, of env] by auto
    have "write_writeback env (fc_after c) (fc_args c) x f' = f' @ wb_bytes (fc_after c) (fc_args c) x" if "x \<in> set ws" for x f'
    proof (rule writeback_appended)
      fix k v assume c: "fc_args c ! fst x = ArgCell k" "fx_cells (fc_after c) k = CellValue v"
      have "collect_writebacks env (fc_after c) 0 0 (fc_args c) = Some ws"
        using Some by (simp add: call_writebacks_def split: if_splits)
      then have "fc_args c ! fst x \<in> set (fc_args c)" using collect_index [OF _ that] by fastforce
      then have "arg_storable env (fc_after c) (ArgCell k)" "arg_recordable env (fc_after c) (ArgCell k)"
        using sub ok c(1) by (simp_all add: substituted_def call_recordable_def list_all_iff)
      then show "fits env v" using c(2) by (simp add: arg_storable_def arg_recordable_def)
    qed
    note wbs = writebacks_appended [OF this]
    have r: "framed env v f' = f' @ frame v" if "fc_result c = Some v" for v f'
      using sub ok that by (intro framed_appended) (simp add: substituted_def call_recordable_def)
    have "fold (write_writeback env (fc_after c) (fc_args c)) ws f'
        = f' @ concat (map (wb_bytes (fc_after c) (fc_args c)) ws)" for f' by (rule wbs)
    then show ?thesis
      unfolding pscalFxRecordCall_def st w Some call_bytes_def
      using sub by (cases "fc_result c") (simp_all add: appended r Let_def del: not_None_eq)
  qed
qed

lemma replay_result_back:
  assumes f: "level (pe_read_function env)" and r: "\<And>v. result = Some v \<Longrightarrow> fits env v"
  shows "replay_result env (result \<noteq> None) k ((case result of None \<Rightarrow> [] | Some v \<Rightarrow> frame v) @ rest) t
    = k (case result of None \<Rightarrow> PScalar \<lparr>vs_type = TYPE_NIL, vs_bits = pscalTagNil\<rparr> | Some v \<Rightarrow> stored_value v) rest t"
  using r by (auto simp: replay_result_def read_or_frame [OF f] split: option.split)

lemma call_replayed:
  assumes f: "level (pe_read_function env)" and ok: "call_recordable env c" and t: "same_streams c t"
  shows "replay_call env (fc_name c) (fc_args c) (call_bytes env c @ rest) t = (replay_outcome env c, rest, replay_store env c t)"
proof -
  have n: "length (fc_args c) \<le> 256" and name: "length (fc_name c) \<le> 2 ^ 20" "no_nul (fc_name c)"
    using ok by (simp_all add: call_recordable_def)
  have small: "as_int (makeInt (int m) :: 'a PValue) = int m" if "m \<le> 256" for m
    using that by (intro as_int_made) simp_all
  note step = read_typed_made(3) [OF f name(1)] read_typed_made(1,2) [OF f] as_string_made [OF name(2)] small [OF n] same_name_def
  show ?thesis
  proof (cases "call_writebacks env c")
    case None
    then show ?thesis using call_writebacks_None [OF n, of env]
      by (simp add: replay_call_def call_bytes_def step Let_def replay_outcome_def replay_store_def stop_def)
  next
    case (Some ws)
    then have sub: "substituted env c" using call_writebacks_None [OF n, of env] by auto
    have ws: "collect_writebacks env (fc_after c) 0 0 (fc_args c) = Some ws"
      using Some by (simp add: call_writebacks_def split: if_splits)
    have len: "length ws \<le> 256"
      using collect_length [OF ws] n by simp
    have r: "\<And>v. fc_result c = Some v \<Longrightarrow> fits env v"
      using sub ok by (simp add: substituted_def call_recordable_def)
    have wb: "replay_writebacks env (fc_args c) 0 (length ws) k
        (concat (map (wb_bytes (fc_after c) (fc_args c)) ws) @ rest) t = k rest (written_back (fc_args c) (fc_after c) t)" for k
      using replay_collected [OF f, of "fc_after c" "[]" 0 "fc_args c" ws t 0 k rest] ws n ok t
      by (simp add: call_recordable_def same_streams_def list_all_iff)
    show ?thesis
      using sub by (simp add: replay_call_def call_bytes_def Some step Let_def replay_result_back [OF f r] small [OF len] wb
          replay_outcome_def replay_store_def stop_def del: not_None_eq)
  qed
qed

text \<open>A result the codec takes is recorded as one to substitute whatever its size, but the reader
  refuses a frame of more than 64 MiB: such a call cannot be replayed.\<close>

lemma oversized_result_not_replayed:
  assumes f: "level (pe_read_function env)" and ok: "value_ok env v" "frame_limit < length (value_bytes v)" "length (value_bytes v) < 2 ^ 64"
  shows "fst (pscalCacheWriteValueFramed env v f) \<and>
    pscalCacheReadValueFramed env (snd (pscalCacheWriteValueFramed env v [])) = (Inr None, value_bytes v)"
proof -
  obtain out where out: "writeValue env v bufInit = Some out" "bb_data out = value_bytes v"
    using writesD [OF writes_value [OF ok(1)], of bufInit] by (auto simp: bufInit_def)
  have init: "bb_data bufInit = []" by (simp add: bufInit_def)
  have len: "unat (word_of_nat (length (value_bytes v)) :: u64) = length (value_bytes v)"
    using ok(3) by (simp add: unat_of_nat)
  show ?thesis
    using ok(2) init by (simp add: pscalCacheWriteValueFramed_def out buf_simps pscalCacheReadValueFramed_def
        len_prefixed_def len Let_def)
qed

text \<open>A run that records its calls, and one that replays them, each call with the store the program
  has reached by then.\<close>

definition record_calls :: "'f PEnv \<Rightarrow> 'f FxCall list \<Rightarrow> FxPolicy \<Rightarrow> FxPolicy" where
  "record_calls env cs st =
     fold (\<lambda>c. pscalFxRecordCall env (Some (fc_name c)) (fc_args c) (fc_after c) (fc_result c)) cs st"

fun replay_calls :: "'f PEnv \<Rightarrow> ('f FxCall \<times> 'f FxStore) list \<Rightarrow> FxPolicy \<Rightarrow> ('f fx_replay \<times> 'f FxStore) list \<times> FxPolicy" where
  "replay_calls env [] st = ([], st)"
| "replay_calls env ((c, t) # cs) st =
     (let (r, t', st') = pscalFxReplayCall env (Some (fc_name c)) (fc_args c) t st;
          (rs, st'') = replay_calls env cs st'
      in ((r, t') # rs, st''))"

lemma calls_recorded:
  "list_all (call_recordable env) cs \<Longrightarrow> fx_record_file st = Some f \<Longrightarrow>
   fx_record_file (record_calls env cs st) = Some (f @ concat (map (call_bytes env) cs))"
  by (induction cs arbitrary: st f) (simp_all add: record_calls_def call_recorded)

lemma calls_replayed:
  assumes f: "level (pe_read_function env)"
  shows "list_all (\<lambda>(c, t). call_recordable env c \<and> same_streams c t) cs \<Longrightarrow>
    fx_replay_file st = Some (concat (map (call_bytes env) (map fst cs)) @ rest) \<Longrightarrow>
    \<exists>st'. replay_calls env cs st = (map (\<lambda>(c, t). (replay_outcome env c, replay_store env c t)) cs, st')
      \<and> fx_replay_file st' = Some rest"
proof (induction cs arbitrary: st)
  case (Cons x cs)
  obtain c t where x: "x = (c, t)" by (cases x)
  let ?rest = "concat (map (call_bytes env) (map fst cs)) @ rest" and ?st = "st\<lparr>fx_replay_file := Some (concat (map (call_bytes env) (map fst cs)) @ rest)\<rparr>"
  have "pscalFxReplayCall env (Some (fc_name c)) (fc_args c) t st = (replay_outcome env c, replay_store env c t, ?st)"
    using Cons.prems call_replayed [OF f, of c t ?rest] by (simp add: pscalFxReplayCall_def x)
  moreover obtain st' where "replay_calls env cs ?st = (map (\<lambda>(c, t). (replay_outcome env c, replay_store env c t)) cs, st')"
      "fx_replay_file st' = Some rest"
    using Cons.IH [of ?st] Cons.prems(1) by auto
  ultimately show ?case by (simp add: x)
qed simp

text \<open>C38: A journal replays what was recorded into it. However many calls a run records, replaying them in the same
  order yields for each call that can be substituted the stored form of its result (\<open>stored_value\<close>: as a value comes
  back from a cache file) and puts behind its arguments the stored form of the values and the stream contents the
  journal saw after it, touching nothing else; a call that cannot be substituted, such as every procedure (its
  result is void), one that answers a Unicode string or one whose arguments cannot be stored, is answered
  \<open>REPLAY_RUN_LIVE\<close>, so it runs again; and the last call ends the journal exactly. This holds for calls of at most
  256 arguments, with a name of at most 2^20 bytes, whose storable values are well formed and whose frames and streams
  stay within the 64 MiB the reader accepts (\<open>call_recordable\<close>): a larger result is recorded but cannot be replayed
  (\<open>oversized_result_not_replayed\<close>).\<close>
theorem journal_replays:
  assumes "level (pe_read_function env)" and "journal_path \<noteq> []"
    and "list_all (\<lambda>(c, t). call_recordable env c \<and> same_streams c t) cs"
  shows "\<exists>journal st. fx_record_file (record_calls env (map fst cs) (snd (pscalFxBeginRecord journal_path True fx_initial))) = Some journal
    \<and> replay_calls env cs (snd (pscalFxBeginReplay journal_path (Some journal) fx_initial))
        = (map (\<lambda>(c, t). (replay_outcome env c, replay_store env c t)) cs, st)
    \<and> fx_replay_file st = Some []"
proof -
  let ?bytes = "concat (map (call_bytes env) (map fst cs))"
  let ?journal = "(kFxJournalMagic @ [FX_JOURNAL_VERSION]) @ ?bytes"
  have magic: "length kFxJournalMagic = 4" by (simp add: kFxJournalMagic_def bytes_of_def)
  have rec: "fx_record_file (snd (pscalFxBeginRecord journal_path True fx_initial)) = Some (kFxJournalMagic @ [FX_JOURNAL_VERSION])"
    using assms(2) by (simp add: pscalFxBeginRecord_def fx_initial_def)
  have "list_all (call_recordable env) (map fst cs)" using assms(3) by (auto simp: list_all_iff)
  from calls_recorded [OF this rec]
  have "fx_record_file (record_calls env (map fst cs) (snd (pscalFxBeginRecord journal_path True fx_initial))) = Some ?journal" .
  moreover have "fx_replay_file (snd (pscalFxBeginReplay journal_path (Some ?journal) fx_initial)) = Some (?bytes @ [])"
    using assms(2) magic by (simp add: pscalFxBeginReplay_def fx_initial_def nth_append)
  from calls_replayed [OF assms(1,3) this]
  obtain st where "replay_calls env cs (snd (pscalFxBeginReplay journal_path (Some ?journal) fx_initial))
        = (map (\<lambda>(c, t). (replay_outcome env c, replay_store env c t)) cs, st)" "fx_replay_file st = Some []" by blast
  ultimately show ?thesis by blast
qed

definition demo_after :: "unit FxStore" where
  "demo_after = \<lparr>fx_cells = (\<lambda>c. if c = 1 then CellStream 7 else CellValue (PDouble 5)), fx_streams = (\<lambda>ms. [104, 105])\<rparr>"

definition demo_calls :: "(unit FxCall \<times> unit FxStore) list" where
  "demo_calls =
     [(\<lparr>fc_name = ''httprequest'', fc_args = [ArgCell 0, ArgOther (PDouble 1), ArgCell 1], fc_after = demo_after,
        fc_result = Some (PDouble 200)\<rparr>,
       \<lparr>fx_cells = (\<lambda>c. if c = 1 then CellStream 7 else CellValue (PDouble 0)), fx_streams = (\<lambda>ms. [])\<rparr>),
      (\<lparr>fc_name = ''rewrite'', fc_args = [ArgCell 0], fc_after = demo_after,
        fc_result = Some (PScalar \<lparr>vs_type = TYPE_VOID, vs_bits = pscalTagVoid\<rparr>)\<rparr>, demo_after)]"

lemma journal_replays_witness:
  "\<exists>journal st. fx_record_file (record_calls demo_env (map fst demo_calls) (snd (pscalFxBeginRecord ''j'' True fx_initial))) = Some journal
    \<and> replay_calls demo_env demo_calls (snd (pscalFxBeginReplay ''j'' (Some journal) fx_initial))
        = (map (\<lambda>(c, t). (replay_outcome demo_env c, replay_store demo_env c t)) demo_calls, st)
    \<and> fx_replay_file st = Some []
    \<and> map (\<lambda>(c, t). replay_outcome demo_env c) demo_calls = [REPLAY_SUBSTITUTED (PDouble 200), REPLAY_RUN_LIVE]
    \<and> fx_streams (replay_store demo_env (fst (demo_calls ! 0)) (snd (demo_calls ! 0))) 7 = [104, 105]"
proof -
  have f: "level (pe_read_function demo_env)" by (simp add: demo_env_def level_def rret_def)
  have fit: "fits demo_env (PDouble b)" for b
    using levels_allowed by (simp add: fits_def value_type_bytes_def frame_limit_def)
  have ser: "valueIsGenericSerializable demo_env (PDouble b)" for b
    using framed_fits [OF fit, of b "[]"] by (simp add: valueIsGenericSerializable_def not_substitutable_def)
  have void: "\<not> valueIsGenericSerializable demo_env (PScalar \<lparr>vs_type = TYPE_VOID, vs_bits = pscalTagVoid\<rparr>)"
    by (simp add: valueIsGenericSerializable_def not_substitutable_def)
  have "no_nul ''httprequest''" "no_nul ''rewrite''" by code_simp+
  then have ok: "list_all (\<lambda>(c, t). call_recordable demo_env c \<and> same_streams c t) demo_calls"
    by (simp add: demo_calls_def demo_after_def call_recordable_def same_streams_def arg_recordable_def
        fxResolveMStreamArg_def fit void frame_limit_def)
  have out: "map (\<lambda>(c, t). replay_outcome demo_env c) demo_calls = [REPLAY_SUBSTITUTED (PDouble 200), REPLAY_RUN_LIVE]"
    "fx_streams (replay_store demo_env (fst (demo_calls ! 0)) (snd (demo_calls ! 0))) 7 = [104, 105]"
    by (simp_all add: demo_calls_def demo_after_def replay_outcome_def replay_store_def substituted_def arg_storable_def
        written_back_def fxResolveMStreamArg_def ser void)
  have "''j'' \<noteq> []" by simp
  from journal_replays [OF f this ok] show ?thesis
    by (elim exE conjE) (intro exI conjI, assumption+, (rule out)+)
qed

end
