(* ===== verification/VmArith.thy ===== *)
theory VmArith
  imports FxPolicy
begin

section \<open>Integer instructions\<close>

text \<open>
  The integer side of the arithmetic, shift and comparison instructions of \<open>interpretBytecode\<close>
  (\<open>vm/vm.c\<close>), with the helpers for unsigned 64-bit operands it uses and the result constructors of
  \<open>core/utils.h\<close>. An operand that is no integer leads to branches of the interpreter that are not modelled
  (reals, strings, enumerations, sets): here it is the answer \<open>NotIntegers\<close>.

  Signed C arithmetic is written on 64-bit words with the value the C standard gives it where it gives
  one; the overflow builtins answer whether the exact result leaves the type.
\<close>

subsection \<open>Results and 64-bit arithmetic\<close>

datatype arith_error = IntegerOverflow | DivisionByZero | NegativeShift | NotIntegers

definition makeInt64 :: "u64 \<Rightarrow> ValueStruct" where
  "makeInt64 x = makeScalar TYPE_INT64 x"

definition makeUInt64 :: "u64 \<Rightarrow> ValueStruct" where
  "makeUInt64 x = makeScalar TYPE_UINT64 x"

definition makeInt32 :: "u64 \<Rightarrow> ValueStruct" where
  "makeInt32 x = makeScalar TYPE_INT32 x"

definition makeBool :: "bool \<Rightarrow> ValueStruct" where
  "makeBool b = makeScalar TYPE_BOOLEAN (if b then 1 else 0)"

definition pscalIntResultNarrow :: "u64 \<Rightarrow> ValueStruct" where
  "pscalIntResultNarrow result =
     (if sint result < - (2 ^ 31) \<or> 2 ^ 31 - 1 < sint result then makeInt64 result else makeInt32 result)"

definition pscalIntResultLike2 :: "ValueStruct \<Rightarrow> ValueStruct \<Rightarrow> u64 \<Rightarrow> ValueStruct" where
  "pscalIntResultLike2 a b result =
     (if vs_type a = TYPE_UINT64 \<or> vs_type b = TYPE_UINT64 then makeUInt64 result
      else if vs_type a = TYPE_INT64 \<or> vs_type b = TYPE_INT64 then makeInt64 result
      else pscalIntResultNarrow result)"

text \<open>\<open>__builtin_add_overflow\<close> and its like: whether the exact result leaves the type, and the result
  modulo 2^64.\<close>

definition signed_overflow :: "int \<Rightarrow> bool \<times> u64" where
  "signed_overflow z = (z < - (2 ^ 63) \<or> 2 ^ 63 \<le> z, word_of_int z)"

definition unsigned_overflow :: "int \<Rightarrow> bool \<times> u64" where
  "unsigned_overflow z = (z < 0 \<or> 2 ^ 64 \<le> z, word_of_int z)"

text \<open>C's division truncates.\<close>

definition quot :: "int \<Rightarrow> int \<Rightarrow> int" where
  "quot x y = sgn x * sgn y * (\<bar>x\<bar> div \<bar>y\<bar>)"

definition rem :: "int \<Rightarrow> int \<Rightarrow> int" where
  "rem x y = sgn x * (\<bar>x\<bar> mod \<bar>y\<bar>)"

subsection \<open>Unsigned 64-bit operands\<close>

record VmWideInt =
  vw_neg :: bool
  vw_mag :: u64

definition vmWideIntOf :: "ValueStruct \<Rightarrow> VmWideInt" where
  "vmWideIntOf v =
     (if vs_type v = TYPE_UINT64 then \<lparr>vw_neg = False, vw_mag = pscalValueDecodeUInt v\<rparr>
      else let s = asI64 v; neg = sint s < 0 in \<lparr>vw_neg = neg, vw_mag = (if neg then 0 - s else s)\<rparr>)"

definition three_way :: "'a::linorder \<Rightarrow> 'a \<Rightarrow> int" where
  "three_way x y = (if y < x then 1 else 0) - (if x < y then 1 else 0)"

definition vmCompareIntlike :: "ValueStruct \<Rightarrow> ValueStruct \<Rightarrow> int" where
  "vmCompareIntlike a b =
     (if vs_type a \<noteq> TYPE_UINT64 \<and> vs_type b \<noteq> TYPE_UINT64 then three_way (sint (asI64 a)) (sint (asI64 b))
      else
        let x = vmWideIntOf a; y = vmWideIntOf b in
        if vw_neg x \<noteq> vw_neg y then (if vw_neg x then - 1 else 1)
        else let c = three_way (vw_mag x) (vw_mag y) in if vw_neg x then - c else c)"

definition vmWideIntToBits :: "VmWideInt \<Rightarrow> u64 option" where
  "vmWideIntToBits r =
     (let neg = (vw_neg r \<and> vw_mag r \<noteq> 0) in
      if neg \<and> push_bit 63 1 < vw_mag r then None
      else Some (if neg then 0 - vw_mag r else vw_mag r))"

datatype arith_op = OpAdd | OpSubtract | OpMultiply

definition vmUInt64Arith :: "arith_op \<Rightarrow> ValueStruct \<Rightarrow> ValueStruct \<Rightarrow> u64 option" where
  "vmUInt64Arith op a b =
     (let x = vmWideIntOf a;
          y = vmWideIntOf b;
          y = (if op = OpSubtract then y\<lparr>vw_neg := \<not> vw_neg y \<and> vw_mag y \<noteq> 0\<rparr> else y)
      in
      if op \<noteq> OpMultiply then
        (if vw_neg x = vw_neg y then
           (case unsigned_overflow (uint (vw_mag x) + uint (vw_mag y)) of
              (True, _) \<Rightarrow> None
            | (False, m) \<Rightarrow> vmWideIntToBits \<lparr>vw_neg = vw_neg x, vw_mag = m\<rparr>)
         else if vw_mag y \<le> vw_mag x then vmWideIntToBits \<lparr>vw_neg = vw_neg x, vw_mag = vw_mag x - vw_mag y\<rparr>
         else vmWideIntToBits \<lparr>vw_neg = vw_neg y, vw_mag = vw_mag y - vw_mag x\<rparr>)
      else
        (case unsigned_overflow (uint (vw_mag x) * uint (vw_mag y)) of
           (True, _) \<Rightarrow> None
         | (False, m) \<Rightarrow> vmWideIntToBits \<lparr>vw_neg = (vw_neg x \<noteq> vw_neg y), vw_mag = m\<rparr>))"

definition vmUInt64DivMod :: "ValueStruct \<Rightarrow> ValueStruct \<Rightarrow> bool \<Rightarrow> u64 option" where
  "vmUInt64DivMod a b want_mod =
     (let x = vmWideIntOf a; y = vmWideIntOf b in
      if want_mod then vmWideIntToBits \<lparr>vw_neg = vw_neg x, vw_mag = vw_mag x mod vw_mag y\<rparr>
      else vmWideIntToBits \<lparr>vw_neg = (vw_neg x \<noteq> vw_neg y), vw_mag = vw_mag x div vw_mag y\<rparr>)"

definition vmShiftInt64 :: "u64 \<Rightarrow> int \<Rightarrow> bool \<Rightarrow> bool \<Rightarrow> u64" where
  "vmShiftInt64 a count left isUnsigned =
     (if left then (if 64 \<le> count then 0 else push_bit (nat count) a)
      else if isUnsigned then (if 64 \<le> count then 0 else drop_bit (nat count) a)
      else if 64 \<le> count then (if sint a < 0 then - 1 else 0)
      else signed_drop_bit (nat count) a)"

subsection \<open>The instructions\<close>

text \<open>The integer branch of \<open>BINARY_OP\<close>: its first arm is the fast path for two 32-bit operands of \<open>ADD\<close>. Two
  characters are text to \<open>ADD\<close>, and so is one character when the program is an Aether program.\<close>

definition isPascalCharType :: "u8 \<Rightarrow> bool" where
  "isPascalCharType t \<longleftrightarrow> t = TYPE_CHAR \<or> t = TYPE_WIDECHAR"

definition adds_text :: "bool \<Rightarrow> ValueStruct \<Rightarrow> ValueStruct \<Rightarrow> bool" where
  "adds_text aether a b \<longleftrightarrow>
     isPascalCharType (vs_type a) \<and> (isPascalCharType (vs_type b) \<or> aether) \<or> isPascalCharType (vs_type b) \<and> aether"

definition binary_int :: "bool \<Rightarrow> arith_op \<Rightarrow> ValueStruct \<Rightarrow> ValueStruct \<Rightarrow> arith_error + ValueStruct" where
  "binary_int aether op a b =
     (if op = OpAdd \<and> vs_type a = TYPE_INT32 \<and> vs_type b = TYPE_INT32 then
        (case signed_overflow (sint (pscalValueDecodeInt a) + sint (pscalValueDecodeInt b)) of
           (True, _) \<Rightarrow> Inl IntegerOverflow
         | (False, r) \<Rightarrow> Inr (pscalIntResultNarrow r))
      else if op = OpAdd \<and> adds_text aether a b then Inl NotIntegers
      else if \<not> (isIntlikeType (vs_type a) \<and> isIntlikeType (vs_type b)) then Inl NotIntegers
      else if vs_type a = TYPE_UINT64 \<or> vs_type b = TYPE_UINT64 then
        (case vmUInt64Arith op a b of None \<Rightarrow> Inl IntegerOverflow | Some r \<Rightarrow> Inr (makeUInt64 r))
      else
        let ia = sint (asI64 a); ib = sint (asI64 b);
            z = (case op of OpAdd \<Rightarrow> ia + ib | OpSubtract \<Rightarrow> ia - ib | OpMultiply \<Rightarrow> ia * ib) in
        (case signed_overflow z of
           (True, _) \<Rightarrow> Inl IntegerOverflow
         | (False, r) \<Rightarrow> Inr (pscalIntResultLike2 a b r)))"

definition instr_INT_DIV :: "ValueStruct \<Rightarrow> ValueStruct \<Rightarrow> arith_error + ValueStruct" where
  "instr_INT_DIV a b =
     (if vs_type a = TYPE_INT32 \<and> vs_type b = TYPE_INT32 then
        let ia = sint (ucast (pscalValueDecodeInt a) :: u32); ib = sint (ucast (pscalValueDecodeInt b) :: u32) in
        if ib = 0 then Inl DivisionByZero
        else if ia = - (2 ^ 31) \<and> ib = - 1 then Inr (makeInt64 2147483648)
        else Inr (makeInt32 (word_of_int (quot ia ib)))
      else if \<not> (isIntlikeType (vs_type a) \<and> isIntlikeType (vs_type b)) then Inl NotIntegers
      else
        let ia = sint (asI64 a); ib = sint (asI64 b) in
        if ib = 0 then Inl DivisionByZero
        else if vs_type a = TYPE_UINT64 \<or> vs_type b = TYPE_UINT64 then
          (case vmUInt64DivMod a b False of None \<Rightarrow> Inl IntegerOverflow | Some uq \<Rightarrow> Inr (makeUInt64 uq))
        else if ia = - (2 ^ 63) \<and> ib = - 1 then Inl IntegerOverflow
        else Inr (pscalIntResultLike2 a b (word_of_int (quot ia ib))))"

definition instr_MOD :: "ValueStruct \<Rightarrow> ValueStruct \<Rightarrow> arith_error + ValueStruct" where
  "instr_MOD a b =
     (if vs_type a = TYPE_INT32 \<and> vs_type b = TYPE_INT32 then
        let ia = sint (ucast (pscalValueDecodeInt a) :: u32); ib = sint (ucast (pscalValueDecodeInt b) :: u32) in
        if ib = 0 then Inl DivisionByZero
        else if ia = - (2 ^ 31) \<and> ib = - 1 then Inr (makeInt32 0)
        else Inr (makeInt32 (word_of_int (rem ia ib)))
      else if \<not> (isIntlikeType (vs_type a) \<and> isIntlikeType (vs_type b)) then Inl NotIntegers
      else
        let ia = sint (asI64 a); ib = sint (asI64 b) in
        if ib = 0 then Inl DivisionByZero
        else if vs_type a = TYPE_UINT64 \<or> vs_type b = TYPE_UINT64
        then Inr (makeUInt64 (case vmUInt64DivMod a b True of None \<Rightarrow> 0 | Some ur \<Rightarrow> ur))
        else Inr (pscalIntResultLike2 a b (if ib = - 1 then 0 else word_of_int (rem ia ib))))"

definition instr_SHIFT :: "bool \<Rightarrow> ValueStruct \<Rightarrow> ValueStruct \<Rightarrow> arith_error + ValueStruct" where
  "instr_SHIFT left a b =
     (if vs_type a = TYPE_INT32 \<and> vs_type b = TYPE_INT32 then
        let ib = sint (pscalValueDecodeInt b) in
        if ib < 0 then Inl NegativeShift
        else Inr (pscalIntResultNarrow (vmShiftInt64 (pscalValueDecodeInt a) ib left False))
      else if \<not> (isIntlikeType (vs_type a) \<and> isIntlikeType (vs_type b)) then Inl NotIntegers
      else
        let ib = sint (asI64 b) in
        if ib < 0 then Inl NegativeShift
        else Inr (pscalIntResultLike2 a b (vmShiftInt64 (asI64 a) ib left (vs_type a = TYPE_UINT64))))"

datatype compare_op = CmpEqual | CmpNotEqual | CmpGreater | CmpGreaterEqual | CmpLess | CmpLessEqual

definition compare_with :: "compare_op \<Rightarrow> int \<Rightarrow> int \<Rightarrow> bool" where
  "compare_with op x y =
     (case op of CmpEqual \<Rightarrow> x = y | CmpNotEqual \<Rightarrow> x \<noteq> y | CmpGreater \<Rightarrow> y < x
      | CmpGreaterEqual \<Rightarrow> y \<le> x | CmpLess \<Rightarrow> x < y | CmpLessEqual \<Rightarrow> x \<le> y)"

definition compare_int :: "compare_op \<Rightarrow> ValueStruct \<Rightarrow> ValueStruct \<Rightarrow> arith_error + ValueStruct" where
  "compare_int op a b =
     (if vs_type a = TYPE_INT32 \<and> vs_type b = TYPE_INT32
      then Inr (makeBool (compare_with op (sint (pscalValueDecodeInt a)) (sint (pscalValueDecodeInt b))))
      else if \<not> (isIntlikeType (vs_type a) \<and> isIntlikeType (vs_type b)) then Inl NotIntegers
      else Inr (makeBool (compare_with op (vmCompareIntlike a b) 0)))"

subsection \<open>Integers as mathematical integers\<close>

definition int_value :: "ValueStruct \<Rightarrow> int" where
  "int_value v = (if vs_type v = TYPE_UINT64 then uint (pscalValueDecodeUInt v) else sint (asI64 v))"

definition wi_value :: "VmWideInt \<Rightarrow> int" where
  "wi_value w = (if vw_neg w then - uint (vw_mag w) else uint (vw_mag w))"

definition exact :: "arith_op \<Rightarrow> int \<Rightarrow> int \<Rightarrow> int" where
  "exact op x y = (case op of OpAdd \<Rightarrow> x + y | OpSubtract \<Rightarrow> x - y | OpMultiply \<Rightarrow> x * y)"

lemma u64_bounds: "0 \<le> uint (x :: u64)" "uint x < 2 ^ 64" "- (2 ^ 63) \<le> sint x" "sint x < 2 ^ 63"
  using uint_lt2p [of x] sint_ge [of x] sint_lt [of x] by simp_all

lemma sint_of_uint: "sint (x :: u64) = (if uint x < 2 ^ 63 then uint x else uint x - 2 ^ 64)"
proof -
  have "sint x = (uint x + 2 ^ 63) mod 2 ^ 64 - 2 ^ 63"
    by (simp add: sint_uint signed_take_bit_eq_take_bit_shift take_bit_eq_mod)
  moreover have "(uint x + 2 ^ 63) mod 2 ^ 64 = (if uint x < 2 ^ 63 then uint x + 2 ^ 63 else uint x - 2 ^ 63)"
  proof (cases "uint x < 2 ^ 63")
    case True
    then show ?thesis using u64_bounds(1) [of x] by (simp add: mod_pos_pos_trivial)
  next
    case False
    have "uint x + 2 ^ 63 = (uint x - 2 ^ 63) + 2 ^ 64" by simp
    then have "(uint x + 2 ^ 63) mod 2 ^ 64 = (uint x - 2 ^ 63) mod 2 ^ 64" by (metis mod_add_self2)
    also have "\<dots> = uint x - 2 ^ 63" using False u64_bounds(2) [of x] by (intro mod_pos_pos_trivial) simp_all
    finally show ?thesis using False by simp
  qed
  ultimately show ?thesis by simp
qed

lemma uint_of_int64: "uint (word_of_int z :: u64) = z mod 2 ^ 64"
  by (simp add: unsigned_of_int take_bit_eq_mod)

lemma sint_of_int64: "- (2 ^ 63) \<le> z \<Longrightarrow> z < 2 ^ 63 \<Longrightarrow> sint (word_of_int z :: u64) = z"
  by (simp add: signed_of_int signed_take_bit_int_eq_self)

lemma uint_id64: "0 \<le> z \<Longrightarrow> z < 2 ^ 64 \<Longrightarrow> uint (word_of_int z :: u64) = z"
  by (simp add: uint_of_int64)

lemma magnitude: "sint s < 0 \<Longrightarrow> uint (0 - s :: u64) = - sint s" "0 \<le> sint s \<Longrightarrow> uint (s :: u64) = sint s"
proof -
  assume s: "sint s < 0"
  have "0 - s = word_of_int (- sint s)" by simp
  then have "uint (0 - s) = uint (word_of_int (- sint s) :: u64)" by (rule arg_cong)
  also have "\<dots> = - sint s" by (rule uint_id64) (use s u64_bounds(3) [of s] in simp_all)
  finally show "uint (0 - s) = - sint s" .
next
  assume "0 \<le> sint s"
  then show "uint s = sint s" using u64_bounds(2) [of s] by (simp add: sint_of_uint split: if_splits)
qed

lemma wide_value: "wi_value (vmWideIntOf v) = int_value v"
  using magnitude [of "asI64 v"] by (simp add: wi_value_def vmWideIntOf_def int_value_def Let_def)

lemma wide_to_bits:
  "vmWideIntToBits r = (if wi_value r < - (2 ^ 63) then None else Some (word_of_int (wi_value r)))"
proof -
  let ?m = "vw_mag r"
  have z: "?m = 0 \<longleftrightarrow> uint ?m = 0" by (simp add: unsigned_eq_0_iff)
  have big: "push_bit 63 1 < ?m \<longleftrightarrow> 2 ^ 63 < uint ?m" by (simp add: word_less_def)
  have neg: "0 - ?m = word_of_int (- uint ?m)" by simp
  show ?thesis
  proof (cases "vw_neg r \<and> uint ?m \<noteq> 0")
    case True
    then show ?thesis unfolding vmWideIntToBits_def wi_value_def Let_def big neg z by simp
  next
    case False
    then have "wi_value r = uint ?m" by (auto simp: wi_value_def)
    moreover have "\<not> uint ?m < - (2 ^ 63)" using u64_bounds(1) [of ?m] zero_le_power [of "2::int" 63] by linarith
    moreover have "(vw_neg r \<and> ?m \<noteq> 0) = False" using False z by simp
    ultimately show ?thesis unfolding vmWideIntToBits_def Let_def by simp
  qed
qed

lemma uint_minus: "y \<le> x \<Longrightarrow> uint (x - y :: u64) = uint x - uint y"
  by (simp add: uint_minus_simple_alt [symmetric] word_le_def)

lemma wide_packed:
  assumes "0 \<le> m"
  shows "(case unsigned_overflow m of (True, _) \<Rightarrow> None | (False, w) \<Rightarrow> vmWideIntToBits \<lparr>vw_neg = n, vw_mag = w\<rparr>)
    = (let z = (if n then - m else m) in if - (2 ^ 63) \<le> z \<and> z < 2 ^ 64 then Some (word_of_int z) else None)"
proof (cases "m < 2 ^ 64")
  case True
  then have "wi_value \<lparr>vw_neg = n, vw_mag = word_of_int m\<rparr> = (if n then - m else m)"
    using assms by (simp add: wi_value_def uint_of_int64 mod_pos_pos_trivial)
  then show ?thesis using True assms by (auto simp: unsigned_overflow_def wide_to_bits Let_def)
qed (use assms in \<open>simp add: unsigned_overflow_def Let_def\<close>)

lemma wide_sum:
  "(if vw_neg x = vw_neg y then
      (case unsigned_overflow (uint (vw_mag x) + uint (vw_mag y)) of
         (True, _) \<Rightarrow> None
       | (False, m) \<Rightarrow> vmWideIntToBits \<lparr>vw_neg = vw_neg x, vw_mag = m\<rparr>)
    else if vw_mag y \<le> vw_mag x then vmWideIntToBits \<lparr>vw_neg = vw_neg x, vw_mag = vw_mag x - vw_mag y\<rparr>
    else vmWideIntToBits \<lparr>vw_neg = vw_neg y, vw_mag = vw_mag y - vw_mag x\<rparr>)
   = (let z = wi_value x + wi_value y in if - (2 ^ 63) \<le> z \<and> z < 2 ^ 64 then Some (word_of_int z) else None)"
proof -
  note ub = u64_bounds(1,2) [of "vw_mag x"] u64_bounds(1,2) [of "vw_mag y"]
  consider "vw_neg x = vw_neg y" | "vw_neg x \<noteq> vw_neg y" "vw_mag y \<le> vw_mag x" | "vw_neg x \<noteq> vw_neg y" "\<not> vw_mag y \<le> vw_mag x"
    by blast
  then show ?thesis
  proof cases
    case 1
    let ?s = "uint (vw_mag x) + uint (vw_mag y)"
    have z: "wi_value x + wi_value y = (if vw_neg x then - ?s else ?s)" using 1 by (simp add: wi_value_def)
    show ?thesis using 1 wide_packed [of ?s "vw_neg x"] ub unfolding z by simp
  next
    case 2
    have z: "wi_value \<lparr>vw_neg = vw_neg x, vw_mag = vw_mag x - vw_mag y\<rparr> = wi_value x + wi_value y"
      using 2 by (simp add: wi_value_def uint_minus)
    have "wi_value x + wi_value y < 2 ^ 64" using ub 2(1) unfolding wi_value_def by (cases "vw_neg x"; cases "vw_neg y"; simp; linarith)
    then show ?thesis unfolding wide_to_bits z Let_def if_not_P [OF 2(1)] if_P [OF 2(2)] by simp
  next
    case 3
    have z: "wi_value \<lparr>vw_neg = vw_neg y, vw_mag = vw_mag y - vw_mag x\<rparr> = wi_value x + wi_value y"
      using 3 by (simp add: wi_value_def uint_minus)
    have "wi_value x + wi_value y < 2 ^ 64" using ub 3(1) unfolding wi_value_def by (cases "vw_neg x"; cases "vw_neg y"; simp; linarith)
    then show ?thesis unfolding wide_to_bits z Let_def if_not_P [OF 3(1)] if_not_P [OF 3(2)] by simp
  qed
qed

lemma wide_product:
  "(case unsigned_overflow (uint (vw_mag x) * uint (vw_mag y)) of
      (True, _) \<Rightarrow> None
    | (False, m) \<Rightarrow> vmWideIntToBits \<lparr>vw_neg = (vw_neg x \<noteq> vw_neg y), vw_mag = m\<rparr>)
   = (let z = wi_value x * wi_value y in if - (2 ^ 63) \<le> z \<and> z < 2 ^ 64 then Some (word_of_int z) else None)"
proof -
  let ?p = "uint (vw_mag x) * uint (vw_mag y)"
  have p: "0 \<le> ?p" by simp
  have z: "wi_value x * wi_value y = (if vw_neg x \<noteq> vw_neg y then - ?p else ?p)" by (simp add: wi_value_def)
  show ?thesis using wide_packed [OF p, of "vw_neg x \<noteq> vw_neg y"] unfolding z .
qed

lemma wide_arith:
  "vmUInt64Arith op a b = (let z = exact op (int_value a) (int_value b) in
     if - (2 ^ 63) \<le> z \<and> z < 2 ^ 64 then Some (word_of_int z) else None)"
proof -
  have flip: "wi_value (y\<lparr>vw_neg := \<not> vw_neg y \<and> vw_mag y \<noteq> 0\<rparr>) = - wi_value y" for y
    by (auto simp: wi_value_def)
  show ?thesis
  proof (cases op)
    case OpAdd
    then show ?thesis using wide_sum [of "vmWideIntOf a" "vmWideIntOf b"]
      by (simp add: vmUInt64Arith_def exact_def wide_value)
  next
    case OpSubtract
    then show ?thesis using wide_sum [of "vmWideIntOf a" "(vmWideIntOf b)\<lparr>vw_neg := \<not> vw_neg (vmWideIntOf b) \<and> vw_mag (vmWideIntOf b) \<noteq> 0\<rparr>"]
      unfolding flip by (simp add: vmUInt64Arith_def exact_def wide_value Let_def)
  next
    case OpMultiply
    then show ?thesis using wide_product [of "vmWideIntOf a" "vmWideIntOf b"]
      by (simp add: vmUInt64Arith_def exact_def wide_value)
  qed
qed

lemma quot_rem_signs:
  assumes "x = (if p then - m else m)" "y = (if q then - n else n)" "0 \<le> m" "0 < n"
  shows "quot x y = (if p \<noteq> q then - (m div n) else m div n)" "rem x y = (if p then - (m mod n) else m mod n)"
  using assms by (cases "m = 0"; auto simp: quot_def rem_def sgn_if)+

lemma wide_div:
  assumes "int_value b \<noteq> 0"
  shows "vmUInt64DivMod a b False = (let z = quot (int_value a) (int_value b) in
      if - (2 ^ 63) \<le> z then Some (word_of_int z) else None)"
    "vmUInt64DivMod a b True = (let z = rem (int_value a) (int_value b) in
      if - (2 ^ 63) \<le> z then Some (word_of_int z) else None)"
proof -
  let ?x = "vmWideIntOf a" and ?y = "vmWideIntOf b"
  have y: "0 < uint (vw_mag ?y)"
  proof -
    have "uint (vw_mag ?y) \<noteq> 0" using assms unfolding wide_value [symmetric] wi_value_def by (cases "vw_neg ?y") auto
    then show ?thesis using u64_bounds(1) [of "vw_mag ?y"] by linarith
  qed
  note qr = quot_rem_signs [OF wi_value_def wi_value_def u64_bounds(1) y, of ?x, unfolded wide_value]
  have "wi_value \<lparr>vw_neg = (vw_neg ?x \<noteq> vw_neg ?y), vw_mag = vw_mag ?x div vw_mag ?y\<rparr> = quot (int_value a) (int_value b)"
    "wi_value \<lparr>vw_neg = vw_neg ?x, vw_mag = vw_mag ?x mod vw_mag ?y\<rparr> = rem (int_value a) (int_value b)"
    unfolding qr by (simp_all add: wi_value_def uint_div uint_mod)
  then show "vmUInt64DivMod a b False = (let z = quot (int_value a) (int_value b) in
      if - (2 ^ 63) \<le> z then Some (word_of_int z) else None)"
    "vmUInt64DivMod a b True = (let z = rem (int_value a) (int_value b) in
      if - (2 ^ 63) \<le> z then Some (word_of_int z) else None)"
    by (simp_all add: vmUInt64DivMod_def wide_to_bits Let_def)
qed

lemma compare_values: "vmCompareIntlike a b = three_way (int_value a) (int_value b)"
proof (cases "vs_type a \<noteq> TYPE_UINT64 \<and> vs_type b \<noteq> TYPE_UINT64")
  case True
  then show ?thesis by (simp add: vmCompareIntlike_def int_value_def)
next
  case False
  let ?x = "vmWideIntOf a" and ?y = "vmWideIntOf b"
  have neg: "vw_neg ?x \<longleftrightarrow> int_value a < 0" "vw_neg ?y \<longleftrightarrow> int_value b < 0"
    using u64_bounds(1) by (auto simp: vmWideIntOf_def int_value_def Let_def not_less)
  have mag: "uint (vw_mag ?x) = \<bar>int_value a\<bar>" "uint (vw_mag ?y) = \<bar>int_value b\<bar>"
    using u64_bounds(1) unfolding wide_value [symmetric] by (simp_all add: wi_value_def)
  have "three_way (vw_mag ?x) (vw_mag ?y) = three_way \<bar>int_value a\<bar> \<bar>int_value b\<bar>"
    by (simp add: three_way_def word_less_def mag)
  then show ?thesis using False unfolding vmCompareIntlike_def Let_def neg by (auto simp: three_way_def)
qed

lemma compare_zero: "compare_with op (three_way x y) 0 = compare_with op x y"
  by (auto simp: compare_with_def three_way_def split: compare_op.split)

text \<open>The values of results.\<close>

lemma type_results [simp]: "vs_type (makeInt64 x) = TYPE_INT64" "vs_type (makeUInt64 x) = TYPE_UINT64"
  "vs_type (makeInt32 x) = TYPE_INT32" "vs_type (makeBool t) = TYPE_BOOLEAN"
  by (simp_all add: makeInt64_def makeUInt64_def makeInt32_def makeBool_def)

lemma value_results:
  "int_value (makeInt64 x) = sint x" "int_value (makeUInt64 x) = uint x"
  "- (2 ^ 31) \<le> sint x \<Longrightarrow> sint x < 2 ^ 31 \<Longrightarrow> int_value (makeInt32 x) = sint x"
proof -
  show "int_value (makeInt64 x) = sint x" "int_value (makeUInt64 x) = uint x"
    by (simp_all add: int_value_def makeInt64_def makeUInt64_def asI64_def makeScalar_def pscalValueSetIntBits_def
        int_bits_def pscalValueDecodeInt_def pscalValueDecodeUInt_def)
  assume x: "- (2 ^ 31) \<le> sint x" "sint x < 2 ^ 31"
  have "int_value (makeInt32 x) = signed_part 32 (sint x)"
    by (simp add: int_value_def makeInt32_def asI64_def decode_made sint_sign_extended)
  also have "\<dots> = sint x" using x by (simp add: signed_part_def mod_pos_pos_trivial)
  finally show "int_value (makeInt32 x) = sint x" .
qed

lemma value_narrow: "int_value (pscalIntResultNarrow x) = sint x" "vs_type (pscalIntResultNarrow x) \<in> {TYPE_INT32, TYPE_INT64}"
  using value_results(3) [of x] by (auto simp: pscalIntResultNarrow_def value_results)

text \<open>An instruction answers an exact result \<open>z\<close>: in 64 unsigned bits when an operand is unsigned,
  otherwise as a signed number, and with an overflow when 64 bits cannot hold it.\<close>

definition answers :: "arith_error + ValueStruct \<Rightarrow> ValueStruct \<Rightarrow> ValueStruct \<Rightarrow> int \<Rightarrow> bool" where
  "answers res a b z \<longleftrightarrow>
     (if vs_type a = TYPE_UINT64 \<or> vs_type b = TYPE_UINT64 then
        (if z < - (2 ^ 63) \<or> 2 ^ 64 \<le> z then res = Inl IntegerOverflow
         else \<exists>r. res = Inr r \<and> vs_type r = TYPE_UINT64 \<and> int_value r = z mod 2 ^ 64)
      else
        (if z < - (2 ^ 63) \<or> 2 ^ 63 \<le> z then res = Inl IntegerOverflow
         else \<exists>r. res = Inr r \<and> vs_type r \<in> {TYPE_INT32, TYPE_INT64} \<and> int_value r = z))"

lemma sint_asI64_int32: "vs_type a = TYPE_INT32 \<Longrightarrow>
    sint (pscalValueDecodeInt a) = int_value a \<and> - (2 ^ 31) \<le> int_value a \<and> int_value a < 2 ^ 31
    \<and> sint (ucast (pscalValueDecodeInt a) :: u32) = int_value a"
proof -
  assume t: "vs_type a = TYPE_INT32"
  let ?w = "pscalUntagInt32 (vs_bits a)"
  have "signed_take_bit 63 (sint ?w) = sint ?w"
    using sint_ge [of ?w] sint_lt [of ?w] by (intro signed_take_bit_int_eq_self) simp_all
  then have "sint (scast ?w :: u64) = sint ?w" by (simp add: signed_scast_eq)
  then show ?thesis
    using t sint_ge [of ?w] sint_lt [of ?w]
    by (simp add: int_value_def asI64_def pscalValueDecodeInt_def narrow_again)
qed

lemma answers_signed:
  "vs_type a \<noteq> TYPE_UINT64 \<Longrightarrow> vs_type b \<noteq> TYPE_UINT64 \<Longrightarrow> - (2 ^ 63) \<le> z \<Longrightarrow> z < 2 ^ 63 \<Longrightarrow>
   answers (Inr (pscalIntResultLike2 a b (word_of_int z))) a b z"
  using value_narrow [of "word_of_int z"]
  by (auto simp: answers_def pscalIntResultLike2_def value_results sint_of_int64)

lemma answers_int32:
  "vs_type a = TYPE_INT32 \<Longrightarrow> vs_type b = TYPE_INT32 \<Longrightarrow> - (2 ^ 31) \<le> z \<Longrightarrow> z < 2 ^ 31 \<Longrightarrow>
   answers (Inr (makeInt32 (word_of_int z))) a b z"
  by (auto simp: answers_def value_results sint_of_int64)

lemma answers_wide:
  "vs_type a = TYPE_UINT64 \<or> vs_type b = TYPE_UINT64 \<Longrightarrow>
   answers (case if - (2 ^ 63) \<le> z \<and> z < 2 ^ 64 then Some (word_of_int z) else None of
      None \<Rightarrow> Inl IntegerOverflow | Some r \<Rightarrow> Inr (makeUInt64 r)) a b z"
  by (auto simp: answers_def value_results uint_of_int64)

lemma binary_int_exact:
  assumes "isIntlikeType (vs_type a)" "isIntlikeType (vs_type b)" and notext: "op = OpAdd \<Longrightarrow> \<not> adds_text aether a b"
  shows "answers (binary_int aether op a b) a b (exact op (int_value a) (int_value b))"
proof (cases "vs_type a = TYPE_UINT64 \<or> vs_type b = TYPE_UINT64")
  case True
  then show ?thesis using assms(1,2) notext answers_wide [OF True, of "exact op (int_value a) (int_value b)"]
    by (auto simp: binary_int_def wide_arith Let_def)
next
  case signed: False
  let ?z = "exact op (int_value a) (int_value b)"
  have v: "sint (asI64 a) = int_value a" "sint (asI64 b) = int_value b" using signed by (simp_all add: int_value_def)
  have res: "binary_int aether op a b = (case signed_overflow ?z of (True, _) \<Rightarrow> Inl IntegerOverflow | (False, r) \<Rightarrow> Inr (pscalIntResultLike2 a b r))"
  proof (cases "op = OpAdd \<and> vs_type a = TYPE_INT32 \<and> vs_type b = TYPE_INT32")
    case True
    then have "pscalIntResultLike2 a b = pscalIntResultNarrow" by (simp add: pscalIntResultLike2_def fun_eq_iff)
    then show ?thesis using True sint_asI64_int32 [of a] sint_asI64_int32 [of b] by (simp add: binary_int_def exact_def split: prod.split bool.split)
  next
    case False
    then show ?thesis using assms(1,2) notext signed unfolding binary_int_def if_not_P [OF False]
      by (auto simp add: v exact_def Let_def)
  qed
  show ?thesis
  proof (cases "?z < - (2 ^ 63) \<or> 2 ^ 63 \<le> ?z")
    case True
    then show ?thesis using signed unfolding res by (simp add: signed_overflow_def answers_def)
  next
    case False
    then show ?thesis using signed answers_signed [of a b ?z] unfolding res by (auto simp: signed_overflow_def)
  qed
qed

lemma quot_rem_bounds:
  assumes "y \<noteq> 0" shows "\<bar>quot x y\<bar> \<le> \<bar>x\<bar>" "\<bar>rem x y\<bar> \<le> \<bar>x\<bar>"
proof -
  have "\<bar>x\<bar> div \<bar>y\<bar> \<le> \<bar>x\<bar> div 1" using assms by (intro zdiv_mono2) auto
  moreover have "0 \<le> \<bar>x\<bar> div \<bar>y\<bar>" using assms by (simp add: pos_imp_zdiv_nonneg_iff)
  ultimately show "\<bar>quot x y\<bar> \<le> \<bar>x\<bar>" using assms by (auto simp: quot_def abs_mult sgn_if)
  have "0 \<le> \<bar>x\<bar> mod \<bar>y\<bar>" using assms by simp
  moreover have "\<bar>x\<bar> mod \<bar>y\<bar> \<le> \<bar>x\<bar>" by (simp add: zmod_le_nonneg_dividend)
  ultimately show "\<bar>rem x y\<bar> \<le> \<bar>x\<bar>" by (auto simp: rem_def abs_mult sgn_if)
qed

lemma quot_reaches:
  assumes "quot x y = B" "x < B" "- B \<le> x" "0 < B" "y \<noteq> 0"
  shows "x = - B \<and> y = - 1"
proof -
  have x: "x = - B" using quot_rem_bounds(1) [of y x] assms by linarith
  then have q: "- sgn y * (B div \<bar>y\<bar>) = B" using assms by (simp add: quot_def sgn_if)
  have "0 \<le> B div \<bar>y\<bar>" using assms by (simp add: pos_imp_zdiv_nonneg_iff)
  then have y: "y < 0" using q assms(4,5) by (cases "y < 0") (simp_all add: sgn_if)
  have "\<not> 1 < \<bar>y\<bar>" using int_div_less_self [of B "\<bar>y\<bar>"] q y assms(4) by (auto simp: sgn_if)
  then show ?thesis using x y by simp
qed

lemma quot_narrow: "y \<noteq> 0 \<Longrightarrow> - B \<le> x \<Longrightarrow> x < B \<Longrightarrow> 0 < B \<Longrightarrow> \<not> (x = - B \<and> y = - 1) \<Longrightarrow> - B \<le> quot x y \<and> quot x y < B"
  using quot_rem_bounds(1) [of y x] quot_reaches [of x y B] by linarith

lemma rem_between:
  assumes "y \<noteq> 0"
  shows "if x < 0 then x \<le> rem x y \<and> rem x y \<le> 0 else 0 \<le> rem x y \<and> rem x y \<le> x"
proof -
  have r: "0 \<le> \<bar>x\<bar> mod \<bar>y\<bar>" "\<bar>x\<bar> mod \<bar>y\<bar> \<le> \<bar>x\<bar>" using assms by (simp_all add: zmod_le_nonneg_dividend)
  consider "x < 0" | "x = 0" | "0 < x" by linarith
  then show ?thesis
  proof cases
    case 1
    then have "rem x y = - (\<bar>x\<bar> mod \<bar>y\<bar>)" by (simp add: rem_def)
    then show ?thesis using r 1 by simp
  next
    case 3
    then have "rem x y = \<bar>x\<bar> mod \<bar>y\<bar>" by (simp add: rem_def)
    then show ?thesis using r 3 by simp
  qed (simp add: rem_def)
qed

lemma rem_narrow: "y \<noteq> 0 \<Longrightarrow> - B \<le> x \<Longrightarrow> x < B \<Longrightarrow> - B \<le> rem x y \<and> rem x y < B"
  using rem_between [of y x] by (simp split: if_splits)

lemma rem_minus_one: "rem x (- 1) = 0"
  by (simp add: rem_def)

text \<open>The three ways the operands of a division can be read.\<close>

lemma division_cases:
  obtains (int32) "vs_type a = TYPE_INT32" "vs_type b = TYPE_INT32"
  | (wide) "vs_type a = TYPE_UINT64 \<or> vs_type b = TYPE_UINT64" "\<not> (vs_type a = TYPE_INT32 \<and> vs_type b = TYPE_INT32)"
      "sint (asI64 b) = 0 \<longleftrightarrow> int_value b = 0"
  | (signed) "\<not> (vs_type a = TYPE_UINT64 \<or> vs_type b = TYPE_UINT64)" "\<not> (vs_type a = TYPE_INT32 \<and> vs_type b = TYPE_INT32)"
      "sint (asI64 a) = int_value a" "sint (asI64 b) = int_value b"
proof (cases "vs_type a = TYPE_INT32 \<and> vs_type b = TYPE_INT32")
  case True
  then show thesis using int32 by blast
next
  case not32: False
  show thesis
  proof (cases "vs_type a = TYPE_UINT64 \<or> vs_type b = TYPE_UINT64")
    case True
    have "sint (asI64 b) = 0 \<longleftrightarrow> int_value b = 0"
      by (simp add: int_value_def asI64_def signed_eq_0_iff unsigned_eq_0_iff)
    then show thesis using wide [OF True not32] by blast
  next
    case False
    then show thesis using signed [OF False not32] by (simp add: int_value_def)
  qed
qed

lemma int_value_bounds: "- (2 ^ 63) \<le> int_value v" "int_value v < 2 ^ 64"
proof -
  have "- (2 ^ 63) \<le> uint (pscalValueDecodeUInt v)" by (rule order_trans [of _ 0]) simp_all
  then show "- (2 ^ 63) \<le> int_value v" using u64_bounds(3) [of "asI64 v"] by (auto simp: int_value_def)
  show "int_value v < 2 ^ 64"
    using u64_bounds(4) [of "asI64 v"] u64_bounds(2) [of "pscalValueDecodeUInt v"] by (simp add: int_value_def)
qed

lemma wide_division_bound:
  assumes "int_value b \<noteq> 0"
  shows "quot (int_value a) (int_value b) < 2 ^ 64" "- (2 ^ 63) \<le> rem (int_value a) (int_value b)"
    "rem (int_value a) (int_value b) < 2 ^ 64"
  using quot_rem_bounds(1) [OF assms, of "int_value a"] rem_between [OF assms, of "int_value a"] int_value_bounds [of a]
  by (auto split: if_splits)

lemma INT_DIV_exact:
  assumes "isIntlikeType (vs_type a)" "isIntlikeType (vs_type b)"
  shows "if int_value b = 0 then instr_INT_DIV a b = Inl DivisionByZero
    else answers (instr_INT_DIV a b) a b (quot (int_value a) (int_value b))"
proof (cases a b rule: division_cases)
  case int32
  note v = sint_asI64_int32 [OF int32(1)] sint_asI64_int32 [OF int32(2)]
  let ?q = "quot (int_value a) (int_value b)"
  show ?thesis
  proof (cases "int_value b = 0 \<or> int_value a = - (2 ^ 31) \<and> int_value b = - 1")
    case True
    have "quot (- (2 ^ 31)) (- 1) = 2 ^ 31" by (simp add: quot_def)
    moreover have "sint (2147483648 :: u64) = 2147483648" by simp
    ultimately show ?thesis using True v int32
      by (auto simp: instr_INT_DIV_def answers_def value_results)
  next
    case False
    then have "answers (Inr (makeInt32 (word_of_int ?q))) a b ?q"
      using v quot_narrow [of "int_value b" "2 ^ 31" "int_value a"] by (intro answers_int32 int32) auto
    then show ?thesis using False v int32 by (auto simp: instr_INT_DIV_def Let_def)
  qed
next
  case wide
  let ?q = "quot (int_value a) (int_value b)"
  show ?thesis
  proof (cases "int_value b = 0")
    case True
    then show ?thesis using wide assms by (auto simp: instr_INT_DIV_def)
  next
    case False
    then have "answers (case if - (2 ^ 63) \<le> ?q then Some (word_of_int ?q) else None of
        None \<Rightarrow> Inl IntegerOverflow | Some r \<Rightarrow> Inr (makeUInt64 r)) a b ?q"
      using answers_wide [OF wide(1), of ?q] wide_division_bound(1) [OF False, of a] by simp
    then show ?thesis using False wide assms
      unfolding instr_INT_DIV_def if_not_P [OF wide(2)] by (simp add: wide_div(1) [OF False] Let_def)
  qed
next
  case signed
  let ?q = "quot (int_value a) (int_value b)"
  have b: "- (2 ^ 63) \<le> int_value a" "int_value a < 2 ^ 63" unfolding signed(3) [symmetric] by (rule u64_bounds)+
  show ?thesis
  proof (cases "int_value b = 0 \<or> int_value a = - (2 ^ 63) \<and> int_value b = - 1")
    case True
    have "quot (- (2 ^ 63)) (- 1) = 2 ^ 63" by (simp add: quot_def)
    then show ?thesis using True signed assms by (auto simp: instr_INT_DIV_def answers_def)
  next
    case False
    then have "answers (Inr (pscalIntResultLike2 a b (word_of_int ?q))) a b ?q"
      using signed b quot_narrow [of "int_value b" "2 ^ 63" "int_value a"] by (intro answers_signed) auto
    then show ?thesis using False signed assms
      unfolding instr_INT_DIV_def if_not_P [OF signed(2)] by (auto simp: Let_def)
  qed
qed

lemma MOD_exact:
  assumes "isIntlikeType (vs_type a)" "isIntlikeType (vs_type b)"
  shows "if int_value b = 0 then instr_MOD a b = Inl DivisionByZero
    else answers (instr_MOD a b) a b (rem (int_value a) (int_value b))"
proof (cases "int_value b = 0")
  case True
  show ?thesis
  proof (cases a b rule: division_cases)
    case int32
    then show ?thesis using True sint_asI64_int32 [OF int32(2)] by (simp add: instr_MOD_def)
  qed (use True assms in \<open>auto simp: instr_MOD_def\<close>)
next
  case b: False
  let ?r = "rem (int_value a) (int_value b)"
  show ?thesis
  proof (cases a b rule: division_cases)
    case int32
    note v = sint_asI64_int32 [OF int32(1)] sint_asI64_int32 [OF int32(2)]
    have "answers (Inr (makeInt32 (word_of_int ?r))) a b ?r"
      using v rem_narrow [OF b, of "2 ^ 31" "int_value a"] by (intro answers_int32 int32) auto
    then show ?thesis using b v int32 by (auto simp: instr_MOD_def Let_def rem_minus_one)
  next
    case wide
    have "answers (Inr (makeUInt64 (word_of_int ?r))) a b ?r"
      using answers_wide [OF wide(1), of ?r] wide_division_bound(2,3) [OF b, of a] by simp
    then show ?thesis using b wide assms wide_division_bound(2) [OF b, of a]
      unfolding instr_MOD_def if_not_P [OF wide(2)] by (simp add: wide_div(2) [OF b] Let_def)
  next
    case signed
    have ab: "- (2 ^ 63) \<le> int_value a" "int_value a < 2 ^ 63" unfolding signed(3) [symmetric] by (rule u64_bounds)+
    have "answers (Inr (pscalIntResultLike2 a b (word_of_int ?r))) a b ?r"
      using signed rem_narrow [OF b ab] by (intro answers_signed) auto
    moreover have "(if int_value b = - 1 then 0 else word_of_int ?r) = (word_of_int ?r :: u64)" by (simp add: rem_minus_one)
    ultimately show ?thesis using b signed assms
      unfolding instr_MOD_def if_not_P [OF signed(2)] by (simp add: Let_def)
  qed
qed

lemma compare_exact:
  "isIntlikeType (vs_type a) \<Longrightarrow> isIntlikeType (vs_type b) \<Longrightarrow>
   compare_int op a b = Inr (makeBool (compare_with op (int_value a) (int_value b)))"
  using sint_asI64_int32 [of a] sint_asI64_int32 [of b] by (simp add: compare_int_def compare_values compare_zero)

text \<open>C39: The integer instructions compute exactly on the values of their operands. For any two operands of integer
  kind, narrow or wide, signed or unsigned (the characters that \<open>ADD\<close> joins to a text apart), \<open>ADD\<close>, \<open>SUBTRACT\<close>,
  \<open>MULTIPLY\<close>, \<open>INT_DIV\<close> and \<open>MOD\<close> (which truncate) work on the exact result \<open>z\<close> over the integers. Between signed operands they
  answer \<open>z\<close> as a signed number, and an overflow exactly when 64 signed bits cannot hold it. When an operand is an
  unsigned 64-bit number they answer the unsigned number \<open>z mod 2^64\<close>, so \<open>0 - 1\<close> is \<open>2^64 - 1\<close> without an error, and an
  overflow exactly when \<open>z\<close> is below \<open>-2^63\<close> or not below \<open>2^64\<close>. \<open>INT_DIV\<close> and \<open>MOD\<close> report a zero divisor. And the six
  comparisons order the operands by their values, never by their bits.\<close>
theorem integer_instructions_exact:
  assumes "isIntlikeType (vs_type a)" and "isIntlikeType (vs_type b)" and "op = OpAdd \<Longrightarrow> \<not> adds_text aether a b"
  shows "answers (binary_int aether op a b) a b (exact op (int_value a) (int_value b))
    \<and> (if int_value b = 0 then instr_INT_DIV a b = Inl DivisionByZero
       else answers (instr_INT_DIV a b) a b (quot (int_value a) (int_value b)))
    \<and> (if int_value b = 0 then instr_MOD a b = Inl DivisionByZero
       else answers (instr_MOD a b) a b (rem (int_value a) (int_value b)))
    \<and> compare_int cmp a b = Inr (makeBool (compare_with cmp (int_value a) (int_value b)))"
  by (intro conjI binary_int_exact INT_DIV_exact MOD_exact compare_exact assms)

lemma integer_instructions_exact_witness:
  "answers (binary_int False OpSubtract (makeUInt64 3) (makeInt64 (- 1))) (makeUInt64 3) (makeInt64 (- 1)) 4
   \<and> compare_int CmpLess (makeInt64 (- 1)) (makeUInt64 3) = Inr (makeBool True)"
proof -
  have t: "isIntlikeType TYPE_INT64" "isIntlikeType TYPE_UINT64"
    by (simp_all add: isIntlikeType_def isIntegerFamilyType_def)
  then show ?thesis
    using integer_instructions_exact [of "makeUInt64 3" "makeInt64 (- 1)" OpSubtract False CmpLess]
      integer_instructions_exact [of "makeInt64 (- 1)" "makeUInt64 3" OpSubtract False CmpLess]
    by (simp add: value_results exact_def compare_with_def)
qed

end
