(* ===== verification/VmArray.thy ===== *)
theory VmArray
  imports VmArith
begin

section \<open>Arrays: sizes, bounds and positions\<close>

text \<open>
  How an array gets its size and how a list of indices becomes a position in its storage:
  \<open>vmCheckArrayDimension\<close>, \<open>vmIndexValueToInt\<close> and \<open>vmCheckArrayIndexBounds\<close> of \<open>vm/vm.c\<close>,
  \<open>tryValueToOrdinal\<close> of \<open>core/utils.h\<close>, and \<open>makeArrayND\<close> (its size check), \<open>calculateArrayTotalSize\<close>
  and \<open>computeFlatOffset\<close> of \<open>core/utils.c\<close>. Bounds are given per dimension. An \<open>int\<close> expression that
  leaves its type has no meaning in C; it is a fault of the model.
\<close>

subsection \<open>Ordinals and indices\<close>

definition tryValueToOrdinal :: "'f PValue \<Rightarrow> u64 option" where
  "tryValueToOrdinal v =
     (case v of
        PScalar s \<Rightarrow>
          if vs_type s \<in> {TYPE_UINT64, TYPE_UINT32, TYPE_UINT16, TYPE_UINT8, TYPE_WORD, TYPE_BYTE}
          then Some (pscalValueDecodeUInt s)
          else if vs_type s \<in> {TYPE_INT64, TYPE_INT32, TYPE_INT16, TYPE_INT8, TYPE_BOOLEAN}
          then Some (pscalValueDecodeInt s)
          else if vs_type s = TYPE_CHAR then Some (ucast (ucast (pscalValueDecodeInt s) :: u8))
          else if vs_type s = TYPE_WIDECHAR then Some (scast (ucast (pscalValueDecodeInt s) :: u32))
          else None
      | PEnum name ordinal \<Rightarrow> Some (word_of_int ordinal)
      | _ \<Rightarrow> None)"

datatype array_error =
    SignedOverflow
  | BadIndexValue
  | IndexOutOfRange
  | IndexOutOfBounds nat int
  | BoundsOutOfRange
  | DimensionEmpty
  | DimensionTooLarge
  | ArrayTooLarge

text \<open>A real index is truncated by the hardware; that conversion is a parameter, \<open>None\<close> when the real
  lies outside the range of \<open>int\<close>.\<close>

definition vmIndexValueToInt :: "('f PValue \<Rightarrow> int option) \<Rightarrow> 'f PValue \<Rightarrow> array_error + int" where
  "vmIndexValueToInt real_index v =
     (case tryValueToOrdinal v of
        Some ordinal \<Rightarrow>
          if sint ordinal < - (2 ^ 31) \<or> 2 ^ 31 - 1 < sint ordinal then Inl IndexOutOfRange else Inr (sint ordinal)
      | None \<Rightarrow>
          if isRealType (p_type v) then (case real_index v of None \<Rightarrow> Inl IndexOutOfRange | Some i \<Rightarrow> Inr i)
          else Inl BadIndexValue)"

definition vmCheckArrayDimension :: "int \<Rightarrow> int \<Rightarrow> array_error + (int \<times> int)" where
  "vmCheckArrayDimension lower upper =
     (if lower < - (2 ^ 31) \<or> 2 ^ 31 - 1 < lower \<or> upper < - (2 ^ 31) \<or> 2 ^ 31 - 1 < upper then Inl BoundsOutOfRange
      else if upper < lower then Inl DimensionEmpty
      else if 2 ^ 31 - 1 \<le> upper - lower then Inl DimensionTooLarge
      else Inr (lower, upper))"

subsection \<open>Sizes\<close>

definition element_bytes :: "bool \<Rightarrow> int" where
  "element_bytes packed = (if packed then 1 else 16)"

definition MAX_ARRAY_BYTES :: int where
  "MAX_ARRAY_BYTES = 256 * 1024 * 1024"

fun array_size :: "bool \<Rightarrow> (int \<times> int) list \<Rightarrow> int \<Rightarrow> array_error + int" where
  "array_size packed [] total_size = Inr total_size"
| "array_size packed ((lower, upper) # bounds) total_size =
     (let size_i = upper - lower + 1 in
      if size_i \<le> 0 then Inl DimensionEmpty
      else case unsigned_overflow (total_size * size_i) of
             (True, _) \<Rightarrow> Inl ArrayTooLarge
           | (False, t) \<Rightarrow>
               if MAX_ARRAY_BYTES div element_bytes packed < uint t then Inl ArrayTooLarge
               else array_size packed bounds (uint t))"

definition makeArrayND :: "bool \<Rightarrow> (int \<times> int) list \<Rightarrow> array_error + int" where
  "makeArrayND packed bounds = (if bounds = [] then Inr 0 else array_size packed bounds 1)"

definition c_int :: "int \<Rightarrow> array_error + int" where
  "c_int z = (if - (2 ^ 31) \<le> z \<and> z < 2 ^ 31 then Inr z else Inl SignedOverflow)"

definition span_int :: "int \<Rightarrow> int \<Rightarrow> array_error + int" where
  "span_int lower upper = ebind (c_int (upper - lower)) (\<lambda>d. c_int (d + 1))"

fun total_from :: "int \<Rightarrow> (int \<times> int) list \<Rightarrow> array_error + int" where
  "total_from total_size [] = Inr total_size"
| "total_from total_size ((lower, upper) # bounds) =
     ebind (span_int lower upper) (\<lambda>s. ebind (c_int (total_size * s)) (\<lambda>t. total_from t bounds))"

definition calculateArrayTotalSize :: "(int \<times> int) list \<Rightarrow> array_error + int" where
  "calculateArrayTotalSize bounds = (if bounds = [] then Inr 0 else total_from 1 bounds)"

subsection \<open>Positions\<close>

text \<open>The loops run from the last dimension to the first; \<open>d\<close> is the number of the dimension, from one.\<close>

fun check_dimensions :: "((int \<times> int) \<times> int) list \<Rightarrow> array_error + unit" where
  "check_dimensions [] = Inr ()"
| "check_dimensions (((lo, hi), idx) # rest) =
     (if lo \<le> idx \<and> idx \<le> hi then check_dimensions rest else Inl (IndexOutOfBounds (length rest + 1) idx))"

definition vmCheckArrayIndexBounds :: "(int \<times> int) list \<Rightarrow> int list \<Rightarrow> array_error + unit" where
  "vmCheckArrayIndexBounds bounds indices = check_dimensions (rev (zip bounds indices))"

fun flat_offset :: "int \<Rightarrow> int \<Rightarrow> ((int \<times> int) \<times> int) list \<Rightarrow> array_error + int" where
  "flat_offset offset multiplier [] = Inr offset"
| "flat_offset offset multiplier (((lo, hi), idx) # rest) =
     (if idx < lo \<or> hi < idx then Inl (IndexOutOfBounds (length rest + 1) idx)
      else
        ebind (c_int (idx - lo)) (\<lambda>d.
        ebind (c_int (d * multiplier)) (\<lambda>p.
        ebind (c_int (offset + p)) (\<lambda>offset.
        ebind (span_int lo hi) (\<lambda>s.
        ebind (c_int (multiplier * s)) (\<lambda>multiplier. flat_offset offset multiplier rest))))))"

definition computeFlatOffset :: "(int \<times> int) list \<Rightarrow> int list \<Rightarrow> array_error + int" where
  "computeFlatOffset bounds indices = flat_offset 0 1 (rev (zip bounds indices))"

text \<open>An element access of the interpreter: the bounds check, the position, the check against the size.\<close>

definition element_position :: "(int \<times> int) list \<Rightarrow> int list \<Rightarrow> array_error + int" where
  "element_position bounds indices =
     ebind (vmCheckArrayIndexBounds bounds indices) (\<lambda>_.
     ebind (computeFlatOffset bounds indices) (\<lambda>offset.
     ebind (calculateArrayTotalSize bounds) (\<lambda>total_size.
       if offset < 0 \<or> total_size \<le> offset then Inl IndexOutOfRange else Inr offset)))"

subsection \<open>Row-major order\<close>

text \<open>The reference: the number of elements, the index lists of an array and their position in row-major
  order.\<close>

fun elements_of :: "(int \<times> int) list \<Rightarrow> int" where
  "elements_of [] = 1"
| "elements_of ((lo, hi) # bounds) = (hi - lo + 1) * elements_of bounds"

fun row_major :: "(int \<times> int) list \<Rightarrow> int list \<Rightarrow> int" where
  "row_major ((lo, hi) # bounds) (i # indices) = (i - lo) * elements_of bounds + row_major bounds indices"
| "row_major _ _ = 0"

definition in_bounds :: "(int \<times> int) list \<Rightarrow> int list \<Rightarrow> bool" where
  "in_bounds bounds indices \<longleftrightarrow> list_all2 (\<lambda>(lo, hi) i. lo \<le> i \<and> i \<le> hi) bounds indices"

definition dims_ok :: "(int \<times> int) list \<Rightarrow> bool" where
  "dims_ok bounds \<longleftrightarrow> list_all (\<lambda>(lo, hi). lo \<le> hi \<and> - (2 ^ 31) \<le> lo \<and> hi < 2 ^ 31) bounds"

lemma elements_pos: "list_all (\<lambda>(lo, hi). lo \<le> hi) bounds \<Longrightarrow> 1 \<le> elements_of bounds"
proof (induction bounds)
  case (Cons b bounds)
  obtain lo hi where b: "b = (lo, hi)" by (cases b)
  have "1 * 1 \<le> (hi - lo + 1) * elements_of bounds"
    by (rule mult_mono) (use Cons b in auto)
  then show ?case by (simp add: b)
qed simp

lemma in_bounds_Cons [simp]:
  "in_bounds ((lo, hi) # bounds) (i # indices) \<longleftrightarrow> lo \<le> i \<and> i \<le> hi \<and> in_bounds bounds indices"
  "in_bounds [] indices \<longleftrightarrow> indices = []" "\<not> in_bounds (b # bounds) []"
  by (simp_all add: in_bounds_def)

lemma in_bounds_induct [consumes 1, case_names Nil Cons]:
  assumes "in_bounds bounds indices" and "P [] []"
    and "\<And>lo hi bounds i indices. lo \<le> i \<Longrightarrow> i \<le> hi \<Longrightarrow> in_bounds bounds indices \<Longrightarrow> P bounds indices \<Longrightarrow>
      P ((lo, hi) # bounds) (i # indices)"
  shows "P bounds indices"
  using assms(1) unfolding in_bounds_def
  by (induction rule: list_all2_induct) (use assms(2,3) in \<open>auto simp: in_bounds_def\<close>)

lemma row_major_range:
  "in_bounds bounds indices \<Longrightarrow> 0 \<le> row_major bounds indices \<and> row_major bounds indices < elements_of bounds"
proof (induction rule: in_bounds_induct)
  case (Cons lo hi bounds i indices)
  let ?n = "elements_of bounds"
  have b: "0 \<le> row_major bounds indices" "row_major bounds indices < ?n" using Cons by simp_all
  have "(i - lo) * ?n \<le> (hi - lo) * ?n" using Cons(2) b by (intro mult_right_mono) auto
  moreover have "0 \<le> (i - lo) * ?n" using Cons(1) b by simp
  moreover have "(hi - lo + 1) * ?n = (hi - lo) * ?n + ?n" by (simp add: algebra_simps)
  ultimately show ?case using b by (simp only: row_major.simps elements_of.simps) linarith
qed simp

text \<open>The index list at a position.\<close>

fun indices_at :: "(int \<times> int) list \<Rightarrow> int \<Rightarrow> int list" where
  "indices_at [] k = []"
| "indices_at ((lo, hi) # bounds) k = (lo + k div elements_of bounds) # indices_at bounds (k mod elements_of bounds)"

lemma indices_at_row_major: "in_bounds bounds indices \<Longrightarrow> indices_at bounds (row_major bounds indices) = indices"
proof (induction rule: in_bounds_induct)
  case (Cons lo hi bounds i indices)
  have "0 \<le> row_major bounds indices" "row_major bounds indices < elements_of bounds"
    using Cons row_major_range by simp_all
  then show ?case using Cons by (simp add: div_pos_pos_trivial mod_pos_pos_trivial)
qed simp

lemma div_less_product: "k < m * n \<Longrightarrow> 0 < n \<Longrightarrow> k div n < (m :: int)"
proof (rule ccontr)
  assume a: "k < m * n" "0 < n" "\<not> k div n < m"
  then have "m * n \<le> k div n * n" by (intro mult_right_mono) simp_all
  also have "\<dots> \<le> k" using a(2) div_mult_mod_eq [of k n] pos_mod_sign [OF a(2), of k] by linarith
  finally show False using a(1) by simp
qed

lemma row_major_indices_at:
  "list_all (\<lambda>(lo, hi). lo \<le> hi) bounds \<Longrightarrow> 0 \<le> k \<Longrightarrow> k < elements_of bounds \<Longrightarrow>
   in_bounds bounds (indices_at bounds k) \<and> row_major bounds (indices_at bounds k) = k"
proof (induction bounds arbitrary: k)
  case (Cons b bounds)
  obtain lo hi where b: "b = (lo, hi)" by (cases b)
  let ?n = "elements_of bounds"
  have n: "1 \<le> ?n" using Cons.prems(1) by (intro elements_pos) simp
  have "k div ?n < hi - lo + 1"
    using Cons.prems(3) n by (intro div_less_product) (simp_all add: b)
  moreover have "0 \<le> k div ?n" using Cons.prems(2) n by (simp add: pos_imp_zdiv_nonneg_iff)
  moreover have "in_bounds bounds (indices_at bounds (k mod ?n)) \<and> row_major bounds (indices_at bounds (k mod ?n)) = k mod ?n"
    using Cons.prems(1) n by (intro Cons.IH) simp_all
  ultimately show ?case by (simp add: b)
qed simp

lemma row_major_bij:
  assumes "list_all (\<lambda>(lo, hi). lo \<le> hi) bounds"
  shows "bij_betw (row_major bounds) {is. in_bounds bounds is} {0..<elements_of bounds}"
  by (rule bij_betw_byWitness [where f' = "indices_at bounds"])
    (use assms indices_at_row_major row_major_indices_at row_major_range in auto)

subsection \<open>The code computes row-major order\<close>

text \<open>What \<open>makeArrayND\<close> accepts: no empty dimension and few enough elements, so no \<open>int\<close> overflows later.\<close>

lemma unsigned_overflow_no:
  "1 \<le> z \<Longrightarrow> z < 2 ^ 64 \<Longrightarrow> unsigned_overflow z = (False, word_of_int z) \<and> uint (word_of_int z :: u64) = z"
  by (simp add: unsigned_overflow_def uint_id64)

lemma unsigned_overflow_yes: "2 ^ 64 \<le> z \<Longrightarrow> fst (unsigned_overflow z)"
  by (simp add: unsigned_overflow_def)

lemma array_size_step:
  assumes "array_size packed ((lo, hi) # bounds) t = Inr n" and t: "1 \<le> t"
  shows "lo \<le> hi \<and> 1 \<le> t * (hi - lo + 1) \<and> t * (hi - lo + 1) \<le> 2 ^ 28
    \<and> array_size packed bounds (t * (hi - lo + 1)) = Inr n"
proof -
  define z where "z = t * (hi - lo + 1)"
  have s: "0 < hi - lo + 1" using assms(1) by (auto simp: Let_def split: if_splits)
  have "1 * 1 \<le> t * (hi - lo + 1)" by (rule mult_mono) (use t s in auto)
  then have z1: "1 \<le> z" by (simp add: z_def)
  have eq: "(case unsigned_overflow z of
               (True, _) \<Rightarrow> Inl ArrayTooLarge
             | (False, t) \<Rightarrow>
                 if MAX_ARRAY_BYTES div element_bytes packed < uint t then Inl ArrayTooLarge
                 else array_size packed bounds (uint t)) = Inr n"
    using assms(1) s by (simp only: array_size.simps Let_def z_def split: if_splits)
  have z64: "z < 2 ^ 64"
  proof (rule ccontr)
    assume "\<not> z < 2 ^ 64"
    then have "fst (unsigned_overflow z)" by (intro unsigned_overflow_yes) simp
    then show False using eq by (cases "unsigned_overflow z") simp
  qed
  then have u: "unsigned_overflow z = (False, word_of_int z)" "uint (word_of_int z :: u64) = z"
    using unsigned_overflow_no [OF z1] by simp_all
  have "\<not> MAX_ARRAY_BYTES div element_bytes packed < z" and n: "array_size packed bounds z = Inr n"
    using eq u by (simp_all split: if_splits)
  moreover from this(1) have "z \<le> 2 ^ 28"
    by (cases packed) (simp_all add: MAX_ARRAY_BYTES_def element_bytes_def)
  ultimately show ?thesis using s z1 by (simp add: z_def)
qed

lemma array_size_accepts:
  "array_size packed bounds t = Inr n \<Longrightarrow> 1 \<le> t \<Longrightarrow> t \<le> 2 ^ 28 \<Longrightarrow>
   n = t * elements_of bounds \<and> n \<le> 2 ^ 28 \<and> list_all (\<lambda>(lo, hi). lo \<le> hi) bounds"
proof (induction bounds arbitrary: t)
  case (Cons b bounds)
  obtain lo hi where b: "b = (lo, hi)" by (cases b)
  note st = array_size_step [OF Cons.prems(1) [unfolded b] Cons.prems(2)]
  then show ?case using Cons.IH [of "t * (hi - lo + 1)"] by (simp add: b)
qed simp

lemma makeArrayND_accepts:
  assumes "makeArrayND packed bounds = Inr n" "bounds \<noteq> []"
  shows "n = elements_of bounds \<and> n \<le> 2 ^ 28 \<and> list_all (\<lambda>(lo, hi). lo \<le> hi) bounds"
  using assms array_size_accepts [of packed bounds 1 n] by (simp add: makeArrayND_def)

lemma c_int_ok: "- (2 ^ 31) \<le> z \<Longrightarrow> z < 2 ^ 31 \<Longrightarrow> c_int z = Inr z"
  by (simp add: c_int_def)

lemma span_le: "elements_of ((lo, hi) # bounds) \<le> 2 ^ 28 \<Longrightarrow> list_all (\<lambda>(lo, hi). lo \<le> hi) ((lo, hi) # bounds) \<Longrightarrow>
   hi - lo + 1 \<le> 2 ^ 28 \<and> elements_of bounds \<le> 2 ^ 28"
proof -
  assume a: "elements_of ((lo, hi) # bounds) \<le> 2 ^ 28" "list_all (\<lambda>(lo, hi). lo \<le> hi) ((lo, hi) # bounds)"
  then have n: "1 \<le> elements_of bounds" and s: "1 \<le> hi - lo + 1" using elements_pos [of bounds] by simp_all
  have "(hi - lo + 1) * 1 \<le> (hi - lo + 1) * elements_of bounds" "1 * elements_of bounds \<le> (hi - lo + 1) * elements_of bounds"
    using n s by (intro mult_mono; simp)+
  then show ?thesis using a(1) by simp
qed

lemma span_int_ok: "lo \<le> hi \<Longrightarrow> hi - lo + 1 \<le> 2 ^ 28 \<Longrightarrow> span_int lo hi = Inr (hi - lo + 1)"
  by (simp add: span_int_def c_int_ok)

lemma flat_offset_step:
  assumes "lo \<le> i" "i \<le> hi" "0 \<le> r" "r < n" "(hi - lo + 1) * n \<le> 2 ^ 28"
  shows "flat_offset r n (((lo, hi), i) # rest) = flat_offset ((i - lo) * n + r) ((hi - lo + 1) * n) rest"
proof -
  have n: "1 \<le> n" using assms by simp
  have le: "(i - lo + 1) * n \<le> (hi - lo + 1) * n" by (rule mult_right_mono) (use assms n in simp_all)
  have s1: "(hi - lo + 1) * 1 \<le> (hi - lo + 1) * n" by (rule mult_left_mono) (use assms n in simp_all)
  have s: "hi - lo + 1 \<le> 2 ^ 28" using order_trans [OF s1 assms(5)] by simp
  have m: "0 \<le> (hi - lo + 1) * n" using order_trans [OF _ s1, of 0] assms by simp
  define p where "p = (i - lo) * n"
  have "(i - lo + 1) * n = p + n" by (simp add: p_def algebra_simps)
  then have p: "p + n \<le> 2 ^ 28" "0 \<le> p" using order_trans [OF le assms(5)] assms n by (simp_all add: p_def)
  have a: "c_int (i - lo) = Inr (i - lo)" by (rule c_int_ok) (use assms s in simp_all)
  have b: "c_int ((i - lo) * n) = Inr p" unfolding p_def [symmetric] by (rule c_int_ok) (use p n in simp_all)
  have c: "c_int (r + p) = Inr ((i - lo) * n + r)"
    unfolding p_def [symmetric] add.commute [of r] by (rule c_int_ok) (use p assms n in simp_all)
  have d: "c_int (n * (hi - lo + 1)) = Inr ((hi - lo + 1) * n)"
    using m assms(5) by (subst mult.commute) (rule c_int_ok, simp_all)
  have e: "span_int lo hi = Inr (hi - lo + 1)" by (rule span_int_ok) (use assms s in simp_all)
  have "\<not> (i < lo \<or> hi < i)" using assms by simp
  then show ?thesis by (simp only: flat_offset.simps a b c d e ebind.simps if_False)
qed

lemma flat_offset_suffix:
  assumes "in_bounds bounds indices" "list_all (\<lambda>(lo, hi). lo \<le> hi) bounds" "elements_of bounds \<le> 2 ^ 28"
  shows "flat_offset 0 1 (rev (zip bounds indices) @ rest) = flat_offset (row_major bounds indices) (elements_of bounds) rest"
  using assms
proof (induction arbitrary: rest rule: in_bounds_induct)
  case (Cons lo hi bounds i indices)
  let ?n = "elements_of bounds" and ?r = "row_major bounds indices"
  have le: "?n \<le> 2 ^ 28" using span_le [OF Cons.prems(2,1)] by simp
  have r: "0 \<le> ?r" "?r < ?n" using row_major_range [OF Cons.hyps(3)] by simp_all
  have "flat_offset 0 1 (rev (zip bounds indices) @ ((lo, hi), i) # rest) = flat_offset ?r ?n (((lo, hi), i) # rest)"
    using Cons.prems le by (intro Cons.IH) simp_all
  also have "\<dots> = flat_offset ((i - lo) * ?n + ?r) ((hi - lo + 1) * ?n) rest"
    using Cons.hyps(1,2) r Cons.prems(2) by (intro flat_offset_step) simp_all
  finally show ?case by simp
qed simp

lemma total_from_exact:
  "list_all (\<lambda>(lo, hi). lo \<le> hi) bounds \<Longrightarrow> 1 \<le> t \<Longrightarrow> t * elements_of bounds \<le> 2 ^ 28 \<Longrightarrow>
   total_from t bounds = Inr (t * elements_of bounds)"
proof (induction bounds arbitrary: t)
  case (Cons b bounds)
  obtain lo hi where b: "b = (lo, hi)" by (cases b)
  let ?s = "hi - lo + 1" and ?n = "elements_of bounds"
  have n: "1 \<le> ?n" and s: "1 \<le> ?s" using Cons.prems(1) elements_pos [of bounds] by (simp_all add: b)
  have t: "1 * 1 \<le> t * ?s" by (rule mult_mono) (use Cons.prems(2) s in auto)
  have "1 * ?s \<le> t * ?s" "t * ?s * 1 \<le> t * ?s * ?n"
    by (rule mult_mono; use Cons.prems(2) s n t in simp)+
  moreover have all: "t * ?s * ?n \<le> 2 ^ 28" using Cons.prems(3) by (simp add: b mult.assoc)
  ultimately have s28: "?s \<le> 2 ^ 28" and ts: "t * ?s \<le> 2 ^ 28" by simp_all
  have "span_int lo hi = Inr ?s" by (rule span_int_ok) (use s s28 in simp_all)
  moreover have "c_int (t * ?s) = Inr (t * ?s)" by (rule c_int_ok) (use t ts in simp_all)
  moreover have "total_from (t * ?s) bounds = Inr (t * ?s * ?n)"
    using Cons.prems(1) t all by (intro Cons.IH) (simp_all add: b)
  ultimately show ?case by (simp only: b total_from.simps ebind.simps elements_of.simps mult.assoc)
qed simp

lemma check_dimensions_ok: "list_all (\<lambda>((lo, hi), i). lo \<le> i \<and> i \<le> hi) zs \<Longrightarrow> check_dimensions zs = Inr ()"
  by (induction zs rule: check_dimensions.induct) auto

lemma check_dimensions_fails:
  "\<not> list_all (\<lambda>((lo, hi), i). lo \<le> i \<and> i \<le> hi) zs \<Longrightarrow>
   \<exists>d < length zs. (case zs ! d of ((lo, hi), i) \<Rightarrow> i < lo \<or> hi < i)
     \<and> check_dimensions (rev zs) = Inl (IndexOutOfBounds (d + 1) (snd (zs ! d)))"
proof (induction zs rule: rev_induct)
  case (snoc z zs)
  obtain lo hi i where z: "z = ((lo, hi), i)" by (cases z) auto
  show ?case
  proof (cases "lo \<le> i \<and> i \<le> hi")
    case True
    then have "\<not> list_all (\<lambda>((lo, hi), i). lo \<le> i \<and> i \<le> hi) zs" using snoc.prems by (simp add: z)
    from snoc.IH [OF this] obtain d where d: "d < length zs" "case zs ! d of ((lo, hi), i) \<Rightarrow> i < lo \<or> hi < i"
      "check_dimensions (rev zs) = Inl (IndexOutOfBounds (d + 1) (snd (zs ! d)))" by (elim exE conjE)
    have "(zs @ [z]) ! d = zs ! d" using d(1) by (simp add: nth_append)
    moreover have "check_dimensions (rev (zs @ [z])) = check_dimensions (rev zs)" using True by (simp add: z)
    ultimately show ?thesis using d by (intro exI [of _ d]) simp
  next
    case False
    then show ?thesis by (intro exI [of _ "length zs"]) (auto simp: z)
  qed
qed simp

lemma in_bounds_zip:
  "length indices = length bounds \<Longrightarrow>
   in_bounds bounds indices \<longleftrightarrow> list_all (\<lambda>((lo, hi), i). lo \<le> i \<and> i \<le> hi) (zip bounds indices)"
  unfolding in_bounds_def list_all2_iff list_all_iff by (auto simp: case_prod_beta)

lemma element_position_inside:
  assumes "list_all (\<lambda>(lo, hi). lo \<le> hi) bounds" "elements_of bounds \<le> 2 ^ 28" "in_bounds bounds indices" "bounds \<noteq> []"
  shows "element_position bounds indices = Inr (row_major bounds indices)"
proof -
  have len: "length indices = length bounds" using assms(3) by (simp add: in_bounds_def list_all2_lengthD)
  have "list_all (\<lambda>((lo, hi), i). lo \<le> i \<and> i \<le> hi) (zip bounds indices)"
    using in_bounds_zip [OF len] assms(3) by simp
  then have "vmCheckArrayIndexBounds bounds indices = Inr ()"
    unfolding vmCheckArrayIndexBounds_def by (intro check_dimensions_ok) (simp only: list_all_rev)
  moreover have "computeFlatOffset bounds indices = Inr (row_major bounds indices)"
    using flat_offset_suffix [OF assms(3,1,2), of "[]"] by (simp add: computeFlatOffset_def)
  moreover have "calculateArrayTotalSize bounds = Inr (elements_of bounds)"
    using total_from_exact [OF assms(1), of 1] assms(2,4) by (simp add: calculateArrayTotalSize_def)
  ultimately show ?thesis using row_major_range [OF assms(3)] by (simp add: element_position_def)
qed

lemma element_position_outside:
  assumes "length indices = length bounds" "\<not> in_bounds bounds indices"
  shows "\<exists>d < length bounds. (indices ! d < fst (bounds ! d) \<or> snd (bounds ! d) < indices ! d)
    \<and> element_position bounds indices = Inl (IndexOutOfBounds (d + 1) (indices ! d))"
proof -
  obtain d where d: "d < length (zip bounds indices)" "case zip bounds indices ! d of ((lo, hi), i) \<Rightarrow> i < lo \<or> hi < i"
    "check_dimensions (rev (zip bounds indices)) = Inl (IndexOutOfBounds (d + 1) (snd (zip bounds indices ! d)))"
    using check_dimensions_fails [OF assms(2) [unfolded in_bounds_zip [OF assms(1)]]] by (elim exE conjE)
  then have "element_position bounds indices = Inl (IndexOutOfBounds (d + 1) (indices ! d))"
    by (simp add: element_position_def vmCheckArrayIndexBounds_def)
  moreover have "d < length bounds" "indices ! d < fst (bounds ! d) \<or> snd (bounds ! d) < indices ! d"
    using d(1,2) by (simp_all add: case_prod_beta)
  ultimately show ?thesis by blast
qed

text \<open>C40: in an array that \<open>makeArrayND\<close> accepts, the index lists within the bounds and the positions of the
  storage correspond one to one: the interpreter turns each such list into its row-major position, no two
  share one, every position from zero up to the number of elements is reached, and no \<open>int\<close> on the way
  overflows. A list with an index out of its bounds is the error that names such a dimension and its index,
  never a position.\<close>
theorem array_positions_exact:
  assumes "makeArrayND packed bounds = Inr n" and "bounds \<noteq> []" and "length indices = length bounds"
  shows "bij_betw (row_major bounds) {is. in_bounds bounds is} {0..<n}
    \<and> (if in_bounds bounds indices then element_position bounds indices = Inr (row_major bounds indices)
       else \<exists>d < length bounds. (indices ! d < fst (bounds ! d) \<or> snd (bounds ! d) < indices ! d)
         \<and> element_position bounds indices = Inl (IndexOutOfBounds (d + 1) (indices ! d)))"
proof -
  have acc: "n = elements_of bounds" "n \<le> 2 ^ 28" "list_all (\<lambda>(lo, hi). lo \<le> hi) bounds"
    using makeArrayND_accepts [OF assms(1,2)] by simp_all
  show ?thesis
  proof (cases "in_bounds bounds indices")
    case True
    then have "element_position bounds indices = Inr (row_major bounds indices)"
      using acc assms(2) by (intro element_position_inside) simp_all
    then show ?thesis using True row_major_bij [OF acc(3)] acc(1) by (simp only: if_True simp_thms)
  next
    case False
    then show ?thesis using element_position_outside [OF assms(3) False] row_major_bij [OF acc(3)] acc(1)
      by (simp only: if_False simp_thms)
  qed
qed

lemma array_positions_exact_witness:
  "element_position [(- 1, 1), (3, 6)] [1, 4] = Inr (row_major [(- 1, 1), (3, 6)] [1, 4])
   \<and> row_major [(- 1, 1), (3, 6)] [1, 4] = 9
   \<and> bij_betw (row_major [(- 1, 1), (3, 6)]) {is. in_bounds [(- 1, 1), (3, 6)] is} {0..<12}"
proof -
  have "makeArrayND False [(- 1, 1), (3, 6)] = Inr 12" by code_simp
  from array_positions_exact [OF this, of "[1, 4]"] show ?thesis by simp
qed

end
