(* ===== verification/Channel.thy ===== *)
theory Channel
  imports VmArray "HOL-Library.Multiset"
begin

section \<open>Channels between tasks\<close>

text \<open>
  \<open>ChannelObj\<close> (\<open>core/types.h\<close>), its constructor (\<open>core/utils.c\<close>), the operations of \<open>vm/vm.c\<close> on it
  (\<open>vmChannelSend\<close>, \<open>vmChannelReceive\<close>, \<open>vmChannelTrySend\<close>, \<open>vmChannelTryReceive\<close>, \<open>vmChannelClose\<close>,
  \<open>vmChannelIsClosed\<close>) and the checks of the builtin \<open>ChannelCreate\<close>.

  An operation holds the channel's lock from each acquisition to the next release. One such section is one
  step here: a blocking operation is started, polls for an interrupt with the lock released, waits on its
  condition variable with the lock released, and tests again, so other threads run between its steps. What
  the poll and the wait answer is chosen by the environment, spurious wake-ups and time-outs included.
\<close>

subsection \<open>First in, first out\<close>

text \<open>The contract of a buffer that hands values out in the order it took them in. The channel keeps it with
  a ring of cells and the queue of jobs with a linked list.\<close>

locale fifo =
  fixes ok :: "'s \<Rightarrow> bool" and contents :: "'s \<Rightarrow> 'a list" and room :: "'a \<Rightarrow> 's \<Rightarrow> bool"
    and put :: "'a \<Rightarrow> 's \<Rightarrow> 's" and take_first :: "'s \<Rightarrow> 'a \<times> 's"
  assumes put_ok: "ok s \<Longrightarrow> room x s \<Longrightarrow> ok (put x s)"
    and put_contents: "ok s \<Longrightarrow> room x s \<Longrightarrow> contents (put x s) = contents s @ [x]"
    and take_ok: "ok s \<Longrightarrow> contents s \<noteq> [] \<Longrightarrow> ok (snd (take_first s))"
    and take_contents: "ok s \<Longrightarrow> contents s \<noteq> [] \<Longrightarrow> contents s = fst (take_first s) # contents (snd (take_first s))"
begin

text \<open>What went in is what came out followed by what is still inside.\<close>

definition logged :: "'a list \<Rightarrow> 'a list \<Rightarrow> 's \<Rightarrow> bool" where
  "logged put_in taken s \<longleftrightarrow> ok s \<and> put_in = taken @ contents s"

lemma logged_put: "logged xs ys s \<Longrightarrow> room x s \<Longrightarrow> logged (xs @ [x]) ys (put x s)"
  by (simp add: logged_def put_ok put_contents)

lemma logged_take: "logged xs ys s \<Longrightarrow> contents s \<noteq> [] \<Longrightarrow> logged xs (ys @ [fst (take_first s)]) (snd (take_first s))"
  using take_contents [of s] by (simp add: logged_def take_ok)

lemma logged_unique: "logged xs ys s \<Longrightarrow> logged xs' ys s \<Longrightarrow> xs = xs'"
  by (simp add: logged_def)

end

subsection \<open>The channel\<close>

datatype VmChannelStatus = VM_CHANNEL_OK | VM_CHANNEL_CLOSED | VM_CHANNEL_WOULD_BLOCK | VM_CHANNEL_INTERRUPTED

record 'f ChannelObj =
  cn_buf :: "'f PValue list"
  cn_capacity :: nat
  cn_count :: nat
  cn_head :: nat
  cn_closed :: bool

definition makeNil :: "'f PValue" where
  "makeNil = PScalar \<lparr>vs_type = TYPE_NIL, vs_bits = pscalTagNil\<rparr>"

definition createChannelObj :: "nat \<Rightarrow> 'f ChannelObj" where
  "createChannelObj capacity =
     \<lparr>cn_buf = replicate capacity makeNil, cn_capacity = capacity, cn_count = 0, cn_head = 0, cn_closed = False\<rparr>"

definition VM_CHANNEL_MAX_CAPACITY :: int where
  "VM_CHANNEL_MAX_CAPACITY = 2 ^ 24"

datatype channel_create_error = NotOneInteger | CapacityTooSmall | CapacityTooLarge

definition vmBuiltinChannelCreate :: "'f PValue list \<Rightarrow> channel_create_error + 'f ChannelObj" where
  "vmBuiltinChannelCreate args =
     (case args of
        [PScalar v] \<Rightarrow>
          if \<not> isIntlikeType (vs_type v) then Inl NotOneInteger
          else
            let capacity = sint (asI64 v) in
            if capacity < 1 then Inl CapacityTooSmall
            else if VM_CHANNEL_MAX_CAPACITY < capacity then Inl CapacityTooLarge
            else Inr (createChannelObj (nat capacity))
      | _ \<Rightarrow> Inl NotOneInteger)"

text \<open>The two moves on the ring, written once in the model and twice each in the code: store behind the
  newest value, take the oldest and clear its cell.\<close>

definition channel_put :: "'f PValue \<Rightarrow> 'f ChannelObj \<Rightarrow> 'f ChannelObj" where
  "channel_put value ch =
     (let tail = (cn_head ch + cn_count ch) mod cn_capacity ch in
      ch\<lparr>cn_buf := (cn_buf ch)[tail := value], cn_count := cn_count ch + 1\<rparr>)"

definition channel_take :: "'f ChannelObj \<Rightarrow> 'f PValue \<times> 'f ChannelObj" where
  "channel_take ch =
     (let v = cn_buf ch ! cn_head ch in
      (v, ch\<lparr>cn_buf := (cn_buf ch)[cn_head ch := makeNil],
             cn_head := (cn_head ch + 1) mod cn_capacity ch,
             cn_count := cn_count ch - 1\<rparr>))"

text \<open>How a blocking operation enters a section: from its start, from the interrupt poll with its answer,
  from the wait with its status; and how it leaves it: to poll, to wait, or returning.\<close>

datatype wait_status = WaitSignalled | WaitTimedOut | WaitEintr | WaitFailed

datatype resume = Started | Polled bool | Woken wait_status

datatype pause = ToPoll | ToWait

datatype 'r section_end = Paused pause | Returned 'r

definition send_loop :: "'f PValue \<Rightarrow> 'f ChannelObj \<Rightarrow> 'f ChannelObj \<times> VmChannelStatus section_end" where
  "send_loop value ch =
     (if cn_capacity ch \<le> cn_count ch \<and> \<not> cn_closed ch then (ch, Paused ToPoll)
      else if cn_closed ch then (ch, Returned VM_CHANNEL_CLOSED)
      else (channel_put value ch, Returned VM_CHANNEL_OK))"

fun vmChannelSend :: "resume \<Rightarrow> 'f PValue \<Rightarrow> 'f ChannelObj \<Rightarrow> 'f ChannelObj \<times> VmChannelStatus section_end" where
  "vmChannelSend Started value ch = send_loop value ch"
| "vmChannelSend (Polled interrupted) value ch =
     (if interrupted then (ch, Returned VM_CHANNEL_INTERRUPTED)
      else if cn_count ch < cn_capacity ch \<or> cn_closed ch then send_loop value ch
      else (ch, Paused ToWait))"
| "vmChannelSend (Woken status) value ch =
     (if status = WaitFailed then (ch, Returned VM_CHANNEL_INTERRUPTED) else send_loop value ch)"

definition receive_loop :: "'f ChannelObj \<Rightarrow> 'f ChannelObj \<times> (VmChannelStatus \<times> 'f PValue) section_end" where
  "receive_loop ch =
     (if cn_count ch = 0 \<and> \<not> cn_closed ch then (ch, Paused ToPoll)
      else if cn_count ch = 0 then (ch, Returned (VM_CHANNEL_CLOSED, makeNil))
      else let (v, ch) = channel_take ch in (ch, Returned (VM_CHANNEL_OK, v)))"

fun vmChannelReceive :: "resume \<Rightarrow> 'f ChannelObj \<Rightarrow> 'f ChannelObj \<times> (VmChannelStatus \<times> 'f PValue) section_end" where
  "vmChannelReceive Started ch = receive_loop ch"
| "vmChannelReceive (Polled interrupted) ch =
     (if interrupted then (ch, Returned (VM_CHANNEL_INTERRUPTED, makeNil))
      else if 0 < cn_count ch \<or> cn_closed ch then receive_loop ch
      else (ch, Paused ToWait))"
| "vmChannelReceive (Woken status) ch =
     (if status = WaitFailed then (ch, Returned (VM_CHANNEL_INTERRUPTED, makeNil)) else receive_loop ch)"

definition vmChannelTrySend :: "'f PValue \<Rightarrow> 'f ChannelObj \<Rightarrow> 'f ChannelObj \<times> VmChannelStatus" where
  "vmChannelTrySend value ch =
     (if cn_closed ch then (ch, VM_CHANNEL_CLOSED)
      else if cn_capacity ch \<le> cn_count ch then (ch, VM_CHANNEL_WOULD_BLOCK)
      else (channel_put value ch, VM_CHANNEL_OK))"

definition vmChannelTryReceive :: "'f ChannelObj \<Rightarrow> 'f ChannelObj \<times> VmChannelStatus \<times> 'f PValue" where
  "vmChannelTryReceive ch =
     (if cn_count ch = 0 then (ch, if cn_closed ch then VM_CHANNEL_CLOSED else VM_CHANNEL_WOULD_BLOCK, makeNil)
      else let (v, ch) = channel_take ch in (ch, VM_CHANNEL_OK, v))"

definition vmChannelClose :: "'f ChannelObj \<Rightarrow> 'f ChannelObj" where
  "vmChannelClose ch = ch\<lparr>cn_closed := True\<rparr>"

definition vmChannelIsClosed :: "'f ChannelObj option \<Rightarrow> bool" where
  "vmChannelIsClosed ch = (case ch of None \<Rightarrow> True | Some ch \<Rightarrow> cn_closed ch)"

text \<open>The destructor frees what is still buffered.\<close>

definition channelObjDestroy :: "'f ChannelObj \<Rightarrow> 'f PValue list" where
  "channelObjDestroy ch = map (\<lambda>i. cn_buf ch ! ((cn_head ch + i) mod cn_capacity ch)) [0..<cn_count ch]"

subsection \<open>The ring is a queue\<close>

abbreviation channel_contents :: "'f ChannelObj \<Rightarrow> 'f PValue list" where
  "channel_contents \<equiv> channelObjDestroy"

definition channel_ok :: "'f ChannelObj \<Rightarrow> bool" where
  "channel_ok ch \<longleftrightarrow> 0 < cn_capacity ch \<and> length (cn_buf ch) = cn_capacity ch
     \<and> cn_head ch < cn_capacity ch \<and> cn_count ch \<le> cn_capacity ch"

definition channel_room :: "'f PValue \<Rightarrow> 'f ChannelObj \<Rightarrow> bool" where
  "channel_room v ch \<longleftrightarrow> cn_count ch < cn_capacity ch"

lemma length_contents [simp]: "length (channel_contents ch) = cn_count ch"
  by (simp add: channelObjDestroy_def)

lemma contents_empty [simp]: "channel_contents ch = [] \<longleftrightarrow> cn_count ch = 0" "[] = channel_contents ch \<longleftrightarrow> cn_count ch = 0"
  by (simp_all add: channelObjDestroy_def)

lemma channel_put_ok: "channel_ok ch \<Longrightarrow> channel_room v ch \<Longrightarrow> channel_ok (channel_put v ch)"
  by (auto simp: channel_ok_def channel_room_def channel_put_def Let_def)

lemma mod_offset_neq: "i < k \<Longrightarrow> k < n \<Longrightarrow> (h + i) mod n \<noteq> (h + k) mod (n :: nat)"
proof
  assume a: "i < k" "k < n" "(h + i) mod n = (h + k) mod n"
  then have "n dvd (h + k) - (h + i)" using mod_eq_dvd_iff_nat [of "h + i" "h + k" n] by simp
  then show False using a by (simp add: nat_dvd_not_less)
qed

lemma channel_put_contents:
  assumes "channel_ok ch" "channel_room v ch"
  shows "channel_contents (channel_put v ch) = channel_contents ch @ [v]"
proof -
  let ?t = "(cn_head ch + cn_count ch) mod cn_capacity ch"
  have t: "?t < length (cn_buf ch)" using assms by (simp add: channel_ok_def)
  have "(cn_buf ch)[?t := v] ! ((cn_head ch + i) mod cn_capacity ch) = cn_buf ch ! ((cn_head ch + i) mod cn_capacity ch)"
    if "i < cn_count ch" for i
    using mod_offset_neq [of i "cn_count ch" "cn_capacity ch" "cn_head ch"] that assms(2)
    by (simp add: channel_room_def)
  then show ?thesis using t by (simp add: channelObjDestroy_def channel_put_def Let_def)
qed

lemma channel_take_ok: "channel_ok ch \<Longrightarrow> channel_contents ch \<noteq> [] \<Longrightarrow> channel_ok (snd (channel_take ch))"
  by (auto simp: channel_ok_def channel_take_def Let_def)

lemma channel_take_contents:
  assumes ok: "channel_ok ch" and ne: "channel_contents ch \<noteq> []"
  shows "channel_contents ch = fst (channel_take ch) # channel_contents (snd (channel_take ch))"
proof -
  let ?h = "cn_head ch" and ?n = "cn_capacity ch"
  have h: "?h < ?n" "cn_count ch \<le> ?n" "0 < cn_count ch" using ok ne by (simp_all add: channel_ok_def)
  have cell: "(cn_buf ch)[?h := makeNil] ! (((?h + 1) mod ?n + i) mod ?n) = cn_buf ch ! ((?h + Suc i) mod ?n)"
    if "i < cn_count ch - 1" for i
  proof -
    have "((?h + 1) mod ?n + i) mod ?n = (?h + Suc i) mod ?n" by (simp add: mod_add_left_eq)
    moreover have "(?h + Suc i) mod ?n \<noteq> ?h"
      using mod_offset_neq [of 0 "Suc i" ?n ?h] that h by (simp add: less_diff_conv)
    ultimately show ?thesis by simp
  qed
  have "[0..<cn_count ch] = 0 # map Suc [0..<cn_count ch - 1]"
    using h(3) by (simp add: map_Suc_upt upt_conv_Cons)
  then have "channel_contents ch = cn_buf ch ! ?h # map (\<lambda>i. cn_buf ch ! ((?h + Suc i) mod ?n)) [0..<cn_count ch - 1]"
    using h(1) by (simp add: channelObjDestroy_def)
  also have "map (\<lambda>i. cn_buf ch ! ((?h + Suc i) mod ?n)) [0..<cn_count ch - 1] = channel_contents (snd (channel_take ch))"
    using cell by (simp add: channelObjDestroy_def channel_take_def Let_def)
  finally show ?thesis by (simp add: channel_take_def Let_def)
qed

interpretation ring: fifo channel_ok channel_contents channel_room channel_put channel_take
  by unfold_locales (auto intro: channel_put_ok channel_put_contents channel_take_ok channel_take_contents)

lemma channel_put_closed [simp]: "cn_closed (channel_put v ch) = cn_closed ch" "cn_capacity (channel_put v ch) = cn_capacity ch"
  by (simp_all add: channel_put_def Let_def)

lemma channel_take_closed [simp]:
  "cn_closed (snd (channel_take ch)) = cn_closed ch" "cn_capacity (snd (channel_take ch)) = cn_capacity ch"
  by (simp_all add: channel_take_def Let_def)

lemma create_ok: "vmBuiltinChannelCreate args = Inr ch \<Longrightarrow>
  channel_ok ch \<and> channel_contents ch = [] \<and> \<not> cn_closed ch \<and> int (cn_capacity ch) \<le> VM_CHANNEL_MAX_CAPACITY"
  by (auto simp: vmBuiltinChannelCreate_def createChannelObj_def channel_ok_def channelObjDestroy_def Let_def
      split: list.splits PValue.splits if_splits)

subsection \<open>Tasks sharing a channel\<close>

text \<open>The state: the channel, what each task is doing, and ghost logs of the values handed to a send, the
  values stored, the values received and the values freed, each in order.\<close>

datatype 'f task_state = Idle | Sending "'f PValue" pause | Receiving pause

record 'f tasks =
  ts_channel :: "'f ChannelObj"
  ts_tasks :: "'f task_state list"
  ts_submitted :: "'f PValue list"
  ts_accepted :: "'f PValue list"
  ts_received :: "'f PValue list"
  ts_freed :: "'f PValue list"

definition tasks_start :: "'f ChannelObj \<Rightarrow> nat \<Rightarrow> 'f tasks" where
  "tasks_start ch n =
     \<lparr>ts_channel = ch, ts_tasks = replicate n Idle, ts_submitted = [], ts_accepted = [], ts_received = [], ts_freed = []\<rparr>"

text \<open>What a send leaves behind: waiting with its value, the value stored, or the value freed.\<close>

definition after_send :: "nat \<Rightarrow> 'f PValue \<Rightarrow> 'f ChannelObj \<times> VmChannelStatus section_end \<Rightarrow> 'f tasks \<Rightarrow> 'f tasks" where
  "after_send i value r s =
     (let s = s\<lparr>ts_channel := fst r\<rparr> in
      case snd r of
        Paused p \<Rightarrow> s\<lparr>ts_tasks := (ts_tasks s)[i := Sending value p]\<rparr>
      | Returned status \<Rightarrow>
          let s = s\<lparr>ts_tasks := (ts_tasks s)[i := Idle]\<rparr> in
          if status = VM_CHANNEL_OK then s\<lparr>ts_accepted := ts_accepted s @ [value]\<rparr>
          else s\<lparr>ts_freed := ts_freed s @ [value]\<rparr>)"

definition after_receive :: "nat \<Rightarrow> 'f ChannelObj \<times> (VmChannelStatus \<times> 'f PValue) section_end \<Rightarrow> 'f tasks \<Rightarrow> 'f tasks" where
  "after_receive i r s =
     (let s = s\<lparr>ts_channel := fst r\<rparr> in
      case snd r of
        Paused p \<Rightarrow> s\<lparr>ts_tasks := (ts_tasks s)[i := Receiving p]\<rparr>
      | Returned (status, v) \<Rightarrow>
          let s = s\<lparr>ts_tasks := (ts_tasks s)[i := Idle]\<rparr> in
          if status = VM_CHANNEL_OK then s\<lparr>ts_received := ts_received s @ [v]\<rparr> else s)"

inductive task_step :: "'f tasks \<Rightarrow> 'f tasks \<Rightarrow> bool" where
  send: "i < length (ts_tasks s) \<Longrightarrow> ts_tasks s ! i = Idle \<Longrightarrow>
    task_step s (after_send i v (vmChannelSend Started v (ts_channel s)) (s\<lparr>ts_submitted := ts_submitted s @ [v]\<rparr>))"
| send_polled: "i < length (ts_tasks s) \<Longrightarrow> ts_tasks s ! i = Sending v ToPoll \<Longrightarrow>
    task_step s (after_send i v (vmChannelSend (Polled interrupted) v (ts_channel s)) s)"
| send_woken: "i < length (ts_tasks s) \<Longrightarrow> ts_tasks s ! i = Sending v ToWait \<Longrightarrow>
    task_step s (after_send i v (vmChannelSend (Woken status) v (ts_channel s)) s)"
| receive: "i < length (ts_tasks s) \<Longrightarrow> ts_tasks s ! i = Idle \<Longrightarrow>
    task_step s (after_receive i (vmChannelReceive Started (ts_channel s)) s)"
| receive_polled: "i < length (ts_tasks s) \<Longrightarrow> ts_tasks s ! i = Receiving ToPoll \<Longrightarrow>
    task_step s (after_receive i (vmChannelReceive (Polled interrupted) (ts_channel s)) s)"
| receive_woken: "i < length (ts_tasks s) \<Longrightarrow> ts_tasks s ! i = Receiving ToWait \<Longrightarrow>
    task_step s (after_receive i (vmChannelReceive (Woken status) (ts_channel s)) s)"
| try_send: "i < length (ts_tasks s) \<Longrightarrow> ts_tasks s ! i = Idle \<Longrightarrow> vmChannelTrySend v (ts_channel s) = (ch, status) \<Longrightarrow>
    task_step s (after_send i v (ch, Returned status) (s\<lparr>ts_submitted := ts_submitted s @ [v]\<rparr>))"
| try_receive: "i < length (ts_tasks s) \<Longrightarrow> ts_tasks s ! i = Idle \<Longrightarrow> vmChannelTryReceive (ts_channel s) = (ch, status, v) \<Longrightarrow>
    task_step s (after_receive i (ch, Returned (status, v)) s)"
| close: "i < length (ts_tasks s) \<Longrightarrow> ts_tasks s ! i = Idle \<Longrightarrow>
    task_step s (s\<lparr>ts_channel := vmChannelClose (ts_channel s)\<rparr>)"

abbreviation tasks_reach :: "'f tasks \<Rightarrow> 'f tasks \<Rightarrow> bool" where
  "tasks_reach \<equiv> task_step\<^sup>*\<^sup>*"

text \<open>The values held by sends that have not returned.\<close>

fun held_value :: "'f task_state \<Rightarrow> 'f PValue list" where
  "held_value (Sending v p) = [v]"
| "held_value _ = []"

definition held_values :: "'f tasks \<Rightarrow> 'f PValue multiset" where
  "held_values s = (\<Sum>t\<in>#mset (ts_tasks s). mset (held_value t))"

lemma held_update:
  assumes "i < length (ts_tasks s)" "ts_tasks t = (ts_tasks s)[i := x]"
  shows "held_values t + mset (held_value (ts_tasks s ! i)) = held_values s + mset (held_value x)"
proof -
  have "mset (ts_tasks s) = add_mset (ts_tasks s ! i) (mset (ts_tasks s) - {#ts_tasks s ! i#})"
    using assms(1) by simp
  then have "held_values s = mset (held_value (ts_tasks s ! i)) + (\<Sum>t\<in>#mset (ts_tasks s) - {#ts_tasks s ! i#}. mset (held_value t))"
    unfolding held_values_def by (metis image_mset_add_mset sum_mset.insert)
  then show ?thesis using assms by (simp add: held_values_def mset_update)
qed

lemma send_loop_cases:
  obtains (stay) e where "send_loop v ch = (ch, e)" "e \<noteq> Returned VM_CHANNEL_OK"
  | (put) "send_loop v ch = (channel_put v ch, Returned VM_CHANNEL_OK)" "channel_room v ch" "\<not> cn_closed ch"
proof -
  consider "cn_capacity ch \<le> cn_count ch \<and> \<not> cn_closed ch" | "cn_closed ch" | "channel_room v ch" "\<not> cn_closed ch"
    by (meson channel_room_def not_le)
  then show ?thesis
    by cases (use stay put in \<open>auto simp: send_loop_def channel_room_def\<close>)
qed

lemma send_cases:
  obtains (stay) e where "vmChannelSend r v ch = (ch, e)" "e \<noteq> Returned VM_CHANNEL_OK"
  | (put) "vmChannelSend r v ch = (channel_put v ch, Returned VM_CHANNEL_OK)" "channel_room v ch" "\<not> cn_closed ch"
proof -
  have "(\<exists>e. vmChannelSend r v ch = (ch, e) \<and> e \<noteq> Returned VM_CHANNEL_OK) \<or> vmChannelSend r v ch = send_loop v ch"
    by (cases r) auto
  then show ?thesis using stay put by (cases rule: send_loop_cases [of v ch]) auto
qed

lemma receive_loop_cases:
  obtains (stay) e where "receive_loop ch = (ch, e)" "\<And>v. e \<noteq> Returned (VM_CHANNEL_OK, v)"
  | (got) "receive_loop ch = (snd (channel_take ch), Returned (VM_CHANNEL_OK, fst (channel_take ch)))" "channel_contents ch \<noteq> []"
proof -
  consider "cn_count ch = 0 \<and> \<not> cn_closed ch" | "cn_count ch = 0" "cn_closed ch" | "cn_count ch \<noteq> 0" by auto
  then show ?thesis
    by cases (use stay got in \<open>auto simp: receive_loop_def case_prod_beta\<close>)
qed

lemma receive_cases:
  obtains (stay) e where "vmChannelReceive r ch = (ch, e)" "\<And>v. e \<noteq> Returned (VM_CHANNEL_OK, v)"
  | (got) "vmChannelReceive r ch = (snd (channel_take ch), Returned (VM_CHANNEL_OK, fst (channel_take ch)))" "channel_contents ch \<noteq> []"
proof -
  have "(\<exists>e. vmChannelReceive r ch = (ch, e) \<and> (\<forall>v. e \<noteq> Returned (VM_CHANNEL_OK, v))) \<or> vmChannelReceive r ch = receive_loop ch"
    by (cases r) auto
  then show ?thesis using stay got by (cases rule: receive_loop_cases [of ch]) auto
qed

lemma try_send_cases:
  obtains (stay) st where "vmChannelTrySend v ch = (ch, st)" "st \<noteq> VM_CHANNEL_OK"
  | (put) "vmChannelTrySend v ch = (channel_put v ch, VM_CHANNEL_OK)" "channel_room v ch" "\<not> cn_closed ch"
proof -
  consider "cn_closed ch" | "cn_capacity ch \<le> cn_count ch" "\<not> cn_closed ch" | "channel_room v ch" "\<not> cn_closed ch"
    by (meson channel_room_def not_le)
  then show ?thesis by cases (use stay put in \<open>auto simp: vmChannelTrySend_def channel_room_def\<close>)
qed

lemma try_receive_cases:
  obtains (stay) st where "vmChannelTryReceive ch = (ch, st, makeNil)" "st \<noteq> VM_CHANNEL_OK"
  | (got) "vmChannelTryReceive ch = (snd (channel_take ch), VM_CHANNEL_OK, fst (channel_take ch))" "channel_contents ch \<noteq> []"
proof (cases "cn_count ch = 0")
  case True
  then show ?thesis using stay by (auto simp: vmChannelTryReceive_def)
next
  case False
  then show ?thesis using got by (auto simp: vmChannelTryReceive_def case_prod_beta)
qed

lemma multiset_move:
  assumes "S + H = add_mset v (B + V)" "V' + H = V + X"
  shows "S + X = add_mset v (B + V')"
proof (rule multiset_eqI)
  fix a
  have "count (S + H) a = count (add_mset v (B + V)) a" "count (V' + H) a = count (V + X) a" using assms by simp_all
  then show "count (S + X) a = count (add_mset v (B + V')) a" by (simp split: if_splits)
qed

definition tasks_inv :: "'f tasks \<Rightarrow> bool" where
  "tasks_inv s \<longleftrightarrow> ring.logged (ts_accepted s) (ts_received s) (ts_channel s)
     \<and> mset (ts_submitted s) = mset (ts_accepted s) + mset (ts_freed s) + held_values s"

text \<open>A step by a task that holds \<open>old\<close>, with \<open>s\<close> the state in which the new submission is already noted.\<close>

lemma after_send_inv:
  assumes log: "ring.logged (ts_accepted s) (ts_received s) ch"
    and count: "mset (ts_submitted s) + mset (held_value (ts_tasks s ! i)) = add_mset v (mset (ts_accepted s) + mset (ts_freed s) + held_values s)"
    and i: "i < length (ts_tasks s)"
    and r: "(fst r = ch \<and> snd r \<noteq> Returned VM_CHANNEL_OK) \<or> (r = (channel_put v ch, Returned VM_CHANNEL_OK) \<and> channel_room v ch)"
  shows "tasks_inv (after_send i v r s)"
proof -
  have upd: "mset (ts_submitted s) + mset (held_value x) = add_mset v (mset (ts_accepted s) + mset (ts_freed s) + held_values (after_send i v r s))"
    if "ts_tasks (after_send i v r s) = (ts_tasks s)[i := x]" for x
    using multiset_move [OF count held_update [OF i that]] .
  show ?thesis
  proof (cases "snd r")
    case (Paused p)
    then show ?thesis using log r upd [of "Sending v p"] by (auto simp: tasks_inv_def after_send_def Let_def)
  next
    case (Returned status)
    then show ?thesis using log r upd [of Idle] ring.logged_put [OF log, of v]
      by (auto simp: tasks_inv_def after_send_def Let_def split: if_splits)
  qed
qed

lemma after_receive_inv:
  assumes inv: "tasks_inv s" and i: "i < length (ts_tasks s)" "held_value (ts_tasks s ! i) = []"
    and r: "(fst r = ts_channel s \<and> (\<forall>v. snd r \<noteq> Returned (VM_CHANNEL_OK, v)))
      \<or> (r = (snd (channel_take (ts_channel s)), Returned (VM_CHANNEL_OK, fst (channel_take (ts_channel s))))
          \<and> channel_contents (ts_channel s) \<noteq> [])"
  shows "tasks_inv (after_receive i r s)"
proof -
  have upd: "held_values (after_receive i r s) = held_values s"
    if "ts_tasks (after_receive i r s) = (ts_tasks s)[i := x]" "held_value x = []" for x
    using held_update [OF i(1) that(1)] that(2) i(2) by simp
  show ?thesis
  proof (cases "snd r")
    case (Paused p)
    then show ?thesis using inv r upd [of "Receiving p"] by (auto simp: tasks_inv_def after_receive_def Let_def)
  next
    case (Returned sv)
    then show ?thesis using inv r upd [of Idle] ring.logged_take [of "ts_accepted s" "ts_received s" "ts_channel s"]
      by (cases sv) (auto simp: tasks_inv_def after_receive_def Let_def split: if_splits)
  qed
qed

lemma task_step_inv: "task_step s t \<Longrightarrow> tasks_inv s \<Longrightarrow> tasks_inv t"
proof (induction rule: task_step.induct)
  case (send i s v)
  then show ?case by (intro after_send_inv [where ch = "ts_channel s"]; cases rule: send_cases [of Started v "ts_channel s"])
      (auto simp: tasks_inv_def held_values_def)
next
  case (send_polled i s v interrupted)
  then show ?case by (intro after_send_inv [where ch = "ts_channel s"]; cases rule: send_cases [of "Polled interrupted" v "ts_channel s"])
      (auto simp: tasks_inv_def)
next
  case (send_woken i s v status)
  then show ?case by (intro after_send_inv [where ch = "ts_channel s"]; cases rule: send_cases [of "Woken status" v "ts_channel s"])
      (auto simp: tasks_inv_def)
next
  case (receive i s)
  then show ?case by (intro after_receive_inv; cases rule: receive_cases [of Started "ts_channel s"]) auto
next
  case (receive_polled i s interrupted)
  then show ?case by (intro after_receive_inv; cases rule: receive_cases [of "Polled interrupted" "ts_channel s"]) auto
next
  case (receive_woken i s status)
  then show ?case by (intro after_receive_inv; cases rule: receive_cases [of "Woken status" "ts_channel s"]) auto
next
  case (try_send i s v ch status)
  then show ?case by (intro after_send_inv [where ch = "ts_channel s"]; cases rule: try_send_cases [of v "ts_channel s"])
      (auto simp: tasks_inv_def held_values_def)
next
  case (try_receive i s ch status v)
  then show ?case by (intro after_receive_inv; cases rule: try_receive_cases [of "ts_channel s"]) auto
next
  case (close i s)
  then show ?case
    by (simp add: tasks_inv_def ring.logged_def channel_ok_def vmChannelClose_def channelObjDestroy_def held_values_def)
qed

lemma tasks_reach_inv: "tasks_reach s t \<Longrightarrow> tasks_inv s \<Longrightarrow> tasks_inv t"
  by (induction rule: rtranclp_induct) (auto intro: task_step_inv)

lemma tasks_start_inv: "vmBuiltinChannelCreate args = Inr ch \<Longrightarrow> tasks_inv (tasks_start ch n)"
  using create_ok [of args ch] by (simp add: tasks_inv_def tasks_start_def ring.logged_def held_values_def)

lemma vmChannelSend_keeps [simp]:
  "cn_capacity (fst (vmChannelSend r v ch)) = cn_capacity ch" "cn_closed (fst (vmChannelSend r v ch)) = cn_closed ch"
  by (cases rule: send_cases [of r v ch]; simp)+

lemma vmChannelReceive_keeps [simp]:
  "cn_capacity (fst (vmChannelReceive r ch)) = cn_capacity ch" "cn_closed (fst (vmChannelReceive r ch)) = cn_closed ch"
  by (cases rule: receive_cases [of r ch]; simp)+

lemma after_channel [simp]: "ts_channel (after_send i v r s) = fst r" "ts_channel (after_receive i q s) = fst q"
  by (auto simp: after_send_def after_receive_def Let_def split: section_end.split)

lemma task_step_keeps:
  "task_step s t \<Longrightarrow> cn_capacity (ts_channel t) = cn_capacity (ts_channel s) \<and> (cn_closed (ts_channel s) \<longrightarrow> cn_closed (ts_channel t))"
proof (induction rule: task_step.induct)
  case (try_send i s v ch status)
  then show ?case by (cases rule: try_send_cases [of v "ts_channel s"]) auto
next
  case (try_receive i s ch status v)
  then show ?case by (cases rule: try_receive_cases [of "ts_channel s"]) auto
qed (simp_all add: vmChannelClose_def del: vmChannelSend.simps vmChannelReceive.simps)

lemma tasks_reach_keeps:
  "tasks_reach s t \<Longrightarrow> cn_capacity (ts_channel t) = cn_capacity (ts_channel s) \<and> (cn_closed (ts_channel s) \<longrightarrow> cn_closed (ts_channel t))"
  by (induction rule: rtranclp_induct) (auto dest: task_step_keeps)

lemma task_step_closed:
  "task_step s t \<Longrightarrow> cn_closed (ts_channel s) \<Longrightarrow> ts_accepted t = ts_accepted s"
proof (induction rule: task_step.induct)
  case (send i s v)
  then show ?case by (cases rule: send_cases [of Started v "ts_channel s"]) (auto simp: after_send_def Let_def split: section_end.split)
next
  case (send_polled i s v interrupted)
  then show ?case by (cases rule: send_cases [of "Polled interrupted" v "ts_channel s"]) (auto simp: after_send_def Let_def split: section_end.split)
next
  case (send_woken i s v status)
  then show ?case by (cases rule: send_cases [of "Woken status" v "ts_channel s"]) (auto simp: after_send_def Let_def split: section_end.split)
next
  case (try_send i s v ch status)
  then show ?case by (auto simp: after_send_def Let_def vmChannelTrySend_def)
qed (auto simp: after_receive_def Let_def split: section_end.split)

lemma tasks_reach_closed:
  "tasks_reach s t \<Longrightarrow> cn_closed (ts_channel s) \<Longrightarrow> ts_accepted t = ts_accepted s"
  by (induction rule: rtranclp_induct) (auto dest: task_step_closed tasks_reach_keeps)

subsection \<open>What a channel promises\<close>

text \<open>C22: however tasks interleave their sends, receives, polls, waits and closes on a channel, the values
  received are exactly the first of the values stored, in the order they were stored; the rest is in the
  buffer, which never holds more than the capacity asked for; and every value handed to a send is at exactly
  one place: stored, freed, or held by the send that still waits. No value is lost, doubled or freed twice.\<close>
theorem channel_fifo:
  assumes "vmBuiltinChannelCreate args = Inr ch" and "tasks_reach (tasks_start ch n) s"
  shows "ts_accepted s = ts_received s @ channelObjDestroy (ts_channel s)
    \<and> length (channelObjDestroy (ts_channel s)) \<le> cn_capacity ch
    \<and> mset (ts_submitted s) = mset (ts_accepted s) + mset (ts_freed s) + held_values s"
proof -
  have "tasks_inv s" using tasks_reach_inv [OF assms(2) tasks_start_inv [OF assms(1)]] .
  moreover have "cn_capacity (ts_channel s) = cn_capacity ch"
    using tasks_reach_keeps [OF assms(2)] by (simp add: tasks_start_def)
  ultimately show ?thesis by (simp add: tasks_inv_def ring.logged_def channel_ok_def)
qed

text \<open>C23: closing is final and loses nothing. Once a channel is closed it stays closed and stores nothing more;
  from then on no operation waits: a send returns that the channel is closed (or was interrupted), and a
  receive takes the buffered values in order and reports the close only when none is left. While it is open, a
  send waits only on a full buffer and a receive only on an empty one.\<close>
theorem channel_close_drains:
  assumes "vmBuiltinChannelCreate args = Inr ch" and "tasks_reach (tasks_start ch n) s" and "tasks_reach s t"
  shows "(cn_closed (ts_channel s) \<longrightarrow>
      cn_closed (ts_channel t) \<and> ts_accepted t = ts_accepted s
      \<and> (case vmChannelSend r v (ts_channel t) of (c, e) \<Rightarrow>
           c = ts_channel t \<and> (e = Returned VM_CHANNEL_CLOSED \<or> e = Returned VM_CHANNEL_INTERRUPTED))
      \<and> (case vmChannelReceive Started (ts_channel t) of (c, e) \<Rightarrow>
           (case channelObjDestroy (ts_channel t) of
              [] \<Rightarrow> e = Returned (VM_CHANNEL_CLOSED, makeNil)
            | x # rest \<Rightarrow> e = Returned (VM_CHANNEL_OK, x) \<and> channelObjDestroy c = rest)))
    \<and> (snd (vmChannelSend r v (ts_channel t)) = Paused p \<longrightarrow>
         length (channelObjDestroy (ts_channel t)) = cn_capacity ch \<and> \<not> cn_closed (ts_channel t))
    \<and> (snd (vmChannelReceive q (ts_channel t)) = Paused p \<longrightarrow>
         channelObjDestroy (ts_channel t) = [] \<and> \<not> cn_closed (ts_channel t))"
proof -
  let ?c = "ts_channel t"
  have reach: "tasks_reach (tasks_start ch n) t" using assms(2,3) by (rule rtranclp_trans)
  have ok: "channel_ok ?c"
    using tasks_reach_inv [OF reach tasks_start_inv [OF assms(1)]] by (simp add: tasks_inv_def ring.logged_def)
  have cap: "cn_capacity ?c = cn_capacity ch" using tasks_reach_keeps [OF reach] by (simp add: tasks_start_def)
  have send: "case vmChannelSend r v ?c of (c, e) \<Rightarrow> c = ?c \<and> (e = Returned VM_CHANNEL_CLOSED \<or> e = Returned VM_CHANNEL_INTERRUPTED)"
    if "cn_closed ?c" using that by (cases r) (simp_all add: send_loop_def)
  have receive: "case vmChannelReceive Started ?c of (c, e) \<Rightarrow>
      (case channel_contents ?c of
         [] \<Rightarrow> e = Returned (VM_CHANNEL_CLOSED, makeNil)
       | x # rest \<Rightarrow> e = Returned (VM_CHANNEL_OK, x) \<and> channel_contents c = rest)" if "cn_closed ?c"
  proof (cases "channel_contents ?c = []")
    case True
    then have "cn_count ?c = 0" by simp
    then show ?thesis using that by (simp add: receive_loop_def True)
  next
    case False
    then have "0 < cn_count ?c" by simp
    then show ?thesis using channel_take_contents [OF ok False] that
      by (simp add: receive_loop_def case_prod_beta split: list.split)
  qed
  have "snd (vmChannelSend r v ?c) = Paused p \<Longrightarrow> cn_count ?c = cn_capacity ch \<and> \<not> cn_closed ?c"
    using ok cap by (cases r) (auto simp: send_loop_def channel_ok_def split: if_splits)
  moreover have "snd (vmChannelReceive q ?c) = Paused p \<Longrightarrow> cn_count ?c = 0 \<and> \<not> cn_closed ?c"
    by (cases q) (auto simp: receive_loop_def case_prod_beta split: if_splits)
  ultimately show ?thesis
    using send receive tasks_reach_keeps [OF assms(3)] tasks_reach_closed [OF assms(3)] by simp
qed

text \<open>One task sends twice into a channel of capacity two, closes it and receives once.\<close>

abbreviation example_channel :: "unit ChannelObj" where
  "example_channel \<equiv> createChannelObj 2"

definition example_sent :: "unit tasks" where
  "example_sent =
     (let s = tasks_start example_channel 1;
          s = after_send 0 makeNil (vmChannelSend Started makeNil (ts_channel s)) (s\<lparr>ts_submitted := ts_submitted s @ [makeNil]\<rparr>);
          s = after_send 0 (makeInt 7) (vmChannelSend Started (makeInt 7) (ts_channel s)) (s\<lparr>ts_submitted := ts_submitted s @ [makeInt 7]\<rparr>)
      in s\<lparr>ts_channel := vmChannelClose (ts_channel s)\<rparr>)"

definition example_received :: "unit tasks" where
  "example_received = after_receive 0 (vmChannelReceive Started (ts_channel example_sent)) example_sent"

lemma example_create: "vmBuiltinChannelCreate [makeInt 2] = Inr example_channel"
proof -
  have "int_value (makeInt32 2) = 2" using value_results(3) [of 2] by simp
  then have "sint (asI64 (makeScalar TYPE_INT32 2)) = 2"
    by (simp add: int_value_def makeInt32_def makeScalar_def pscalValueSetIntBits_def)
  moreover have "isIntlikeType (vs_type (makeScalar TYPE_INT32 2))"
    by (simp add: isIntlikeType_def isIntegerFamilyType_def makeScalar_def pscalValueSetIntBits_def)
  ultimately show ?thesis by (simp add: vmBuiltinChannelCreate_def makeInt_def VM_CHANNEL_MAX_CAPACITY_def)
qed

lemma example_states:
  "ts_tasks example_sent = [Idle]" "ts_accepted example_sent = [makeNil, makeInt 7]" "cn_closed (ts_channel example_sent)"
  "ts_received example_received = [makeNil]" "cn_closed (ts_channel example_received)"
  "channelObjDestroy (ts_channel example_received) = [makeInt 7]"
  by (simp_all add: example_sent_def example_received_def tasks_start_def createChannelObj_def after_send_def
      after_receive_def send_loop_def receive_loop_def channel_put_def channel_take_def vmChannelClose_def
      channelObjDestroy_def Let_def numeral_2_eq_2)

lemma example_reach: "tasks_reach (tasks_start example_channel 1) example_sent" "tasks_reach example_sent example_received"
proof -
  let ?s0 = "tasks_start example_channel 1"
  let ?s1 = "after_send 0 makeNil (vmChannelSend Started makeNil (ts_channel ?s0)) (?s0\<lparr>ts_submitted := ts_submitted ?s0 @ [makeNil]\<rparr>)"
  let ?s2 = "after_send 0 (makeInt 7) (vmChannelSend Started (makeInt 7) (ts_channel ?s1)) (?s1\<lparr>ts_submitted := ts_submitted ?s1 @ [makeInt 7]\<rparr>)"
  have idle: "ts_tasks ?s1 = [Idle]" "ts_tasks ?s2 = [Idle]"
    by (simp_all add: tasks_start_def createChannelObj_def after_send_def send_loop_def channel_put_def Let_def numeral_2_eq_2)
  have "task_step ?s0 ?s1" by (rule task_step.send) (simp_all add: tasks_start_def)
  moreover have "task_step ?s1 ?s2" by (rule task_step.send) (simp_all only: idle, simp_all)
  moreover have "task_step ?s2 example_sent"
    unfolding example_sent_def Let_def by (rule task_step.close [of 0]) (simp_all only: idle, simp_all)
  ultimately show "tasks_reach ?s0 example_sent" by (meson converse_rtranclp_into_rtranclp rtranclp.rtrancl_refl)
  have "task_step example_sent example_received"
    unfolding example_received_def by (rule task_step.receive) (simp_all add: example_states)
  then show "tasks_reach example_sent example_received" by simp
qed

lemma channel_fifo_witness:
  "ts_accepted example_received = ts_received example_received @ channelObjDestroy (ts_channel example_received)
   \<and> channelObjDestroy (ts_channel example_received) = [makeInt 7]"
  using channel_fifo [OF example_create rtranclp_trans [OF example_reach]] example_states by simp

lemma channel_close_drains_witness:
  "cn_closed (ts_channel example_received) \<and> ts_accepted example_received = [makeNil, makeInt 7]
   \<and> snd (vmChannelReceive Started (ts_channel example_received)) = Returned (VM_CHANNEL_OK, makeInt 7)"
  using channel_close_drains [OF example_create example_reach, of undefined undefined undefined undefined] example_states
  by (auto simp: case_prod_beta)

text \<open>A received nil followed by \<open>ChannelIsClosed\<close> answering true does not mean the channel is drained: here
  the nil was sent, and a value is still to come.\<close>

lemma nil_then_closed_not_drained:
  "snd (vmChannelReceive Started (ts_channel example_sent)) = Returned (VM_CHANNEL_OK, makeNil)
   \<and> vmChannelIsClosed (Some (ts_channel example_received))
   \<and> channelObjDestroy (ts_channel example_received) = [makeInt 7]"
  using example_states
  by (simp add: vmChannelIsClosed_def example_sent_def tasks_start_def createChannelObj_def after_send_def
      send_loop_def receive_loop_def channel_put_def channel_take_def vmChannelClose_def Let_def numeral_2_eq_2)

end
