(* ===== verification/JobQueue.thy ===== *)
theory JobQueue
  imports Channel
begin

section \<open>The queue of thread jobs\<close>

text \<open>
  \<open>ThreadJobQueue\<close> of \<open>vm/vm.c\<close>: the linked list through which spawned jobs reach the worker threads. A job is
  named by its address; \<open>jq_next\<close> holds the \<open>next\<close> field of every job, so the operations update it as the code
  does. Each operation is one section under the queue's lock, except that a worker that finds no job waits
  with the lock released and enters again when woken.
\<close>

type_synonym job = nat

record ThreadJobQueue =
  jq_next :: "job \<Rightarrow> job option"
  jq_head :: "job option"
  jq_tail :: "job option"
  jq_pending :: int
  jq_shuttingDown :: bool

definition vmThreadJobQueueCreate :: "(job \<Rightarrow> job option) \<Rightarrow> ThreadJobQueue" where
  "vmThreadJobQueueCreate next_of =
     \<lparr>jq_next = next_of, jq_head = None, jq_tail = None, jq_pending = 0, jq_shuttingDown = False\<rparr>"

definition vmThreadJobQueuePush :: "ThreadJobQueue \<Rightarrow> job \<Rightarrow> bool \<times> ThreadJobQueue" where
  "vmThreadJobQueuePush q job =
     (if jq_shuttingDown q then (False, q)
      else
        let q = q\<lparr>jq_next := (jq_next q)(job := None)\<rparr>;
            q = (case (jq_head q, jq_tail q) of
                   (Some h, Some t) \<Rightarrow> q\<lparr>jq_next := (jq_next q)(t := Some job), jq_tail := Some job\<rparr>
                 | _ \<Rightarrow> q\<lparr>jq_head := Some job, jq_tail := Some job\<rparr>)
        in (True, q\<lparr>jq_pending := jq_pending q + 1\<rparr>))"

text \<open>One pass of the worker's loop. \<open>woken\<close> tells that it comes from the wait, after which a raised flag
  closes the queue; \<open>killRequested\<close> is the worker's own.\<close>

datatype pop_end = PopNothing | PopJob job | PopWaits

definition unlink_head :: "job \<Rightarrow> ThreadJobQueue \<Rightarrow> ThreadJobQueue" where
  "unlink_head job q =
     (let q = q\<lparr>jq_head := jq_next q job\<rparr>;
          q = (if jq_head q = None then q\<lparr>jq_tail := None\<rparr> else q)
      in q\<lparr>jq_pending := jq_pending q - 1, jq_next := (jq_next q)(job := None)\<rparr>)"

definition vmThreadJobQueuePop :: "bool \<Rightarrow> bool \<Rightarrow> bool \<Rightarrow> ThreadJobQueue \<Rightarrow> pop_end \<times> ThreadJobQueue" where
  "vmThreadJobQueuePop woken shuttingDownFlag killRequested q =
     (let q = (if woken \<and> shuttingDownFlag then q\<lparr>jq_shuttingDown := True\<rparr> else q) in
      if jq_shuttingDown q then (PopNothing, q)
      else if killRequested then (PopNothing, q)
      else case jq_head q of
             Some job \<Rightarrow> (PopJob job, unlink_head job q)
           | None \<Rightarrow> (PopWaits, q))"

text \<open>The search of \<open>vmThreadJobQueueRemove\<close> and the walk of \<open>vmThreadJobQueueDestroy\<close> follow the links until
  they end; a list that never ends would make them run forever, which is \<open>None\<close>.\<close>

partial_function (option) find_job :: "(job \<Rightarrow> job option) \<Rightarrow> job \<Rightarrow> job option \<Rightarrow> job option \<Rightarrow> (job option \<times> bool) option" where
  "find_job next_of job prev cur =
     (if cur = None then Some (prev, False)
      else if the cur = job then Some (prev, True)
      else find_job next_of job cur (next_of (the cur)))"

definition vmThreadJobQueueRemove :: "ThreadJobQueue \<Rightarrow> job \<Rightarrow> (bool \<times> ThreadJobQueue) option" where
  "vmThreadJobQueueRemove q job =
     (case find_job (jq_next q) job None (jq_head q) of
        None \<Rightarrow> None
      | Some (prev, False) \<Rightarrow> Some (False, q)
      | Some (prev, True) \<Rightarrow>
          let q = (case prev of
                     Some p \<Rightarrow> q\<lparr>jq_next := (jq_next q)(p := jq_next q job)\<rparr>
                   | None \<Rightarrow> q\<lparr>jq_head := jq_next q job\<rparr>);
              q = (if jq_tail q = Some job then q\<lparr>jq_tail := prev\<rparr> else q)
          in Some (True, q\<lparr>jq_pending := jq_pending q - 1, jq_next := (jq_next q)(job := None)\<rparr>))"

partial_function (option) destroy_jobs :: "(job \<Rightarrow> job option) \<Rightarrow> job option \<Rightarrow> job list option" where
  "destroy_jobs next_of cur =
     (if cur = None then Some []
      else Option.bind (destroy_jobs next_of (next_of (the cur))) (\<lambda>jobs. Some (the cur # jobs)))"

definition vmThreadJobQueueDestroy :: "ThreadJobQueue \<Rightarrow> job list option" where
  "vmThreadJobQueueDestroy q = destroy_jobs (jq_next q) (jq_head q)"

subsection \<open>The list in the links\<close>

fun chain :: "(job \<Rightarrow> job option) \<Rightarrow> job option \<Rightarrow> job list \<Rightarrow> job option \<Rightarrow> bool" where
  "chain nx h [] e \<longleftrightarrow> h = e"
| "chain nx h (x # xs) e \<longleftrightarrow> h = Some x \<and> chain nx (nx x) xs e"

lemma chain_append: "chain nx h (xs @ ys) e \<longleftrightarrow> (\<exists>m. chain nx h xs m \<and> chain nx m ys e)"
  by (induction xs arbitrary: h) auto

lemma chain_update: "x \<notin> set xs \<Longrightarrow> chain (nx(x := y)) h xs e \<longleftrightarrow> chain nx h xs e"
  by (induction xs arbitrary: h) auto

lemma chain_end: "chain nx h xs e \<Longrightarrow> xs = [] \<Longrightarrow> h = e" by simp

lemma destroy_chain: "chain nx h xs None \<Longrightarrow> destroy_jobs nx h = Some xs"
  by (induction xs arbitrary: h) (simp_all add: destroy_jobs.simps)

definition jobs :: "ThreadJobQueue \<Rightarrow> job list" where
  "jobs q = (case vmThreadJobQueueDestroy q of None \<Rightarrow> [] | Some xs \<Rightarrow> xs)"

definition jobs_are :: "ThreadJobQueue \<Rightarrow> job list \<Rightarrow> bool" where
  "jobs_are q xs \<longleftrightarrow> chain (jq_next q) (jq_head q) xs None \<and> distinct xs
     \<and> jq_tail q = (if xs = [] then None else Some (last xs)) \<and> jq_pending q = int (length xs)"

lemma jobs_are_jobs: "jobs_are q xs \<Longrightarrow> jobs q = xs"
  using destroy_chain [of "jq_next q" "jq_head q" xs] by (simp add: jobs_are_def jobs_def vmThreadJobQueueDestroy_def)

definition queue_ok :: "ThreadJobQueue \<Rightarrow> bool" where
  "queue_ok q \<longleftrightarrow> jobs_are q (jobs q)"

lemma jobs_are_iff: "jobs_are q xs \<longleftrightarrow> queue_ok q \<and> jobs q = xs"
  using jobs_are_jobs by (auto simp: queue_ok_def)

lemma create_jobs: "jobs_are (vmThreadJobQueueCreate nx) []"
  by (simp add: jobs_are_def vmThreadJobQueueCreate_def)

lemma push_jobs:
  assumes "jobs_are q xs" "job \<notin> set xs" "\<not> jq_shuttingDown q"
  shows "fst (vmThreadJobQueuePush q job) \<and> jobs_are (snd (vmThreadJobQueuePush q job)) (xs @ [job])
    \<and> jq_shuttingDown (snd (vmThreadJobQueuePush q job)) = jq_shuttingDown q"
proof (cases xs rule: rev_cases)
  case Nil
  then show ?thesis using assms by (auto simp: vmThreadJobQueuePush_def jobs_are_def Let_def)
next
  case (snoc ys t)
  then obtain h where h: "jq_head q = Some h" using assms(1) by (cases ys) (auto simp: jobs_are_def)
  have t: "jq_tail q = Some t" using assms(1) snoc by (simp add: jobs_are_def)
  obtain m where m: "chain (jq_next q) (jq_head q) ys m" "m = Some t"
    using assms(1) snoc by (auto simp: jobs_are_def chain_append)
  have fresh: "t \<noteq> job" "job \<notin> set ys" "t \<notin> set ys" using assms(1,2) snoc by (auto simp: jobs_are_def)
  have "chain ((jq_next q)(job := None, t := Some job)) (Some h) (ys @ [t, job]) None"
    using m h fresh by (auto simp: chain_append chain_update)
  then show ?thesis using assms(1,3) h t snoc fresh assms(2)
    by (simp add: vmThreadJobQueuePush_def jobs_are_def Let_def)
qed

lemma unlink_head_jobs: "jobs_are q (job # xs) \<Longrightarrow> jobs_are (unlink_head job q) xs"
  by (cases xs) (auto simp: jobs_are_def unlink_head_def Let_def chain_update)

lemma find_job_chain:
  "chain nx cur xs None \<Longrightarrow> find_job nx job prev cur =
     (if job \<in> set xs then Some (case takeWhile (\<lambda>x. x \<noteq> job) xs of [] \<Rightarrow> prev | ys \<Rightarrow> Some (last ys), True)
      else Some (case xs of [] \<Rightarrow> prev | _ \<Rightarrow> Some (last xs), False))"
proof (induction xs arbitrary: cur prev)
  case Nil
  then show ?case by (simp add: find_job.simps)
next
  case (Cons x xs)
  then have cur: "cur = Some x" "chain nx (nx x) xs None" by simp_all
  show ?case
  proof (cases "x = job")
    case True
    then show ?thesis using cur by (simp add: find_job.simps)
  next
    case False
    then have "find_job nx job prev cur = find_job nx job (Some x) (nx x)" using cur by (simp add: find_job.simps)
    then show ?thesis using False Cons.IH [OF cur(2), of "Some x"]
      by (auto split: list.splits)
  qed
qed

lemma find_job_split:
  assumes "chain nx h (ys @ job # zs) None" "job \<notin> set ys"
  shows "find_job nx job None h = Some (if ys = [] then None else Some (last ys), True)"
proof -
  have "takeWhile (\<lambda>x. x \<noteq> job) (ys @ job # zs) = ys" using assms(2) by (induction ys) auto
  then show ?thesis using find_job_chain [OF assms(1), of job None] by (simp split: list.split)
qed

lemma remove_jobs:
  assumes "jobs_are q xs"
  shows "\<exists>q'. vmThreadJobQueueRemove q job = Some (job \<in> set xs, q') \<and> jobs_are q' (remove1 job xs)
    \<and> jq_shuttingDown q' = jq_shuttingDown q"
proof (cases "job \<in> set xs")
  case False
  have "chain (jq_next q) (jq_head q) xs None" using assms by (simp add: jobs_are_def)
  from find_job_chain [OF this, of job None] False show ?thesis
    using assms by (simp add: vmThreadJobQueueRemove_def remove1_idem)
next
  case True
  then obtain ys zs where xs: "xs = ys @ job # zs" "job \<notin> set ys" by (meson split_list_first)
  have ch: "chain (jq_next q) (jq_head q) (ys @ job # zs) None" using assms xs by (simp add: jobs_are_def)
  have dist: "job \<notin> set zs" "distinct ys" "distinct zs" "set ys \<inter> set zs = {}" using assms xs by (auto simp: jobs_are_def)
  have last: "zs \<noteq> [] \<Longrightarrow> last zs \<noteq> job" using dist(1) last_in_set [of zs] by auto
  have rm: "remove1 job xs = ys @ zs" using xs by (simp add: remove1_append)
  have links: "chain (jq_next q) (jq_head q) ys (Some job)" "chain (jq_next q) (jq_next q job) zs None"
    using ch by (auto simp: chain_append)
  note found = find_job_split [OF ch xs(2)]
  show ?thesis
  proof (cases ys rule: rev_cases)
    case Nil
    then have "jq_head q = Some job" using links by simp
    then show ?thesis using assms found links dist xs Nil rm True last
      by (auto simp: vmThreadJobQueueRemove_def jobs_are_def Let_def chain_update)
  next
    case (snoc ws p)
    have p: "p \<noteq> job" "p \<notin> set ws" "p \<notin> set zs" "job \<notin> set ws" using snoc xs dist by auto
    have "chain (jq_next q) (jq_head q) ws (Some p)" using links(1) snoc by (auto simp: chain_append)
    then have "chain ((jq_next q)(p := jq_next q job, job := None)) (jq_head q) (ws @ p # zs) None"
      using links(2) p dist by (auto simp: chain_append chain_update)
    then show ?thesis using assms found dist xs snoc rm True p last
      by (auto simp: vmThreadJobQueueRemove_def jobs_are_def Let_def)
  qed
qed

definition job_room :: "job \<Rightarrow> ThreadJobQueue \<Rightarrow> bool" where
  "job_room job q \<longleftrightarrow> job \<notin> set (jobs q) \<and> \<not> jq_shuttingDown q"

definition push_job :: "job \<Rightarrow> ThreadJobQueue \<Rightarrow> ThreadJobQueue" where
  "push_job job q = snd (vmThreadJobQueuePush q job)"

definition take_job :: "ThreadJobQueue \<Rightarrow> job \<times> ThreadJobQueue" where
  "take_job q = (let job = the (jq_head q) in (job, unlink_head job q))"

interpretation linked: fifo queue_ok jobs job_room push_job take_job
proof unfold_locales
  fix q job
  assume "queue_ok q" "job_room job q"
  then show "queue_ok (push_job job q)" "jobs (push_job job q) = jobs q @ [job]"
    using push_jobs [of q "jobs q" job] by (simp_all add: job_room_def push_job_def jobs_are_iff)
next
  fix q
  assume q: "queue_ok q" "jobs q \<noteq> []"
  then obtain job xs where xs: "jobs q = job # xs" by (cases "jobs q") auto
  then have are: "jobs_are q (job # xs)" using q(1) by (simp add: queue_ok_def)
  then have "jq_head q = Some job" by (simp add: jobs_are_def)
  then show "queue_ok (snd (take_job q))" "jobs q = fst (take_job q) # jobs (snd (take_job q))"
    using unlink_head_jobs [OF are] xs by (simp_all add: take_job_def jobs_are_iff)
qed

subsection \<open>Any history of calls\<close>

datatype queue_call = CallPush job | CallPop bool bool bool | CallRemove job | CallWake

datatype queue_answer = AnswerBool bool | AnswerPop pop_end | AnswerNone

definition queue_call :: "queue_call \<Rightarrow> ThreadJobQueue \<Rightarrow> (queue_answer \<times> ThreadJobQueue) option" where
  "queue_call c q =
     (case c of
        CallPush job \<Rightarrow> Some (map_prod AnswerBool id (vmThreadJobQueuePush q job))
      | CallPop woken flag killed \<Rightarrow> Some (map_prod AnswerPop id (vmThreadJobQueuePop woken flag killed q))
      | CallRemove job \<Rightarrow> map_option (map_prod AnswerBool id) (vmThreadJobQueueRemove q job)
      | CallWake \<Rightarrow> Some (AnswerNone, q))"

fun queue_calls :: "queue_call list \<Rightarrow> ThreadJobQueue \<Rightarrow> (queue_answer list \<times> ThreadJobQueue) option" where
  "queue_calls [] q = Some ([], q)"
| "queue_calls (c # cs) q =
     (case queue_call c q of
        None \<Rightarrow> None
      | Some (a, q) \<Rightarrow> map_option (map_prod (Cons a) id) (queue_calls cs q))"

text \<open>The reference: a list of jobs and whether the queue is closed. Handing in a job that is already queued
  is a mistake of the caller, \<open>None\<close>.\<close>

definition spec_call :: "queue_call \<Rightarrow> job list \<times> bool \<Rightarrow> (queue_answer \<times> job list \<times> bool) option" where
  "spec_call c = (\<lambda>(xs, down).
     (case c of
        CallPush job \<Rightarrow>
          if down then Some (AnswerBool False, xs, down)
          else if job \<in> set xs then None
          else Some (AnswerBool True, xs @ [job], down)
      | CallPop woken flag killed \<Rightarrow>
          let down = (down \<or> woken \<and> flag) in
          if down \<or> killed then Some (AnswerPop PopNothing, xs, down)
          else (case xs of [] \<Rightarrow> Some (AnswerPop PopWaits, xs, down) | x # xs \<Rightarrow> Some (AnswerPop (PopJob x), xs, down))
      | CallRemove job \<Rightarrow> Some (AnswerBool (job \<in> set xs), remove1 job xs, down)
      | CallWake \<Rightarrow> Some (AnswerNone, xs, down)))"

fun spec_calls :: "queue_call list \<Rightarrow> job list \<times> bool \<Rightarrow> (queue_answer list \<times> job list \<times> bool) option" where
  "spec_calls [] s = Some ([], s)"
| "spec_calls (c # cs) s =
     (case spec_call c s of
        None \<Rightarrow> None
      | Some (a, s) \<Rightarrow> map_option (map_prod (Cons a) id) (spec_calls cs s))"

definition queue_refines :: "ThreadJobQueue \<Rightarrow> job list \<times> bool \<Rightarrow> bool" where
  "queue_refines q s \<longleftrightarrow> jobs_are q (fst s) \<and> jq_shuttingDown q = snd s"

lemma queue_call_refines:
  assumes "queue_refines q s" "spec_call c s = Some (a, s')"
  shows "\<exists>q'. queue_call c q = Some (a, q') \<and> queue_refines q' s'"
proof (cases c)
  case (CallPush job)
  show ?thesis
  proof (cases "jq_shuttingDown q")
    case True
    then show ?thesis using assms CallPush
      by (auto simp: queue_refines_def spec_call_def queue_call_def vmThreadJobQueuePush_def case_prod_beta)
  next
    case False
    then show ?thesis using assms CallPush push_jobs [of q "fst s" job]
      by (cases "vmThreadJobQueuePush q job")
        (auto simp: queue_refines_def spec_call_def queue_call_def case_prod_beta split: if_splits)
  qed
next
  case (CallPop woken flag killed)
  define q1 where "q1 = (if woken \<and> flag then q\<lparr>jq_shuttingDown := True\<rparr> else q)"
  have q1: "jobs_are q1 (fst s)" "jq_shuttingDown q1 = (snd s \<or> woken \<and> flag)"
    using assms(1) by (auto simp: q1_def queue_refines_def jobs_are_def)
  have pop: "vmThreadJobQueuePop woken flag killed q =
      (if jq_shuttingDown q1 then (PopNothing, q1) else if killed then (PopNothing, q1)
       else case jq_head q1 of Some job \<Rightarrow> (PopJob job, unlink_head job q1) | None \<Rightarrow> (PopWaits, q1))"
    by (simp only: vmThreadJobQueuePop_def q1_def Let_def)
  show ?thesis
  proof (cases "jq_shuttingDown q1 \<or> killed")
    case True
    then show ?thesis using assms CallPop pop q1
      by (auto simp: queue_refines_def spec_call_def queue_call_def case_prod_beta Let_def split: if_splits)
  next
    case open_queue: False
    show ?thesis
    proof (cases "fst s")
      case Nil
      then have "jq_head q1 = None" using q1 by (simp add: jobs_are_def)
      then show ?thesis using assms CallPop pop q1 open_queue Nil
        by (auto simp: queue_refines_def spec_call_def queue_call_def case_prod_beta Let_def split: if_splits)
    next
      case (Cons x xs)
      then have "jq_head q1 = Some x" "jobs_are (unlink_head x q1) xs"
        using q1 unlink_head_jobs [of q1 x xs] by (simp_all add: jobs_are_def)
      moreover have "jq_shuttingDown (unlink_head x q1) = jq_shuttingDown q1" by (simp add: unlink_head_def Let_def)
      ultimately show ?thesis using assms CallPop pop q1 open_queue Cons
        by (auto simp: queue_refines_def spec_call_def queue_call_def case_prod_beta Let_def split: if_splits)
    qed
  qed
next
  case (CallRemove job)
  obtain q' where "vmThreadJobQueueRemove q job = Some (job \<in> set (fst s), q')" "jobs_are q' (remove1 job (fst s))"
    "jq_shuttingDown q' = jq_shuttingDown q"
    using remove_jobs [of q "fst s" job] assms(1) by (auto simp: queue_refines_def)
  then show ?thesis using assms CallRemove
    by (auto simp: queue_refines_def spec_call_def queue_call_def case_prod_beta)
next
  case CallWake
  then show ?thesis using assms by (auto simp: queue_refines_def spec_call_def queue_call_def case_prod_beta)
qed

lemma queue_calls_refine:
  "queue_refines q s \<Longrightarrow> spec_calls cs s = Some (as, s') \<Longrightarrow>
   \<exists>q'. queue_calls cs q = Some (as, q') \<and> queue_refines q' s'"
proof (induction cs arbitrary: q s as)
  case (Cons c cs)
  obtain a s1 as1 where s1: "spec_call c s = Some (a, s1)" "spec_calls cs s1 = Some (as1, s')" "as = a # as1"
    using Cons.prems(2) by (auto split: option.splits prod.splits)
  obtain q1 where q1: "queue_call c q = Some (a, q1)" "queue_refines q1 s1"
    using queue_call_refines [OF Cons.prems(1) s1(1)] by blast
  obtain q' where "queue_calls cs q1 = Some (as1, q')" "queue_refines q' s'"
    using Cons.IH [OF q1(2) s1(2)] by blast
  then show ?case using q1(1) s1(3) by simp
qed simp

text \<open>C24: the linked job queue is a list. For any sequence of pushes, worker passes, removals and wake-ups in
  which no queued job is handed in again, every call ends with the answer of a plain list of jobs: workers
  get the jobs in the order they were pushed, a removed job is never handed out, after the shutdown nothing is
  accepted or handed out; at the end the pending count is the number of queued jobs, and destroying the queue
  frees each of them once.\<close>
theorem job_queue_refines_list:
  assumes "spec_calls cs ([], False) = Some (rs, xs, down)"
  shows "\<exists>q. queue_calls cs (vmThreadJobQueueCreate next_of) = Some (rs, q)
    \<and> vmThreadJobQueueDestroy q = Some xs \<and> distinct xs
    \<and> jq_pending q = int (length xs) \<and> jq_shuttingDown q = down"
proof -
  have "queue_refines (vmThreadJobQueueCreate next_of) ([], False)"
    by (simp add: queue_refines_def create_jobs) (simp add: vmThreadJobQueueCreate_def)
  from queue_calls_refine [OF this assms] obtain q where
    q: "queue_calls cs (vmThreadJobQueueCreate next_of) = Some (rs, q)" "jobs_are q xs" "jq_shuttingDown q = down"
    by (auto simp: queue_refines_def)
  moreover have "vmThreadJobQueueDestroy q = Some xs"
    using q(2) by (simp add: jobs_are_def vmThreadJobQueueDestroy_def destroy_chain)
  ultimately show ?thesis by (auto simp: jobs_are_def)
qed

lemma job_queue_refines_list_witness:
  "\<exists>q. queue_calls [CallPush 5, CallPush 3, CallPush 9, CallRemove 9, CallPush 4, CallPop False False False]
       (vmThreadJobQueueCreate (\<lambda>j. Some j))
     = Some ([AnswerBool True, AnswerBool True, AnswerBool True, AnswerBool True, AnswerBool True, AnswerPop (PopJob 5)], q)
   \<and> vmThreadJobQueueDestroy q = Some [3, 4]"
proof -
  have "spec_calls [CallPush 5, CallPush 3, CallPush 9, CallRemove 9, CallPush 4, CallPop False False False] ([], False)
    = Some ([AnswerBool True, AnswerBool True, AnswerBool True, AnswerBool True, AnswerBool True, AnswerPop (PopJob 5)], [3, 4], False)"
    by (simp add: spec_call_def)
  from job_queue_refines_list [OF this, of "\<lambda>j. Some j"] show ?thesis by auto
qed

end
