(* ===== verification/VmMutex.thy ===== *)
theory VmMutex
  imports JobQueue
begin

section \<open>Mutexes of the machine\<close>

text \<open>
  The registry of \<open>mutex()\<close> and \<open>rcmutex()\<close> in \<open>vm/vm.c\<close>: \<open>createMutex\<close>, \<open>lockMutex\<close>, \<open>unlockMutex\<close>,
  \<open>destroyMutex\<close>, \<open>vmReleaseHeldMutexes\<close> and the counting of calls in flight. A VM is a number; every VM runs
  one thread. A step is one section under a lock: the lookup under the registry lock, each stretch of
  \<open>lockMutex\<close> and \<open>unlockMutex\<close> under the slot's guard, the final decrement of \<open>users\<close>. \<open>destroyMutex\<close> and
  \<open>vmReleaseHeldMutexes\<close> hold the registry lock throughout and are one step: while \<open>destroyMutex\<close> looks at a
  slot no call can begin on it, and \<open>vmReleaseHeldMutexes\<close> changes only slots its own VM holds.
\<close>

datatype VmMutexStatus = VM_MUTEX_OK | VM_MUTEX_INVALID | VM_MUTEX_DEADLOCK | VM_MUTEX_NOT_OWNER | VM_MUTEX_BUSY | VM_MUTEX_INTERRUPTED

type_synonym vm_id = nat

record Mutex =
  mx_initialized :: bool
  mx_active :: bool
  mx_recursive :: bool
  mx_holder :: "vm_id option"
  mx_depth :: int
  mx_waiters :: int
  mx_users :: int

record registry =
  mr_mutexes :: "nat \<Rightarrow> Mutex"
  mr_count :: nat
  mr_held :: "vm_id \<Rightarrow> int"

definition zero_mutex :: Mutex where
  "zero_mutex = \<lparr>mx_initialized = False, mx_active = False, mx_recursive = False, mx_holder = None, mx_depth = 0,
     mx_waiters = 0, mx_users = 0\<rparr>"

abbreviation set_mutex :: "nat \<Rightarrow> Mutex \<Rightarrow> registry \<Rightarrow> registry" where
  "set_mutex i m r \<equiv> r\<lparr>mr_mutexes := (mr_mutexes r)(i := m)\<rparr>"

definition valid_id :: "int \<Rightarrow> registry \<Rightarrow> bool" where
  "valid_id mid r \<longleftrightarrow> \<not> (mid < 0 \<or> int (mr_count r) \<le> mid \<or> \<not> mx_active (mr_mutexes r (nat mid)))"

definition vmMutexBeginUse :: "int \<Rightarrow> registry \<Rightarrow> (nat \<times> registry) option" where
  "vmMutexBeginUse mid r =
     (if \<not> valid_id mid r then None
      else let i = nat mid; m = mr_mutexes r i in Some (i, set_mutex i (m\<lparr>mx_users := mx_users m + 1\<rparr>) r))"

definition vmMutexEndUse :: "nat \<Rightarrow> registry \<Rightarrow> registry" where
  "vmMutexEndUse i r = (let m = mr_mutexes r i in set_mutex i (m\<lparr>mx_users := mx_users m - 1\<rparr>) r)"

text \<open>The first inactive slot below the count is reused; else the count grows, if the ceiling, the storage and
  the construction of the slot's locks (\<open>can_grow\<close>, \<open>can_init\<close>) allow it.\<close>

fun inactive_slot :: "(nat \<Rightarrow> Mutex) \<Rightarrow> nat list \<Rightarrow> nat option" where
  "inactive_slot ms [] = None"
| "inactive_slot ms (i # is) = (if \<not> mx_active (ms i) then Some i else inactive_slot ms is)"

definition createMutex :: "nat \<Rightarrow> bool \<Rightarrow> bool \<Rightarrow> bool \<Rightarrow> registry \<Rightarrow> nat option \<times> registry" where
  "createMutex ceiling can_grow can_init recursive r =
     (let slot = inactive_slot (mr_mutexes r) [0..<mr_count r] in
      if slot = None \<and> (ceiling \<le> mr_count r \<or> \<not> can_grow) then (None, r)
      else
        let i = (case slot of Some i \<Rightarrow> i | None \<Rightarrow> mr_count r); m = mr_mutexes r i in
        if \<not> mx_initialized m \<and> \<not> can_init then (None, r)
        else
          let r = set_mutex i (m\<lparr>mx_initialized := True, mx_recursive := recursive, mx_holder := None, mx_depth := 0,
                    mx_waiters := 0, mx_active := True\<rparr>) r
          in (Some i, if i = mr_count r then r\<lparr>mr_count := mr_count r + 1\<rparr> else r))"

definition lock_acquire :: "vm_id \<Rightarrow> nat \<Rightarrow> registry \<Rightarrow> registry" where
  "lock_acquire vm i r =
     (set_mutex i ((mr_mutexes r i)\<lparr>mx_holder := Some vm, mx_depth := 1\<rparr>) r)\<lparr>mr_held := (mr_held r)(vm := mr_held r vm + 1)\<rparr>"

text \<open>The test of the loop of \<open>lockMutex\<close>, and its sections: from the start, from the timed wait with its
  status, from the interrupt poll with its answer.\<close>

definition lock_loop :: "vm_id \<Rightarrow> nat \<Rightarrow> registry \<Rightarrow> VmMutexStatus section_end \<times> registry" where
  "lock_loop vm i r =
     (let m = mr_mutexes r i in
      if mx_holder m \<noteq> None then (Paused ToWait, set_mutex i (m\<lparr>mx_waiters := mx_waiters m + 1\<rparr>) r)
      else (Returned VM_MUTEX_OK, lock_acquire vm i r))"

fun lockMutex :: "resume \<Rightarrow> vm_id \<Rightarrow> nat \<Rightarrow> registry \<Rightarrow> VmMutexStatus section_end \<times> registry" where
  "lockMutex Started vm i r =
     (let m = mr_mutexes r i in
      if mx_holder m = Some vm then
        (if mx_recursive m then (Returned VM_MUTEX_OK, set_mutex i (m\<lparr>mx_depth := mx_depth m + 1\<rparr>) r)
         else (Returned VM_MUTEX_DEADLOCK, r))
      else lock_loop vm i r)"
| "lockMutex (Woken status) vm i r =
     (let m = mr_mutexes r i; m = m\<lparr>mx_waiters := mx_waiters m - 1\<rparr>; r = set_mutex i m r in
      if mx_holder m = None then (Returned VM_MUTEX_OK, lock_acquire vm i r)
      else if status = WaitSignalled then lock_loop vm i r
      else (Paused ToPoll, r))"
| "lockMutex (Polled interrupted) vm i r =
     (if interrupted then (Returned VM_MUTEX_INTERRUPTED, r) else lock_loop vm i r)"

definition unlockMutex :: "vm_id \<Rightarrow> nat \<Rightarrow> registry \<Rightarrow> VmMutexStatus \<times> registry" where
  "unlockMutex vm i r =
     (let m = mr_mutexes r i in
      if mx_holder m \<noteq> Some vm then (VM_MUTEX_NOT_OWNER, r)
      else
        let m = m\<lparr>mx_depth := mx_depth m - 1\<rparr> in
        if mx_depth m \<le> 0
        then (VM_MUTEX_OK, (set_mutex i (m\<lparr>mx_holder := None, mx_depth := 0\<rparr>) r)\<lparr>mr_held := (mr_held r)(vm := mr_held r vm - 1)\<rparr>)
        else (VM_MUTEX_OK, set_mutex i m r))"

fun shrink_count :: "(nat \<Rightarrow> Mutex) \<Rightarrow> nat \<Rightarrow> nat" where
  "shrink_count ms 0 = 0"
| "shrink_count ms (Suc n) = (if \<not> mx_active (ms n) then shrink_count ms n else Suc n)"

definition destroyMutex :: "int \<Rightarrow> registry \<Rightarrow> VmMutexStatus \<times> registry" where
  "destroyMutex mid r =
     (if \<not> valid_id mid r then (VM_MUTEX_INVALID, r)
      else
        let i = nat mid; m = mr_mutexes r i in
        if mx_holder m \<noteq> None \<or> 0 < mx_waiters m \<or> 0 < mx_users m then (VM_MUTEX_BUSY, r)
        else
          let r = set_mutex i (m\<lparr>mx_active := False\<rparr>) r in
          (VM_MUTEX_OK, r\<lparr>mr_count := shrink_count (mr_mutexes r) (mr_count r)\<rparr>))"

definition vmReleaseHeldMutexes :: "vm_id \<Rightarrow> registry \<Rightarrow> registry" where
  "vmReleaseHeldMutexes vm r =
     (if mr_held r vm \<le> 0 then r
      else r\<lparr>mr_held := (mr_held r)(vm := 0),
             mr_mutexes := (\<lambda>i. let m = mr_mutexes r i in
               if i < mr_count r \<and> mx_active m \<and> mx_initialized m \<and> mx_holder m = Some vm
               then m\<lparr>mx_holder := None, mx_depth := 0\<rparr> else m)\<rparr>)"

subsection \<open>VMs using the registry\<close>

text \<open>Where each VM is, and a ghost balance: how many successful locks of a slot a VM has made beyond its
  successful unlocks, counted from the statuses the calls return.\<close>

datatype mutex_point = AtRest | LockBegun nat | LockPaused nat pause | UnlockBegun nat | Ending nat

record mutex_state =
  ms_registry :: registry
  ms_points :: "vm_id \<Rightarrow> mutex_point"
  ms_balance :: "vm_id \<Rightarrow> nat \<Rightarrow> int"

definition mutex_start :: mutex_state where
  "mutex_start = \<lparr>ms_registry = \<lparr>mr_mutexes = (\<lambda>_. zero_mutex), mr_count = 0, mr_held = (\<lambda>_. 0)\<rparr>,
     ms_points = (\<lambda>_. AtRest), ms_balance = (\<lambda>_ _. 0)\<rparr>"

fun resumes :: "mutex_point \<Rightarrow> nat \<Rightarrow> resume \<Rightarrow> bool" where
  "resumes (LockBegun j) i how \<longleftrightarrow> j = i \<and> how = Started"
| "resumes (LockPaused j ToWait) i (Woken status) \<longleftrightarrow> j = i"
| "resumes (LockPaused j ToPoll) i (Polled interrupted) \<longleftrightarrow> j = i"
| "resumes _ i how \<longleftrightarrow> False"

abbreviation point_at :: "vm_id \<Rightarrow> mutex_point \<Rightarrow> mutex_state \<Rightarrow> mutex_state" where
  "point_at vm p s \<equiv> s\<lparr>ms_points := (ms_points s)(vm := p)\<rparr>"

abbreviation add_balance :: "vm_id \<Rightarrow> nat \<Rightarrow> int \<Rightarrow> mutex_state \<Rightarrow> mutex_state" where
  "add_balance vm i k s \<equiv> s\<lparr>ms_balance := (ms_balance s)(vm := (ms_balance s vm)(i := ms_balance s vm i + k))\<rparr>"

definition after_lock :: "vm_id \<Rightarrow> nat \<Rightarrow> VmMutexStatus section_end \<times> registry \<Rightarrow> mutex_state \<Rightarrow> mutex_state" where
  "after_lock vm i r s =
     (let s = s\<lparr>ms_registry := snd r\<rparr> in
      case fst r of
        Paused p \<Rightarrow> point_at vm (LockPaused i p) s
      | Returned status \<Rightarrow> point_at vm (Ending i) (if status = VM_MUTEX_OK then add_balance vm i 1 s else s))"

definition after_unlock :: "vm_id \<Rightarrow> nat \<Rightarrow> VmMutexStatus \<times> registry \<Rightarrow> mutex_state \<Rightarrow> mutex_state" where
  "after_unlock vm i r s =
     point_at vm (Ending i) (let s = s\<lparr>ms_registry := snd r\<rparr> in if fst r = VM_MUTEX_OK then add_balance vm i (- 1) s else s)"

inductive mutex_step :: "nat \<Rightarrow> nat \<Rightarrow> mutex_state \<Rightarrow> mutex_state \<Rightarrow> bool" for ceiling vms :: nat where
  begin_lock: "vm < vms \<Longrightarrow> ms_points s vm = AtRest \<Longrightarrow> vmMutexBeginUse mid (ms_registry s) = Some (i, r) \<Longrightarrow>
    mutex_step ceiling vms s (point_at vm (LockBegun i) (s\<lparr>ms_registry := r\<rparr>))"
| lock: "vm < vms \<Longrightarrow> resumes (ms_points s vm) i how \<Longrightarrow>
    mutex_step ceiling vms s (after_lock vm i (lockMutex how vm i (ms_registry s)) s)"
| begin_unlock: "vm < vms \<Longrightarrow> ms_points s vm = AtRest \<Longrightarrow> vmMutexBeginUse mid (ms_registry s) = Some (i, r) \<Longrightarrow>
    mutex_step ceiling vms s (point_at vm (UnlockBegun i) (s\<lparr>ms_registry := r\<rparr>))"
| unlock: "vm < vms \<Longrightarrow> ms_points s vm = UnlockBegun i \<Longrightarrow>
    mutex_step ceiling vms s (after_unlock vm i (unlockMutex vm i (ms_registry s)) s)"
| end_use: "vm < vms \<Longrightarrow> ms_points s vm = Ending i \<Longrightarrow>
    mutex_step ceiling vms s (point_at vm AtRest (s\<lparr>ms_registry := vmMutexEndUse i (ms_registry s)\<rparr>))"
| create: "vm < vms \<Longrightarrow> ms_points s vm = AtRest \<Longrightarrow>
    mutex_step ceiling vms s (s\<lparr>ms_registry := snd (createMutex ceiling can_grow can_init recursive (ms_registry s))\<rparr>)"
| destroy: "vm < vms \<Longrightarrow> ms_points s vm = AtRest \<Longrightarrow>
    mutex_step ceiling vms s (s\<lparr>ms_registry := snd (destroyMutex mid (ms_registry s))\<rparr>)"
| job_ends: "vm < vms \<Longrightarrow> ms_points s vm = AtRest \<Longrightarrow>
    mutex_step ceiling vms s (s\<lparr>ms_registry := vmReleaseHeldMutexes vm (ms_registry s), ms_balance := (ms_balance s)(vm := (\<lambda>_. 0))\<rparr>)"

abbreviation mutex_reach :: "nat \<Rightarrow> nat \<Rightarrow> mutex_state \<Rightarrow> mutex_state \<Rightarrow> bool" where
  "mutex_reach ceiling vms \<equiv> (mutex_step ceiling vms)\<^sup>*\<^sup>*"

subsection \<open>Counting\<close>

definition tally :: "nat \<Rightarrow> ('a \<Rightarrow> bool) \<Rightarrow> (nat \<Rightarrow> 'a) \<Rightarrow> int" where
  "tally n P f = (\<Sum>k<n. of_bool (P (f k)))"

lemma tally_update: "k < n \<Longrightarrow> tally n P (f(k := x)) = tally n P f - of_bool (P (f k)) + of_bool (P x)"
proof -
  assume k: "k < n"
  have "tally n P (f(k := x)) = of_bool (P x) + (\<Sum>j\<in>{..<n} - {k}. of_bool (P (f j)))"
    unfolding tally_def by (subst sum.remove [of _ k]) (use k in \<open>auto intro!: sum.cong\<close>)
  moreover have "tally n P f = of_bool (P (f k)) + (\<Sum>j\<in>{..<n} - {k}. of_bool (P (f j)))"
    unfolding tally_def by (rule sum.remove) (use k in auto)
  ultimately show ?thesis by simp
qed

lemma tally_nonneg: "0 \<le> tally n P f"
  by (simp add: tally_def sum_nonneg)

lemma tally_pos: "k < n \<Longrightarrow> P (f k) \<Longrightarrow> 1 \<le> tally n P f"
proof -
  assume k: "k < n" "P (f k)"
  have "of_bool (P (f k)) \<le> (\<Sum>j<n. of_bool (P (f j)) :: int)" by (rule member_le_sum) (use k in auto)
  then show ?thesis using k by (simp add: tally_def)
qed

lemma tally_zero: "(\<And>k. k < n \<Longrightarrow> \<not> P (f k)) \<Longrightarrow> tally n P f = 0"
  by (simp add: tally_def)

lemma tally_cong: "(\<And>k. k < n \<Longrightarrow> P (f k) \<longleftrightarrow> Q (g k)) \<Longrightarrow> tally n P f = tally n Q g"
  by (simp add: tally_def)

lemma tally_le_zero: "tally n P f \<le> 0 \<Longrightarrow> k < n \<Longrightarrow> \<not> P (f k)"
  using tally_pos [of k n P f] by auto

subsection \<open>The invariant of the registry\<close>

fun in_flight :: "nat \<Rightarrow> mutex_point \<Rightarrow> bool" where
  "in_flight i AtRest \<longleftrightarrow> False"
| "in_flight i (LockBegun j) \<longleftrightarrow> i = j"
| "in_flight i (LockPaused j p) \<longleftrightarrow> i = j"
| "in_flight i (UnlockBegun j) \<longleftrightarrow> i = j"
| "in_flight i (Ending j) \<longleftrightarrow> i = j"

definition waiting :: "nat \<Rightarrow> mutex_point \<Rightarrow> bool" where
  "waiting i p \<longleftrightarrow> p = LockPaused i ToWait"

definition holder_ok :: "nat \<Rightarrow> (vm_id \<Rightarrow> nat \<Rightarrow> int) \<Rightarrow> nat \<Rightarrow> Mutex \<Rightarrow> bool" where
  "holder_ok vms bal i m \<longleftrightarrow>
     (case mx_holder m of
        None \<Rightarrow> mx_depth m = 0 \<and> (\<forall>v. bal v i = 0)
      | Some w \<Rightarrow> w < vms \<and> mx_active m \<and> 1 \<le> mx_depth m \<and> (mx_recursive m \<or> mx_depth m = 1)
          \<and> (\<forall>v. bal v i = (if v = w then mx_depth m else 0)))"

definition slot_ok :: "nat \<Rightarrow> (vm_id \<Rightarrow> mutex_point) \<Rightarrow> (vm_id \<Rightarrow> nat \<Rightarrow> int) \<Rightarrow> nat \<Rightarrow> nat \<Rightarrow> Mutex \<Rightarrow> bool" where
  "slot_ok vms points bal n i m \<longleftrightarrow>
     mx_users m = tally vms (in_flight i) points \<and> mx_waiters m = tally vms (waiting i) points
     \<and> (if mx_active m then mx_initialized m \<and> i < n else mx_users m = 0) \<and> holder_ok vms bal i m"

definition mutex_inv :: "nat \<Rightarrow> nat \<Rightarrow> mutex_state \<Rightarrow> bool" where
  "mutex_inv ceiling vms s \<longleftrightarrow>
     (\<forall>i. slot_ok vms (ms_points s) (ms_balance s) (mr_count (ms_registry s)) i (mr_mutexes (ms_registry s) i))
     \<and> mr_count (ms_registry s) \<le> ceiling
     \<and> (\<forall>v. mr_held (ms_registry s) v = tally ceiling (\<lambda>m. mx_holder m = Some v) (mr_mutexes (ms_registry s)))"

lemma waiting_in_flight: "waiting i p \<Longrightarrow> in_flight i p"
  by (simp add: waiting_def)

lemma mutex_start_inv: "mutex_inv ceiling vms mutex_start"
  by (simp add: mutex_inv_def mutex_start_def slot_ok_def holder_ok_def zero_mutex_def tally_def waiting_def)

lemma mutex_inv_slot:
  "mutex_inv ceiling vms s \<Longrightarrow> slot_ok vms (ms_points s) (ms_balance s) (mr_count (ms_registry s)) i (mr_mutexes (ms_registry s) i)"
  by (simp add: mutex_inv_def)

lemma in_flight_active:
  "mutex_inv ceiling vms s \<Longrightarrow> vm < vms \<Longrightarrow> in_flight i (ms_points s vm) \<Longrightarrow> mx_active (mr_mutexes (ms_registry s) i)"
  using tally_pos [of vm vms "in_flight i" "ms_points s"] mutex_inv_slot [of ceiling vms s i]
  by (auto simp: slot_ok_def split: if_splits)

text \<open>A step of one VM at one slot: the counts follow its point, and only its own hold may change.\<close>

lemma local_step_inv:
  assumes inv: "mutex_inv ceiling vms s" and vm: "vm < vms"
    and r: "ms_registry s' = (set_mutex i m' (ms_registry s))\<lparr>mr_held := (mr_held (ms_registry s))(vm := h)\<rparr>"
    and p: "ms_points s' = (ms_points s)(vm := p')"
    and b: "ms_balance s' = (ms_balance s)(vm := (ms_balance s vm)(i := b'))"
    and other: "\<And>j. j \<noteq> i \<Longrightarrow> in_flight j p' = in_flight j (ms_points s vm)" "\<And>j. j \<noteq> i \<Longrightarrow> waiting j p' = waiting j (ms_points s vm)"
    and m: "m = mr_mutexes (ms_registry s) i"
    and active: "mx_active m" "mx_active m'" "mx_initialized m' = mx_initialized m"
    and users: "mx_users m' = mx_users m - of_bool (in_flight i (ms_points s vm)) + of_bool (in_flight i p')"
    and waiters: "mx_waiters m' = mx_waiters m - of_bool (waiting i (ms_points s vm)) + of_bool (waiting i p')"
    and holder: "holder_ok vms (ms_balance s') i m'"
      "\<And>v. v \<noteq> vm \<Longrightarrow> mx_holder m' = Some v \<longleftrightarrow> mx_holder m = Some v"
    and h: "h = mr_held (ms_registry s) vm - of_bool (mx_holder m = Some vm) + of_bool (mx_holder m' = Some vm)"
  shows "mutex_inv ceiling vms s'"
proof -
  let ?r = "ms_registry s"
  have here: "slot_ok vms (ms_points s) (ms_balance s) (mr_count ?r) i m" using mutex_inv_slot [OF inv] by (simp add: m)
  then have i: "i < mr_count ?r" using active(1) by (simp add: slot_ok_def)
  then have ic: "i < ceiling" using inv by (simp add: mutex_inv_def)
  have count: "mr_count (ms_registry s') = mr_count ?r" by (simp add: r)
  have same: "slot_ok vms (ms_points s') (ms_balance s') (mr_count ?r) i m'"
    using here active users waiters holder(1) by (simp add: slot_ok_def p tally_update [OF vm])
  have elsewhere: "slot_ok vms (ms_points s') (ms_balance s') (mr_count ?r) j (mr_mutexes ?r j)" if j: "j \<noteq> i" for j
  proof -
    have "holder_ok vms (ms_balance s') j (mr_mutexes ?r j) = holder_ok vms (ms_balance s) j (mr_mutexes ?r j)"
    proof -
      have "ms_balance s' v j = ms_balance s v j" for v using j by (simp add: b)
      then show ?thesis by (simp add: holder_ok_def split: option.split)
    qed
    then show ?thesis using mutex_inv_slot [OF inv, of j] other [OF j]
      by (simp add: slot_ok_def p tally_update [OF vm] split: if_splits)
  qed
  have "slot_ok vms (ms_points s') (ms_balance s') (mr_count (ms_registry s')) j (mr_mutexes (ms_registry s') j)" for j
    using same elsewhere [of j] by (cases "j = i") (simp_all add: r)
  moreover have "mr_held (ms_registry s') v = tally ceiling (\<lambda>m. mx_holder m = Some v) (mr_mutexes (ms_registry s'))" for v
    using inv holder(2) [of v] h by (cases "v = vm") (simp_all add: r mutex_inv_def tally_update [OF ic] m)
  ultimately show ?thesis using inv by (simp add: mutex_inv_def count)
qed

lemma resumes_in_flight: "resumes p i how \<Longrightarrow> in_flight i p"
  by (cases "(p, i, how)" rule: resumes.cases) auto

lemma resumes_waiting: "resumes p i how \<Longrightarrow> waiting i p \<longleftrightarrow> (\<exists>status. how = Woken status)"
  by (cases "(p, i, how)" rule: resumes.cases) (auto simp: waiting_def)

lemma resumes_elsewhere: "resumes p i how \<Longrightarrow> j \<noteq> i \<Longrightarrow> \<not> in_flight j p"
  by (cases "(p, i, how)" rule: resumes.cases) auto

lemma begin_use_inv:
  assumes inv: "mutex_inv ceiling vms s" and vm: "vm < vms" "ms_points s vm = AtRest"
    and use: "vmMutexBeginUse mid (ms_registry s) = Some (i, r)"
    and p: "p' = LockBegun i \<or> p' = UnlockBegun i"
  shows "mutex_inv ceiling vms (point_at vm p' (s\<lparr>ms_registry := r\<rparr>))"
proof (rule local_step_inv [OF inv vm(1), where i = i and p' = p' and b' = "ms_balance s vm i"
      and h = "mr_held (ms_registry s) vm" and m' = "(mr_mutexes (ms_registry s) i)\<lparr>mx_users := mx_users (mr_mutexes (ms_registry s) i) + 1\<rparr>"])
  have i: "i = nat mid" "mx_active (mr_mutexes (ms_registry s) i)"
    "r = set_mutex i ((mr_mutexes (ms_registry s) i)\<lparr>mx_users := mx_users (mr_mutexes (ms_registry s) i) + 1\<rparr>) (ms_registry s)"
    using use by (auto simp: vmMutexBeginUse_def valid_id_def Let_def split: if_splits)
  show "mx_active (mr_mutexes (ms_registry s) i)" by (fact i(2))
  show "holder_ok vms (ms_balance (point_at vm p' (s\<lparr>ms_registry := r\<rparr>))) i
      ((mr_mutexes (ms_registry s) i)\<lparr>mx_users := mx_users (mr_mutexes (ms_registry s) i) + 1\<rparr>)"
    using mutex_inv_slot [OF inv, of i] by (simp add: slot_ok_def holder_ok_def split: option.splits)
qed (use vm p use in \<open>auto simp: vmMutexBeginUse_def Let_def valid_id_def waiting_def split: if_splits\<close>)

lemma end_use_inv:
  assumes inv: "mutex_inv ceiling vms s" and vm: "vm < vms" "ms_points s vm = Ending i"
  shows "mutex_inv ceiling vms (point_at vm AtRest (s\<lparr>ms_registry := vmMutexEndUse i (ms_registry s)\<rparr>))"
proof (rule local_step_inv [OF inv vm(1), where i = i and p' = AtRest and b' = "ms_balance s vm i"
      and h = "mr_held (ms_registry s) vm" and m' = "(mr_mutexes (ms_registry s) i)\<lparr>mx_users := mx_users (mr_mutexes (ms_registry s) i) - 1\<rparr>"])
  have act: "mx_active (mr_mutexes (ms_registry s) i)" using in_flight_active [OF inv vm(1)] vm(2) by simp
  then show "mx_active (mr_mutexes (ms_registry s) i)"
    "mx_active ((mr_mutexes (ms_registry s) i)\<lparr>mx_users := mx_users (mr_mutexes (ms_registry s) i) - 1\<rparr>)" by simp_all
  show "holder_ok vms (ms_balance (point_at vm AtRest (s\<lparr>ms_registry := vmMutexEndUse i (ms_registry s)\<rparr>))) i
      ((mr_mutexes (ms_registry s) i)\<lparr>mx_users := mx_users (mr_mutexes (ms_registry s) i) - 1\<rparr>)"
    using mutex_inv_slot [OF inv, of i] by (simp add: slot_ok_def holder_ok_def split: option.splits)
qed (use vm in \<open>auto simp: vmMutexEndUse_def Let_def waiting_def\<close>)

lemma unlock_inv:
  assumes inv: "mutex_inv ceiling vms s" and vm: "vm < vms" "ms_points s vm = UnlockBegun i"
  shows "mutex_inv ceiling vms (after_unlock vm i (unlockMutex vm i (ms_registry s)) s)"
proof -
  let ?m = "mr_mutexes (ms_registry s) i"
  have act: "mx_active ?m" using in_flight_active [OF inv vm(1)] vm(2) by simp
  have hold: "holder_ok vms (ms_balance s) i ?m" using mutex_inv_slot [OF inv, of i] by (simp add: slot_ok_def)
  consider "mx_holder ?m \<noteq> Some vm" | "mx_holder ?m = Some vm" "mx_depth ?m - 1 \<le> 0" | "mx_holder ?m = Some vm" "\<not> mx_depth ?m - 1 \<le> 0"
    by blast
  then show ?thesis
  proof cases
    case 1
    show ?thesis
      by (rule local_step_inv [OF inv vm(1), where i = i and p' = "Ending i" and b' = "ms_balance s vm i"
            and h = "mr_held (ms_registry s) vm" and m' = ?m and m = ?m])
        (use 1 vm act hold in \<open>auto simp: after_unlock_def unlockMutex_def Let_def waiting_def\<close>)
  next
    case 2
    show ?thesis
      by (rule local_step_inv [OF inv vm(1), where i = i and p' = "Ending i" and b' = "ms_balance s vm i - 1"
            and h = "mr_held (ms_registry s) vm - 1" and m' = "?m\<lparr>mx_holder := None, mx_depth := 0\<rparr>" and m = ?m])
        (use 2 vm act hold in \<open>auto simp: after_unlock_def unlockMutex_def Let_def waiting_def holder_ok_def\<close>)
  next
    case 3
    show ?thesis
      by (rule local_step_inv [OF inv vm(1), where i = i and p' = "Ending i" and b' = "ms_balance s vm i - 1"
            and h = "mr_held (ms_registry s) vm" and m' = "?m\<lparr>mx_depth := mx_depth ?m - 1\<rparr>" and m = ?m])
        (use 3 vm act hold in \<open>auto simp: after_unlock_def unlockMutex_def Let_def waiting_def holder_ok_def\<close>)
  qed
qed

text \<open>The sections of a lock, by what they do to the slot.\<close>

lemma acquire_inv:
  assumes inv: "mutex_inv ceiling vms s" and vm: "vm < vms" "resumes (ms_points s vm) i how"
    and free: "mx_holder (mr_mutexes (ms_registry s) i) = None"
    and w: "w = mx_waiters (mr_mutexes (ms_registry s) i) - of_bool (waiting i (ms_points s vm))"
  shows "mutex_inv ceiling vms (after_lock vm i (Returned VM_MUTEX_OK,
    lock_acquire vm i (set_mutex i ((mr_mutexes (ms_registry s) i)\<lparr>mx_waiters := w\<rparr>) (ms_registry s))) s)"
proof -
  let ?m = "mr_mutexes (ms_registry s) i"
  have fl: "in_flight i (ms_points s vm)" using resumes_in_flight [OF vm(2)] .
  have act: "mx_active ?m" using in_flight_active [OF inv vm(1) fl] .
  have hold: "holder_ok vms (ms_balance s) i ?m" using mutex_inv_slot [OF inv, of i] by (simp add: slot_ok_def)
  show ?thesis
    by (rule local_step_inv [OF inv vm(1), where i = i and p' = "Ending i" and b' = "ms_balance s vm i + 1"
          and h = "mr_held (ms_registry s) vm + 1" and m' = "?m\<lparr>mx_waiters := w, mx_holder := Some vm, mx_depth := 1\<rparr>" and m = ?m])
      (use vm(1) fl act hold free resumes_elsewhere [OF vm(2)] waiting_in_flight in
        \<open>auto simp: after_lock_def lock_acquire_def Let_def holder_ok_def w waiting_def\<close>)
qed

lemma lock_keeps_slot_inv:
  assumes inv: "mutex_inv ceiling vms s" and vm: "vm < vms" "resumes (ms_points s vm) i how"
    and e: "e \<noteq> Returned VM_MUTEX_OK"
    and w: "w = mx_waiters (mr_mutexes (ms_registry s) i) - of_bool (waiting i (ms_points s vm)) + of_bool (e = Paused ToWait)"
  shows "mutex_inv ceiling vms (after_lock vm i (e,
    set_mutex i ((mr_mutexes (ms_registry s) i)\<lparr>mx_waiters := w\<rparr>) (ms_registry s)) s)"
proof -
  let ?m = "mr_mutexes (ms_registry s) i"
  let ?p = "case e of Paused p \<Rightarrow> LockPaused i p | Returned _ \<Rightarrow> Ending i"
  have fl: "in_flight i (ms_points s vm)" using resumes_in_flight [OF vm(2)] .
  have act: "mx_active ?m" using in_flight_active [OF inv vm(1) fl] .
  have hold: "holder_ok vms (ms_balance s) i ?m" using mutex_inv_slot [OF inv, of i] by (simp add: slot_ok_def)
  have p: "in_flight j ?p \<longleftrightarrow> j = i" "waiting j ?p \<longleftrightarrow> j = i \<and> e = Paused ToWait" for j
    by (cases e; auto simp: waiting_def)+
  have old: "in_flight j (ms_points s vm) \<longleftrightarrow> j = i" "waiting j (ms_points s vm) \<longrightarrow> j = i" for j
    using fl resumes_elsewhere [OF vm(2)] waiting_in_flight by auto
  define s' where "s' = after_lock vm i (e, set_mutex i (?m\<lparr>mx_waiters := w\<rparr>) (ms_registry s)) s"
  have st: "ms_registry s' = set_mutex i (?m\<lparr>mx_waiters := w\<rparr>) (ms_registry s)"
    "ms_points s' = (ms_points s)(vm := ?p)" "ms_balance s' = ms_balance s"
    using e by (cases e; auto simp: s'_def after_lock_def Let_def)+
  have "mutex_inv ceiling vms s'"
  proof (rule local_step_inv [OF inv vm(1), where i = i and p' = ?p and b' = "ms_balance s vm i"
        and h = "mr_held (ms_registry s) vm" and m' = "?m\<lparr>mx_waiters := w\<rparr>" and m = ?m])
    show "holder_ok vms (ms_balance s') i (?m\<lparr>mx_waiters := w\<rparr>)"
      using hold by (simp add: st holder_ok_def split: option.splits)
  qed (use act old in \<open>auto simp: p w st\<close>)
  then show ?thesis by (simp add: s'_def)
qed

lemma recursive_inv:
  assumes inv: "mutex_inv ceiling vms s" and vm: "vm < vms" "resumes (ms_points s vm) i Started"
    and own: "mx_holder (mr_mutexes (ms_registry s) i) = Some vm" "mx_recursive (mr_mutexes (ms_registry s) i)"
  shows "mutex_inv ceiling vms (after_lock vm i (Returned VM_MUTEX_OK,
    set_mutex i ((mr_mutexes (ms_registry s) i)\<lparr>mx_depth := mx_depth (mr_mutexes (ms_registry s) i) + 1\<rparr>) (ms_registry s)) s)"
proof -
  let ?m = "mr_mutexes (ms_registry s) i"
  have fl: "in_flight i (ms_points s vm)" using resumes_in_flight [OF vm(2)] .
  have act: "mx_active ?m" using in_flight_active [OF inv vm(1) fl] .
  have hold: "holder_ok vms (ms_balance s) i ?m" using mutex_inv_slot [OF inv, of i] by (simp add: slot_ok_def)
  show ?thesis
    by (rule local_step_inv [OF inv vm(1), where i = i and p' = "Ending i" and b' = "ms_balance s vm i + 1"
          and h = "mr_held (ms_registry s) vm" and m' = "?m\<lparr>mx_depth := mx_depth ?m + 1\<rparr>" and m = ?m])
      (use vm(1) fl act hold own resumes_elsewhere [OF vm(2)] waiting_in_flight resumes_waiting [OF vm(2)] in
        \<open>auto simp: after_lock_def Let_def holder_ok_def waiting_def\<close>)
qed

lemma set_same: "set_mutex i (mr_mutexes r i) r = r" by simp

lemma lock_inv:
  assumes inv: "mutex_inv ceiling vms s" and vm: "vm < vms" "resumes (ms_points s vm) i how"
  shows "mutex_inv ceiling vms (after_lock vm i (lockMutex how vm i (ms_registry s)) s)"
proof -
  let ?m = "mr_mutexes (ms_registry s) i" and ?r = "ms_registry s"
  note wt = resumes_waiting [OF vm(2)]
  have keep: "mutex_inv ceiling vms (after_lock vm i (e, ?r) s)"
    if "e \<noteq> Returned VM_MUTEX_OK" "e \<noteq> Paused ToWait" "\<not> waiting i (ms_points s vm)" for e
    using lock_keeps_slot_inv [OF inv vm that(1) refl] that by simp
  have loop: "mutex_inv ceiling vms (after_lock vm i (lock_loop vm i ?r) s)" if nw: "\<not> waiting i (ms_points s vm)"
  proof (cases "mx_holder ?m = None")
    case True
    then show ?thesis using acquire_inv [OF inv vm True refl] nw by (simp add: lock_loop_def Let_def)
  next
    case False
    then show ?thesis using lock_keeps_slot_inv [OF inv vm _ refl, of "Paused ToWait"] nw by (simp add: lock_loop_def Let_def)
  qed
  show ?thesis
  proof (cases how)
    case Started
    then have nw: "\<not> waiting i (ms_points s vm)" using wt by simp
    consider "mx_holder ?m = Some vm" "mx_recursive ?m" | "mx_holder ?m = Some vm" "\<not> mx_recursive ?m" | "mx_holder ?m \<noteq> Some vm" by blast
    then show ?thesis
    proof cases
      case 1
      then show ?thesis using recursive_inv [OF inv vm(1) vm(2) [unfolded Started]] Started by (simp add: Let_def)
    next
      case 2
      then show ?thesis using keep [of "Returned VM_MUTEX_DEADLOCK"] nw Started by simp
    next
      case 3
      then show ?thesis using loop [OF nw] Started by simp
    qed
  next
    case (Polled interrupted)
    then have nw: "\<not> waiting i (ms_points s vm)" using wt by simp
    then show ?thesis using keep [of "Returned VM_MUTEX_INTERRUPTED"] loop Polled by simp
  next
    case (Woken status)
    then have w: "waiting i (ms_points s vm)" using wt by simp
    consider "mx_holder ?m = None" | "mx_holder ?m \<noteq> None" "status = WaitSignalled" | "mx_holder ?m \<noteq> None" "status \<noteq> WaitSignalled"
      by blast
    then show ?thesis
    proof cases
      case 1
      then show ?thesis using acquire_inv [OF inv vm 1 refl] w Woken by (simp add: Let_def)
    next
      case 2
      then show ?thesis using lock_keeps_slot_inv [OF inv vm _ refl, of "Paused ToWait"] w Woken
        by (auto simp: Let_def lock_loop_def)
    next
      case 3
      then show ?thesis using lock_keeps_slot_inv [OF inv vm _ refl, of "Paused ToPoll"] w Woken by (auto simp: Let_def)
    qed
  qed
qed

lemma inactive_slot_Some: "inactive_slot ms is = Some i \<Longrightarrow> i \<in> set is \<and> \<not> mx_active (ms i)"
  by (induction "is") (auto split: if_splits)

lemma idle_slot:
  assumes "mutex_inv ceiling vms s" "\<not> mx_active (mr_mutexes (ms_registry s) i)"
  shows "mx_users (mr_mutexes (ms_registry s) i) = 0 \<and> tally vms (in_flight i) (ms_points s) = 0
    \<and> tally vms (waiting i) (ms_points s) = 0 \<and> mx_holder (mr_mutexes (ms_registry s) i) = None \<and> ms_balance s v i = 0"
proof -
  note slot = mutex_inv_slot [OF assms(1), of i, unfolded slot_ok_def holder_ok_def]
  have users: "tally vms (in_flight i) (ms_points s) = 0" using slot assms(2) by auto
  have "\<not> waiting i (ms_points s k)" if "k < vms" for k
    using tally_le_zero [OF _ that, of "in_flight i" "ms_points s"] users waiting_in_flight by auto
  then have "tally vms (waiting i) (ms_points s) = 0" by (rule tally_zero)
  moreover have "mx_holder (mr_mutexes (ms_registry s) i) = None" using slot assms(2) by (auto split: option.splits)
  ultimately show ?thesis using slot users assms(2) by auto
qed

lemma create_inv:
  assumes inv: "mutex_inv ceiling vms s"
  shows "mutex_inv ceiling vms (s\<lparr>ms_registry := snd (createMutex ceiling can_grow can_init recursive (ms_registry s))\<rparr>)"
proof (cases "fst (createMutex ceiling can_grow can_init recursive (ms_registry s))")
  case None
  then have "snd (createMutex ceiling can_grow can_init recursive (ms_registry s)) = ms_registry s"
    by (auto simp: createMutex_def Let_def split: if_splits)
  then show ?thesis using inv by simp
next
  case (Some i)
  let ?r = "ms_registry s"
  let ?m = "(mr_mutexes ?r i)\<lparr>mx_initialized := True, mx_recursive := recursive, mx_holder := None, mx_depth := 0,
    mx_waiters := 0, mx_active := True\<rparr>"
  let ?n = "if i = mr_count ?r then mr_count ?r + 1 else mr_count ?r"
  let ?slot = "inactive_slot (mr_mutexes ?r) [0..<mr_count ?r]"
  have i: "i = (case ?slot of Some i \<Rightarrow> i | None \<Rightarrow> mr_count ?r)" and grow: "?slot = None \<Longrightarrow> mr_count ?r < ceiling"
    and r': "snd (createMutex ceiling can_grow can_init recursive ?r) = (set_mutex i ?m ?r)\<lparr>mr_count := ?n\<rparr>"
    using Some by (auto simp: createMutex_def Let_def split: if_splits)
  have le: "mr_count ?r \<le> ceiling" using inv by (simp add: mutex_inv_def)
  have idle: "\<not> mx_active (mr_mutexes ?r i)" "i < ?n" "?n \<le> ceiling"
  proof -
    have "\<not> mx_active (mr_mutexes ?r (mr_count ?r))"
      using mutex_inv_slot [OF inv, of "mr_count ?r"] by (auto simp: slot_ok_def split: if_splits)
    then show "\<not> mx_active (mr_mutexes ?r i)" "i < ?n" "?n \<le> ceiling"
      using i grow le inactive_slot_Some [of "mr_mutexes ?r" "[0..<mr_count ?r]"] by (auto split: option.splits)
  qed
  note free = idle_slot [OF inv idle(1)]
  have "slot_ok vms (ms_points s) (ms_balance s) ?n j (((mr_mutexes ?r)(i := ?m)) j)" for j
  proof (cases "j = i")
    case True
    then show ?thesis using free idle(2) by (simp add: slot_ok_def holder_ok_def)
  next
    case False
    then show ?thesis using mutex_inv_slot [OF inv, of j] by (auto simp: slot_ok_def split: if_splits)
  qed
  moreover have "mr_held ?r v = tally ceiling (\<lambda>m. mx_holder m = Some v) ((mr_mutexes ?r)(i := ?m))" for v
    using inv free idle by (simp add: tally_update mutex_inv_def)
  ultimately show ?thesis using idle(3) by (simp add: mutex_inv_def r')
qed

lemma shrink_count_le: "shrink_count ms n \<le> n"
  by (induction ms n rule: shrink_count.induct) auto

lemma shrink_count_active: "j < n \<Longrightarrow> mx_active (ms j) \<Longrightarrow> j < shrink_count ms n"
  by (induction ms n rule: shrink_count.induct) (auto simp: less_Suc_eq)

lemma destroy_inv:
  assumes inv: "mutex_inv ceiling vms s"
  shows "mutex_inv ceiling vms (s\<lparr>ms_registry := snd (destroyMutex mid (ms_registry s))\<rparr>)"
proof (cases "fst (destroyMutex mid (ms_registry s)) = VM_MUTEX_OK")
  case False
  then have "snd (destroyMutex mid (ms_registry s)) = ms_registry s"
    by (auto simp: destroyMutex_def Let_def split: if_splits)
  then show ?thesis using inv by simp
next
  case True
  let ?r = "ms_registry s"
  define i where "i = nat mid"
  let ?m = "(mr_mutexes ?r i)\<lparr>mx_active := False\<rparr>"
  let ?ms = "(mr_mutexes ?r)(i := ?m)"
  have ok: "valid_id mid ?r" "mx_holder (mr_mutexes ?r i) = None" "\<not> 0 < mx_users (mr_mutexes ?r i)"
    and r': "snd (destroyMutex mid ?r) = (set_mutex i ?m ?r)\<lparr>mr_count := shrink_count ?ms (mr_count ?r)\<rparr>"
    using True by (auto simp: destroyMutex_def Let_def i_def split: if_splits)
  have act: "mx_active (mr_mutexes ?r i)" "i < mr_count ?r" using ok(1) by (auto simp: valid_id_def i_def)
  have le: "mr_count ?r \<le> ceiling" using inv by (simp add: mutex_inv_def)
  have unused: "mx_users (mr_mutexes ?r i) = 0"
    using ok(3) mutex_inv_slot [OF inv, of i] tally_nonneg [of vms "in_flight i" "ms_points s"] by (simp add: slot_ok_def)
  have "slot_ok vms (ms_points s) (ms_balance s) (shrink_count ?ms (mr_count ?r)) j (?ms j)" for j
  proof (cases "j = i")
    case True
    then show ?thesis using mutex_inv_slot [OF inv, of i] unused ok(2) by (simp add: slot_ok_def holder_ok_def)
  next
    case False
    have "mx_active (mr_mutexes ?r j) \<Longrightarrow> j < mr_count ?r \<Longrightarrow> j < shrink_count ?ms (mr_count ?r)"
      using False by (intro shrink_count_active) simp_all
    then show ?thesis using False mutex_inv_slot [OF inv, of j] by (auto simp: slot_ok_def split: if_splits)
  qed
  moreover have "mr_held ?r v = tally ceiling (\<lambda>m. mx_holder m = Some v) ?ms" for v
    using inv ok(2) act(2) le by (simp add: tally_update mutex_inv_def)
  ultimately show ?thesis using le shrink_count_le [of ?ms "mr_count ?r"] by (simp add: mutex_inv_def r')
qed

lemma job_ends_inv:
  assumes inv: "mutex_inv ceiling vms s"
  shows "mutex_inv ceiling vms (s\<lparr>ms_registry := vmReleaseHeldMutexes vm (ms_registry s), ms_balance := (ms_balance s)(vm := (\<lambda>_. 0))\<rparr>)"
proof -
  let ?r = "ms_registry s"
  let ?free = "\<lambda>m. if mx_holder m = Some vm then m\<lparr>mx_holder := None, mx_depth := 0\<rparr> else m"
  have held: "mx_active (mr_mutexes ?r i) \<and> mx_initialized (mr_mutexes ?r i) \<and> i < mr_count ?r"
    if "mx_holder (mr_mutexes ?r i) = Some vm" for i
    using mutex_inv_slot [OF inv, of i] that by (auto simp: slot_ok_def holder_ok_def)
  have le: "mr_count ?r \<le> ceiling" using inv by (simp add: mutex_inv_def)
  have ms: "mr_mutexes (vmReleaseHeldMutexes vm ?r) i = ?free (mr_mutexes ?r i)" for i
  proof (cases "mr_held ?r vm \<le> 0")
    case True
    then have "tally ceiling (\<lambda>m. mx_holder m = Some vm) (mr_mutexes ?r) \<le> 0" using inv by (simp add: mutex_inv_def)
    then have "mx_holder (mr_mutexes ?r i) \<noteq> Some vm"
      using tally_le_zero [of ceiling "\<lambda>m. mx_holder m = Some vm" "mr_mutexes ?r" i] held [of i] le by auto
    then show ?thesis using True by (simp add: vmReleaseHeldMutexes_def)
  next
    case False
    then show ?thesis using held [of i] by (auto simp: vmReleaseHeldMutexes_def Let_def)
  qed
  have none: "tally ceiling (\<lambda>m. mx_holder m = Some vm) (\<lambda>i. ?free (mr_mutexes ?r i)) = 0" by (rule tally_zero) auto
  have held': "mr_held (vmReleaseHeldMutexes vm ?r) = (mr_held ?r)(vm := 0)"
  proof (cases "mr_held ?r vm \<le> 0")
    case True
    moreover have "0 \<le> mr_held ?r vm" using inv tally_nonneg by (simp add: mutex_inv_def)
    ultimately show ?thesis by (auto simp: vmReleaseHeldMutexes_def)
  qed (simp add: vmReleaseHeldMutexes_def)
  have "slot_ok vms (ms_points s) ((ms_balance s)(vm := (\<lambda>_. 0))) (mr_count ?r) i (?free (mr_mutexes ?r i))" for i
    using mutex_inv_slot [OF inv, of i] by (auto simp: slot_ok_def holder_ok_def split: option.splits if_splits)
  moreover have "((mr_held ?r)(vm := 0)) v = tally ceiling (\<lambda>m. mx_holder m = Some v) (\<lambda>i. ?free (mr_mutexes ?r i))" for v
  proof (cases "v = vm")
    case True
    then show ?thesis using none by simp
  next
    case False
    then have "tally ceiling (\<lambda>m. mx_holder m = Some v) (\<lambda>i. ?free (mr_mutexes ?r i))
        = tally ceiling (\<lambda>m. mx_holder m = Some v) (mr_mutexes ?r)"
      by (intro tally_cong) auto
    then show ?thesis using False inv by (simp add: mutex_inv_def)
  qed
  moreover have "mr_count (vmReleaseHeldMutexes vm ?r) = mr_count ?r" by (simp add: vmReleaseHeldMutexes_def)
  moreover have "mr_mutexes (vmReleaseHeldMutexes vm ?r) = (\<lambda>i. ?free (mr_mutexes ?r i))" using ms by (rule ext)
  ultimately show ?thesis using le by (simp add: mutex_inv_def held')
qed

lemma mutex_step_inv: "mutex_step ceiling vms s t \<Longrightarrow> mutex_inv ceiling vms s \<Longrightarrow> mutex_inv ceiling vms t"
proof (induction rule: mutex_step.induct)
  case (begin_lock vm s mid i r)
  then show ?case by (intro begin_use_inv) simp_all
next
  case (lock vm s i how)
  then show ?case by (intro lock_inv)
next
  case (begin_unlock vm s mid i r)
  then show ?case by (intro begin_use_inv) simp_all
next
  case (unlock vm s i)
  then show ?case by (intro unlock_inv)
next
  case (end_use vm s i)
  then show ?case by (intro end_use_inv)
next
  case (create vm s can_grow can_init recursive)
  then show ?case by (intro create_inv)
next
  case (destroy vm s mid)
  then show ?case by (intro destroy_inv)
next
  case (job_ends vm s)
  then show ?case by (intro job_ends_inv)
qed

lemma mutex_reach_inv: "mutex_reach ceiling vms s t \<Longrightarrow> mutex_inv ceiling vms s \<Longrightarrow> mutex_inv ceiling vms t"
  by (induction rule: rtranclp_induct) (auto intro: mutex_step_inv)

lemma balance_holder:
  assumes "mutex_inv ceiling vms s"
  shows "0 < ms_balance s v i \<longleftrightarrow> mx_holder (mr_mutexes (ms_registry s) i) = Some v"
  using mutex_inv_slot [OF assms, of i] by (auto simp: slot_ok_def holder_ok_def split: option.splits if_splits)

subsection \<open>What the mutexes promise\<close>

text \<open>C21: however the VMs interleave their calls, a mutex excludes. Call a VM a holder of a mutex while it has
  had more successful locks of it than successful unlocks since its last job ended. Then a mutex has at most
  one holder, which holds it once when it is not recursive, as deeply as the slot records, and never a
  negative number of times; a held mutex exists, and so does one with a lock or unlock in flight, so no slot
  is destroyed or handed out again under a VM that holds it, waits for it or is about to; and the count with
  which a VM decides whether its job left mutexes behind is the number of mutexes it holds.\<close>
theorem mutexes_exclude:
  assumes "mutex_reach ceiling vms mutex_start s"
  shows "(0 < ms_balance s v i \<and> 0 < ms_balance s w i \<longrightarrow> v = w)
    \<and> 0 \<le> ms_balance s v i
    \<and> (0 < ms_balance s v i \<longrightarrow>
         mx_active (mr_mutexes (ms_registry s) i) \<and> mx_depth (mr_mutexes (ms_registry s) i) = ms_balance s v i
         \<and> (mx_recursive (mr_mutexes (ms_registry s) i) \<or> ms_balance s v i = 1))
    \<and> (v < vms \<and> in_flight i (ms_points s v) \<longrightarrow> mx_active (mr_mutexes (ms_registry s) i))
    \<and> mr_held (ms_registry s) v = int (card {i. 0 < ms_balance s v i})"
proof -
  have inv: "mutex_inv ceiling vms s" using mutex_reach_inv [OF assms mutex_start_inv] .
  note slot = mutex_inv_slot [OF inv, unfolded slot_ok_def holder_ok_def]
  have hold: "0 < ms_balance s v i \<longrightarrow>
         mx_active (mr_mutexes (ms_registry s) i) \<and> mx_depth (mr_mutexes (ms_registry s) i) = ms_balance s v i
         \<and> (mx_recursive (mr_mutexes (ms_registry s) i) \<or> ms_balance s v i = 1)"
    using slot [of i] by (auto split: option.splits if_splits)
  have nonneg: "0 \<le> ms_balance s v i" using slot [of i] by (auto split: option.splits if_splits)
  have below: "i < ceiling" if "0 < ms_balance s v i" for i
  proof -
    have "mx_active (mr_mutexes (ms_registry s) i)"
      using slot [of i] that by (auto split: option.splits if_splits)
    then have "i < mr_count (ms_registry s)" using slot [of i] by simp
    then show ?thesis using inv by (simp add: mutex_inv_def)
  qed
  have "mr_held (ms_registry s) v = tally ceiling (\<lambda>m. mx_holder m = Some v) (mr_mutexes (ms_registry s))"
    using inv by (simp add: mutex_inv_def)
  also have "\<dots> = (\<Sum>i<ceiling. of_bool (0 < ms_balance s v i))"
    unfolding tally_def by (simp add: balance_holder [OF inv])
  also have "\<dots> = int (card {i. i < ceiling \<and> 0 < ms_balance s v i})"
    by (simp add: of_bool_def sum.If_cases Int_def lessThan_def)
  also have "{i. i < ceiling \<and> 0 < ms_balance s v i} = {i. 0 < ms_balance s v i}" using below by auto
  finally have count: "mr_held (ms_registry s) v = int (card {i. 0 < ms_balance s v i})" .
  have "0 < ms_balance s v i \<and> 0 < ms_balance s w i \<longrightarrow> v = w" by (auto simp: balance_holder [OF inv])
  then show ?thesis using hold nonneg count in_flight_active [OF inv, of v i] by blast
qed

text \<open>VM 1 creates a mutex and locks it.\<close>

definition example_locked :: mutex_state where
  "example_locked =
     (let s = mutex_start\<lparr>ms_registry := snd (createMutex 4096 True True False (ms_registry mutex_start))\<rparr>;
          s = point_at 1 (LockBegun 0) (s\<lparr>ms_registry := snd (the (vmMutexBeginUse 0 (ms_registry s)))\<rparr>)
      in after_lock 1 0 (lockMutex Started 1 0 (ms_registry s)) s)"

lemma example_locked_reach: "mutex_reach 4096 2 mutex_start example_locked"
proof -
  let ?s1 = "mutex_start\<lparr>ms_registry := snd (createMutex 4096 True True False (ms_registry mutex_start))\<rparr>"
  let ?s2 = "point_at 1 (LockBegun 0) (?s1\<lparr>ms_registry := snd (the (vmMutexBeginUse 0 (ms_registry ?s1)))\<rparr>)"
  have "mutex_step 4096 2 mutex_start ?s1" by (rule mutex_step.create [where vm = 0]) (simp_all add: mutex_start_def)
  moreover have "mutex_step 4096 2 ?s1 ?s2"
    by (rule mutex_step.begin_lock [where mid = 0])
      (simp_all add: mutex_start_def createMutex_def vmMutexBeginUse_def valid_id_def Let_def zero_mutex_def)
  moreover have "mutex_step 4096 2 ?s2 (after_lock 1 0 (lockMutex Started 1 0 (ms_registry ?s2)) ?s2)"
    by (rule mutex_step.lock) simp_all
  ultimately show ?thesis unfolding example_locked_def Let_def by (meson converse_rtranclp_into_rtranclp rtranclp.rtrancl_refl)
qed

lemma mutexes_exclude_witness:
  "mx_active (mr_mutexes (ms_registry example_locked) 0) \<and> mx_depth (mr_mutexes (ms_registry example_locked) 0) = 1
   \<and> \<not> 0 < ms_balance example_locked 0 0 \<and> mr_held (ms_registry example_locked) 1 = int (card {i. 0 < ms_balance example_locked 1 i})"
proof -
  have "ms_balance example_locked 1 0 = 1"
    by (simp add: example_locked_def mutex_start_def createMutex_def vmMutexBeginUse_def valid_id_def Let_def
        zero_mutex_def after_lock_def lock_loop_def lock_acquire_def)
  then show ?thesis
    using mutexes_exclude [OF example_locked_reach, of 1 0 0] by auto
qed

end
