(* ===== verification/VmSet.thy ===== *)
theory VmSet
  imports VmMutex
begin

section \<open>Sets of ordinals\<close>

text \<open>
  \<open>SetObj\<close> (\<open>core/types.h\<close>) and what the machine does with it: the constructors, membership and subset test of
  \<open>vm/vm.c\<close>, union, difference and intersection of \<open>core/utils.c\<close>, and the instructions \<open>MAKE_SET_SINGLETON\<close>,
  \<open>MAKE_SET_RANGE\<close>, \<open>IN\<close>, the set branch of \<open>BINARY_OP\<close> and the set branch of the comparisons. An ordinal is a
  \<open>long long\<close>. The model keeps the used cells of the array and its capacity; growing a result set never fails
  here (the code ends the process), and the one allocation whose failure is an answer is a parameter.
\<close>

record SetObj =
  so_values :: "int list"
  so_capacity :: nat

definition pscalSetObjCreate :: SetObj where
  "pscalSetObjCreate = \<lparr>so_values = [], so_capacity = 0\<rparr>"

fun contains_loop :: "int list \<Rightarrow> int \<Rightarrow> bool" where
  "contains_loop [] ordinal = False"
| "contains_loop (v # vs) ordinal = (v = ordinal \<or> contains_loop vs ordinal)"

definition setContainsOrdinalUtil :: "SetObj \<Rightarrow> int \<Rightarrow> bool" where
  "setContainsOrdinalUtil s ordinal = contains_loop (so_values s) ordinal"

definition set_append :: "SetObj \<Rightarrow> int \<Rightarrow> SetObj" where
  "set_append s ordinal =
     (let s = (if so_capacity s \<le> length (so_values s)
               then s\<lparr>so_capacity := (if so_capacity s = 0 then 8 else so_capacity s * 2)\<rparr> else s)
      in s\<lparr>so_values := so_values s @ [ordinal]\<rparr>)"

definition addOrdinalToResultSetUtil :: "int \<Rightarrow> SetObj \<Rightarrow> SetObj" where
  "addOrdinalToResultSetUtil ordinal s = (if setContainsOrdinalUtil s ordinal then s else set_append s ordinal)"

definition vmAddOrdinalToSet :: "SetObj \<Rightarrow> int \<Rightarrow> SetObj" where
  "vmAddOrdinalToSet s ordinal = (if contains_loop (so_values s) ordinal then s else set_append s ordinal)"

definition setUnion :: "SetObj \<Rightarrow> SetObj \<Rightarrow> SetObj" where
  "setUnion a b =
     (let r = pscalSetObjCreate\<lparr>so_capacity := length (so_values a) + length (so_values b)\<rparr>;
          r = fold addOrdinalToResultSetUtil (so_values a) r
      in fold addOrdinalToResultSetUtil (so_values b) r)"

definition setDifference :: "SetObj \<Rightarrow> SetObj \<Rightarrow> SetObj" where
  "setDifference a b =
     (let r = pscalSetObjCreate\<lparr>so_capacity := length (so_values a)\<rparr> in
      fold (\<lambda>v r. if \<not> setContainsOrdinalUtil b v then addOrdinalToResultSetUtil v r else r) (so_values a) r)"

definition setIntersection :: "SetObj \<Rightarrow> SetObj \<Rightarrow> SetObj" where
  "setIntersection a b =
     (let r = pscalSetObjCreate\<lparr>so_capacity := min (length (so_values a)) (length (so_values b))\<rparr> in
      fold (\<lambda>v r. if setContainsOrdinalUtil b v then addOrdinalToResultSetUtil v r else r) (so_values a) r)"

definition vmSetContains :: "SetObj \<Rightarrow> 'f PValue \<Rightarrow> bool" where
  "vmSetContains s item =
     (case tryValueToOrdinal item of None \<Rightarrow> False | Some ordinal \<Rightarrow> contains_loop (so_values s) (sint ordinal))"

definition vmBuildSetFromOrdinal :: "int \<Rightarrow> SetObj" where
  "vmBuildSetFromOrdinal ordinal = vmAddOrdinalToSet pscalSetObjCreate ordinal"

datatype VmSetRangeStatus = VM_SET_RANGE_OK | VM_SET_RANGE_TOO_LARGE | VM_SET_RANGE_NO_MEMORY

definition VM_SET_RANGE_MAX_ELEMENTS :: int where
  "VM_SET_RANGE_MAX_ELEMENTS = 2 ^ 20"

definition vmBuildSetFromRange :: "bool \<Rightarrow> u64 \<Rightarrow> u64 \<Rightarrow> VmSetRangeStatus \<times> SetObj option" where
  "vmBuildSetFromRange can_alloc start_ord end_ord =
     (if sint end_ord < sint start_ord then (VM_SET_RANGE_OK, Some pscalSetObjCreate)
      else
        let span = end_ord - start_ord in
        if VM_SET_RANGE_MAX_ELEMENTS \<le> uint span then (VM_SET_RANGE_TOO_LARGE, None)
        else if \<not> can_alloc then (VM_SET_RANGE_NO_MEMORY, None)
        else
          let count = unat span + 1 in
          (VM_SET_RANGE_OK, Some \<lparr>so_values = map (\<lambda>i. sint start_ord + int i) [0..<count], so_capacity = count\<rparr>))"

text \<open>The subset test: pairwise for small sets, against a sorted copy with \<open>bsearch\<close> for larger ones.
  \<open>qsort\<close> and \<open>bsearch\<close> belong to the C library: sorting, and the search by halving.\<close>

function bsearch :: "int \<Rightarrow> int list \<Rightarrow> nat \<Rightarrow> nat \<Rightarrow> bool" where
  "bsearch key xs lo hi =
     (if hi \<le> lo then False
      else let mid = (lo + hi) div 2 in
        if xs ! mid = key then True
        else if xs ! mid < key then bsearch key xs (mid + 1) hi else bsearch key xs lo mid)"
  by pat_completeness auto
termination by (relation "measure (\<lambda>(key, xs, lo, hi). hi - lo)") auto

declare bsearch.simps [simp del]

definition vmSetIsSubset :: "bool \<Rightarrow> SetObj \<Rightarrow> SetObj \<Rightarrow> int" where
  "vmSetIsSubset can_alloc s t =
     (let s_size = length (so_values s); t_size = length (so_values t) in
      if s_size = 0 then 1
      else if t_size = 0 then 0
      else if int s_size * int t_size \<le> 4096
      then (if list_all (contains_loop (so_values t)) (so_values s) then 1 else 0)
      else if \<not> can_alloc then - 1
      else
        let sorted_copy = sort (so_values t) in
        if list_all (\<lambda>v. bsearch v sorted_copy 0 t_size) (so_values s) then 1 else 0)"

subsection \<open>The instructions\<close>

datatype set_error = NotOrdinal | RangeTooLarge | NoMemory | NotASetOperation

definition MAKE_SET_SINGLETON :: "'f PValue \<Rightarrow> set_error + SetObj" where
  "MAKE_SET_SINGLETON item =
     (case tryValueToOrdinal item of None \<Rightarrow> Inl NotOrdinal | Some ordinal \<Rightarrow> Inr (vmBuildSetFromOrdinal (sint ordinal)))"

definition MAKE_SET_RANGE :: "bool \<Rightarrow> 'f PValue \<Rightarrow> 'f PValue \<Rightarrow> set_error + SetObj" where
  "MAKE_SET_RANGE can_alloc start_val end_val =
     (case (tryValueToOrdinal start_val, tryValueToOrdinal end_val) of
        (Some start_ord, Some end_ord) \<Rightarrow>
          (case vmBuildSetFromRange can_alloc start_ord end_ord of
             (VM_SET_RANGE_OK, Some s) \<Rightarrow> Inr s
           | (VM_SET_RANGE_TOO_LARGE, _) \<Rightarrow> Inl RangeTooLarge
           | _ \<Rightarrow> Inl NoMemory)
      | _ \<Rightarrow> Inl NotOrdinal)"

definition binary_set :: "arith_op \<Rightarrow> SetObj \<Rightarrow> SetObj \<Rightarrow> SetObj" where
  "binary_set op a b = (case op of OpAdd \<Rightarrow> setUnion a b | OpSubtract \<Rightarrow> setDifference a b | OpMultiply \<Rightarrow> setIntersection a b)"

definition compare_sets :: "bool \<Rightarrow> bool \<Rightarrow> compare_op \<Rightarrow> SetObj \<Rightarrow> SetObj \<Rightarrow> set_error + bool" where
  "compare_sets alloc1 alloc2 op a b =
     (if op = CmpGreater \<or> op = CmpLess then Inl NotASetOperation
      else
        let sub = (if op = CmpGreaterEqual then 1 else vmSetIsSubset alloc1 a b);
            super = (if op = CmpGreaterEqual then vmSetIsSubset alloc2 b a
                     else if (op = CmpEqual \<or> op = CmpNotEqual) \<and> sub = 1 then vmSetIsSubset alloc2 b a else 1)
        in
        if sub < 0 \<or> super < 0 then Inl NoMemory
        else let holds = (sub = 1 \<and> super = 1) in Inr (if op = CmpNotEqual then \<not> holds else holds))"

subsection \<open>Sets as sets\<close>

abbreviation members :: "SetObj \<Rightarrow> int set" where
  "members s \<equiv> set (so_values s)"

definition set_ok :: "SetObj \<Rightarrow> bool" where
  "set_ok s \<longleftrightarrow> distinct (so_values s) \<and> length (so_values s) \<le> so_capacity s"

lemma contains_loop_iff [simp]: "contains_loop vs v \<longleftrightarrow> v \<in> set vs"
  by (induction vs) auto

lemma contains_util_iff [simp]: "setContainsOrdinalUtil s v \<longleftrightarrow> v \<in> members s"
  by (simp add: setContainsOrdinalUtil_def)

lemma create_set [simp]: "set_ok (pscalSetObjCreate\<lparr>so_capacity := n\<rparr>)" "so_values (pscalSetObjCreate\<lparr>so_capacity := n\<rparr>) = []"
  "set_ok pscalSetObjCreate" "so_values pscalSetObjCreate = []"
  by (simp_all add: set_ok_def pscalSetObjCreate_def)

lemma append_set: "set_ok s \<Longrightarrow> v \<notin> members s \<Longrightarrow> set_ok (set_append s v) \<and> members (set_append s v) = insert v (members s)"
  by (auto simp: set_ok_def set_append_def Let_def)

lemma add_set:
  "set_ok s \<Longrightarrow> set_ok (addOrdinalToResultSetUtil v s) \<and> members (addOrdinalToResultSetUtil v s) = insert v (members s)"
  "set_ok s \<Longrightarrow> set_ok (vmAddOrdinalToSet s v) \<and> members (vmAddOrdinalToSet s v) = insert v (members s)"
  using append_set [of s v] by (auto simp: addOrdinalToResultSetUtil_def vmAddOrdinalToSet_def)

lemma fold_add:
  "set_ok r \<Longrightarrow>
   set_ok (fold (\<lambda>v r. if P v then addOrdinalToResultSetUtil v r else r) vs r)
   \<and> members (fold (\<lambda>v r. if P v then addOrdinalToResultSetUtil v r else r) vs r) = members r \<union> {v \<in> set vs. P v}"
  by (induction vs arbitrary: r) (auto simp: add_set)

lemma binary_set_members:
  "set_ok (binary_set op a b)"
  "members (binary_set op a b) = (case op of OpAdd \<Rightarrow> members a \<union> members b | OpSubtract \<Rightarrow> members a - members b | OpMultiply \<Rightarrow> members a \<inter> members b)"
proof -
  note plain = fold_add [where P = "\<lambda>_. True", simplified]
  have "set_ok (setUnion a b) \<and> members (setUnion a b) = members a \<union> members b"
    using plain [of _ "so_values a"] plain [of _ "so_values b"] by (simp add: setUnion_def Let_def)
  moreover have "set_ok (setDifference a b) \<and> members (setDifference a b) = members a - members b"
    using fold_add [where P = "\<lambda>v. \<not> setContainsOrdinalUtil b v"] by (auto simp: setDifference_def Let_def)
  moreover have "set_ok (setIntersection a b) \<and> members (setIntersection a b) = members a \<inter> members b"
    using fold_add [where P = "setContainsOrdinalUtil b"] by (auto simp: setIntersection_def Let_def)
  ultimately show "set_ok (binary_set op a b)"
    "members (binary_set op a b) = (case op of OpAdd \<Rightarrow> members a \<union> members b | OpSubtract \<Rightarrow> members a - members b | OpMultiply \<Rightarrow> members a \<inter> members b)"
    by (cases op; simp add: binary_set_def)+
qed

lemma bsearch_iff:
  "sorted xs \<Longrightarrow> hi \<le> length xs \<Longrightarrow> bsearch key xs lo hi \<longleftrightarrow> (\<exists>i. lo \<le> i \<and> i < hi \<and> xs ! i = key)"
proof (induction key xs lo hi rule: bsearch.induct)
  case (1 key xs lo hi)
  let ?mid = "(lo + hi) div 2"
  show ?case
  proof (cases "hi \<le> lo")
    case True
    then show ?thesis by (subst bsearch.simps) simp
  next
    case False
    then have mid: "lo \<le> ?mid" "?mid < hi" by auto
    have le: "i \<le> j \<Longrightarrow> j < hi \<Longrightarrow> xs ! i \<le> xs ! j" for i j
      using 1(3,4) by (simp add: sorted_iff_nth_mono)
    consider "xs ! ?mid = key" | "xs ! ?mid < key" | "key < xs ! ?mid" by linarith
    then show ?thesis
    proof cases
      case 1
      then show ?thesis using False mid by (subst bsearch.simps) (auto simp: Let_def)
    next
      case 2
      have "bsearch key xs (?mid + 1) hi \<longleftrightarrow> (\<exists>i. ?mid + 1 \<le> i \<and> i < hi \<and> xs ! i = key)"
        using 1(1) [OF False refl] 1(3,4) 2 by simp
      also have "\<dots> \<longleftrightarrow> (\<exists>i. lo \<le> i \<and> i < hi \<and> xs ! i = key)"
        using mid le 2 by (metis Suc_eq_plus1 not_less_eq_eq leD le_trans Suc_leD)
      finally show ?thesis using False 2 by (subst bsearch.simps) (simp add: Let_def)
    next
      case 3
      have "bsearch key xs lo ?mid \<longleftrightarrow> (\<exists>i. lo \<le> i \<and> i < ?mid \<and> xs ! i = key)"
        using 1(2) [OF False refl] 1(3,4) 3 mid by simp
      also have "\<dots> \<longleftrightarrow> (\<exists>i. lo \<le> i \<and> i < hi \<and> xs ! i = key)"
        using mid le 3 by (metis leD linorder_le_less_linear order_less_trans)
      finally show ?thesis using False 3 by (subst bsearch.simps) (simp add: Let_def)
    qed
  qed
qed

lemma bsearch_sort: "bsearch v (sort ys) 0 (length ys) \<longleftrightarrow> v \<in> set ys"
proof -
  have "bsearch v (sort ys) 0 (length ys) \<longleftrightarrow> (\<exists>i. i < length (sort ys) \<and> sort ys ! i = v)"
    using bsearch_iff [of "sort ys" "length ys" v 0] by simp
  also have "\<dots> \<longleftrightarrow> v \<in> set (sort ys)" by (simp only: in_set_conv_nth)
  finally show ?thesis by simp
qed

lemma subset_answer:
  "vmSetIsSubset can_alloc s t = (if members s \<subseteq> members t then 1 else 0) \<or> (\<not> can_alloc \<and> vmSetIsSubset can_alloc s t = - 1)"
proof -
  have "list_all (contains_loop (so_values t)) (so_values s) \<longleftrightarrow> members s \<subseteq> members t"
    "list_all (\<lambda>v. bsearch v (sort (so_values t)) 0 (length (so_values t))) (so_values s) \<longleftrightarrow> members s \<subseteq> members t"
    by (auto simp: list_all_iff bsearch_sort)
  then show ?thesis by (auto simp: vmSetIsSubset_def Let_def)
qed

lemma span_exact:
  assumes "sint x \<le> sint (y :: u64)"
  shows "uint (y - x) = sint y - sint x"
proof -
  have yx: "y - x = word_of_int (sint y - sint x)" by simp
  have "sint y - sint x < 2 ^ 64" using u64_bounds(4) [of y] u64_bounds(3) [of x] by simp
  then have "uint (word_of_int (sint y - sint x) :: u64) = sint y - sint x" using assms by (intro uint_id64) simp_all
  then show ?thesis using yx by metis
qed

lemma range_members:
  assumes "sint x \<le> sint y" "sint y - sint x < 2 ^ 20"
  shows "vmBuildSetFromRange True x y =
    (VM_SET_RANGE_OK, Some \<lparr>so_values = map (\<lambda>i. sint x + int i) [0..<nat (sint y - sint x) + 1], so_capacity = nat (sint y - sint x) + 1\<rparr>)"
proof -
  note u = span_exact [OF assms(1)]
  have "unat (y - x) = nat (sint y - sint x)" unfolding u [symmetric] by (rule nat_uint_eq [symmetric])
  then show ?thesis using assms u by (simp add: vmBuildSetFromRange_def VM_SET_RANGE_MAX_ELEMENTS_def Let_def)
qed

lemma range_answer:
  assumes "tryValueToOrdinal v = Some x" "tryValueToOrdinal w = Some y"
  shows "case MAKE_SET_RANGE can_alloc v w of
      Inr s \<Rightarrow> set_ok s \<and> members s = {sint x..sint y}
    | Inl RangeTooLarge \<Rightarrow> 2 ^ 20 \<le> sint y - sint x
    | Inl e \<Rightarrow> e = NoMemory \<and> \<not> can_alloc"
proof -
  consider "sint y < sint x" | "sint x \<le> sint y" "2 ^ 20 \<le> sint y - sint x" | "sint x \<le> sint y" "sint y - sint x < 2 ^ 20" "can_alloc"
    | "sint x \<le> sint y" "sint y - sint x < 2 ^ 20" "\<not> can_alloc" by linarith
  then show ?thesis
  proof cases
    case 1
    then show ?thesis using assms by (simp add: MAKE_SET_RANGE_def vmBuildSetFromRange_def)
  next
    case 2
    have "uint (y - x) = sint y - sint x" using span_exact [OF 2(1)] .
    then have "MAKE_SET_RANGE can_alloc v w = Inl RangeTooLarge"
      using 2 assms by (simp add: MAKE_SET_RANGE_def vmBuildSetFromRange_def VM_SET_RANGE_MAX_ELEMENTS_def Let_def)
    then show ?thesis using 2 by simp
  next
    case 3
    have "set (map (\<lambda>i. sint x + int i) [0..<nat (sint y - sint x) + 1]) = {sint x..sint y}"
      unfolding set_map set_upt
    proof (intro equalityI subsetI)
      fix z assume "z \<in> {sint x..sint y}"
      then show "z \<in> (\<lambda>i. sint x + int i) ` {0..<nat (sint y - sint x) + 1}"
        by (intro image_eqI [of _ _ "nat (z - sint x)"]) auto
    next
      fix z assume "z \<in> (\<lambda>i. sint x + int i) ` {0..<nat (sint y - sint x) + 1}"
      then obtain i where "z = sint x + int i" "i \<in> {0..<nat (sint y - sint x) + 1}" by (rule imageE)
      then show "z \<in> {sint x..sint y}" using 3(1) by simp
    qed
    moreover have "distinct (map (\<lambda>i. sint x + int i) [0..<nat (sint y - sint x) + 1])"
      unfolding distinct_map by (intro conjI distinct_upt inj_onI) simp
    ultimately have "MAKE_SET_RANGE can_alloc v w = Inr \<lparr>so_values = map (\<lambda>i. sint x + int i) [0..<nat (sint y - sint x) + 1],
        so_capacity = nat (sint y - sint x) + 1\<rparr> \<and> set_ok \<lparr>so_values = map (\<lambda>i. sint x + int i) [0..<nat (sint y - sint x) + 1],
        so_capacity = nat (sint y - sint x) + 1\<rparr> \<and> set (map (\<lambda>i. sint x + int i) [0..<nat (sint y - sint x) + 1]) = {sint x..sint y}"
      using range_members [OF 3(1,2)] 3(3) assms by (simp only: MAKE_SET_RANGE_def set_ok_def) simp
    then show ?thesis by simp
  next
    case 4
    have "fst (vmBuildSetFromRange False x y) = VM_SET_RANGE_TOO_LARGE \<or> vmBuildSetFromRange False x y = (VM_SET_RANGE_NO_MEMORY, None)"
      using 4(1) by (simp add: vmBuildSetFromRange_def Let_def)
    moreover have "fst (vmBuildSetFromRange False x y) \<noteq> VM_SET_RANGE_TOO_LARGE"
    proof -
      have "fst (vmBuildSetFromRange True x y) = VM_SET_RANGE_OK" using range_members [OF 4(1,2)] by simp
      then show ?thesis by (auto simp: vmBuildSetFromRange_def Let_def split: if_splits)
    qed
    ultimately show ?thesis using 4 assms by (simp add: MAKE_SET_RANGE_def)
  qed
qed

definition set_relation :: "compare_op \<Rightarrow> int set \<Rightarrow> int set \<Rightarrow> bool" where
  "set_relation op A B =
     (case op of CmpEqual \<Rightarrow> A = B | CmpNotEqual \<Rightarrow> A \<noteq> B | CmpLessEqual \<Rightarrow> A \<subseteq> B | CmpGreaterEqual \<Rightarrow> B \<subseteq> A | _ \<Rightarrow> False)"

lemma compare_sets_answer:
  "compare_sets alloc1 alloc2 op a b =
     (if op = CmpGreater \<or> op = CmpLess then Inl NotASetOperation else Inr (set_relation op (members a) (members b)))
   \<or> (compare_sets alloc1 alloc2 op a b = Inl NoMemory \<and> \<not> (alloc1 \<and> alloc2))"
  using subset_answer [of alloc1 a b] subset_answer [of alloc2 b a]
  by (cases op) (auto simp: compare_sets_def set_relation_def Let_def split: if_splits)

text \<open>The set instructions compute with sets. Union, difference and intersection of any two sets are
  well formed, without duplicates, and have the members they should; the comparisons decide equality and
  inclusion by membership, however the members are ordered and whichever search is used, and refuse the
  rest; membership tests the ordinal of the item; and a range holds exactly the ordinals between its bounds,
  none when they are reversed, unless it would have more than 2^20 of them or memory runs out.\<close>
lemma set_instructions_exact:
  assumes "tryValueToOrdinal v = Some x" and "tryValueToOrdinal w = Some y"
  shows "set_ok (binary_set op a b)
    \<and> members (binary_set op a b) =
        (case op of OpAdd \<Rightarrow> members a \<union> members b | OpSubtract \<Rightarrow> members a - members b | OpMultiply \<Rightarrow> members a \<inter> members b)
    \<and> (compare_sets alloc1 alloc2 cmp a b =
         (if cmp = CmpGreater \<or> cmp = CmpLess then Inl NotASetOperation else Inr (set_relation cmp (members a) (members b)))
       \<or> (compare_sets alloc1 alloc2 cmp a b = Inl NoMemory \<and> \<not> (alloc1 \<and> alloc2)))
    \<and> (vmSetContains a v \<longleftrightarrow> sint x \<in> members a)
    \<and> (case MAKE_SET_RANGE can_alloc v w of
         Inr s \<Rightarrow> set_ok s \<and> members s = {sint x..sint y}
       | Inl RangeTooLarge \<Rightarrow> 2 ^ 20 \<le> sint y - sint x
       | Inl e \<Rightarrow> e = NoMemory \<and> \<not> can_alloc)"
  using binary_set_members [of op a b] compare_sets_answer [of alloc1 alloc2 cmp a b] range_answer [OF assms, of can_alloc] assms(1)
  by (simp only: vmSetContains_def option.case contains_loop_iff simp_thms)

lemma bool_ordinal: "tryValueToOrdinal (makeBoolean False) = Some 0" "tryValueToOrdinal (makeBoolean True) = Some 1"
  by (simp_all add: tryValueToOrdinal_def makeBoolean_def makeScalar_def pscalValueSetIntBits_def int_bits_def pscalValueDecodeInt_def)

lemma set_instructions_exact_witness:
  "members (binary_set OpSubtract (vmBuildSetFromOrdinal 4) (vmBuildSetFromOrdinal 4)) = {}
   \<and> (case MAKE_SET_RANGE True (makeBoolean False :: 'f PValue) (makeBoolean True) of Inr s \<Rightarrow> members s = {0..1} | Inl e \<Rightarrow> e = RangeTooLarge)"
proof -
  note exact = set_instructions_exact [OF bool_ordinal, where op = OpSubtract and a = "vmBuildSetFromOrdinal 4"
      and b = "vmBuildSetFromOrdinal 4" and can_alloc = True and ?alloc1.0 = True and ?alloc2.0 = True and cmp = CmpEqual]
  have "members (binary_set OpSubtract (vmBuildSetFromOrdinal 4) (vmBuildSetFromOrdinal 4)) = {}"
    using conjunct1 [OF conjunct2 [OF exact]] by simp
  moreover have "case MAKE_SET_RANGE True (makeBoolean False :: 'f PValue) (makeBoolean True) of
      Inr s \<Rightarrow> members s = {0..1} | Inl e \<Rightarrow> e = RangeTooLarge"
  proof -
    have answer: "case MAKE_SET_RANGE True (makeBoolean False :: 'f PValue) (makeBoolean True) of
        Inr s \<Rightarrow> set_ok s \<and> members s = {sint (0 :: u64)..sint (1 :: u64)}
      | Inl RangeTooLarge \<Rightarrow> 2 ^ 20 \<le> sint (1 :: u64) - sint (0 :: u64)
      | Inl e \<Rightarrow> e = NoMemory \<and> \<not> True"
      using exact by (elim conjE)
    show ?thesis
    proof (cases "MAKE_SET_RANGE True (makeBoolean False :: 'f PValue) (makeBoolean True)")
      case (Inl e)
      then show ?thesis using answer by (cases e) simp_all
    next
      case (Inr s)
      then show ?thesis using answer by simp
    qed
  qed
  ultimately show ?thesis by (rule conjI)
qed

text \<open>An unsigned ordinal of 2^63 or more is taken for a negative one: the greatest 64-bit number is found in
  the set of minus one.\<close>

lemma unsigned_ordinal_wraps:
  "vmSetContains (vmBuildSetFromOrdinal (- 1)) (PScalar (makeUInt64 (- 1)) :: 'f PValue)"
proof -
  have "tryValueToOrdinal (PScalar (makeUInt64 (- 1)) :: 'f PValue) = Some (- 1)"
    by (simp add: tryValueToOrdinal_def makeUInt64_def makeScalar_def pscalValueSetIntBits_def int_bits_def pscalValueDecodeUInt_def)
  moreover have "members (vmBuildSetFromOrdinal (- 1)) = {- 1}"
    unfolding vmBuildSetFromOrdinal_def using add_set(2) [of pscalSetObjCreate "- 1"] by simp
  ultimately show ?thesis unfolding vmSetContains_def by simp
qed

end
