(* ===== verification/VmExpr.thy ===== *)
theory VmExpr
  imports VmSet
begin

section \<open>The instructions of an expression\<close>

text \<open>
  The part of \<open>interpretBytecode\<close> (\<open>vm/vm.c\<close>) that evaluates integer and boolean expressions: pushing constants,
  the integer instructions of \<open>VmArith\<close>, \<open>AND\<close>, \<open>OR\<close>, \<open>XOR\<close>, \<open>NEGATE\<close>, \<open>NOT\<close>, \<open>TO_BOOL\<close> and the two jumps. A state
  is the position in the code and the operand stack, top first. That the stack has room is the business of
  the verifier's depth analysis; reaching an instruction or an operand kind that is not modelled is an
  answer of its own.
\<close>

datatype run_error = Arith arith_error | NotTruth | BadConstant | Underflow | PastEnd | OtherInstruction u8

definition pscalIntResultLike1 :: "ValueStruct \<Rightarrow> u64 \<Rightarrow> ValueStruct" where
  "pscalIntResultLike1 a result =
     (if vs_type a = TYPE_UINT64 then makeUInt64 result
      else if vs_type a = TYPE_INT64 then makeInt64 result
      else pscalIntResultNarrow result)"

definition instr_NEGATE :: "ValueStruct \<Rightarrow> arith_error + ValueStruct" where
  "instr_NEGATE v =
     (if \<not> isIntlikeType (vs_type v) then Inl NotIntegers
      else let iv = asI64 v in
        if sint iv = - (2 ^ 63) \<and> vs_type v \<noteq> TYPE_UINT64 then Inl IntegerOverflow
        else Inr (pscalIntResultLike1 v (0 - iv)))"

text \<open>The truth of a real and of a pointer lies behind the floating formats and the heap: it is a parameter.\<close>

record run_env =
  re_aether :: bool
  re_real_truth :: "ValueStruct \<Rightarrow> bool"
  re_pointer_truth :: "ValueStruct \<Rightarrow> bool"

definition coerceValueToBoolean :: "run_env \<Rightarrow> ValueStruct \<Rightarrow> bool option" where
  "coerceValueToBoolean env v =
     (if vs_type v = TYPE_BOOLEAN then Some (pscalValueDecodeInt v \<noteq> 0)
      else if isIntlikeType (vs_type v) then Some (asI64 v \<noteq> 0)
      else if isRealType (vs_type v) then Some (re_real_truth env v)
      else if isPascalCharType (vs_type v) then Some (pscalValueDecodeInt v \<noteq> 0)
      else if vs_type v = TYPE_NIL then Some False
      else if vs_type v = TYPE_POINTER then Some (re_pointer_truth env v)
      else None)"

datatype bit_op = BitAnd | BitOr | BitXor

unbundle bit_operations_syntax

definition bits :: "bit_op \<Rightarrow> u64 \<Rightarrow> u64 \<Rightarrow> u64" where
  "bits op x y = (case op of BitAnd \<Rightarrow> x AND y | BitOr \<Rightarrow> x OR y | BitXor \<Rightarrow> x XOR y)"

definition instr_bits :: "bit_op \<Rightarrow> ValueStruct \<Rightarrow> ValueStruct \<Rightarrow> arith_error + ValueStruct" where
  "instr_bits op a b =
     (if vs_type a = TYPE_INT32 \<and> vs_type b = TYPE_INT32
      then Inr (makeInt32 (bits op (pscalValueDecodeInt a) (pscalValueDecodeInt b)))
      else if vs_type a = TYPE_BOOLEAN \<and> vs_type b = TYPE_BOOLEAN then
        let ba = pscalValueDecodeInt a \<noteq> 0; bb = pscalValueDecodeInt b \<noteq> 0 in
        Inr (makeBool (case op of BitAnd \<Rightarrow> ba \<and> bb | BitOr \<Rightarrow> ba \<or> bb | BitXor \<Rightarrow> ba \<noteq> bb))
      else if isIntlikeType (vs_type a) \<and> isIntlikeType (vs_type b)
      then Inr (pscalIntResultLike2 a b (bits op (asI64 a) (asI64 b)))
      else Inl NotIntegers)"

fun const_value :: "Value \<Rightarrow> ValueStruct option" where
  "const_value (VInt t i) = Some (makeScalar t (word_of_int i))"
| "const_value _ = None"

text \<open>The two-operand instructions by opcode.\<close>

definition binary_instr :: "run_env \<Rightarrow> u8 \<Rightarrow> (ValueStruct \<Rightarrow> ValueStruct \<Rightarrow> arith_error + ValueStruct) option" where
  "binary_instr env opcode =
     (if opcode = OP_ADD then Some (binary_int (re_aether env) OpAdd)
      else if opcode = OP_SUBTRACT then Some (binary_int (re_aether env) OpSubtract)
      else if opcode = OP_MULTIPLY then Some (binary_int (re_aether env) OpMultiply)
      else if opcode = OP_INT_DIV then Some instr_INT_DIV
      else if opcode = OP_MOD then Some instr_MOD
      else if opcode = OP_SHL then Some (instr_SHIFT True)
      else if opcode = OP_SHR then Some (instr_SHIFT False)
      else if opcode = OP_AND then Some (instr_bits BitAnd)
      else if opcode = OP_OR then Some (instr_bits BitOr)
      else if opcode = OP_XOR then Some (instr_bits BitXor)
      else if opcode = OP_EQUAL then Some (compare_int CmpEqual)
      else if opcode = OP_NOT_EQUAL then Some (compare_int CmpNotEqual)
      else if opcode = OP_GREATER then Some (compare_int CmpGreater)
      else if opcode = OP_GREATER_EQUAL then Some (compare_int CmpGreaterEqual)
      else if opcode = OP_LESS then Some (compare_int CmpLess)
      else if opcode = OP_LESS_EQUAL then Some (compare_int CmpLessEqual)
      else None)"

type_synonym vm_point = "nat \<times> ValueStruct list"

definition push_constant :: "BytecodeChunk \<Rightarrow> nat \<Rightarrow> nat \<Rightarrow> ValueStruct list \<Rightarrow> run_error + vm_point" where
  "push_constant ch idx pc st =
     (if ch_constants_count ch \<le> idx then Inl BadConstant
      else case const_value (ch_constants ch ! idx) of None \<Rightarrow> Inl BadConstant | Some v \<Rightarrow> Inr (pc, v # st))"

definition jump_to :: "nat \<Rightarrow> u32 \<Rightarrow> ValueStruct list \<Rightarrow> run_error + vm_point" where
  "jump_to pc offset st = (let target = int pc + sint offset in if target < 0 then Inl PastEnd else Inr (nat target, st))"

definition exec_constant :: "BytecodeChunk \<Rightarrow> u8 \<Rightarrow> nat \<Rightarrow> ValueStruct list \<Rightarrow> run_error + vm_point" where
  "exec_constant ch opcode pc st =
     (if opcode = OP_CONSTANT then ebind (fetch (ch_code ch) (pc + 1) PastEnd) (\<lambda>idx. push_constant ch (unat idx) (pc + 2) st)
      else ebind (read_u16_be PastEnd (ch_code ch) (pc + 1)) (\<lambda>idx. push_constant ch idx (pc + 3) st))"

definition exec_immediate :: "BytecodeChunk \<Rightarrow> u8 \<Rightarrow> nat \<Rightarrow> ValueStruct list \<Rightarrow> run_error + vm_point" where
  "exec_immediate ch opcode pc st =
     (if opcode = OP_CONST_0 then Inr (pc + 1, makeInt32 0 # st)
      else if opcode = OP_CONST_1 then Inr (pc + 1, makeInt32 1 # st)
      else if opcode = OP_CONST_TRUE then Inr (pc + 1, makeBool True # st)
      else if opcode = OP_CONST_FALSE then Inr (pc + 1, makeBool False # st)
      else ebind (fetch (ch_code ch) (pc + 1) PastEnd) (\<lambda>raw.
        Inr (pc + 2, makeInt32 (word_of_int (if uint raw \<le> 0x7F then uint raw else uint raw - 0x100)) # st)))"

definition exec_unary :: "run_env \<Rightarrow> u8 \<Rightarrow> nat \<Rightarrow> ValueStruct list \<Rightarrow> run_error + vm_point" where
  "exec_unary env opcode pc st =
     (case st of
        [] \<Rightarrow> Inl Underflow
      | v # st \<Rightarrow>
          if opcode = OP_NEGATE then
            (case instr_NEGATE v of Inl e \<Rightarrow> Inl (Arith e) | Inr r \<Rightarrow> Inr (pc + 1, r # st))
          else
            (case coerceValueToBoolean env v of
               None \<Rightarrow> Inl NotTruth
             | Some b \<Rightarrow> Inr (pc + 1, makeBool (if opcode = OP_NOT then \<not> b else b) # st)))"

definition exec_branch :: "run_env \<Rightarrow> BytecodeChunk \<Rightarrow> u8 \<Rightarrow> nat \<Rightarrow> ValueStruct list \<Rightarrow> run_error + vm_point" where
  "exec_branch env ch opcode pc st =
     ebind (read_u32_be PastEnd (ch_code ch) (pc + 1)) (\<lambda>offset.
       if opcode = OP_JUMP then jump_to (pc + 5) offset st
       else case st of
          [] \<Rightarrow> Inl Underflow
        | v # st \<Rightarrow>
            (case coerceValueToBoolean env v of
               None \<Rightarrow> Inl NotTruth
             | Some b \<Rightarrow> if b then Inr (pc + 5, st) else jump_to (pc + 5) offset st))"

definition exec_step :: "run_env \<Rightarrow> BytecodeChunk \<Rightarrow> vm_point \<Rightarrow> run_error + vm_point" where
  "exec_step env ch s =
     (let (pc, st) = s in
      ebind (fetch (ch_code ch) pc PastEnd) (\<lambda>opcode.
      if opcode \<in> {OP_CONSTANT, OP_CONSTANT16} then exec_constant ch opcode pc st
      else if opcode \<in> {OP_CONST_0, OP_CONST_1, OP_CONST_TRUE, OP_CONST_FALSE, OP_PUSH_IMMEDIATE_INT8} then exec_immediate ch opcode pc st
      else if opcode \<in> {OP_NEGATE, OP_NOT, OP_TO_BOOL} then exec_unary env opcode pc st
      else if opcode \<in> {OP_JUMP_IF_FALSE, OP_JUMP} then exec_branch env ch opcode pc st
      else
        (case binary_instr env opcode of
           None \<Rightarrow> Inl (OtherInstruction opcode)
         | Some f \<Rightarrow>
             (case st of
                b # a # st \<Rightarrow> (case f a b of Inl e \<Rightarrow> Inl (Arith e) | Inr r \<Rightarrow> Inr (pc + 1, r # st))
              | _ \<Rightarrow> Inl Underflow))))"

lemmas exec_step_defs = exec_step_def exec_constant_def exec_immediate_def exec_unary_def exec_branch_def

lemma mod_signed_byte: "0 \<le> z \<Longrightarrow> z < 256 \<Longrightarrow> (z + 128) mod 256 - 128 = (if z \<le> 127 then z else z - 256)" for z :: int
  using minus_mod_self2 [of "z + 128" 256] mod_pos_pos_trivial [of "z + 128" 256] mod_pos_pos_trivial [of "z + 128 - 256" 256] by auto

lemma signed_byte: "sint (raw :: u8) = (if uint raw \<le> 0x7F then uint raw else uint raw - 0x100)"
proof -
  have "sint raw = (uint raw + 128) mod 256 - 128"
    by (simp add: sint_uint signed_take_bit_eq_take_bit_shift take_bit_eq_mod)
  then show ?thesis using mod_signed_byte [of "uint raw"] uint_lt2p [of raw] by simp
qed

lemma signed_byte_word: "uint (x :: u8) \<le> 127 \<Longrightarrow> (ucast x :: u64) = scast x"
  "\<not> uint (x :: u8) \<le> 127 \<Longrightarrow> (ucast x - 256 :: u64) = scast x"
  unfolding scast_eq ucast_eq signed_byte by simp_all

subsection \<open>Runs\<close>

abbreviation runs :: "run_env \<Rightarrow> BytecodeChunk \<Rightarrow> vm_point \<Rightarrow> vm_point \<Rightarrow> bool" where
  "runs env ch \<equiv> (\<lambda>s t. exec_step env ch s = Inr t)\<^sup>*\<^sup>*"

text \<open>What a run comes to: a state it reaches, or an error it stops with.\<close>

definition ends :: "run_env \<Rightarrow> BytecodeChunk \<Rightarrow> vm_point \<Rightarrow> run_error + vm_point \<Rightarrow> bool" where
  "ends env ch s r =
     (case r of Inr t \<Rightarrow> runs env ch s t | Inl e \<Rightarrow> (\<exists>t. runs env ch s t \<and> exec_step env ch t = Inl e))"

lemma ends_refl: "ends env ch s (Inr s)"
  by (simp add: ends_def)

lemma ends_step: "exec_step env ch s = r \<Longrightarrow> ends env ch s r"
proof (cases r)
  case (Inl e)
  assume "exec_step env ch s = r"
  then show ?thesis unfolding ends_def Inl sum.case by (intro exI [of _ s] conjI rtranclp.rtrancl_refl)
qed (simp add: ends_def r_into_rtranclp)

lemma ends_trans: "ends env ch s (Inr t) \<Longrightarrow> ends env ch t r \<Longrightarrow> ends env ch s r"
  by (cases r) (auto simp: ends_def intro: rtranclp_trans)

lemma ends_bind:
  assumes "ends env ch s (map_sum id f m)" and "\<And>x. m = Inr x \<Longrightarrow> ends env ch (f x) (g x)"
  shows "ends env ch s (ebind m g)"
  using assms by (cases m) (auto intro: ends_trans)

lemma fetch_middle: "fetch (pre @ b # post) (length pre) e = Inr b"
  by (simp add: fetch_def)

lemma fetch_middle1: "fetch (pre @ a # b # post) (length pre + 1) e = Inr b" "fetch (pre @ a # b # post) (Suc (length pre)) e = Inr b"
  by (simp_all add: fetch_def nth_append)

lemma read_u16_middle: "read_u16_be e (pre @ a # u16_bytes_be v @ post) (length pre + 1) = Inr (unat v)"
  using read_u16_be_bytes [of e "pre @ [a]" v post] by simp

lemma read_u32_middle: "read_u32_be e (pre @ a # u32_bytes_be v @ post) (length pre + 1) = Inr v"
  using read_u32_be_bytes [of e "pre @ [a]" v post] by simp

text \<open>One instruction at a known place.\<close>

lemma step_binary:
  assumes "ch_code ch = pre @ opcode # post" "binary_instr env opcode = Some f"
  shows "exec_step env ch (length pre, b # a # st) = (case f a b of Inl e \<Rightarrow> Inl (Arith e) | Inr r \<Rightarrow> Inr (length pre + 1, r # st))"
proof -
  have "opcode \<notin> {OP_CONSTANT, OP_CONSTANT16, OP_CONST_0, OP_CONST_1, OP_CONST_TRUE, OP_CONST_FALSE, OP_PUSH_IMMEDIATE_INT8,
      OP_NEGATE, OP_NOT, OP_TO_BOOL, OP_JUMP_IF_FALSE, OP_JUMP}"
    using assms(2) by (auto simp: binary_instr_def)
  then show ?thesis by (simp add: exec_step_defs assms fetch_middle)
qed

lemma step_unary:
  assumes "ch_code ch = pre @ opcode # post"
  shows "opcode = OP_NEGATE \<Longrightarrow> exec_step env ch (length pre, v # st) =
      (case instr_NEGATE v of Inl e \<Rightarrow> Inl (Arith e) | Inr r \<Rightarrow> Inr (length pre + 1, r # st))"
    "opcode = OP_NOT \<Longrightarrow> exec_step env ch (length pre, v # st) =
      (case coerceValueToBoolean env v of None \<Rightarrow> Inl NotTruth | Some b \<Rightarrow> Inr (length pre + 1, makeBool (\<not> b) # st))"
    "opcode = OP_TO_BOOL \<Longrightarrow> exec_step env ch (length pre, v # st) =
      (case coerceValueToBoolean env v of None \<Rightarrow> Inl NotTruth | Some b \<Rightarrow> Inr (length pre + 1, makeBool b # st))"
  by (simp_all add: exec_step_defs assms fetch_middle split: option.split)

lemma int_nat_bound31: "n < 2 ^ 31 \<Longrightarrow> - (2 ^ 31) \<le> int n \<and> int n < 2 ^ 31"
  by simp

lemma jump_forward: "n < 2 ^ 31 \<Longrightarrow> jump_to pc (word_of_int (int n)) st = Inr (pc + n, st)"
proof -
  assume n: "n < 2 ^ 31"
  have "sint (word_of_int z :: u32) = z" if "- (2 ^ 31) \<le> z" "z < 2 ^ 31" for z
    using that by (simp add: signed_of_int signed_take_bit_int_eq_self)
  then have "sint (word_of_int (int n) :: u32) = int n" using n by (metis int_nat_bound31)
  then show ?thesis by (simp add: jump_to_def Let_def nat_add_distrib)
qed

lemma step_jump:
  assumes "ch_code ch = pre @ OP_JUMP # u32_bytes_be (word_of_int (int n)) @ post" "n < 2 ^ 31"
  shows "exec_step env ch (length pre, st) = Inr (length pre + 5 + n, st)"
  using jump_forward [OF assms(2), of "length pre + 5" st] read_u32_middle [of PastEnd pre OP_JUMP "word_of_int (int n)" post]
  by (simp add: exec_step_defs assms(1) fetch_middle)

lemma step_jump_if_false:
  assumes "ch_code ch = pre @ OP_JUMP_IF_FALSE # u32_bytes_be (word_of_int (int n)) @ post" "n < 2 ^ 31"
  shows "exec_step env ch (length pre, v # st) =
    (case coerceValueToBoolean env v of None \<Rightarrow> Inl NotTruth | Some b \<Rightarrow> Inr (if b then length pre + 5 else length pre + 5 + n, st))"
  using jump_forward [OF assms(2), of "length pre + 5" st] read_u32_middle [of PastEnd pre OP_JUMP_IF_FALSE "word_of_int (int n)" post]
  by (simp add: exec_step_defs assms(1) fetch_middle split: option.split)

subsection \<open>Pieces of code that compute a value\<close>

text \<open>A piece of code computes \<open>r\<close> if, wherever it stands in a program with at least the constants \<open>cs\<close>, a run
  from its first byte reaches its end with the value on the stack, or stops with the error.\<close>

definition computes :: "run_env \<Rightarrow> byte list \<Rightarrow> Value list \<Rightarrow> run_error + ValueStruct \<Rightarrow> bool" where
  "computes env bytes cs r \<longleftrightarrow>
     (\<forall>ch pre post st ys. ch_code ch = pre @ bytes @ post \<longrightarrow> ch_constants ch = cs @ ys \<longrightarrow> length bytes < 2 ^ 31 \<longrightarrow>
        ends env ch (length pre, st) (map_sum id (\<lambda>v. (length pre + length bytes, v # st)) r))"

lemma computesI:
  assumes "\<And>ch pre post st ys. ch_code ch = pre @ bytes @ post \<Longrightarrow> ch_constants ch = cs @ ys \<Longrightarrow> length bytes < 2 ^ 31 \<Longrightarrow>
     ends env ch (length pre, st) (map_sum id (\<lambda>v. (length pre + length bytes, v # st)) r)"
  shows "computes env bytes cs r"
  using assms by (simp add: computes_def)

lemma computesD:
  assumes "computes env bytes cs r" "ch_code ch = pre @ bytes @ post" "ch_constants ch = cs @ ys" "length bytes < 2 ^ 31"
  shows "ends env ch (length pre, st) (map_sum id (\<lambda>v. (length pre + length bytes, v # st)) r)"
  using assms by (simp add: computes_def)

lemma computes_more: "computes env bytes cs r \<Longrightarrow> computes env bytes (cs @ zs) r"
  by (simp add: computes_def)

lemma map_sum_ebind: "map_sum id f (ebind m g) = ebind m (\<lambda>x. map_sum id f (g x))"
  by (cases m) simp_all

text \<open>Running a first piece, then the rest of the program from where it ends.\<close>

lemma computes_first:
  assumes "computes env bytes cs r" "ch_code ch = pre @ bytes @ post" "ch_constants ch = cs @ ys" "length bytes < 2 ^ 31"
    and "\<And>v. r = Inr v \<Longrightarrow> ends env ch (length pre + length bytes, v # st) (g v)"
  shows "ends env ch (length pre, st) (ebind r g)"
  by (rule ends_bind [OF computesD [OF assms(1-4)]]) (rule assms(5))

definition lift_arith :: "arith_error + ValueStruct \<Rightarrow> run_error + ValueStruct" where
  "lift_arith r = map_sum Arith id r"

definition truth_value :: "run_env \<Rightarrow> ValueStruct \<Rightarrow> run_error + bool" where
  "truth_value env v = (case coerceValueToBoolean env v of None \<Rightarrow> Inl NotTruth | Some b \<Rightarrow> Inr b)"

lemma computes_binary:
  assumes "computes env bl cs rl" "computes env br cs rr" "binary_instr env opcode = Some f"
  shows "computes env (bl @ br @ [opcode]) cs (ebind rl (\<lambda>a. ebind rr (\<lambda>b. lift_arith (f a b))))"
proof (rule computesI)
  fix ch :: BytecodeChunk and pre post ys and st :: "ValueStruct list"
  assume code: "ch_code ch = pre @ (bl @ br @ [opcode]) @ post" and cs: "ch_constants ch = cs @ ys"
    and len: "length (bl @ br @ [opcode]) < 2 ^ 31"
  let ?f = "\<lambda>v. (length pre + length (bl @ br @ [opcode]), v # st)"
  have ops: "exec_step env ch (length pre + length bl + length br, b # a # st) = map_sum id ?f (lift_arith (f a b))" for a b
    using step_binary [OF _ assms(3), of ch "pre @ bl @ br" post b a st] code
    by (simp add: lift_arith_def add.assoc split: sum.split)
  have right: "ends env ch (length pre + length bl, a # st) (ebind rr (\<lambda>b. map_sum id ?f (lift_arith (f a b))))" for a
    using computes_first [OF assms(2), of ch "pre @ bl" "opcode # post" ys "a # st"
        "\<lambda>b. map_sum id ?f (lift_arith (f a b))"] code cs len ends_step [OF ops]
    by (simp add: add.assoc)
  show "ends env ch (length pre, st) (map_sum id ?f (ebind rl (\<lambda>a. ebind rr (\<lambda>b. lift_arith (f a b)))))"
    unfolding map_sum_ebind
    by (rule computes_first [OF assms(1), of ch pre "br @ opcode # post" ys]) (use code cs len right in auto)
qed

definition unary_result :: "run_env \<Rightarrow> u8 \<Rightarrow> ValueStruct \<Rightarrow> run_error + ValueStruct" where
  "unary_result env opcode v =
     (if opcode = OP_NEGATE then lift_arith (instr_NEGATE v)
      else ebind (truth_value env v) (\<lambda>t. Inr (makeBool (if opcode = OP_NOT then \<not> t else t))))"

lemma computes_unary:
  assumes "computes env bl cs rl" "opcode \<in> {OP_NEGATE, OP_NOT, OP_TO_BOOL}"
  shows "computes env (bl @ [opcode]) cs (ebind rl (unary_result env opcode))"
proof (rule computesI)
  fix ch :: BytecodeChunk and pre post ys and st :: "ValueStruct list"
  assume code: "ch_code ch = pre @ (bl @ [opcode]) @ post" and cs: "ch_constants ch = cs @ ys"
    and len: "length (bl @ [opcode]) < 2 ^ 31"
  let ?f = "\<lambda>v. (length pre + length (bl @ [opcode]), v # st)"
  have op: "exec_step env ch (length pre + length bl, v # st) = map_sum id ?f (unary_result env opcode v)" for v
    using step_unary [of ch "pre @ bl" opcode post env v st] code assms(2)
    by (auto simp: unary_result_def truth_value_def lift_arith_def add.assoc split: sum.split option.split)
  show "ends env ch (length pre, st) (map_sum id ?f (ebind rl (unary_result env opcode)))"
    unfolding map_sum_ebind
    by (rule computes_first [OF assms(1), of ch pre "opcode # post" ys]) (use code cs len ends_step [OF op] in auto)
qed

text \<open>The code of a choice: a condition, a jump over the first branch, the first branch and a jump over the second.\<close>

definition rel_jump :: "nat \<Rightarrow> byte list" where
  "rel_jump n = u32_bytes_be (word_of_int (int n))"

definition choice_code :: "byte list \<Rightarrow> byte list \<Rightarrow> byte list \<Rightarrow> byte list" where
  "choice_code bc bt be = bc @ OP_JUMP_IF_FALSE # rel_jump (length bt + 5) @ bt @ OP_JUMP # rel_jump (length be) @ be"

lemma length_rel_jump [simp]: "length (rel_jump n) = 4"
  by (simp add: rel_jump_def)

lemma computes_choice:
  assumes "computes env bc cs rc" "computes env bt cs rt" "computes env be cs re"
  shows "computes env (choice_code bc bt be) cs (ebind rc (\<lambda>v. ebind (truth_value env v) (\<lambda>t. if t then rt else re)))"
proof (rule computesI)
  fix ch :: BytecodeChunk and pre post ys and st :: "ValueStruct list"
  assume code: "ch_code ch = pre @ choice_code bc bt be @ post" and cs: "ch_constants ch = cs @ ys"
    and len: "length (choice_code bc bt be) < 2 ^ 31"
  let ?else = "length pre + length bc + 5 + length bt + 5"
  let ?f = "\<lambda>v. (?else + length be, v # st)"
  have size: "length bc < 2 ^ 31" "length bt < 2 ^ 31" "length be < 2 ^ 31" "length bt + 5 < 2 ^ 31"
    using len by (simp_all add: choice_code_def)
  have code1: "ch_code ch = (pre @ bc) @ OP_JUMP_IF_FALSE # u32_bytes_be (word_of_int (int (length bt + 5)))
      @ (bt @ OP_JUMP # rel_jump (length be) @ be @ post)"
    using code by (simp add: choice_code_def rel_jump_def)
  have code2: "ch_code ch = (pre @ bc @ OP_JUMP_IF_FALSE # rel_jump (length bt + 5) @ bt)
      @ OP_JUMP # u32_bytes_be (word_of_int (int (length be))) @ (be @ post)"
    using code by (simp add: choice_code_def rel_jump_def)
  have code3: "ch_code ch = (pre @ bc @ OP_JUMP_IF_FALSE # rel_jump (length bt + 5)) @ bt @ (OP_JUMP # rel_jump (length be) @ be @ post)"
    "ch_code ch = (pre @ bc @ OP_JUMP_IF_FALSE # rel_jump (length bt + 5) @ bt @ OP_JUMP # rel_jump (length be)) @ be @ post"
    using code by (simp_all add: choice_code_def)
  have branch: "exec_step env ch (length pre + length bc, v # st)
      = ebind (truth_value env v) (\<lambda>t. Inr (if t then length pre + length bc + 5 else ?else, st))" for v
    using step_jump_if_false [OF code1 size(4), of env v st]
    by (simp add: truth_value_def add.assoc split: option.split)
  have over: "exec_step env ch (length pre + length bc + 5 + length bt, v # st) = Inr (?f v)" for v
    using step_jump [OF code2 size(3), of env "v # st"] by (simp add: add_ac)
  have first: "ends env ch (length pre + length bc + 5, st) (map_sum id ?f rt)"
    using computes_first [OF assms(2) code3(1) cs size(2), of st "\<lambda>v. Inr (?f v)"] ends_step [OF over]
    by (cases rt) (simp_all add: add_ac)
  have second: "ends env ch (?else, st) (map_sum id ?f re)"
    using computesD [OF assms(3) code3(2) cs size(3), of st] by (simp add: add_ac)
  have decide: "ends env ch (length pre + length bc, v # st)
      (ebind (truth_value env v) (\<lambda>t. map_sum id ?f (if t then rt else re)))" for v
    using ends_step [OF branch, of v] first second
    by (cases "truth_value env v") (auto intro: ends_trans split: if_splits)
  have total_length: "length pre + length (choice_code bc bt be) = ?else + length be" by (simp add: choice_code_def)
  show "ends env ch (length pre, st) (map_sum id (\<lambda>v. (length pre + length (choice_code bc bt be), v # st))
      (ebind rc (\<lambda>v. ebind (truth_value env v) (\<lambda>t. if t then rt else re))))"
    unfolding map_sum_ebind total_length
    by (rule computes_first [OF assms(1), of ch pre _ ys]) (use code1 cs size decide in auto)
qed

text \<open>The code of a constant, by the index it has in the pool.\<close>

lemma computes_one:
  assumes "\<And>ch pre post ys st. ch_code ch = pre @ bytes @ post \<Longrightarrow> ch_constants ch = cs @ ys \<Longrightarrow>
      exec_step env ch (length pre, st) = Inr (length pre + length bytes, v # st)"
  shows "computes env bytes cs (Inr v)"
  by (rule computesI) (simp add: ends_step assms)

lemma push_known: "idx < length cs \<Longrightarrow> const_value (cs ! idx) = Some v \<Longrightarrow> ch_constants ch = cs @ ys \<Longrightarrow>
    push_constant ch idx pc st = Inr (pc, v # st)"
  by (simp add: push_constant_def nth_append)

lemma computes_pushes:
  "computes env [OP_CONST_0] cs (Inr (makeInt32 0))"
  "computes env [OP_CONST_1] cs (Inr (makeInt32 1))"
  "computes env [if b then OP_CONST_TRUE else OP_CONST_FALSE] cs (Inr (makeBool b))"
  "computes env [OP_PUSH_IMMEDIATE_INT8, x] cs (Inr (makeInt32 (word_of_int (sint x))))"
  by (rule computes_one; simp add: exec_step_defs fetch_middle fetch_middle1 signed_byte_word)+

lemma computes_constant:
  assumes "idx < length cs" "const_value (cs ! idx) = Some v"
  shows "idx \<le> 255 \<Longrightarrow> computes env [OP_CONSTANT, of_nat idx] cs (Inr v)"
    and "idx \<le> 65535 \<Longrightarrow> computes env (OP_CONSTANT16 # u16_bytes_be (of_nat idx)) cs (Inr v)"
proof -
  assume i: "idx \<le> 255"
  have "unat (of_nat idx :: u8) = idx" using i by (simp add: unat_of_nat)
  then show "computes env [OP_CONSTANT, of_nat idx] cs (Inr v)"
    by (intro computes_one) (simp add: exec_step_defs fetch_middle fetch_middle1 push_known [OF assms])
next
  assume i: "idx \<le> 65535"
  have u: "unat (of_nat idx :: u16) = idx" using i by (simp add: unat_of_nat)
  show "computes env (OP_CONSTANT16 # u16_bytes_be (of_nat idx)) cs (Inr v)"
  proof (rule computes_one)
    fix ch :: BytecodeChunk and pre post ys and st :: "ValueStruct list"
    assume "ch_code ch = pre @ (OP_CONSTANT16 # u16_bytes_be (of_nat idx)) @ post" "ch_constants ch = cs @ ys"
    then show "exec_step env ch (length pre, st) = Inr (length pre + length (OP_CONSTANT16 # u16_bytes_be (of_nat idx)), v # st)"
      using read_u16_middle [of PastEnd pre OP_CONSTANT16 "of_nat idx" post] push_known [OF assms]
      by (simp add: exec_step_defs fetch_middle u)
  qed
qed

end
