(* ===== verification/ExprCompiler.thy ===== *)
theory ExprCompiler
  imports VmExpr
begin

section \<open>Compiling expressions\<close>

text \<open>
  The cases of \<open>compileRValue\<close> (\<open>compiler/compiler.c\<close>) for integer and boolean expressions: literals, binary and
  unary operators with the short-circuit code of logical \<open>and\<close> and \<open>or\<close>, and the conditional expression; with
  \<open>addIntConstant\<close>, \<open>addBooleanConstant\<close>, \<open>emitConstant\<close> and \<open>emitImmediateConstant\<close>. The compiler appends to the
  chunk, leaves placeholders for the jumps and patches them. The kinds of node that are not modelled, and
  real literals, are a parameter. The compile state is the chunk and \<open>compiler_had_error\<close>.
\<close>

subsection \<open>Node and token kinds\<close>

abbreviation AST_BINARY_OP :: u32 where "AST_BINARY_OP \<equiv> 7"
abbreviation AST_UNARY_OP :: u32 where "AST_UNARY_OP \<equiv> 8"
abbreviation AST_TERNARY :: u32 where "AST_TERNARY \<equiv> 9"
abbreviation AST_NUMBER :: u32 where "AST_NUMBER \<equiv> 10"
abbreviation AST_BOOLEAN :: u32 where "AST_BOOLEAN \<equiv> 35"

abbreviation TOKEN_INT_DIV :: u32 where "TOKEN_INT_DIV \<equiv> 22"
abbreviation TOKEN_MOD :: u32 where "TOKEN_MOD \<equiv> 23"
abbreviation TOKEN_INTEGER_CONST :: u32 where "TOKEN_INTEGER_CONST \<equiv> 26"
abbreviation TOKEN_REAL_CONST :: u32 where "TOKEN_REAL_CONST \<equiv> 27"
abbreviation TOKEN_GREATER :: u32 where "TOKEN_GREATER \<equiv> 30"
abbreviation TOKEN_GREATER_EQUAL :: u32 where "TOKEN_GREATER_EQUAL \<equiv> 31"
abbreviation TOKEN_EQUAL :: u32 where "TOKEN_EQUAL \<equiv> 32"
abbreviation TOKEN_NOT_EQUAL :: u32 where "TOKEN_NOT_EQUAL \<equiv> 33"
abbreviation TOKEN_LESS_EQUAL :: u32 where "TOKEN_LESS_EQUAL \<equiv> 34"
abbreviation TOKEN_LESS :: u32 where "TOKEN_LESS \<equiv> 35"
abbreviation TOKEN_PLUS :: u32 where "TOKEN_PLUS \<equiv> 46"
abbreviation TOKEN_MINUS :: u32 where "TOKEN_MINUS \<equiv> 47"
abbreviation TOKEN_MUL :: u32 where "TOKEN_MUL \<equiv> 48"
abbreviation TOKEN_SLASH :: u32 where "TOKEN_SLASH \<equiv> 49"
abbreviation TOKEN_AND :: u32 where "TOKEN_AND \<equiv> 58"
abbreviation TOKEN_OR :: u32 where "TOKEN_OR \<equiv> 59"
abbreviation TOKEN_NOT :: u32 where "TOKEN_NOT \<equiv> 62"
abbreviation TOKEN_HEX_CONST :: u32 where "TOKEN_HEX_CONST \<equiv> 66"
abbreviation TOKEN_IN :: u32 where "TOKEN_IN \<equiv> 73"
abbreviation TOKEN_XOR :: u32 where "TOKEN_XOR \<equiv> 75"
abbreviation TOKEN_SHL :: u32 where "TOKEN_SHL \<equiv> 80"
abbreviation TOKEN_SHR :: u32 where "TOKEN_SHR \<equiv> 81"

subsection \<open>Literals\<close>

text \<open>\<open>strtoull\<close> and \<open>atoll\<close> of the C library on bytes: leading white space, a sign, for base 16 a prefix \<open>0x\<close>
  before a digit, the digits. The answer of \<open>strtoull\<close> is the number, whether it was out of range, and the
  rest of the text; both clamp what they cannot hold.\<close>

definition digit_of :: "int \<Rightarrow> byte \<Rightarrow> int option" where
  "digit_of base b =
     (let n = uint b;
          d = (if 48 \<le> n \<and> n \<le> 57 then n - 48 else if 65 \<le> n \<and> n \<le> 90 then n - 55 else if 97 \<le> n \<and> n \<le> 122 then n - 87 else 99)
      in if d < base then Some d else None)"

fun take_digits :: "int \<Rightarrow> int \<Rightarrow> byte list \<Rightarrow> int \<times> byte list" where
  "take_digits base acc [] = (acc, [])"
| "take_digits base acc (b # bs) = (case digit_of base b of None \<Rightarrow> (acc, b # bs) | Some d \<Rightarrow> take_digits base (acc * base + d) bs)"

definition starts_digits :: "int \<Rightarrow> byte list \<Rightarrow> bool" where
  "starts_digits base bs = (case bs of [] \<Rightarrow> False | b # _ \<Rightarrow> digit_of base b \<noteq> None)"

definition c_number :: "int \<Rightarrow> byte list \<Rightarrow> (bool \<times> int \<times> byte list) option" where
  "c_number base s =
     (let s = dropWhile (\<lambda>b. b = 32 \<or> 9 \<le> b \<and> b \<le> 13) s;
          neg = (s \<noteq> [] \<and> hd s = 45);
          s = (if s \<noteq> [] \<and> (hd s = 45 \<or> hd s = 43) then tl s else s);
          s = (if base = 16 \<and> 2 < length s \<and> hd s = 48 \<and> s ! 1 \<in> {88, 120} \<and> starts_digits 16 (drop 2 s) then drop 2 s else s)
      in if starts_digits base s then let (n, rest) = take_digits base 0 s in Some (neg, n, rest) else None)"

definition c_strtoull :: "int \<Rightarrow> byte list \<Rightarrow> u64 \<times> bool \<times> byte list" where
  "c_strtoull base s =
     (case c_number base s of
        None \<Rightarrow> (0, False, s)
      | Some (neg, n, rest) \<Rightarrow>
          if 2 ^ 64 \<le> n then (- 1, True, rest) else (word_of_int (if neg then - n else n), False, rest))"

definition c_atoll :: "byte list \<Rightarrow> int" where
  "c_atoll s =
     (case c_number 10 s of
        None \<Rightarrow> 0
      | Some (neg, n, rest) \<Rightarrow> max (- (2 ^ 63)) (min (2 ^ 63 - 1) (if neg then - n else n)))"

definition decimalLiteralAboveInt64 :: "bool \<Rightarrow> byte list \<Rightarrow> u64 option" where
  "decimalLiteralAboveInt64 pascal s =
     (if \<not> pascal \<or> \<not> starts_digits 10 s then None
      else let (v, erange, rest) = c_strtoull 10 s in
        if erange \<or> rest \<noteq> [] \<or> v \<le> 0x7FFFFFFFFFFFFFFF then None else Some v)"

subsection \<open>The compiler\<close>

type_synonym compile_state = "BytecodeChunk \<times> bool"

record compile_env =
  ce_map :: LineMap
  ce_uninit :: int
  ce_pascal :: bool
  ce_other :: "AST \<Rightarrow> int \<Rightarrow> compile_state \<Rightarrow> compile_state"

definition emit_byte :: "compile_env \<Rightarrow> byte \<Rightarrow> int \<Rightarrow> compile_state \<Rightarrow> compile_state" where
  "emit_byte env b line s = (writeBytecodeChunk (ce_map env) b line (fst s), snd s)"

definition emit_jump :: "compile_env \<Rightarrow> byte \<Rightarrow> int \<Rightarrow> compile_state \<Rightarrow> compile_state" where
  "emit_jump env opcode line s =
     (let s = emit_byte env opcode line s in (emitInt32 (ce_map env) 0xFFFFFFFF line (fst s), snd s))"

definition patch_jump :: "nat \<Rightarrow> compile_state \<Rightarrow> compile_state" where
  "patch_jump jump s =
     (patchInt32 (int (jump + 1)) (word_of_int (int (ch_count (fst s)) - int (jump + 5))) (fst s), snd s)"

definition add_constant :: "compile_env \<Rightarrow> Value \<Rightarrow> compile_state \<Rightarrow> nat \<times> compile_state" where
  "add_constant env v s = (let (i, ch) = addConstantToChunk (ce_uninit env) v (fst s) in (i, ch, snd s))"

definition addIntConstant :: "compile_env \<Rightarrow> int \<Rightarrow> compile_state \<Rightarrow> nat \<times> compile_state" where
  "addIntConstant env intValue =
     add_constant env (if 2 ^ 31 - 1 < intValue \<or> intValue < - (2 ^ 31) then VInt TYPE_INT64 intValue else VInt TYPE_INT32 intValue)"

definition addBooleanConstant :: "compile_env \<Rightarrow> bool \<Rightarrow> compile_state \<Rightarrow> nat \<times> compile_state" where
  "addBooleanConstant env boolValue = add_constant env (VInt TYPE_BOOLEAN (if boolValue then 1 else 0))"

definition emitImmediateConstant :: "compile_env \<Rightarrow> nat \<Rightarrow> int \<Rightarrow> compile_state \<Rightarrow> compile_state option" where
  "emitImmediateConstant env constant_index line s =
     (if ch_constants_count (fst s) \<le> constant_index then None
      else case ch_constants (fst s) ! constant_index of
             VInt t iv \<Rightarrow>
               if t = TYPE_INTEGER then
                 (if iv = 0 then Some (emit_byte env OP_CONST_0 line s)
                  else if iv = 1 then Some (emit_byte env OP_CONST_1 line s)
                  else if - 128 \<le> iv \<and> iv \<le> 127
                  then Some (emit_byte env (word_of_int iv) line (emit_byte env OP_PUSH_IMMEDIATE_INT8 line s))
                  else None)
               else if t = TYPE_BOOLEAN then Some (emit_byte env (if iv \<noteq> 0 then OP_CONST_TRUE else OP_CONST_FALSE) line s)
               else None
           | _ \<Rightarrow> None)"

definition emitConstant :: "compile_env \<Rightarrow> nat \<Rightarrow> int \<Rightarrow> compile_state \<Rightarrow> compile_state" where
  "emitConstant env constant_index line s =
     (case emitImmediateConstant env constant_index line s of
        Some s \<Rightarrow> s
      | None \<Rightarrow>
          if constant_index \<le> 0xFF
          then emit_byte env (of_nat constant_index) line (emit_byte env OP_CONSTANT line s)
          else if constant_index \<le> 0xFFFF
          then (let s = emit_byte env OP_CONSTANT16 line s in (emitShort (ce_map env) (of_nat constant_index) line (fst s), snd s))
          else (fst s, True))"

definition emit_added :: "compile_env \<Rightarrow> int \<Rightarrow> nat \<times> compile_state \<Rightarrow> compile_state" where
  "emit_added env line r = emitConstant env (fst r) line (snd r)"

definition token_line :: "AST \<Rightarrow> int" where
  "token_line node = (case node of Null \<Rightarrow> 0 | Node info _ _ _ _ \<Rightarrow> (case ai_token info of None \<Rightarrow> 0 | Some t \<Rightarrow> tk_line t))"

definition getLine :: "AST \<Rightarrow> int" where
  "getLine node =
     (case node of
        Null \<Rightarrow> 0
      | Node info left right extra children \<Rightarrow>
          if 0 < token_line node then token_line node
          else if 0 < token_line left then token_line left
          else if children \<noteq> [] \<and> 0 < token_line (hd children) then token_line (hd children)
          else 0)"

definition token_kind :: "ASTInfo \<Rightarrow> u32 option" where
  "token_kind info = map_option tk_type (ai_token info)"

text \<open>Whether \<open>and\<close> and \<open>or\<close> are bitwise: the annotated types decide.\<close>

definition bitwise_annotated :: "ASTInfo \<Rightarrow> AST \<Rightarrow> bool" where
  "bitwise_annotated info left \<longleftrightarrow>
     ai_var_type info \<noteq> ucast (TYPE_BOOLEAN :: u8)
     \<and> (case left of Null \<Rightarrow> False
        | Node l _ _ _ _ \<Rightarrow> ai_var_type l < 256 \<and> isIntlikeType (ucast (ai_var_type l)))"

definition binary_opcode :: "u32 \<Rightarrow> u8 option" where
  "binary_opcode t =
     (if t = TOKEN_PLUS then Some OP_ADD else if t = TOKEN_MINUS then Some OP_SUBTRACT
      else if t = TOKEN_MUL then Some OP_MULTIPLY else if t = TOKEN_SLASH then Some OP_DIVIDE
      else if t = TOKEN_INT_DIV then Some OP_INT_DIV else if t = TOKEN_MOD then Some OP_MOD
      else if t = TOKEN_SHL then Some OP_SHL else if t = TOKEN_SHR then Some OP_SHR
      else if t = TOKEN_EQUAL then Some OP_EQUAL else if t = TOKEN_NOT_EQUAL then Some OP_NOT_EQUAL
      else if t = TOKEN_LESS then Some OP_LESS else if t = TOKEN_LESS_EQUAL then Some OP_LESS_EQUAL
      else if t = TOKEN_GREATER then Some OP_GREATER else if t = TOKEN_GREATER_EQUAL then Some OP_GREATER_EQUAL
      else if t = TOKEN_IN then Some OP_IN else None)"

definition unary_opcode :: "u32 \<Rightarrow> u8 option" where
  "unary_opcode t = (if t = TOKEN_MINUS then Some OP_NEGATE else if t = TOKEN_NOT then Some OP_NOT else None)"

definition emit_operator :: "compile_env \<Rightarrow> (u32 \<Rightarrow> u8 option) \<Rightarrow> u32 option \<Rightarrow> int \<Rightarrow> compile_state \<Rightarrow> compile_state" where
  "emit_operator env opcodes t line s =
     (case t of None \<Rightarrow> s
      | Some t \<Rightarrow> (case opcodes t of Some opcode \<Rightarrow> emit_byte env opcode line s | None \<Rightarrow> (fst s, True)))"

definition compile_number :: "compile_env \<Rightarrow> AST \<Rightarrow> Token \<Rightarrow> int \<Rightarrow> compile_state \<Rightarrow> compile_state" where
  "compile_number env node tok line s =
     (case tk_value tok of
        None \<Rightarrow> s
      | Some text_value \<Rightarrow>
          if tk_type tok = TOKEN_REAL_CONST then ce_other env node line s
          else if tk_type tok = TOKEN_HEX_CONST
          then emit_added env line (addIntConstant env (sint (fst (c_strtoull 16 text_value))) s)
          else
            (case decimalLiteralAboveInt64 (ce_pascal env) text_value of
               Some big \<Rightarrow> emit_added env line (add_constant env (VInt TYPE_UINT64 (uint big)) s)
             | None \<Rightarrow> emit_added env line (addIntConstant env (c_atoll text_value) s)))"

fun compileRValue :: "compile_env \<Rightarrow> AST \<Rightarrow> int \<Rightarrow> compile_state \<Rightarrow> compile_state" where
  "compileRValue env Null current_line s = s"
| "compileRValue env (Node info left right extra children) current_line s =
     (let node = Node info left right extra children;
          line = (if getLine node \<le> 0 then current_line else getLine node);
          t = token_kind info
      in
      if ai_type info = AST_NUMBER then
        (case ai_token info of None \<Rightarrow> s | Some tok \<Rightarrow> compile_number env node tok line s)
      else if ai_type info = AST_BOOLEAN then
        emit_added env line (addBooleanConstant env (ai_i_val info \<noteq> 0) s)
      else if ai_type info = AST_BINARY_OP then
        (if t = Some TOKEN_AND then
           (if bitwise_annotated info left then emit_byte env OP_AND line (compileRValue env right (getLine right) (compileRValue env left (getLine left) s))
            else
              let s = compileRValue env left (getLine left) s;
                  jump_if_false = ch_count (fst s);
                  s = emit_jump env OP_JUMP_IF_FALSE line s;
                  s = emit_byte env OP_TO_BOOL line (compileRValue env right (getLine right) s);
                  jump_over_false_case = ch_count (fst s);
                  s = patch_jump jump_if_false (emit_jump env OP_JUMP line s);
                  s = emit_added env line (addBooleanConstant env False s)
              in patch_jump jump_over_false_case s)
         else if t = Some TOKEN_OR then
           (if bitwise_annotated info left then emit_byte env OP_OR line (compileRValue env right (getLine right) (compileRValue env left (getLine left) s))
            else
              let s = compileRValue env left (getLine left) s;
                  jump_if_false = ch_count (fst s);
                  s = emit_jump env OP_JUMP_IF_FALSE line s;
                  s = emit_added env line (addBooleanConstant env True s);
                  jump_to_end = ch_count (fst s);
                  s = patch_jump jump_if_false (emit_jump env OP_JUMP line s);
                  s = emit_byte env OP_TO_BOOL line (compileRValue env right (getLine right) s)
              in patch_jump jump_to_end s)
         else if t = Some TOKEN_XOR then emit_byte env OP_XOR line (compileRValue env right (getLine right) (compileRValue env left (getLine left) s))
         else emit_operator env binary_opcode t line (compileRValue env right (getLine right) (compileRValue env left (getLine left) s)))
      else if ai_type info = AST_UNARY_OP then
        emit_operator env unary_opcode t line (compileRValue env left (getLine left) s)
      else if ai_type info = AST_TERNARY then
        (if left = Null \<or> right = Null \<or> extra = Null then (fst s, True)
         else
           let s = compileRValue env left (getLine left) s;
               jumpToElse = ch_count (fst s);
               s = emit_jump env OP_JUMP_IF_FALSE line s;
               s = compileRValue env right (getLine right) s;
               jumpToEnd = ch_count (fst s);
               s = patch_jump jumpToElse (emit_jump env OP_JUMP line s);
               s = compileRValue env extra (getLine extra) s
           in patch_jump jumpToEnd s)
      else ce_other env node line s)"

subsection \<open>What an expression means\<close>

text \<open>The value of an expression, by recursion on the tree and without code: both operands from left to right, the
  logical operators and the conditional only as far as they need.\<close>

definition binary_operator :: "run_env \<Rightarrow> u32 \<Rightarrow> (ValueStruct \<Rightarrow> ValueStruct \<Rightarrow> arith_error + ValueStruct) option" where
  "binary_operator renv t =
     (if t = TOKEN_PLUS then Some (binary_int (re_aether renv) OpAdd)
      else if t = TOKEN_MINUS then Some (binary_int (re_aether renv) OpSubtract)
      else if t = TOKEN_MUL then Some (binary_int (re_aether renv) OpMultiply)
      else if t = TOKEN_INT_DIV then Some instr_INT_DIV
      else if t = TOKEN_MOD then Some instr_MOD
      else if t = TOKEN_SHL then Some (instr_SHIFT True)
      else if t = TOKEN_SHR then Some (instr_SHIFT False)
      else if t = TOKEN_AND then Some (instr_bits BitAnd)
      else if t = TOKEN_OR then Some (instr_bits BitOr)
      else if t = TOKEN_XOR then Some (instr_bits BitXor)
      else if t = TOKEN_EQUAL then Some (compare_int CmpEqual)
      else if t = TOKEN_NOT_EQUAL then Some (compare_int CmpNotEqual)
      else if t = TOKEN_LESS then Some (compare_int CmpLess)
      else if t = TOKEN_LESS_EQUAL then Some (compare_int CmpLessEqual)
      else if t = TOKEN_GREATER then Some (compare_int CmpGreater)
      else if t = TOKEN_GREATER_EQUAL then Some (compare_int CmpGreaterEqual)
      else None)"

definition literal_value :: "bool \<Rightarrow> u32 \<Rightarrow> byte list \<Rightarrow> ValueStruct" where
  "literal_value pascal t s =
     (if t = TOKEN_HEX_CONST then pscalIntResultNarrow (fst (c_strtoull 16 s))
      else case decimalLiteralAboveInt64 pascal s of
             Some big \<Rightarrow> makeUInt64 big
           | None \<Rightarrow> pscalIntResultNarrow (word_of_int (c_atoll s)))"

text \<open>The expressions with a modelled meaning.\<close>

fun plain_expr :: "run_env \<Rightarrow> AST \<Rightarrow> bool" where
  "plain_expr renv Null \<longleftrightarrow> False"
| "plain_expr renv (Node info left right extra children) \<longleftrightarrow>
     (if ai_type info = AST_NUMBER then
        (case ai_token info of None \<Rightarrow> False | Some tok \<Rightarrow> tk_value tok \<noteq> None \<and> tk_type tok \<noteq> TOKEN_REAL_CONST)
      else if ai_type info = AST_BOOLEAN then True
      else if ai_type info = AST_BINARY_OP then
        (case token_kind info of None \<Rightarrow> False | Some t \<Rightarrow> binary_operator renv t \<noteq> None)
        \<and> plain_expr renv left \<and> plain_expr renv right
      else if ai_type info = AST_UNARY_OP then
        token_kind info \<in> {Some TOKEN_MINUS, Some TOKEN_NOT} \<and> plain_expr renv left
      else ai_type info = AST_TERNARY \<and> plain_expr renv left \<and> plain_expr renv right \<and> plain_expr renv extra)"

definition as_truth :: "run_env \<Rightarrow> run_error + ValueStruct \<Rightarrow> run_error + bool" where
  "as_truth renv r = ebind r (truth_value renv)"

fun expr_value :: "bool \<Rightarrow> run_env \<Rightarrow> AST \<Rightarrow> run_error + ValueStruct" where
  "expr_value pascal renv Null = Inl Underflow"
| "expr_value pascal renv (Node info left right extra children) =
     (if ai_type info = AST_NUMBER then
        (case ai_token info of
           Some tok \<Rightarrow> (case tk_value tok of Some s \<Rightarrow> Inr (literal_value pascal (tk_type tok) s) | None \<Rightarrow> Inl Underflow)
         | None \<Rightarrow> Inl Underflow)
      else if ai_type info = AST_BOOLEAN then Inr (makeBool (ai_i_val info \<noteq> 0))
      else if ai_type info = AST_BINARY_OP then
        (if token_kind info = Some TOKEN_AND \<and> \<not> bitwise_annotated info left then
           ebind (as_truth renv (expr_value pascal renv left)) (\<lambda>t.
             if t then map_sum id makeBool (as_truth renv (expr_value pascal renv right)) else Inr (makeBool False))
         else if token_kind info = Some TOKEN_OR \<and> \<not> bitwise_annotated info left then
           ebind (as_truth renv (expr_value pascal renv left)) (\<lambda>t.
             if t then Inr (makeBool True) else map_sum id makeBool (as_truth renv (expr_value pascal renv right)))
         else
           (case token_kind info of
              Some t \<Rightarrow>
                (case binary_operator renv t of
                   Some f \<Rightarrow> ebind (expr_value pascal renv left) (\<lambda>a. ebind (expr_value pascal renv right) (\<lambda>b. lift_arith (f a b)))
                 | None \<Rightarrow> Inl Underflow)
            | None \<Rightarrow> Inl Underflow))
      else if ai_type info = AST_UNARY_OP then
        (if token_kind info = Some TOKEN_MINUS then ebind (expr_value pascal renv left) (\<lambda>v. lift_arith (instr_NEGATE v))
         else map_sum id (\<lambda>t. makeBool (\<not> t)) (as_truth renv (expr_value pascal renv left)))
      else
        ebind (as_truth renv (expr_value pascal renv left)) (\<lambda>t.
          if t then expr_value pascal renv right else expr_value pascal renv extra))"

subsection \<open>The compiler only appends\<close>

definition grows :: "compile_state \<Rightarrow> byte list \<Rightarrow> compile_state \<Rightarrow> bool" where
  "grows s bytes s' \<longleftrightarrow>
     ch_code (fst s') = ch_code (fst s) @ bytes
     \<and> (\<exists>new. ch_constants (fst s') = ch_constants (fst s) @ new)
     \<and> (snd s \<longrightarrow> snd s')
     \<and> (snd s' \<longrightarrow> snd s \<or> 65536 < ch_constants_count (fst s'))"

lemma grows_refl [simp]: "grows s [] s"
  by (simp add: grows_def)

lemma grows_trans: "grows s bs s1 \<Longrightarrow> grows s1 bs' s2 \<Longrightarrow> grows s (bs @ bs') s2"
  by (auto simp: grows_def)

lemma grows_byte: "grows s [b] (emit_byte env b line s)"
  by (simp add: grows_def emit_byte_def chunk_code.contents_put writeBytecodeChunk_def Let_def)

lemma grows_emitted: "grows s bs s' \<Longrightarrow> grows s (bs @ [b]) (emit_byte env b line s')"
  by (rule grows_trans [OF _ grows_byte])

lemma constants_emitInt32: "ch_constants (emitInt32 dm v line ch) = ch_constants ch"
  "ch_constants (emitShort dm w line ch) = ch_constants ch"
  by (simp_all add: emitInt32_def emitShort_def writeBytecodeChunk_def Let_def)

lemma grows_jump: "grows s bs s' \<Longrightarrow> grows s (bs @ opcode # u32_bytes_be 0xFFFFFFFF) (emit_jump env opcode line s')"
  using grows_byte [of s' opcode env line]
  by (auto simp: grows_def emit_jump_def Let_def emitInt32_code constants_emitInt32)

lemma constants_patchInt32: "ch_constants (patchInt32 i v ch) = ch_constants ch"
  by (simp add: patchInt32_def Let_def)

lemma grows_patch:
  assumes "grows s (bs @ opcode # u32_bytes_be w @ bs') s'" and "jump = ch_count (fst s) + length bs"
  shows "grows s (bs @ opcode # rel_jump (length bs') @ bs') (patch_jump jump s')"
proof -
  let ?pre = "ch_code (fst s) @ bs @ [opcode]"
  have code: "ch_code (fst s') = ?pre @ u32_bytes_be w @ bs'" using assms(1) by (simp add: grows_def)
  have at: "jump + 1 = length ?pre" using assms(2) by simp
  have "length ?pre + 3 < ch_count (fst s')" unfolding code by simp
  then have patched: "ch_code (patchInt32 (int (length ?pre)) v (fst s')) = ?pre @ u32_bytes_be v @ bs'" for v
    by (simp only: patchInt32_code code u32_bytes_be_def update4_append)
  have distance: "int (ch_count (fst s')) - int (jump + 5) = int (length bs')" unfolding code using assms(2) by simp
  have "ch_code (fst (patch_jump jump s')) = ?pre @ rel_jump (length bs') @ bs'"
    unfolding patch_jump_def fst_conv distance rel_jump_def at by (rule patched)
  then show ?thesis
    using assms(1) unfolding grows_def by (simp add: patch_jump_def constants_patchInt32)
qed

definition compiled :: "run_env \<Rightarrow> compile_state \<Rightarrow> compile_state \<Rightarrow> run_error + ValueStruct \<Rightarrow> bool" where
  "compiled renv s s' r \<longleftrightarrow> (\<exists>bytes. grows s bytes s' \<and> (\<not> snd s' \<longrightarrow> computes renv bytes (ch_constants (fst s')) r))"

lemma compiled_constant:
  assumes idx: "idx < ch_constants_count (fst s)" and c: "ch_constants (fst s) ! idx = VInt t i"
    and ok: "t = TYPE_INT32 \<and> v = makeInt32 (word_of_int i) \<or> t = TYPE_BOOLEAN \<and> v = makeBool (i \<noteq> 0)
      \<or> t \<in> {TYPE_INT64, TYPE_UINT64} \<and> v = makeScalar t (word_of_int i)"
  shows "compiled renv s (emitConstant env idx line s) (Inr v)"
proof -
  have byte1: "compiled renv s (emit_byte env b line s) r" if "computes renv [b] (ch_constants (fst s)) r" for b r
    unfolding compiled_def
    by (intro exI conjI, rule grows_byte) (simp add: that emit_byte_def writeBytecodeChunk_def Let_def)
  have byte2: "compiled renv s (emit_byte env b' line (emit_byte env b line s)) r"
    if "computes renv [b, b'] (ch_constants (fst s)) r" for b b' r
    unfolding compiled_def using grows_emitted [OF grows_byte]
    by (intro exI conjI, assumption) (simp add: that emit_byte_def writeBytecodeChunk_def Let_def)
  have short: "sint (word_of_int i :: u8) = i" if "- 128 \<le> i" "i \<le> 127"
    using that by (simp add: signed_of_int signed_take_bit_int_eq_self)
  have imm: "scast (word_of_int i :: u8) = (word_of_int i :: u64)" if "- 128 \<le> i" "i \<le> 127"
    using short [OF that] by (simp only: scast_eq)
  have wide: "const_value (VInt t i) = Some v" if "t \<noteq> TYPE_BOOLEAN"
    using ok that by (auto simp: makeInt32_def)
  show ?thesis
  proof (cases "emitImmediateConstant env idx line s")
    case (Some s')
    have t: "t = TYPE_INT32 \<and> v = makeInt32 (word_of_int i) \<or> t = TYPE_BOOLEAN \<and> v = makeBool (i \<noteq> 0)"
      using Some idx c ok by (auto simp: emitImmediateConstant_def split: if_splits)
    have "compiled renv s s' (Inr v)"
    proof (cases "t = TYPE_BOOLEAN")
      case True
      then show ?thesis
        using Some idx c t byte1 [OF computes_pushes(3) [where b = "i \<noteq> 0"]] by (auto simp: emitImmediateConstant_def)
    next
      case False
      then show ?thesis
        using Some idx c t byte1 [OF computes_pushes(1)] byte1 [OF computes_pushes(2)]
          byte2 [OF computes_pushes(4) [where x = "word_of_int i"]] imm
        by (auto simp: emitImmediateConstant_def split: if_splits)
    qed
    then show ?thesis by (simp add: emitConstant_def Some)
  next
    case None
    then have t: "t \<noteq> TYPE_BOOLEAN" using idx c by (auto simp: emitImmediateConstant_def)
    have const: "const_value (ch_constants (fst s) ! idx) = Some v" using wide [OF t] c by simp
    show ?thesis
    proof (cases "idx \<le> 65535")
      case True
      have "compiled renv s (emitShort (ce_map env) (of_nat idx) line (fst (emit_byte env OP_CONSTANT16 line s)),
          snd (emit_byte env OP_CONSTANT16 line s)) (Inr v)"
        unfolding compiled_def
        by (intro exI [of _ "OP_CONSTANT16 # u16_bytes_be (of_nat idx)"])
          (simp add: computes_constant(2) [OF idx const True] grows_def emitShort_code constants_emitInt32
            emit_byte_def writeBytecodeChunk_def Let_def)
      then show ?thesis
        using byte2 [OF computes_constant(1) [OF idx const]] True None by (simp add: emitConstant_def Let_def)
    next
      case False
      then show ?thesis
        using idx None unfolding compiled_def
        by (intro exI [of _ "[]"]) (simp add: emitConstant_def grows_def)
    qed
  qed
qed

lemma compiled_added:
  assumes "t = TYPE_INT32 \<and> v = makeInt32 (word_of_int i) \<or> t = TYPE_BOOLEAN \<and> v = makeBool (i \<noteq> 0)
      \<or> t \<in> {TYPE_INT64, TYPE_UINT64} \<and> v = makeScalar t (word_of_int i)"
  shows "compiled renv s (emit_added env line (add_constant env (VInt t i) s)) (Inr v)"
proof -
  obtain idx s' where added: "add_constant env (VInt t i) s = (idx, s')" by (meson surj_pair)
  have s': "grows s [] s' \<and> idx < ch_constants_count (fst s') \<and> ch_constants (fst s') ! idx = VInt t i"
  proof (cases "find_constant (ch_constants (fst s)) 0 (VInt t i)")
    case None
    then show ?thesis
      using added addConstant_fresh [OF None, of "ce_uninit env"]
      by (auto simp: add_constant_def grows_def split: prod.splits)
  next
    case (Some k)
    have "k < ch_constants_count (fst s) \<and> same_constant (ch_constants (fst s) ! k) (VInt t i)"
      using find_constant_Some [OF Some] by simp
    moreover have "idx = k \<and> s' = s" using added by (auto simp: add_constant_def addConstant_found [OF Some])
    moreover have "same_constant c (VInt t i) \<Longrightarrow> c = VInt t i" for c by (cases c) auto
    ultimately show ?thesis by simp
  qed
  then obtain bytes where "grows s' bytes (emitConstant env idx line s')"
    "\<not> snd (emitConstant env idx line s') \<longrightarrow> computes renv bytes (ch_constants (fst (emitConstant env idx line s'))) (Inr v)"
    using compiled_constant [of idx s' t i v renv env line] assms unfolding compiled_def by blast
  moreover from this(1) have "grows s ([] @ bytes) (emitConstant env idx line s')" using s' grows_trans by blast
  ultimately show ?thesis by (auto simp: compiled_def emit_added_def added)
qed

lemma compiled_boolean: "compiled renv s (emit_added env line (addBooleanConstant env b s)) (Inr (makeBool b))"
  unfolding addBooleanConstant_def by (rule compiled_added) simp

lemma compiled_int:
  assumes "- (2 ^ 63) \<le> i" "i < 2 ^ 63"
  shows "compiled renv s (emit_added env line (addIntConstant env i s)) (Inr (pscalIntResultNarrow (word_of_int i)))"
proof -
  have "sint (word_of_int i :: u64) = i" using assms by (simp add: signed_of_int signed_take_bit_int_eq_self)
  then show ?thesis
    unfolding addIntConstant_def pscalIntResultNarrow_def
    by (auto intro!: compiled_added simp: makeInt64_def)
qed

subsection \<open>Composing compiled pieces\<close>

lemma computes_later: "computes renv bs (ch_constants (fst s)) r \<Longrightarrow> grows s bs' s' \<Longrightarrow> computes renv bs (ch_constants (fst s')) r"
  by (auto simp: grows_def computes_more)

lemma grows_error: "grows s bs s' \<Longrightarrow> \<not> snd s' \<Longrightarrow> \<not> snd s"
  by (simp add: grows_def)

lemma emitted_state: "snd (emit_byte env b line s) = snd s" "ch_constants (fst (emit_byte env b line s)) = ch_constants (fst s)"
  by (simp_all add: emit_byte_def writeBytecodeChunk_def Let_def)

lemma patched_state: "snd (patch_jump j s) = snd s" "ch_constants (fst (patch_jump j s)) = ch_constants (fst s)"
  by (simp_all add: patch_jump_def constants_patchInt32)

lemma compiled_unary:
  assumes "compiled renv s s1 r" "opcode \<in> {OP_NEGATE, OP_NOT, OP_TO_BOOL}"
  shows "compiled renv s (emit_byte env opcode line s1) (ebind r (unary_result renv opcode))"
  using assms(1) computes_unary [OF _ assms(2)] grows_emitted unfolding compiled_def emitted_state by blast

lemma compiled_binary:
  assumes "compiled renv s s1 rl" "compiled renv s1 s2 rr" "binary_instr renv opcode = Some f"
  shows "compiled renv s (emit_byte env opcode line s2) (ebind rl (\<lambda>a. ebind rr (\<lambda>b. lift_arith (f a b))))"
proof -
  obtain bl where l: "grows s bl s1" "\<not> snd s1 \<longrightarrow> computes renv bl (ch_constants (fst s1)) rl"
    using assms(1) by (auto simp: compiled_def)
  obtain br where r: "grows s1 br s2" "\<not> snd s2 \<longrightarrow> computes renv br (ch_constants (fst s2)) rr"
    using assms(2) by (auto simp: compiled_def)
  have "grows s (bl @ br @ [opcode]) (emit_byte env opcode line s2)"
    using grows_emitted [OF grows_trans [OF l(1) r(1)]] by simp
  moreover have "computes renv (bl @ br @ [opcode]) (ch_constants (fst s2)) (ebind rl (\<lambda>a. ebind rr (\<lambda>b. lift_arith (f a b))))"
    if "\<not> snd s2"
    using computes_binary [OF computes_later [OF _ r(1)] _ assms(3)] l(2) r(2) grows_error [OF r(1)] that by blast
  ultimately show ?thesis unfolding compiled_def emitted_state by blast
qed

lemma compiled_choice:
  assumes c: "compiled renv s s1 rc" and t: "compiled renv (emit_jump env OP_JUMP_IF_FALSE line s1) s3 rt"
    and e: "compiled renv (patch_jump (ch_count (fst s1)) (emit_jump env OP_JUMP line s3)) s5 re"
  shows "compiled renv s (patch_jump (ch_count (fst s3)) s5)
    (ebind rc (\<lambda>v. ebind (truth_value renv v) (\<lambda>b. if b then rt else re)))"
proof -
  let ?s2 = "emit_jump env OP_JUMP_IF_FALSE line s1" and ?s3' = "emit_jump env OP_JUMP line s3"
  let ?s4 = "patch_jump (ch_count (fst s1)) ?s3'" and ?ff = "u32_bytes_be 0xFFFFFFFF"
  obtain bc where bc: "grows s bc s1" "\<not> snd s1 \<longrightarrow> computes renv bc (ch_constants (fst s1)) rc"
    using c by (auto simp: compiled_def)
  obtain bt where bt: "grows ?s2 bt s3" "\<not> snd s3 \<longrightarrow> computes renv bt (ch_constants (fst s3)) rt"
    using t by (auto simp: compiled_def)
  obtain be where be: "grows ?s4 be s5" "\<not> snd s5 \<longrightarrow> computes renv be (ch_constants (fst s5)) re"
    using e by (auto simp: compiled_def)
  have j1: "grows s1 (OP_JUMP_IF_FALSE # ?ff) ?s2" and j3: "grows s3 (OP_JUMP # ?ff) ?s3'"
    using grows_jump [OF grows_refl, of _ OP_JUMP_IF_FALSE env line] grows_jump [OF grows_refl, of _ OP_JUMP env line] by simp_all
  have g3: "grows s (bc @ OP_JUMP_IF_FALSE # ?ff @ bt) s3"
    using grows_trans [OF grows_trans [OF bc(1) j1] bt(1)] by simp
  have "grows s (bc @ OP_JUMP_IF_FALSE # ?ff @ (bt @ OP_JUMP # ?ff)) ?s3'" using grows_trans [OF g3 j3] by simp
  from grows_patch [OF this, of "ch_count (fst s1)"]
  have g4: "grows s (bc @ OP_JUMP_IF_FALSE # rel_jump (length bt + 5) @ bt @ OP_JUMP # ?ff) ?s4"
    using bc(1) by (simp add: grows_def)
  have "grows s ((bc @ OP_JUMP_IF_FALSE # rel_jump (length bt + 5) @ bt) @ OP_JUMP # ?ff @ be) s5"
    using grows_trans [OF g4 be(1)] by simp
  from grows_patch [OF this, of "ch_count (fst s3)"]
  have "grows s (choice_code bc bt be) (patch_jump (ch_count (fst s3)) s5)"
    using g3 by (simp add: grows_def choice_code_def)
  moreover have "computes renv (choice_code bc bt be) (ch_constants (fst s5))
      (ebind rc (\<lambda>v. ebind (truth_value renv v) (\<lambda>b. if b then rt else re)))" if ok5: "\<not> snd s5"
  proof -
    have ok3: "\<not> snd s3" using grows_error [OF be(1) ok5] grows_error [OF j3] by (simp add: patched_state)
    then have ok1: "\<not> snd s1" using grows_error [OF bt(1)] grows_error [OF j1] by blast
    have from3: "computes renv bs (ch_constants (fst s3)) r \<Longrightarrow> computes renv bs (ch_constants (fst s5)) r" for bs r
      using computes_later [OF _ j3, of renv bs r] computes_later [OF _ be(1), of renv bs r] by (simp add: patched_state)
    have "computes renv bc (ch_constants (fst s3)) rc"
      using computes_later [OF computes_later [OF _ j1] bt(1)] bc(2) ok1 by blast
    then show ?thesis using computes_choice from3 bt(2) ok3 be(2) ok5 by blast
  qed
  ultimately show ?thesis unfolding compiled_def patched_state by blast
qed

lemma c_atoll_range: "- (2 ^ 63) \<le> c_atoll s" "c_atoll s < 2 ^ 63"
  by (auto simp: c_atoll_def split: option.split prod.split)

lemma compiled_number:
  assumes "tk_value tok = Some txt" "tk_type tok \<noteq> TOKEN_REAL_CONST"
  shows "compiled renv s (compile_number env node tok line s) (Inr (literal_value (ce_pascal env) (tk_type tok) txt))"
proof (cases "tk_type tok = TOKEN_HEX_CONST")
  case True
  then show ?thesis
    using compiled_int [of "sint (fst (c_strtoull 16 txt))"] sint_ge [of "fst (c_strtoull 16 txt)"] sint_lt [of "fst (c_strtoull 16 txt)"]
    by (simp add: compile_number_def literal_value_def assms(1))
next
  case False
  show ?thesis
  proof (cases "decimalLiteralAboveInt64 (ce_pascal env) txt")
    case None
    then show ?thesis
      using False assms compiled_int [OF c_atoll_range] by (simp add: compile_number_def literal_value_def)
  next
    case (Some big)
    have "compiled renv s (emit_added env line (add_constant env (VInt TYPE_UINT64 (uint big)) s)) (Inr (makeUInt64 big))"
      by (rule compiled_added) (simp add: makeUInt64_def)
    then show ?thesis using Some False assms by (simp add: compile_number_def literal_value_def)
  qed
qed

lemma as_truth_choice:
  "ebind r (\<lambda>v. ebind (truth_value renv v) (\<lambda>b. if b then x else y)) = ebind (as_truth renv r) (\<lambda>b. if b then x else y)"
  by (cases r) (simp_all add: as_truth_def)

lemma to_bool_result: "ebind r (unary_result renv OP_TO_BOOL) = map_sum id makeBool (as_truth renv r)"
  by (cases r) (auto simp: as_truth_def unary_result_def truth_value_def split: option.split)

lemma compiled_truth:
  "compiled renv s s1 r \<Longrightarrow> compiled renv s (emit_byte env OP_TO_BOOL line s1) (map_sum id makeBool (as_truth renv r))"
  using compiled_unary [of renv s s1 r OP_TO_BOOL env line] by (simp add: to_bool_result)

lemma not_result: "ebind r (unary_result renv OP_NOT) = map_sum id (\<lambda>t. makeBool (\<not> t)) (as_truth renv r)"
  by (cases r) (auto simp: as_truth_def unary_result_def truth_value_def split: option.split)

lemma negate_result: "unary_result renv OP_NEGATE = (\<lambda>v. lift_arith (instr_NEGATE v))"
  by (simp add: unary_result_def fun_eq_iff)

text \<open>Which instruction an operator compiles to computes the operator.\<close>

lemma operator_instruction:
  assumes "binary_operator renv t = Some f" "t \<notin> {TOKEN_AND, TOKEN_OR, TOKEN_XOR}"
  shows "\<exists>opcode. binary_opcode t = Some opcode \<and> binary_instr renv opcode = Some f"
  using assms by (auto simp: binary_operator_def binary_opcode_def binary_instr_def split: if_splits)

lemma logical_instruction:
  "binary_operator renv TOKEN_AND = binary_instr renv OP_AND" "binary_operator renv TOKEN_OR = binary_instr renv OP_OR"
  "binary_operator renv TOKEN_XOR = binary_instr renv OP_XOR"
  by (simp_all add: binary_operator_def binary_instr_def)

lemma other_kinds_not_plain:
  "ai_type info \<notin> {AST_NUMBER, AST_BOOLEAN, AST_BINARY_OP, AST_UNARY_OP, AST_TERNARY} \<Longrightarrow>
   \<not> plain_expr renv (Node info left right extra children)"
  by simp

lemma compileRValue_computes:
  "plain_expr renv node \<Longrightarrow> compiled renv s (compileRValue env node line s) (expr_value (ce_pascal env) renv node)"
proof (induction node arbitrary: line s)
  case (Node info left right extra children)
  let ?node = "Node info left right extra children"
  let ?line = "if getLine ?node \<le> 0 then line else getLine ?node"
  consider (number) "ai_type info = AST_NUMBER" | (boolean) "ai_type info = AST_BOOLEAN"
    | (binary) "ai_type info = AST_BINARY_OP" | (unary) "ai_type info = AST_UNARY_OP" | (ternary) "ai_type info = AST_TERNARY"
    using other_kinds_not_plain [of info] Node.prems by blast
  then show ?case
  proof cases
    case number
    then obtain tok lit where "ai_token info = Some tok" "tk_value tok = Some lit" "tk_type tok \<noteq> TOKEN_REAL_CONST"
      using Node.prems by (auto split: option.splits)
    then show ?thesis using compiled_number number by (simp add: Let_def)
  next
    case boolean
    then show ?thesis using compiled_boolean by (simp add: Let_def)
  next
    case binary
    then obtain t f where t: "token_kind info = Some t" and f: "binary_operator renv t = Some f"
      and left: "plain_expr renv left" and right: "plain_expr renv right"
      using Node.prems by (auto split: option.splits)
    note both = compiled_binary [OF Node.IH(1) [OF left, of s "getLine left"] Node.IH(2) [OF right, of _ "getLine right"]]
    have meaning: "expr_value (ce_pascal env) renv ?node =
        ebind (expr_value (ce_pascal env) renv left) (\<lambda>a. ebind (expr_value (ce_pascal env) renv right) (\<lambda>b. lift_arith (f a b)))"
      if "t \<in> {TOKEN_AND, TOKEN_OR} \<Longrightarrow> bitwise_annotated info left"
      using binary t f that by auto
    consider (and_logic) "t = TOKEN_AND" "\<not> bitwise_annotated info left" | (or_logic) "t = TOKEN_OR" "\<not> bitwise_annotated info left"
      | (bits) "t \<in> {TOKEN_AND, TOKEN_OR}" "bitwise_annotated info left" | (xor) "t = TOKEN_XOR"
      | (other) "t \<notin> {TOKEN_AND, TOKEN_OR, TOKEN_XOR}" by auto
    then show ?thesis
    proof cases
      case and_logic
      then show ?thesis
        using binary t compiled_choice [OF Node.IH(1) [OF left] compiled_truth [OF Node.IH(2) [OF right]] compiled_boolean]
        by (simp add: Let_def as_truth_choice)
    next
      case or_logic
      then show ?thesis
        using binary t compiled_choice [OF Node.IH(1) [OF left] compiled_boolean compiled_truth [OF Node.IH(2) [OF right]]]
        by (simp add: Let_def as_truth_choice)
    next
      case bits
      then show ?thesis
        using binary t f both logical_instruction meaning by (auto simp: Let_def)
    next
      case xor
      then show ?thesis using binary t f both logical_instruction meaning by (simp add: Let_def)
    next
      case other
      then obtain opcode where "binary_opcode t = Some opcode" "binary_instr renv opcode = Some f"
        using operator_instruction [OF f] by blast
      then show ?thesis using binary t other both meaning by (simp add: Let_def emit_operator_def)
    qed
  next
    case unary
    then have left: "plain_expr renv left" and kind: "token_kind info = Some TOKEN_MINUS \<or> token_kind info = Some TOKEN_NOT"
      using Node.prems by auto
    have code: "compileRValue env ?node line s = emit_operator env unary_opcode (token_kind info) ?line (compileRValue env left (getLine left) s)"
      using unary by (simp add: Let_def)
    note operand = compiled_unary [OF Node.IH(1) [OF left, of s "getLine left"]]
    from kind show ?thesis
    proof
      assume minus: "token_kind info = Some TOKEN_MINUS"
      have "expr_value (ce_pascal env) renv ?node = ebind (expr_value (ce_pascal env) renv left) (unary_result renv OP_NEGATE)"
        using unary minus by (simp add: negate_result)
      then show ?thesis unfolding code using operand by (simp add: emit_operator_def unary_opcode_def minus)
    next
      assume negation: "token_kind info = Some TOKEN_NOT"
      have "expr_value (ce_pascal env) renv ?node = ebind (expr_value (ce_pascal env) renv left) (unary_result renv OP_NOT)"
        using unary negation by (simp add: not_result)
      then show ?thesis unfolding code using operand by (simp add: emit_operator_def unary_opcode_def negation)
    qed
  next
    case ternary
    then have parts: "plain_expr renv left" "plain_expr renv right" "plain_expr renv extra"
      using Node.prems by auto
    then have "left \<noteq> Null" "right \<noteq> Null" "extra \<noteq> Null" by auto
    then show ?thesis
      using ternary compiled_choice [OF Node.IH(1) [OF parts(1)] Node.IH(2) [OF parts(2)] Node.IH(3) [OF parts(3)]]
      by (simp add: Let_def as_truth_choice)
  qed
qed simp

subsection \<open>Compiled expressions compute their value\<close>

lemma compiled_runs:
  assumes "plain_expr renv node"
    and "ch_count (fst (compileRValue env node line (ch, False))) < 2 ^ 31"
    and "ch_constants_count (fst (compileRValue env node line (ch, False))) \<le> 65536"
  shows "\<not> snd (compileRValue env node line (ch, False))
    \<and> ends renv (fst (compileRValue env node line (ch, False))) (ch_count ch, st)
        (map_sum id (\<lambda>v. (ch_count (fst (compileRValue env node line (ch, False))), v # st))
          (expr_value (ce_pascal env) renv node))"
proof -
  let ?s = "compileRValue env node line (ch, False)"
  obtain bytes where g: "grows (ch, False) bytes ?s"
    and c: "\<not> snd ?s \<longrightarrow> computes renv bytes (ch_constants (fst ?s)) (expr_value (ce_pascal env) renv node)"
    using compileRValue_computes [OF assms(1), of "(ch, False)" env line] by (auto simp: compiled_def)
  have fine: "\<not> snd ?s" using g assms(3) by (auto simp: grows_def)
  have code: "ch_code (fst ?s) = ch_code ch @ bytes" using g by (simp add: grows_def)
  moreover have "length bytes < 2 ^ 31" using assms(2) unfolding code by simp
  ultimately show ?thesis
    using computesD [OF c [rule_format, OF fine], of "fst ?s" "ch_code ch" "[]" "[]" st] fine by simp
qed

text \<open>C7: The code \<open>compileRValue\<close> appends for an expression of literals, arithmetic, shifts, comparisons,
  bitwise and short-circuit logical operators and conditionals, run by the interpreter from where it was
  appended on any stack, ends with exactly the value of the expression pushed, just behind its last byte, or
  stops with exactly the error the expression has; and compiling reports no error. Nothing is asked of the
  chunk but that it stays within 2^31 bytes of code and 65,536 constants, nor of the compiler for the kinds
  of node that are not modelled.\<close>
theorem compiled_expression_evaluates:
  assumes "plain_expr renv node"
    and "ch_count (fst (compileRValue env node line (ch, False))) < 2 ^ 31"
    and "ch_constants_count (fst (compileRValue env node line (ch, False))) \<le> 65536"
  shows "\<not> snd (compileRValue env node line (ch, False))
    \<and> ends renv (fst (compileRValue env node line (ch, False))) (ch_count ch, st)
        (map_sum id (\<lambda>v. (ch_count (fst (compileRValue env node line (ch, False))), v # st))
          (expr_value (ce_pascal env) renv node))"
  by (rule compiled_runs [OF assms])

text \<open>\<open>false and (1 div 0 = 0)\<close>: the division by zero is compiled and never run.\<close>

definition example_node :: "u32 \<Rightarrow> u32 \<Rightarrow> byte list \<Rightarrow> AST \<Rightarrow> AST \<Rightarrow> AST" where
  "example_node kind tk txt left right =
     Node ((newASTNode kind (Some \<lparr>tk_type = tk, tk_value = Some txt, tk_line = 1, tk_column = 1,
                                 tk_is_char_code = False, tk_char_code_value = 0\<rparr>))) left right Null []"

definition example_expr :: AST where
  "example_expr =
     example_node AST_BINARY_OP TOKEN_AND [] (example_node AST_BOOLEAN 0 [] Null Null)
       (example_node AST_BINARY_OP TOKEN_EQUAL []
         (example_node AST_BINARY_OP TOKEN_INT_DIV []
           (example_node AST_NUMBER TOKEN_INTEGER_CONST [49] Null Null) (example_node AST_NUMBER TOKEN_INTEGER_CONST [48] Null Null))
         (example_node AST_NUMBER TOKEN_INTEGER_CONST [48] Null Null))"

definition example_env :: compile_env where
  "example_env = \<lparr>ce_map = \<lparr>lm_map = [], lm_count = 0\<rparr>, ce_uninit = 0, ce_pascal = True, ce_other = (\<lambda>_ _ s. s)\<rparr>"

definition example_run :: run_env where
  "example_run = \<lparr>re_aether = False, re_real_truth = (\<lambda>_. False), re_pointer_truth = (\<lambda>_. False)\<rparr>"

definition example_compiled :: compile_state where
  "example_compiled = compileRValue example_env example_expr 1 (initBytecodeChunk 9 0, False)"

lemma compiled_expression_evaluates_witness:
  "\<not> snd example_compiled
   \<and> ends example_run (fst example_compiled) (0, []) (Inr (ch_count (fst example_compiled), [makeBool False]))"
proof -
  have "plain_expr example_run example_expr" by code_simp
  moreover have "ch_count (fst example_compiled) = 18" by code_simp
  moreover have "ch_constants_count (fst example_compiled) = 4" by code_simp
  moreover have "expr_value True example_run example_expr = Inr (makeBool False)" by code_simp
  ultimately show ?thesis
    using compiled_expression_evaluates [of example_run example_expr example_env 1 "initBytecodeChunk 9 0" "[]"]
    by (simp add: example_compiled_def example_env_def initBytecodeChunk_def)
qed

end
