(* ===== verification/ConstFold.thy ===== *)
theory ConstFold
  imports ExprCompiler
begin

section \<open>Constant expressions\<close>

text \<open>
  \<open>evaluateCompileTimeValue\<close> of \<open>compiler/compiler.c\<close>, which folds the expressions of constant declarations,
  array bounds and case labels, on the integer side, and \<open>constantFitsInIntType\<close>, which reads its answer. Reals,
  strings, names and calls are a parameter. Signed overflow is undefined in C: it is an answer of its own.
  The lemmas compare the folder with the code the compiler emits for the same expression, both measured
  against the value of the expression over the integers.
\<close>

subsection \<open>The folder\<close>

datatype fold_fault = UndefinedBehaviour | NullText

record fold_env =
  fe_pascal :: bool
  fe_leaf :: "AST \<Rightarrow> ValueStruct"
  fe_concat :: "ValueStruct \<Rightarrow> ValueStruct \<Rightarrow> ValueStruct"
  fe_real :: "u32 \<Rightarrow> ValueStruct \<Rightarrow> ValueStruct \<Rightarrow> ValueStruct"
  fe_real_negate :: "ValueStruct \<Rightarrow> ValueStruct"

definition makeVoid :: ValueStruct where
  "makeVoid = \<lparr>vs_type = TYPE_VOID, vs_bits = pscalTagVoid\<rparr>"

definition no_value :: "ValueStruct \<Rightarrow> bool" where
  "no_value v \<longleftrightarrow> vs_type v = TYPE_VOID \<or> vs_type v = TYPE_UNKNOWN"

definition makeLiteral :: "int \<Rightarrow> ValueStruct" where
  "makeLiteral v = (if 2 ^ 31 - 1 < v \<or> v < - (2 ^ 31) then makeInt64 (word_of_int v) else makeInt32 (word_of_int v))"

definition fold_number :: "fold_env \<Rightarrow> AST \<Rightarrow> ASTInfo \<Rightarrow> Token \<Rightarrow> fold_fault + ValueStruct" where
  "fold_number env node info tok =
     (let wide = (ai_var_type info = ucast (TYPE_INT64 :: u8) \<or> ai_var_type info = ucast (TYPE_UINT64 :: u8)) in
      if ai_var_type info = ucast (TYPE_REAL :: u8) \<or> tk_type tok = TOKEN_REAL_CONST then Inr (fe_leaf env node)
      else case tk_value tok of
        None \<Rightarrow> Inl NullText
      | Some s \<Rightarrow>
          if tk_type tok = TOKEN_HEX_CONST then
            (let v = fst (c_strtoull 16 s) in
             Inr (if wide \<or> 0x7FFFFFFF < v then makeInt64 v else makeInt32 v))
          else if tk_type tok = TOKEN_INTEGER_CONST \<and> decimalLiteralAboveInt64 (fe_pascal env) s \<noteq> None
          then Inr (makeUInt64 (fst (c_strtoull 10 s)))
          else if wide then Inr (makeInt64 (word_of_int (c_atoll s)))
          else Inr (makeLiteral (c_atoll s)))"

definition defined_result :: "ValueStruct \<Rightarrow> ValueStruct \<Rightarrow> int \<Rightarrow> fold_fault + ValueStruct" where
  "defined_result l r z =
     (if z < - (2 ^ 63) \<or> 2 ^ 63 \<le> z then Inl UndefinedBehaviour else Inr (pscalIntResultLike2 l r (word_of_int z)))"

definition fold_int :: "u32 \<Rightarrow> ValueStruct \<Rightarrow> ValueStruct \<Rightarrow> fold_fault + ValueStruct" where
  "fold_int t l r =
     (let a = sint (pscalValueDecodeInt l); b = sint (pscalValueDecodeInt r) in
      if t = TOKEN_PLUS then defined_result l r (a + b)
      else if t = TOKEN_MINUS then defined_result l r (a - b)
      else if t = TOKEN_MUL then defined_result l r (a * b)
      else if t = TOKEN_SLASH \<or> t = TOKEN_INT_DIV then
        (if b = 0 then Inr makeVoid else defined_result l r (quot a b))
      else if t = TOKEN_MOD then
        (if b = 0 then Inr makeVoid
         else if a = - (2 ^ 63) \<and> b = - 1 then Inl UndefinedBehaviour
         else defined_result l r (rem a b))
      else Inr makeVoid)"

definition fold_binary :: "fold_env \<Rightarrow> u32 \<Rightarrow> ValueStruct \<Rightarrow> ValueStruct \<Rightarrow> fold_fault + ValueStruct" where
  "fold_binary env t l r =
     (if no_value l \<or> no_value r then Inr makeVoid
      else if t = TOKEN_PLUS \<and> (isPascalStringType (vs_type l) \<or> isPascalStringType (vs_type r)
             \<or> isPascalCharType (vs_type l) \<or> isPascalCharType (vs_type r))
      then Inr (fe_concat env l r)
      else if (t = TOKEN_INT_DIV \<or> t = TOKEN_MOD) \<and> (isRealType (vs_type l) \<or> isRealType (vs_type r)) then Inr makeVoid
      else if isRealType (vs_type l) \<and> isRealType (vs_type r) then Inr (fe_real env t l r)
      else if isRealType (vs_type l) \<or> isRealType (vs_type r) then Inr makeVoid
      else fold_int t l r)"

definition fold_unary :: "fold_env \<Rightarrow> u32 \<Rightarrow> ValueStruct \<Rightarrow> fold_fault + ValueStruct" where
  "fold_unary env t v =
     (if no_value v then Inr makeVoid
      else if t = TOKEN_MINUS then
        (if isIntegerFamilyType (vs_type v) then
           (let z = - sint (pscalValueDecodeInt v) in
            if 2 ^ 63 \<le> z then Inl UndefinedBehaviour else Inr (pscalValueSetIntBits v (word_of_int z)))
         else if isRealType (vs_type v) then Inr (fe_real_negate env v)
         else Inr makeVoid)
      else if t = TOKEN_PLUS then Inr v
      else Inr makeVoid)"

fun evaluateCompileTimeValue :: "fold_env \<Rightarrow> AST \<Rightarrow> fold_fault + ValueStruct" where
  "evaluateCompileTimeValue env Null = Inr makeVoid"
| "evaluateCompileTimeValue env (Node info left right extra children) =
     (let node = Node info left right extra children in
      if ai_type info = AST_NUMBER then
        (case ai_token info of None \<Rightarrow> Inr makeVoid | Some tok \<Rightarrow> fold_number env node info tok)
      else if ai_type info = AST_BOOLEAN then Inr (makeBool (ai_i_val info \<noteq> 0))
      else if ai_type info = AST_BINARY_OP then
        (if left = Null \<or> right = Null then Inr makeVoid
         else case ai_token info of
           None \<Rightarrow> Inr makeVoid
         | Some tok \<Rightarrow>
             ebind (evaluateCompileTimeValue env left) (\<lambda>l.
             ebind (evaluateCompileTimeValue env right) (\<lambda>r. fold_binary env (tk_type tok) l r)))
      else if ai_type info = AST_UNARY_OP then
        (if left = Null then Inr makeVoid
         else case ai_token info of
           None \<Rightarrow> Inr makeVoid
         | Some tok \<Rightarrow> ebind (evaluateCompileTimeValue env left) (fold_unary env (tk_type tok)))
      else Inr (fe_leaf env node))"

definition isUnsignedIntVarType :: "u8 \<Rightarrow> bool" where
  "isUnsignedIntVarType t \<longleftrightarrow> t \<in> {TYPE_UINT8, TYPE_UINT16, TYPE_UINT32, TYPE_UINT64, TYPE_BYTE, TYPE_WORD}"

text \<open>The ordinal of an enumeration value is behind a pointer: a parameter.\<close>

definition fits_type :: "u8 \<Rightarrow> bool \<Rightarrow> u64 \<Rightarrow> bool" where
  "fits_type target value_is_unsigned w =
     (let sval = sint w; uval = uint w in
      if target = TYPE_BOOLEAN then sval = 0 \<or> sval = 1
      else if target = TYPE_CHAR then 0 \<le> sval \<and> uval \<le> 255
      else if target = TYPE_INT8 then - 128 \<le> sval \<and> sval \<le> 127
      else if target = TYPE_UINT8 \<or> target = TYPE_BYTE then (value_is_unsigned \<or> 0 \<le> sval) \<and> uval \<le> 255
      else if target = TYPE_INT16 then - 32768 \<le> sval \<and> sval \<le> 32767
      else if target = TYPE_UINT16 \<or> target = TYPE_WORD then (value_is_unsigned \<or> 0 \<le> sval) \<and> uval \<le> 65535
      else if target = TYPE_INT32 then - (2 ^ 31) \<le> sval \<and> sval \<le> 2 ^ 31 - 1
      else if target = TYPE_UINT32 then (value_is_unsigned \<or> 0 \<le> sval) \<and> uval \<le> 2 ^ 32 - 1
      else if target = TYPE_INT64 then \<not> (value_is_unsigned \<and> 2 ^ 63 - 1 < uval)
      else if target = TYPE_UINT64 then value_is_unsigned \<or> 0 \<le> sval
      else False)"

definition constantFitsInIntType :: "fold_env \<Rightarrow> (ValueStruct \<Rightarrow> int) \<Rightarrow> AST \<Rightarrow> u8 \<Rightarrow> fold_fault + bool" where
  "constantFitsInIntType env enum_ordinal expr targetType =
     (if expr = Null \<or> \<not> isIntlikeType targetType then Inr False
      else ebind (evaluateCompileTimeValue env expr) (\<lambda>v. Inr (
        if no_value v then False
        else if vs_type v = TYPE_ENUM
        then fits_type targetType (0 \<le> enum_ordinal v) (word_of_int (enum_ordinal v))
        else if isIntlikeType (vs_type v)
        then fits_type targetType (isUnsignedIntVarType (vs_type v) \<or> vs_type v = TYPE_BOOLEAN \<or> vs_type v = TYPE_CHAR)
               (pscalValueDecodeInt v)
        else False)))"

subsection \<open>The value over the integers\<close>

text \<open>Signed integer expressions, and their value: exact, but for a division by zero and for a result that does
  not fit 64 bits.\<close>

definition int_literal :: "Token \<Rightarrow> byte list \<Rightarrow> int" where
  "int_literal tok s = (if tk_type tok = TOKEN_HEX_CONST then sint (fst (c_strtoull 16 s)) else c_atoll s)"

definition in_64 :: "int \<Rightarrow> arith_error + int" where
  "in_64 z = (if z < - (2 ^ 63) \<or> 2 ^ 63 \<le> z then Inl IntegerOverflow else Inr z)"

definition int_operator :: "u32 \<Rightarrow> int \<Rightarrow> int \<Rightarrow> arith_error + int" where
  "int_operator t x y =
     (if t = TOKEN_PLUS then in_64 (x + y)
      else if t = TOKEN_MINUS then in_64 (x - y)
      else if t = TOKEN_MUL then in_64 (x * y)
      else if y = 0 then Inl DivisionByZero
      else if t = TOKEN_INT_DIV then in_64 (quot x y)
      else in_64 (rem x y))"

fun exact_value :: "AST \<Rightarrow> arith_error + int" where
  "exact_value Null = Inl NotIntegers"
| "exact_value (Node info left right extra children) =
     (case ai_token info of
        None \<Rightarrow> Inl NotIntegers
      | Some tok \<Rightarrow>
          if ai_type info = AST_NUMBER then
            (case tk_value tok of None \<Rightarrow> Inl NotIntegers | Some s \<Rightarrow> Inr (int_literal tok s))
          else if ai_type info = AST_BINARY_OP
          then ebind (exact_value left) (\<lambda>x. ebind (exact_value right) (int_operator (tk_type tok) x))
          else ebind (exact_value left) (\<lambda>x. in_64 (- x)))"

fun signed_expr :: "bool \<Rightarrow> AST \<Rightarrow> bool" where
  "signed_expr pascal Null \<longleftrightarrow> False"
| "signed_expr pascal (Node info left right extra children) \<longleftrightarrow>
     (case ai_token info of
        None \<Rightarrow> False
      | Some tok \<Rightarrow>
          if ai_type info = AST_NUMBER then
            tk_value tok \<noteq> None
            \<and> (tk_type tok = TOKEN_HEX_CONST
               \<or> tk_type tok = TOKEN_INTEGER_CONST \<and> decimalLiteralAboveInt64 pascal (the (tk_value tok)) = None)
          else if ai_type info = AST_BINARY_OP
          then tk_type tok \<in> {TOKEN_PLUS, TOKEN_MINUS, TOKEN_MUL, TOKEN_INT_DIV, TOKEN_MOD}
            \<and> signed_expr pascal left \<and> signed_expr pascal right
          else ai_type info = AST_UNARY_OP \<and> tk_type tok = TOKEN_MINUS \<and> signed_expr pascal left)"

definition signed_value :: "ValueStruct \<Rightarrow> bool" where
  "signed_value v \<longleftrightarrow> vs_type v \<in> {TYPE_INT32, TYPE_INT64}"

lemma signed_intlike: "signed_value v \<Longrightarrow> isIntlikeType (vs_type v)" "signed_value v \<Longrightarrow> isIntegerFamilyType (vs_type v)"
  "signed_value v \<Longrightarrow> vs_type v \<noteq> TYPE_UINT64" "signed_value a \<Longrightarrow> signed_value b \<Longrightarrow> \<not> adds_text aether a b"
  by (auto simp: signed_value_def isIntlikeType_def isIntegerFamilyType_def adds_text_def isPascalCharType_def)

text \<open>An answer of the interpreter and an exact value agree.\<close>

definition agrees :: "run_error + ValueStruct \<Rightarrow> arith_error + int \<Rightarrow> bool" where
  "agrees r m \<longleftrightarrow>
     (case m of Inl e \<Rightarrow> r = Inl (Arith e) | Inr z \<Rightarrow> \<exists>v. r = Inr v \<and> signed_value v \<and> int_value v = z)"

lemma answers_agrees:
  assumes "answers res a b z" "signed_value a" "signed_value b"
  shows "agrees (lift_arith res) (in_64 z)"
  using assms signed_intlike(3) [OF assms(2)] signed_intlike(3) [OF assms(3)]
  by (auto simp: answers_def agrees_def lift_arith_def in_64_def signed_value_def)

lemma operator_agrees:
  assumes "t \<in> {TOKEN_PLUS, TOKEN_MINUS, TOKEN_MUL, TOKEN_INT_DIV, TOKEN_MOD}" "signed_value a" "signed_value b"
  shows "\<exists>f. binary_operator renv t = Some f \<and> agrees (lift_arith (f a b)) (int_operator t (int_value a) (int_value b))"
proof -
  note int = signed_intlike(1) [OF assms(2)] signed_intlike(1) [OF assms(3)]
  have arith: "agrees (lift_arith (binary_int (re_aether renv) op a b)) (in_64 (exact op (int_value a) (int_value b)))" for op
    by (intro answers_agrees [OF binary_int_exact [OF int]] assms signed_intlike(4))
  have zero: "agrees (lift_arith (Inl DivisionByZero)) (Inl DivisionByZero)" by (simp add: agrees_def lift_arith_def)
  have "agrees (lift_arith (instr_INT_DIV a b)) (if int_value b = 0 then Inl DivisionByZero else in_64 (quot (int_value a) (int_value b)))"
    using INT_DIV_exact [OF int] answers_agrees [OF _ assms(2,3)] zero by (auto split: if_splits)
  moreover have "agrees (lift_arith (instr_MOD a b)) (if int_value b = 0 then Inl DivisionByZero else in_64 (rem (int_value a) (int_value b)))"
    using MOD_exact [OF int] answers_agrees [OF _ assms(2,3)] zero by (auto split: if_splits)
  ultimately show ?thesis
    using assms(1) arith [of OpAdd] arith [of OpSubtract] arith [of OpMultiply]
    by (auto simp: binary_operator_def int_operator_def exact_def)
qed

lemma signed_word: "signed_value v \<Longrightarrow> asI64 v = word_of_int (int_value v) \<and> sint (asI64 v) = int_value v
    \<and> sint (pscalValueDecodeInt v) = int_value v"
  by (auto simp: signed_value_def int_value_def asI64_def)

lemma in_64_sint: "- (2 ^ 63) \<le> z \<Longrightarrow> z < 2 ^ 63 \<Longrightarrow> sint (word_of_int z :: u64) = z"
  by (rule sint_of_int64)

lemma negate_agrees:
  assumes "signed_value v" shows "agrees (lift_arith (instr_NEGATE v)) (in_64 (- int_value v))"
proof -
  have w: "asI64 v = word_of_int (int_value v)" "sint (asI64 v) = int_value v" using signed_word [OF assms] by auto
  have bounds: "- (2 ^ 63) \<le> int_value v" "int_value v < 2 ^ 63" using u64_bounds(3,4) [of "asI64 v"] w by auto
  note v = signed_intlike [OF assms]
  show ?thesis
  proof (cases "int_value v = - (2 ^ 63)")
    case True
    then show ?thesis using v w by (simp add: instr_NEGATE_def agrees_def lift_arith_def in_64_def)
  next
    case False
    then have z: "- (2 ^ 63) \<le> - int_value v" "- int_value v < 2 ^ 63" using bounds by simp_all
    have neg: "0 - asI64 v = word_of_int (- int_value v)" using w(1) by simp
    have "\<exists>r. instr_NEGATE v = Inr r \<and> signed_value r \<and> int_value r = - int_value v"
      using assms v False w(2) in_64_sint [OF z] value_narrow [of "word_of_int (- int_value v)"]
      unfolding instr_NEGATE_def Let_def neg pscalIntResultLike1_def
      by (auto simp: signed_value_def value_results)
    then show ?thesis using z by (auto simp: agrees_def lift_arith_def in_64_def)
  qed
qed

lemma narrow_signed: "signed_value (pscalIntResultNarrow x)"
  using value_narrow(2) [of x] by (simp add: signed_value_def)

lemma literal_agrees:
  assumes "signed_expr pascal (Node info left right extra children)" "ai_type info = AST_NUMBER"
    "ai_token info = Some tok" "tk_value tok = Some s"
  shows "signed_value (literal_value pascal (tk_type tok) s) \<and> int_value (literal_value pascal (tk_type tok) s) = int_literal tok s"
  using assms in_64_sint [OF c_atoll_range]
  by (auto simp: literal_value_def int_literal_def narrow_signed value_narrow(1))

lemma agrees_bind:
  assumes "agrees r m" "\<And>v. signed_value v \<Longrightarrow> agrees (f v) (g (int_value v))"
  shows "agrees (ebind r f) (ebind m g)"
proof (cases m)
  case (Inr z)
  then obtain v where "r = Inr v" "signed_value v" "int_value v = z" using assms(1) by (auto simp: agrees_def)
  then show ?thesis using assms(2) [of v] Inr by simp
qed (use assms(1) in \<open>simp add: agrees_def\<close>)

lemma other_kinds_not_signed:
  "ai_type info \<notin> {AST_NUMBER, AST_BINARY_OP, AST_UNARY_OP} \<Longrightarrow> \<not> signed_expr pascal (Node info left right extra children)"
  by (simp split: option.split)

lemma signed_expr_exact: "signed_expr pascal node \<Longrightarrow> agrees (expr_value pascal renv node) (exact_value node)"
proof (induction node)
  case (Node info left right extra children)
  then obtain tok where tok: "ai_token info = Some tok" by (cases "ai_token info") auto
  consider (number) "ai_type info = AST_NUMBER" | (binary) "ai_type info = AST_BINARY_OP" | (unary) "ai_type info = AST_UNARY_OP"
    using other_kinds_not_signed [of info] Node.prems by blast
  then show ?case
  proof cases
    case number
    then obtain s where "tk_value tok = Some s" using Node.prems tok by auto
    then show ?thesis using literal_agrees [OF Node.prems number tok] number tok by (simp add: agrees_def)
  next
    case binary
    then have parts: "tk_type tok \<in> {TOKEN_PLUS, TOKEN_MINUS, TOKEN_MUL, TOKEN_INT_DIV, TOKEN_MOD}"
      "signed_expr pascal left" "signed_expr pascal right" using Node.prems tok by simp_all
    obtain f where f: "binary_operator renv (tk_type tok) = Some f" using parts(1) by (auto simp: binary_operator_def)
    then have op: "agrees (lift_arith (f a b)) (int_operator (tk_type tok) (int_value a) (int_value b))"
      if "signed_value a" "signed_value b" for a b
      using operator_agrees [OF parts(1) that, of renv] by simp
    have "expr_value pascal renv (Node info left right extra children)
        = ebind (expr_value pascal renv left) (\<lambda>a. ebind (expr_value pascal renv right) (\<lambda>b. lift_arith (f a b)))"
      using binary tok f parts(1) by (auto simp: token_kind_def)
    moreover have "exact_value (Node info left right extra children)
        = ebind (exact_value left) (\<lambda>x. ebind (exact_value right) (int_operator (tk_type tok) x))"
      using binary tok by simp
    ultimately show ?thesis
      by (simp only:) (intro agrees_bind Node.IH parts op)
  next
    case unary
    then have parts: "tk_type tok = TOKEN_MINUS" "signed_expr pascal left" using Node.prems tok by simp_all
    have "expr_value pascal renv (Node info left right extra children)
        = ebind (expr_value pascal renv left) (\<lambda>v. lift_arith (instr_NEGATE v))"
      "exact_value (Node info left right extra children) = ebind (exact_value left) (\<lambda>x. in_64 (- x))"
      using unary tok parts by (simp_all add: token_kind_def)
    then show ?thesis
      by (simp only:) (intro agrees_bind Node.IH parts negate_agrees)
  qed
qed simp

lemma signed_expr_plain: "signed_expr pascal node \<Longrightarrow> plain_expr renv node"
proof (induction node)
  case (Node info left right extra children)
  then obtain tok where tok: "ai_token info = Some tok" by (cases "ai_token info") auto
  consider (number) "ai_type info = AST_NUMBER" | (binary) "ai_type info = AST_BINARY_OP" | (unary) "ai_type info = AST_UNARY_OP"
    using other_kinds_not_signed [of info] Node.prems by blast
  then show ?case
  proof cases
    case binary
    then have "tk_type tok \<in> {TOKEN_PLUS, TOKEN_MINUS, TOKEN_MUL, TOKEN_INT_DIV, TOKEN_MOD}"
      "signed_expr pascal left" "signed_expr pascal right" using Node.prems tok by simp_all
    then show ?thesis using binary tok Node.IH by (auto simp: token_kind_def binary_operator_def)
  qed (use Node tok in \<open>auto simp: token_kind_def\<close>)
qed simp

text \<open>C8: For a signed integer expression the whole path from the tree through the compiled code and the interpreter
  computes over the integers: run from where it was appended, the code leaves an integer whose value is the
  exact value of the expression, or stops with a division by zero or an integer overflow exactly when the
  first operation to fail, from left to right, divides by zero or leaves 64 bits. The narrow and wide kinds
  the values go through on the way never show.\<close>
theorem compiled_arithmetic_exact:
  assumes "signed_expr (ce_pascal env) node"
    and "ch_count (fst (compileRValue env node line (ch, False))) < 2 ^ 31"
    and "ch_constants_count (fst (compileRValue env node line (ch, False))) \<le> 65536"
  shows "case exact_value node of
      Inl e \<Rightarrow> ends renv (fst (compileRValue env node line (ch, False))) (ch_count ch, st) (Inl (Arith e))
    | Inr z \<Rightarrow> \<exists>v. int_value v = z
        \<and> ends renv (fst (compileRValue env node line (ch, False))) (ch_count ch, st)
            (Inr (ch_count (fst (compileRValue env node line (ch, False))), v # st))"
proof -
  have "agrees (expr_value (ce_pascal env) renv node) (exact_value node)" by (rule signed_expr_exact [OF assms(1)])
  moreover note compiled_runs [OF signed_expr_plain [OF assms(1)] assms(2,3), of renv st]
  ultimately show ?thesis by (auto simp: agrees_def split: sum.splits)
qed

text \<open>\<open>2147483647 + 1\<close>: the sum of two 32-bit values leaves 32 bits.\<close>

definition example_sum :: AST where
  "example_sum = example_node AST_BINARY_OP TOKEN_PLUS []
     (example_node AST_NUMBER TOKEN_INTEGER_CONST [50, 49, 52, 55, 52, 56, 51, 54, 52, 55] Null Null)
     (example_node AST_NUMBER TOKEN_INTEGER_CONST [49] Null Null)"

lemma compiled_arithmetic_exact_witness:
  "\<exists>v. int_value v = 2147483648
    \<and> ends example_run (fst (compileRValue example_env example_sum 1 (initBytecodeChunk 9 0, False))) (0, [])
        (Inr (ch_count (fst (compileRValue example_env example_sum 1 (initBytecodeChunk 9 0, False))), [v]))"
proof -
  let ?s = "compileRValue example_env example_sum 1 (initBytecodeChunk 9 0, False)"
  have "signed_expr (ce_pascal example_env) example_sum" by code_simp
  moreover have "ch_count (fst ?s) = 4" by code_simp
  moreover have "ch_constants_count (fst ?s) = 2" by code_simp
  moreover have "exact_value example_sum = Inr 2147483648" by code_simp
  moreover have "ch_count (initBytecodeChunk 9 0) = 0" by (simp add: initBytecodeChunk_def)
  ultimately show ?thesis
    using compiled_arithmetic_exact [of example_env example_sum 1 "initBytecodeChunk 9 0" example_run "[]"] by simp
qed

subsection \<open>Folding agrees with running\<close>

text \<open>The constant expressions: signed, with no literal typed as a real, no remainder by -1 and no negation of
  -2^31. The last two the folder gets wrong, as shown below.\<close>

fun constant_expr :: "bool \<Rightarrow> AST \<Rightarrow> bool" where
  "constant_expr pascal Null \<longleftrightarrow> False"
| "constant_expr pascal (Node info left right extra children) \<longleftrightarrow>
     signed_expr pascal (Node info left right extra children)
     \<and> (if ai_type info = AST_NUMBER then ai_var_type info \<noteq> ucast (TYPE_REAL :: u8)
        else if ai_type info = AST_BINARY_OP then constant_expr pascal left \<and> constant_expr pascal right
          \<and> (token_kind info = Some TOKEN_MOD \<longrightarrow> exact_value right \<noteq> Inr (- 1))
        else constant_expr pascal left \<and> exact_value left \<noteq> Inr (- (2 ^ 31)))"

text \<open>An answer of the folder and an exact value agree: where the exact value exists it is folded to it, and where
  it does not nothing is folded.\<close>

definition folds :: "fold_fault + ValueStruct \<Rightarrow> arith_error + int \<Rightarrow> bool" where
  "folds r m \<longleftrightarrow>
     (case m of Inl e \<Rightarrow> r = Inl UndefinedBehaviour \<or> r = Inr makeVoid
      | Inr z \<Rightarrow> \<exists>v. r = Inr v \<and> signed_value v \<and> int_value v = z)"

lemma signed_not_void: "signed_value v \<Longrightarrow> \<not> no_value v" "no_value makeVoid"
  by (auto simp: signed_value_def no_value_def makeVoid_def)

lemma folds_result:
  assumes "signed_value a" "signed_value b" shows "folds (defined_result a b z) (in_64 z)"
proof -
  have "signed_value (pscalIntResultLike2 a b (word_of_int z)) \<and> int_value (pscalIntResultLike2 a b (word_of_int z)) = z"
    if "- (2 ^ 63) \<le> z" "z < 2 ^ 63"
    using assms in_64_sint [OF that] value_narrow(1) [of "word_of_int z"] narrow_signed [of "word_of_int z"]
    by (auto simp: pscalIntResultLike2_def value_results signed_value_def)
  then show ?thesis by (auto simp: folds_def defined_result_def in_64_def)
qed

lemma fold_binary_folds:
  assumes "t \<in> {TOKEN_PLUS, TOKEN_MINUS, TOKEN_MUL, TOKEN_INT_DIV, TOKEN_MOD}" "signed_value a" "signed_value b"
    and minus_one: "t = TOKEN_MOD \<Longrightarrow> int_value b \<noteq> - 1"
  shows "folds (fold_binary env t a b) (int_operator t (int_value a) (int_value b))"
proof -
  let ?x = "int_value a" and ?y = "int_value b"
  have w: "sint (pscalValueDecodeInt a) = ?x" "sint (pscalValueDecodeInt b) = ?y" using signed_word assms(2,3) by blast+
  have "\<not> no_value a" "\<not> no_value b" using signed_not_void assms(2,3) by blast+
  moreover have "\<not> isRealType (vs_type a)" "\<not> isRealType (vs_type b)" "\<not> isPascalStringType (vs_type a)" "\<not> isPascalStringType (vs_type b)"
    "\<not> isPascalCharType (vs_type a)" "\<not> isPascalCharType (vs_type b)"
    using assms(2,3) by (auto simp: signed_value_def isRealType_def isPascalStringType_def isPascalCharType_def)
  ultimately have fold: "fold_binary env t a b = fold_int t a b" by (simp add: fold_binary_def)
  have void: "folds (Inr makeVoid) (Inl DivisionByZero)" by (simp add: folds_def)
  show ?thesis
    using assms(1) folds_result [OF assms(2,3)] void minus_one unfolding fold fold_int_def Let_def w int_operator_def by auto
qed

lemma fold_literal:
  assumes "constant_expr (fe_pascal env) (Node info left right extra children)" "ai_type info = AST_NUMBER"
    "ai_token info = Some tok" "tk_value tok = Some s"
  shows "folds (fold_number env node info tok) (Inr (int_literal tok s))"
proof -
  have decimal: "signed_value (makeInt64 (word_of_int (c_atoll s))) \<and> int_value (makeInt64 (word_of_int (c_atoll s))) = c_atoll s"
    "signed_value (makeLiteral (c_atoll s)) \<and> int_value (makeLiteral (c_atoll s)) = c_atoll s"
    using in_64_sint [OF c_atoll_range] by (auto simp: makeLiteral_def signed_value_def value_results)
  have hex: "sint v = uint v \<and> uint v < 2 ^ 31" if "\<not> 0x7FFFFFFF < v" for v :: u64
  proof -
    have "uint v < 2 ^ 31" using that by (simp add: word_less_def)
    moreover from this have "signed_take_bit 63 (uint v) = uint v"
      using order_trans [OF _ u64_bounds(1) [of v], of "- (2 ^ 63)"] by (intro signed_take_bit_int_eq_self) simp_all
    then have "sint v = uint v" by (simp add: sint_uint)
    ultimately show ?thesis by simp
  qed
  have hexes: "signed_value (makeInt64 v) \<and> int_value (makeInt64 v) = sint v"
    "\<not> 0x7FFFFFFF < v \<Longrightarrow> signed_value (makeInt32 v) \<and> int_value (makeInt32 v) = sint v" for v
    using hex [of v] value_results(3) [of v] order_trans [OF _ u64_bounds(1) [of v], of "- (2 ^ 31)"]
    by (simp_all add: signed_value_def value_results(1))
  show ?thesis
    using assms decimal hexes [of "fst (c_strtoull 16 s)"]
    by (auto simp: folds_def fold_number_def int_literal_def Let_def)
qed

lemma set_int_value:
  assumes "signed_value v" "- (2 ^ 63) \<le> z" "z < 2 ^ 63" "vs_type v = TYPE_INT32 \<Longrightarrow> - (2 ^ 31) \<le> z \<and> z < 2 ^ 31"
  shows "signed_value (pscalValueSetIntBits v (word_of_int z)) \<and> int_value (pscalValueSetIntBits v (word_of_int z)) = z"
proof -
  have set: "pscalValueSetIntBits v x = makeScalar (vs_type v) x" for x
    using assms(1) by (auto simp: signed_value_def makeScalar_def pscalValueSetIntBits_def int_bits_def)
  show ?thesis
    using assms in_64_sint [OF assms(2,3)] value_results(1,3) [of "word_of_int z"] unfolding set
    by (auto simp: signed_value_def makeInt64_def makeInt32_def)
qed

lemma fold_negation:
  assumes "signed_value v" "int_value v \<noteq> - (2 ^ 31)" shows "folds (fold_unary env TOKEN_MINUS v) (in_64 (- int_value v))"
proof -
  let ?z = "- int_value v"
  have w: "sint (pscalValueDecodeInt v) = int_value v" using signed_word [OF assms(1)] by simp
  then have low: "- (2 ^ 63) \<le> ?z" using u64_bounds(4) [of "pscalValueDecodeInt v"] by simp
  have narrow: "vs_type v = TYPE_INT32 \<Longrightarrow> - (2 ^ 31) \<le> ?z \<and> ?z < 2 ^ 31" using sint_asI64_int32 [of v] assms(2) by auto
  show ?thesis
    using assms(1) w low set_int_value [OF assms(1) low _ narrow] signed_not_void(1) [OF assms(1)] signed_intlike(2) [OF assms(1)]
    by (auto simp: fold_unary_def folds_def in_64_def Let_def)
qed

lemma folds_bind:
  assumes "folds r m" "\<And>v. signed_value v \<Longrightarrow> m = Inr (int_value v) \<Longrightarrow> folds (f v) (g (int_value v))"
    and "\<And>e. folds (f makeVoid) (Inl e)"
  shows "folds (ebind r f) (ebind m g)"
proof (cases m)
  case (Inr z)
  then obtain v where "r = Inr v" "signed_value v" "int_value v = z" using assms(1) by (auto simp: folds_def)
  then show ?thesis using assms(2) [of v] Inr by simp
next
  case (Inl e)
  then have "r = Inl UndefinedBehaviour \<or> r = Inr makeVoid" using assms(1) by (simp add: folds_def)
  then show ?thesis using assms(3) [of e] Inl by (auto simp: folds_def)
qed

lemma constant_expr_folds:
  "constant_expr (fe_pascal env) node \<Longrightarrow> folds (evaluateCompileTimeValue env node) (exact_value node)"
proof (induction node)
  case (Node info left right extra children)
  let ?node = "Node info left right extra children"
  have signed: "signed_expr (fe_pascal env) ?node" using Node.prems by simp
  then obtain tok where tok: "ai_token info = Some tok" by (cases "ai_token info") auto
  consider (number) "ai_type info = AST_NUMBER" | (binary) "ai_type info = AST_BINARY_OP" | (unary) "ai_type info = AST_UNARY_OP"
    using other_kinds_not_signed [of info] signed by blast
  then show ?case
  proof cases
    case number
    then obtain s where "tk_value tok = Some s" using signed tok by auto
    then show ?thesis using fold_literal [OF Node.prems number tok] number tok by (simp add: Let_def)
  next
    case binary
    then have parts: "tk_type tok \<in> {TOKEN_PLUS, TOKEN_MINUS, TOKEN_MUL, TOKEN_INT_DIV, TOKEN_MOD}"
      using signed tok by simp
    have sub: "constant_expr (fe_pascal env) left" "constant_expr (fe_pascal env) right"
      and minus_one: "tk_type tok = TOKEN_MOD \<Longrightarrow> exact_value right \<noteq> Inr (- 1)"
      using Node.prems binary tok by (simp_all add: token_kind_def)
    then have some: "left \<noteq> Null" "right \<noteq> Null" by auto
    have void: "fold_binary env t l makeVoid = Inr makeVoid" "fold_binary env t makeVoid r = Inr makeVoid" for t l r
      by (simp_all add: fold_binary_def signed_not_void)
    have op: "folds (fold_binary env (tk_type tok) a b) (int_operator (tk_type tok) (int_value a) (int_value b))"
      if "signed_value a" "signed_value b" "exact_value right = Inr (int_value b)" for a b
      using fold_binary_folds [OF parts that(1,2)] minus_one that(3) by simp
    have inner: "folds (ebind (evaluateCompileTimeValue env right) (fold_binary env (tk_type tok) a))
        (ebind (exact_value right) (int_operator (tk_type tok) (int_value a)))" if "signed_value a" for a
      by (rule folds_bind [OF Node.IH(2) [OF sub(2)]]) (use op that void in \<open>auto simp: folds_def [of _ "Inl _"]\<close>)
    have "folds (ebind (evaluateCompileTimeValue env left) (\<lambda>l. ebind (evaluateCompileTimeValue env right) (fold_binary env (tk_type tok) l)))
        (ebind (exact_value left) (\<lambda>x. ebind (exact_value right) (int_operator (tk_type tok) x)))"
    proof (rule folds_bind [OF Node.IH(1) [OF sub(1)]])
      show "folds (ebind (evaluateCompileTimeValue env right) (fold_binary env (tk_type tok) v))
          (ebind (exact_value right) (int_operator (tk_type tok) (int_value v)))" if "signed_value v" for v
        by (rule inner [OF that])
      show "folds (ebind (evaluateCompileTimeValue env right) (fold_binary env (tk_type tok) makeVoid)) (Inl e)" for e
        using Node.IH(2) [OF sub(2)] void by (cases "exact_value right") (auto simp: folds_def)
    qed
    then show ?thesis using binary tok some by (simp add: Let_def)
  next
    case unary
    then have sub: "constant_expr (fe_pascal env) left" "exact_value left \<noteq> Inr (- (2 ^ 31))" "tk_type tok = TOKEN_MINUS"
      using Node.prems tok by simp_all
    then have some: "left \<noteq> Null" by auto
    have "folds (ebind (evaluateCompileTimeValue env left) (fold_unary env TOKEN_MINUS)) (ebind (exact_value left) (\<lambda>x. in_64 (- x)))"
    proof (rule folds_bind [OF Node.IH(1) [OF sub(1)]])
      show "folds (fold_unary env TOKEN_MINUS v) (in_64 (- int_value v))"
        if "signed_value v" "exact_value left = Inr (int_value v)" for v
        using fold_negation [OF that(1), of env] sub(2) that(2) by simp
      show "folds (fold_unary env TOKEN_MINUS makeVoid) (Inl e)" for e by (simp add: fold_unary_def signed_not_void folds_def)
    qed
    then show ?thesis using unary tok some sub by (simp add: Let_def)
  qed
qed simp


definition example_fold :: fold_env where
  "example_fold = \<lparr>fe_pascal = True, fe_leaf = (\<lambda>_. makeVoid), fe_concat = (\<lambda>_ _. makeVoid),
     fe_real = (\<lambda>_ _ _. makeVoid), fe_real_negate = (\<lambda>v. v)\<rparr>"


subsection \<open>Where folding and running differ\<close>

definition num :: "byte list \<Rightarrow> AST" where
  "num digits = example_node AST_NUMBER TOKEN_INTEGER_CONST digits Null Null"

definition bin :: "u32 \<Rightarrow> AST \<Rightarrow> AST \<Rightarrow> AST" where
  "bin t = example_node AST_BINARY_OP t []"

definition neg :: "AST \<Rightarrow> AST" where
  "neg x = example_node AST_UNARY_OP TOKEN_MINUS [] x Null"

text \<open>\<open>7 / 2\<close> folds to the integer 3; \<open>DIVIDE\<close> answers a real.\<close>

lemma folded_slash_truncates:
  "evaluateCompileTimeValue example_fold (bin TOKEN_SLASH (num [55]) (num [50])) = Inr (makeInt32 3)"
  by code_simp

text \<open>\<open>-(-2147483647 - 1)\<close> folds to -2147483648: the operand is narrow and the negation is stored back into it.\<close>

lemma folded_negation_wraps:
  "evaluateCompileTimeValue example_fold (neg (bin TOKEN_MINUS (neg (num [50, 49, 52, 55, 52, 56, 51, 54, 52, 55])) (num [49])))
     = Inr (makeInt32 (word_of_int (- 2147483648)))"
  "map_sum id int_value (expr_value True example_run (neg (bin TOKEN_MINUS (neg (num [50, 49, 52, 55, 52, 56, 51, 54, 52, 55])) (num [49]))))
     = Inr 2147483648"
  by code_simp+

text \<open>\<open>18446744073709551615 mod 10\<close> folds with the operands read as signed numbers.\<close>

lemma folded_unsigned_mod:
  "evaluateCompileTimeValue example_fold (bin TOKEN_MOD (num [49, 56, 52, 52, 54, 55, 52, 52, 48, 55, 51, 55, 48, 57, 53, 53, 49, 54, 49, 53]) (num [49, 48]))
     = Inr (makeUInt64 18446744073709551615)"
  "expr_value True example_run (bin TOKEN_MOD (num [49, 56, 52, 52, 54, 55, 52, 52, 48, 55, 51, 55, 48, 57, 53, 53, 49, 54, 49, 53]) (num [49, 48])) = Inr (makeUInt64 5)"
  by code_simp+

text \<open>The least 64-bit integer \<open>mod\<close> -1 is undefined in the folder and 0 when run; an overflow is undefined in the
  folder and an error when run.\<close>

lemma folded_mod_traps:
  "evaluateCompileTimeValue example_fold (bin TOKEN_MOD (bin TOKEN_MINUS (neg (num [57, 50, 50, 51, 51, 55, 50, 48, 51, 54, 56, 53, 52, 55, 55, 53, 56, 48, 55])) (num [49])) (neg (num [49])))
     = Inl UndefinedBehaviour"
  "map_sum id int_value (expr_value True example_run
     (bin TOKEN_MOD (bin TOKEN_MINUS (neg (num [57, 50, 50, 51, 51, 55, 50, 48, 51, 54, 56, 53, 52, 55, 55, 53, 56, 48, 55])) (num [49])) (neg (num [49])))) = Inr 0"
  "evaluateCompileTimeValue example_fold (bin TOKEN_PLUS (num [57, 50, 50, 51, 51, 55, 50, 48, 51, 54, 56, 53, 52, 55, 55, 53, 56, 48, 55]) (num [49])) = Inl UndefinedBehaviour"
  "expr_value True example_run (bin TOKEN_PLUS (num [57, 50, 50, 51, 51, 55, 50, 48, 51, 54, 56, 53, 52, 55, 55, 53, 56, 48, 55]) (num [49])) = Inl (Arith IntegerOverflow)"
  by code_simp+

text \<open>An unsigned constant beyond 63 bits passes for a small negative number and is taken to fit.\<close>

lemma unsigned_constant_fits_anything:
  "constantFitsInIntType example_fold (\<lambda>_. 0) (num [49, 56, 52, 52, 54, 55, 52, 52, 48, 55, 51, 55, 48, 57, 53, 53, 49, 54, 49, 53]) TYPE_INT8 = Inr True"
  "constantFitsInIntType example_fold (\<lambda>_. 0) (num [49, 56, 52, 52, 54, 55, 52, 52, 48, 55, 51, 55, 48, 57, 53, 53, 49, 54, 49, 53]) TYPE_INT32 = Inr True"
  by code_simp+

end
