(* ===== verification/Paths.thy ===== *)
theory Paths
  imports Prelude "HOL-Library.Char_ord" "HOL-Library.List_Lexorder"
begin

section \<open>Virtual paths\<close>

text \<open>
  The mapping between the paths a program sees and those of the host (\<open>common/path_truncate.c\<close>): normalising an
  absolute path, the container prefix and its alias, the table of virtual mounts, and \<open>pathTruncateExpand\<close> and
  \<open>pathTruncateStrip\<close>, which apply and remove them. A path is a string without the terminating NUL; every
  buffer keeps its size. The environment variables, \<open>realpath\<close> and the value of \<open>PATH_MAX\<close> are parameters; what
  \<open>pathTruncateRefreshProc\<close> writes below the prefix is not modelled. Each function runs under the lock of the
  file, so it is one step on the state.
\<close>

datatype path_error = EINVAL | ENAMETOOLONG | ENOSPC | ENOENT

record trunc_env =
  te_getenv :: "string \<Rightarrow> string option"
  te_realpath :: "string \<Rightarrow> string option"
  te_resolving :: bool
  te_path_max :: nat

record Mount =
  mt_source :: string
  mt_target :: string
  mt_type :: string
  mt_options :: string
  mt_flags :: nat

record Truncation =
  tr_primary :: string
  tr_alias :: string
  tr_mounts :: "Mount list"

abbreviation SLASH :: char where "SLASH \<equiv> CHR ''/''"

definition starts_with :: "string \<Rightarrow> string \<Rightarrow> bool" where
  "starts_with path prefix \<longleftrightarrow> take (length prefix) path = prefix"

definition at_boundary :: "string \<Rightarrow> nat \<Rightarrow> bool" where
  "at_boundary path n \<longleftrightarrow> drop n path = [] \<or> hd (drop n path) = SLASH"

definition absolute :: "string \<Rightarrow> bool" where
  "absolute path \<longleftrightarrow> path \<noteq> [] \<and> hd path = SLASH"

definition copy_string :: "string \<Rightarrow> nat \<Rightarrow> path_error + string" where
  "copy_string source out_size =
     (if out_size = 0 then Inl EINVAL else if out_size \<le> length source then Inl ENAMETOOLONG else Inr source)"

subsection \<open>Normalising\<close>

text \<open>The segments the cursor finds between runs of slashes, and one turn of the loop: the offsets to fall back to,
  the latest first, and the output so far.\<close>

function path_segments :: "string \<Rightarrow> string list" where
  "path_segments path =
     (case dropWhile (\<lambda>c. c = SLASH) path of
        [] \<Rightarrow> []
      | c # cs \<Rightarrow> (c # takeWhile (\<lambda>c. c \<noteq> SLASH) cs) # path_segments (dropWhile (\<lambda>c. c \<noteq> SLASH) cs))"
  by pat_completeness auto

termination
proof (relation "measure length")
  fix path cs :: string and c
  assume "dropWhile (\<lambda>c. c = SLASH) path = c # cs"
  then have "length (c # cs) \<le> length path" using length_dropWhile_le [of "\<lambda>c. c = SLASH" path] by simp
  moreover have "length (dropWhile (\<lambda>c. c \<noteq> SLASH) cs) \<le> length cs" by (rule length_dropWhile_le)
  ultimately show "(dropWhile (\<lambda>c. c \<noteq> SLASH) cs, path) \<in> measure length" by simp
qed simp

declare path_segments.simps [simp del]

definition segment_step :: "nat \<Rightarrow> nat \<Rightarrow> nat list \<times> string \<Rightarrow> string \<Rightarrow> path_error + (nat list \<times> string)" where
  "segment_step max_depth out_size s segment =
     (let (anchors, out) = s in
      if segment = ''.'' then Inr s
      else if segment = ''..'' then
        (case anchors of [] \<Rightarrow> Inr s | a # anchors \<Rightarrow> Inr (anchors, take a out))
      else if max_depth \<le> length anchors then Inl ENAMETOOLONG
      else if 1 < length out \<and> out_size \<le> length out + 1 then Inl ENAMETOOLONG
      else
        let out = (if 1 < length out then out @ [SLASH] else out);
            start = length out
        in if out_size \<le> start + length segment then Inl ENAMETOOLONG
           else Inr ((if 1 < start then start - 1 else 1) # anchors, out @ segment))"

fun segment_loop :: "nat \<Rightarrow> nat \<Rightarrow> string list \<Rightarrow> nat list \<times> string \<Rightarrow> path_error + (nat list \<times> string)" where
  "segment_loop max_depth out_size [] s = Inr s"
| "segment_loop max_depth out_size (segment # segments) s =
     ebind (segment_step max_depth out_size s segment) (segment_loop max_depth out_size segments)"

definition pathTruncateNormalizeAbsolute :: "trunc_env \<Rightarrow> string \<Rightarrow> nat \<Rightarrow> path_error + string" where
  "pathTruncateNormalizeAbsolute env path out_size =
     (if out_size < 2 \<or> \<not> absolute path then Inl EINVAL
      else map_sum id snd (segment_loop (te_path_max env div 2) out_size (path_segments path) ([], [SLASH])))"

subsection \<open>The prefix\<close>

definition pathTruncatePrefixMatch :: "string \<Rightarrow> string \<Rightarrow> bool" where
  "pathTruncatePrefixMatch path prefix \<longleftrightarrow> prefix \<noteq> [] \<and> starts_with path prefix \<and> at_boundary path (length prefix)"

function trim_slashes :: "string \<Rightarrow> string" where
  "trim_slashes path = (if 1 < length path \<and> last path = SLASH then trim_slashes (butlast path) else path)"
  by pat_completeness auto

termination by (relation "measure length") auto

declare trim_slashes.simps [simp del]

definition pathTruncateStorePrefix :: "trunc_env \<Rightarrow> string \<Rightarrow> Truncation \<Rightarrow> Truncation" where
  "pathTruncateStorePrefix env source st =
     (let primary = take (te_path_max env - 1) source;
          st = st\<lparr>tr_primary := primary, tr_alias := []\<rparr>
      in
      if length ''/private'' < length primary \<and> starts_with primary ''/private'' then
        st\<lparr>tr_alias := drop (length ''/private'') primary\<rparr>
      else if starts_with primary ''/var'' \<and> at_boundary primary (length ''/var'') \<and>
              length ''/private'' + length primary < te_path_max env
      then st\<lparr>tr_alias := ''/private'' @ primary\<rparr>
      else st)"

definition prefix_source :: "trunc_env \<Rightarrow> string option" where
  "prefix_source env =
     (let nonempty = (\<lambda>v. v \<noteq> None \<and> v \<noteq> Some []);
          var = (if nonempty (te_getenv env ''PATH_TRUNCATE'') then te_getenv env ''PATH_TRUNCATE''
                 else if nonempty (te_getenv env ''PSCALI_CONTAINER_ROOT'') then te_getenv env ''PSCALI_CONTAINER_ROOT''
                 else te_getenv env ''HOME'')
      in
      if nonempty (te_getenv env ''PSCALI_PATH_TRUNCATE_DISABLED'') then None
      else case var of
        None \<Rightarrow> None
      | Some root \<Rightarrow>
          if \<not> absolute root then None
          else
            let source = (if te_resolving env then root else case te_realpath env root of None \<Rightarrow> root | Some r \<Rightarrow> r);
                source = trim_slashes source
            in if source = [] then None else Some source)"

definition pathTruncateFetchPrefix :: "trunc_env \<Rightarrow> Truncation \<Rightarrow> Truncation \<times> bool" where
  "pathTruncateFetchPrefix env st =
     (case prefix_source env of
        None \<Rightarrow> (st, False)
      | Some source \<Rightarrow>
          let st = pathTruncateStorePrefix env source st in
          if tr_primary st = [SLASH] then
            (case te_getenv env ''HOME'' of
               None \<Rightarrow> (st, True)
             | Some home \<Rightarrow> if absolute home then (pathTruncateStorePrefix env (trim_slashes home) st, True) else (st, True))
          else (st, True))"

definition pathTruncateMatchesStoredPrefix :: "Truncation \<Rightarrow> string \<Rightarrow> string option" where
  "pathTruncateMatchesStoredPrefix st path =
     (if path = [] \<or> tr_primary st = [] then None
      else if starts_with path (tr_primary st) \<and> at_boundary path (length (tr_primary st)) then Some (tr_primary st)
      else if tr_alias st \<noteq> [] \<and> starts_with path (tr_alias st) \<and> at_boundary path (length (tr_alias st)) then Some (tr_alias st)
      else None)"

definition pathTruncateEnabled :: "trunc_env \<Rightarrow> Truncation \<Rightarrow> Truncation \<times> bool" where
  "pathTruncateEnabled env st = pathTruncateFetchPrefix env st"

definition pathTruncatePrefixIsRoot :: "trunc_env \<Rightarrow> string \<Rightarrow> bool" where
  "pathTruncatePrefixIsRoot env prefix \<longleftrightarrow>
     absolute prefix
     \<and> (pathTruncateNormalizeAbsolute env prefix (te_path_max env) = Inr [SLASH]
        \<or> \<not> te_resolving env \<and> te_realpath env prefix = Some [SLASH])"

subsection \<open>The mount table\<close>

abbreviation PATH_TRUNCATE_MAX_MOUNTS :: nat where "PATH_TRUNCATE_MAX_MOUNTS \<equiv> 64"

text \<open>\<open>strcmp\<close> is the lexicographic order of the bytes.\<close>

definition mount_before :: "Mount \<Rightarrow> Mount \<Rightarrow> bool" where
  "mount_before a b \<longleftrightarrow>
     (if length (mt_target a) = length (mt_target b) then mt_target a < mt_target b
      else length (mt_target b) < length (mt_target a))"

text \<open>\<open>qsort\<close> by that comparison; the targets of the table differ, so its result is the one sorted list.\<close>

fun insert_mount :: "Mount \<Rightarrow> Mount list \<Rightarrow> Mount list" where
  "insert_mount e [] = [e]"
| "insert_mount e (f # fs) = (if mount_before f e then f # insert_mount e fs else e # f # fs)"

definition pathTruncateMountSort :: "Mount list \<Rightarrow> Mount list" where
  "pathTruncateMountSort es = foldr insert_mount es []"

fun find_target :: "string \<Rightarrow> Mount list \<Rightarrow> nat \<Rightarrow> nat option" where
  "find_target target [] i = None"
| "find_target target (e # es) i = (if mt_target e = target then Some i else find_target target es (i + 1))"

definition nonempty_or :: "string \<Rightarrow> string option \<Rightarrow> string" where
  "nonempty_or fallback s = (case s of None \<Rightarrow> fallback | Some t \<Rightarrow> if t = [] then fallback else t)"

text \<open>The fields are written one after the other; \<open>snprintf\<close> leaves what fits.\<close>

definition fill_entry :: "nat \<Rightarrow> string \<Rightarrow> string \<Rightarrow> string \<Rightarrow> string \<Rightarrow> nat \<Rightarrow> Mount \<Rightarrow> Mount \<times> bool" where
  "fill_entry path_max source target type_name options flags e =
     (let e = e\<lparr>mt_source := take (path_max - 1) source\<rparr> in
      if path_max \<le> length source then (e, False)
      else let e = e\<lparr>mt_target := take (path_max - 1) target\<rparr> in
      if path_max \<le> length target then (e, False)
      else let e = e\<lparr>mt_type := take 31 type_name\<rparr> in
      if 32 \<le> length type_name then (e, False)
      else let e = e\<lparr>mt_options := take 127 options\<rparr> in
      if 128 \<le> length options then (e, False)
      else (e\<lparr>mt_flags := flags\<rparr>, True))"

definition empty_mount :: Mount where
  "empty_mount = \<lparr>mt_source = [], mt_target = [], mt_type = [], mt_options = [], mt_flags = 0\<rparr>"

definition pathTruncateMountAdd ::
    "trunc_env \<Rightarrow> string option \<Rightarrow> string option \<Rightarrow> string option \<Rightarrow> string option \<Rightarrow> nat \<Rightarrow> Truncation \<Rightarrow>
     Truncation \<times> (path_error + unit)" where
  "pathTruncateMountAdd env source_path target_path type_name options flags st =
     (case (source_path, target_path) of
        (Some source, Some target) \<Rightarrow>
          if \<not> absolute source \<or> \<not> absolute target then (st, Inl EINVAL)
          else (case pathTruncateNormalizeAbsolute env source (te_path_max env) of
            Inl e \<Rightarrow> (st, Inl e)
          | Inr source \<Rightarrow>
              (case pathTruncateNormalizeAbsolute env target (te_path_max env) of
                Inl e \<Rightarrow> (st, Inl e)
              | Inr target \<Rightarrow>
                  let mounts = tr_mounts st;
                      known = find_target target mounts 0
                  in if known = None \<and> PATH_TRUNCATE_MAX_MOUNTS \<le> length mounts then (st, Inl ENOSPC)
                  else
                    let mounts = (if known = None then mounts @ [empty_mount] else mounts);
                        slot = (case known of None \<Rightarrow> length mounts - 1 | Some i \<Rightarrow> i);
                        (entry, filled) = fill_entry (te_path_max env) source target (nonempty_or ''auto'' type_name)
                                            (nonempty_or ''rw'' options) flags (mounts ! slot);
                        mounts = mounts[slot := entry]
                    in if filled then (st\<lparr>tr_mounts := pathTruncateMountSort mounts\<rparr>, Inr ())
                       else (st\<lparr>tr_mounts := mounts\<rparr>, Inl ENAMETOOLONG)))
      | _ \<Rightarrow> (st, Inl EINVAL))"

definition pathTruncateMountRemove :: "trunc_env \<Rightarrow> string option \<Rightarrow> Truncation \<Rightarrow> Truncation \<times> (path_error + unit)" where
  "pathTruncateMountRemove env target_path st =
     (case target_path of
        None \<Rightarrow> (st, Inl EINVAL)
      | Some target \<Rightarrow>
          if \<not> absolute target then (st, Inl EINVAL)
          else (case pathTruncateNormalizeAbsolute env target (te_path_max env) of
            Inl e \<Rightarrow> (st, Inl e)
          | Inr target \<Rightarrow>
              (case find_target target (tr_mounts st) 0 of
                 None \<Rightarrow> (st, Inl ENOENT)
               | Some slot \<Rightarrow>
                   (st\<lparr>tr_mounts := take slot (tr_mounts st) @ drop (slot + 1) (tr_mounts st)\<rparr>, Inr ()))))"

definition pathTruncateMountClearAll :: "Truncation \<Rightarrow> Truncation" where
  "pathTruncateMountClearAll st = st\<lparr>tr_mounts := []\<rparr>"

definition pathTruncateMountSnapshot :: "nat \<Rightarrow> Truncation \<Rightarrow> Mount list \<times> nat" where
  "pathTruncateMountSnapshot out_capacity st = (take out_capacity (tr_mounts st), length (tr_mounts st))"

subsection \<open>From virtual to host paths\<close>

definition mounted_path :: "string \<Rightarrow> string \<Rightarrow> nat \<Rightarrow> path_error + string" where
  "mounted_path root suffix out_size =
     copy_string (if root = [SLASH] then (if suffix = [] then [SLASH] else suffix) else root @ suffix) out_size"

text \<open>The first entry that matches, and what the functions answer when none does or the result does not fit:
  both go on as if no mount were there.\<close>

fun first_mount :: "string \<Rightarrow> Mount list \<Rightarrow> Mount option" where
  "first_mount path [] = None"
| "first_mount path (e # es) = (if pathTruncatePrefixMatch path (mt_target e) then Some e else first_mount path es)"

definition pathTruncateResolveMountedPath :: "Truncation \<Rightarrow> string \<Rightarrow> nat \<Rightarrow> string option" where
  "pathTruncateResolveMountedPath st path out_size =
     (case first_mount path (tr_mounts st) of
        None \<Rightarrow> None
      | Some e \<Rightarrow>
          (case mounted_path (mt_source e) (drop (length (mt_target e)) path) out_size of
             Inl _ \<Rightarrow> None
           | Inr out \<Rightarrow> Some out))"

fun best_source :: "string \<Rightarrow> Mount list \<Rightarrow> Mount option \<Rightarrow> Mount option" where
  "best_source path [] best = best"
| "best_source path (e # es) best =
     best_source path es
       (if pathTruncatePrefixMatch path (mt_source e)
           \<and> (case best of None \<Rightarrow> 0 | Some b \<Rightarrow> length (mt_source b)) < length (mt_source e)
        then Some e else best)"

definition pathTruncateStripMountedPath :: "Truncation \<Rightarrow> string \<Rightarrow> nat \<Rightarrow> string option" where
  "pathTruncateStripMountedPath st path out_size =
     (case best_source path (tr_mounts st) None of
        None \<Rightarrow> None
      | Some e \<Rightarrow>
          (case mounted_path (mt_target e) (drop (length (mt_source e)) path) out_size of
             Inl _ \<Rightarrow> None
           | Inr out \<Rightarrow> Some out))"

definition pathTruncateStrip :: "trunc_env \<Rightarrow> Truncation \<Rightarrow> string option \<Rightarrow> nat \<Rightarrow> Truncation \<times> (path_error + string)" where
  "pathTruncateStrip env st absolute_path out_size =
     (if out_size = 0 then (st, Inl EINVAL)
      else case absolute_path of
        None \<Rightarrow> (st, copy_string [] out_size)
      | Some path \<Rightarrow>
          let source = (case pathTruncateNormalizeAbsolute env path (te_path_max env) of Inl _ \<Rightarrow> path | Inr n \<Rightarrow> n) in
          (case pathTruncateStripMountedPath st source out_size of
             Some out \<Rightarrow> (st, Inr out)
           | None \<Rightarrow>
               let (st, enabled) = pathTruncateFetchPrefix env st in
               if \<not> enabled then (st, copy_string source out_size)
               else (case pathTruncateMatchesStoredPrefix st source of
                 None \<Rightarrow> (st, copy_string source out_size)
               | Some matched \<Rightarrow>
                   let remainder = dropWhile (\<lambda>c. c = SLASH) (drop (length matched) source) in
                   (st, copy_string (SLASH # remainder) out_size))))"

definition private_prefix :: string where "private_prefix = ''/private''"

definition pathTruncateMatchesEnvRoot :: "trunc_env \<Rightarrow> string \<Rightarrow> string \<Rightarrow> bool" where
  "pathTruncateMatchesEnvRoot env path env_name \<longleftrightarrow>
     (case te_getenv env env_name of
        None \<Rightarrow> False
      | Some root \<Rightarrow>
          absolute root \<and>
          (let root' = trim_slashes root; n = length private_prefix in
           pathTruncatePrefixMatch path root'
           \<or> (if n < length root' \<and> starts_with root private_prefix
              then pathTruncatePrefixMatch path (drop n root')
              else starts_with path private_prefix \<and> pathTruncatePrefixMatch (drop n path) root')))"

definition pathTruncatePathIsUsrBinTree :: "string \<Rightarrow> bool" where
  "pathTruncatePathIsUsrBinTree path \<longleftrightarrow> pathTruncatePrefixMatch path ''/usr/bin''"

definition system_env_roots :: "string list" where
  "system_env_roots =
     [''PSCALI_INSTALL_ROOT'', ''PSCAL_INSTALL_ROOT'', ''PSCAL_INSTALL_ROOT_RESOLVED'', ''PASCAL_LIB_DIR'',
      ''CLIKE_LIB_DIR'', ''REA_LIB_DIR'', ''PSCALI_ETC_ROOT'', ''PSCALI_DOCS_ROOT'', ''PSCAL_EXAMPLES_ROOT'',
      ''PSCALI_SYSFILES_ROOT'']"

definition pathTruncateIsSystemPath :: "trunc_env \<Rightarrow> string \<Rightarrow> bool" where
  "pathTruncateIsSystemPath env path \<longleftrightarrow>
     absolute path \<and> \<not> pathTruncatePathIsUsrBinTree path
     \<and> (list_ex (pathTruncatePrefixMatch path) [''/System'', ''/usr'', ''/Library'', ''/Applications'']
        \<or> list_ex (pathTruncateMatchesEnvRoot env path) system_env_roots)"

definition etc_root :: "trunc_env \<Rightarrow> string option" where
  "etc_root env = (case te_getenv env ''PSCALI_ETC_ROOT'' of None \<Rightarrow> None | Some r \<Rightarrow> if absolute r then Some r else None)"

definition is_etc :: "string \<Rightarrow> bool" where
  "is_etc path \<longleftrightarrow> pathTruncatePrefixMatch path ''/etc'' \<or> pathTruncatePrefixMatch path ''/private/etc''"

definition etc_suffix :: "string \<Rightarrow> string option" where
  "etc_suffix path =
     (if pathTruncatePrefixMatch path ''/etc'' then Some (drop (length ''/etc'') path)
      else if pathTruncatePrefixMatch path ''/private/etc'' then Some (drop (length ''/private/etc'') path)
      else None)"

text \<open>What is handed to the host as it was given, before it is normalised.\<close>

definition left_alone :: "trunc_env \<Rightarrow> string \<Rightarrow> bool" where
  "left_alone env path \<longleftrightarrow>
     is_etc path \<and> etc_root env = None
     \<or> pathTruncateIsSystemPath env path
     \<or> path \<in> {''/dev/null'', ''/dev/zero'', ''/dev/random'', ''/dev/urandom''}"

definition expand_source :: "trunc_env \<Rightarrow> string \<Rightarrow> string" where
  "expand_source env path =
     (let source = (case pathTruncateNormalizeAbsolute env path (te_path_max env) of Inl _ \<Rightarrow> path | Inr n \<Rightarrow> n) in
      if pathTruncatePrefixMatch source ''/dev/fd''
      then take (te_path_max env - 1) (''/proc/self/fd'' @ drop (length ''/dev/fd'') source)
      else source)"

definition under_prefix :: "Truncation \<Rightarrow> string \<Rightarrow> nat \<Rightarrow> path_error + string" where
  "under_prefix st source out_size =
     (case pathTruncateMatchesStoredPrefix st source of
        Some matched \<Rightarrow>
          if matched = tr_primary st then copy_string source out_size
          else copy_string (tr_primary st @ drop (length matched) source) out_size
      | None \<Rightarrow>
          let trimmed = dropWhile (\<lambda>c. c = SLASH) source in
          copy_string (if trimmed = [] then tr_primary st else tr_primary st @ SLASH # trimmed) out_size)"

definition pathTruncateExpand :: "trunc_env \<Rightarrow> Truncation \<Rightarrow> string option \<Rightarrow> nat \<Rightarrow> Truncation \<times> (path_error + string)" where
  "pathTruncateExpand env st input_path out_size =
     (if out_size = 0 then (st, Inl EINVAL)
      else case input_path of
        None \<Rightarrow> (st, copy_string [] out_size)
      | Some path \<Rightarrow>
          let (st, enabled) = pathTruncateFetchPrefix env st in
          if \<not> enabled \<or> \<not> absolute path then (st, copy_string path out_size)
          else if left_alone env path then (st, copy_string path out_size)
          else
            let source = expand_source env path in
            (case (etc_root env, etc_suffix source) of
               (Some root, Some suffix) \<Rightarrow> (st, copy_string (root @ suffix) out_size)
             | _ \<Rightarrow>
                 (case pathTruncateResolveMountedPath st source out_size of
                    Some out \<Rightarrow> (st, Inr out)
                  | None \<Rightarrow> (st, under_prefix st source out_size))))"

subsection \<open>The table processes see\<close>

definition pathTruncateMountTableRow :: "nat \<Rightarrow> string \<Rightarrow> string \<Rightarrow> string \<Rightarrow> string \<Rightarrow> nat \<Rightarrow> Mount \<times> bool" where
  "pathTruncateMountTableRow path_max source target type_name options flags =
     (if path_max \<le> length source \<or> path_max \<le> length target \<or> 32 \<le> length type_name \<or> 128 \<le> length options
      then (empty_mount, False)
      else (\<lparr>mt_source = source, mt_target = target, mt_type = type_name, mt_options = options, mt_flags = flags\<rparr>, True))"

definition mount_row :: "nat \<Rightarrow> Truncation \<Rightarrow> Mount \<Rightarrow> Mount list" where
  "mount_row path_max st entry =
     (let inside = pathTruncateMatchesStoredPrefix st (mt_source entry) \<noteq> None;
          ty = (if mt_type entry = [] then ''auto'' else mt_type entry);
          ty = (if ty \<in> {''bind'', ''auto''} then (if inside then ''ext4'' else ''fuse'') else ty);
          (row, fits) = pathTruncateMountTableRow path_max (if inside then ''rootfs'' else ''external'') (mt_target entry)
                          ty (if mt_options entry = [] then ''rw'' else mt_options entry) (mt_flags entry)
      in if fits then [row] else [])"

definition pathTruncateMountTable :: "nat \<Rightarrow> nat \<Rightarrow> Truncation \<Rightarrow> Mount list \<times> nat" where
  "pathTruncateMountTable path_max out_capacity st =
     (take out_capacity
        ([fst (pathTruncateMountTableRow path_max ''rootfs'' ''/'' ''ext4'' ''rw,relatime'' 0),
          fst (pathTruncateMountTableRow path_max ''proc'' ''/proc'' ''proc'' ''rw,nosuid,nodev,noexec,relatime'' 0)]
         @ concat (map (mount_row path_max st) (rev (tr_mounts st)))),
      2 + length (tr_mounts st))"

fun best_target :: "string \<Rightarrow> Mount list \<Rightarrow> Mount \<Rightarrow> nat \<Rightarrow> Mount" where
  "best_target path [] best best_len = best"
| "best_target path (e # es) best best_len =
     (let len = length (mt_target e);
          holds = (mt_target e = [SLASH] \<or> pathTruncatePrefixMatch path (mt_target e))
      in if holds \<and> best_len \<le> len then best_target path es e len else best_target path es best best_len)"

definition pathTruncateMountForHostPath :: "trunc_env \<Rightarrow> Truncation \<Rightarrow> string \<Rightarrow> Truncation \<times> (path_error + Mount)" where
  "pathTruncateMountForHostPath env st host_path =
     (let (st, stripped) = pathTruncateStrip env st (Some host_path) (te_path_max env) in
      case stripped of
        Inl e \<Rightarrow> (st, Inl e)
      | Inr virtual \<Rightarrow>
          let capacity = PATH_TRUNCATE_MAX_MOUNTS + 2;
              (rows, total) = pathTruncateMountTable (te_path_max env) capacity st;
              table = take capacity (rows @ replicate (capacity - length rows) empty_mount)
          in (st, Inr (best_target virtual (take (min total capacity) table) (hd table) 0)))"

subsection \<open>What normalising computes\<close>

text \<open>The stack of segments a path comes to, and the path a stack is written as.\<close>

definition resolve_segment :: "string list \<Rightarrow> string \<Rightarrow> string list" where
  "resolve_segment ss s = (if s = ''.'' then ss else if s = ''..'' then butlast ss else ss @ [s])"

definition resolve_path :: "string \<Rightarrow> string list" where
  "resolve_path path = foldl resolve_segment [] (path_segments path)"

definition body :: "string list \<Rightarrow> string" where
  "body ss = concat (map ((#) SLASH) ss)"

definition render :: "string list \<Rightarrow> string" where
  "render ss = (if ss = [] then [SLASH] else body ss)"

definition plain :: "string \<Rightarrow> bool" where
  "plain s \<longleftrightarrow> s \<noteq> [] \<and> SLASH \<notin> set s"

definition proper :: "string \<Rightarrow> bool" where
  "proper s \<longleftrightarrow> plain s \<and> s \<noteq> ''.'' \<and> s \<noteq> ''..''"

lemma body_simps [simp]: "body [] = []" "body (s # ss) = SLASH # s @ body ss" "body (ss @ ts) = body ss @ body ts"
  by (simp_all add: body_def)

lemma body_Nil_iff [simp]: "body ss = [] \<longleftrightarrow> ss = []"
  by (cases ss) simp_all

lemma render_nonempty: "render ss \<noteq> []" "hd (render ss) = SLASH"
  by (cases ss; simp add: render_def)+

lemma path_segments_unfold:
  "dropWhile (\<lambda>c. c = SLASH) path = [] \<Longrightarrow> path_segments path = []"
  "dropWhile (\<lambda>c. c = SLASH) path = c # cs \<Longrightarrow>
   path_segments path = (c # takeWhile (\<lambda>c. c \<noteq> SLASH) cs) # path_segments (dropWhile (\<lambda>c. c \<noteq> SLASH) cs)"
  by (subst path_segments.simps, simp only: list.case)+

lemma path_segments_plain: "s \<in> set (path_segments path) \<Longrightarrow> plain s"
proof (induction path rule: path_segments.induct)
  case (1 path)
  show ?case
  proof (cases "dropWhile (\<lambda>c. c = SLASH) path")
    case Nil
    then show ?thesis using "1.prems" by (simp add: path_segments_unfold)
  next
    case (Cons c cs)
    then have "c \<noteq> SLASH" using hd_dropWhile [of "\<lambda>c. c = SLASH" path] by simp
    then have "plain (c # takeWhile (\<lambda>c. c \<noteq> SLASH) cs)" by (auto simp: plain_def dest: set_takeWhileD)
    then show ?thesis using "1.prems" "1.IH" [OF Cons] by (auto simp: path_segments_unfold(2) [OF Cons])
  qed
qed

lemma path_segments_body: "(\<And>s. s \<in> set ss \<Longrightarrow> plain s) \<Longrightarrow> path_segments (body ss) = ss"
proof (induction ss)
  case (Cons s ss)
  obtain c t where c: "s = c # t" "c \<noteq> SLASH" "SLASH \<notin> set t"
    using Cons.prems [of s] by (cases s) (auto simp: plain_def)
  have start: "dropWhile (\<lambda>c. c = SLASH) (body (s # ss)) = c # t @ body ss" using c by simp
  have none: "\<And>x. x \<in> set t \<Longrightarrow> x \<noteq> SLASH" using c(3) by auto
  have "takeWhile (\<lambda>c. c \<noteq> SLASH) (body ss) = []" "dropWhile (\<lambda>c. c \<noteq> SLASH) (body ss) = body ss"
    by (cases ss; simp)+
  then have "takeWhile (\<lambda>c. c \<noteq> SLASH) (t @ body ss) = t" "dropWhile (\<lambda>c. c \<noteq> SLASH) (t @ body ss) = body ss"
    using none by (simp_all add: takeWhile_append2 dropWhile_append2)
  then show ?case using Cons c(1) unfolding path_segments_unfold(2) [OF start] by simp
qed (simp add: path_segments_unfold)

lemma path_segments_slash: "path_segments (SLASH # p) = path_segments p"
  by (simp add: path_segments.simps [of "SLASH # p"] path_segments.simps [of p])

lemma path_segments_render: "(\<And>s. s \<in> set ss \<Longrightarrow> plain s) \<Longrightarrow> path_segments (render ss) = ss"
  using path_segments_body [of ss] path_segments_slash [of "[]"] by (auto simp: render_def path_segments.simps [of "[]"])

lemma resolve_segment_proper:
  "plain s \<Longrightarrow> (\<And>t. t \<in> set ss \<Longrightarrow> proper t) \<Longrightarrow> t \<in> set (resolve_segment ss s) \<Longrightarrow> proper t"
  by (auto simp: resolve_segment_def proper_def dest: in_set_butlastD split: if_splits)

lemma foldl_resolve_proper:
  "(\<And>s. s \<in> set us \<Longrightarrow> plain s) \<Longrightarrow> (\<And>t. t \<in> set ss \<Longrightarrow> proper t) \<Longrightarrow> t \<in> set (foldl resolve_segment ss us) \<Longrightarrow> proper t"
proof (induction us arbitrary: ss)
  case (Cons u us)
  have "t \<in> set (resolve_segment ss u) \<Longrightarrow> proper t" for t
    using resolve_segment_proper [of u ss t] Cons.prems(1,2) by simp
  then show ?case using Cons.IH [of "resolve_segment ss u"] Cons.prems by simp
qed simp

lemma resolve_path_proper: "t \<in> set (resolve_path path) \<Longrightarrow> proper t"
  unfolding resolve_path_def using foldl_resolve_proper [of "path_segments path" "[]" t] path_segments_plain by simp

lemma foldl_resolve_id: "(\<And>s. s \<in> set us \<Longrightarrow> proper s) \<Longrightarrow> foldl resolve_segment ss us = ss @ us"
  by (induction us arbitrary: ss) (auto simp: resolve_segment_def proper_def)

lemma resolve_render: "(\<And>s. s \<in> set ss \<Longrightarrow> proper s) \<Longrightarrow> resolve_path (render ss) = ss"
  unfolding resolve_path_def by (subst path_segments_render) (auto simp: foldl_resolve_id proper_def)

text \<open>The anchors and the output of the loop, for a stack.\<close>

definition loop_state :: "string list \<Rightarrow> nat list \<times> string" where
  "loop_state ss = (rev (map (\<lambda>i. length (render (take i ss))) [0..<length ss]), render ss)"

lemma take_render: "take (length (render (take i ss))) (render ss) = render (take i ss)"
proof (cases "take i ss = []")
  case True
  then show ?thesis using render_nonempty [of ss] by (cases "render ss") (simp_all add: render_def)
next
  case False
  have "body ss = body (take i ss) @ body (drop i ss)" using body_simps(3) [of "take i ss" "drop i ss"] by simp
  then show ?thesis using False by (auto simp: render_def)
qed

lemma loop_state_snoc:
  "loop_state (ss @ [s]) = (length (render ss) # fst (loop_state ss), render (ss @ [s]))"
proof -
  have "map (\<lambda>i. length (render (take i (ss @ [s])))) [0..<length ss] = map (\<lambda>i. length (render (take i ss))) [0..<length ss]"
    by (rule map_cong) auto
  then show ?thesis by (simp add: loop_state_def)
qed

lemma render_snoc: "render (ss @ [s]) = (if ss = [] then [SLASH] else render ss @ [SLASH]) @ s"
  by (auto simp: render_def)

lemma length_render: "(\<And>s. s \<in> set ss \<Longrightarrow> plain s) \<Longrightarrow> length (render ss) = 1 \<longleftrightarrow> ss = []"
  by (cases ss) (auto simp: render_def plain_def)

lemma segment_step_state:
  assumes "\<And>t. t \<in> set ss \<Longrightarrow> plain t"
  shows "segment_step max_depth out_size (loop_state ss) s =
    (if s \<noteq> ''.'' \<and> s \<noteq> ''..'' \<and> (max_depth \<le> length ss \<or> 1 < length (render ss) \<and> out_size \<le> length (render ss) + 1
          \<or> out_size \<le> length (render (ss @ [s])))
     then Inl ENAMETOOLONG else Inr (loop_state (resolve_segment ss s)))"
proof -
  have n: "length (fst (loop_state ss)) = length ss" "snd (loop_state ss) = render ss" by (simp_all add: loop_state_def)
  have pop: "(case fst (loop_state ss) of [] \<Rightarrow> Inr (loop_state ss) | a # as \<Rightarrow> Inr (as, take a (render ss))) = Inr (loop_state (butlast ss))"
  proof (cases ss rule: rev_cases)
    case (snoc us u)
    then show ?thesis
      using take_render [of "length us" ss] loop_state_snoc [of us u] by (simp add: loop_state_def [of us])
  qed (simp add: loop_state_def)
  have one: "1 < length (render ss) \<longleftrightarrow> ss \<noteq> []"
  proof -
    have "0 < length (render ss)" using render_nonempty(1) by simp
    then have "1 < length (render ss) \<longleftrightarrow> length (render ss) \<noteq> 1" by linarith
    then show ?thesis using length_render [OF assms] by blast
  qed
  have state: "loop_state ss = (fst (loop_state ss), render ss)" using n(2) by (metis prod.collapse)
  consider (dot) "s = ''.''" | (up) "s = ''..''" | (other) "s \<noteq> ''.''" "s \<noteq> ''..''" by blast
  then show ?thesis
  proof cases
    case dot
    then show ?thesis by (subst state, unfold segment_step_def Let_def) (simp add: resolve_segment_def state [symmetric])
  next
    case up
    have "segment_step max_depth out_size (fst (loop_state ss), render ss) s =
      (case fst (loop_state ss) of [] \<Rightarrow> Inr (fst (loop_state ss), render ss) | a # as \<Rightarrow> Inr (as, take a (render ss)))"
      unfolding segment_step_def Let_def prod.case using up by simp
    then show ?thesis unfolding state [symmetric] pop using up by (simp add: resolve_segment_def)
  next
    case other
    let ?out = "if 1 < length (render ss) then render ss @ [SLASH] else render ss"
    have out: "?out @ s = render (ss @ [s])" using one by (auto simp: render_snoc render_def)
    have anchor: "(if 1 < length ?out then length ?out - 1 else 1) = length (render ss)"
      using one by (auto simp: render_def)
    have len: "length ?out + length s = length (render (ss @ [s]))" by (simp only: out [symmetric] length_append)
    have "segment_step max_depth out_size (fst (loop_state ss), render ss) s =
      (if max_depth \<le> length ss then Inl ENAMETOOLONG
       else if 1 < length (render ss) \<and> out_size \<le> length (render ss) + 1 then Inl ENAMETOOLONG
       else if out_size \<le> length ?out + length s then Inl ENAMETOOLONG
       else Inr ((if 1 < length ?out then length ?out - 1 else 1) # fst (loop_state ss), ?out @ s))"
      unfolding segment_step_def Let_def prod.case using other n(1) by (simp only: if_False simp_thms)
    then show ?thesis
      unfolding out anchor len using other by (subst state) (simp add: resolve_segment_def loop_state_snoc)
  qed
qed

lemma length_body: "length (body ss) = length ss + sum_list (map length ss)"
  by (induction ss) auto

lemma body_resolve_segment: "length (body (resolve_segment ss s)) \<le> length (body ss) + length s + 1"
proof -
  have "length (body (butlast ss)) \<le> length (body ss)" by (cases ss rule: rev_cases) auto
  then show ?thesis by (simp add: resolve_segment_def)
qed

lemma length_path_segments: "path = [] \<or> absolute path \<Longrightarrow> length (body (path_segments path)) \<le> length path"
proof (induction path rule: path_segments.induct)
  case (1 path)
  show ?case
  proof (cases "dropWhile (\<lambda>c. c = SLASH) path")
    case Nil
    then show ?thesis by (simp add: path_segments_unfold)
  next
    case (Cons c cs)
    let ?seg = "takeWhile (\<lambda>c. c \<noteq> SLASH) cs" and ?next = "dropWhile (\<lambda>c. c \<noteq> SLASH) cs"
    have whole: "length ?seg + length ?next = length cs" by (metis length_append takeWhile_dropWhile_id)
    have "path \<noteq> []" using Cons by auto
    then have "absolute path" using "1.prems" by simp
    then obtain t where "path = SLASH # t" by (cases path) (auto simp: absolute_def)
    then have "length (c # cs) < length path" using length_dropWhile_le [of "\<lambda>c. c = SLASH" t] Cons by simp
    moreover have "?next = [] \<or> absolute ?next"
      using hd_dropWhile [of "\<lambda>c. c \<noteq> SLASH" cs] by (auto simp: absolute_def)
    then have "length (body (path_segments ?next)) \<le> length ?next" by (rule "1.IH" [OF Cons])
    ultimately show ?thesis using whole unfolding path_segments_unfold(2) [OF Cons] by simp
  qed
qed

lemma resolve_segment_plain:
  "plain u \<Longrightarrow> (\<And>t. t \<in> set ss \<Longrightarrow> plain t) \<Longrightarrow> t \<in> set (resolve_segment ss u) \<Longrightarrow> plain t"
  by (auto simp: resolve_segment_def dest: in_set_butlastD split: if_splits)

lemma segment_loop_result:
  "segment_loop max_depth out_size us (loop_state ss) = Inr s' \<Longrightarrow> (\<And>t. t \<in> set ss \<Longrightarrow> plain t) \<Longrightarrow>
   (\<And>s. s \<in> set us \<Longrightarrow> plain s) \<Longrightarrow> s' = loop_state (foldl resolve_segment ss us)"
proof (induction us arbitrary: ss)
  case (Cons u us)
  have "plain t" if "t \<in> set (resolve_segment ss u)" for t
    using resolve_segment_plain [OF _ Cons.prems(2) that] Cons.prems(3) by simp
  moreover have "segment_loop max_depth out_size us (loop_state (resolve_segment ss u)) = Inr s'"
    using Cons.prems(1) by (auto simp: segment_step_state [OF Cons.prems(2)] split: if_splits)
  ultimately show ?case using Cons.IH [of "resolve_segment ss u"] Cons.prems(3) by simp
qed simp

lemma segment_loop_succeeds:
  "length ss + length us \<le> max_depth \<Longrightarrow> length (body ss) + length (body us) < out_size \<Longrightarrow>
   (\<And>t. t \<in> set ss \<Longrightarrow> plain t) \<Longrightarrow> (\<And>s. s \<in> set us \<Longrightarrow> plain s) \<Longrightarrow>
   segment_loop max_depth out_size us (loop_state ss) = Inr (loop_state (foldl resolve_segment ss us))"
proof (induction us arbitrary: ss)
  case (Cons u us)
  have u: "plain u" using Cons.prems(4) by simp
  have plain: "plain t" if "t \<in> set (resolve_segment ss u)" for t
    using resolve_segment_plain [OF u Cons.prems(3) that] .
  have "length (resolve_segment ss u) + length us \<le> max_depth" using Cons.prems(1) by (auto simp: resolve_segment_def)
  moreover have "length (body (resolve_segment ss u)) + length (body us) < out_size"
    using Cons.prems(2) body_resolve_segment [of ss u] by simp
  ultimately have rest: "segment_loop max_depth out_size us (loop_state (resolve_segment ss u))
      = Inr (loop_state (foldl resolve_segment (resolve_segment ss u) us))"
    using Cons.IH [of "resolve_segment ss u"] plain Cons.prems(4) by simp
  have "length (render ss) + 1 < out_size \<or> \<not> 1 < length (render ss)" "length (render (ss @ [u])) < out_size"
    "length ss < max_depth"
    using Cons.prems(1,2) u by (auto simp: render_def plain_def length_greater_0_conv [symmetric] simp del: length_greater_0_conv)
  then have "segment_step max_depth out_size (loop_state ss) u = Inr (loop_state (resolve_segment ss u))"
    by (subst segment_step_state [OF Cons.prems(3)]) auto
  then show ?case using rest by simp
qed simp

lemma normalized_render:
  assumes "pathTruncateNormalizeAbsolute env path out_size = Inr out" shows "out = render (resolve_path path)"
proof -
  have start: "([], [SLASH]) = loop_state []" by (simp add: loop_state_def render_def)
  obtain s' where "segment_loop (te_path_max env div 2) out_size (path_segments path) (loop_state []) = Inr s'" "out = snd s'"
    using assms unfolding pathTruncateNormalizeAbsolute_def start
    by (cases "segment_loop (te_path_max env div 2) out_size (path_segments path) (loop_state [])") (auto split: if_splits)
  moreover from this(1) have "s' = loop_state (foldl resolve_segment [] (path_segments path))"
    by (rule segment_loop_result) (auto intro: path_segments_plain)
  ultimately show ?thesis by (simp add: resolve_path_def loop_state_def)
qed

lemma many_segments: "(\<And>s. s \<in> set us \<Longrightarrow> plain s) \<Longrightarrow> 2 * length us \<le> length (body us)"
proof (induction us)
  case (Cons u us)
  have "1 \<le> length u" using Cons.prems [of u] by (cases u) (simp_all add: plain_def)
  moreover have "2 * length us \<le> length (body us)" using Cons by simp
  ultimately show ?case by (simp del: One_nat_def)
qed simp

lemma normalize_succeeds:
  assumes "absolute path" "2 \<le> out_size" "length path < out_size" "length path < te_path_max env"
  shows "pathTruncateNormalizeAbsolute env path out_size = Inr (render (resolve_path path))"
proof -
  have start: "([], [SLASH]) = loop_state []" by (simp add: loop_state_def render_def)
  have short: "length (body (path_segments path)) \<le> length path" using length_path_segments assms(1) by blast
  moreover have "2 * length (path_segments path) \<le> length (body (path_segments path))"
    by (rule many_segments) (rule path_segments_plain)
  ultimately have "length (path_segments path) \<le> te_path_max env div 2" using assms(4) by linarith
  then have "segment_loop (te_path_max env div 2) out_size (path_segments path) (loop_state [])
      = Inr (loop_state (foldl resolve_segment [] (path_segments path)))"
    using short assms(3) path_segments_plain by (intro segment_loop_succeeds) auto
  then show ?thesis
    using assms(1,2) unfolding pathTruncateNormalizeAbsolute_def start by (simp add: resolve_path_def loop_state_def)
qed

text \<open>C12: \<open>pathTruncateNormalizeAbsolute\<close> is the resolution of a path segment by segment: what it answers is the
  path of the stack of segments that \<open>.\<close> leaves alone, \<open>..\<close> pops and any other segment is pushed on, so it
  has no empty, \<open>.\<close> or \<open>..\<close> segment left and normalising it again changes nothing. It does answer for
  every absolute path shorter than the buffer and \<open>PATH_MAX\<close>.\<close>
theorem normalize_resolves:
  "(\<forall>out. pathTruncateNormalizeAbsolute env path out_size = Inr out \<longrightarrow>
       out = render (resolve_path path) \<and> (\<forall>s \<in> set (resolve_path path). proper s) \<and> resolve_path out = resolve_path path)
    \<and> (absolute path \<and> 2 \<le> out_size \<and> length path < out_size \<and> length path < te_path_max env \<longrightarrow>
       pathTruncateNormalizeAbsolute env path out_size = Inr (render (resolve_path path)))"
  using normalized_render normalize_succeeds resolve_path_proper resolve_render [of "resolve_path path"] by blast

definition example_env :: trunc_env where
  "example_env = \<lparr>te_getenv = (\<lambda>v. if v = ''PATH_TRUNCATE'' then Some ''/box'' else None), te_realpath = (\<lambda>_. None),
     te_resolving = False, te_path_max = 64\<rparr>"

lemma normalize_resolves_witness:
  "pathTruncateNormalizeAbsolute example_env ''/a//b/../../../etc/./x/'' 64 = Inr (render [''etc'', ''x''])"
proof -
  let ?p = "''/a//b/../../../etc/./x/''"
  have "resolve_path ?p = [''etc'', ''x'']" by code_simp
  moreover have "absolute ?p \<and> 2 \<le> (64 :: nat) \<and> length ?p < 64 \<and> length ?p < te_path_max example_env"
    by (simp add: absolute_def example_env_def)
  ultimately show ?thesis
    using normalize_resolves [THEN conjunct2, THEN mp, of ?p 64 example_env] by simp
qed

subsection \<open>Expanded paths stay inside\<close>

lemma split_body:
  "(\<And>s. s \<in> set ss \<Longrightarrow> plain s) \<Longrightarrow> body ss = p @ q \<Longrightarrow> q = [] \<or> hd q = SLASH \<Longrightarrow>
   \<exists>k. p = body (take k ss) \<and> q = body (drop k ss)"
proof (induction ss arbitrary: p)
  case (Cons s ss)
  show ?case
  proof (cases p)
    case Nil
    then show ?thesis using Cons.prems(2) by (intro exI [of _ 0]) simp
  next
    case (Cons c p')
    then have c: "c = SLASH" and rest: "s @ body ss = p' @ q" using Cons.prems(2) by simp_all
    from rest obtain us where "s = p' @ us \<and> us @ body ss = q \<or> s @ us = p' \<and> body ss = us @ q"
      by (auto simp: append_eq_append_conv2)
    then show ?thesis
    proof
      assume us: "s = p' @ us \<and> us @ body ss = q"
      have "us = []"
      proof (rule ccontr)
        assume "us \<noteq> []"
        then obtain u vs where "us = u # vs" by (cases us) auto
        then have "u = SLASH" "u \<in> set s" using us Cons.prems(3) by auto
        then show False using Cons.prems(1) [of s] by (simp add: plain_def)
      qed
      then show ?thesis using us Cons c by (intro exI [of _ 1]) simp
    next
      assume us: "s @ us = p' \<and> body ss = us @ q"
      then obtain k where "us = body (take k ss)" "q = body (drop k ss)"
        using Cons.IH [of us] Cons.prems(1,3) by auto
      then show ?thesis using us Cons c by (intro exI [of _ "Suc k"]) auto
    qed
  qed
qed simp

lemma split_render:
  assumes "\<And>s. s \<in> set ss \<Longrightarrow> plain s" "starts_with (render ss) p" "at_boundary (render ss) (length p)" "p \<noteq> []"
  shows "\<exists>k. drop (length p) (render ss) = body (drop k ss) \<and> (ss \<noteq> [] \<longrightarrow> p = body (take k ss))"
proof -
  have p: "render ss = p @ drop (length p) (render ss)"
    using assms(2) append_take_drop_id [of "length p" "render ss"] by (simp add: starts_with_def)
  show ?thesis
  proof (cases "ss = []")
    case True
    then show ?thesis using p assms(4) by (cases p) (auto simp: render_def)
  next
    case False
    then have "body ss = p @ drop (length p) (render ss)" using p by (simp add: render_def)
    from split_body [OF assms(1) this] obtain k where "p = body (take k ss)" "drop (length p) (render ss) = body (drop k ss)"
      using assms(3) by (auto simp: at_boundary_def)
    then show ?thesis by blast
  qed
qed

definition within :: "string \<Rightarrow> string \<Rightarrow> bool" where
  "within root out \<longleftrightarrow>
     (\<exists>ss. (\<forall>s \<in> set ss. proper s) \<and> (out = root @ body ss \<or> root = [SLASH] \<and> out = render ss))"

lemma withinI: "(\<And>s. s \<in> set ss \<Longrightarrow> proper s) \<Longrightarrow> out = root @ body ss \<Longrightarrow> within root out"
  by (auto simp: within_def)

lemma proper_plain: "proper s \<Longrightarrow> plain s"
  by (simp add: proper_def)

lemma copy_string_Inr: "copy_string s out_size = Inr out \<longleftrightarrow> out = s \<and> length s < out_size"
  by (auto simp: copy_string_def)

lemma fetch_keeps_mounts: "pathTruncateFetchPrefix env st = (st', b) \<Longrightarrow> tr_mounts st' = tr_mounts st"
proof -
  have store: "tr_mounts (pathTruncateStorePrefix env s st) = tr_mounts st" for s st
    by (simp add: pathTruncateStorePrefix_def Let_def)
  show "pathTruncateFetchPrefix env st = (st', b) \<Longrightarrow> tr_mounts st' = tr_mounts st"
    by (auto simp: pathTruncateFetchPrefix_def Let_def store split: option.splits if_splits)
qed

lemma first_mount_Some: "first_mount path es = Some e \<Longrightarrow> e \<in> set es \<and> pathTruncatePrefixMatch path (mt_target e)"
  by (induction es) (auto split: if_splits)

lemma length_foldl_resolve: "length (body (foldl resolve_segment ss us)) \<le> length (body ss) + length (body us)"
proof (induction us arbitrary: ss)
  case (Cons u us)
  show ?case using Cons [of "resolve_segment ss u"] body_resolve_segment [of ss u] by simp
qed simp

lemma length_resolve_path: "absolute path \<Longrightarrow> length (render (resolve_path path)) \<le> length path"
  using length_foldl_resolve [of "[]" "path_segments path"] length_path_segments [of path]
  by (cases path) (auto simp: render_def resolve_path_def absolute_def)

lemma expand_source_render:
  assumes "absolute path" "length path + 6 < te_path_max env"
  obtains ss where "expand_source env path = render ss" "\<And>s. s \<in> set ss \<Longrightarrow> proper s"
proof -
  let ?ss = "resolve_path path"
  have norm: "pathTruncateNormalizeAbsolute env path (te_path_max env) = Inr (render ?ss)"
    using assms by (intro normalize_succeeds) simp_all
  show ?thesis
  proof (cases "pathTruncatePrefixMatch (render ?ss) ''/dev/fd''")
    case False
    then show ?thesis using that [of ?ss] resolve_path_proper by (simp add: expand_source_def norm)
  next
    case True
    then obtain k where k: "drop (length ''/dev/fd'') (render ?ss) = body (drop k ?ss)"
      using split_render [of ?ss "''/dev/fd''"] resolve_path_proper proper_plain by (auto simp: pathTruncatePrefixMatch_def)
    have "length (''/proc/self/fd'' @ body (drop k ?ss)) \<le> te_path_max env - 1"
      using length_resolve_path [OF assms(1)] assms(2) arg_cong [OF k, of length] True
      by (auto simp: pathTruncatePrefixMatch_def starts_with_def dest: arg_cong [of _ _ length])
    moreover have "expand_source env path = take (te_path_max env - 1) (''/proc/self/fd'' @ body (drop k ?ss))"
      using True by (simp only: expand_source_def norm Let_def sum.case if_True k)
    ultimately have "expand_source env path = ''/proc/self/fd'' @ body (drop k ?ss)" by (simp only: take_all)
    also have "\<dots> = render ([''proc'', ''self'', ''fd''] @ drop k ?ss)" by (simp add: render_def)
    finally have "expand_source env path = render ([''proc'', ''self'', ''fd''] @ drop k ?ss)" .
    moreover have "proper s" if "s \<in> set ([''proc'', ''self'', ''fd''] @ drop k ?ss)" for s
      using that resolve_path_proper by (auto simp: proper_def plain_def dest: in_set_dropD)
    ultimately show ?thesis by (rule that)
  qed
qed

lemma suffix_within:
  assumes "\<And>s. s \<in> set ss \<Longrightarrow> proper s" "starts_with (render ss) p" "at_boundary (render ss) (length p)" "p \<noteq> []"
  shows "within root (root @ drop (length p) (render ss))"
proof -
  obtain k where "drop (length p) (render ss) = body (drop k ss)"
    using split_render [of ss p] assms proper_plain by blast
  then show ?thesis using assms(1) by (intro withinI [of "drop k ss"]) (auto dest: in_set_dropD)
qed

lemma mounted_within:
  assumes "\<And>s. s \<in> set ss \<Longrightarrow> proper s" "pathTruncatePrefixMatch (render ss) p"
    "mounted_path root (drop (length p) (render ss)) out_size = Inr out"
  shows "within root out"
proof -
  have p: "starts_with (render ss) p" "at_boundary (render ss) (length p)" "p \<noteq> []"
    using assms(2) by (simp_all add: pathTruncatePrefixMatch_def)
  obtain k where k: "drop (length p) (render ss) = body (drop k ss)"
    using split_render [of ss p] assms(1) p proper_plain by blast
  have "\<And>s. s \<in> set (drop k ss) \<Longrightarrow> proper s" using assms(1) by (auto dest: in_set_dropD)
  moreover have "out = root @ body (drop k ss) \<or> root = [SLASH] \<and> out = render (drop k ss)"
    using assms(3) unfolding k by (auto simp: mounted_path_def copy_string_Inr render_def split: if_splits)
  ultimately show ?thesis by (auto simp: within_def)
qed

lemma under_prefix_within:
  assumes "\<And>s. s \<in> set ss \<Longrightarrow> proper s" "under_prefix st (render ss) out_size = Inr out"
  shows "within (tr_primary st) out"
proof (cases "pathTruncateMatchesStoredPrefix st (render ss)")
  case (Some p)
  then have p: "starts_with (render ss) p" "at_boundary (render ss) (length p)" "p \<noteq> []"
    by (auto simp: pathTruncateMatchesStoredPrefix_def split: if_splits)
  have "render ss = p @ drop (length p) (render ss)"
    using p(1) append_take_drop_id [of "length p" "render ss"] by (simp add: starts_with_def)
  then have "out = tr_primary st @ drop (length p) (render ss)"
    using assms(2) Some by (auto simp: under_prefix_def copy_string_Inr split: if_splits)
  then show ?thesis using suffix_within [OF assms(1) p] by simp
next
  case None
  have "dropWhile (\<lambda>c. c = SLASH) (render ss) = tl (body ss)"
  proof (cases ss)
    case (Cons s t)
    then show ?thesis using assms(1) [of s] by (cases s) (auto simp: render_def proper_def plain_def)
  qed (simp add: render_def)
  then have "out = tr_primary st @ body ss"
    using assms None by (cases ss) (auto simp: under_prefix_def copy_string_Inr Let_def proper_def plain_def)
  then show ?thesis using assms(1) by (intro withinI)
qed

lemma expand_cases:
  assumes "pathTruncateFetchPrefix env st = (st1, True)" "absolute path" "\<not> left_alone env path"
    and "pathTruncateExpand env st (Some path) out_size = (st2, Inr out)" "expand_source env path = source"
  obtains (etc) root suffix where "st2 = st1" "etc_root env = Some root" "etc_suffix source = Some suffix" "out = root @ suffix"
  | (mount) "st2 = st1" "pathTruncateResolveMountedPath st1 source out_size = Some out"
  | (prefix) "st2 = st1" "pathTruncateResolveMountedPath st1 source out_size = None" "under_prefix st1 source out_size = Inr out"
  using assms by (auto simp: pathTruncateExpand_def Let_def copy_string_Inr split: if_splits option.splits)

text \<open>C10: With truncation on, a virtual path never reaches outside the places it may reach. For every absolute
  path below \<open>PATH_MAX\<close> that is not one of the paths handed over as they are (system paths, four device
  nodes, \<open>/etc\<close> without a root for it), however many \<open>.\<close>, \<open>..\<close> and slashes it has, \<open>pathTruncateExpand\<close> answers a
  host path that is the container prefix, the root for \<open>/etc\<close> or the source of a mount, followed by segments
  none of which is \<open>.\<close> or \<open>..\<close>.\<close>
theorem expanded_path_contained:
  assumes "pathTruncateFetchPrefix env st = (st1, True)"
    and "absolute path" and "\<not> left_alone env path" and "length path + 6 < te_path_max env"
    and "pathTruncateExpand env st (Some path) out_size = (st2, Inr out)"
  shows "\<exists>root \<in> {tr_primary st1} \<union> set_option (etc_root env) \<union> mt_source ` set (tr_mounts st). within root out"
proof -
  obtain ss where ss: "expand_source env path = render ss" "\<And>s. s \<in> set ss \<Longrightarrow> proper s"
    by (rule expand_source_render [OF assms(2,4)]) blast
  have mounts: "tr_mounts st1 = tr_mounts st" by (rule fetch_keeps_mounts [OF assms(1)])
  from assms(1,2,3,5) ss(1) show ?thesis
  proof (cases rule: expand_cases)
    case (etc root suffix)
    moreover have "\<exists>p. pathTruncatePrefixMatch (render ss) p \<and> suffix = drop (length p) (render ss)"
      using etc(3) unfolding etc_suffix_def by (metis option.distinct(1) option.inject)
    then have "within root (root @ suffix)"
      using suffix_within [OF ss(2), where root = root] by (auto simp: pathTruncatePrefixMatch_def)
    ultimately show ?thesis by auto
  next
    case mount
    then obtain e where "first_mount (render ss) (tr_mounts st1) = Some e"
      "mounted_path (mt_source e) (drop (length (mt_target e)) (render ss)) out_size = Inr out"
      by (auto simp: pathTruncateResolveMountedPath_def split: option.splits sum.splits)
    then show ?thesis using first_mount_Some mounted_within [OF ss(2)] mounts by fastforce
  next
    case prefix
    then show ?thesis using under_prefix_within [OF ss(2)] by blast
  qed
qed

definition empty_truncation :: Truncation where
  "empty_truncation = \<lparr>tr_primary = [], tr_alias = [], tr_mounts = []\<rparr>"

lemma expanded_path_contained_witness: "within ''/box'' ''/box/secret/x''"
proof -
  let ?st = "\<lparr>tr_primary = ''/box'', tr_alias = [], tr_mounts = []\<rparr>"
  have "pathTruncateFetchPrefix example_env empty_truncation = (?st, True)" by code_simp
  moreover have "absolute ''/home/../../..//secret/./x''" "length ''/home/../../..//secret/./x'' + 6 < te_path_max example_env"
    by (simp_all add: absolute_def example_env_def)
  moreover have "\<not> left_alone example_env ''/home/../../..//secret/./x''" by code_simp
  moreover have "pathTruncateExpand example_env empty_truncation (Some ''/home/../../..//secret/./x'') 64 = (?st, Inr ''/box/secret/x'')"
    by code_simp
  ultimately show ?thesis
    using expanded_path_contained [of example_env empty_truncation ?st "''/home/../../..//secret/./x''" 64 ?st "''/box/secret/x''"]
    by (simp add: etc_root_def example_env_def empty_truncation_def)
qed

text \<open>The paths handed over as they are are recognised before they are normalised: a spelling that starts like
  a system path reaches any path of the host.\<close>

lemma system_spelling_escapes:
  "snd (pathTruncateExpand example_env empty_truncation (Some ''/usr/../secret/x'') 64) = Inr ''/usr/../secret/x''"
  "snd (pathTruncateExpand example_env empty_truncation (Some ''/etc/../secret/x'') 64) = Inr ''/etc/../secret/x''"
  "snd (pathTruncateExpand example_env empty_truncation (Some ''/secret/x'') 64) = Inr ''/box/secret/x''"
  by code_simp+

subsection \<open>Stripping undoes expanding\<close>

lemma store_again: "pathTruncateStorePrefix env s (pathTruncateStorePrefix env s' st) = pathTruncateStorePrefix env s st"
  by (simp add: pathTruncateStorePrefix_def Let_def)

lemma fetch_again: "pathTruncateFetchPrefix env st = (st1, b) \<Longrightarrow> pathTruncateFetchPrefix env st1 = (st1, b)"
proof -
  have primary: "tr_primary (pathTruncateStorePrefix env s st) = take (te_path_max env - 1) s" for s st
    by (simp add: pathTruncateStorePrefix_def Let_def)
  show "pathTruncateFetchPrefix env st = (st1, b) \<Longrightarrow> pathTruncateFetchPrefix env st1 = (st1, b)"
    by (cases "prefix_source env"; cases "te_getenv env ''HOME''")
      (auto simp: pathTruncateFetchPrefix_def Let_def store_again primary split: if_splits)
qed

lemma starts_with_append [simp]: "starts_with (p @ q) p"
  by (simp add: starts_with_def)

lemma at_boundary_body: "at_boundary (p @ body ss) (length p)"
  by (cases ss) (simp_all add: at_boundary_def)

text \<open>C11: In the plain configuration, stripping is the inverse of expanding. With truncation on and set to a prefix
  in normal form, without mounts and without a separate root for \<open>/etc\<close>, the host path \<open>pathTruncateExpand\<close> answers for an
  absolute virtual path is stripped back to what expanding started from (\<open>expand_source\<close>): the normal form of the
  virtual path, except that a path below \<open>/dev/fd\<close> comes back below \<open>/proc/self/fd\<close>. Outside the statement are the paths
  handed over as they are, those already below the prefix or its alias, which expand to themselves, those within a
  few bytes of \<open>PATH_MAX\<close>, and mounts: two mounts of one host directory cannot be told apart from the host path.\<close>
theorem strip_undoes_expand:
  assumes "pathTruncateFetchPrefix env st = (st1, True)" and "tr_mounts st = []" and "etc_root env = None"
    and "tr_primary st1 = render ps" and "ps \<noteq> []" and "\<forall>s \<in> set ps. proper s"
    and "absolute path" and "\<not> left_alone env path" and "length path + 6 < te_path_max env"
    and "pathTruncateMatchesStoredPrefix st1 (expand_source env path) = None"
    and "pathTruncateExpand env st (Some path) out_size = (st2, Inr out)" and "out_size \<le> te_path_max env"
  shows "snd (pathTruncateStrip env st2 (Some out) n) = (if n = 0 then Inl EINVAL else copy_string (expand_source env path) n)"
proof -
  obtain ss where ss: "expand_source env path = render ss" "\<And>s. s \<in> set ss \<Longrightarrow> proper s"
    by (rule expand_source_render [OF assms(7,9)]) blast
  have mounts: "tr_mounts st1 = []" using fetch_keeps_mounts [OF assms(1)] assms(2) by simp
  have primary: "tr_primary st1 = body ps" using assms(4,5) by (simp add: render_def)
  have trim: "dropWhile (\<lambda>c. c = SLASH) (render ss) = tl (body ss)"
  proof (cases ss)
    case (Cons s t)
    then show ?thesis using ss(2) [of s] by (cases s) (auto simp: render_def proper_def plain_def)
  qed (simp add: render_def)
  have out: "st2 = st1 \<and> out = body (ps @ ss) \<and> length out < out_size"
    using assms(1,7,8,11) ss(1)
  proof (cases rule: expand_cases)
    case prefix
    have "pathTruncateMatchesStoredPrefix st1 (render ss) = None" using assms(10) ss(1) by simp
    then have "under_prefix st1 (render ss) out_size
        = copy_string (if tl (body ss) = [] then body ps else body ps @ SLASH # tl (body ss)) out_size"
      by (simp only: under_prefix_def Let_def trim primary option.case)
    moreover have "(if tl (body ss) = [] then body ps else body ps @ SLASH # tl (body ss)) = body (ps @ ss)"
      using ss(2) by (cases ss) (auto simp: proper_def plain_def)
    ultimately have "copy_string (body (ps @ ss)) out_size = Inr out" using prefix(3) by simp
    then show ?thesis using prefix(1) by (simp add: copy_string_Inr)
  qed (use assms(3) mounts in \<open>auto simp: pathTruncateResolveMountedPath_def\<close>)
  have proper: "\<And>s. s \<in> set (ps @ ss) \<Longrightarrow> proper s" using assms(6) ss(2) by auto
  have "render (ps @ ss) = out" using out assms(5) by (simp add: render_def)
  moreover from this have "absolute out" using render_nonempty [of "ps @ ss"] by (simp add: absolute_def)
  moreover have "length out < te_path_max env" using out assms(12) by linarith
  ultimately have norm: "pathTruncateNormalizeAbsolute env out (te_path_max env) = Inr (body ps @ body ss)"
    using normalize_succeeds [of out "te_path_max env" env] resolve_render [of "ps @ ss", OF proper] assms(5,9)
    by (simp add: render_def)
  have matches: "pathTruncateMatchesStoredPrefix st1 (body ps @ body ss) = Some (body ps)"
    using assms(5) at_boundary_body [of "body ps" ss] by (simp add: pathTruncateMatchesStoredPrefix_def primary)
  have again: "SLASH # dropWhile (\<lambda>c. c = SLASH) (body ss) = render ss"
    using trim by (cases ss) (auto simp: render_def)
  have "pathTruncateStrip env st1 (Some out) n = (st1, if n = 0 then Inl EINVAL else copy_string (render ss) n)"
    unfolding pathTruncateStrip_def pathTruncateStripMountedPath_def mounts
    by (simp add: norm matches fetch_again [OF assms(1)] Let_def again)
  then show ?thesis using out ss(1) by simp
qed

lemma strip_undoes_expand_witness:
  "snd (pathTruncateStrip example_env \<lparr>tr_primary = ''/box'', tr_alias = [], tr_mounts = []\<rparr> (Some ''/box/home/me'') 64) = Inr ''/home/me''"
proof -
  let ?st = "\<lparr>tr_primary = ''/box'', tr_alias = [], tr_mounts = []\<rparr>" and ?p = "''//home/you/../me/''"
  have "pathTruncateFetchPrefix example_env empty_truncation = (?st, True)" by code_simp
  moreover have "tr_primary ?st = render [''box'']" "\<forall>s \<in> set [''box'']. proper s" by code_simp+
  moreover have "absolute ?p" "length ?p + 6 < te_path_max example_env" "(64 :: nat) \<le> te_path_max example_env"
    by (simp_all add: absolute_def example_env_def)
  moreover have "\<not> left_alone example_env ?p" by code_simp
  moreover have source: "expand_source example_env ?p = ''/home/me''" by code_simp
  moreover have "pathTruncateMatchesStoredPrefix ?st ''/home/me'' = None" by code_simp
  moreover have "pathTruncateExpand example_env empty_truncation (Some ?p) 64 = (?st, Inr ''/box/home/me'')" by code_simp
  ultimately show ?thesis
    using strip_undoes_expand [of example_env empty_truncation ?st "[''box'']" ?p 64 ?st "''/box/home/me''" 64]
    by (simp add: etc_root_def example_env_def empty_truncation_def copy_string_def)
qed

subsection \<open>The mount table is in order\<close>

definition table_wf :: "Mount list \<Rightarrow> bool" where
  "table_wf es \<longleftrightarrow> sorted_wrt mount_before es \<and> length es \<le> PATH_TRUNCATE_MAX_MOUNTS"

lemma mount_before_trans: "mount_before a b \<Longrightarrow> mount_before b c \<Longrightarrow> mount_before a c"
  by (auto simp: mount_before_def split: if_splits)

lemma mount_before_irrefl: "mount_before a b \<Longrightarrow> mt_target a \<noteq> mt_target b"
  by (auto simp: mount_before_def)

lemma mount_before_total: "mt_target a \<noteq> mt_target b \<Longrightarrow> mount_before a b \<or> mount_before b a"
  by (auto simp: mount_before_def not_less less_le)

lemma set_insert_mount: "set (insert_mount e es) = insert e (set es)"
  by (induction es) auto

lemma sorted_insert_mount:
  "sorted_wrt mount_before es \<Longrightarrow> mt_target e \<notin> mt_target ` set es \<Longrightarrow> sorted_wrt mount_before (insert_mount e es)"
proof (induction es)
  case (Cons f fs)
  show ?case
  proof (cases "mount_before f e")
    case True
    then show ?thesis using Cons by (auto simp: set_insert_mount)
  next
    case False
    then have "mount_before e f" using mount_before_total [of e f] Cons.prems(2) by auto
    then show ?thesis using False Cons.prems(1) mount_before_trans by auto
  qed
qed simp

lemma set_sort: "set (pathTruncateMountSort es) = set es"
  by (induction es) (auto simp: pathTruncateMountSort_def set_insert_mount)

lemma length_sort: "length (pathTruncateMountSort es) = length es"
proof -
  have insert: "length (insert_mount e es) = Suc (length es)" for e es by (induction es) auto
  show ?thesis by (induction es) (auto simp: pathTruncateMountSort_def insert)
qed

lemma sort_sorts: "distinct (map mt_target es) \<Longrightarrow> sorted_wrt mount_before (pathTruncateMountSort es)"
proof (induction es)
  case (Cons e es)
  have "mt_target e \<notin> mt_target ` set (pathTruncateMountSort es)" using Cons.prems by (simp add: set_sort)
  then show ?case using Cons sorted_insert_mount by (simp add: pathTruncateMountSort_def)
qed (simp add: pathTruncateMountSort_def)

lemma sorted_distinct: "sorted_wrt mount_before es \<Longrightarrow> distinct (map mt_target es)"
  by (induction es) (auto dest: mount_before_irrefl)

lemma find_target_Some: "find_target t es i = Some k \<Longrightarrow> i \<le> k \<and> k - i < length es \<and> mt_target (es ! (k - i)) = t"
proof (induction es arbitrary: i)
  case (Cons e es)
  then show ?case
    by (cases "mt_target e = t") (auto simp: Suc_diff_Suc dest!: Cons.IH)
qed simp

lemma find_target_None: "find_target t es i = None \<longleftrightarrow> t \<notin> mt_target ` set es"
  by (induction es arbitrary: i) auto

lemma first_mount_longest:
  assumes "sorted_wrt mount_before es"
  shows "first_mount path es = Some e \<Longrightarrow> \<forall>f \<in> set es. pathTruncatePrefixMatch path (mt_target f) \<longrightarrow> length (mt_target f) \<le> length (mt_target e)"
    and "first_mount path es = None \<longleftrightarrow> (\<forall>f \<in> set es. \<not> pathTruncatePrefixMatch path (mt_target f))"
  using assms by (induction es) (fastforce simp: mount_before_def split: if_splits)+

text \<open>What the program does with the table; a type or an option string that does not fit its field is left out.\<close>

datatype mount_call =
    Mount "string option" "string option" "string option" "string option" nat
  | Unmount "string option"
  | ClearMounts

definition fitting :: "mount_call \<Rightarrow> bool" where
  "fitting c = (case c of
     Mount s t ty opts f \<Rightarrow> length (nonempty_or ''auto'' ty) < 32 \<and> length (nonempty_or ''rw'' opts) < 128
   | _ \<Rightarrow> True)"

definition do_mount_call :: "trunc_env \<Rightarrow> mount_call \<Rightarrow> Truncation \<Rightarrow> Truncation" where
  "do_mount_call env c st =
     (case c of
        Mount s t ty opts f \<Rightarrow> fst (pathTruncateMountAdd env s t ty opts f st)
      | Unmount t \<Rightarrow> fst (pathTruncateMountRemove env t st)
      | ClearMounts \<Rightarrow> pathTruncateMountClearAll st)"

lemma segment_step_length:
  "segment_step m n s seg = Inr s' \<Longrightarrow> length (snd s) < n \<Longrightarrow> length (snd s') < n"
  by (cases s; cases "fst s") (auto simp: segment_step_def Let_def split: if_splits)

lemma segment_loop_length: "segment_loop m n us s = Inr s' \<Longrightarrow> length (snd s) < n \<Longrightarrow> length (snd s') < n"
proof (induction us arbitrary: s)
  case (Cons u us)
  then obtain t where "segment_step m n s u = Inr t" "segment_loop m n us t = Inr s'" by (auto simp: result_simps)
  then show ?case using Cons segment_step_length by blast
qed simp

lemma normalized_length: "pathTruncateNormalizeAbsolute env p n = Inr out \<Longrightarrow> length out < n"
proof -
  assume a: "pathTruncateNormalizeAbsolute env p n = Inr out"
  then have "2 \<le> n" by (auto simp: pathTruncateNormalizeAbsolute_def split: if_splits)
  moreover from a obtain s' where "segment_loop (te_path_max env div 2) n (path_segments p) ([], [SLASH]) = Inr s'" "out = snd s'"
    by (cases "segment_loop (te_path_max env div 2) n (path_segments p) ([], [SLASH])")
      (auto simp: pathTruncateNormalizeAbsolute_def split: if_splits)
  ultimately show ?thesis using segment_loop_length [of _ n _ "([], [SLASH])" s'] by simp
qed

lemma remove_wf: "table_wf es \<Longrightarrow> table_wf (take i es @ drop (i + 1) es)"
proof -
  assume wf: "table_wf es"
  show "table_wf (take i es @ drop (i + 1) es)"
  proof (cases "i < length es")
    case True
    have "es = take i es @ es ! i # drop (i + 1) es" using id_take_nth_drop [OF True] by simp
    then have "sorted_wrt mount_before (take i es @ es ! i # drop (i + 1) es)" using wf by (simp add: table_wf_def)
    then show ?thesis using wf by (auto simp: table_wf_def sorted_wrt_append)
  qed (use wf in \<open>simp add: table_wf_def\<close>)
qed

lemma fill_entry_fits:
  assumes "length source < n" "length target < n" "length ty < 32" "length opts < 128"
  shows "\<exists>e'. fill_entry n source target ty opts f e = (e', True) \<and> mt_target e' = target \<and> mt_source e' = source"
  using assms by (simp add: fill_entry_def Let_def)

lemma mount_call_wf:
  assumes "table_wf (tr_mounts st)" "fitting c" shows "table_wf (tr_mounts (do_mount_call env c st))"
proof (cases c)
  case (Mount source target ty opts flags)
  show ?thesis
  proof (cases "\<exists>s t s' t'. source = Some s \<and> target = Some t \<and> absolute s \<and> absolute t
      \<and> pathTruncateNormalizeAbsolute env s (te_path_max env) = Inr s' \<and> pathTruncateNormalizeAbsolute env t (te_path_max env) = Inr t'")
    case False
    then have "tr_mounts (do_mount_call env c st) = tr_mounts st"
      by (auto simp: Mount do_mount_call_def pathTruncateMountAdd_def split: option.split sum.split)
    then show ?thesis using assms(1) by simp
  next
    case True
    then obtain s t s' t' where args: "source = Some s" "target = Some t" "absolute s" "absolute t"
      and norm: "pathTruncateNormalizeAbsolute env s (te_path_max env) = Inr s'"
        "pathTruncateNormalizeAbsolute env t (te_path_max env) = Inr t'" by blast
    let ?known = "find_target t' (tr_mounts st) 0"
    let ?es = "if ?known = None then tr_mounts st @ [empty_mount] else tr_mounts st"
    let ?slot = "case ?known of None \<Rightarrow> length ?es - 1 | Some i \<Rightarrow> i"
    have short: "length (nonempty_or ''auto'' ty) < 32" "length (nonempty_or ''rw'' opts) < 128"
      using assms(2) Mount by (simp_all add: fitting_def)
    obtain e where e: "fill_entry (te_path_max env) s' t' (nonempty_or ''auto'' ty) (nonempty_or ''rw'' opts) flags (?es ! ?slot) = (e, True)"
      "mt_target e = t'"
      using fill_entry_fits [OF normalized_length [OF norm(1)] normalized_length [OF norm(2)] short, of flags "?es ! ?slot"] by blast
    have result: "tr_mounts (do_mount_call env c st) =
        (if ?known = None \<and> PATH_TRUNCATE_MAX_MOUNTS \<le> length (tr_mounts st) then tr_mounts st
         else pathTruncateMountSort (?es[?slot := e]))"
      using e(1) by (cases ?known) (simp_all add: Mount do_mount_call_def pathTruncateMountAdd_def args norm Let_def)
    have "distinct (map mt_target (?es[?slot := e])) \<and> (length (?es[?slot := e]) \<le> 64 \<or> ?known = None \<and> 64 \<le> length (tr_mounts st))"
    proof (cases ?known)
      case None
      then show ?thesis
        using e(2) sorted_distinct find_target_None [of t' "tr_mounts st" 0] assms(1) by (auto simp: table_wf_def)
    next
      case (Some i)
      then have "i < length (tr_mounts st)" "mt_target (tr_mounts st ! i) = t'"
        using find_target_Some [OF Some] by simp_all
      then have "map mt_target ((tr_mounts st)[i := e]) = map mt_target (tr_mounts st)"
        using e(2) by (simp add: map_update list_update_same_conv)
      then show ?thesis using Some assms(1) sorted_distinct by (simp add: table_wf_def)
    qed
    then show ?thesis
      using assms(1) sort_sorts unfolding result table_wf_def by (auto simp: length_sort)
  qed
next
  case (Unmount target)
  then show ?thesis
    using assms(1) remove_wf by (auto simp: do_mount_call_def pathTruncateMountRemove_def split: option.split sum.split)
next
  case ClearMounts
  then show ?thesis by (simp add: do_mount_call_def pathTruncateMountClearAll_def table_wf_def)
qed

lemma lookup_in_table:
  assumes "table_wf es"
  shows "distinct (map mt_target es) \<and> length es \<le> PATH_TRUNCATE_MAX_MOUNTS
      \<and> (case first_mount path es of
           Some e \<Rightarrow> e \<in> set es \<and> pathTruncatePrefixMatch path (mt_target e)
             \<and> (\<forall>f \<in> set es. pathTruncatePrefixMatch path (mt_target f) \<longrightarrow> length (mt_target f) \<le> length (mt_target e))
         | None \<Rightarrow> \<forall>f \<in> set es. \<not> pathTruncatePrefixMatch path (mt_target f))"
proof -
  have sorted: "sorted_wrt mount_before es" and few: "length es \<le> PATH_TRUNCATE_MAX_MOUNTS" using assms by (simp_all add: table_wf_def)
  show ?thesis
  proof (cases "first_mount path es")
    case None
    then show ?thesis using few sorted_distinct [OF sorted] first_mount_longest(2) [OF sorted, of path] by simp
  next
    case (Some e)
    then show ?thesis
      using few sorted_distinct [OF sorted] first_mount_Some [OF Some] first_mount_longest(1) [OF sorted Some] by simp
  qed
qed

text \<open>C13: After any sequence of mounts, unmounts and clears whose type and option strings fit their fields (\<open>fitting\<close>:
  a mount refused because one of them is too long leaves its entry behind the sorted table,
  \<open>failed_mount_is_active\<close>) no two mounts have one target, there are at most 64, and a virtual path is looked up in the
  mount with the longest target among those \<open>pathTruncatePrefixMatch\<close> puts above it: the first match is the longest,
  and none is found only if none of them matches. A mount on \<open>/\<close> is never put above a path below it
  (\<open>root_mount_misses\<close>), so it is not found there.\<close>
theorem longest_mount_wins:
  assumes "tr_mounts st = []" and "\<forall>c \<in> set calls. fitting c"
  shows "let es = tr_mounts (fold (do_mount_call env) calls st) in
      distinct (map mt_target es) \<and> length es \<le> PATH_TRUNCATE_MAX_MOUNTS
      \<and> (case first_mount path es of
           Some e \<Rightarrow> e \<in> set es \<and> pathTruncatePrefixMatch path (mt_target e)
             \<and> (\<forall>f \<in> set es. pathTruncatePrefixMatch path (mt_target f) \<longrightarrow> length (mt_target f) \<le> length (mt_target e))
         | None \<Rightarrow> \<forall>f \<in> set es. \<not> pathTruncatePrefixMatch path (mt_target f))"
proof -
  have "table_wf (tr_mounts st) \<Longrightarrow> \<forall>c \<in> set calls. fitting c \<Longrightarrow> table_wf (tr_mounts (fold (do_mount_call env) calls st))" for st
    by (induction calls arbitrary: st) (simp_all add: mount_call_wf)
  then have wf: "table_wf (tr_mounts (fold (do_mount_call env) calls st))" using assms by (simp add: table_wf_def)
  show ?thesis unfolding Let_def by (rule lookup_in_table [OF wf])
qed

definition example_calls :: "mount_call list" where
  "example_calls =
     [Mount (Some ''/host/a'') (Some ''/mnt'') None None 0, Mount (Some ''/host/b/'') (Some ''/mnt/x'') None None 0]"

lemma longest_mount_wins_witness:
  "map_option mt_source (first_mount ''/mnt/x/y'' (tr_mounts (fold (do_mount_call example_env) example_calls empty_truncation)))
     = Some ''/host/b''"
proof -
  let ?es = "tr_mounts (fold (do_mount_call example_env) example_calls empty_truncation)"
  have es: "map mt_target ?es = [''/mnt/x'', ''/mnt'']" "map mt_source ?es = [''/host/b'', ''/host/a'']" by code_simp+
  moreover have "\<forall>c \<in> set example_calls. fitting c" by code_simp
  then have "case first_mount ''/mnt/x/y'' ?es of
      Some e \<Rightarrow> e \<in> set ?es \<and> (\<forall>f \<in> set ?es. pathTruncatePrefixMatch ''/mnt/x/y'' (mt_target f) \<longrightarrow> length (mt_target f) \<le> length (mt_target e))
    | None \<Rightarrow> \<forall>f \<in> set ?es. \<not> pathTruncatePrefixMatch ''/mnt/x/y'' (mt_target f)"
    using longest_mount_wins [of empty_truncation example_calls example_env "''/mnt/x/y''"]
    by (auto simp: Let_def empty_truncation_def split: option.splits)
  moreover have "pathTruncatePrefixMatch ''/mnt/x/y'' ''/mnt/x''" by code_simp
  ultimately show ?thesis
    by (auto simp: map_eq_Cons_conv split: option.splits)
qed

subsection \<open>Mounts that go wrong\<close>

text \<open>A mount that fails for its type string is in the table all the same, behind the others and out of order.\<close>

lemma failed_mount_is_active:
  "let st = do_mount_call example_env (Mount (Some ''/a'') (Some ''/m'') None None 0) empty_truncation;
       (st, result) = pathTruncateMountAdd example_env (Some ''/b'') (Some ''/m/n'') (Some (replicate 40 CHR ''t'')) None 0 st
   in result = Inl ENAMETOOLONG \<and> map mt_target (tr_mounts st) = [''/m'', ''/m/n'']
      \<and> map_option mt_source (first_mount ''/m/n'' (tr_mounts st)) = Some ''/a''"
  by code_simp

text \<open>A mount on \<open>/\<close> is looked up for no path below it, and a mount of \<open>/\<close> is not stripped.\<close>

lemma root_mount_misses:
  "pathTruncateResolveMountedPath \<lparr>tr_primary = ''/box'', tr_alias = [], tr_mounts = [empty_mount\<lparr>mt_source := ''/host'', mt_target := ''/''\<rparr>]\<rparr> ''/a'' 64 = None"
  "pathTruncateResolveMountedPath \<lparr>tr_primary = ''/box'', tr_alias = [], tr_mounts = [empty_mount\<lparr>mt_source := ''/'', mt_target := ''/m''\<rparr>]\<rparr> ''/m/a'' 64 = Some ''/a''"
  "pathTruncateStripMountedPath \<lparr>tr_primary = ''/box'', tr_alias = [], tr_mounts = [empty_mount\<lparr>mt_source := ''/'', mt_target := ''/m''\<rparr>]\<rparr> ''/a'' 64 = None"
  by code_simp+

text \<open>A path below a mount that does not fit the buffer is sought below the container prefix instead.\<close>

lemma long_mounted_path_falls_through:
  "snd (pathTruncateExpand example_env \<lparr>tr_primary = [], tr_alias = [], tr_mounts = [empty_mount\<lparr>mt_source := ''/long/host/dir'', mt_target := ''/m''\<rparr>]\<rparr>
     (Some ''/m/f'') 16) = Inr ''/box/m/f''"
  by code_simp

subsection \<open>Requests below /proc\<close>

definition pathTruncateIsProcRequestPath :: "string \<Rightarrow> bool" where
  "pathTruncateIsProcRequestPath path \<longleftrightarrow> pathTruncatePrefixMatch path ''/proc'' \<or> pathTruncatePrefixMatch path ''/private/proc''"

abbreviation INT_MAX :: int where "INT_MAX \<equiv> 2147483647"

definition is_digit :: "char \<Rightarrow> bool" where
  "is_digit c \<longleftrightarrow> (48 :: int) \<le> of_char c \<and> (of_char c :: int) \<le> 57"

fun pid_digits :: "int \<Rightarrow> string \<Rightarrow> int option" where
  "pid_digits pid [] = Some pid"
| "pid_digits pid (c # cs) =
     (if \<not> is_digit c then None
      else let digit = of_char c - 48 in
        if (INT_MAX - digit) div 10 < pid then None else pid_digits (pid * 10 + digit) cs)"

record ProcPidRequest =
  pq_pid :: int
  pq_is_self :: bool
  pq_exact_dir :: bool

definition pathTruncateParseProcPidRequest :: "string \<Rightarrow> ProcPidRequest \<times> bool" where
  "pathTruncateParseProcPidRequest path =
     (let none = \<lparr>pq_pid = - 1, pq_is_self = False, pq_exact_dir = False\<rparr>;
          suffix = (if pathTruncatePrefixMatch path ''/proc'' then Some (drop (length ''/proc'') path)
                    else if pathTruncatePrefixMatch path ''/private/proc'' then Some (drop (length ''/private/proc'') path)
                    else None)
      in case suffix of
        None \<Rightarrow> (none, False)
      | Some s \<Rightarrow>
          let s = dropWhile (\<lambda>c. c = SLASH) s in
          if s = [] then (none, False)
          else
            let segment = takeWhile (\<lambda>c. c \<noteq> SLASH) s;
                rest = dropWhile (\<lambda>c. c = SLASH) (dropWhile (\<lambda>c. c \<noteq> SLASH) s);
                found = none\<lparr>pq_exact_dir := (rest = [])\<rparr>
            in if segment = ''self'' then (found\<lparr>pq_is_self := True\<rparr>, True)
               else case pid_digits 0 segment of
                 None \<Rightarrow> (found, False)
               | Some pid \<Rightarrow> if pid \<le> 0 then (found, False) else (found\<lparr>pq_pid := pid\<rparr>, True))"

definition decimal_value :: "string \<Rightarrow> int" where
  "decimal_value s = foldl (\<lambda>n c. n * 10 + (of_char c - 48)) 0 s"

lemma decimal_value_grows: "\<forall>c \<in> set cs. is_digit c \<Longrightarrow> 0 \<le> n \<Longrightarrow> n \<le> foldl (\<lambda>n c. n * 10 + (of_char c - 48)) n cs" for n :: int
proof (induction cs arbitrary: n)
  case (Cons c cs)
  have "n \<le> n * 10 + (of_char c - 48)" using Cons.prems by (simp add: is_digit_def)
  moreover have "n * 10 + (of_char c - 48) \<le> foldl (\<lambda>n c. n * 10 + (of_char c - 48)) (n * 10 + (of_char c - 48)) cs"
    using Cons.prems by (intro Cons.IH) (simp_all add: is_digit_def)
  ultimately show ?case by simp
qed simp

text \<open>The digits are read exactly and never past \<open>INT_MAX\<close>.\<close>

lemma pid_digits_exact:
  "0 \<le> pid \<Longrightarrow> pid \<le> INT_MAX \<Longrightarrow>
   pid_digits pid cs = (let v = foldl (\<lambda>n c. n * 10 + (of_char c - 48)) pid cs in
     if (\<forall>c \<in> set cs. is_digit c) \<and> v \<le> INT_MAX then Some v else None)"
proof (induction cs arbitrary: pid)
  case (Cons c cs)
  let ?next = "pid * 10 + (of_char c - 48)"
  show ?case
  proof (cases "is_digit c")
    case True
    have guard: "(INT_MAX - (of_char c - 48)) div 10 < pid \<longleftrightarrow> INT_MAX < ?next" by linarith
    have "0 \<le> ?next" using True Cons.prems by (simp add: is_digit_def)
    then show ?thesis
      using Cons.IH [of ?next] decimal_value_grows [of cs ?next] True guard by (auto simp: Let_def)
  qed simp
qed simp

end
