(* ===== verification/TtyQueue.thy ===== *)
theory TtyQueue
  imports VmExpr
begin

section \<open>The input queue of a terminal\<close>

text \<open>
  \<open>TtyQueue\<close> of \<open>runtime/vproc/tty/pscal_tty.h\<close> and the functions of \<open>pscal_tty.c\<close> on it: a ring of
  \<open>TTY_BUF_SIZE\<close> cells, each with what it was when it went in, of which the first \<open>released\<close> are ready for a
  reader in line mode. \<open>queue_cells\<close> lists the cells in the order they will be read, and every operation is an
  operation on that list.
\<close>

datatype cell_kind = TTY_CELL_BYTE | TTY_CELL_LINE_END | TTY_CELL_EOF_MARK

record TtyCell =
  cl_byte :: byte
  cl_kind :: cell_kind

definition TTY_BUF_SIZE :: nat where
  "TTY_BUF_SIZE = 4096"

record TtyQueue =
  tq_cells :: "TtyCell list"
  tq_head :: nat
  tq_used :: nat
  tq_released :: nat

definition ttyQueuePush :: "byte \<Rightarrow> cell_kind \<Rightarrow> TtyQueue \<Rightarrow> TtyQueue" where
  "ttyQueuePush byte kind q =
     (let q = q\<lparr>tq_cells := (tq_cells q)[(tq_head q + tq_used q) mod TTY_BUF_SIZE := \<lparr>cl_byte = byte, cl_kind = kind\<rparr>],
                tq_used := tq_used q + 1\<rparr> in
      if kind = TTY_CELL_BYTE then q else q\<lparr>tq_released := tq_used q\<rparr>)"

definition ttyQueuePop :: "TtyQueue \<Rightarrow> TtyCell \<times> TtyQueue" where
  "ttyQueuePop q =
     (tq_cells q ! tq_head q,
      q\<lparr>tq_head := (tq_head q + 1) mod TTY_BUF_SIZE, tq_used := tq_used q - 1, tq_released := tq_released q - 1\<rparr>)"

definition ttyQueueDropLast :: "TtyQueue \<Rightarrow> TtyQueue" where
  "ttyQueueDropLast q = q\<lparr>tq_used := tq_used q - 1\<rparr>"

definition ttyQueueHasUnfinished :: "TtyQueue \<Rightarrow> bool" where
  "ttyQueueHasUnfinished q \<longleftrightarrow> tq_released q < tq_used q"

definition ttyQueueHeadIsMark :: "TtyQueue \<Rightarrow> bool" where
  "ttyQueueHeadIsMark q \<longleftrightarrow> 0 < tq_used q \<and> cl_kind (tq_cells q ! tq_head q) = TTY_CELL_EOF_MARK"

text \<open>The part of \<open>ttyQueueClearLocked\<close> that concerns the queue.\<close>

definition queue_cleared :: "TtyQueue \<Rightarrow> TtyQueue" where
  "queue_cleared q = q\<lparr>tq_head := 0, tq_used := 0, tq_released := 0\<rparr>"

definition ttyQueueCell :: "TtyQueue \<Rightarrow> nat \<Rightarrow> TtyCell" where
  "ttyQueueCell q i = tq_cells q ! ((tq_head q + i) mod TTY_BUF_SIZE)"

definition relabelled :: "bool \<Rightarrow> bool \<Rightarrow> TtyCell \<Rightarrow> TtyCell" where
  "relabelled to_line_mode is_last cell =
     (if \<not> to_line_mode then
        if cl_kind cell = TTY_CELL_LINE_END then cell\<lparr>cl_kind := TTY_CELL_BYTE\<rparr> else cell
      else if is_last then
        if cl_kind cell \<noteq> TTY_CELL_EOF_MARK then cell\<lparr>cl_kind := TTY_CELL_LINE_END\<rparr> else cell
      else cell\<lparr>cl_kind := TTY_CELL_BYTE\<rparr>)"

definition relabel_cell :: "bool \<Rightarrow> nat \<Rightarrow> TtyQueue \<Rightarrow> TtyQueue" where
  "relabel_cell to_line_mode i q =
     q\<lparr>tq_cells := (tq_cells q)[(tq_head q + i) mod TTY_BUF_SIZE :=
        relabelled to_line_mode (i + 1 = tq_used q) (ttyQueueCell q i)]\<rparr>"

definition ttyQueueRelabelLocked :: "bool \<Rightarrow> TtyQueue \<Rightarrow> TtyQueue" where
  "ttyQueueRelabelLocked to_line_mode q =
     (let q = fold (relabel_cell to_line_mode) [0..<tq_used q] q in
      q\<lparr>tq_released := if to_line_mode then tq_used q else 0\<rparr>)"

subsection \<open>The queue as a list\<close>

definition queue_wf :: "TtyQueue \<Rightarrow> bool" where
  "queue_wf q \<longleftrightarrow> length (tq_cells q) = TTY_BUF_SIZE \<and> tq_head q < TTY_BUF_SIZE
     \<and> tq_used q \<le> TTY_BUF_SIZE \<and> tq_released q \<le> tq_used q"

definition queue_cells :: "TtyQueue \<Rightarrow> TtyCell list" where
  "queue_cells q = map (ttyQueueCell q) [0..<tq_used q]"

definition queue_room :: "TtyCell \<Rightarrow> TtyQueue \<Rightarrow> bool" where
  "queue_room c q \<longleftrightarrow> tq_used q < TTY_BUF_SIZE"

lemma buf_size_pos [simp]: "0 < TTY_BUF_SIZE" "TTY_BUF_SIZE \<noteq> 0"
  by (simp_all add: TTY_BUF_SIZE_def)

lemma length_queue_cells [simp]: "length (queue_cells q) = tq_used q"
  by (simp add: queue_cells_def)

lemma queue_cells_nth: "i < tq_used q \<Longrightarrow> queue_cells q ! i = ttyQueueCell q i"
  by (simp add: queue_cells_def)

lemma queue_cells_empty [simp]: "queue_cells q = [] \<longleftrightarrow> tq_used q = 0" "[] = queue_cells q \<longleftrightarrow> tq_used q = 0"
  by (simp_all add: queue_cells_def)

lemma cell_neq: "i < k \<Longrightarrow> k < TTY_BUF_SIZE \<Longrightarrow> (h + i) mod TTY_BUF_SIZE \<noteq> (h + k) mod TTY_BUF_SIZE"
  by (rule mod_offset_neq)

lemma push_cells:
  assumes "queue_wf q" "tq_used q < TTY_BUF_SIZE"
  shows "queue_cells (ttyQueuePush b k q) = queue_cells q @ [\<lparr>cl_byte = b, cl_kind = k\<rparr>]"
proof -
  let ?t = "(tq_head q + tq_used q) mod TTY_BUF_SIZE"
  have "?t < length (tq_cells q)" using assms(1) by (simp add: queue_wf_def)
  moreover have "?t \<noteq> (tq_head q + i) mod TTY_BUF_SIZE" if "i < tq_used q" for i
    using cell_neq [OF that assms(2), of "tq_head q"] by simp
  ultimately show ?thesis
    by (simp add: queue_cells_def ttyQueuePush_def ttyQueueCell_def Let_def)
qed

lemma push_wf: "queue_wf q \<Longrightarrow> tq_used q < TTY_BUF_SIZE \<Longrightarrow> queue_wf (ttyQueuePush b k q)"
  by (auto simp: queue_wf_def ttyQueuePush_def Let_def)

lemma push_counts [simp]:
  "tq_used (ttyQueuePush b k q) = tq_used q + 1"
  "tq_released (ttyQueuePush b k q) = (if k = TTY_CELL_BYTE then tq_released q else tq_used q + 1)"
  by (simp_all add: ttyQueuePush_def Let_def)

lemma cell_head: "queue_wf q \<Longrightarrow> ttyQueueCell q 0 = tq_cells q ! tq_head q"
  by (simp add: ttyQueueCell_def queue_wf_def)

lemma pop_cells:
  assumes "queue_wf q" "0 < tq_used q"
  shows "queue_cells q = fst (ttyQueuePop q) # queue_cells (snd (ttyQueuePop q))"
proof -
  have "[0..<tq_used q] = 0 # map Suc [0..<tq_used q - 1]"
    using assms(2) by (simp add: map_Suc_upt upt_conv_Cons)
  moreover have "((tq_head q + 1) mod TTY_BUF_SIZE + i) mod TTY_BUF_SIZE = (tq_head q + Suc i) mod TTY_BUF_SIZE" for i
    by (simp add: mod_add_left_eq)
  ultimately show ?thesis
    using assms(1) by (simp add: queue_cells_def ttyQueuePop_def ttyQueueCell_def queue_wf_def comp_def)
qed

lemma pop_wf: "queue_wf q \<Longrightarrow> queue_wf (snd (ttyQueuePop q))"
  by (auto simp: queue_wf_def ttyQueuePop_def)

lemma pop_counts [simp]:
  "tq_used (snd (ttyQueuePop q)) = tq_used q - 1" "tq_released (snd (ttyQueuePop q)) = tq_released q - 1"
  by (simp_all add: ttyQueuePop_def)

definition push_cell :: "TtyCell \<Rightarrow> TtyQueue \<Rightarrow> TtyQueue" where
  "push_cell c = ttyQueuePush (cl_byte c) (cl_kind c)"

interpretation typed: fifo queue_wf queue_cells queue_room push_cell ttyQueuePop
  by unfold_locales
    (auto simp: push_cell_def queue_room_def push_cells intro: push_wf pop_wf pop_cells)

text \<open>Taking cells off the end, as the editing keys do.\<close>

lemma shorten_cells:
  "n \<le> tq_used q \<Longrightarrow> queue_cells (q\<lparr>tq_used := n\<rparr>) = take n (queue_cells q)"
  by (simp add: queue_cells_def ttyQueueCell_def take_map)

lemma shorten_wf: "queue_wf q \<Longrightarrow> tq_released q \<le> n \<Longrightarrow> n \<le> tq_used q \<Longrightarrow> queue_wf (q\<lparr>tq_used := n\<rparr>)"
  by (simp add: queue_wf_def)

lemma drop_last_cells: "queue_cells (ttyQueueDropLast q) = butlast (queue_cells q)"
  by (simp add: ttyQueueDropLast_def shorten_cells butlast_conv_take)

lemma cleared_cells [simp]: "queue_cells (queue_cleared q) = []" "tq_used (queue_cleared q) = 0"
    "tq_released (queue_cleared q) = 0"
  by (simp_all add: queue_cleared_def)

lemma cleared_wf: "queue_wf q \<Longrightarrow> queue_wf (queue_cleared q)"
  by (simp add: queue_wf_def queue_cleared_def)

lemma head_is_mark:
  "queue_wf q \<Longrightarrow> ttyQueueHeadIsMark q \<longleftrightarrow> queue_cells q \<noteq> [] \<and> cl_kind (hd (queue_cells q)) = TTY_CELL_EOF_MARK"
  by (auto simp: ttyQueueHeadIsMark_def queue_cells_def upt_conv_Cons cell_head)

text \<open>Relabelling changes the kinds in place.\<close>

lemma relabel_cell_fields [simp]:
  "tq_head (relabel_cell b i q) = tq_head q" "tq_used (relabel_cell b i q) = tq_used q"
  "tq_released (relabel_cell b i q) = tq_released q"
  "length (tq_cells (relabel_cell b i q)) = length (tq_cells q)"
  by (simp_all add: relabel_cell_def)

lemma relabel_fold_fields [simp]:
  "tq_head (fold (relabel_cell b) is q) = tq_head q" "tq_used (fold (relabel_cell b) is q) = tq_used q"
  "length (tq_cells (fold (relabel_cell b) is q)) = length (tq_cells q)"
  by (induction "is" arbitrary: q) simp_all

lemma relabel_cell_at:
  assumes "queue_wf q" "i < tq_used q" "j < tq_used q"
  shows "ttyQueueCell (relabel_cell b i q) j =
    (if j = i then relabelled b (i + 1 = tq_used q) (ttyQueueCell q i) else ttyQueueCell q j)"
proof -
  have "(tq_head q + i) mod TTY_BUF_SIZE < length (tq_cells q)" using assms(1) by (simp add: queue_wf_def)
  moreover have "(tq_head q + i) mod TTY_BUF_SIZE \<noteq> (tq_head q + j) mod TTY_BUF_SIZE" if "i \<noteq> j"
    using that assms cell_neq [of i j "tq_head q"] cell_neq [of j i "tq_head q"]
    by (metis le_less_trans less_imp_le_nat linorder_neqE_nat order_less_le_trans queue_wf_def)
  ultimately show ?thesis by (auto simp: relabel_cell_def ttyQueueCell_def)
qed

lemma relabel_fold_at:
  "queue_wf q \<Longrightarrow> set is \<subseteq> {..<tq_used q} \<Longrightarrow> distinct is \<Longrightarrow> j < tq_used q \<Longrightarrow>
    ttyQueueCell (fold (relabel_cell b) is q) j =
      (if j \<in> set is then relabelled b (j + 1 = tq_used q) (ttyQueueCell q j) else ttyQueueCell q j)"
proof (induction "is" arbitrary: q)
  case (Cons i "is")
  have "queue_wf (relabel_cell b i q)" using Cons.prems(1) by (simp add: queue_wf_def)
  then show ?case using Cons by (auto simp: relabel_cell_at)
qed simp

definition relabelled_cells :: "bool \<Rightarrow> TtyCell list \<Rightarrow> TtyCell list" where
  "relabelled_cells to_line_mode cells =
     map (\<lambda>(i, c). relabelled to_line_mode (i + 1 = length cells) c) (enumerate 0 cells)"

lemma relabel_cells:
  assumes "queue_wf q"
  shows "queue_cells (ttyQueueRelabelLocked b q) = relabelled_cells b (queue_cells q)"
proof (rule nth_equalityI)
  fix i assume "i < length (queue_cells (ttyQueueRelabelLocked b q))"
  then have i: "i < tq_used q" by (simp add: ttyQueueRelabelLocked_def Let_def)
  have "ttyQueueCell (ttyQueueRelabelLocked b q) i = relabelled b (i + 1 = tq_used q) (ttyQueueCell q i)"
    using relabel_fold_at [OF assms, of "[0..<tq_used q]" i b] i
    by (simp add: ttyQueueRelabelLocked_def ttyQueueCell_def Let_def subset_eq)
  then show "queue_cells (ttyQueueRelabelLocked b q) ! i = relabelled_cells b (queue_cells q) ! i"
    using i by (simp add: queue_cells_nth relabelled_cells_def nth_enumerate_eq)
       (simp add: queue_cells_nth ttyQueueRelabelLocked_def Let_def)
qed (simp add: relabelled_cells_def ttyQueueRelabelLocked_def Let_def)

lemma relabel_wf: "queue_wf q \<Longrightarrow> queue_wf (ttyQueueRelabelLocked b q)"
  by (simp add: queue_wf_def ttyQueueRelabelLocked_def Let_def)

end
