(* ===== verification/TtyLine.thy ===== *)
theory TtyLine
  imports TtyQueue
begin

unbundle bit_operations_syntax

section \<open>The line discipline of a terminal\<close>

text \<open>
  \<open>struct tty\<close> of \<open>runtime/vproc/tty/pscal_tty.h\<close> and what \<open>pscal_tty.c\<close> does with bytes: output processing, echo,
  the editing keys, input in line mode and in raw mode, and reading. A function whose name ends in \<open>Locked\<close> runs
  under the terminal's lock. The work of an input call that has to wait until the lock is let go of is collected in a
  \<open>TtyInputRun\<close>; a flush hands it out, which is recorded here as the list of effects. A flush that the 512 bytes of
  echo force in the middle of one byte lets go of the lock; that nothing else happens to the terminal at that moment
  is an assumption of the model. Columns are unsigned ints, and wrap. The source ends the names of
  modes and signals with an underscore, which is dropped here.
\<close>

subsection \<open>Modes\<close>

record termios =
  tm_iflags :: u32
  tm_oflags :: u32
  tm_cflags :: u32
  tm_lflags :: u32
  tm_line :: byte
  tm_cc :: "byte list"

abbreviation (input) VINTR :: nat where "VINTR \<equiv> 0"
abbreviation (input) VQUIT :: nat where "VQUIT \<equiv> 1"
abbreviation (input) VERASE :: nat where "VERASE \<equiv> 2"
abbreviation (input) VKILL :: nat where "VKILL \<equiv> 3"
abbreviation (input) VEOF :: nat where "VEOF \<equiv> 4"
abbreviation (input) VTIME :: nat where "VTIME \<equiv> 5"
abbreviation (input) VMIN :: nat where "VMIN \<equiv> 6"
abbreviation (input) VSTART :: nat where "VSTART \<equiv> 8"
abbreviation (input) VSTOP :: nat where "VSTOP \<equiv> 9"
abbreviation (input) VSUSP :: nat where "VSUSP \<equiv> 10"
abbreviation (input) VEOL :: nat where "VEOL \<equiv> 11"
abbreviation (input) VREPRINT :: nat where "VREPRINT \<equiv> 12"
abbreviation (input) VWERASE :: nat where "VWERASE \<equiv> 14"
abbreviation (input) VLNEXT :: nat where "VLNEXT \<equiv> 15"
abbreviation (input) VEOL2 :: nat where "VEOL2 \<equiv> 16"

abbreviation (input) ISIG :: u32 where "ISIG \<equiv> 0x1"
abbreviation (input) ICANON :: u32 where "ICANON \<equiv> 0x2"
abbreviation (input) ECHO :: u32 where "ECHO \<equiv> 0x8"
abbreviation (input) ECHOE :: u32 where "ECHOE \<equiv> 0x10"
abbreviation (input) ECHOK :: u32 where "ECHOK \<equiv> 0x20"
abbreviation (input) ECHONL :: u32 where "ECHONL \<equiv> 0x40"
abbreviation (input) NOFLSH :: u32 where "NOFLSH \<equiv> 0x80"
abbreviation (input) TOSTOP :: u32 where "TOSTOP \<equiv> 0x100"
abbreviation (input) ECHOCTL :: u32 where "ECHOCTL \<equiv> 0x200"
abbreviation (input) ECHOPRT :: u32 where "ECHOPRT \<equiv> 0x400"
abbreviation (input) ECHOKE :: u32 where "ECHOKE \<equiv> 0x800"
abbreviation (input) IEXTEN :: u32 where "IEXTEN \<equiv> 0x8000"

abbreviation (input) PARMRK :: u32 where "PARMRK \<equiv> 0x8"
abbreviation (input) ISTRIP :: u32 where "ISTRIP \<equiv> 0x20"
abbreviation (input) INLCR :: u32 where "INLCR \<equiv> 0x40"
abbreviation (input) IGNCR :: u32 where "IGNCR \<equiv> 0x80"
abbreviation (input) ICRNL :: u32 where "ICRNL \<equiv> 0x100"
abbreviation (input) IUCLC :: u32 where "IUCLC \<equiv> 0x200"
abbreviation (input) IXON :: u32 where "IXON \<equiv> 0x400"
abbreviation (input) IUTF8 :: u32 where "IUTF8 \<equiv> 0x4000"

abbreviation (input) OPOST :: u32 where "OPOST \<equiv> 0x1"
abbreviation (input) OLCUC :: u32 where "OLCUC \<equiv> 0x2"
abbreviation (input) ONLCR :: u32 where "ONLCR \<equiv> 0x4"
abbreviation (input) OCRNL :: u32 where "OCRNL \<equiv> 0x8"
abbreviation (input) ONOCR :: u32 where "ONOCR \<equiv> 0x10"
abbreviation (input) ONLRET :: u32 where "ONLRET \<equiv> 0x20"
abbreviation (input) TABDLY :: u32 where "TABDLY \<equiv> 0x1800"
abbreviation (input) TAB3 :: u32 where "TAB3 \<equiv> 0x1800"

definition flag :: "u32 \<Rightarrow> u32 \<Rightarrow> bool" where
  "flag flags f \<longleftrightarrow> flags AND f \<noteq> 0"

definition kSlaveTermios :: termios where
  "kSlaveTermios =
     \<lparr>tm_iflags = ICRNL OR IXON, tm_oflags = OPOST OR ONLCR, tm_cflags = 0xbf,
      tm_lflags = ISIG OR ICANON OR ECHO OR ECHOE OR ECHOK OR ECHOCTL OR ECHOKE OR IEXTEN,
      tm_line = 0,
      tm_cc = [0x03, 0x1c, 0x7f, 0x15, 0x04, 0, 1, 0, 0x11, 0x13, 0x1a, 0, 0x12, 0x0f, 0x17, 0x16, 0, 0, 0]\<rparr>"

definition ttyByteIs :: "termios \<Rightarrow> byte \<Rightarrow> nat \<Rightarrow> bool" where
  "ttyByteIs termios byte index \<longleftrightarrow> byte \<noteq> 0 \<and> tm_cc termios ! index = byte"

subsection \<open>The terminal\<close>

text \<open>One side of a pair. Whether a side is the master says which driver it was created with; \<open>ty_other\<close> is the
  number of the other side while that is there. The count of pins only keeps memory and is left out.\<close>

record Tty =
  ty_is_master :: bool
  ty_num :: nat
  ty_session :: int
  ty_fg_group :: int
  ty_winsize :: "u16 \<times> u16 \<times> u16 \<times> u16"
  ty_termios :: termios
  ty_other :: "nat option"
  ty_slave_locked :: bool
  ty_packet_mode :: bool
  ty_peer_hung_up :: bool
  ty_packet_status :: byte
  ty_refs :: int
  ty_opens :: int
  ty_hung_up :: bool
  ty_session_reader :: bool
  ty_exclusive :: bool
  ty_literal_next :: bool
  ty_erase_open :: bool
  ty_column :: u32
  ty_line_column :: u32
  ty_eof_reads :: u32
  ty_queue :: TtyQueue

definition ttyCreate :: "bool \<Rightarrow> nat \<Rightarrow> Tty" where
  "ttyCreate is_master num =
     \<lparr>ty_is_master = is_master, ty_num = num, ty_session = 0, ty_fg_group = 0, ty_winsize = (0, 0, 0, 0),
      ty_termios = (if is_master then kSlaveTermios\<lparr>tm_iflags := 0, tm_oflags := 0, tm_lflags := 0\<rparr> else kSlaveTermios),
      ty_other = None, ty_slave_locked = False, ty_packet_mode = False, ty_peer_hung_up = False,
      ty_packet_status = 0, ty_refs = 1, ty_opens = 0, ty_hung_up = False, ty_session_reader = False,
      ty_exclusive = False, ty_literal_next = False, ty_erase_open = False, ty_column = 0, ty_line_column = 0,
      ty_eof_reads = 0,
      ty_queue = \<lparr>tq_cells = replicate TTY_BUF_SIZE \<lparr>cl_byte = 0, cl_kind = TTY_CELL_BYTE\<rparr>,
                  tq_head = 0, tq_used = 0, tq_released = 0\<rparr>\<rparr>"

definition ttyLineModeLocked :: "Tty \<Rightarrow> bool" where
  "ttyLineModeLocked tty \<longleftrightarrow> \<not> ty_is_master tty \<and> flag (tm_lflags (ty_termios tty)) ICANON"

definition ttyIsDownLocked :: "Tty \<Rightarrow> bool" where
  "ttyIsDownLocked tty \<longleftrightarrow> ty_hung_up tty \<or> ty_peer_hung_up tty"

definition ttyQueueClearLocked :: "Tty \<Rightarrow> Tty" where
  "ttyQueueClearLocked tty =
     tty\<lparr>ty_queue := queue_cleared (ty_queue tty), ty_erase_open := False, ty_literal_next := False\<rparr>"

subsection \<open>Output processing\<close>

definition ttyByteIsUpper :: "byte \<Rightarrow> bool" where
  "ttyByteIsUpper byte \<longleftrightarrow> (0x41 \<le> byte \<and> byte \<le> 0x5A) \<or> (0xC0 \<le> byte \<and> byte \<le> 0xDE \<and> byte \<noteq> 0xD7)"

definition ttyByteIsLower :: "byte \<Rightarrow> bool" where
  "ttyByteIsLower byte \<longleftrightarrow> (0x61 \<le> byte \<and> byte \<le> 0x7A) \<or> (0xDF \<le> byte \<and> byte \<noteq> 0xF7)"

definition ttyByteInWord :: "byte \<Rightarrow> bool" where
  "ttyByteInWord byte \<longleftrightarrow>
     ttyByteIsUpper byte \<or> ttyByteIsLower byte \<or> (0x30 \<le> byte \<and> byte \<le> 0x39) \<or> byte = 0x5F"

definition ttyByteIsControl :: "byte \<Rightarrow> bool" where
  "ttyByteIsControl byte \<longleftrightarrow> byte < 0x20 \<or> byte = 0x7F"

definition ttyByteContinues :: "termios \<Rightarrow> byte \<Rightarrow> bool" where
  "ttyByteContinues termios byte \<longleftrightarrow> flag (tm_iflags termios) IUTF8 \<and> byte AND 0xC0 = 0x80"

definition TTY_TAB_STOP :: u32 where
  "TTY_TAB_STOP = 8"

definition ttyNextTabStop :: "u32 \<Rightarrow> u32" where
  "ttyNextTabStop column = column - column mod TTY_TAB_STOP + TTY_TAB_STOP"

definition ttyOutputByteLocked :: "byte \<Rightarrow> Tty \<Rightarrow> Tty \<times> byte list" where
  "ttyOutputByteLocked byte tty =
     (let oflags = tm_oflags (ty_termios tty) in
      if \<not> flag oflags OPOST then (tty, [byte])
      else if byte = 0x0A then
        let tty = (if flag oflags (ONLRET OR ONLCR) then tty\<lparr>ty_column := 0, ty_line_column := 0\<rparr> else tty) in
        (tty, if flag oflags ONLCR then [0x0D, 0x0A] else [0x0A])
      else if byte = 0x0D then
        if flag oflags ONOCR \<and> ty_column tty = 0 then (tty, [])
        else
          let tty = (if \<not> flag oflags OCRNL \<or> flag oflags ONLRET
                     then tty\<lparr>ty_column := 0, ty_line_column := 0\<rparr> else tty) in
          (tty, [if flag oflags OCRNL then 0x0A else 0x0D])
      else if byte = 0x09 then
        let stop = ttyNextTabStop (ty_column tty); width = stop - ty_column tty in
        (tty\<lparr>ty_column := stop\<rparr>, if oflags AND TABDLY = TAB3 then replicate (unat width) 0x20 else [0x09])
      else if byte = 0x08 then
        (if 0 < ty_column tty then tty\<lparr>ty_column := ty_column tty - 1\<rparr> else tty, [0x08])
      else if \<not> ttyByteIsControl byte then
        let byte = (if flag oflags OLCUC \<and> ttyByteIsLower byte then byte - 0x20 else byte) in
        (if \<not> ttyByteContinues (ty_termios tty) byte then tty\<lparr>ty_column := ty_column tty + 1\<rparr> else tty, [byte])
      else (tty, [byte]))"

subsection \<open>What an input call collects\<close>

datatype tty_signal = SIGINT | SIGQUIT | SIGTSTP | SIGTTIN | SIGTTOU | SIGWINCH

datatype effect = PacketEvent byte | EchoToPeer "byte list" | WakePollers | SignalGroup int tty_signal

record TtyInputRun =
  rn_wake_pollers :: bool
  rn_announced :: bool
  rn_signals :: u32
  rn_packet_status :: byte
  rn_echo :: "byte list"
  rn_effects :: "effect list"

definition new_run :: TtyInputRun where
  "new_run = \<lparr>rn_wake_pollers = False, rn_announced = False, rn_signals = 0, rn_packet_status = 0,
              rn_echo = [], rn_effects = []\<rparr>"

definition kKeySignals :: "tty_signal list" where
  "kKeySignals = [SIGINT, SIGQUIT, SIGTSTP]"

type_synonym typing = "Tty \<times> TtyInputRun"

definition pending :: "u32 \<Rightarrow> TtyInputRun \<Rightarrow> bool" where
  "pending signals run \<longleftrightarrow> rn_echo run \<noteq> [] \<or> rn_wake_pollers run \<or> signals \<noteq> 0 \<or> rn_packet_status run \<noteq> 0"

definition run_effects :: "Tty \<Rightarrow> u32 \<Rightarrow> TtyInputRun \<Rightarrow> effect list" where
  "run_effects tty signals run =
     (if ty_other tty \<noteq> None then
        (if rn_packet_status run \<noteq> 0 then [PacketEvent (rn_packet_status run)] else [])
        @ (if rn_echo run \<noteq> [] then [EchoToPeer (rn_echo run)] else [])
      else [])
     @ (if rn_wake_pollers run then [WakePollers] else [])
     @ (if signals \<noteq> 0 \<and> 0 < ty_fg_group tty
        then map (\<lambda>i. SignalGroup (ty_fg_group tty) (kKeySignals ! i)) (filter (bit signals) [0..<length kKeySignals])
        else [])"

definition ttyRunFlushLocked :: "bool \<Rightarrow> typing \<Rightarrow> typing" where
  "ttyRunFlushLocked with_signals s =
     (let run = snd s; signals = (if with_signals then rn_signals run else 0) in
      if \<not> pending signals run then s
      else (fst s, run\<lparr>rn_echo := [], rn_wake_pollers := False, rn_packet_status := 0,
                      rn_signals := rn_signals run AND NOT signals,
                      rn_effects := rn_effects run @ run_effects (fst s) signals run\<rparr>))"

definition TTY_ECHO_SIZE :: nat where
  "TTY_ECHO_SIZE = 512"

definition ttyEchoLocked :: "byte list \<Rightarrow> typing \<Rightarrow> typing" where
  "ttyEchoLocked bytes s =
     (let s = (if TTY_ECHO_SIZE < length (rn_echo (snd s)) + length bytes then ttyRunFlushLocked False s else s) in
      apsnd (\<lambda>run. run\<lparr>rn_echo := rn_echo run @ bytes\<rparr>) s)"

definition ttyEchoOutputLocked :: "byte \<Rightarrow> typing \<Rightarrow> typing" where
  "ttyEchoOutputLocked byte s =
     (let (tty, out) = ttyOutputByteLocked byte (fst s) in ttyEchoLocked out (tty, snd s))"

definition ttyShowsAsControl :: "termios \<Rightarrow> byte \<Rightarrow> bool" where
  "ttyShowsAsControl termios byte \<longleftrightarrow>
     flag (tm_lflags termios) ECHOCTL \<and> ttyByteIsControl byte \<and> byte \<noteq> 0x09
     \<and> \<not> (flag (tm_iflags termios) IXON \<and> (ttyByteIs termios byte VSTART \<or> ttyByteIs termios byte VSTOP))"

definition ttyEchoCharLocked :: "byte \<Rightarrow> typing \<Rightarrow> typing" where
  "ttyEchoCharLocked byte s =
     (if ttyShowsAsControl (ty_termios (fst s)) byte then
        ttyEchoLocked [0x5E, byte XOR 0x40] (apfst (\<lambda>tty. tty\<lparr>ty_column := ty_column tty + 2\<rparr>) s)
      else ttyEchoOutputLocked byte s)"

definition ttyEchoCloseEraseLocked :: "typing \<Rightarrow> typing" where
  "ttyEchoCloseEraseLocked s =
     (if ty_erase_open (fst s) then ttyEchoOutputLocked 0x2F (apfst (\<lambda>tty. tty\<lparr>ty_erase_open := False\<rparr>) s) else s)"

definition ttyEchoRubOutLocked :: "typing \<Rightarrow> typing" where
  "ttyEchoRubOutLocked s = ttyEchoOutputLocked 0x08 (ttyEchoOutputLocked 0x20 (ttyEchoOutputLocked 0x08 s))"

subsection \<open>Editing the line\<close>

definition line_column_step :: "termios \<Rightarrow> byte \<Rightarrow> u32 \<Rightarrow> u32" where
  "line_column_step termios byte column =
     (if byte = 0x09 then ttyNextTabStop column
      else if ttyByteIsControl byte then column + (if flag (tm_lflags termios) ECHOCTL then 2 else 0)
      else if \<not> ttyByteContinues termios byte then column + 1 else column)"

definition ttyTabWidthAtEndLocked :: "Tty \<Rightarrow> nat \<Rightarrow> u32" where
  "ttyTabWidthAtEndLocked tty end_index =
     (let q = ty_queue tty;
          column = fold (\<lambda>i. line_column_step (ty_termios tty) (cl_byte (ttyQueueCell q i)))
                     [tq_released q..<end_index] (ty_line_column tty) in
      ttyNextTabStop column - column)"

function last_char_loop :: "termios \<Rightarrow> TtyQueue \<Rightarrow> nat \<Rightarrow> byte \<Rightarrow> nat \<times> byte" where
  "last_char_loop termios q n byte =
     (if ttyByteContinues termios byte \<and> n < tq_used q - tq_released q
      then last_char_loop termios q (n + 1) (cl_byte (ttyQueueCell q (tq_used q - (n + 1))))
      else (n, byte))"
  by pat_completeness auto
termination by (relation "measure (\<lambda>(termios, q, n, byte). tq_used q - tq_released q - n)") auto

declare last_char_loop.simps [simp del]

definition ttyLastCharSizeLocked :: "Tty \<Rightarrow> nat \<times> byte" where
  "ttyLastCharSizeLocked tty =
     (let q = ty_queue tty in last_char_loop (ty_termios tty) q 1 (cl_byte (ttyQueueCell q (tq_used q - 1))))"

definition column_back :: "typing \<Rightarrow> typing" where
  "column_back s =
     ttyEchoLocked [0x08]
       (apfst (\<lambda>tty. if 0 < ty_column tty then tty\<lparr>ty_column := ty_column tty - 1\<rparr> else tty) s)"

definition ttyEraseCharLocked :: "bool \<Rightarrow> typing \<Rightarrow> typing" where
  "ttyEraseCharLocked show_it s =
     (let tty = fst s; q = ty_queue tty; lflags = tm_lflags (ty_termios tty);
          n = fst (ttyLastCharSizeLocked tty); first = snd (ttyLastCharSizeLocked tty);
          tab_width = (if first = 0x09 then ttyTabWidthAtEndLocked tty (tq_used q - n) else 0);
          shown = min n 8;
          bytes = map (\<lambda>i. cl_byte (ttyQueueCell q (tq_used q - shown + i))) [0..<shown];
          s = apfst (\<lambda>tty. tty\<lparr>ty_queue := q\<lparr>tq_used := tq_used q - n\<rparr>\<rparr>) s in
      if \<not> show_it then s
      else if flag lflags ECHOPRT then
        fold ttyEchoCharLocked bytes
          (if \<not> ty_erase_open (fst s)
           then ttyEchoOutputLocked 0x5C (apfst (\<lambda>tty. tty\<lparr>ty_erase_open := True\<rparr>) s) else s)
      else if first = 0x09 then (column_back ^^ unat tab_width) s
      else if ttyByteIsControl first then
        if flag lflags ECHOCTL then ttyEchoRubOutLocked (ttyEchoRubOutLocked s) else s
      else ttyEchoRubOutLocked s)"

definition ttyInputEraseKeyLocked :: "byte \<Rightarrow> typing \<Rightarrow> typing" where
  "ttyInputEraseKeyLocked key s =
     (let lflags = tm_lflags (ty_termios (fst s)); echo = flag lflags ECHO in
      if \<not> ttyQueueHasUnfinished (ty_queue (fst s)) then s
      else if echo \<and> \<not> flag lflags (ECHOE OR ECHOPRT) then ttyEchoCharLocked key (ttyEraseCharLocked False s)
      else ttyEraseCharLocked echo s)"

lemma last_char_size_ge: "n \<le> fst (last_char_loop tm q n b)"
proof (induction tm q n b rule: last_char_loop.induct)
  case (1 tm q n b)
  then show ?case by (subst last_char_loop.simps) (auto split: if_splits)
qed

text \<open>Echo changes where the cursor is and what the call has collected, nothing else.\<close>

definition undisplayed :: "Tty \<Rightarrow> Tty" where
  "undisplayed tty = tty\<lparr>ty_column := 0, ty_line_column := 0, ty_erase_open := False\<rparr>"

lemma undisplayed_update [simp]:
  "undisplayed (tty\<lparr>ty_column := c\<rparr>) = undisplayed tty"
  "undisplayed (tty\<lparr>ty_line_column := c\<rparr>) = undisplayed tty"
  "undisplayed (tty\<lparr>ty_erase_open := b\<rparr>) = undisplayed tty"
  by (simp_all add: undisplayed_def)

lemma undisplayed_eq:
  assumes "undisplayed t = undisplayed t'"
  shows "ty_queue t = ty_queue t'" "ty_termios t = ty_termios t'" "ty_literal_next t = ty_literal_next t'"
    "ty_session_reader t = ty_session_reader t'" "ty_fg_group t = ty_fg_group t'"
    "ty_is_master t = ty_is_master t'" "ty_hung_up t = ty_hung_up t'" "ty_other t = ty_other t'"
  using arg_cong [OF assms, of ty_queue] arg_cong [OF assms, of ty_termios]
    arg_cong [OF assms, of ty_literal_next] arg_cong [OF assms, of ty_session_reader]
    arg_cong [OF assms, of ty_fg_group] arg_cong [OF assms, of ty_is_master]
    arg_cong [OF assms, of ty_hung_up] arg_cong [OF assms, of ty_other]
  by (simp_all add: undisplayed_def)

lemma undisplayed_output [simp]: "undisplayed (fst (ttyOutputByteLocked b tty)) = undisplayed tty"
  by (simp add: ttyOutputByteLocked_def Let_def)

lemma fst_flush [simp]: "fst (ttyRunFlushLocked b s) = fst s"
  by (simp add: ttyRunFlushLocked_def Let_def)

lemma fst_echo [simp]: "fst (ttyEchoLocked bs s) = fst s"
  by (simp add: ttyEchoLocked_def Let_def)

lemma fst_echo_output [simp]: "fst (ttyEchoOutputLocked b s) = fst (ttyOutputByteLocked b (fst s))"
  by (simp add: ttyEchoOutputLocked_def split_beta)

lemma undisplayed_echo [simp]:
  "undisplayed (fst (ttyEchoCharLocked b s)) = undisplayed (fst s)"
  "undisplayed (fst (ttyEchoCloseEraseLocked s)) = undisplayed (fst s)"
  "undisplayed (fst (ttyEchoRubOutLocked s)) = undisplayed (fst s)"
  "undisplayed (fst (column_back s)) = undisplayed (fst s)"
  by (simp_all add: ttyEchoCharLocked_def ttyEchoCloseEraseLocked_def ttyEchoRubOutLocked_def column_back_def)

lemma undisplayed_fold [simp]: "undisplayed (fst (fold ttyEchoCharLocked bs s)) = undisplayed (fst s)"
  by (induction bs arbitrary: s) simp_all

lemma undisplayed_backs [simp]: "undisplayed (fst ((column_back ^^ n) s)) = undisplayed (fst s)"
  by (induction n) simp_all

lemma undisplayed_erase [simp]:
  "undisplayed (fst (ttyEraseCharLocked b s)) =
     undisplayed ((fst s)\<lparr>ty_queue := (ty_queue (fst s))\<lparr>tq_used :=
       tq_used (ty_queue (fst s)) - fst (ttyLastCharSizeLocked (fst s))\<rparr>\<rparr>)"
  by (simp add: ttyEraseCharLocked_def Let_def)

lemma queue_erase [simp]:
  "ty_queue (fst (ttyEraseCharLocked b s)) = (ty_queue (fst s))\<lparr>tq_used :=
     tq_used (ty_queue (fst s)) - fst (ttyLastCharSizeLocked (fst s))\<rparr>"
  using undisplayed_eq(1) [OF undisplayed_erase] by simp

text \<open>The two keys that erase several characters loop while the line has any.\<close>

lemma erase_shortens:
  "ttyQueueHasUnfinished (ty_queue (fst s)) \<Longrightarrow>
    tq_used (ty_queue (fst (ttyEraseCharLocked b s))) < tq_used (ty_queue (fst s))"
  using last_char_size_ge [of 1 "ty_termios (fst s)" "ty_queue (fst s)"
      "cl_byte (ttyQueueCell (ty_queue (fst s)) (tq_used (ty_queue (fst s)) - 1))"]
  by (simp add: ttyQueueHasUnfinished_def ttyLastCharSizeLocked_def Let_def)

function erase_line_loop :: "typing \<Rightarrow> typing" where
  "erase_line_loop s =
     (if ttyQueueHasUnfinished (ty_queue (fst s)) then erase_line_loop (ttyEraseCharLocked True s) else s)"
  by pat_completeness auto
termination
  by (relation "measure (\<lambda>s. tq_used (ty_queue (fst s)))") (simp_all only: wf_measure in_measure erase_shortens)

declare erase_line_loop.simps [simp del]

definition ttyInputKillKeyLocked :: "byte \<Rightarrow> typing \<Rightarrow> typing" where
  "ttyInputKillKeyLocked key s =
     (let lflags = tm_lflags (ty_termios (fst s)); echo = flag lflags ECHO; rub_out = ECHOE OR ECHOK OR ECHOKE in
      if \<not> ttyQueueHasUnfinished (ty_queue (fst s)) then s
      else if echo \<and> lflags AND rub_out = rub_out then erase_line_loop s
      else
        let s = apfst (\<lambda>tty. tty\<lparr>ty_queue := (ty_queue tty)\<lparr>tq_used := tq_released (ty_queue tty)\<rparr>\<rparr>) s in
        if echo then
          let s = ttyEchoCharLocked key (ttyEchoCloseEraseLocked s) in
          if flag lflags ECHOK then ttyEchoOutputLocked 0x0A s else s
        else s)"

function word_erase_loop :: "bool \<Rightarrow> bool \<Rightarrow> typing \<Rightarrow> typing" where
  "word_erase_loop echo in_word s =
     (if ttyQueueHasUnfinished (ty_queue (fst s)) then
        if ttyByteInWord (snd (ttyLastCharSizeLocked (fst s))) then word_erase_loop echo True (ttyEraseCharLocked echo s)
        else if in_word then s
        else word_erase_loop echo in_word (ttyEraseCharLocked echo s)
      else s)"
  by pat_completeness auto
termination
  by (relation "measure (\<lambda>(echo, in_word, s). tq_used (ty_queue (fst s)))")
    (simp_all only: wf_measure in_measure case_prod_conv erase_shortens)

declare word_erase_loop.simps [simp del]

definition ttyInputWordEraseKeyLocked :: "typing \<Rightarrow> typing" where
  "ttyInputWordEraseKeyLocked s = word_erase_loop (flag (tm_lflags (ty_termios (fst s))) ECHO) False s"

definition ttyInputReprintKeyLocked :: "byte \<Rightarrow> typing \<Rightarrow> typing" where
  "ttyInputReprintKeyLocked key s =
     (let q = ty_queue (fst s);
          s = ttyEchoOutputLocked 0x0A (ttyEchoCharLocked key (ttyEchoCloseEraseLocked s)) in
      fold (\<lambda>i. ttyEchoCharLocked (cl_byte (ttyQueueCell q i))) [tq_released q..<tq_used q] s)"

subsection \<open>Input in line mode\<close>

definition ttyLineEndedLocked :: "typing \<Rightarrow> typing" where
  "ttyLineEndedLocked = apsnd (\<lambda>run. run\<lparr>rn_wake_pollers := True\<rparr>)"

definition push_byte :: "byte \<Rightarrow> cell_kind \<Rightarrow> typing \<Rightarrow> typing" where
  "push_byte byte kind = apfst (\<lambda>tty. tty\<lparr>ty_queue := ttyQueuePush byte kind (ty_queue tty)\<rparr>)"

definition ttyMakeRoomForLineEndLocked :: "typing \<Rightarrow> typing \<times> bool" where
  "ttyMakeRoomForLineEndLocked s =
     (let q = ty_queue (fst s) in
      if tq_used q < TTY_BUF_SIZE then (s, True)
      else if 0 < tq_released q then (s, False)
      else (apfst (\<lambda>tty. tty\<lparr>ty_queue := ttyQueueDropLast q\<rparr>) s, True))"

definition ttySignalKeyLocked :: "nat \<Rightarrow> typing \<Rightarrow> typing" where
  "ttySignalKeyLocked signal_index s =
     (if ty_fg_group (fst s) = 0 then s
      else
        let s = (if \<not> flag (tm_lflags (ty_termios (fst s))) NOFLSH
                 then map_prod ttyQueueClearLocked (\<lambda>run. run\<lparr>rn_packet_status := rn_packet_status run OR 3\<rparr>) s
                 else s) in
        apsnd (\<lambda>run. run\<lparr>rn_signals := rn_signals run OR push_bit signal_index 1\<rparr>) s)"

definition ttyKeySignalIndex :: "termios \<Rightarrow> byte \<Rightarrow> nat option" where
  "ttyKeySignalIndex termios byte =
     (if ttyByteIs termios byte VINTR then Some 0
      else if ttyByteIs termios byte VQUIT then Some 1
      else if ttyByteIs termios byte VSUSP then Some 2
      else None)"

definition ttyInputMapped :: "termios \<Rightarrow> byte \<Rightarrow> byte" where
  "ttyInputMapped termios byte =
     (let byte = (if flag (tm_iflags termios) ISTRIP then byte AND 0x7F else byte) in
      if flag (tm_iflags termios) IUCLC \<and> flag (tm_lflags termios) IEXTEN \<and> ttyByteIsUpper byte
      then byte + 0x20 else byte)"

definition ttyInputDoubles :: "termios \<Rightarrow> byte \<Rightarrow> bool" where
  "ttyInputDoubles termios byte \<longleftrightarrow> flag (tm_iflags termios) PARMRK \<and> byte = 0xFF"

text \<open>Whether a plain byte is kept, dropped or has to wait.\<close>

datatype plain_fate = Keep | Drop | Wait

definition plain_fate_of :: "TtyQueue \<Rightarrow> plain_fate" where
  "plain_fate_of q =
     (if tq_used q + 1 < TTY_BUF_SIZE then Keep
      else if tq_released q = 0 then Drop
      else if tq_used q = TTY_BUF_SIZE then Wait
      else Keep)"

definition push_plain :: "byte \<Rightarrow> typing \<Rightarrow> typing" where
  "push_plain byte s =
     (let s = push_byte byte TTY_CELL_BYTE s in
      if ttyInputDoubles (ty_termios (fst s)) byte \<and> tq_used (ty_queue (fst s)) + 1 < TTY_BUF_SIZE
      then push_byte byte TTY_CELL_BYTE s else s)"

definition ttyInputPlainByteLocked :: "byte \<Rightarrow> typing \<Rightarrow> typing \<times> bool" where
  "ttyInputPlainByteLocked byte s =
     (let line_empty = (\<not> ttyQueueHasUnfinished (ty_queue (fst s))); fate = plain_fate_of (ty_queue (fst s)) in
      if fate = Wait then (s, False)
      else
        let s = (if fate = Keep then push_plain byte s else s) in
        (if flag (tm_lflags (ty_termios (fst s))) ECHO then
           let s = (if line_empty then apfst (\<lambda>tty. tty\<lparr>ty_line_column := ty_column tty\<rparr>) s else s) in
           ttyEchoCharLocked byte (ttyEchoCloseEraseLocked s)
         else s, True))"

text \<open>The editing keys; \<open>None\<close> for a byte that is none of them.\<close>

definition close_erase_when_empty :: "typing \<Rightarrow> typing" where
  "close_erase_when_empty s =
     (if \<not> ttyQueueHasUnfinished (ty_queue (fst s)) then ttyEchoCloseEraseLocked s else s)"

definition ttyInputEditingKey :: "byte \<Rightarrow> typing \<Rightarrow> typing option" where
  "ttyInputEditingKey byte s =
     (let termios = ty_termios (fst s); lflags = tm_lflags termios;
          echo = flag lflags ECHO; extended = flag lflags IEXTEN in
      if ttyByteIs termios byte VERASE then Some (close_erase_when_empty (ttyInputEraseKeyLocked byte s))
      else if ttyByteIs termios byte VKILL then Some (close_erase_when_empty (ttyInputKillKeyLocked byte s))
      else if extended \<and> ttyByteIs termios byte VWERASE then Some (close_erase_when_empty (ttyInputWordEraseKeyLocked s))
      else if extended \<and> echo \<and> ttyByteIs termios byte VREPRINT then Some (ttyInputReprintKeyLocked byte s)
      else if extended \<and> ttyByteIs termios byte VLNEXT then
        let s = apfst (\<lambda>tty. tty\<lparr>ty_literal_next := True\<rparr>) s in
        Some (if echo \<and> flag lflags ECHOCTL
              then ttyEchoOutputLocked 0x08 (ttyEchoOutputLocked 0x5E (ttyEchoCloseEraseLocked s)) else s)
      else None)"

definition ttyInputEofKey :: "typing \<Rightarrow> typing \<times> bool" where
  "ttyInputEofKey s =
     (let (s, room) = ttyMakeRoomForLineEndLocked s in
      if \<not> room then (s, False) else (ttyLineEndedLocked (push_byte 0 TTY_CELL_EOF_MARK s), True))"

definition ttyInputLineEnd :: "byte \<Rightarrow> typing \<Rightarrow> typing \<times> bool" where
  "ttyInputLineEnd byte s =
     (let (s, room) = ttyMakeRoomForLineEndLocked s in
      if \<not> room then (s, False)
      else
        let line_empty = (\<not> ttyQueueHasUnfinished (ty_queue (fst s)));
            lflags = tm_lflags (ty_termios (fst s));
            s = ttyLineEndedLocked (push_byte byte TTY_CELL_LINE_END s) in
        (if byte = 0x0A then
           if flag lflags ECHO \<or> flag lflags ECHONL then ttyEchoOutputLocked 0x0A s else s
         else if flag lflags ECHO then
           ttyEchoCharLocked byte (if line_empty then apfst (\<lambda>tty. tty\<lparr>ty_line_column := ty_column tty\<rparr>) s else s)
         else s, True))"

text \<open>The interrupt or suspend key for a session's reader, with \<open>ISIG\<close> off.\<close>

definition ttyInputReaderKey :: "byte \<Rightarrow> typing \<Rightarrow> typing \<times> bool" where
  "ttyInputReaderKey byte s =
     (let termios = ty_termios (fst s);
          s = (if \<not> flag (tm_lflags termios) NOFLSH then apfst ttyQueueClearLocked s else s);
          (s, room) = ttyMakeRoomForLineEndLocked s in
      if \<not> room then (s, False)
      else
        let s = ttyLineEndedLocked (push_byte byte TTY_CELL_LINE_END s) in
        (if flag (tm_lflags termios) ECHO \<and> ttyShowsAsControl termios byte then
           let s = ttyEchoCharLocked byte s in
           if ttyByteIs termios byte VINTR then ttyEchoOutputLocked 0x0A s else s
         else s, True))"

definition ttyInputNotEditing :: "byte \<Rightarrow> typing \<Rightarrow> typing \<times> bool" where
  "ttyInputNotEditing byte s =
     (let termios = ty_termios (fst s); lflags = tm_lflags termios;
          echo = flag lflags ECHO; extended = flag lflags IEXTEN in
      if ttyByteIs termios byte VEOF then ttyInputEofKey s
      else if byte = 0x0A \<or> ttyByteIs termios byte VEOL \<or> (extended \<and> ttyByteIs termios byte VEOL2)
      then ttyInputLineEnd byte s
      else if (ttyByteIs termios byte VINTR \<or> ttyByteIs termios byte VSUSP)
              \<and> ty_session_reader (fst s) \<and> \<not> flag lflags ISIG
      then ttyInputReaderKey byte s
      else
        case (if flag lflags ISIG then ttyKeySignalIndex termios byte else None) of
          Some i \<Rightarrow>
            let s = ttySignalKeyLocked i s in (if echo then ttyEchoCharLocked byte s else s, True)
        | None \<Rightarrow> ttyInputPlainByteLocked byte s)"

text \<open>What the carriage return and the newline become; \<open>None\<close> for one that is ignored.\<close>

definition line_byte :: "termios \<Rightarrow> byte \<Rightarrow> byte option" where
  "line_byte termios byte =
     (if byte = 0x0D then
        if flag (tm_iflags termios) IGNCR then None
        else if flag (tm_iflags termios) ICRNL then Some 0x0A else Some byte
      else if byte = 0x0A \<and> flag (tm_iflags termios) INLCR then Some 0x0D
      else Some byte)"

definition ttyInputLineByteLocked :: "byte \<Rightarrow> typing \<Rightarrow> typing \<times> bool" where
  "ttyInputLineByteLocked byte s =
     (let termios = ty_termios (fst s); byte = ttyInputMapped termios byte in
      if ty_literal_next (fst s) then
        let (s, taken) = ttyInputPlainByteLocked byte s in
        (if taken then apfst (\<lambda>tty. tty\<lparr>ty_literal_next := False\<rparr>) s else s, taken)
      else
        case line_byte termios byte of
          None \<Rightarrow> (s, True)
        | Some byte \<Rightarrow>
            case ttyInputEditingKey byte s of
              Some s \<Rightarrow> (s, True)
            | None \<Rightarrow> ttyInputNotEditing byte s)"

subsection \<open>Input in raw mode\<close>

definition ttyInputRawByteLocked :: "byte \<Rightarrow> typing \<Rightarrow> typing \<times> bool" where
  "ttyInputRawByteLocked byte s =
     (let termios = ty_termios (fst s); byte = ttyInputMapped termios byte in
      case (if \<not> ty_is_master (fst s) \<and> flag (tm_lflags termios) ISIG then ttyKeySignalIndex termios byte else None) of
        Some i \<Rightarrow> (ttySignalKeyLocked i s, True)
      | None \<Rightarrow>
          let q = ty_queue (fst s) in
          if tq_used q = TTY_BUF_SIZE then (s, False)
          else
            let s = (if tq_used q = 0 then ttyLineEndedLocked s else s);
                s = push_byte byte TTY_CELL_BYTE s in
            (if ttyInputDoubles termios byte \<and> tq_used (ty_queue (fst s)) < TTY_BUF_SIZE
             then push_byte byte TTY_CELL_BYTE s else s, True))"

definition ttyInputByteLocked :: "byte \<Rightarrow> typing \<Rightarrow> typing \<times> bool" where
  "ttyInputByteLocked byte s =
     (if ttyLineModeLocked (fst s) then ttyInputLineByteLocked byte s else ttyInputRawByteLocked byte s)"

end
