(* ===== verification/TtyEdit.thy ===== *)
theory TtyEdit
  imports TtyLine
begin

section \<open>Line mode as a line editor\<close>

text \<open>
  What the line discipline of \<open>pscal_tty.c\<close> does to the input, without the ring, the echo and the loops: a terminal
  in line mode is the finished cells, the text of the line being typed and whether the next byte is taken literally.
  \<open>edit_byte\<close> is what a byte does to that, a few list operations on the characters of the line; the theorem
  \<open>line_byte_refines\<close> says that \<open>ttyInputLineByteLocked\<close> does exactly this.
\<close>

record Editor =
  ed_done :: "TtyCell list"
  ed_text :: "byte list"
  ed_literal :: bool

definition text_cell :: "byte \<Rightarrow> TtyCell" where
  "text_cell b = \<lparr>cl_byte = b, cl_kind = TTY_CELL_BYTE\<rparr>"

definition editor :: "Tty \<Rightarrow> Editor" where
  "editor tty =
     (let q = ty_queue tty in
      \<lparr>ed_done = take (tq_released q) (queue_cells q),
       ed_text = map cl_byte (drop (tq_released q) (queue_cells q)),
       ed_literal = ty_literal_next tty\<rparr>)"

text \<open>The characters of a text: a byte and the continuation bytes behind it.\<close>

function chars :: "termios \<Rightarrow> byte list \<Rightarrow> byte list list" where
  "chars tm [] = []"
| "chars tm (b # bs) = (b # takeWhile (ttyByteContinues tm) bs) # chars tm (dropWhile (ttyByteContinues tm) bs)"
  by pat_completeness auto
termination by (relation "measure (\<lambda>(tm, bs). length bs)") (auto simp: le_imp_less_Suc length_dropWhile_le)

definition in_word :: "byte list \<Rightarrow> bool" where
  "in_word c \<longleftrightarrow> ttyByteInWord (hd c)"

datatype Key =
    Ignored | Erase | Kill | WordErase | Reprint | Quote | EofKey | LineEndKey byte | ReaderKey byte
  | SignalKey nat | TextKey byte

definition key_of :: "termios \<Rightarrow> bool \<Rightarrow> byte \<Rightarrow> Key" where
  "key_of tm reader byte =
     (let lflags = tm_lflags tm; extended = flag lflags IEXTEN in
      case line_byte tm byte of
        None \<Rightarrow> Ignored
      | Some b \<Rightarrow>
          if ttyByteIs tm b VERASE then Erase
          else if ttyByteIs tm b VKILL then Kill
          else if extended \<and> ttyByteIs tm b VWERASE then WordErase
          else if extended \<and> flag lflags ECHO \<and> ttyByteIs tm b VREPRINT then Reprint
          else if extended \<and> ttyByteIs tm b VLNEXT then Quote
          else if ttyByteIs tm b VEOF then EofKey
          else if b = 0x0A \<or> ttyByteIs tm b VEOL \<or> (extended \<and> ttyByteIs tm b VEOL2) then LineEndKey b
          else if (ttyByteIs tm b VINTR \<or> ttyByteIs tm b VSUSP) \<and> reader \<and> \<not> flag lflags ISIG then ReaderKey b
          else case (if flag lflags ISIG then ttyKeySignalIndex tm b else None) of
                 Some i \<Rightarrow> SignalKey i
               | None \<Rightarrow> TextKey b)"

definition emptied :: "Editor \<Rightarrow> Editor" where
  "emptied ed = \<lparr>ed_done = [], ed_text = [], ed_literal = False\<rparr>"

definition filled :: "Editor \<Rightarrow> nat" where
  "filled ed = length (ed_done ed) + length (ed_text ed)"

text \<open>A byte of text is dropped where it would leave no place for the end of the line, and waits while a
  finished line can still be read. A line's end waits for a place, and takes the last byte's if nothing else will
  ever make one.\<close>

definition add_text :: "termios \<Rightarrow> byte \<Rightarrow> Editor \<Rightarrow> Editor option" where
  "add_text tm b ed =
     (if filled ed + 1 < TTY_BUF_SIZE \<or> ed_done ed \<noteq> [] \<and> filled ed < TTY_BUF_SIZE then
        Some (ed\<lparr>ed_text := ed_text ed @ (if ttyInputDoubles tm b \<and> filled ed + 2 < TTY_BUF_SIZE then [b, b] else [b])\<rparr>)
      else if ed_done ed = [] then Some ed
      else None)"

definition end_line :: "TtyCell \<Rightarrow> Editor \<Rightarrow> Editor option" where
  "end_line c ed =
     (if filled ed < TTY_BUF_SIZE then
        Some (ed\<lparr>ed_done := ed_done ed @ map text_cell (ed_text ed) @ [c], ed_text := []\<rparr>)
      else if ed_done ed \<noteq> [] then None
      else Some (ed\<lparr>ed_done := map text_cell (butlast (ed_text ed)) @ [c], ed_text := []\<rparr>))"

definition edit :: "termios \<Rightarrow> bool \<Rightarrow> Key \<Rightarrow> Editor \<Rightarrow> Editor option" where
  "edit tm foreground key ed =
     (case key of
        Ignored \<Rightarrow> Some ed
      | Erase \<Rightarrow> Some (ed\<lparr>ed_text := concat (butlast (chars tm (ed_text ed)))\<rparr>)
      | Kill \<Rightarrow> Some (ed\<lparr>ed_text := []\<rparr>)
      | WordErase \<Rightarrow>
          Some (ed\<lparr>ed_text := concat (rev (dropWhile in_word (dropWhile (Not \<circ> in_word) (rev (chars tm (ed_text ed))))))\<rparr>)
      | Reprint \<Rightarrow> Some ed
      | Quote \<Rightarrow> Some (ed\<lparr>ed_literal := True\<rparr>)
      | EofKey \<Rightarrow> end_line \<lparr>cl_byte = 0, cl_kind = TTY_CELL_EOF_MARK\<rparr> ed
      | LineEndKey b \<Rightarrow> end_line \<lparr>cl_byte = b, cl_kind = TTY_CELL_LINE_END\<rparr> ed
      | ReaderKey b \<Rightarrow>
          end_line \<lparr>cl_byte = b, cl_kind = TTY_CELL_LINE_END\<rparr> (if flag (tm_lflags tm) NOFLSH then ed else emptied ed)
      | SignalKey i \<Rightarrow> Some (if foreground \<and> \<not> flag (tm_lflags tm) NOFLSH then emptied ed else ed)
      | TextKey b \<Rightarrow> add_text tm b ed)"

definition edit_byte :: "termios \<Rightarrow> bool \<Rightarrow> bool \<Rightarrow> byte \<Rightarrow> Editor \<Rightarrow> Editor option" where
  "edit_byte tm reader foreground byte ed =
     (let byte = ttyInputMapped tm byte in
      if ed_literal ed then map_option (\<lambda>ed. ed\<lparr>ed_literal := False\<rparr>) (add_text tm byte ed)
      else edit tm foreground (key_of tm reader byte) ed)"

subsection \<open>Characters from the end\<close>

lemma chars_concat [simp]: "concat (chars tm bs) = bs"
  by (induction tm bs rule: chars.induct) simp_all

lemma chars_empty [simp]: "chars tm bs = [] \<longleftrightarrow> bs = []"
  by (cases bs) simp_all

lemma chars_snoc:
  "\<forall>c \<in> set cs. ttyByteContinues tm c \<Longrightarrow> \<not> ttyByteContinues tm b \<or> pre = [] \<Longrightarrow>
    chars tm (pre @ b # cs) = chars tm pre @ [b # cs]"
proof (induction tm pre rule: chars.induct)
  case (1 tm)
  then show ?case by (simp add: takeWhile_eq_all_conv [THEN iffD2] dropWhile_eq_Nil_conv [THEN iffD2])
next
  case (2 tm p ps)
  have all: "takeWhile (ttyByteContinues tm) ps = ps" if "Ball (set ps) (ttyByteContinues tm)"
    using that takeWhile_eq_all_conv [of "ttyByteContinues tm" ps] by blast
  have "takeWhile (ttyByteContinues tm) (ps @ b # cs) = takeWhile (ttyByteContinues tm) ps"
    and "dropWhile (ttyByteContinues tm) (ps @ b # cs) = dropWhile (ttyByteContinues tm) ps @ b # cs"
    using 2(3) all by (auto simp: takeWhile_append dropWhile_append simp del: takeWhile_eq_all_conv)
  then show ?case using 2 by simp
qed

text \<open>The last character as the code counts it.\<close>

definition last_size :: "termios \<Rightarrow> byte list \<Rightarrow> nat" where
  "last_size tm bs = min (length bs) (length (takeWhile (ttyByteContinues tm) (rev bs)) + 1)"

lemma split_last:
  assumes "bs \<noteq> []"
  obtains pre b cs where "bs = pre @ b # cs" "\<forall>c \<in> set cs. ttyByteContinues tm c"
    "\<not> ttyByteContinues tm b \<or> pre = []" "last_size tm bs = length (b # cs)"
proof -
  let ?P = "ttyByteContinues tm"
  let ?cs = "rev (takeWhile ?P (rev bs))"
  have bs: "bs = rev (dropWhile ?P (rev bs)) @ ?cs"
    by (metis rev_append rev_rev_ident takeWhile_dropWhile_id)
  show thesis
  proof (cases "dropWhile ?P (rev bs)")
    case Nil
    then have all: "\<forall>c \<in> set bs. ?P c" by (simp add: dropWhile_eq_Nil_conv)
    obtain b cs where bc: "bs = b # cs" using assms by (cases bs) auto
    have "takeWhile ?P (rev bs) = rev bs" using all takeWhile_eq_all_conv [of ?P "rev bs"] by simp
    then have "length (takeWhile ?P (rev bs)) = length bs" by (metis length_rev)
    then have "last_size tm bs = length bs" by (simp add: last_size_def)
    then show thesis using that [of "[]" b cs] all bc by simp
  next
    case (Cons b ps)
    have nb: "\<not> ?P b" using hd_dropWhile [of ?P "rev bs"] Cons by simp
    have eq: "bs = rev ps @ b # ?cs" using bs Cons by simp
    have "\<forall>c \<in> set ?cs. ?P c" by (auto dest: set_takeWhileD)
    moreover have "length bs = length ps + 1 + length (takeWhile ?P (rev bs))"
      by (subst eq) simp
    ultimately show thesis using that [of "rev ps" b ?cs] eq nb by (simp add: last_size_def)
  qed
qed

lemma chars_last:
  assumes "bs \<noteq> []"
  shows "butlast (chars tm bs) = chars tm (take (length bs - last_size tm bs) bs)"
    and "last (chars tm bs) = drop (length bs - last_size tm bs) bs"
    and "hd (last (chars tm bs)) = bs ! (length bs - last_size tm bs)"
proof -
  obtain pre b cs where eq: "bs = pre @ b # cs" and c: "\<forall>c \<in> set cs. ttyByteContinues tm c"
    "\<not> ttyByteContinues tm b \<or> pre = []" and n: "last_size tm bs = length (b # cs)"
    using split_last [OF assms, of tm] by metis
  have "chars tm bs = chars tm pre @ [b # cs]" using chars_snoc [OF c] eq by simp
  then show "butlast (chars tm bs) = chars tm (take (length bs - last_size tm bs) bs)"
    and "last (chars tm bs) = drop (length bs - last_size tm bs) bs"
    and "hd (last (chars tm bs)) = bs ! (length bs - last_size tm bs)"
    unfolding n by (simp_all add: eq)
qed

lemma erase_char_text: "bs \<noteq> [] \<Longrightarrow> take (length bs - last_size tm bs) bs = concat (butlast (chars tm bs))"
  by (simp add: chars_last)

subsection \<open>The invariant of a terminal\<close>

text \<open>The line being typed has no line ends in it, and what is released ends with one.\<close>

definition line_ok :: "Tty \<Rightarrow> bool" where
  "line_ok tty \<longleftrightarrow> queue_wf (ty_queue tty)
     \<and> (\<forall>c \<in> set (drop (tq_released (ty_queue tty)) (queue_cells (ty_queue tty))). cl_kind c = TTY_CELL_BYTE)
     \<and> (0 < tq_released (ty_queue tty) \<longrightarrow>
          cl_kind (queue_cells (ty_queue tty) ! (tq_released (ty_queue tty) - 1)) \<noteq> TTY_CELL_BYTE)"

lemma line_ok_wf: "line_ok tty \<Longrightarrow> queue_wf (ty_queue tty)"
  by (simp add: line_ok_def)

lemma line_ok_counts: "line_ok tty \<Longrightarrow> tq_released (ty_queue tty) \<le> tq_used (ty_queue tty)
    \<and> tq_used (ty_queue tty) \<le> TTY_BUF_SIZE"
  by (simp add: line_ok_def queue_wf_def)

lemma editor_lengths:
  "line_ok tty \<Longrightarrow> length (ed_done (editor tty)) = tq_released (ty_queue tty)"
  "length (ed_text (editor tty)) = tq_used (ty_queue tty) - tq_released (ty_queue tty)"
  "line_ok tty \<Longrightarrow> filled (editor tty) = tq_used (ty_queue tty)"
  using line_ok_counts [of tty] by (auto simp: editor_def filled_def Let_def)

lemma done_empty: "line_ok tty \<Longrightarrow> ed_done (editor tty) = [] \<longleftrightarrow> tq_released (ty_queue tty) = 0"
  using editor_lengths(1) [of tty] by (metis length_0_conv)

lemma unfinished_text: "ttyQueueHasUnfinished (ty_queue tty) \<longleftrightarrow> ed_text (editor tty) \<noteq> []"
  by (auto simp: ttyQueueHasUnfinished_def editor_def Let_def)

lemma same_queue:
  assumes "ty_queue t = ty_queue t'"
  shows "line_ok t = line_ok t'" "ty_literal_next t = ty_literal_next t' \<Longrightarrow> editor t = editor t'"
  using assms by (simp_all add: line_ok_def editor_def)

lemma undisplayed_editor:
  assumes "undisplayed t = undisplayed t'"
  shows "line_ok t = line_ok t'" "editor t = editor t'"
  using undisplayed_eq [OF assms] same_queue by metis+


text \<open>Everything of a terminal but its queue, its literal-next flag and its display.\<close>

definition others :: "Tty \<Rightarrow> Tty" where
  "others tty = (undisplayed tty)\<lparr>ty_queue := ty_queue (ttyCreate True 0), ty_literal_next := False\<rparr>"

definition edits_to :: "Tty \<Rightarrow> Editor \<Rightarrow> Tty \<Rightarrow> bool" where
  "edits_to t ed t' \<longleftrightarrow> line_ok t' \<and> editor t' = ed \<and> others t' = others t"

lemma others_eq:
  assumes "others t = others t'"
  shows "ty_termios t = ty_termios t'" "ty_session_reader t = ty_session_reader t'"
    "ty_fg_group t = ty_fg_group t'" "ty_is_master t = ty_is_master t'" "ty_hung_up t = ty_hung_up t'"
  using arg_cong [OF assms, of ty_termios] arg_cong [OF assms, of ty_session_reader]
    arg_cong [OF assms, of ty_fg_group] arg_cong [OF assms, of ty_is_master] arg_cong [OF assms, of ty_hung_up]
  by (simp_all add: others_def undisplayed_def)

lemma others_update [simp]:
  "others (t\<lparr>ty_queue := q\<rparr>) = others t" "others (t\<lparr>ty_literal_next := b\<rparr>) = others t"
  by (simp_all add: others_def undisplayed_def)

lemma undisplayed_others: "undisplayed t = undisplayed t' \<Longrightarrow> others t = others t'"
  by (simp add: others_def)

lemma edits_undisplayed: "undisplayed t'' = undisplayed t' \<Longrightarrow> edits_to t ed t'' = edits_to t ed t'"
  using undisplayed_editor undisplayed_others by (metis edits_to_def)

lemma edits_refl: "line_ok t \<Longrightarrow> edits_to t (editor t) t"
  by (simp add: edits_to_def)

lemma edits_same_text: "line_ok t \<Longrightarrow> ed_text (editor t) = text \<Longrightarrow> edits_to t ((editor t)\<lparr>ed_text := text\<rparr>) t"
  by (simp add: edits_to_def)

lemma edits_trans: "edits_to t ed t' \<Longrightarrow> edits_to t' ed' t'' \<Longrightarrow> edits_to t ed' t''"
  by (simp add: edits_to_def)

lemma edits_shorten:
  assumes ok: "line_ok tty" and m: "tq_released (ty_queue tty) \<le> m" "m \<le> tq_used (ty_queue tty)"
  shows "edits_to tty ((editor tty)\<lparr>ed_text := take (m - tq_released (ty_queue tty)) (ed_text (editor tty))\<rparr>)
    (tty\<lparr>ty_queue := (ty_queue tty)\<lparr>tq_used := m\<rparr>\<rparr>)"
proof -
  let ?q = "ty_queue tty" let ?r = "tq_released ?q"
  have cells: "queue_cells (?q\<lparr>tq_used := m\<rparr>) = take m (queue_cells ?q)" using m by (simp add: shorten_cells)
  have "line_ok (tty\<lparr>ty_queue := ?q\<lparr>tq_used := m\<rparr>\<rparr>)"
    using ok m unfolding line_ok_def
    by (auto simp: cells shorten_wf drop_take dest!: in_set_takeD)
  then show ?thesis
    using m by (simp add: edits_to_def editor_def cells Let_def drop_take take_map min_def)
qed

subsection \<open>The editing keys\<close>

lemma text_nth:
  assumes "line_ok tty" "k < length (ed_text (editor tty))"
  shows "ed_text (editor tty) ! k = cl_byte (ttyQueueCell (ty_queue tty) (tq_released (ty_queue tty) + k))"
proof -
  have "k < tq_used (ty_queue tty) - tq_released (ty_queue tty)" using assms(2) editor_lengths(2) [of tty] by simp
  then show ?thesis using line_ok_counts [OF assms(1)] by (simp add: editor_def Let_def queue_cells_nth)
qed

lemma last_char_loop_eq:
  assumes ok: "line_ok tty" and r: "r = rev (ed_text (editor tty))"
  shows "0 < n \<Longrightarrow> n \<le> length r \<Longrightarrow>
    last_char_loop tm (ty_queue tty) n (r ! (n - 1)) =
      (let m = min (length r) (n + length (takeWhile (ttyByteContinues tm) (drop (n - 1) r))) in (m, r ! (m - 1)))"
proof (induction "length r - n" arbitrary: n)
  case 0
  then have n: "n = length r" by simp
  have "length r = tq_used (ty_queue tty) - tq_released (ty_queue tty)" using r editor_lengths(2) by simp
  then show ?case by (subst last_char_loop.simps) (simp add: n Let_def)
next
  case (Suc k)
  let ?q = "ty_queue tty" let ?P = "ttyByteContinues tm"
  have len: "length r = tq_used ?q - tq_released ?q" using r editor_lengths(2) by simp
  have n: "n < length r" using Suc.hyps(2) by simp
  have nth: "r ! n = cl_byte (ttyQueueCell ?q (tq_used ?q - (n + 1)))"
  proof -
    have "r ! n = ed_text (editor tty) ! (length r - Suc n)" using n by (simp add: r rev_nth)
    also have "\<dots> = cl_byte (ttyQueueCell ?q (tq_released ?q + (length r - Suc n)))"
      using n by (intro text_nth [OF ok]) (simp add: r)
    also have "tq_released ?q + (length r - Suc n) = tq_used ?q - (n + 1)"
      using n len line_ok_counts [OF ok] by simp
    finally show ?thesis .
  qed
  have drop: "drop (n - 1) r = r ! (n - 1) # drop n r"
    using n Suc.prems(1) by (metis Cons_nth_drop_Suc Suc_pred' less_imp_diff_less)
  have IH: "last_char_loop tm ?q (n + 1) (r ! n) =
      (let m = min (length r) (n + 1 + length (takeWhile ?P (drop n r))) in (m, r ! (m - 1)))"
    using Suc.hyps(1) [of "n + 1"] Suc.hyps(2) n by simp
  show ?case
  proof (cases "?P (r ! (n - 1))")
    case True
    have "last_char_loop tm ?q n (r ! (n - 1)) = last_char_loop tm ?q (n + 1) (r ! n)"
      using True n len by (subst last_char_loop.simps) (simp add: nth)
    then show ?thesis using True IH by (simp only: drop) (simp add: Let_def)
  next
    case False
    have "last_char_loop tm ?q n (r ! (n - 1)) = (n, r ! (n - 1))"
      using False by (subst last_char_loop.simps) simp
    then show ?thesis using False n by (simp only: drop) (simp add: Let_def)
  qed
qed

lemma last_char:
  assumes ok: "line_ok tty" and ne: "ed_text (editor tty) \<noteq> []"
  shows "fst (ttyLastCharSizeLocked tty) = last_size (ty_termios tty) (ed_text (editor tty))"
    and "snd (ttyLastCharSizeLocked tty) = hd (last (chars (ty_termios tty) (ed_text (editor tty))))"
proof -
  let ?text = "ed_text (editor tty)" let ?r = "rev ?text" let ?q = "ty_queue tty" let ?tm = "ty_termios tty"
  have pos: "0 < length ?r" "Suc 0 \<le> length ?text" using ne by (simp_all add: Suc_le_eq)
  have "?r ! 0 = ?text ! (length ?text - 1)" using pos by (simp add: rev_nth)
  also have "\<dots> = cl_byte (ttyQueueCell ?q (tq_used ?q - 1))"
    using pos text_nth [OF ok, of "length ?text - 1"] line_ok_counts [OF ok] editor_lengths(2) [of tty] by simp
  finally have "cl_byte (ttyQueueCell ?q (tq_used ?q - 1)) = ?r ! 0" by simp
  then have eq: "ttyLastCharSizeLocked tty =
      (let m = min (length ?r) (1 + length (takeWhile (ttyByteContinues ?tm) ?r)) in (m, ?r ! (m - 1)))"
    using last_char_loop_eq [OF ok refl, of 1 ?tm] pos by (simp add: ttyLastCharSizeLocked_def Let_def)
  then show n: "fst (ttyLastCharSizeLocked tty) = last_size ?tm ?text" by (simp add: last_size_def Let_def)
  have "snd (ttyLastCharSizeLocked tty) = ?r ! (last_size ?tm ?text - 1)"
    using eq by (simp add: last_size_def Let_def)
  also have "\<dots> = ?text ! (length ?text - last_size ?tm ?text)"
    using pos by (simp add: rev_nth last_size_def)
  finally show "snd (ttyLastCharSizeLocked tty) = hd (last (chars ?tm ?text))"
    using chars_last(3) [OF ne] by simp
qed

lemma erase_edits:
  assumes ok: "line_ok (fst s)" and ne: "ed_text (editor (fst s)) \<noteq> []"
  shows "edits_to (fst s)
    ((editor (fst s))\<lparr>ed_text := concat (butlast (chars (ty_termios (fst s)) (ed_text (editor (fst s)))))\<rparr>)
    (fst (ttyEraseCharLocked b s))"
proof -
  let ?t = "fst s" let ?q = "ty_queue ?t" let ?text = "ed_text (editor ?t)" let ?tm = "ty_termios ?t"
  let ?m = "tq_used ?q - last_size ?tm ?text"
  have n: "last_size ?tm ?text \<le> length ?text" by (simp add: last_size_def)
  then have "edits_to ?t ((editor ?t)\<lparr>ed_text := take (?m - tq_released ?q) ?text\<rparr>)
      (?t\<lparr>ty_queue := ?q\<lparr>tq_used := ?m\<rparr>\<rparr>)"
    using line_ok_counts [OF ok] editor_lengths(2) [of ?t] by (intro edits_shorten [OF ok]) auto
  moreover have "?m - tq_released ?q = length ?text - last_size ?tm ?text" using editor_lengths(2) [of ?t] by simp
  ultimately have "edits_to ?t ((editor ?t)\<lparr>ed_text := concat (butlast (chars ?tm ?text))\<rparr>)
      (?t\<lparr>ty_queue := ?q\<lparr>tq_used := ?m\<rparr>\<rparr>)"
    using erase_char_text [OF ne] by simp
  moreover have "undisplayed (fst (ttyEraseCharLocked b s)) = undisplayed (?t\<lparr>ty_queue := ?q\<lparr>tq_used := ?m\<rparr>\<rparr>)"
    unfolding last_char(1) [OF ok ne, symmetric] by (rule undisplayed_erase)
  ultimately show ?thesis using edits_undisplayed by blast
qed

lemma edits_fields:
  assumes "edits_to t ed t'"
  shows "line_ok t'" "editor t' = ed" "ty_termios t' = ty_termios t"
  using assms others_eq(1) [of t' t] by (simp_all add: edits_to_def)

lemma erase_loop_edits:
  "line_ok (fst s) \<Longrightarrow> edits_to (fst s) ((editor (fst s))\<lparr>ed_text := []\<rparr>) (fst (erase_line_loop s))"
proof (induction s rule: erase_line_loop.induct)
  case (1 s)
  show ?case
  proof (cases "ed_text (editor (fst s)) = []")
    case True
    then show ?thesis
      using edits_same_text [OF 1(2) True] by (subst erase_line_loop.simps) (simp add: unfinished_text)
  next
    case False
    note e = erase_edits [OF 1(2) False, of True]
    have "edits_to (fst (ttyEraseCharLocked True s)) ((editor (fst (ttyEraseCharLocked True s)))\<lparr>ed_text := []\<rparr>)
        (fst (erase_line_loop (ttyEraseCharLocked True s)))"
      using 1(1) False edits_fields(1) [OF e] by (simp add: unfinished_text)
    then have "edits_to (fst s) ((editor (fst s))\<lparr>ed_text := []\<rparr>) (fst (erase_line_loop (ttyEraseCharLocked True s)))"
      using edits_trans [OF e] edits_fields(2) [OF e] by simp
    then show ?thesis using False by (subst erase_line_loop.simps) (simp add: unfinished_text)
  qed
qed

definition words_kept :: "bool \<Rightarrow> byte list list \<Rightarrow> byte list list" where
  "words_kept inside cs = rev (dropWhile in_word (if inside then rev cs else dropWhile (Not \<circ> in_word) (rev cs)))"

lemma words_kept_step:
  assumes "cs \<noteq> []"
  shows "words_kept inside cs =
    (if in_word (last cs) then words_kept True (butlast cs) else if inside then cs else words_kept inside (butlast cs))"
proof -
  obtain ds c where "cs = ds @ [c]" using assms by (metis append_butlast_last_id)
  then show ?thesis by (simp add: words_kept_def)
qed

lemma word_loop_edits:
  "line_ok (fst s) \<Longrightarrow> edits_to (fst s)
    ((editor (fst s))\<lparr>ed_text := concat (words_kept inside (chars (ty_termios (fst s)) (ed_text (editor (fst s)))))\<rparr>)
    (fst (word_erase_loop echo inside s))"
proof (induction echo inside s rule: word_erase_loop.induct)
  case (1 echo inside s)
  let ?ed = "editor (fst s)" let ?cs = "chars (ty_termios (fst s)) (ed_text ?ed)"
  show ?case
  proof (cases "ed_text ?ed = []")
    case True
    then show ?thesis
      using edits_same_text [OF 1(3) True] by (subst word_erase_loop.simps) (simp add: unfinished_text words_kept_def)
  next
    case False
    note e = erase_edits [OF 1(3) False, of echo]
    have word: "ttyByteInWord (snd (ttyLastCharSizeLocked (fst s))) = in_word (last ?cs)"
      unfolding last_char(2) [OF 1(3) False] in_word_def by (rule refl)
    let ?s' = "ttyEraseCharLocked echo s"
    have cs': "chars (ty_termios (fst ?s')) (ed_text (editor (fst ?s'))) = butlast ?cs"
      unfolding edits_fields(2,3) [OF e]
      by (simp add: erase_char_text [OF False, symmetric] chars_last(1) [OF False, symmetric])
    have keep: "edits_to (fst s) (?ed\<lparr>ed_text := concat ?cs\<rparr>) (fst s)"
      by (rule edits_same_text [OF 1(3)]) simp
    have rec: "edits_to (fst s) (?ed\<lparr>ed_text := concat (words_kept i (butlast ?cs))\<rparr>) (fst (word_erase_loop echo i ?s'))"
      if "edits_to (fst ?s') ((editor (fst ?s'))\<lparr>ed_text := concat (words_kept i
          (chars (ty_termios (fst ?s')) (ed_text (editor (fst ?s')))))\<rparr>) (fst (word_erase_loop echo i ?s'))" for i
      using edits_trans [OF e that] edits_fields(2) [OF e] cs' by simp
    have ok': "line_ok (fst ?s')" by (rule edits_fields(1) [OF e])
    have ne: "?cs \<noteq> []" using False by simp
    show ?thesis
    proof (cases "in_word (last ?cs)")
      case True
      then have "word_erase_loop echo inside s = word_erase_loop echo True ?s'"
        using False by (subst word_erase_loop.simps) (simp add: unfinished_text word)
      then show ?thesis using rec [OF 1(1)] True False ok' word by (simp add: unfinished_text words_kept_step [OF ne])
    next
      case False2: False
      show ?thesis
      proof (cases inside)
        case True
        then have "word_erase_loop echo inside s = s"
          using False False2 by (subst word_erase_loop.simps) (simp add: unfinished_text word)
        then show ?thesis using keep True False2 by (simp add: words_kept_step [OF ne])
      next
        case False3: False
        then have "word_erase_loop echo inside s = word_erase_loop echo inside ?s'"
          using False False2 by (subst word_erase_loop.simps) (simp add: unfinished_text word)
        then show ?thesis
          using rec [OF 1(2)] False False2 False3 ok' word by (simp add: unfinished_text words_kept_step [OF ne])
      qed
    qed
  qed
qed


subsection \<open>Text and line ends\<close>

lemma unfinished_cells:
  assumes "line_ok tty"
  shows "drop (tq_released (ty_queue tty)) (queue_cells (ty_queue tty)) = map text_cell (ed_text (editor tty))"
proof -
  have "c = text_cell (cl_byte c)" if "cl_kind c = TTY_CELL_BYTE" for c
    using that by (cases c) (simp add: text_cell_def)
  then show ?thesis using assms by (simp add: line_ok_def editor_def Let_def map_idI)
qed

lemma all_cells:
  assumes "line_ok tty"
  shows "queue_cells (ty_queue tty) = ed_done (editor tty) @ map text_cell (ed_text (editor tty))"
  unfolding unfinished_cells [OF assms, symmetric] by (simp add: editor_def Let_def)

lemma push_text_edits:
  assumes ok: "line_ok (fst s)" and room: "tq_used (ty_queue (fst s)) < TTY_BUF_SIZE"
  shows "edits_to (fst s) ((editor (fst s))\<lparr>ed_text := ed_text (editor (fst s)) @ [b]\<rparr>)
    (fst (push_byte b TTY_CELL_BYTE s))"
proof -
  let ?q = "ty_queue (fst s)"
  have cells: "queue_cells (ttyQueuePush b TTY_CELL_BYTE ?q) = queue_cells ?q @ [text_cell b]"
    using push_cells [OF line_ok_wf [OF ok] room] by (simp add: text_cell_def)
  have "line_ok (fst (push_byte b TTY_CELL_BYTE s))"
    using ok line_ok_counts [OF ok] push_wf [OF line_ok_wf [OF ok] room]
    by (auto simp: line_ok_def push_byte_def cells nth_append text_cell_def)
  then show ?thesis
    using line_ok_counts [OF ok] by (simp add: edits_to_def push_byte_def editor_def cells Let_def text_cell_def)
qed

lemma push_end_edits:
  assumes ok: "line_ok (fst s)" and room: "tq_used (ty_queue (fst s)) < TTY_BUF_SIZE" and k: "k \<noteq> TTY_CELL_BYTE"
  shows "edits_to (fst s)
    ((editor (fst s))\<lparr>ed_done := ed_done (editor (fst s)) @ map text_cell (ed_text (editor (fst s)))
        @ [\<lparr>cl_byte = b, cl_kind = k\<rparr>], ed_text := []\<rparr>)
    (fst (push_byte b k s))"
proof -
  let ?q = "ty_queue (fst s)"
  have cells: "queue_cells (ttyQueuePush b k ?q) = queue_cells ?q @ [\<lparr>cl_byte = b, cl_kind = k\<rparr>]"
    by (rule push_cells [OF line_ok_wf [OF ok] room])
  have "line_ok (fst (push_byte b k s))"
    using k push_wf [OF line_ok_wf [OF ok] room] by (simp add: line_ok_def push_byte_def cells nth_append)
  moreover have "editor (fst (push_byte b k s)) =
      \<lparr>ed_done = queue_cells ?q @ [\<lparr>cl_byte = b, cl_kind = k\<rparr>], ed_text = [], ed_literal = ty_literal_next (fst s)\<rparr>"
    using k by (simp add: push_byte_def editor_def cells Let_def)
  ultimately show ?thesis
    by (simp add: edits_to_def push_byte_def all_cells [OF ok]) (simp add: editor_def Let_def)
qed

text \<open>What a handler answers, compared with the editor: taken with the editor's new state, or not taken.\<close>

definition replies :: "Tty \<Rightarrow> typing \<times> bool \<Rightarrow> Editor option \<Rightarrow> bool" where
  "replies t r result =
     (case result of
        Some ed \<Rightarrow> snd r \<and> edits_to t ed (fst (fst r))
      | None \<Rightarrow> \<not> snd r \<and> edits_to t (editor t) (fst (fst r)))"

lemma answers_taken: "edits_to t ed (fst s) \<Longrightarrow> replies t (s, True) (Some ed)"
  by (simp add: replies_def)

lemma answers_undisplayed:
  "replies t (s, b) result \<Longrightarrow> undisplayed (fst s') = undisplayed (fst s) \<Longrightarrow> replies t (s', b) result"
  using edits_undisplayed [of "fst s'" "fst s"] by (auto simp: replies_def split: option.splits)

lemma push_plain_edits:
  assumes ok: "line_ok (fst s)" and room: "tq_used (ty_queue (fst s)) < TTY_BUF_SIZE"
  shows "edits_to (fst s) ((editor (fst s))\<lparr>ed_text := ed_text (editor (fst s)) @
      (if ttyInputDoubles (ty_termios (fst s)) b \<and> filled (editor (fst s)) + 2 < TTY_BUF_SIZE then [b, b] else [b])\<rparr>)
    (fst (push_plain b s))"
proof -
  note p = push_text_edits [OF ok room, of b]
  let ?s1 = "push_byte b TTY_CELL_BYTE s"
  have used: "tq_used (ty_queue (fst ?s1)) = tq_used (ty_queue (fst s)) + 1" by (simp add: push_byte_def)
  show ?thesis
  proof (cases "ttyInputDoubles (ty_termios (fst s)) b \<and> filled (editor (fst s)) + 2 < TTY_BUF_SIZE")
    case True
    then have "edits_to (fst ?s1) ((editor (fst ?s1))\<lparr>ed_text := ed_text (editor (fst ?s1)) @ [b]\<rparr>)
        (fst (push_byte b TTY_CELL_BYTE ?s1))"
      using edits_fields(1) [OF p] editor_lengths(3) [OF ok] used by (intro push_text_edits) simp_all
    then have "edits_to (fst s) ((editor (fst s))\<lparr>ed_text := ed_text (editor (fst s)) @ [b, b]\<rparr>)
        (fst (push_byte b TTY_CELL_BYTE ?s1))"
      using edits_trans [OF p] edits_fields(2) [OF p] by simp
    then show ?thesis
      using True edits_fields(3) [OF p] editor_lengths(3) [OF ok] used by (simp add: push_plain_def Let_def)
  next
    case False
    then show ?thesis
      using p edits_fields(3) [OF p] editor_lengths(3) [OF ok] used by (auto simp: push_plain_def Let_def)
  qed
qed

lemma plain_answers:
  assumes ok: "line_ok (fst s)"
  shows "replies (fst s) (ttyInputPlainByteLocked b s) (add_text (ty_termios (fst s)) b (editor (fst s)))"
proof -
  let ?q = "ty_queue (fst s)" let ?ed = "editor (fst s)"
  have filled: "filled ?ed = tq_used ?q" and none: "ed_done ?ed = [] \<longleftrightarrow> tq_released ?q = 0"
    using editor_lengths(3) [OF ok] done_empty [OF ok] by simp_all
  have le: "tq_used ?q \<le> TTY_BUF_SIZE" using line_ok_counts [OF ok] by simp
  show ?thesis
  proof (cases "plain_fate_of ?q")
    case Keep
    then have room: "tq_used ?q < TTY_BUF_SIZE" using le by (auto simp: plain_fate_of_def split: if_splits)
    have "replies (fst s) (push_plain b s, True) (add_text (ty_termios (fst s)) b ?ed)"
      using push_plain_edits [OF ok room, of b] Keep room none filled
      by (auto simp: replies_def add_text_def plain_fate_of_def split: if_splits)
    then show ?thesis
      by (auto simp: ttyInputPlainByteLocked_def Keep Let_def intro: answers_undisplayed)
  next
    case Drop
    then have "replies (fst s) (s, True) (add_text (ty_termios (fst s)) b ?ed)"
      using none filled le ok by (auto simp: replies_def add_text_def plain_fate_of_def edits_refl split: if_splits)
    then show ?thesis
      by (auto simp: ttyInputPlainByteLocked_def Drop Let_def intro: answers_undisplayed)
  next
    case Wait
    then show ?thesis
      using none filled le ok
      by (auto simp: ttyInputPlainByteLocked_def replies_def add_text_def plain_fate_of_def edits_refl Let_def
          split: if_splits)
  qed
qed

lemma make_room_edits:
  assumes ok: "line_ok (fst s)" and k: "k \<noteq> TTY_CELL_BYTE"
  shows "case end_line \<lparr>cl_byte = b, cl_kind = k\<rparr> (editor (fst s)) of
      None \<Rightarrow> ttyMakeRoomForLineEndLocked s = (s, False)
    | Some ed \<Rightarrow> snd (ttyMakeRoomForLineEndLocked s)
        \<and> edits_to (fst s) ed (fst (push_byte b k (fst (ttyMakeRoomForLineEndLocked s))))"
proof -
  let ?q = "ty_queue (fst s)" let ?ed = "editor (fst s)"
  have filled: "filled ?ed = tq_used ?q" and none: "ed_done ?ed = [] \<longleftrightarrow> tq_released ?q = 0"
    using editor_lengths(3) [OF ok] done_empty [OF ok] by simp_all
  have le: "tq_used ?q \<le> TTY_BUF_SIZE" using line_ok_counts [OF ok] by simp
  show ?thesis
  proof (cases "tq_used ?q < TTY_BUF_SIZE")
    case True
    then show ?thesis
      using push_end_edits [OF ok True k, of b] filled
      by (simp add: end_line_def ttyMakeRoomForLineEndLocked_def Let_def)
  next
    case False
    show ?thesis
    proof (cases "tq_released ?q = 0")
      case True
      let ?s1 = "apfst (\<lambda>tty. tty\<lparr>ty_queue := ttyQueueDropLast ?q\<rparr>) s"
      have e: "edits_to (fst s) (?ed\<lparr>ed_text := butlast (ed_text ?ed)\<rparr>) (fst ?s1)"
        using edits_shorten [OF ok, of "tq_used ?q - 1"] True editor_lengths(2) [of "fst s"]
        by (simp add: ttyQueueDropLast_def butlast_conv_take apfst_def map_prod_def split_beta)
      have "tq_used (ty_queue (fst ?s1)) < TTY_BUF_SIZE" using False le by (simp add: ttyQueueDropLast_def)
      then have "edits_to (fst s) (?ed\<lparr>ed_done := map text_cell (butlast (ed_text ?ed)) @ [\<lparr>cl_byte = b, cl_kind = k\<rparr>],
          ed_text := []\<rparr>) (fst (push_byte b k ?s1))"
        using push_end_edits [OF edits_fields(1) [OF e] _ k, of b] edits_trans [OF e] edits_fields(2) [OF e] True none
        by simp
      then show ?thesis
        using False True none filled by (simp add: end_line_def ttyMakeRoomForLineEndLocked_def Let_def)
    next
      case False2: False
      then show ?thesis
        using False none filled by (simp add: end_line_def ttyMakeRoomForLineEndLocked_def Let_def)
    qed
  qed
qed

lemma end_answers:
  assumes "line_ok (fst s)" "k \<noteq> TTY_CELL_BYTE"
    and "\<And>s0 s'. undisplayed (fst (f s0 s')) = undisplayed (fst s')"
  shows "replies (fst s)
    (let (s, room) = ttyMakeRoomForLineEndLocked s in if \<not> room then (s, False) else (f s (push_byte b k s), True))
    (end_line \<lparr>cl_byte = b, cl_kind = k\<rparr> (editor (fst s)))"
  using make_room_edits [OF assms(1,2), of b] assms(1,3)
  by (cases "end_line \<lparr>cl_byte = b, cl_kind = k\<rparr> (editor (fst s))")
    (auto simp: replies_def edits_refl split_beta edits_undisplayed [OF assms(3)])

lemma fst_line_ended [simp]: "fst (ttyLineEndedLocked s) = fst s"
  by (simp add: ttyLineEndedLocked_def)

lemma eof_answers:
  "line_ok (fst s) \<Longrightarrow> replies (fst s) (ttyInputEofKey s)
    (end_line \<lparr>cl_byte = 0, cl_kind = TTY_CELL_EOF_MARK\<rparr> (editor (fst s)))"
  using end_answers [of s TTY_CELL_EOF_MARK "\<lambda>s0. ttyLineEndedLocked" 0] by (simp add: ttyInputEofKey_def)

lemma line_end_answers:
  assumes "line_ok (fst s)"
  shows "replies (fst s) (ttyInputLineEnd b s) (end_line \<lparr>cl_byte = b, cl_kind = TTY_CELL_LINE_END\<rparr> (editor (fst s)))"
  unfolding ttyInputLineEnd_def Let_def [of "\<not> ttyQueueHasUnfinished _"] Let_def [of "tm_lflags _"]
    Let_def [of "ttyLineEndedLocked _"]
  by (rule end_answers [OF assms]) simp_all

lemma clear_edits:
  "line_ok t \<Longrightarrow> edits_to t (emptied (editor t)) (ttyQueueClearLocked t)"
  by (simp add: edits_to_def line_ok_def ttyQueueClearLocked_def cleared_wf editor_def emptied_def Let_def
      others_def undisplayed_def)

lemma reader_key_answers:
  assumes ok: "line_ok (fst s)"
  shows "replies (fst s) (ttyInputReaderKey b s)
    (end_line \<lparr>cl_byte = b, cl_kind = TTY_CELL_LINE_END\<rparr>
       (if flag (tm_lflags (ty_termios (fst s))) NOFLSH then editor (fst s) else emptied (editor (fst s))))"
proof -
  let ?tm = "ty_termios (fst s)"
  let ?f = "\<lambda>s. if flag (tm_lflags ?tm) ECHO \<and> ttyShowsAsControl ?tm b then
      if ttyByteIs ?tm b VINTR then ttyEchoOutputLocked 0x0A (ttyEchoCharLocked b s) else ttyEchoCharLocked b s else s"
  let ?s1 = "if \<not> flag (tm_lflags ?tm) NOFLSH then apfst ttyQueueClearLocked s else s"
  have run: "ttyInputReaderKey b s = (let (s, room) = ttyMakeRoomForLineEndLocked ?s1 in
      if \<not> room then (s, False) else (?f (ttyLineEndedLocked (push_byte b TTY_CELL_LINE_END s)), True))"
    by (simp add: ttyInputReaderKey_def Let_def split_beta)
  have e: "edits_to (fst s) (if flag (tm_lflags ?tm) NOFLSH then editor (fst s) else emptied (editor (fst s))) (fst ?s1)"
    using ok by (simp add: edits_refl clear_edits)
  have "replies (fst ?s1) (ttyInputReaderKey b s)
      (end_line \<lparr>cl_byte = b, cl_kind = TTY_CELL_LINE_END\<rparr> (editor (fst ?s1)))"
    unfolding run by (rule end_answers [OF edits_fields(1) [OF e]]) simp_all
  then show ?thesis
    unfolding edits_fields(2) [OF e]
    using edits_trans [OF e] make_room_edits ok
    by (auto simp: replies_def edits_fields(2) [OF e] end_line_def emptied_def filled_def
        split: option.splits if_splits)
qed

lemma signal_edits:
  "line_ok (fst s) \<Longrightarrow> edits_to (fst s)
    (if ty_fg_group (fst s) \<noteq> 0 \<and> \<not> flag (tm_lflags (ty_termios (fst s))) NOFLSH
     then emptied (editor (fst s)) else editor (fst s)) (fst (ttySignalKeyLocked i s))"
  by (auto simp: ttySignalKeyLocked_def Let_def edits_refl clear_edits)

text \<open>The editing keys.\<close>

lemma edits_nothing_typed:
  "line_ok t \<Longrightarrow> ed_text (editor t) = [] \<Longrightarrow> edits_to t ((editor t)\<lparr>ed_text := []\<rparr>) t"
  by (rule edits_same_text)

lemma erase_key_edits:
  assumes ok: "line_ok (fst s)"
  shows "edits_to (fst s)
    ((editor (fst s))\<lparr>ed_text := concat (butlast (chars (ty_termios (fst s)) (ed_text (editor (fst s)))))\<rparr>)
    (fst (ttyInputEraseKeyLocked b s))"
proof (cases "ed_text (editor (fst s)) = []")
  case True
  then show ?thesis using edits_same_text [OF ok True] by (simp add: ttyInputEraseKeyLocked_def unfinished_text Let_def)
next
  case False
  show ?thesis
    using erase_edits [OF ok False] False
    by (auto simp: ttyInputEraseKeyLocked_def unfinished_text Let_def edits_undisplayed [OF undisplayed_echo(1)])
qed

lemma kill_key_edits:
  assumes ok: "line_ok (fst s)"
  shows "edits_to (fst s) ((editor (fst s))\<lparr>ed_text := []\<rparr>) (fst (ttyInputKillKeyLocked b s))"
proof (cases "ed_text (editor (fst s)) = []")
  case True
  then show ?thesis using edits_same_text [OF ok True] by (simp add: ttyInputKillKeyLocked_def unfinished_text Let_def)
next
  case False
  let ?t = "fst s" let ?q = "ty_queue ?t"
  let ?loop = "flag (tm_lflags (ty_termios ?t)) ECHO
      \<and> tm_lflags (ty_termios ?t) AND (ECHOE OR ECHOK OR ECHOKE) = ECHOE OR ECHOK OR ECHOKE"
  show ?thesis
  proof (cases ?loop)
    case True
    then show ?thesis
      using erase_loop_edits [OF ok] False by (simp add: ttyInputKillKeyLocked_def unfinished_text Let_def)
  next
    case notloop: False
    have cut: "edits_to ?t ((editor ?t)\<lparr>ed_text := []\<rparr>) (?t\<lparr>ty_queue := ?q\<lparr>tq_used := tq_released ?q\<rparr>\<rparr>)"
      using edits_shorten [OF ok, of "tq_released ?q"] line_ok_counts [OF ok] by simp
    have "undisplayed (fst (ttyInputKillKeyLocked b s)) = undisplayed (?t\<lparr>ty_queue := ?q\<lparr>tq_used := tq_released ?q\<rparr>\<rparr>)"
      using notloop False by (auto simp: ttyInputKillKeyLocked_def unfinished_text Let_def)
    then show ?thesis using cut edits_undisplayed by blast
  qed
qed

lemma word_key_edits:
  "line_ok (fst s) \<Longrightarrow> edits_to (fst s)
    ((editor (fst s))\<lparr>ed_text := concat (words_kept False (chars (ty_termios (fst s)) (ed_text (editor (fst s)))))\<rparr>)
    (fst (ttyInputWordEraseKeyLocked s))"
  unfolding ttyInputWordEraseKeyLocked_def by (rule word_loop_edits)

lemma undisplayed_reprint_loop [simp]:
  "undisplayed (fst (fold (\<lambda>i. ttyEchoCharLocked (g i)) is s)) = undisplayed (fst s)"
  by (induction "is" arbitrary: s) simp_all

lemma reprint_undisplayed: "undisplayed (fst (ttyInputReprintKeyLocked b s)) = undisplayed (fst s)"
  by (simp add: ttyInputReprintKeyLocked_def Let_def)

lemma close_undisplayed [simp]: "undisplayed (fst (close_erase_when_empty s)) = undisplayed (fst s)"
  by (simp add: close_erase_when_empty_def)

lemma quote_edits:
  "line_ok t \<Longrightarrow> edits_to t ((editor t)\<lparr>ed_literal := True\<rparr>) (t\<lparr>ty_literal_next := True\<rparr>)"
  by (simp add: edits_to_def line_ok_def editor_def Let_def)


subsection \<open>A byte in line mode\<close>

lemma editing_key_answers:
  assumes ok: "line_ok (fst s)" and key: "ttyInputEditingKey b s = Some s'" and some: "line_byte tm b0 = Some b"
    and tm: "tm = ty_termios (fst s)"
  shows "replies (fst s) (s', True) (edit tm fg (key_of tm reader b0) (editor (fst s)))"
proof -
  let ?ed = "editor (fst s)"
  have closing: "replies (fst s) (close_erase_when_empty s1, True) (Some ed)"
    if "edits_to (fst s) ed (fst s1)" for s1 ed
    using answers_undisplayed [OF answers_taken [OF that]] by simp
  have erase: "replies (fst s) (close_erase_when_empty (ttyInputEraseKeyLocked b s), True) (edit tm fg Erase ?ed)"
    using closing [OF erase_key_edits [OF ok]] by (simp add: edit_def tm)
  have kill: "replies (fst s) (close_erase_when_empty (ttyInputKillKeyLocked b s), True) (edit tm fg Kill ?ed)"
    using closing [OF kill_key_edits [OF ok]] by (simp add: edit_def)
  have word: "replies (fst s) (close_erase_when_empty (ttyInputWordEraseKeyLocked s), True) (edit tm fg WordErase ?ed)"
    using closing [OF word_key_edits [OF ok]] by (simp add: edit_def tm words_kept_def)
  have reprint: "replies (fst s) (ttyInputReprintKeyLocked b s, True) (edit tm fg Reprint ?ed)"
    using answers_undisplayed [OF answers_taken [OF edits_refl [OF ok]] reprint_undisplayed] by (simp add: edit_def)
  have quote: "replies (fst s) (s1, True) (edit tm fg Quote ?ed)"
    if "undisplayed (fst s1) = undisplayed ((fst s)\<lparr>ty_literal_next := True\<rparr>)" for s1
  proof -
    have "edits_to (fst s) (?ed\<lparr>ed_literal := True\<rparr>) (fst s1)"
      using quote_edits [OF ok] edits_undisplayed [OF that] by simp
    then show ?thesis using answers_taken by (simp add: edit_def)
  qed
  let ?ext = "flag (tm_lflags tm) IEXTEN" let ?echo = "flag (tm_lflags tm) ECHO"
  consider "ttyByteIs tm b VERASE"
    | "\<not> ttyByteIs tm b VERASE" "ttyByteIs tm b VKILL"
    | "\<not> ttyByteIs tm b VERASE" "\<not> ttyByteIs tm b VKILL" "?ext \<and> ttyByteIs tm b VWERASE"
    | "\<not> ttyByteIs tm b VERASE" "\<not> ttyByteIs tm b VKILL" "\<not> (?ext \<and> ttyByteIs tm b VWERASE)"
      "?ext \<and> ?echo \<and> ttyByteIs tm b VREPRINT"
    | "\<not> ttyByteIs tm b VERASE" "\<not> ttyByteIs tm b VKILL" "\<not> (?ext \<and> ttyByteIs tm b VWERASE)"
      "\<not> (?ext \<and> ?echo \<and> ttyByteIs tm b VREPRINT)" "?ext \<and> ttyByteIs tm b VLNEXT"
    using key by (auto simp: ttyInputEditingKey_def tm Let_def split: if_split_asm)
  then show ?thesis
  proof cases
    case 1
    then show ?thesis using key some erase by (simp add: ttyInputEditingKey_def key_of_def Let_def tm)
  next
    case 2
    then show ?thesis using key some kill by (simp add: ttyInputEditingKey_def key_of_def Let_def tm)
  next
    case 3
    then show ?thesis using key some word by (simp add: ttyInputEditingKey_def key_of_def Let_def tm)
  next
    case 4
    then have "s' = ttyInputReprintKeyLocked b s" "key_of tm reader b0 = Reprint"
      using key some by (auto simp: ttyInputEditingKey_def key_of_def Let_def tm)
    then show ?thesis using reprint by simp
  next
    case 5
    then have "undisplayed (fst s') = undisplayed ((fst s)\<lparr>ty_literal_next := True\<rparr>)" "key_of tm reader b0 = Quote"
      using key some by (auto simp: ttyInputEditingKey_def key_of_def Let_def tm)
    then show ?thesis using quote by simp
  qed
qed

lemma not_editing_answers:
  assumes ok: "line_ok (fst s)" and key: "ttyInputEditingKey b s = None" and some: "line_byte tm b0 = Some b"
    and tm: "tm = ty_termios (fst s)"
  shows "replies (fst s) (ttyInputNotEditing b s)
    (edit tm (ty_fg_group (fst s) \<noteq> 0) (key_of tm (ty_session_reader (fst s)) b0) (editor (fst s)))"
proof -
  have none: "\<not> ttyByteIs tm b VERASE" "\<not> ttyByteIs tm b VKILL"
    "\<not> (flag (tm_lflags tm) IEXTEN \<and> ttyByteIs tm b VWERASE)"
    "\<not> (flag (tm_lflags tm) IEXTEN \<and> flag (tm_lflags tm) ECHO \<and> ttyByteIs tm b VREPRINT)"
    "\<not> (flag (tm_lflags tm) IEXTEN \<and> ttyByteIs tm b VLNEXT)"
    using key by (auto simp: ttyInputEditingKey_def tm Let_def split: if_split_asm)
  have signal: "replies (fst s) (if flag (tm_lflags tm) ECHO then ttyEchoCharLocked b (ttySignalKeyLocked i s)
      else ttySignalKeyLocked i s, True) (edit tm (ty_fg_group (fst s) \<noteq> 0) (SignalKey i) (editor (fst s)))" for i
    using answers_undisplayed [OF answers_taken [OF signal_edits [OF ok, of i]]] by (simp add: edit_def tm)
  show ?thesis
    unfolding ttyInputNotEditing_def key_of_def some option.case Let_def tm [symmetric] if_not_P [OF none(1)]
      if_not_P [OF none(2)] if_not_P [OF none(3)] if_not_P [OF none(4)] if_not_P [OF none(5)]
    using eof_answers [OF ok] line_end_answers [OF ok] reader_key_answers [OF ok] signal plain_answers [OF ok]
    by (auto simp: edit_def tm split: option.split)
qed

lemma line_byte_refines:
  assumes ok: "line_ok (fst s)"
  shows "replies (fst s) (ttyInputLineByteLocked b s)
    (edit_byte (ty_termios (fst s)) (ty_session_reader (fst s)) (ty_fg_group (fst s) \<noteq> 0) b (editor (fst s)))"
proof (cases "ty_literal_next (fst s)")
  case True
  then have lit: "ed_literal (editor (fst s))" by (simp add: editor_def Let_def)
  have plain: "replies (fst s) (ttyInputPlainByteLocked (ttyInputMapped (ty_termios (fst s)) b) s)
      (add_text (ty_termios (fst s)) (ttyInputMapped (ty_termios (fst s)) b) (editor (fst s)))"
    by (rule plain_answers [OF ok])
  have "edits_to t (ed\<lparr>ed_literal := False\<rparr>) (t'\<lparr>ty_literal_next := False\<rparr>)" if "edits_to t ed t'" for t ed t'
    using that by (auto simp: edits_to_def line_ok_def editor_def Let_def)
  then show ?thesis
    using plain True lit
    by (auto simp: ttyInputLineByteLocked_def edit_byte_def replies_def Let_def split_beta split: option.splits)
next
  case False
  then have lit: "\<not> ed_literal (editor (fst s))" by (simp add: editor_def Let_def)
  let ?tm = "ty_termios (fst s)" let ?b = "ttyInputMapped ?tm b"
  show ?thesis
  proof (cases "line_byte ?tm ?b")
    case None
    then show ?thesis
      using False lit ok by (simp add: ttyInputLineByteLocked_def edit_byte_def key_of_def edit_def replies_def
          edits_refl Let_def)
  next
    case (Some b')
    show ?thesis
    proof (cases "ttyInputEditingKey b' s")
      case None
      then show ?thesis
        using not_editing_answers [OF ok None Some refl] False lit Some
        by (simp add: ttyInputLineByteLocked_def edit_byte_def Let_def)
    next
      case (Some s')
      then show ?thesis
        using editing_key_answers [OF ok Some \<open>line_byte ?tm ?b = Some b'\<close> refl] False lit
          \<open>line_byte ?tm ?b = Some b'\<close>
        by (simp add: ttyInputLineByteLocked_def edit_byte_def Let_def)
    qed
  qed
qed

end
