(* ===== verification/TtyFile.thy ===== *)
theory TtyFile
  imports TtyEdit
begin

unbundle bit_operations_syntax

section \<open>A terminal as an open file\<close>

text \<open>
  The rest of \<open>pscal_tty.c\<close> for one terminal: \<open>tty_input\<close>, reading, writing, polling, the change of modes and the
  requests on the queue. One stretch of code under the terminal's lock is one function here; a call that has to
  wait, or that lets go of the lock to hand out what it has collected, ends its stretch and is entered again. What
  the waits answer (that a timer ran out, or that something may have changed) is an argument. Sections that the
  source repeats (copying out of the queue) are one definition.
\<close>

datatype tty_error =
  EPERM | ENOENT | ESRCH | EINTR | EIO | ENXIO | EAGAIN | ENOMEM | EFAULT | EBUSY | EINVAL | ENOTTY | ENOSPC

subsection \<open>Input\<close>

text \<open>The inner loop, up to the first byte that has to wait; the bytes left over.\<close>

fun input_bytes :: "byte list \<Rightarrow> typing \<Rightarrow> typing \<times> byte list" where
  "input_bytes [] s = (s, [])"
| "input_bytes (b # bs) s =
     (let r = ttyInputByteLocked b s in if snd r then input_bytes bs (fst r) else (fst r, b # bs))"

datatype input_end = InputReturns "tty_error + nat" | InputFlushed | InputWaits

definition announce :: "typing \<Rightarrow> typing" where
  "announce s =
     (if \<not> ttyLineModeLocked (fst s) \<and> \<not> rn_announced (snd s)
      then apsnd (\<lambda>run. run\<lparr>rn_wake_pollers := True, rn_announced := True\<rparr>) s else s)"

definition input_result :: "bool \<Rightarrow> bool \<Rightarrow> nat \<Rightarrow> tty_error + nat" where
  "input_result blocking hung_up consumed =
     (if 0 < consumed then Inr consumed else Inl (if blocking \<and> hung_up then EIO else EAGAIN))"

definition finish_input :: "typing \<Rightarrow> typing" where
  "finish_input s =
     ttyRunFlushLocked True
       (if \<not> ttyLineModeLocked (fst s) \<and> 0 < tq_used (ty_queue (fst s)) then ttyLineEndedLocked s else s)"

text \<open>One stretch of \<open>tty_input\<close>: \<open>len\<close> is the length of the whole input, \<open>rest\<close> what is not consumed yet.\<close>

definition tty_input :: "bool \<Rightarrow> nat \<Rightarrow> byte list \<Rightarrow> typing \<Rightarrow> typing \<times> byte list \<times> input_end" where
  "tty_input blocking len rest s =
     (let (s, rest) = input_bytes rest s in
      if rest = [] \<or> \<not> blocking \<or> ty_hung_up (fst s) then
        (finish_input s, rest, InputReturns (input_result blocking (ty_hung_up (fst s)) (len - length rest)))
      else
        let s = announce s in
        if pending (rn_signals (snd s)) (snd s) then (ttyRunFlushLocked True s, rest, InputFlushed)
        else (apsnd (\<lambda>run. run\<lparr>rn_announced := False\<rparr>) s, rest, InputWaits))"

definition tty_input_nonblocking :: "byte list \<Rightarrow> Tty \<Rightarrow> Tty \<times> (tty_error + nat) \<times> effect list" where
  "tty_input_nonblocking input tty =
     (if input = [] then (tty, Inr 0, [])
      else
        case tty_input False (length input) input (tty, new_run) of
          (s, rest, end_of_stretch) \<Rightarrow>
            (fst s, case end_of_stretch of InputReturns r \<Rightarrow> r | _ \<Rightarrow> Inl EAGAIN, rn_effects (snd s)))"

subsection \<open>Reading\<close>

text \<open>Up to \<open>n\<close> cells of a line: the bytes, and whether a line's end stopped it.\<close>

fun copy_line :: "nat \<Rightarrow> TtyQueue \<Rightarrow> byte list \<times> bool \<times> TtyQueue" where
  "copy_line 0 q = ([], False, q)"
| "copy_line (Suc n) q =
     (if 0 < tq_used q \<and> \<not> ttyQueueHeadIsMark q then
        let (cell, q) = ttyQueuePop q in
        if cl_kind cell = TTY_CELL_LINE_END then ([cl_byte cell], True, q)
        else let (out, ended, q) = copy_line n q in (cl_byte cell # out, ended, q)
      else ([], False, q))"

definition ttyCopyLineLocked :: "nat \<Rightarrow> Tty \<Rightarrow> Tty \<times> byte list" where
  "ttyCopyLineLocked n tty =
     (let (out, ended, q) = copy_line n (ty_queue tty);
          tty = (if out = [] then tty\<lparr>ty_eof_reads := ty_eof_reads tty + 1\<rparr> else tty);
          q = (if ttyQueueHeadIsMark q \<and> \<not> ended then snd (ttyQueuePop q) else q) in
      (tty\<lparr>ty_queue := q\<rparr>, out))"

fun copy_raw :: "nat \<Rightarrow> TtyQueue \<Rightarrow> byte list \<times> TtyQueue" where
  "copy_raw 0 q = ([], q)"
| "copy_raw (Suc n) q =
     (if 0 < tq_used q then
        let (cell, q) = ttyQueuePop q; (out, q) = copy_raw n q in (cl_byte cell # out, q)
      else ([], q))"

definition ttyCopyRawLocked :: "nat \<Rightarrow> Tty \<Rightarrow> Tty \<times> byte list" where
  "ttyCopyRawLocked n tty = (let (out, q) = copy_raw n (ty_queue tty) in (tty\<lparr>ty_queue := q\<rparr>, out))"

datatype read_end = ReadReturns "tty_error + byte list" | ReadWaits bool

definition returns_copy :: "Tty \<times> byte list \<Rightarrow> Tty \<times> read_end" where
  "returns_copy = apsnd (\<lambda>out. ReadReturns (Inr out))"

definition ttyReadMasterLocked :: "bool \<Rightarrow> nat \<Rightarrow> Tty \<Rightarrow> Tty \<times> read_end" where
  "ttyReadMasterLocked nonblocking n tty =
     (if ttyIsDownLocked tty then (tty, ReadReturns (Inr []))
      else if ty_packet_mode tty \<and> ty_packet_status tty \<noteq> 0
      then (tty\<lparr>ty_packet_status := 0\<rparr>, ReadReturns (Inr [ty_packet_status tty]))
      else if 0 < tq_used (ty_queue tty) then
        if \<not> ty_packet_mode tty then returns_copy (ttyCopyRawLocked n tty)
        else if 1 < n then returns_copy (apsnd (Cons 0) (ttyCopyRawLocked (n - 1) tty))
        else (tty, ReadReturns (Inr [0]))
      else (tty, if nonblocking then ReadReturns (Inl EAGAIN) else ReadWaits False))"

text \<open>The timer of a slave's read: whether it runs and the fill of the queue it was started at. \<open>timed_out\<close>: the
  wait the stretch comes from ended with \<open>ETIMEDOUT\<close>. \<open>ReadWaits True\<close> is a wait with a deadline.\<close>

record ReadTimer =
  rt_timing :: bool
  rt_timed_from :: nat

definition ttyReadSlaveLocked ::
    "bool \<Rightarrow> nat \<Rightarrow> bool \<Rightarrow> ReadTimer \<Rightarrow> Tty \<Rightarrow> ReadTimer \<times> Tty \<times> read_end" where
  "ttyReadSlaveLocked nonblocking n timed_out timer tty =
     (let q = ty_queue tty;
          minimum = unat (tm_cc (ty_termios tty) ! VMIN);
          tenths = unat (tm_cc (ty_termios tty) ! VTIME) in
      if timed_out then (timer, returns_copy (ttyCopyRawLocked n tty))
      else if ttyIsDownLocked tty then (timer, tty, ReadReturns (Inr []))
      else if ttyLineModeLocked tty then
        if 0 < tq_released q then (timer, returns_copy (ttyCopyLineLocked n tty))
        else (timer, tty, if nonblocking then ReadReturns (Inl EAGAIN) else ReadWaits False)
      else if minimum = 0 then
        if 0 < tq_used q then (timer, returns_copy (ttyCopyRawLocked n tty))
        else if tenths = 0 then (timer, tty, ReadReturns (Inr []))
        else if nonblocking then (timer, tty, ReadReturns (Inl EAGAIN))
        else (timer\<lparr>rt_timing := True\<rparr>, tty, ReadWaits True)
      else if min minimum n \<le> tq_used q then (timer, returns_copy (ttyCopyRawLocked n tty))
      else if nonblocking then
        (timer, if 0 < tq_used q then returns_copy (ttyCopyRawLocked n tty) else (tty, ReadReturns (Inl EAGAIN)))
      else if 0 < tq_used q \<and> 0 < tenths then
        (if \<not> rt_timing timer \<or> tq_used q \<noteq> rt_timed_from timer
         then \<lparr>rt_timing = True, rt_timed_from = tq_used q\<rparr> else timer, tty, ReadWaits True)
      else (timer\<lparr>rt_timing := False\<rparr>, tty, ReadWaits False))"

definition no_timer :: ReadTimer where
  "no_timer = \<lparr>rt_timing = False, rt_timed_from = 0\<rparr>"

text \<open>\<open>ttyFileRead\<close> without waiting: what job control answers (\<open>ttyJobControlCheck\<close>) is an argument.\<close>

definition ttyFileReadNonblocking :: "tty_error option \<Rightarrow> nat \<Rightarrow> Tty \<Rightarrow> Tty \<times> (tty_error + byte list)" where
  "ttyFileReadNonblocking job_control n tty =
     (if ttyIsDownLocked tty then (tty, Inr [])
      else
        case (if ty_is_master tty then None else job_control) of
          Some e \<Rightarrow> (tty, Inl e)
        | None \<Rightarrow>
            if n = 0 then (tty, Inr [])
            else
              let (tty, r) = (if ty_is_master tty then ttyReadMasterLocked True n tty
                              else snd (ttyReadSlaveLocked True n False no_timer tty)) in
              (tty, case r of ReadReturns x \<Rightarrow> x | ReadWaits _ \<Rightarrow> Inl EAGAIN))"

subsection \<open>Writing\<close>

definition TTY_OUTPUT_MAX :: nat where
  "TTY_OUTPUT_MAX = 8"

definition TTY_WRITE_CHUNK :: nat where
  "TTY_WRITE_CHUNK = 1024"

text \<open>Output processing of one bufferful under the lock: the input left, and the buffer.\<close>

fun fill_chunk :: "byte list \<Rightarrow> byte list \<Rightarrow> Tty \<Rightarrow> Tty \<times> byte list \<times> byte list" where
  "fill_chunk [] chunk tty = (tty, [], chunk)"
| "fill_chunk (b # bs) chunk tty =
     (if length chunk + TTY_OUTPUT_MAX \<le> TTY_WRITE_CHUNK then
        let (tty, out) = ttyOutputByteLocked b tty in fill_chunk bs (chunk @ out) tty
      else (tty, b # bs, chunk))"

lemma fill_chunk_shorter:
  "length chunk + TTY_OUTPUT_MAX \<le> TTY_WRITE_CHUNK \<Longrightarrow> bs \<noteq> [] \<Longrightarrow>
    length (fst (snd (fill_chunk bs chunk tty))) < length bs"
proof -
  have le: "length (fst (snd (fill_chunk bs chunk tty))) \<le> length bs" for bs chunk tty
    by (induction bs chunk tty rule: fill_chunk.induct) (auto simp: split_beta le_SucI)
  show "length chunk + TTY_OUTPUT_MAX \<le> TTY_WRITE_CHUNK \<Longrightarrow> bs \<noteq> [] \<Longrightarrow>
      length (fst (snd (fill_chunk bs chunk tty))) < length bs"
    by (cases bs) (auto simp: split_beta le_imp_less_Suc [OF le])
qed

text \<open>What handing a bufferful to the other side (\<open>tty_input\<close>) does is the argument \<open>deliver\<close>, on the state \<open>'w\<close> it
  changes. The result is the length asked for or an error.\<close>

function ttyWriteThrough ::
    "(byte list \<Rightarrow> 'w \<Rightarrow> 'w \<times> (tty_error + nat)) \<Rightarrow> byte list \<Rightarrow> bool \<Rightarrow> Tty \<Rightarrow> 'w \<Rightarrow> Tty \<times> 'w \<times> tty_error option" where
  "ttyWriteThrough deliver bs delivered tty w =
     (if bs = [] then (tty, w, None)
      else
        let c = fill_chunk bs [] tty; tty = fst c; rest = fst (snd c); chunk = snd (snd c) in
        if chunk = [] then ttyWriteThrough deliver rest delivered tty w
        else
          case snd (deliver chunk w) of
            Inl e \<Rightarrow> (tty, fst (deliver chunk w), if delivered then None else Some e)
          | Inr taken \<Rightarrow>
              if taken < length chunk then (tty, fst (deliver chunk w), None)
              else ttyWriteThrough deliver rest True tty (fst (deliver chunk w)))"
  by pat_completeness auto
termination
  by (relation "measure (\<lambda>(deliver, bs, delivered, tty, w). length bs)")
    (auto intro!: fill_chunk_shorter simp: TTY_OUTPUT_MAX_def TTY_WRITE_CHUNK_def)

declare ttyWriteThrough.simps [simp del]

subsection \<open>Polling\<close>

definition POLL_READ :: byte where "POLL_READ = 1"
definition POLL_PRI :: byte where "POLL_PRI = 2"
definition POLL_WRITE :: byte where "POLL_WRITE = 4"
definition POLL_ERR :: byte where "POLL_ERR = 8"
definition POLL_HUP :: byte where "POLL_HUP = 16"

definition ttyFilePoll :: "Tty \<Rightarrow> byte" where
  "ttyFilePoll tty =
     POLL_WRITE OR
     (if ty_hung_up tty then POLL_READ OR POLL_ERR OR POLL_HUP
      else if ty_peer_hung_up tty then POLL_READ OR POLL_HUP
      else if ty_is_master tty then
        if ty_packet_mode tty \<and> ty_packet_status tty \<noteq> 0 then POLL_READ OR POLL_PRI
        else if 0 < tq_used (ty_queue tty) then POLL_READ else 0
      else if ttyLineModeLocked tty then
        if 0 < tq_released (ty_queue tty) then POLL_READ else 0
      else
        let minimum = unat (tm_cc (ty_termios tty) ! VMIN);
            enough = (if tm_cc (ty_termios tty) ! VTIME = 0 \<and> 0 < minimum then minimum else 1) in
        if enough \<le> tq_used (ty_queue tty) then POLL_READ else 0)"

subsection \<open>Modes and requests\<close>

definition ttyFlowIsStandard :: "termios \<Rightarrow> bool" where
  "ttyFlowIsStandard termios \<longleftrightarrow> flag (tm_iflags termios) IXON \<and> tm_cc termios ! VSTART = 0x11 \<and> tm_cc termios ! VSTOP = 0x13"

text \<open>The status to set and the status to clear at the master, if any, are the second result.\<close>

definition ttySetTermios :: "termios \<Rightarrow> bool \<Rightarrow> Tty \<Rightarrow> Tty \<times> (byte \<times> byte) option" where
  "ttySetTermios wanted flush_input side =
     (let wanted = wanted\<lparr>tm_cflags := (tm_cflags wanted AND NOT (0x30 OR 0x100 OR 0x20000000)) OR 0x30 OR 0x80\<rparr>;
          side = (if flush_input then ttyQueueClearLocked side else side);
          now = ty_termios side;
          mode_changed = flag (tm_lflags now XOR tm_lflags wanted) ICANON;
          flow_was = ttyFlowIsStandard now; flow_is = ttyFlowIsStandard wanted;
          side = side\<lparr>ty_termios := wanted\<rparr>;
          side = (if mode_changed
                  then side\<lparr>ty_queue := ttyQueueRelabelLocked (flag (tm_lflags wanted) ICANON) (ty_queue side),
                            ty_erase_open := False, ty_literal_next := False\<rparr>
                  else side);
          status = (if flush_input then 1 else 0) OR (if flow_was \<noteq> flow_is then if flow_is then 32 else 16 else 0);
          clear = (if flow_was \<noteq> flow_is then if flow_is then 16 else 32 else 0) in
      (side, if status \<noteq> 0 then Some (status, clear) else None))"

definition ttyPacketEvent :: "byte \<Rightarrow> byte \<Rightarrow> Tty \<Rightarrow> Tty" where
  "ttyPacketEvent set_bits clear_bits master =
     (if ty_packet_mode master
      then master\<lparr>ty_packet_status := (ty_packet_status master AND NOT clear_bits) OR set_bits\<rparr> else master)"

definition fionread :: "Tty \<Rightarrow> nat" where
  "fionread tty =
     (if ttyLineModeLocked tty then
        length (filter (\<lambda>i. cl_kind (ttyQueueCell (ty_queue tty) i) \<noteq> TTY_CELL_EOF_MARK) [0..<tq_released (ty_queue tty)])
      else tq_used (ty_queue tty))"

definition pscalTtyTakeEofKey :: "Tty \<Rightarrow> Tty \<times> bool" where
  "pscalTtyTakeEofKey tty =
     (if 0 < ty_eof_reads tty then (tty\<lparr>ty_eof_reads := ty_eof_reads tty - 1\<rparr>, True) else (tty, False))"

definition ttyMarkHungUp :: "Tty \<Rightarrow> Tty" where
  "ttyMarkHungUp tty = tty\<lparr>ty_hung_up := True\<rparr>"

definition pscalTtySetSessionReader :: "Tty \<Rightarrow> Tty" where
  "pscalTtySetSessionReader tty = tty\<lparr>ty_session_reader := True\<rparr>"

definition tty_set_winsize :: "u16 \<times> u16 \<times> u16 \<times> u16 \<Rightarrow> Tty \<Rightarrow> Tty \<times> effect list" where
  "tty_set_winsize new_size tty =
     (tty\<lparr>ty_winsize := new_size\<rparr>,
      if ty_winsize tty \<noteq> new_size \<and> 0 < ty_fg_group tty then [SignalGroup (ty_fg_group tty) SIGWINCH] else [])"

end
