(* ===== verification/TtySession.thy ===== *)
theory TtySession
  imports TtyFile
begin

unbundle bit_operations_syntax

section \<open>What typists, readers and pollers of a terminal can rely on\<close>

text \<open>
  The terminal of \<open>TtyFile\<close> against the line editor of \<open>TtyEdit\<close>: a session of typing and reading gives the reader what
  the editor finishes. Then the properties of all modes: the queue's invariant under every operation, that a byte
  that has to wait is never waiting for a reader who waits too, that a poll does not promise data a read would wait
  for, and that the column the terminal keeps is where the screen's cursor is.
\<close>

subsection \<open>Input in line mode\<close>

fun edit_bytes :: "termios \<Rightarrow> bool \<Rightarrow> bool \<Rightarrow> byte list \<Rightarrow> Editor \<Rightarrow> Editor \<times> byte list" where
  "edit_bytes tm reader foreground [] ed = (ed, [])"
| "edit_bytes tm reader foreground (b # bs) ed =
     (case edit_byte tm reader foreground b ed of
        None \<Rightarrow> (ed, b # bs)
      | Some ed \<Rightarrow> edit_bytes tm reader foreground bs ed)"

lemma line_mode_others: "others t = others t' \<Longrightarrow> ttyLineModeLocked t = ttyLineModeLocked t'"
  using others_eq(1,4) [of t t'] by (simp add: ttyLineModeLocked_def)

lemma line_mode_edits: "edits_to t ed t' \<Longrightarrow> ttyLineModeLocked t' = ttyLineModeLocked t"
  by (rule line_mode_others) (simp add: edits_to_def)

lemma input_bytes_edits:
  "line_ok (fst s) \<Longrightarrow> ttyLineModeLocked (fst s) \<Longrightarrow>
    (let r = edit_bytes (ty_termios (fst s)) (ty_session_reader (fst s)) (ty_fg_group (fst s) \<noteq> 0) bs (editor (fst s)) in
     snd (input_bytes bs s) = snd r \<and> edits_to (fst s) (fst r) (fst (fst (input_bytes bs s))))"
proof (induction bs arbitrary: s)
  case Nil
  then show ?case by (simp add: edits_refl)
next
  case (Cons b bs)
  note b = line_byte_refines [OF Cons.prems(1), of b]
  have byte: "ttyInputByteLocked b s = ttyInputLineByteLocked b s" using Cons.prems(2) by (simp add: ttyInputByteLocked_def)
  let ?edit = "edit_byte (ty_termios (fst s)) (ty_session_reader (fst s)) (ty_fg_group (fst s) \<noteq> 0) b (editor (fst s))"
  let ?s' = "fst (ttyInputLineByteLocked b s)"
  show ?case
  proof (cases ?edit)
    case None
    then show ?thesis using b byte by (simp add: replies_def)
  next
    case (Some ed)
    then have taken: "snd (ttyInputLineByteLocked b s)" and e: "edits_to (fst s) ed (fst ?s')"
      using b by (simp_all add: replies_def)
    have same: "ty_termios (fst ?s') = ty_termios (fst s)" "ty_session_reader (fst ?s') = ty_session_reader (fst s)"
      "ty_fg_group (fst ?s') = ty_fg_group (fst s)"
      using e others_eq(1-3) [of "fst ?s'" "fst s"] by (simp_all add: edits_to_def)
    have "line_ok (fst ?s')" "ttyLineModeLocked (fst ?s')"
      using edits_fields(1) [OF e] line_mode_edits [OF e] Cons.prems(2) by simp_all
    from Cons.IH [OF this] show ?thesis
      using Some taken byte same edits_fields(2) [OF e] edits_trans [OF e] by (auto simp: Let_def)
  qed
qed

lemma finish_input_fst [simp]: "fst (finish_input s) = fst s"
  by (simp add: finish_input_def)

lemma input_nonblocking_edits:
  assumes ok: "line_ok tty" and mode: "ttyLineModeLocked tty"
  shows "let r = edit_bytes (ty_termios tty) (ty_session_reader tty) (ty_fg_group tty \<noteq> 0) bs (editor tty);
             t = tty_input_nonblocking bs tty in
    edits_to tty (fst r) (fst t)
    \<and> fst (snd t) = (if bs = [] then Inr 0 else input_result False False (length bs - length (snd r)))"
  using input_bytes_edits [of "(tty, new_run)" bs] ok mode
  by (auto simp: tty_input_nonblocking_def tty_input_def Let_def split_beta edits_refl input_result_def)

subsection \<open>Reading a line\<close>

definition read_line :: "nat \<Rightarrow> TtyCell list \<Rightarrow> byte list \<times> TtyCell list" where
  "read_line n cells =
     (let body = takeWhile (\<lambda>c. cl_kind c = TTY_CELL_BYTE) cells in
      if n < length body then (map cl_byte (take n body), drop n cells)
      else
        case dropWhile (\<lambda>c. cl_kind c = TTY_CELL_BYTE) cells of
          [] \<Rightarrow> (map cl_byte body, [])
        | c # cs \<Rightarrow>
            if cl_kind c = TTY_CELL_EOF_MARK then (map cl_byte body, cs)
            else if n = length body then (map cl_byte body, c # cs)
            else (map cl_byte body @ [cl_byte c], cs))"

text \<open>The loop on the queue, as a loop on its list of cells.\<close>

fun copy_cells :: "nat \<Rightarrow> TtyCell list \<Rightarrow> byte list \<times> bool \<times> TtyCell list" where
  "copy_cells 0 cs = ([], False, cs)"
| "copy_cells (Suc n) [] = ([], False, [])"
| "copy_cells (Suc n) (c # cs) =
     (if cl_kind c = TTY_CELL_EOF_MARK then ([], False, c # cs)
      else if cl_kind c = TTY_CELL_LINE_END then ([cl_byte c], True, cs)
      else let (out, ended, cs) = copy_cells n cs in (cl_byte c # out, ended, cs))"

lemma copy_line_cells:
  "queue_wf q \<Longrightarrow> (case copy_line n q of (out, ended, q') \<Rightarrow>
     queue_wf q' \<and> copy_cells n (queue_cells q) = (out, ended, queue_cells q')
     \<and> tq_released q' = tq_released q - (tq_used q - tq_used q') \<and> tq_used q' \<le> tq_used q)"
proof (induction n arbitrary: q)
  case (Suc n)
  show ?case
  proof (cases "tq_used q = 0")
    case True
    then show ?thesis using Suc.prems by (simp add: queue_cells_def)
  next
    case False
    let ?c = "fst (ttyQueuePop q)" let ?q = "snd (ttyQueuePop q)"
    have cells: "queue_cells q = ?c # queue_cells ?q" and wf: "queue_wf ?q"
      using pop_cells [OF Suc.prems] pop_wf [OF Suc.prems] False by simp_all
    have mark: "ttyQueueHeadIsMark q \<longleftrightarrow> cl_kind ?c = TTY_CELL_EOF_MARK"
      using head_is_mark [OF Suc.prems] cells by simp
    show ?thesis
    proof (cases "cl_kind ?c")
      case TTY_CELL_BYTE
      have "case copy_line n ?q of (out, ended, q') \<Rightarrow>
          queue_wf q' \<and> copy_cells n (queue_cells ?q) = (out, ended, queue_cells q')
          \<and> tq_released q' = tq_released ?q - (tq_used ?q - tq_used q') \<and> tq_used q' \<le> tq_used ?q"
        by (rule Suc.IH [OF wf])
      then show ?thesis
        using False mark TTY_CELL_BYTE by (auto simp: cells split_beta Let_def)
    next
      case TTY_CELL_LINE_END
      then show ?thesis using False mark wf by (simp add: cells split_beta Let_def)
    next
      case TTY_CELL_EOF_MARK
      then show ?thesis using False mark Suc.prems by (simp add: cells)
    qed
  qed
qed simp

lemma copy_cells_line:
  "\<lbrakk>cells = body @ c # cs; \<forall>b \<in> set body. cl_kind b = TTY_CELL_BYTE; cl_kind c \<noteq> TTY_CELL_BYTE\<rbrakk> \<Longrightarrow>
    copy_cells n cells =
      (if n \<le> length body then (map cl_byte (take n body), False, drop n cells)
       else if cl_kind c = TTY_CELL_EOF_MARK then (map cl_byte body, False, c # cs)
       else (map cl_byte body @ [cl_byte c], True, cs))"
proof (induction n cells arbitrary: body rule: copy_cells.induct)
  case (3 n d ds)
  then show ?case
    by (cases body) (auto simp: split_beta Let_def intro: cell_kind.exhaust [of "cl_kind c"])
qed auto


text \<open>Taking \<open>k\<close> released cells off the head.\<close>

lemma edits_drop:
  assumes ok: "line_ok tty" and q: "queue_wf q" "queue_cells q = drop k (queue_cells (ty_queue tty))"
    and k: "k \<le> tq_released (ty_queue tty)" "tq_released q = tq_released (ty_queue tty) - k"
  shows "edits_to tty ((editor tty)\<lparr>ed_done := drop k (ed_done (editor tty))\<rparr>) (tty\<lparr>ty_queue := q\<rparr>)"
proof -
  let ?r = "tq_released (ty_queue tty)" let ?cs = "queue_cells (ty_queue tty)"
  have le: "?r \<le> length ?cs" using line_ok_counts [OF ok] by simp
  have rest: "drop (?r - k) (drop k ?cs) = drop ?r ?cs" using k(1) by simp
  have last: "drop k ?cs ! (?r - k - 1) = ?cs ! (?r - 1)" if "k < ?r" using that le by simp
  have "line_ok (tty\<lparr>ty_queue := q\<rparr>)" using ok q k rest last unfolding line_ok_def by auto
  then show ?thesis
    using q k le rest by (simp add: edits_to_def editor_def Let_def drop_take)
qed

lemma released_line:
  assumes ok: "line_ok tty" and r: "0 < tq_released (ty_queue tty)"
  obtains body c cs where "queue_cells (ty_queue tty) = body @ c # cs" "\<forall>b \<in> set body. cl_kind b = TTY_CELL_BYTE"
    "cl_kind c \<noteq> TTY_CELL_BYTE" "length body < tq_released (ty_queue tty)"
proof -
  let ?P = "\<lambda>c. cl_kind c = TTY_CELL_BYTE" let ?cs = "queue_cells (ty_queue tty)" let ?r = "tq_released (ty_queue tty)"
  have le: "?r \<le> length ?cs" using line_ok_counts [OF ok] by simp
  have not: "\<not> ?P (?cs ! (?r - 1))" using ok r by (simp add: line_ok_def)
  have short: "length (takeWhile ?P ?cs) < ?r"
  proof (rule ccontr)
    assume "\<not> length (takeWhile ?P ?cs) < ?r"
    then have "?r - 1 < length (takeWhile ?P ?cs)" using r by simp
    then have "?P (?cs ! (?r - 1))"
      using takeWhile_nth [of "?r - 1" ?P ?cs] set_takeWhileD [OF nth_mem [of "?r - 1" "takeWhile ?P ?cs"]] by simp
    then show False using not by simp
  qed
  have "dropWhile ?P ?cs \<noteq> []"
  proof
    assume "dropWhile ?P ?cs = []"
    then have "length (takeWhile ?P ?cs) = length ?cs" by (metis append_Nil2 takeWhile_dropWhile_id)
    then show False using short le by simp
  qed
  then obtain c cs where c: "dropWhile ?P ?cs = c # cs" by (cases "dropWhile ?P ?cs") auto
  then have "\<not> ?P c" using hd_dropWhile [of ?P ?cs] by simp
  moreover have "?cs = takeWhile ?P ?cs @ c # cs" using c by (metis takeWhile_dropWhile_id)
  moreover have "\<forall>b \<in> set (takeWhile ?P ?cs). ?P b" by (auto dest: set_takeWhileD)
  ultimately show thesis using that short by blast
qed

lemma read_line_split:
  assumes "\<forall>b \<in> set body. cl_kind b = TTY_CELL_BYTE" "cl_kind c \<noteq> TTY_CELL_BYTE"
  shows "read_line n (body @ c # cs) =
    (if n < length body then (map cl_byte (take n body), drop n body @ c # cs)
     else if cl_kind c = TTY_CELL_EOF_MARK then (map cl_byte body, cs)
     else if n = length body then (map cl_byte body, c # cs)
     else (map cl_byte body @ [cl_byte c], cs))"
proof -
  have "takeWhile (\<lambda>c. cl_kind c = TTY_CELL_BYTE) (body @ c # cs) = body"
    "dropWhile (\<lambda>c. cl_kind c = TTY_CELL_BYTE) (body @ c # cs) = c # cs"
    using assms by (simp_all add: takeWhile_append2 dropWhile_append2)
  then show ?thesis by (simp add: read_line_def Let_def)
qed

lemma copy_line_edits:
  assumes ok: "line_ok tty" and r: "0 < tq_released (ty_queue tty)"
  shows "snd (ttyCopyLineLocked n tty) = fst (read_line n (ed_done (editor tty)))
    \<and> edits_to (tty\<lparr>ty_eof_reads := ty_eof_reads (fst (ttyCopyLineLocked n tty))\<rparr>)
        ((editor tty)\<lparr>ed_done := snd (read_line n (ed_done (editor tty)))\<rparr>) (fst (ttyCopyLineLocked n tty))
    \<and> ty_eof_reads (fst (ttyCopyLineLocked n tty)) =
        ty_eof_reads tty + (if snd (ttyCopyLineLocked n tty) = [] then 1 else 0)"
proof -
  let ?q = "ty_queue tty" let ?r = "tq_released ?q"
  obtain body c cs where cells: "queue_cells ?q = body @ c # cs" and body: "\<forall>b \<in> set body. cl_kind b = TTY_CELL_BYTE"
    and c: "cl_kind c \<noteq> TTY_CELL_BYTE" and len: "length body < ?r"
    by (rule released_line [OF ok r])
  have "ed_done (editor tty) = body @ c # take (?r - length body - 1) cs"
    using len by (simp add: editor_def Let_def cells take_Cons' )
  then have rl: "read_line n (ed_done (editor tty)) =
      (if n < length body then (map cl_byte (take n body), drop n (ed_done (editor tty)))
       else if cl_kind c = TTY_CELL_EOF_MARK then (map cl_byte body, drop (length body + 1) (ed_done (editor tty)))
       else if n = length body then (map cl_byte body, drop (length body) (ed_done (editor tty)))
       else (map cl_byte body @ [cl_byte c], drop (length body + 1) (ed_done (editor tty))))"
    by (simp add: read_line_split [OF body c])
  obtain out ended q' where copy: "copy_line n ?q = (out, ended, q')" by (metis prod_cases3)
  have wf': "queue_wf q'" and cc: "copy_cells n (queue_cells ?q) = (out, ended, queue_cells q')"
    and rel: "tq_released q' = ?r - (tq_used ?q - tq_used q')"
    using copy_line_cells [OF line_ok_wf [OF ok], of n] copy by simp_all
  have used: "tq_used ?q = length body + 1 + length cs" using arg_cong [OF cells, of length] by simp
  have result: ?thesis
    if q2: "q2 = (if ttyQueueHeadIsMark q' \<and> \<not> ended then snd (ttyQueuePop q') else q')" "queue_wf q2"
      "queue_cells q2 = drop k (queue_cells ?q)" "tq_released q2 = ?r - k" "k \<le> ?r"
      "read_line n (ed_done (editor tty)) = (out, drop k (ed_done (editor tty)))" for q2 k
  proof -
    let ?t = "tty\<lparr>ty_eof_reads := ty_eof_reads tty + (if out = [] then 1 else 0)\<rparr>"
    have same: "ty_queue ?t = ?q" "line_ok ?t" "editor ?t = editor tty"
      using ok by (simp_all add: line_ok_def editor_def)
    have "edits_to ?t ((editor ?t)\<lparr>ed_done := drop k (ed_done (editor ?t))\<rparr>) (?t\<lparr>ty_queue := q2\<rparr>)"
      using q2 same by (intro edits_drop) simp_all
    moreover have "ttyCopyLineLocked n tty = (?t\<lparr>ty_queue := q2\<rparr>, out)"
      using q2(1) copy by (simp add: ttyCopyLineLocked_def Let_def)
    ultimately show ?thesis using q2(6) same by simp
  qed
  have len_q': "tq_used q' = length (queue_cells q')" by simp
  note cl = copy_cells_line [OF cells body c, of n, unfolded cc]
  have pop: "queue_wf (snd (ttyQueuePop q'))" "queue_cells (snd (ttyQueuePop q')) = drop (Suc j) (queue_cells ?q)"
      "tq_released (snd (ttyQueuePop q')) = ?r - Suc j"
    if "queue_cells q' = drop j (queue_cells ?q)" "j \<le> length body" for j
  proof -
    have j: "tq_used q' = tq_used ?q - j" using that(1) len_q' by simp
    then have "queue_cells q' = fst (ttyQueuePop q') # queue_cells (snd (ttyQueuePop q'))"
      using pop_cells [OF wf'] that(2) used by simp
    then show "queue_cells (snd (ttyQueuePop q')) = drop (Suc j) (queue_cells ?q)"
      using that(1) by (metis drop_Suc list.sel(3) tl_drop)
    show "queue_wf (snd (ttyQueuePop q'))" by (rule pop_wf [OF wf'])
    show "tq_released (snd (ttyQueuePop q')) = ?r - Suc j" using rel j that(2) used len by simp
  qed
  have mark: "ttyQueueHeadIsMark q' \<longleftrightarrow> cl_kind ((body @ c # cs) ! j) = TTY_CELL_EOF_MARK"
    if "queue_cells q' = drop j (queue_cells ?q)" "j \<le> length body" for j
  proof -
    have "hd (drop j (body @ c # cs)) = (body @ c # cs) ! j" using that(2) by (intro hd_drop_conv_nth) simp
    moreover have "queue_cells q' \<noteq> []" using that cells by simp
    ultimately show ?thesis using head_is_mark [OF wf'] that(1) cells by simp
  qed
  consider "n < length body" | "n = length body" | "length body < n" by linarith
  then show ?thesis
  proof cases
    case 1
    then have q': "out = map cl_byte (take n body)" "\<not> ended" "queue_cells q' = drop n (queue_cells ?q)"
      using cl cells by simp_all
    have "cl_kind ((body @ c # cs) ! n) = TTY_CELL_BYTE" using 1 body by (simp add: nth_append)
    then have "\<not> ttyQueueHeadIsMark q'" using mark [OF q'(3)] 1 by simp
    moreover have "tq_released q' = ?r - n" using rel len_q' q'(3) 1 used by simp
    ultimately show ?thesis using 1 q' wf' rl len by (intro result [of q' n]) simp_all
  next
    case 2
    then have q': "out = map cl_byte body" "\<not> ended" "queue_cells q' = drop n (queue_cells ?q)"
      using cl cells by simp_all
    have m: "ttyQueueHeadIsMark q' \<longleftrightarrow> cl_kind c = TTY_CELL_EOF_MARK" using mark [OF q'(3)] 2 by simp
    show ?thesis
    proof (cases "cl_kind c = TTY_CELL_EOF_MARK")
      case True
      then show ?thesis
        using 2 q' m rl len pop [OF q'(3)] by (intro result [of "snd (ttyQueuePop q')" "Suc n"]) simp_all
    next
      case False
      moreover have "tq_released q' = ?r - n" using rel len_q' q'(3) 2 used by simp
      ultimately show ?thesis using 2 q' m wf' rl len by (intro result [of q' n]) simp_all
    qed
  next
    case 3
    show ?thesis
    proof (cases "cl_kind c = TTY_CELL_EOF_MARK")
      case True
      then have q': "out = map cl_byte body" "\<not> ended" "queue_cells q' = drop (length body) (queue_cells ?q)"
        using cl cells 3 by simp_all
      have "ttyQueueHeadIsMark q'" using mark [OF q'(3)] True by simp
      then show ?thesis
        using 3 True q' rl len pop [OF q'(3)] by (intro result [of "snd (ttyQueuePop q')" "Suc (length body)"]) simp_all
    next
      case False
      then have q': "out = map cl_byte body @ [cl_byte c]" "ended" "queue_cells q' = drop (Suc (length body)) (queue_cells ?q)"
        using cl cells 3 by simp_all
      have "tq_released q' = ?r - Suc (length body)" using rel len_q' q'(3) used by simp
      then show ?thesis using 3 False q' wf' rl len by (intro result [of q' "Suc (length body)"]) simp_all
    qed
  qed
qed


subsection \<open>A session of typing and reading\<close>

datatype action = Types "byte list" | Reads nat

datatype answer = Typed "tty_error + nat" | Got "tty_error + byte list"

text \<open>What a sequence of calls answers, from the terminal and from the editor. Neither side waits, and the reader
  is allowed to read.\<close>

fun terminal_session :: "action list \<Rightarrow> Tty \<Rightarrow> answer list" where
  "terminal_session [] tty = []"
| "terminal_session (Types bs # acts) tty =
     (let r = tty_input_nonblocking bs tty in Typed (fst (snd r)) # terminal_session acts (fst r))"
| "terminal_session (Reads n # acts) tty =
     (let r = ttyFileReadNonblocking None n tty in Got (snd r) # terminal_session acts (fst r))"

fun editor_session :: "termios \<Rightarrow> bool \<Rightarrow> bool \<Rightarrow> action list \<Rightarrow> Editor \<Rightarrow> answer list" where
  "editor_session tm reader foreground [] ed = []"
| "editor_session tm reader foreground (Types bs # acts) ed =
     (let r = edit_bytes tm reader foreground bs ed; n = length bs - length (snd r) in
      Typed (if bs = [] \<or> 0 < n then Inr n else Inl EAGAIN) # editor_session tm reader foreground acts (fst r))"
| "editor_session tm reader foreground (Reads n # acts) ed =
     (if n = 0 then Got (Inr []) # editor_session tm reader foreground acts ed
      else if ed_done ed = [] then Got (Inl EAGAIN) # editor_session tm reader foreground acts ed
      else let r = read_line n (ed_done ed) in
        Got (Inr (fst r)) # editor_session tm reader foreground acts (ed\<lparr>ed_done := snd r\<rparr>))"

lemma slave_read_line_mode:
  assumes "line_ok tty" "ttyLineModeLocked tty" "\<not> ttyIsDownLocked tty" "0 < n"
  shows "ttyFileReadNonblocking None n tty =
    (if tq_released (ty_queue tty) = 0 then (tty, Inl EAGAIN) else apsnd Inr (ttyCopyLineLocked n tty))"
  using assms
  by (auto simp: ttyFileReadNonblocking_def ttyReadSlaveLocked_def ttyLineModeLocked_def returns_copy_def Let_def
      split_beta apsnd_def map_prod_def)

lemma copy_line_keeps:
  fixes n :: nat and tty :: Tty
  assumes "line_ok tty" "0 < tq_released (ty_queue tty)"
  defines "t \<equiv> fst (ttyCopyLineLocked n tty)"
  shows "line_ok t" "editor t = (editor tty)\<lparr>ed_done := snd (read_line n (ed_done (editor tty)))\<rparr>"
    "ty_termios t = ty_termios tty" "ty_session_reader t = ty_session_reader tty" "ty_fg_group t = ty_fg_group tty"
    "ttyLineModeLocked t = ttyLineModeLocked tty" "ttyIsDownLocked t = ttyIsDownLocked tty"
proof -
  show "line_ok t" "editor t = (editor tty)\<lparr>ed_done := snd (read_line n (ed_done (editor tty)))\<rparr>"
    using copy_line_edits [OF assms(1,2), of n] by (simp_all add: t_def edits_to_def)
  show "ty_termios t = ty_termios tty" "ty_session_reader t = ty_session_reader tty" "ty_fg_group t = ty_fg_group tty"
    "ttyLineModeLocked t = ttyLineModeLocked tty" "ttyIsDownLocked t = ttyIsDownLocked tty"
    by (simp_all add: t_def ttyCopyLineLocked_def ttyLineModeLocked_def ttyIsDownLocked_def Let_def split_beta)
qed

lemma input_keeps:
  assumes "edits_to t ed t'"
  shows "ty_termios t' = ty_termios t" "ty_session_reader t' = ty_session_reader t" "ty_fg_group t' = ty_fg_group t"
    "ttyLineModeLocked t' = ttyLineModeLocked t" "ttyIsDownLocked t' = ttyIsDownLocked t"
proof -
  have o: "others t' = others t" using assms by (simp add: edits_to_def)
  have "ty_peer_hung_up t' = ty_peer_hung_up t"
    using arg_cong [OF o, of ty_peer_hung_up] by (simp add: others_def undisplayed_def)
  then show "ty_termios t' = ty_termios t" "ty_session_reader t' = ty_session_reader t" "ty_fg_group t' = ty_fg_group t"
    "ttyLineModeLocked t' = ttyLineModeLocked t" "ttyIsDownLocked t' = ttyIsDownLocked t"
    using others_eq [OF o] line_mode_others [OF o] by (simp_all add: ttyIsDownLocked_def)
qed

lemma session_refines:
  "line_ok tty \<Longrightarrow> ttyLineModeLocked tty \<Longrightarrow> \<not> ttyIsDownLocked tty \<Longrightarrow>
    terminal_session acts tty =
      editor_session (ty_termios tty) (ty_session_reader tty) (ty_fg_group tty \<noteq> 0) acts (editor tty)"
proof (induction acts arbitrary: tty)
  case (Cons act acts)
  show ?case
  proof (cases act)
    case (Types bs)
    let ?r = "edit_bytes (ty_termios tty) (ty_session_reader tty) (ty_fg_group tty \<noteq> 0) bs (editor tty)"
    let ?t = "fst (tty_input_nonblocking bs tty)"
    have e: "edits_to tty (fst ?r) ?t"
      and n: "fst (snd (tty_input_nonblocking bs tty)) =
        (if bs = [] then Inr 0 else input_result False False (length bs - length (snd ?r)))"
      using input_nonblocking_edits [OF Cons.prems(1,2), of bs] by (simp_all add: Let_def)
    have "terminal_session acts ?t =
        editor_session (ty_termios tty) (ty_session_reader tty) (ty_fg_group tty \<noteq> 0) acts (fst ?r)"
      using Cons.IH [of ?t] Cons.prems edits_fields(1,2) [OF e] input_keeps [OF e] by simp
    then show ?thesis using n by (auto simp: Types Let_def input_result_def)
  next
    case (Reads n)
    show ?thesis
    proof (cases "n = 0")
      case True
      then show ?thesis
        using Cons by (simp add: Reads ttyFileReadNonblocking_def Let_def)
    next
      case False
      note read = slave_read_line_mode [OF Cons.prems(1-3), of n]
      show ?thesis
      proof (cases "tq_released (ty_queue tty) = 0")
        case True
        then show ?thesis
          using False Cons read done_empty [OF Cons.prems(1)] by (simp add: Reads Let_def)
      next
        case some: False
        note keeps = copy_line_keeps [OF Cons.prems(1) some [unfolded neq0_conv], of n]
        have "terminal_session acts (fst (ttyCopyLineLocked n tty)) =
            editor_session (ty_termios tty) (ty_session_reader tty) (ty_fg_group tty \<noteq> 0) acts
              ((editor tty)\<lparr>ed_done := snd (read_line n (ed_done (editor tty)))\<rparr>)"
          using Cons.IH [of "fst (ttyCopyLineLocked n tty)"] Cons.prems keeps by simp
        moreover have "snd (ttyCopyLineLocked n tty) = fst (read_line n (ed_done (editor tty)))"
          using copy_line_edits [OF Cons.prems(1), of n] some by simp
        ultimately show ?thesis
          using False some read done_empty [OF Cons.prems(1)] by (simp add: Reads Let_def)
      qed
    qed
  qed
qed simp


subsection \<open>The invariant in both modes\<close>

definition raw_ok :: "Tty \<Rightarrow> bool" where
  "raw_ok tty \<longleftrightarrow> queue_wf (ty_queue tty) \<and> tq_released (ty_queue tty) = 0
     \<and> (\<forall>c \<in> set (queue_cells (ty_queue tty)). cl_kind c \<noteq> TTY_CELL_LINE_END)"

definition tty_inv :: "Tty \<Rightarrow> bool" where
  "tty_inv tty \<longleftrightarrow> length (tm_cc (ty_termios tty)) = 19 \<and> (if ttyLineModeLocked tty then line_ok tty else raw_ok tty)"

lemma tty_inv_wf: "tty_inv tty \<Longrightarrow> queue_wf (ty_queue tty)"
  by (auto simp: tty_inv_def line_ok_def raw_ok_def split: if_splits)

lemma tty_inv_same:
  assumes "ty_queue t = ty_queue t'" "ty_termios t = ty_termios t'" "ty_is_master t = ty_is_master t'"
  shows "tty_inv t = tty_inv t'"
  using assms by (simp add: tty_inv_def line_ok_def raw_ok_def ttyLineModeLocked_def)

lemma created_line_ok: "line_ok (ttyCreate is_master num)"
  by (simp add: ttyCreate_def line_ok_def queue_wf_def queue_cells_def)

lemma created_inv: "tty_inv (ttyCreate is_master num)"
  using created_line_ok [of is_master num]
  by (simp add: tty_inv_def raw_ok_def ttyCreate_def kSlaveTermios_def queue_wf_def queue_cells_def)

lemma raw_push:
  assumes "raw_ok (fst s)" "tq_used (ty_queue (fst s)) < TTY_BUF_SIZE"
  shows "raw_ok (fst (push_byte b TTY_CELL_BYTE s))"
    and "queue_cells (ty_queue (fst (push_byte b TTY_CELL_BYTE s))) = queue_cells (ty_queue (fst s)) @ [text_cell b]"
  using assms push_cells [of "ty_queue (fst s)" b TTY_CELL_BYTE] push_wf [of "ty_queue (fst s)"]
  by (auto simp: raw_ok_def push_byte_def text_cell_def)

lemma raw_clear: "raw_ok t \<Longrightarrow> raw_ok (ttyQueueClearLocked t)"
  by (simp add: raw_ok_def ttyQueueClearLocked_def cleared_wf)

text \<open>A raw byte: it waits exactly when the queue is full.\<close>

definition raw_signal :: "Tty \<Rightarrow> byte \<Rightarrow> nat option" where
  "raw_signal tty b =
     (if \<not> ty_is_master tty \<and> flag (tm_lflags (ty_termios tty)) ISIG
      then ttyKeySignalIndex (ty_termios tty) (ttyInputMapped (ty_termios tty) b) else None)"

lemma raw_byte:
  assumes ok: "raw_ok (fst s)"
  shows "snd (ttyInputRawByteLocked b s) \<longleftrightarrow> raw_signal (fst s) b \<noteq> None \<or> tq_used (ty_queue (fst s)) < TTY_BUF_SIZE"
    and "raw_ok (fst (fst (ttyInputRawByteLocked b s)))"
    and "ty_termios (fst (fst (ttyInputRawByteLocked b s))) = ty_termios (fst s)"
    and "ty_is_master (fst (fst (ttyInputRawByteLocked b s))) = ty_is_master (fst s)"
proof -
  let ?tm = "ty_termios (fst s)" let ?b = "ttyInputMapped ?tm b" let ?q = "ty_queue (fst s)"
  let ?r = "ttyInputRawByteLocked b s"
  have le: "tq_used ?q \<le> TTY_BUF_SIZE" using ok by (simp add: raw_ok_def queue_wf_def)
  have "(snd ?r \<longleftrightarrow> raw_signal (fst s) b \<noteq> None \<or> tq_used ?q < TTY_BUF_SIZE) \<and> raw_ok (fst (fst ?r))
    \<and> ty_termios (fst (fst ?r)) = ?tm \<and> ty_is_master (fst (fst ?r)) = ty_is_master (fst s)"
  proof (cases "raw_signal (fst s) b")
    case (Some i)
    have "raw_ok (fst (ttySignalKeyLocked i s))" using ok raw_clear by (simp add: ttySignalKeyLocked_def Let_def)
    moreover have "ty_termios (fst (ttySignalKeyLocked i s)) = ?tm" "ty_is_master (fst (ttySignalKeyLocked i s)) = ty_is_master (fst s)"
      by (simp_all add: ttySignalKeyLocked_def ttyQueueClearLocked_def Let_def)
    ultimately show ?thesis
      using Some by (simp add: ttyInputRawByteLocked_def raw_signal_def Let_def split: if_splits)
  next
    case None
    show ?thesis
    proof (cases "tq_used ?q = TTY_BUF_SIZE")
      case True
      then show ?thesis
        using None ok by (simp add: ttyInputRawByteLocked_def raw_signal_def Let_def split: if_splits)
    next
      case False
      then have room: "tq_used ?q < TTY_BUF_SIZE" using le by simp
      let ?s1 = "if tq_used ?q = 0 then ttyLineEndedLocked s else s"
      have s1: "fst ?s1 = fst s" by simp
      have p: "raw_ok (fst (push_byte ?b TTY_CELL_BYTE ?s1))" using raw_push(1) [of ?s1 ?b] ok room s1 by simp
      have pp: "raw_ok (fst (push_byte ?b TTY_CELL_BYTE (push_byte ?b TTY_CELL_BYTE ?s1)))"
        if "tq_used (ty_queue (fst (push_byte ?b TTY_CELL_BYTE ?s1))) < TTY_BUF_SIZE"
        by (rule raw_push(1) [OF p that])
      have tm: "ty_termios (fst (push_byte ?b TTY_CELL_BYTE x)) = ty_termios (fst x)"
        "ty_is_master (fst (push_byte ?b TTY_CELL_BYTE x)) = ty_is_master (fst x)" for x
        by (simp_all add: push_byte_def)
      have "?r = (if ttyInputDoubles ?tm ?b \<and> tq_used (ty_queue (fst (push_byte ?b TTY_CELL_BYTE ?s1))) < TTY_BUF_SIZE
          then push_byte ?b TTY_CELL_BYTE (push_byte ?b TTY_CELL_BYTE ?s1) else push_byte ?b TTY_CELL_BYTE ?s1, True)"
        using None False by (auto simp: ttyInputRawByteLocked_def raw_signal_def Let_def split: if_splits)
      then show ?thesis using p pp tm s1 room by auto
    qed
  qed
  then show "snd (ttyInputRawByteLocked b s) \<longleftrightarrow> raw_signal (fst s) b \<noteq> None \<or> tq_used (ty_queue (fst s)) < TTY_BUF_SIZE"
    and "raw_ok (fst (fst (ttyInputRawByteLocked b s)))"
    and "ty_termios (fst (fst (ttyInputRawByteLocked b s))) = ty_termios (fst s)"
    and "ty_is_master (fst (fst (ttyInputRawByteLocked b s))) = ty_is_master (fst s)"
    by blast+
qed

lemma input_byte_inv:
  assumes inv: "tty_inv (fst s)"
  shows "tty_inv (fst (fst (ttyInputByteLocked b s)))"
proof (cases "ttyLineModeLocked (fst s)")
  case True
  then have ok: "line_ok (fst s)" using inv by (simp add: tty_inv_def)
  let ?t = "fst (fst (ttyInputLineByteLocked b s))"
  obtain ed where e: "edits_to (fst s) ed ?t"
    using line_byte_refines [OF ok, of b] by (auto simp: replies_def split: option.splits)
  then have "line_ok ?t" "ty_termios ?t = ty_termios (fst s)" "ttyLineModeLocked ?t = ttyLineModeLocked (fst s)"
    using edits_fields [OF e] line_mode_edits [OF e] by simp_all
  then show ?thesis using inv True by (simp add: tty_inv_def ttyInputByteLocked_def)
next
  case False
  then have ok: "raw_ok (fst s)" using inv by (simp add: tty_inv_def)
  have "ttyLineModeLocked (fst (fst (ttyInputRawByteLocked b s))) = ttyLineModeLocked (fst s)"
    using raw_byte(3,4) [OF ok] by (simp add: ttyLineModeLocked_def)
  then show ?thesis using inv False raw_byte(2,3) [OF ok] by (simp add: tty_inv_def ttyInputByteLocked_def)
qed

lemma input_bytes_inv: "tty_inv (fst s) \<Longrightarrow> tty_inv (fst (fst (input_bytes bs s)))"
  by (induction bs s rule: input_bytes.induct) (auto simp: Let_def input_byte_inv)

lemma input_inv: "tty_inv (fst s) \<Longrightarrow> tty_inv (fst (fst (tty_input blocking len rest s)))"
  using input_bytes_inv [of s rest] by (simp add: tty_input_def announce_def Let_def split_beta)

lemma copy_raw_cells:
  "queue_wf q \<Longrightarrow> (case copy_raw n q of (out, q') \<Rightarrow> queue_wf q' \<and> queue_cells q' = drop n (queue_cells q)
     \<and> out = map cl_byte (take n (queue_cells q)) \<and> tq_released q' = tq_released q - n
     \<and> tq_used q' = tq_used q - n)"
proof (induction n arbitrary: q)
  case (Suc n)
  show ?case
  proof (cases "tq_used q = 0")
    case True
    then show ?thesis using Suc.prems by (simp add: queue_cells_def queue_wf_def)
  next
    case False
    let ?q = "snd (ttyQueuePop q)"
    have cells: "queue_cells q = fst (ttyQueuePop q) # queue_cells ?q"
      using pop_cells [OF Suc.prems] False by simp
    have "case copy_raw n ?q of (out, q') \<Rightarrow> queue_wf q' \<and> queue_cells q' = drop n (queue_cells ?q)
     \<and> out = map cl_byte (take n (queue_cells ?q)) \<and> tq_released q' = tq_released ?q - n \<and> tq_used q' = tq_used ?q - n"
      by (rule Suc.IH [OF pop_wf [OF Suc.prems]])
    then show ?thesis using False by (auto simp: cells split_beta Let_def)
  qed
qed simp

lemma copy_raw_locked:
  assumes "queue_wf (ty_queue tty)"
  shows "snd (ttyCopyRawLocked n tty) = map cl_byte (take n (queue_cells (ty_queue tty)))"
    and "\<exists>q. fst (ttyCopyRawLocked n tty) = tty\<lparr>ty_queue := q\<rparr> \<and> queue_wf q
        \<and> queue_cells q = drop n (queue_cells (ty_queue tty)) \<and> tq_released q = tq_released (ty_queue tty) - n
        \<and> tq_used q = tq_used (ty_queue tty) - n"
  using copy_raw_cells [OF assms, of n] by (auto simp: ttyCopyRawLocked_def split_beta Let_def)

lemma copy_raw_inv:
  assumes inv: "tty_inv tty"
  shows "tty_inv (fst (ttyCopyRawLocked n tty))"
proof -
  let ?cs = "queue_cells (ty_queue tty)" let ?r = "tq_released (ty_queue tty)"
  obtain q where t: "fst (ttyCopyRawLocked n tty) = tty\<lparr>ty_queue := q\<rparr>" and q: "queue_wf q"
    and cs: "queue_cells q = drop n ?cs" and r: "tq_released q = ?r - n"
    using copy_raw_locked(2) [OF tty_inv_wf [OF inv], of n] by blast
  have mode: "ttyLineModeLocked (tty\<lparr>ty_queue := q\<rparr>) = ttyLineModeLocked tty" by (simp add: ttyLineModeLocked_def)
  show ?thesis
  proof (cases "ttyLineModeLocked tty")
    case True
    then have ok: "line_ok tty" using inv by (simp add: tty_inv_def)
    have le: "?r \<le> length ?cs" using line_ok_counts [OF ok] by simp
    have "drop (?r - n) (drop n ?cs) = drop (max ?r n) ?cs" by (simp add: max_def)
    then have "set (drop (?r - n) (drop n ?cs)) \<subseteq> set (drop ?r ?cs)" by (metis set_drop_subset_set_drop max.cobounded1)
    moreover have "drop n ?cs ! (?r - n - 1) = ?cs ! (?r - 1)" if "0 < ?r - n" using that le by simp
    ultimately have "line_ok (tty\<lparr>ty_queue := q\<rparr>)" using ok q cs r unfolding line_ok_def by auto
    then show ?thesis using inv True mode t by (simp add: tty_inv_def)
  next
    case False
    then have "raw_ok (tty\<lparr>ty_queue := q\<rparr>)"
      using inv q cs r set_drop_subset [of n ?cs] by (auto simp: tty_inv_def raw_ok_def)
    then show ?thesis using inv False mode t by (simp add: tty_inv_def)
  qed
qed

lemma copy_line_inv:
  assumes "tty_inv tty" "ttyLineModeLocked tty" "0 < tq_released (ty_queue tty)"
  shows "tty_inv (fst (ttyCopyLineLocked n tty))"
  using assms copy_line_keeps [of tty n] by (simp add: tty_inv_def)

lemma read_slave_inv:
  assumes "tty_inv tty"
  shows "tty_inv (fst (snd (ttyReadSlaveLocked nonblocking n timed_out timer tty)))"
  using assms copy_raw_inv [of tty n] copy_line_inv [of tty n]
  by (simp add: ttyReadSlaveLocked_def returns_copy_def Let_def)

lemma read_master_inv:
  assumes "tty_inv tty"
  shows "tty_inv (fst (ttyReadMasterLocked nonblocking n tty))"
  using assms copy_raw_inv [of tty] tty_inv_same [of "tty\<lparr>ty_packet_status := 0\<rparr>" tty]
  by (simp add: ttyReadMasterLocked_def returns_copy_def)

lemma clear_inv: "tty_inv tty \<Longrightarrow> tty_inv (ttyQueueClearLocked tty)"
  using clear_edits [of tty] raw_clear [of tty] edits_fields(1)
  by (auto simp: tty_inv_def ttyLineModeLocked_def ttyQueueClearLocked_def split: if_splits)

lemma relabelled_cells_nth:
  "i < length cs \<Longrightarrow> relabelled_cells b cs ! i = relabelled b (i + 1 = length cs) (cs ! i)"
  by (simp add: relabelled_cells_def nth_enumerate_eq)

lemma length_relabelled_cells [simp]: "length (relabelled_cells b cs) = length cs"
  by (simp add: relabelled_cells_def)

lemma relabel_counts [simp]:
  "tq_used (ttyQueueRelabelLocked b q) = tq_used q"
  "tq_released (ttyQueueRelabelLocked b q) = (if b then tq_used q else 0)"
  by (simp_all add: ttyQueueRelabelLocked_def Let_def)

lemma relabel_ok:
  assumes "queue_wf (ty_queue tty)" "ty_queue t = ttyQueueRelabelLocked b (ty_queue tty)"
  shows "if b then line_ok t else raw_ok t"
proof -
  let ?cs = "queue_cells (ty_queue tty)"
  have cs: "queue_cells (ty_queue t) = relabelled_cells b ?cs" and wf: "queue_wf (ty_queue t)"
    using relabel_cells [OF assms(1)] relabel_wf [OF assms(1)] assms(2) by simp_all
  show ?thesis
  proof (cases b)
    case True
    then have "cl_kind (relabelled_cells b ?cs ! (tq_used (ty_queue tty) - 1)) \<noteq> TTY_CELL_BYTE" if "0 < tq_used (ty_queue tty)"
      using that relabelled_cells_nth [of "tq_used (ty_queue tty) - 1" ?cs b] by (simp add: relabelled_def)
    then show ?thesis using True wf cs assms(2) by (simp add: line_ok_def)
  next
    case False
    have "cl_kind c \<noteq> TTY_CELL_LINE_END" if c: "c \<in> set (relabelled_cells b ?cs)" for c
    proof -
      obtain i where "i < length ?cs" "c = relabelled_cells b ?cs ! i"
        using c by (metis in_set_conv_nth length_relabelled_cells)
      then show ?thesis using False by (simp add: relabelled_cells_nth relabelled_def)
    qed
    then show ?thesis using False wf cs assms(2) by (simp add: raw_ok_def)
  qed
qed

lemma flag_canon: "flag w ICANON \<longleftrightarrow> bit w 1"
  using and_exp_eq_0_iff_not_bit [of w 1] by (simp add: flag_def)

lemma set_termios_inv:
  assumes inv: "tty_inv tty" and cc: "length (tm_cc wanted) = 19" and slave: "\<not> ty_is_master tty"
  shows "tty_inv (fst (ttySetTermios wanted flush_input tty))"
proof -
  let ?u = "if flush_input then ttyQueueClearLocked tty else tty"
  let ?t = "fst (ttySetTermios wanted flush_input tty)"
  have inv0: "tty_inv ?u" using inv clear_inv by simp
  have tm0: "ty_termios ?u = ty_termios tty" "ty_is_master ?u = ty_is_master tty"
    by (simp_all add: ttyQueueClearLocked_def)
  have now: "tm_lflags (ty_termios ?t) = tm_lflags wanted" "tm_cc (ty_termios ?t) = tm_cc wanted"
    "ty_is_master ?t = ty_is_master tty"
    by (simp_all add: ttySetTermios_def ttyQueueClearLocked_def Let_def)
  then have mode: "ttyLineModeLocked ?t \<longleftrightarrow> bit (tm_lflags wanted) 1"
    using slave by (simp add: ttyLineModeLocked_def flag_canon)
  show ?thesis
  proof (cases "bit (tm_lflags (ty_termios tty)) 1 = bit (tm_lflags wanted) 1")
    case True
    then have q: "ty_queue ?t = ty_queue ?u" and m: "ttyLineModeLocked ?u = ttyLineModeLocked ?t"
      using tm0 mode slave
      by (simp_all add: ttySetTermios_def flag_canon bit_xor_iff ttyLineModeLocked_def ttyQueueClearLocked_def Let_def)
    have "line_ok ?t = line_ok ?u" by (rule same_queue(1) [OF q])
    moreover have "raw_ok ?t = raw_ok ?u" by (simp only: raw_ok_def q)
    ultimately show ?thesis using inv0 now(2) cc m by (simp only: tty_inv_def) simp
  next
    case False
    then have "ty_queue ?t = ttyQueueRelabelLocked (bit (tm_lflags wanted) 1) (ty_queue ?u)"
      using tm0 by (simp add: ttySetTermios_def flag_canon bit_xor_iff ttyQueueClearLocked_def Let_def)
    then show ?thesis
      using relabel_ok [OF tty_inv_wf [OF inv0]] mode now cc by (simp add: tty_inv_def)
  qed
qed

subsection \<open>A terminal under all its operations\<close>

text \<open>One operation of any thread on the terminal. The calls of others that only write a field of it (the session, the
  foreground group, the window's size, exclusive use, the peer) are \<open>set_field\<close>.\<close>

inductive tty_op :: "Tty \<Rightarrow> Tty \<Rightarrow> bool" where
  op_input: "tty_op t (fst (fst (tty_input blocking len rest (t, run))))"
| op_read_slave: "\<not> ty_is_master t \<Longrightarrow> tty_op t (fst (snd (ttyReadSlaveLocked nonblocking n timed_out timer t)))"
| op_read_master: "ty_is_master t \<Longrightarrow> tty_op t (fst (ttyReadMasterLocked nonblocking n t))"
| op_output: "tty_op t (fst (ttyOutputByteLocked b t))"
| op_termios: "\<not> ty_is_master t \<Longrightarrow> length (tm_cc wanted) = 19 \<Longrightarrow> tty_op t (fst (ttySetTermios wanted flush_input t))"
| op_flush: "tty_op t (ttyQueueClearLocked t)"
| op_packet: "tty_op t (ttyPacketEvent set_bits clear_bits t)"
| op_eof_key: "tty_op t (fst (pscalTtyTakeEofKey t))"
| op_hang_up: "tty_op t (ttyMarkHungUp t)"
| op_reader: "tty_op t (pscalTtySetSessionReader t)"
| op_winsize: "tty_op t (fst (tty_set_winsize new_size t))"
| set_field: "ty_queue t' = ty_queue t \<Longrightarrow> ty_termios t' = ty_termios t \<Longrightarrow> ty_is_master t' = ty_is_master t \<Longrightarrow>
    tty_op t t'"

inductive tty_reachable :: "Tty \<Rightarrow> bool" where
  created: "tty_reachable (ttyCreate is_master num)"
| later: "tty_reachable t \<Longrightarrow> tty_op t t' \<Longrightarrow> tty_reachable t'"

lemma op_inv: "tty_op t t' \<Longrightarrow> tty_inv t \<Longrightarrow> tty_inv t'"
proof (induction rule: tty_op.induct)
  case (op_input t blocking len rest run)
  then show ?case using input_inv [of "(t, run)"] by simp
next
  case (op_read_slave t nonblocking n timed_out timer)
  then show ?case by (intro read_slave_inv)
next
  case (op_read_master t nonblocking n)
  then show ?case by (intro read_master_inv)
next
  case (op_output t b)
  then show ?case
    using undisplayed_eq [OF undisplayed_output [of b t]] tty_inv_same [of "fst (ttyOutputByteLocked b t)" t] by simp
next
  case (op_termios t wanted flush_input)
  then show ?case by (intro set_termios_inv)
next
  case (op_flush t)
  then show ?case by (intro clear_inv)
next
  case (op_packet t set_bits clear_bits)
  then show ?case using tty_inv_same [of "ttyPacketEvent set_bits clear_bits t" t] by (simp add: ttyPacketEvent_def)
next
  case (op_eof_key t)
  then show ?case using tty_inv_same [of "fst (pscalTtyTakeEofKey t)" t] by (simp add: pscalTtyTakeEofKey_def)
next
  case (op_hang_up t)
  then show ?case using tty_inv_same [of "ttyMarkHungUp t" t] by (simp add: ttyMarkHungUp_def)
next
  case (op_reader t)
  then show ?case using tty_inv_same [of "pscalTtySetSessionReader t" t] by (simp add: pscalTtySetSessionReader_def)
next
  case (op_winsize t new_size)
  then show ?case using tty_inv_same [of "fst (tty_set_winsize new_size t)" t] by (simp add: tty_set_winsize_def)
next
  case (set_field t' t)
  then show ?case using tty_inv_same by blast
qed

lemma reachable_inv: "tty_reachable t \<Longrightarrow> tty_inv t"
  by (induction rule: tty_reachable.induct) (auto intro: created_inv op_inv)

subsection \<open>Waiting\<close>

lemma edit_waits:
  assumes "edit_byte tm reader foreground b ed = None" "filled ed \<le> TTY_BUF_SIZE"
  shows "filled ed = TTY_BUF_SIZE \<and> ed_done ed \<noteq> []"
proof -
  have plain: "filled e = TTY_BUF_SIZE \<and> ed_done e \<noteq> []" if "add_text tm x e = None" "filled e \<le> TTY_BUF_SIZE" for x e
    using that by (auto simp: add_text_def split: if_splits)
  have line: "filled e = TTY_BUF_SIZE \<and> ed_done e \<noteq> []" if "end_line c e = None" "filled e \<le> TTY_BUF_SIZE" for c e
    using that by (auto simp: end_line_def split: if_splits)
  have emptied: "end_line c (emptied e) = Some ((emptied e)\<lparr>ed_done := [c]\<rparr>)" for c e
    by (simp add: end_line_def emptied_def filled_def)
  show ?thesis
    using assms plain line
    by (auto simp: edit_byte_def edit_def emptied Let_def split: if_split_asm Key.split_asm)
qed

lemma read_line_shorter:
  assumes ok: "line_ok tty" and r: "0 < tq_released (ty_queue tty)" and n: "0 < n"
  shows "length (snd (read_line n (ed_done (editor tty)))) < length (ed_done (editor tty))"
proof -
  obtain body c cs where cells: "queue_cells (ty_queue tty) = body @ c # cs"
    and body: "\<forall>b \<in> set body. cl_kind b = TTY_CELL_BYTE"
    and c: "cl_kind c \<noteq> TTY_CELL_BYTE" and len: "length body < tq_released (ty_queue tty)"
    by (rule released_line [OF ok r])
  have "ed_done (editor tty) = body @ c # take (tq_released (ty_queue tty) - length body - 1) cs"
    using len by (simp add: editor_def Let_def cells take_Cons')
  then show ?thesis using n by (auto simp: read_line_split [OF body c])
qed

lemma full_line_read:
  assumes ok: "line_ok t" and mode: "ttyLineModeLocked t" and up: "\<not> ttyIsDownLocked t" and n: "0 < n"
    and r: "0 < tq_released (ty_queue t)"
  shows "\<exists>t' data. ttyReadSlaveLocked nonblocking n False timer t = (timer, t', ReadReturns (Inr data))
    \<and> line_ok t' \<and> ttyLineModeLocked t' \<and> tq_used (ty_queue t') < tq_used (ty_queue t)"
proof -
  let ?c = "ttyCopyLineLocked n t"
  have "ttyReadSlaveLocked nonblocking n False timer t = (timer, fst ?c, ReadReturns (Inr (snd ?c)))"
    using mode up r by (simp add: ttyReadSlaveLocked_def returns_copy_def apsnd_def map_prod_def split_beta Let_def)
  moreover note keeps = copy_line_keeps [OF ok r, of n]
  have "filled (editor (fst ?c)) < filled (editor t)"
    using read_line_shorter [OF ok r n] keeps(2) by (simp add: filled_def)
  then have "tq_used (ty_queue (fst ?c)) < tq_used (ty_queue t)"
    using editor_lengths(3) [OF ok] editor_lengths(3) [OF keeps(1)] by simp
  ultimately show ?thesis using keeps mode by blast
qed

lemma room_taken:
  assumes inv: "tty_inv t" and room: "tq_used (ty_queue t) < TTY_BUF_SIZE"
  shows "snd (ttyInputByteLocked b (t, run))"
proof (cases "ttyLineModeLocked t")
  case True
  then have ok: "line_ok t" using inv by (simp add: tty_inv_def)
  have "edit_byte (ty_termios t) (ty_session_reader t) (ty_fg_group t \<noteq> 0) b (editor t) \<noteq> None"
    using edit_waits [of "ty_termios t" "ty_session_reader t" "ty_fg_group t \<noteq> 0" b "editor t"]
      editor_lengths(3) [OF ok] room by auto
  then show ?thesis
    using line_byte_refines [of "(t, run)" b] ok True by (auto simp: replies_def ttyInputByteLocked_def)
next
  case False
  then show ?thesis using inv room raw_byte(1) [of "(t, run)" b] by (simp add: tty_inv_def ttyInputByteLocked_def)
qed

lemma wait_means_full:
  assumes inv: "tty_inv t" and waits: "\<not> snd (ttyInputByteLocked b (t, run))"
  defines "t1 \<equiv> fst (fst (ttyInputByteLocked b (t, run)))"
  shows "tq_used (ty_queue t1) = TTY_BUF_SIZE" "ttyLineModeLocked t1 \<Longrightarrow> 0 < tq_released (ty_queue t1)"
    "ttyIsDownLocked t1 = ttyIsDownLocked t" "ty_is_master t1 = ty_is_master t"
proof -
  have "tq_used (ty_queue t1) = TTY_BUF_SIZE \<and> (ttyLineModeLocked t1 \<longrightarrow> 0 < tq_released (ty_queue t1))
    \<and> ttyIsDownLocked t1 = ttyIsDownLocked t \<and> ty_is_master t1 = ty_is_master t"
  proof (cases "ttyLineModeLocked t")
    case True
    then have ok: "line_ok t" using inv by (simp add: tty_inv_def)
    have t1: "t1 = fst (fst (ttyInputLineByteLocked b (t, run)))" using True by (simp add: t1_def ttyInputByteLocked_def)
    have none: "edit_byte (ty_termios t) (ty_session_reader t) (ty_fg_group t \<noteq> 0) b (editor t) = None"
      and e: "edits_to t (editor t) t1"
      using line_byte_refines [of "(t, run)" b] ok waits True
      by (auto simp: replies_def ttyInputByteLocked_def t1 split: option.splits)
    have "filled (editor t) = TTY_BUF_SIZE \<and> ed_done (editor t) \<noteq> []"
      using edit_waits [OF none] editor_lengths(3) [OF ok] line_ok_counts [OF ok] by simp
    then show ?thesis
      using editor_lengths(3) [OF edits_fields(1) [OF e]] done_empty [OF edits_fields(1) [OF e]] edits_fields(2) [OF e]
        input_keeps(5) [OF e] others_eq(4) [of t1 t] e by (auto simp: edits_to_def)
  next
    case False
    then have ok: "raw_ok t" using inv by (simp add: tty_inv_def)
    have raw: "\<not> snd (ttyInputRawByteLocked b (t, run))" using waits False by (simp add: ttyInputByteLocked_def)
    have "raw_signal t b = None" "\<not> tq_used (ty_queue t) < TTY_BUF_SIZE" using raw raw_byte(1) [of "(t, run)" b] ok by auto
    moreover have "tq_used (ty_queue t) \<le> TTY_BUF_SIZE" using ok by (simp add: raw_ok_def queue_wf_def)
    moreover have "t1 = t" using False calculation
      by (simp add: t1_def ttyInputByteLocked_def ttyInputRawByteLocked_def raw_signal_def Let_def split: if_splits)
    ultimately show ?thesis using False by simp
  qed
  then show "tq_used (ty_queue t1) = TTY_BUF_SIZE" "ttyLineModeLocked t1 \<Longrightarrow> 0 < tq_released (ty_queue t1)"
    "ttyIsDownLocked t1 = ttyIsDownLocked t" "ty_is_master t1 = ty_is_master t" by blast+
qed


lemma full_raw_read:
  assumes inv: "tty_inv t" and mode: "\<not> ttyLineModeLocked t" and up: "\<not> ttyIsDownLocked t" and n: "0 < n"
    and full: "tq_used (ty_queue t) = TTY_BUF_SIZE"
  shows "\<exists>t' data. ttyReadSlaveLocked nonblocking n False timer t = (timer, t', ReadReturns (Inr data))
    \<and> tty_inv t' \<and> tq_used (ty_queue t') < tq_used (ty_queue t)"
proof -
  let ?c = "ttyCopyRawLocked n t"
  have "unat (tm_cc (ty_termios t) ! VMIN) \<le> 255" using unsigned_less [where ?'a = nat, of "tm_cc (ty_termios t) ! VMIN"] by simp
  then have enough: "min (unat (tm_cc (ty_termios t) ! VMIN)) n \<le> tq_used (ty_queue t)"
    unfolding full TTY_BUF_SIZE_def by linarith
  have "ttyReadSlaveLocked nonblocking n False timer t = (timer, fst ?c, ReadReturns (Inr (snd ?c)))"
    using mode up full enough
    by (simp add: ttyReadSlaveLocked_def returns_copy_def apsnd_def map_prod_def split_beta Let_def)
  moreover have "tq_used (ty_queue (fst ?c)) < tq_used (ty_queue t)"
    using copy_raw_locked(2) [OF tty_inv_wf [OF inv], of n] n full by auto
  ultimately show ?thesis using copy_raw_inv [OF inv] by blast
qed

lemma waiting_byte_freed:
  assumes inv: "tty_inv t" and slave: "\<not> ty_is_master t" and up: "\<not> ttyIsDownLocked t" and n: "0 < n"
    and waits: "\<not> snd (ttyInputByteLocked b (t, run))"
  shows "\<exists>t' data. ttyReadSlaveLocked nonblocking n False timer (fst (fst (ttyInputByteLocked b (t, run))))
      = (timer, t', ReadReturns (Inr data)) \<and> snd (ttyInputByteLocked b (t', run'))"
proof -
  let ?t1 = "fst (fst (ttyInputByteLocked b (t, run)))"
  note full = wait_means_full [OF inv waits]
  have inv1: "tty_inv ?t1" using input_byte_inv [of "(t, run)" b] inv by simp
  have up1: "\<not> ttyIsDownLocked ?t1" using full(3) up by simp
  show ?thesis
  proof (cases "ttyLineModeLocked ?t1")
    case True
    then have ok: "line_ok ?t1" using inv1 by (simp add: tty_inv_def)
    obtain t' data where read: "ttyReadSlaveLocked nonblocking n False timer ?t1 = (timer, t', ReadReturns (Inr data))"
      and t': "line_ok t'" "ttyLineModeLocked t'" "tq_used (ty_queue t') < tq_used (ty_queue ?t1)"
      using full_line_read [OF ok True up1 n full(2) [OF True]] by blast
    have "tty_inv t'" using read_slave_inv [OF inv1, of nonblocking n False timer] read by simp
    then show ?thesis using read room_taken t'(3) full(1) by auto
  next
    case False
    then show ?thesis using full_raw_read [OF inv1 False up1 n full(1)] room_taken full(1) by (metis (no_types))
  qed
qed

text \<open>C15: On the process's side of a terminal that has not been hung up, a byte that has to wait for room is never
  waiting for a reader who waits too: the same side answers a read of any size at once, in line mode and in raw mode
  alike, and after that read the byte is taken. So the one who types on such a terminal and the process that reads it
  cannot deadlock, in any state and with any modes its operations can reach. The master's side is left out: there
  a read of one byte in packet mode answers the status alone and makes no room.\<close>

theorem waiting_writer_freed:
  assumes "tty_reachable t" "\<not> ty_is_master t" "\<not> ttyIsDownLocked t" "0 < n"
    and "\<not> snd (ttyInputByteLocked b (t, run))"
  shows "\<exists>t' data. ttyReadSlaveLocked nonblocking n False timer (fst (fst (ttyInputByteLocked b (t, run))))
      = (timer, t', ReadReturns (Inr data)) \<and> snd (ttyInputByteLocked b (t', run'))"
  by (rule waiting_byte_freed [OF reachable_inv [OF assms(1)] assms(2-5)])

subsection \<open>Polling\<close>

lemma poll_flags:
  "ttyFilePoll t AND POLL_READ \<noteq> 0 \<longleftrightarrow>
     ttyIsDownLocked t
     \<or> ty_is_master t \<and> (ty_packet_mode t \<and> ty_packet_status t \<noteq> 0 \<or> 0 < tq_used (ty_queue t))
     \<or> ttyLineModeLocked t \<and> 0 < tq_released (ty_queue t)
     \<or> \<not> ty_is_master t \<and> \<not> ttyLineModeLocked t
       \<and> (if tm_cc (ty_termios t) ! VTIME = 0 \<and> 0 < unat (tm_cc (ty_termios t) ! VMIN)
          then unat (tm_cc (ty_termios t) ! VMIN) else 1) \<le> tq_used (ty_queue t)"
  by (auto simp: ttyFilePoll_def ttyIsDownLocked_def ttyLineModeLocked_def POLL_READ_def POLL_PRI_def POLL_WRITE_def
      POLL_ERR_def POLL_HUP_def Let_def)

text \<open>C16: A poll that reports a terminal readable is never wrong: a read that is allowed does not answer that there is
  nothing yet, and a blocking read does not wait without a deadline, on either side, in every mode and state.\<close>

theorem polled_read_returns:
  assumes "ttyFilePoll t AND POLL_READ \<noteq> 0" "0 < n"
  shows "snd (ttyFileReadNonblocking None n t) \<noteq> Inl EAGAIN
    \<and> (if ty_is_master t then snd (ttyReadMasterLocked False n t)
       else snd (snd (ttyReadSlaveLocked False n False timer t))) \<noteq> ReadWaits False"
  using assms unfolding poll_flags
  by (auto simp: ttyFileReadNonblocking_def ttyReadSlaveLocked_def ttyReadMasterLocked_def returns_copy_def
      ttyLineModeLocked_def unat_eq_zero Let_def split_beta apsnd_def map_prod_def split: if_splits)


subsection \<open>The cursor\<close>

text \<open>A screen, as far as its cursor's column goes: \<open>utf8\<close> if continuation bytes take no column, \<open>lf_returns\<close> if a line
  feed goes to the first column. Its tab stops are at every multiple of eight.\<close>

definition screen_step :: "bool \<Rightarrow> bool \<Rightarrow> byte \<Rightarrow> u32 \<Rightarrow> u32" where
  "screen_step utf8 lf_returns b column =
     (if b = 0x0A then if lf_returns then 0 else column
      else if b = 0x0D then 0
      else if b = 0x09 then word_of_nat (8 * (unat column div 8 + 1))
      else if b = 0x08 then if column = 0 then 0 else column - 1
      else if b < 0x20 \<or> b = 0x7F \<or> (utf8 \<and> b AND 0xC0 = 0x80) then column
      else column + 1)"

fun output_bytes :: "byte list \<Rightarrow> Tty \<Rightarrow> Tty \<times> byte list" where
  "output_bytes [] tty = (tty, [])"
| "output_bytes (b # bs) tty =
     (let (tty, out) = ttyOutputByteLocked b tty; (tty, rest) = output_bytes bs tty in (tty, out @ rest))"

lemma spaces_move: "(screen_step utf8 lf 0x20 ^^ n) column = column + of_nat n"
  by (induction n) (simp_all add: screen_step_def)

lemma upper_case_shows:
  assumes "ttyByteIsLower b" "\<not> ttyByteIsControl b"
  shows "0x20 \<le> b - 0x20 \<and> b - 0x20 \<noteq> 0x7F"
proof -
  have b: "0x61 \<le> b \<and> b \<le> 0x7A \<or> 0xDF \<le> b" using assms(1) by (auto simp: ttyByteIsLower_def)
  then have "0x61 \<le> unat b \<and> unat b \<le> 0x7A \<or> 0xDF \<le> unat b" by (simp add: word_le_nat_alt)
  moreover have "(0x20 :: byte) \<le> b" using b by (auto simp: word_le_nat_alt)
  then have "unat (b - 0x20) = unat b - 0x20" using unat_sub [of "0x20" b] by simp
  ultimately show ?thesis by (auto simp: word_le_nat_alt word_unat_eq_iff)
qed

lemma next_tab_stop: "ttyNextTabStop column = word_of_nat (8 * (unat column div 8 + 1))"
proof -
  have "column - column mod 8 = 8 * (column div 8)" by (simp add: minus_mod_eq_mult_div)
  also have "\<dots> = word_of_nat (8 * (unat column div 8))"
    by (simp add: word_arith_nat_div [of column])
  finally show ?thesis by (simp add: ttyNextTabStop_def TTY_TAB_STOP_def algebra_simps)
qed

lemma output_byte_cursor:
  assumes post: "flag (tm_oflags (ty_termios t)) OPOST"
  shows "ty_column (fst (ttyOutputByteLocked b t)) =
    fold (screen_step (flag (tm_iflags (ty_termios t)) IUTF8) (flag (tm_oflags (ty_termios t)) ONLRET))
      (snd (ttyOutputByteLocked b t)) (ty_column t)"
proof -
  let ?f = "tm_oflags (ty_termios t)"
  let ?step = "screen_step (flag (tm_iflags (ty_termios t)) IUTF8) (flag ?f ONLRET)"
  consider "b = 0x0A" | "b = 0x0D" | "b = 0x09" | "b = 0x08"
    | "b \<noteq> 0x0A" "b \<noteq> 0x0D" "b \<noteq> 0x09" "b \<noteq> 0x08" "ttyByteIsControl b"
    | "b \<noteq> 0x0A" "b \<noteq> 0x0D" "b \<noteq> 0x09" "b \<noteq> 0x08" "\<not> ttyByteIsControl b" by blast
  then show ?thesis
  proof cases
    case 1
    have "flag ?f (ONLRET OR ONLCR) \<longleftrightarrow> flag ?f ONLRET \<or> flag ?f ONLCR"
    proof -
      have "?f AND (ONLRET OR ONLCR) = (?f AND ONLRET) OR (?f AND ONLCR)" by (rule bit.conj_disj_distrib)
      then show ?thesis by (simp add: flag_def or_eq_0_iff)
    qed
    then show ?thesis using 1 post by (auto simp: ttyOutputByteLocked_def screen_step_def Let_def)
  next
    case 2
    then show ?thesis using post by (auto simp: ttyOutputByteLocked_def screen_step_def Let_def)
  next
    case 3
    then show ?thesis using post
      by (auto simp: ttyOutputByteLocked_def screen_step_def spaces_move next_tab_stop Let_def)
  next
    case 4
    then show ?thesis using post by (auto simp: ttyOutputByteLocked_def screen_step_def word_gt_0 Let_def)
  next
    case 5
    then show ?thesis using post by (auto simp: ttyOutputByteLocked_def screen_step_def ttyByteIsControl_def Let_def)
  next
    case 6
    define c where "c = (if flag ?f OLCUC \<and> ttyByteIsLower b then b - 0x20 else b)"
    have c: "0x20 \<le> c" "c \<noteq> 0x7F"
      using upper_case_shows [of b] 6 by (auto simp: ttyByteIsControl_def c_def not_less)
    then have "\<not> c < 0x20" "c \<noteq> 0x0A" "c \<noteq> 0x0D" "c \<noteq> 0x09" "c \<noteq> 0x08" by auto
    then have "?step c (ty_column t) = (if ttyByteContinues (ty_termios t) c then ty_column t else ty_column t + 1)"
      using c(2) by (simp add: screen_step_def ttyByteContinues_def)
    moreover have "ttyOutputByteLocked b t =
        (if \<not> ttyByteContinues (ty_termios t) c then t\<lparr>ty_column := ty_column t + 1\<rparr> else t, [c])"
      using 6 post by (simp add: ttyOutputByteLocked_def c_def Let_def)
    ultimately show ?thesis by simp
  qed
qed

lemma output_cursor:
  "flag (tm_oflags (ty_termios t)) OPOST \<Longrightarrow>
    ty_column (fst (output_bytes bs t)) =
      fold (screen_step (flag (tm_iflags (ty_termios t)) IUTF8) (flag (tm_oflags (ty_termios t)) ONLRET))
        (snd (output_bytes bs t)) (ty_column t)"
proof (induction bs arbitrary: t)
  case (Cons b bs)
  have tm: "ty_termios (fst (ttyOutputByteLocked b t)) = ty_termios t"
    by (rule undisplayed_eq(2)) simp
  show ?case
    using Cons.IH [of "fst (ttyOutputByteLocked b t)"] Cons.prems output_byte_cursor [OF Cons.prems, of b]
    by (simp add: tm split_beta Let_def)
qed simp

text \<open>C17: While output is processed, the column the terminal keeps, from which tabs are expanded and rubbed out, is
  exactly where the bytes sent to the screen leave its cursor, on a screen whose tab stops are at every multiple of
  eight, whatever the other output flags: newlines and returns
  translated or suppressed, tabs expanded, letters raised, continuation bytes of UTF-8.\<close>

theorem column_is_cursor:
  assumes "flag (tm_oflags (ty_termios t)) OPOST"
  shows "ty_column (fst (output_bytes bs t)) =
    fold (screen_step (flag (tm_iflags (ty_termios t)) IUTF8) (flag (tm_oflags (ty_termios t)) ONLRET))
      (snd (output_bytes bs t)) (ty_column t)"
  by (rule output_cursor [OF assms])

text \<open>The bufferfuls of a write make up the output of all its bytes.\<close>

lemma fill_chunk_output:
  "output_bytes bs t =
    (let (t', rest, out) = fill_chunk bs chunk t; (t'', more) = output_bytes rest t' in
     (t'', drop (length chunk) out @ more)) \<and> take (length chunk) (snd (snd (fill_chunk bs chunk t))) = chunk"
proof (induction bs chunk t rule: fill_chunk.induct)
  case (2 b bs chunk tty)
  show ?case
  proof (cases "length chunk + TTY_OUTPUT_MAX \<le> TTY_WRITE_CHUNK")
    case True
    let ?o = "ttyOutputByteLocked b tty"
    have IH: "output_bytes bs (fst ?o) =
        (let (t', rest, out) = fill_chunk bs (chunk @ snd ?o) (fst ?o); (t'', more) = output_bytes rest t' in
         (t'', drop (length (chunk @ snd ?o)) out @ more))
        \<and> take (length (chunk @ snd ?o)) (snd (snd (fill_chunk bs (chunk @ snd ?o) (fst ?o)))) = chunk @ snd ?o"
      using 2(1) [OF True] by (metis prod.collapse)
    let ?out = "snd (snd (fill_chunk bs (chunk @ snd ?o) (fst ?o)))"
    have split: "take (length chunk) ?out = chunk" "drop (length chunk) ?out = snd ?o @ drop (length (chunk @ snd ?o)) ?out"
    proof -
      have out: "?out = (chunk @ snd ?o) @ drop (length (chunk @ snd ?o)) ?out"
        using IH by (metis append_take_drop_id)
      show "take (length chunk) ?out = chunk" by (subst out) simp
      show "drop (length chunk) ?out = snd ?o @ drop (length (chunk @ snd ?o)) ?out" by (subst out) simp
    qed
    show ?thesis using True IH split by (simp add: split_beta Let_def)
  next
    case False
    then show ?thesis by (simp add: split_beta Let_def)
  qed
qed simp

lemma output_byte_max: "length (snd (ttyOutputByteLocked b t)) \<le> TTY_OUTPUT_MAX"
proof -
  have stop: "unat (ttyNextTabStop c - c) \<le> 8" for c
  proof -
    have "ttyNextTabStop c - c = 8 - c mod 8" by (simp add: ttyNextTabStop_def TTY_TAB_STOP_def)
    also have "\<dots> \<le> 8"
    proof -
      have "c mod 8 \<le> 8" by (rule less_imp_le, rule word_mod_less_divisor) simp
      then show ?thesis by (rule word_sub_le)
    qed
    finally show ?thesis by (simp add: word_le_nat_alt)
  qed
  then show ?thesis using stop [of 0] by (simp add: ttyOutputByteLocked_def TTY_OUTPUT_MAX_def Let_def)
qed

lemma chunk_fits: "length chunk \<le> TTY_WRITE_CHUNK \<Longrightarrow> length (snd (snd (fill_chunk bs chunk t))) \<le> TTY_WRITE_CHUNK"
proof (induction bs chunk t rule: fill_chunk.induct)
  case (2 b bs chunk tty)
  then show ?case using output_byte_max [of b tty] by (auto simp: split_beta Let_def)
qed simp


definition collect :: "byte list \<Rightarrow> byte list list \<Rightarrow> byte list list \<times> (tty_error + nat)" where
  "collect chunk chunks = (chunks @ [chunk], Inr (length chunk))"

lemma write_through_output:
  "(case ttyWriteThrough collect bs delivered t chunks of (t', chunks', e) \<Rightarrow>
     t' = fst (output_bytes bs t) \<and> concat chunks' = concat chunks @ snd (output_bytes bs t) \<and> e = None
     \<and> ((\<forall>c \<in> set chunks. length c \<le> TTY_WRITE_CHUNK) \<longrightarrow> (\<forall>c \<in> set chunks'. length c \<le> TTY_WRITE_CHUNK)))"
proof (induction "length bs" arbitrary: bs delivered t chunks rule: less_induct)
  case less
  show ?case
  proof (cases "bs = []")
    case True
    then show ?thesis by (simp add: ttyWriteThrough.simps)
  next
    case False
    let ?c = "fill_chunk bs [] t"
    have short: "length (fst (snd ?c)) < length bs"
      by (rule fill_chunk_shorter [OF _ False]) (simp add: TTY_OUTPUT_MAX_def TTY_WRITE_CHUNK_def)
    have out: "output_bytes bs t = (let (t'', more) = output_bytes (fst (snd ?c)) (fst ?c) in (t'', snd (snd ?c) @ more))"
      using fill_chunk_output [of bs t "[]"] by (simp add: split_beta Let_def)
    have fits: "length (snd (snd ?c)) \<le> TTY_WRITE_CHUNK" using chunk_fits [of "[]" bs t] by simp
    have step: "ttyWriteThrough collect bs delivered t chunks =
        (if snd (snd ?c) = [] then ttyWriteThrough collect (fst (snd ?c)) delivered (fst ?c) chunks
         else ttyWriteThrough collect (fst (snd ?c)) True (fst ?c) (chunks @ [snd (snd ?c)]))"
      using False by (subst ttyWriteThrough.simps) (simp add: collect_def Let_def)
    let ?ch = "if snd (snd ?c) = [] then chunks else chunks @ [snd (snd ?c)]"
    obtain d where w: "ttyWriteThrough collect bs delivered t chunks = ttyWriteThrough collect (fst (snd ?c)) d (fst ?c) ?ch"
      using step by (cases "snd (snd ?c) = []") auto
    obtain t' chunks' e where r: "ttyWriteThrough collect (fst (snd ?c)) d (fst ?c) ?ch = (t', chunks', e)"
      by (rule prod_cases3)
    define more where "more = output_bytes (fst (snd ?c)) (fst ?c)"
    have IH: "t' = fst more \<and> concat chunks' = concat ?ch @ snd more \<and> e = None
        \<and> ((\<forall>c \<in> set ?ch. length c \<le> TTY_WRITE_CHUNK) \<longrightarrow> (\<forall>c \<in> set chunks'. length c \<le> TTY_WRITE_CHUNK))"
      using less.hyps [OF short, where delivered = d and t = "fst ?c" and chunks = ?ch] unfolding r more_def prod.case .
    have all: "output_bytes bs t = (fst more, snd (snd ?c) @ snd more)"
      using out by (simp add: more_def split_beta)
    show ?thesis
      unfolding w r all using IH fits by (cases "snd (snd ?c) = []") simp_all
  qed
qed

subsection \<open>Examples and divergences\<close>

lemma slave_flags [simp]:
  "flag (tm_lflags kSlaveTermios) ISIG" "flag (tm_lflags kSlaveTermios) ICANON" "flag (tm_lflags kSlaveTermios) ECHO"
  "flag (tm_lflags kSlaveTermios) ECHOE" "flag (tm_lflags kSlaveTermios) IEXTEN" "flag (tm_lflags kSlaveTermios) ECHOCTL"
  "\<not> flag (tm_lflags kSlaveTermios) ECHOPRT" "\<not> flag (tm_lflags kSlaveTermios) NOFLSH"
  "\<not> flag (tm_iflags kSlaveTermios) IGNCR" "flag (tm_iflags kSlaveTermios) ICRNL" "flag (tm_iflags kSlaveTermios) IXON"
  "\<not> flag (tm_iflags kSlaveTermios) INLCR" "\<not> flag (tm_iflags kSlaveTermios) ISTRIP"
  "\<not> flag (tm_iflags kSlaveTermios) IUCLC" "\<not> flag (tm_iflags kSlaveTermios) PARMRK"
  "\<not> flag (tm_iflags kSlaveTermios) IUTF8" "flag (tm_oflags kSlaveTermios) OPOST" "flag (tm_oflags kSlaveTermios) ONLCR"
  "\<not> flag (tm_oflags kSlaveTermios) OLCUC"
  by (simp_all add: flag_def kSlaveTermios_def)

lemma kSlaveTermios_cc:
  "tm_cc kSlaveTermios = [0x03, 0x1c, 0x7f, 0x15, 0x04, 0, 1, 0, 0x11, 0x13, 0x1a, 0, 0x12, 0x0f, 0x17, 0x16, 0, 0, 0]"
  by (simp add: kSlaveTermios_def)

lemma slave_created [simp]:
  "ty_termios (ttyCreate False num) = kSlaveTermios" "\<not> ty_is_master (ttyCreate False num)"
  "\<not> ty_session_reader (ttyCreate False num)" "ty_fg_group (ttyCreate False num) = 0"
  "ttyLineModeLocked (ttyCreate False num)" "\<not> ttyIsDownLocked (ttyCreate False num)"
  "editor (ttyCreate False num) = \<lparr>ed_done = [], ed_text = [], ed_literal = False\<rparr>"
  by (simp_all add: ttyCreate_def ttyLineModeLocked_def ttyIsDownLocked_def editor_def Let_def)

text \<open>C14: A terminal in line mode is a line editor. Whatever is typed and read in whatever order, and whatever the
  mode flags and keys, every call answers what the editor of \<open>TtyEdit\<close> answers: bytes are counted as accepted, erased by
  character and word, quoted, turned into signals or dropped as the editor says, and a reader gets exactly the
  editor's finished lines, one per read, in pieces if it asks for less, with end-of-file marks as reads of nothing.\<close>

theorem terminal_is_line_editor:
  assumes "line_ok tty" "ttyLineModeLocked tty" "\<not> ttyIsDownLocked tty"
  shows "terminal_session acts tty =
    editor_session (ty_termios tty) (ty_session_reader tty) (ty_fg_group tty \<noteq> 0) acts (editor tty)"
  by (rule session_refines [OF assms])

text \<open>Typing l, x, the erase key, s and return, then reading in two pieces.\<close>

lemma slave_text:
  assumes "0x20 \<le> b" "b < 0x7F" "\<not> ed_literal ed"
  shows "edit_byte kSlaveTermios reader fg b ed = add_text kSlaveTermios b ed"
proof -
  have "b \<noteq> 0" "b \<noteq> 0x03" "b \<noteq> 0x1C" "b \<noteq> 0x7F" "b \<noteq> 0x15" "b \<noteq> 0x04" "b \<noteq> 0x1A" "b \<noteq> 0x12" "b \<noteq> 0x17"
    "b \<noteq> 0x16" "b \<noteq> 0x0A" "b \<noteq> 0x0D"
    using assms(1,2) by auto
  then show ?thesis
    using assms(3)
    by (simp add: edit_byte_def key_of_def ttyInputMapped_def line_byte_def ttyByteIs_def kSlaveTermios_cc edit_def
        ttyKeySignalIndex_def Let_def)
qed

lemma slave_keys:
  "\<not> ed_literal ed \<Longrightarrow> edit_byte kSlaveTermios reader fg 0x7F ed = Some (ed\<lparr>ed_text := concat (butlast (chars kSlaveTermios (ed_text ed)))\<rparr>)"
  "\<not> ed_literal ed \<Longrightarrow> edit_byte kSlaveTermios reader fg 0x0D ed = end_line \<lparr>cl_byte = 0x0A, cl_kind = TTY_CELL_LINE_END\<rparr> ed"
  by (simp_all add: edit_byte_def key_of_def ttyInputMapped_def line_byte_def ttyByteIs_def kSlaveTermios_cc edit_def Let_def)


lemma terminal_is_line_editor_witness:
  "terminal_session [Types [0x6C, 0x78, 0x7F, 0x73, 0x0D], Reads 2, Reads 9, Reads 9] (ttyCreate False 0) =
    [Typed (Inr 5), Got (Inr [0x6C, 0x73]), Got (Inr [0x0A]), Got (Inl EAGAIN)]"
  unfolding terminal_is_line_editor [OF created_line_ok slave_created(5,6)]
  by (simp add: slave_text slave_keys add_text_def end_line_def filled_def TTY_BUF_SIZE_def ttyInputDoubles_def
      text_cell_def ttyByteContinues_def read_line_def)


text \<open>A terminal with a finished line and 4095 bytes of the next: a further byte waits, and a read frees it.\<close>

lemma type_many:
  "\<lbrakk>\<not> ed_literal ed; ed_done ed \<noteq> []; filled ed + k \<le> TTY_BUF_SIZE\<rbrakk> \<Longrightarrow>
    edit_bytes kSlaveTermios reader fg (replicate k 0x61) ed = (ed\<lparr>ed_text := ed_text ed @ replicate k 0x61\<rparr>, [])"
proof (induction k arbitrary: ed)
  case (Suc k)
  let ?ed = "ed\<lparr>ed_text := ed_text ed @ [0x61]\<rparr>"
  have step: "edit_byte kSlaveTermios reader fg 0x61 ed = Some ?ed"
    using Suc.prems by (simp add: slave_text add_text_def ttyInputDoubles_def)
  have "edit_bytes kSlaveTermios reader fg (replicate k 0x61) ?ed = (?ed\<lparr>ed_text := ed_text ?ed @ replicate k 0x61\<rparr>, [])"
    by (rule Suc.IH) (use Suc.prems in \<open>simp_all add: filled_def\<close>)
  then show ?case using step by (simp add: replicate_app_Cons_same)
qed simp

definition full_terminal :: Tty where
  "full_terminal = fst (tty_input_nonblocking (0x0A # replicate 4095 0x61) (ttyCreate False 0))"

lemma full_terminal:
  "edits_to (ttyCreate False 0)
    \<lparr>ed_done = [\<lparr>cl_byte = 0x0A, cl_kind = TTY_CELL_LINE_END\<rparr>], ed_text = replicate 4095 0x61, ed_literal = False\<rparr> full_terminal"
proof -
  let ?ed = "\<lparr>ed_done = [\<lparr>cl_byte = 0x0A, cl_kind = TTY_CELL_LINE_END\<rparr>], ed_text = [], ed_literal = False\<rparr>"
  have nl: "edit_byte kSlaveTermios False False 0x0A \<lparr>ed_done = [], ed_text = [], ed_literal = False\<rparr> = Some ?ed"
    by (simp add: edit_byte_def key_of_def ttyInputMapped_def line_byte_def ttyByteIs_def kSlaveTermios_cc edit_def
        end_line_def filled_def Let_def)
  have "edit_bytes kSlaveTermios False False (replicate 4095 0x61) ?ed = (?ed\<lparr>ed_text := [] @ replicate 4095 0x61\<rparr>, [])"
    using type_many [of ?ed 4095] by (simp add: filled_def TTY_BUF_SIZE_def)
  then have "edit_bytes kSlaveTermios False False (0x0A # replicate 4095 0x61) \<lparr>ed_done = [], ed_text = [], ed_literal = False\<rparr>
      = (?ed\<lparr>ed_text := replicate 4095 0x61\<rparr>, [])"
    using nl by simp
  then show ?thesis
    using input_nonblocking_edits [OF created_line_ok slave_created(5), of 0 "0x0A # replicate 4095 0x61"]
    by (simp add: full_terminal_def Let_def)
qed

lemma full_terminal_waits:
  "tty_reachable full_terminal" "\<not> ty_is_master full_terminal" "\<not> ttyIsDownLocked full_terminal"
  "\<not> snd (ttyInputByteLocked 0x61 (full_terminal, new_run))"
proof -
  have "full_terminal = fst (fst (tty_input False 4096 (0x0A # replicate 4095 0x61) (ttyCreate False 0, new_run)))"
    by (simp add: full_terminal_def tty_input_nonblocking_def split_beta)
  then show "tty_reachable full_terminal" using tty_reachable.later [OF tty_reachable.created op_input] by metis
  note e = full_terminal
  show "\<not> ty_is_master full_terminal" "\<not> ttyIsDownLocked full_terminal"
    using others_eq(4) [of full_terminal "ttyCreate False 0"] input_keeps(5) [OF e] e by (simp_all add: edits_to_def)
  have "edit_byte kSlaveTermios False False 0x61 (editor full_terminal) = None"
    unfolding edits_fields(2) [OF e] by (simp add: slave_text add_text_def filled_def TTY_BUF_SIZE_def)
  then show "\<not> snd (ttyInputByteLocked 0x61 (full_terminal, new_run))"
    using line_byte_refines [of "(full_terminal, new_run)" "0x61"] edits_fields(1) [OF e] input_keeps [OF e]
    by (simp add: replies_def ttyInputByteLocked_def)
qed

lemma waiting_writer_freed_witness:
  "\<not> snd (ttyInputByteLocked 0x61 (full_terminal, new_run))
    \<and> (\<exists>t' data. ttyReadSlaveLocked False 1 False no_timer (fst (fst (ttyInputByteLocked 0x61 (full_terminal, new_run))))
        = (no_timer, t', ReadReturns (Inr data)) \<and> snd (ttyInputByteLocked 0x61 (t', new_run)))"
  using waiting_writer_freed [OF full_terminal_waits(1-3) _ full_terminal_waits(4), where n = 1 and nonblocking = False
      and timer = no_timer and run' = new_run]
    full_terminal_waits(4) by simp

lemma polled_read_returns_witness:
  "ttyFilePoll full_terminal AND POLL_READ \<noteq> 0 \<and> snd (ttyFileReadNonblocking None 80 full_terminal) \<noteq> Inl EAGAIN"
proof -
  have "0 < tq_released (ty_queue full_terminal)" "ttyLineModeLocked full_terminal"
    using done_empty [OF edits_fields(1) [OF full_terminal]] edits_fields(2) [OF full_terminal]
      input_keeps(4) [OF full_terminal] by simp_all
  then have "ttyFilePoll full_terminal AND POLL_READ \<noteq> 0" by (simp only: poll_flags) simp
  then show ?thesis using polled_read_returns [where t = full_terminal and n = 80] by simp
qed

text \<open>A letter, a tab and a newline in the first columns.\<close>

lemma column_is_cursor_witness:
  "ty_column (fst (output_bytes [0x61, 0x09, 0x62] (ttyCreate False 0))) = 9
    \<and> fold (screen_step False False) [0x61, 0x09, 0x62] 0 = 9"
proof -
  have out: "snd (output_bytes [0x61, 0x09, 0x62] (ttyCreate False 0)) = [0x61, 0x09, 0x62]" and col: "ty_column (ttyCreate False 0) = 0"
    and lf: "\<not> flag (tm_oflags kSlaveTermios) ONLRET"
    by (simp_all add: ttyOutputByteLocked_def ttyCreate_def kSlaveTermios_def flag_def ttyByteIsControl_def ttyByteContinues_def Let_def)
  have "fold (screen_step False False) [0x61, 0x09, 0x62] 0 = 9"
    by (simp add: screen_step_def)
  then show ?thesis
    using column_is_cursor [of "ttyCreate False 0" "[0x61, 0x09, 0x62]"] out col lf by simp
qed

text \<open>A read whose timer runs out copies from the queue whatever the mode has become: in line mode it hands out a line
  that is still being typed.\<close>

lemma timed_out_read_ignores_mode:
  assumes "line_ok t" "ttyLineModeLocked t" "tq_released (ty_queue t) = 0" "ed_text (editor t) \<noteq> []" "0 < n"
  shows "snd (snd (ttyReadSlaveLocked False n True timer t)) = ReadReturns (Inr (take n (ed_text (editor t))))"
  using copy_raw_locked(1) [OF line_ok_wf [OF assms(1)], of n] assms(3)
  by (simp add: ttyReadSlaveLocked_def returns_copy_def editor_def take_map apsnd_def map_prod_def split_beta Let_def)

text \<open>With the default modes, the key that restarts output is typed as text, shown as it is in no column, and rubbed out
  as two columns.\<close>

lemma flow_key_rubs_out_two:
  assumes "ty_termios (fst s) = kSlaveTermios"
  shows "ty_column (fst (ttyEchoCharLocked 0x11 s)) = ty_column (fst s)"
    and "snd (ttyLastCharSizeLocked (fst s)) = 0x11 \<Longrightarrow> 1 < ty_column (fst s) \<Longrightarrow>
      ty_column (fst (ttyEraseCharLocked True s)) = ty_column (fst s) - 2"
proof -
  have "\<not> ttyShowsAsControl kSlaveTermios 0x11" by (simp add: ttyShowsAsControl_def ttyByteIs_def kSlaveTermios_cc)
  then show "ty_column (fst (ttyEchoCharLocked 0x11 s)) = ty_column (fst s)"
    using assms by (simp add: ttyEchoCharLocked_def ttyOutputByteLocked_def ttyByteIsControl_def Let_def)
  have rub: "ty_column (fst (ttyEchoRubOutLocked r)) = ty_column (fst r) - 1"
      "ty_termios (fst (ttyEchoRubOutLocked r)) = kSlaveTermios"
    if "ty_termios (fst r) = kSlaveTermios" "0 < ty_column (fst r)" for r
    using that undisplayed_eq(2) [OF undisplayed_echo(3) [of r]]
    by (auto simp: ttyEchoRubOutLocked_def ttyOutputByteLocked_def ttyByteIsControl_def ttyByteContinues_def word_gt_0 Let_def)
  assume first: "snd (ttyLastCharSizeLocked (fst s)) = 0x11" and col: "1 < ty_column (fst s)"
  define r where "r = apfst (\<lambda>tty. tty\<lparr>ty_queue := (ty_queue (fst s))\<lparr>tq_used :=
      tq_used (ty_queue (fst s)) - fst (ttyLastCharSizeLocked (fst s))\<rparr>\<rparr>) s"
  have "ttyEraseCharLocked True s = ttyEchoRubOutLocked (ttyEchoRubOutLocked r)"
    using assms first by (simp add: ttyEraseCharLocked_def r_def ttyByteIsControl_def Let_def)
  moreover have "ty_termios (fst r) = kSlaveTermios" "ty_column (fst r) = ty_column (fst s)"
    using assms by (simp_all add: r_def)
  moreover have "0 < ty_column (fst s)" "0 < ty_column (fst s) - 1"
    using col by (auto simp: word_gt_0)
  ultimately show "ty_column (fst (ttyEraseCharLocked True s)) = ty_column (fst s) - 2"
    using rub [of r] rub [of "ttyEchoRubOutLocked r"] by simp
qed

end
