(* ===== verification/Spec2Isabelle.thy ===== *)
theory Spec2Isabelle
  imports Prelude Opcodes Diagmap Chunk Symtab Linker Verifier VerifierWalk VerifierSound VmStack Codec Psb3 Psb3File AstCodec TypeRegistry MapObj Utf8 Tagged ValueCodec FxPolicy VmArith VmArray Channel JobQueue VmMutex VmSet VmExpr ExprCompiler ConstFold Paths TtyQueue TtyLine TtyEdit TtyFile TtySession
begin

text \<open>
  This library models the core of PSCAL: the bytecode of its virtual machine and everything that decides
  whether bytecode may run, the files bytecode is cached in, the run-time data and synchronisation objects
  of the machine, the part of the compiler that translates and folds expressions, the mapping of paths
  into the container, and the emulated terminals. File names are relative to \<open>src/src/\<close>; a definition keeps the name of its C function,
  and where a function is split, the helper's comment names the part it stands for.

  \<^bold>\<open>How the program works.\<close> A front end parses a program into a syntax tree and fills the type registry and the
  symbol tables. \<open>compiler/compiler.c\<close> folds constant expressions and emits instructions and constants into a
  \<open>BytecodeChunk\<close>; each emitted byte records a source line. The chunk and its tables are written to a PSB3
  file (\<open>core/cache.c\<close>) and read back by later runs. Before a chunk runs, \<open>bytecode_link.c\<close> replaces the name
  index in every global access by a slot number, and \<open>bytecode_verify.c\<close> checks the instruction stream, all
  operands, the upvalues and the depth of the operand stack. \<open>vm/vm.c\<close> then interprets it: values are tagged
  64-bit words, heap objects are reference counted, every built-in call passes the effect gate, and threads
  meet in job queues, channels and mutexes. Paths a program names go through \<open>common/path_truncate.c\<close>. On hosts
  without processes \<open>runtime/vproc\<close> emulates them, with terminals of their own.

  \<^bold>\<open>Theories.\<close>
  \<^item> \<open>Prelude\<close>: integer types, results that are an error or a value, checked array reads, byte orders, the
    character classes of the C locale, and the interfaces several components share: \<open>byte_sink\<close> (an
    append-only output; interpreted by the chunk's code and by the cache's buffer), \<open>lookup_table\<close> (a keyed
    table and its laws; by the symbol table, the type registry and the run-time maps), \<open>interning\<close> (a pool
    in which equal entries share an index; by the constant pool and the slot table).
  \<^item> \<open>Opcodes\<close> (\<open>compiler/opcodes.def\<close>), \<open>Diagmap\<close> (\<open>core/diagmap.c\<close>), \<open>Chunk\<close> (\<open>compiler/bytecode.c\<close>, \<open>bytecode.h\<close>):
    the table of instructions, the map from rewritten to source lines, the chunk with its constant pool and the
    decoder of instruction lengths.
  \<^item> \<open>Symtab\<close> (\<open>symbol/symbol.c\<close>): hash tables of symbols, aliases, scopes. \<open>TypeRegistry\<close> (\<open>core/type_registry.c\<close>):
    the registry of types and its section of a cache file.
  \<^item> \<open>Linker\<close> (\<open>compiler/bytecode_link.c\<close>): a link reads only inside the code, and rewrites every access so that
    it denotes the slot of the name it denoted before.
  \<^item> \<open>Verifier\<close>, \<open>VerifierWalk\<close>, \<open>VerifierSound\<close> (\<open>compiler/bytecode_verify.c\<close>): the passes over instructions and
    upvalues, the walk over stack depths, and what acceptance guarantees. Reads and writes of the tables the verifier
    allocates are checked as those of the code are. \<open>reach\<close> is its own, abstract execution of a frame, an inductive
    relation; the lemmas about it go by rule induction from the invariant of the worklist.
  \<^item> \<open>VmStack\<close> (\<open>vm/vm.c\<close>): what the handler of every opcode reads, pushes, pops and peeks, and where it goes,
    written down from the interpreter and not from the opcode page or the verifier. \<open>vm_exec\<close> is the execution of a
    frame with these handlers; acceptance is sound for it. It also shows an accepted chunk that underflows, because
    verifier and interpreter resolve a shadowed name differently.
  \<^item> \<open>Codec\<close>, \<open>Psb3\<close>, \<open>Psb3File\<close>, \<open>AstCodec\<close>, \<open>ValueCodec\<close> (\<open>core/cache.c\<close>): the bytes of a PSB3 file from the
    integer primitives up to the container. The locale \<open>codec\<close> states what a writer and a reader owe each other
    and is interpreted at every integer width, both varints, the META section, the directory entry and syntax
    trees; its lemmas on sequences give the round trips of sections. \<open>safe\<close> says that a reader never touches
    memory outside its section, and is closed under composition.
  \<^item> \<open>Tagged\<close> (\<open>core/obj_header.h\<close>, \<open>core/obj_header.c\<close>, \<open>core/types.h\<close>): NaN-boxed words, setters and getters, and
    reference counts under interleaved atomic operations. \<open>MapObj\<close> (\<open>core/utils.c\<close>): the insertion-ordered hash
    map, a refinement of an association list. \<open>Utf8\<close> (\<open>core/utils.c\<close>): the text primitives against the encoder.
  \<^item> \<open>FxPolicy\<close> (\<open>vm/vm_fx_policy.c\<close>, \<open>core/effect_mask.h\<close>): deny lists and the journal of calls; what is recorded
    replays to the stored form of the same results and of the same writes through pointers, or runs live.
  \<^item> \<open>VmArith\<close>, \<open>VmArray\<close>, \<open>VmSet\<close> (\<open>vm/vm.c\<close>): integer instructions, array positions and sets, against the
    integers, the row-major position and finite sets.
  \<^item> \<open>Channel\<close>, \<open>JobQueue\<close>, \<open>VmMutex\<close> (\<open>vm/vm.c\<close>): each stretch of code under one lock is a step, and threads
    interleave steps. The locale \<open>fifo\<close> is the contract of a bounded queue; the channel's ring and the linked
    list of jobs are its interpretations.
  \<^item> \<open>VmExpr\<close> (\<open>vm/vm.c\<close>), \<open>ExprCompiler\<close>, \<open>ConstFold\<close> (\<open>compiler/compiler.c\<close>): the instructions a compiled
    expression uses, the compiler of expressions, and the constant folder. Compiled code pushes the value of the
    expression or stops with its error; the folder agrees with the compiled code on signed constants, less the shapes
    on which lemmas show that they differ.
  \<^item> \<open>Paths\<close> (\<open>common/path_truncate.c\<close>): normalisation, the container prefix, mounts, expansion and stripping.
  \<^item> \<open>TtyQueue\<close>, \<open>TtyLine\<close>, \<open>TtyFile\<close> (\<open>runtime/vproc/tty/pscal_tty.c\<close>, \<open>pscal_tty.h\<close>): the terminals emulated processes
    use: the ring of input cells (the third interpretation of \<open>fifo\<close>), output processing, echo, the editing keys,
    input in line mode and raw mode, and the operations of an open terminal: input, reads, bufferfuls of a write,
    polls, mode changes. \<open>TtyEdit\<close> is an abstract line editor (a list of finished lines and a text) which every
    byte of input refines; \<open>TtySession\<close> extends that to whole sessions of typing and reading, gives the invariant of
    every reachable terminal, and derives from it that on the process's side waiting writers are freed by readers, that polls are never
    wrong, and that the kept column is the cursor's.
  \<^bold>\<open>Conventions.\<close> C integers are words of their width, and conversions are written where the code converts;
  sizes and positions that the code keeps in \<open>size_t\<close> or \<open>int\<close> and that cannot overflow for objects that fit in
  memory are natural numbers. Failing is a value: \<open>None\<close>, or \<open>Inl\<close> of an error. Reads of untrusted bytes are
  checked reads, and safety is that no input makes one fail. Undefined behaviour the code can reach is an
  answer of its own. Allocation succeeds unless a theory says otherwise.

  \<^bold>\<open>Bounds and fuel.\<close> The worklist walk of the verifier is a function with a termination proof, since a step either
  lets a position learn something about its depth or takes an item off the list. The rebuild of a map's index is
  given as many probes as there are slots, which suffices as one is free. The readers of trees and values
  recurse on the nesting levels that are left, \<open>CACHE_MAX_NESTING\<close> at the start, as the code counts them. The
  walks along the linked list of jobs are partial functions, proved to return on every well-formed queue.
  Every other recursion is structural or has a termination proof.

  \<^bold>\<open>Not modelled.\<close> What the remaining instructions of the interpreter loop compute (calls, variables, strings, reals,
  records, threads), beyond their use of the operand stack; statements and declarations of the compiler, and the semantic passes over syntax trees: their state
  is the whole machine with shared mutable values. The built-in routines, the emulated processes, the shell, graphics
  and extensions are glue around the host, whose results are not determined by this code. Conversions between floating-point formats, the
  release of memory, and the texts of messages are left out throughout; the parameters of each theory (the
  clock, the environment, files, real arithmetic) are named in its opening text.
\<close>

end
